(* ===== verification/BreadPrelude.thy ===== *)
theory BreadPrelude
  imports Main "HOL-Library.Word"
begin

text \<open>
  Shared vocabulary of the development: C strings and character classes of the
  \<^verbatim>\<open><ctype.h>\<close> functions the code calls, \<^verbatim>\<open>snprintf\<close> truncation, numbers
  as text, and the generic list lemmas the components use.
  A C string is the list of the characters before its terminating NUL; the read
  \<^verbatim>\<open>**code == '\0'\<close> of the source is the test for the empty list.
\<close>

named_theorems cursor_simps \<open>facts about cursors (the rest of the text) in the parsers\<close>
named_theorems outcome_simps \<open>how outcomes are sequenced\<close>

section \<open>C strings and characters\<close>

type_synonym cstring = "char list"

definition NUL :: char where
  "NUL = CHR 0x00"

definition cstr :: "char list \<Rightarrow> cstring" where
  \<comment> \<open>what \<^verbatim>\<open>strcmp\<close>, \<^verbatim>\<open>strlen\<close> and \<^verbatim>\<open>%s\<close> see of a byte buffer\<close>
  "cstr bs = takeWhile (\<lambda>c. c \<noteq> NUL) bs"

definition isspace :: "char \<Rightarrow> bool" where
  \<comment> \<open>space, \<^verbatim>\<open>\t \n \v \f \r\<close>\<close>
  "isspace c \<longleftrightarrow> c = CHR '' '' \<or> (9 \<le> (of_char c :: nat) \<and> (of_char c :: nat) \<le> 13)"

definition isdigit :: "char \<Rightarrow> bool" where
  "isdigit c \<longleftrightarrow> 48 \<le> (of_char c :: nat) \<and> (of_char c :: nat) \<le> 57"

definition isalpha :: "char \<Rightarrow> bool" where
  "isalpha c \<longleftrightarrow> (65 \<le> (of_char c :: nat) \<and> (of_char c :: nat) \<le> 90) \<or>
     (97 \<le> (of_char c :: nat) \<and> (of_char c :: nat) \<le> 122)"

definition is_ident_start :: "char \<Rightarrow> bool" where
  "is_ident_start c \<longleftrightarrow> isalpha c \<or> c = CHR ''_''"

definition is_ident_char :: "char \<Rightarrow> bool" where
  "is_ident_char c \<longleftrightarrow> isalpha c \<or> isdigit c \<or> c = CHR ''_''"

definition snprintf_s :: "nat \<Rightarrow> cstring \<Rightarrow> cstring" where
  \<comment> \<open>the text \<^verbatim>\<open>snprintf\<close> leaves in a buffer of \<open>n\<close> bytes\<close>
  "snprintf_s n s = take (n - 1) s"

definition starts_with :: "(char \<Rightarrow> bool) \<Rightarrow> cstring \<Rightarrow> bool" where
  "starts_with P s = (case s of [] \<Rightarrow> False | c # _ \<Rightarrow> P c)"

definition at_char :: "char \<Rightarrow> cstring \<Rightarrow> bool" where
  \<comment> \<open>the test \<^verbatim>\<open>**code == c\<close>\<close>
  "at_char c s = (case s of [] \<Rightarrow> False | d # _ \<Rightarrow> d = c)"

lemma at_char_simps [simp]:
  "at_char c [] = False" "at_char c (d # s) = (d = c)"
  by (simp_all add: at_char_def)

lemma starts_with_simps [simp]:
  "starts_with P [] = False" "starts_with P (d # s) = P d"
  by (simp_all add: starts_with_def)

lemma at_char_Cons: "at_char c s \<Longrightarrow> s = c # tl s"
  by (cases s) auto

lemma starts_with_append: "s \<noteq> [] \<Longrightarrow> starts_with P (s @ t) = starts_with P s"
  by (cases s) auto

lemma ident_start_char: "is_ident_start c \<Longrightarrow> is_ident_char c"
  by (auto simp: is_ident_start_def is_ident_char_def)

lemma ident_not_space: "is_ident_char c \<Longrightarrow> \<not> isspace c"
  by (auto simp: is_ident_char_def isspace_def isalpha_def isdigit_def)

lemma length_snprintf_s: "0 < n \<Longrightarrow> length (snprintf_s n s) < n"
  by (simp add: snprintf_s_def)

lemma snprintf_s_fits: "length s < n \<Longrightarrow> snprintf_s n s = s"
  by (simp add: snprintf_s_def)

section \<open>Lists\<close>

lemma dropWhile_suffix_length: "length (dropWhile P s) \<le> length s"
  by (simp add: length_dropWhile_le)

lemma takeWhile_append_stop:
  "\<forall>x \<in> set xs. P x \<Longrightarrow> \<not> starts_with P ys \<Longrightarrow> takeWhile P (xs @ ys) = xs"
  by (induction xs) (auto split: list.splits simp: starts_with_def)

lemma dropWhile_append_stop:
  "\<forall>x \<in> set xs. P x \<Longrightarrow> \<not> starts_with P ys \<Longrightarrow> dropWhile P (xs @ ys) = ys"
  by (induction xs) (auto split: list.splits simp: starts_with_def)

lemma dropWhile_not_starts: "\<not> starts_with P s \<Longrightarrow> dropWhile P s = s"
  by (cases s) auto

lemma tl_length_less: "s \<noteq> [] \<Longrightarrow> length (tl s) < length s"
  by (cases s) auto

section \<open>Numbers in messages\<close>

fun show_nat :: "nat \<Rightarrow> char list" where
  "show_nat n = (if n < 10 then [char_of (48 + n)] else show_nat (n div 10) @ [char_of (48 + n mod 10)])"

declare show_nat.simps [simp del]

definition show_int :: "int \<Rightarrow> char list" where
  \<comment> \<open>\<^verbatim>\<open>%d\<close>\<close>
  "show_int i = (if i < 0 then ''-'' @ show_nat (nat (- i)) else show_nat (nat i))"

end
