(* ===== verification/BreadTypes.thy ===== *)
theory BreadTypes
  imports BreadPrelude
begin

text \<open>
  Types of the language: \<^verbatim>\<open>VarType\<close> and \<^verbatim>\<open>TypeDescriptor\<close> of
  \<^verbatim>\<open>include/core/var.h\<close>, the operations of \<^verbatim>\<open>src/core/type_descriptor.c\<close>, and the
  reader of written types of \<^verbatim>\<open>src/compiler/ast/ast_types.c\<close>.
  A \<^verbatim>\<open>TypeDescriptor*\<close> that the code tests for NULL is an option. The union of
  the C struct is the choice of constructor; \<open>TPrim\<close> is a descriptor none of whose union
  members is read. Allocation does not fail in the model. The method fields of a class
  descriptor are created empty and never written by the program; they are left out.
\<close>

section \<open>Data\<close>

datatype VarType = TYPE_STRING | TYPE_INT | TYPE_BOOL | TYPE_FLOAT | TYPE_DOUBLE | TYPE_ARRAY
  | TYPE_DICT | TYPE_OPTIONAL | TYPE_STRUCT | TYPE_CLASS | TYPE_NIL

fun vartype_code :: "VarType \<Rightarrow> nat" where
  \<comment> \<open>the value of the enumerator\<close>
  "vartype_code TYPE_STRING = 0" | "vartype_code TYPE_INT = 1" | "vartype_code TYPE_BOOL = 2"
| "vartype_code TYPE_FLOAT = 3" | "vartype_code TYPE_DOUBLE = 4" | "vartype_code TYPE_ARRAY = 5"
| "vartype_code TYPE_DICT = 6" | "vartype_code TYPE_OPTIONAL = 7" | "vartype_code TYPE_STRUCT = 8"
| "vartype_code TYPE_CLASS = 9" | "vartype_code TYPE_NIL = 10"

lemma vartype_code_inj: "vartype_code s = vartype_code t \<longleftrightarrow> s = t"
  by (cases s; cases t) simp_all

instantiation VarType :: linorder
begin

definition less_eq_VarType :: "VarType \<Rightarrow> VarType \<Rightarrow> bool" where
  "less_eq_VarType s t \<longleftrightarrow> vartype_code s \<le> vartype_code t"

definition less_VarType :: "VarType \<Rightarrow> VarType \<Rightarrow> bool" where
  "less_VarType s t \<longleftrightarrow> vartype_code s < vartype_code t"

instance
  by standard (auto simp: less_eq_VarType_def less_VarType_def vartype_code_inj [symmetric])

end

datatype TypeDescriptor =
    TPrim VarType
  | TArray TypeDescriptor
  | TDict TypeDescriptor TypeDescriptor
  | TOptional TypeDescriptor
  | TStruct cstring "(cstring \<times> TypeDescriptor option) list"
  | TClass cstring "cstring option" "(cstring \<times> TypeDescriptor option) list"

fun base_type :: "TypeDescriptor \<Rightarrow> VarType" where
  "base_type (TPrim t) = t"
| "base_type (TArray _) = TYPE_ARRAY"
| "base_type (TDict _ _) = TYPE_DICT"
| "base_type (TOptional _) = TYPE_OPTIONAL"
| "base_type (TStruct _ _) = TYPE_STRUCT"
| "base_type (TClass _ _ _) = TYPE_CLASS"

section \<open>Constructors\<close>

definition type_descriptor_create_primitive :: "VarType \<Rightarrow> TypeDescriptor option" where
  "type_descriptor_create_primitive t =
     (if t = TYPE_ARRAY \<or> t = TYPE_DICT \<or> t = TYPE_OPTIONAL \<or> t = TYPE_STRUCT \<or> t = TYPE_CLASS
      then None else Some (TPrim t))"

definition type_descriptor_create_array :: "TypeDescriptor option \<Rightarrow> TypeDescriptor option" where
  "type_descriptor_create_array e = (case e of None \<Rightarrow> None | Some t \<Rightarrow> Some (TArray t))"

definition type_descriptor_create_dict ::
  "TypeDescriptor option \<Rightarrow> TypeDescriptor option \<Rightarrow> TypeDescriptor option" where
  "type_descriptor_create_dict k v =
     (case k of None \<Rightarrow> None | Some kt \<Rightarrow> (case v of None \<Rightarrow> None | Some vt \<Rightarrow> Some (TDict kt vt)))"

definition type_descriptor_create_optional :: "TypeDescriptor option \<Rightarrow> TypeDescriptor option" where
  "type_descriptor_create_optional w = (case w of None \<Rightarrow> None | Some t \<Rightarrow> Some (TOptional t))"

text \<open>
  A clone copies the tree; it fails (NULL) where a nested descriptor is NULL, and where a
  primitive descriptor carries the tag of a compound type. Creating a struct or class from
  field descriptors clones each of them again.
\<close>

fun type_descriptor_clone :: "TypeDescriptor option \<Rightarrow> TypeDescriptor option"
  and clone_field_types ::
    "(cstring \<times> TypeDescriptor option) list \<Rightarrow> (cstring \<times> TypeDescriptor option) list option"
where
  "type_descriptor_clone None = None"
| "type_descriptor_clone (Some (TArray e)) =
     type_descriptor_create_array (type_descriptor_clone (Some e))"
| "type_descriptor_clone (Some (TDict k v)) =
     (case type_descriptor_clone (Some k) of None \<Rightarrow> None
      | Some k' \<Rightarrow> (case type_descriptor_clone (Some v) of None \<Rightarrow> None
         | Some v' \<Rightarrow> type_descriptor_create_dict (Some k') (Some v')))"
| "type_descriptor_clone (Some (TOptional w)) =
     type_descriptor_create_optional (type_descriptor_clone (Some w))"
| "type_descriptor_clone (Some (TStruct n fs)) =
     (case clone_field_types fs of None \<Rightarrow> None | Some fs' \<Rightarrow> Some (TStruct n fs'))"
| "type_descriptor_clone (Some (TClass n p fs)) =
     (case clone_field_types fs of None \<Rightarrow> None | Some fs' \<Rightarrow> Some (TClass n p fs'))"
| "type_descriptor_clone (Some (TPrim t)) = type_descriptor_create_primitive t"
| "clone_field_types [] = Some []"
| "clone_field_types ((f, t) # fs) =
     (case type_descriptor_clone t of None \<Rightarrow> None
      | Some t' \<Rightarrow> (case clone_field_types fs of None \<Rightarrow> None
         | Some fs' \<Rightarrow> Some ((f, Some t') # fs')))"

definition type_descriptor_create_struct ::
  "cstring \<Rightarrow> (cstring \<times> TypeDescriptor option) list \<Rightarrow> TypeDescriptor" where
  "type_descriptor_create_struct n fs = TStruct n (map (\<lambda>(f, t). (f, type_descriptor_clone t)) fs)"

definition type_descriptor_create_class ::
  "cstring \<Rightarrow> cstring option \<Rightarrow> (cstring \<times> TypeDescriptor option) list \<Rightarrow> TypeDescriptor" where
  "type_descriptor_create_class n p fs =
     TClass n p (map (\<lambda>(f, t). (f, type_descriptor_clone t)) fs)"

section \<open>Equality and compatibility\<close>

fun type_descriptor_equals :: "TypeDescriptor option \<Rightarrow> TypeDescriptor option \<Rightarrow> bool"
  and fields_equal ::
    "(cstring \<times> TypeDescriptor option) list \<Rightarrow> (cstring \<times> TypeDescriptor option) list \<Rightarrow> bool"
where
  "type_descriptor_equals None b = (b = None)"
| "type_descriptor_equals (Some a) None = False"
| "type_descriptor_equals (Some (TArray a)) (Some b) =
     (case b of TArray b' \<Rightarrow> type_descriptor_equals (Some a) (Some b') | _ \<Rightarrow> False)"
| "type_descriptor_equals (Some (TDict k v)) (Some b) =
     (case b of TDict k' v' \<Rightarrow> type_descriptor_equals (Some k) (Some k') \<and>
                               type_descriptor_equals (Some v) (Some v') | _ \<Rightarrow> False)"
| "type_descriptor_equals (Some (TOptional a)) (Some b) =
     (case b of TOptional b' \<Rightarrow> type_descriptor_equals (Some a) (Some b') | _ \<Rightarrow> False)"
| "type_descriptor_equals (Some (TStruct n fs)) (Some b) =
     (case b of TStruct n' fs' \<Rightarrow> n = n' \<and> length fs = length fs' \<and> fields_equal fs fs' | _ \<Rightarrow> False)"
| "type_descriptor_equals (Some (TClass n p fs)) (Some b) =
     (case b of TClass n' p' fs' \<Rightarrow> n = n' | _ \<Rightarrow> False)"
| "type_descriptor_equals (Some (TPrim t)) (Some b) = (t = base_type b)"
| "fields_equal [] gs = True"
| "fields_equal ((f, t) # fs) gs =
     (case gs of [] \<Rightarrow> True
      | (g, u) # gs' \<Rightarrow> f = g \<and> type_descriptor_equals t u \<and> fields_equal fs gs')"

fun nominal_name :: "TypeDescriptor \<Rightarrow> cstring option" where
  \<comment> \<open>the name the struct and class cases compare\<close>
  "nominal_name (TStruct n fs) = Some n"
| "nominal_name (TClass n p fs) = Some n"
| "nominal_name _ = None"

fun type_descriptor_compatible :: "TypeDescriptor option \<Rightarrow> TypeDescriptor option \<Rightarrow> bool" where
  "type_descriptor_compatible (Some from) (Some to) =
     (if type_descriptor_equals (Some from) (Some to) then True
      else if nominal_name from \<noteq> None \<and> nominal_name from = nominal_name to then True
      else case (from, to) of
        (TArray a, TArray b) \<Rightarrow>
           if base_type a = TYPE_NIL then True else type_descriptor_compatible (Some a) (Some b)
      | (TDict k v, TDict k' v') \<Rightarrow>
           if base_type k = TYPE_NIL \<and> base_type v = TYPE_NIL then True
           else type_descriptor_compatible (Some k) (Some k') \<and> type_descriptor_compatible (Some v) (Some v')
      | (f, TOptional w) \<Rightarrow>
           if base_type f = TYPE_NIL then True else type_descriptor_equals (Some f) (Some w)
      | _ \<Rightarrow> False)"
| "type_descriptor_compatible _ _ = False"

section \<open>Printing\<close>

fun type_descriptor_to_string :: "TypeDescriptor \<Rightarrow> nat \<Rightarrow> cstring" where
  \<comment> \<open>the string the call returns for a buffer of the given size\<close>
  "type_descriptor_to_string (TArray e) n =
     (if n = 0 then [] else snprintf_s n (''['' @ type_descriptor_to_string e 256 @ '']''))"
| "type_descriptor_to_string (TDict k v) n =
     (if n = 0 then []
      else snprintf_s n (''{'' @ type_descriptor_to_string k 128 @ '':'' @
             type_descriptor_to_string v 128 @ ''}''))"
| "type_descriptor_to_string (TOptional w) n =
     (if n = 0 then [] else snprintf_s n (type_descriptor_to_string w 256 @ ''?''))"
| "type_descriptor_to_string (TStruct nm fs) n = (if n = 0 then [] else snprintf_s n nm)"
| "type_descriptor_to_string (TClass nm p fs) n = (if n = 0 then [] else snprintf_s n nm)"
| "type_descriptor_to_string (TPrim t) n =
     (if n = 0 then []
      else snprintf_s n
        (case t of TYPE_INT \<Rightarrow> ''Int'' | TYPE_DOUBLE \<Rightarrow> ''Double'' | TYPE_BOOL \<Rightarrow> ''Bool''
         | TYPE_STRING \<Rightarrow> ''String'' | TYPE_NIL \<Rightarrow> ''nil'' | _ \<Rightarrow> ''Unknown''))"

section \<open>Well-formed descriptors\<close>

text \<open>
  What the constructors build: a primitive tag is not one of the five compound tags, and (for
  \<open>complete\<close>) no field descriptor is NULL.
\<close>

fun type_wf :: "TypeDescriptor \<Rightarrow> bool" where
  "type_wf (TPrim t) = (type_descriptor_create_primitive t \<noteq> None)"
| "type_wf (TArray e) = type_wf e"
| "type_wf (TDict k v) = (type_wf k \<and> type_wf v)"
| "type_wf (TOptional w) = type_wf w"
| "type_wf (TStruct n fs) = (\<forall>(f, t) \<in> set fs. case t of None \<Rightarrow> True | Some d \<Rightarrow> type_wf d)"
| "type_wf (TClass n p fs) = (\<forall>(f, t) \<in> set fs. case t of None \<Rightarrow> True | Some d \<Rightarrow> type_wf d)"

fun type_complete :: "TypeDescriptor \<Rightarrow> bool" where
  "type_complete (TPrim t) = True"
| "type_complete (TArray e) = type_complete e"
| "type_complete (TDict k v) = (type_complete k \<and> type_complete v)"
| "type_complete (TOptional w) = type_complete w"
| "type_complete (TStruct n fs) =
     (\<forall>(f, t) \<in> set fs. case t of None \<Rightarrow> False | Some d \<Rightarrow> type_complete d)"
| "type_complete (TClass n p fs) =
     (\<forall>(f, t) \<in> set fs. case t of None \<Rightarrow> False | Some d \<Rightarrow> type_complete d)"

lemma type_wf_prim [simp]:
  "type_wf (TPrim t) \<longleftrightarrow> t \<notin> {TYPE_ARRAY, TYPE_DICT, TYPE_OPTIONAL, TYPE_STRUCT, TYPE_CLASS}"
  by (auto simp: type_descriptor_create_primitive_def)

declare type_wf.simps(1) [simp del]

abbreviation opt_wf :: "TypeDescriptor option \<Rightarrow> bool" where
  "opt_wf t \<equiv> (case t of None \<Rightarrow> True | Some d \<Rightarrow> type_wf d)"

abbreviation fields_wf :: "(cstring \<times> TypeDescriptor option) list \<Rightarrow> bool" where
  "fields_wf fs \<equiv> (\<forall>(f, t) \<in> set fs. opt_wf t)"

section \<open>Laws of equality and cloning\<close>

lemma type_induct [case_names Prim Array Dict Optional Struct Class]:
  assumes "\<And>t. P (TPrim t)" and "\<And>e. P e \<Longrightarrow> P (TArray e)"
    and "\<And>k v. P k \<Longrightarrow> P v \<Longrightarrow> P (TDict k v)" and "\<And>w. P w \<Longrightarrow> P (TOptional w)"
    and "\<And>n fs. (\<And>f d. (f, Some d) \<in> set fs \<Longrightarrow> P d) \<Longrightarrow> P (TStruct n fs)"
    and "\<And>n p fs. (\<And>f d. (f, Some d) \<in> set fs \<Longrightarrow> P d) \<Longrightarrow> P (TClass n p fs)"
  shows "P t"
  by (induction t) (use assms in \<open>fastforce elim!: snds.cases\<close>)+

lemma fields_equal_iff:
  "length fs = length gs \<Longrightarrow>
   fields_equal fs gs \<longleftrightarrow> list_all2 (\<lambda>(f, t) (g, u). f = g \<and> type_descriptor_equals t u) fs gs"
  by (induction fs gs rule: list_induct2) auto

lemma equals_refl: "type_descriptor_equals (Some t) (Some t)"
proof (induction t rule: type_induct)
  case (Struct n fs)
  have "type_descriptor_equals u u" if "(f, u) \<in> set fs" for f u
    using that Struct by (cases u) auto
  then show ?case by (auto simp: fields_equal_iff list_all2_same)
qed auto

lemma equals_sym:
  "type_wf s \<Longrightarrow> type_wf t \<Longrightarrow> type_descriptor_equals (Some s) (Some t) \<Longrightarrow>
   type_descriptor_equals (Some t) (Some s)"
proof (induction s arbitrary: t rule: type_induct)
  case (Struct n fs)
  then obtain gs where t: "t = TStruct n gs" "length fs = length gs"
    and all: "list_all2 (\<lambda>(f, t) (g, u). f = g \<and> type_descriptor_equals t u) fs gs"
    by (auto split: TypeDescriptor.splits simp: fields_equal_iff)
  have "list_all2 (\<lambda>(f, t) (g, u). f = g \<and> type_descriptor_equals t u) gs fs"
    unfolding list_all2_conv_all_nth
  proof (intro conjI allI impI)
    show "length gs = length fs" using t by simp
    fix i assume i: "i < length gs"
    obtain f a g b where fa: "fs ! i = (f, a)" "gs ! i = (g, b)" by fastforce
    with all i t have e: "f = g" "type_descriptor_equals a b"
      by (auto simp: list_all2_conv_all_nth)
    from fa i t have m: "(f, a) \<in> set fs" "(g, b) \<in> set gs"
      by (metis nth_mem)+
    have "type_descriptor_equals b a"
      using Struct.IH Struct.prems t m e(2)
      by (cases a; cases b) fastforce+
    with e fa show "(\<lambda>(f, t) (g, u). f = g \<and> type_descriptor_equals t u) (gs ! i) (fs ! i)"
      by simp
  qed
  with t show ?case by (simp add: fields_equal_iff)
next
  case (Prim a) then show ?case by (cases t) auto
next
  case (Array e) then show ?case by (cases t) auto
next
  case (Dict k v) then show ?case by (cases t) auto
next
  case (Optional w) then show ?case by (cases t) auto
next
  case (Class n p fs) then show ?case by (cases t) auto
qed

lemma equals_trans:
  "type_wf r \<Longrightarrow> type_wf s \<Longrightarrow> type_descriptor_equals (Some r) (Some s) \<Longrightarrow>
   type_descriptor_equals (Some s) (Some t) \<Longrightarrow> type_descriptor_equals (Some r) (Some t)"
proof (induction r arbitrary: s t rule: type_induct)
  case (Struct n fs)
  from Struct.prems(3,4) obtain gs hs where s: "s = TStruct n gs" "length fs = length gs"
      and t: "t = TStruct n hs" "length gs = length hs"
      and e1: "fields_equal fs gs" and e2: "fields_equal gs hs"
    by (auto split: TypeDescriptor.splits)
  have "(\<lambda>(f, t) (g, u). f = g \<and> type_descriptor_equals t u) (fs ! i) (hs ! i)"
    if i: "i < length fs" for i
  proof -
    obtain f a g b h c where fa: "fs ! i = (f, a)" "gs ! i = (g, b)" "hs ! i = (h, c)"
      by (metis surj_pair)
    with e1 e2 s t i have e: "f = g" "g = h" "type_descriptor_equals a b" "type_descriptor_equals b c"
      by (auto simp: fields_equal_iff list_all2_conv_all_nth)
    from fa i s have m: "(f, a) \<in> set fs" "(g, b) \<in> set gs" by (metis nth_mem)+
    have "type_descriptor_equals a c"
    proof (cases a)
      case None
      with e show ?thesis by simp
    next
      case (Some a')
      with e(3,4) obtain b' c' where bc: "b = Some b'" "c = Some c'"
        by (cases b; cases c) auto
      from m Some bc Struct.prems(1,2) s(1) have "type_wf a'" "type_wf b'" by fastforce+
      with Struct.IH m(1) Some bc e(3,4) show ?thesis by blast
    qed
    with e fa show ?thesis by simp
  qed
  with s t show ?case by (auto simp: fields_equal_iff list_all2_conv_all_nth)
next
  case (Prim a) then show ?case by (cases s) auto
next
  case (Array e)
  from Array.prems(3,4) obtain e' e'' where "s = TArray e'" "t = TArray e''"
    by (auto split: TypeDescriptor.splits)
  with Array.prems Array.IH [of e' e''] show ?case by simp
next
  case (Dict k v)
  from Dict.prems(3,4) obtain k' v' k'' v'' where "s = TDict k' v'" "t = TDict k'' v''"
    by (auto split: TypeDescriptor.splits)
  with Dict.prems Dict.IH(1) [of k' k''] Dict.IH(2) [of v' v''] show ?case by simp
next
  case (Optional w)
  from Optional.prems(3,4) obtain w' w'' where "s = TOptional w'" "t = TOptional w''"
    by (auto split: TypeDescriptor.splits)
  with Optional.prems Optional.IH [of w' w''] show ?case by simp
next
  case (Class n p fs)
  from Class.prems(3,4) show ?case by (auto split: TypeDescriptor.splits)
qed

lemma clone_fields_id:
  assumes "\<And>f d. (f, Some d) \<in> set fs \<Longrightarrow> type_descriptor_clone (Some d) = Some d"
    and "\<forall>(f, t) \<in> set fs. t \<noteq> None"
  shows "clone_field_types fs = Some fs"
  using assms by (induction fs) (auto, force)

lemma clone_id: "type_wf t \<Longrightarrow> type_complete t \<Longrightarrow> type_descriptor_clone (Some t) = Some t"
proof (induction t rule: type_induct)
  case (Prim t)
  then show ?case by (auto simp: type_descriptor_create_primitive_def)
next
  case (Struct n fs)
  have "clone_field_types fs = Some fs"
    by (rule clone_fields_id) (use Struct in \<open>fastforce split: option.splits\<close>)+
  then show ?case by simp
next
  case (Class n p fs)
  have "clone_field_types fs = Some fs"
    by (rule clone_fields_id) (use Class in \<open>fastforce split: option.splits\<close>)+
  then show ?case by simp
qed (auto simp: type_descriptor_create_array_def type_descriptor_create_dict_def
       type_descriptor_create_optional_def)

lemma clone_Some_aux:
  "\<And>u. t = Some d \<Longrightarrow> type_descriptor_clone t = Some u \<Longrightarrow> type_wf d \<and> type_complete d"
  "clone_field_types fs = Some gs \<Longrightarrow>
     (\<forall>(f, t) \<in> set fs. case t of None \<Rightarrow> False | Some d \<Rightarrow> type_wf d \<and> type_complete d)"
proof (induction t and fs arbitrary: d and gs rule: type_descriptor_clone_clone_field_types.induct)
  case (5 n fs)
  then show ?case by (fastforce split: option.splits)
next
  case (6 n p fs)
  then show ?case by (fastforce split: option.splits)
next
  case (9 f t fs)
  then show ?case by (cases t) (auto split: option.splits)
qed (auto simp: type_descriptor_create_array_def type_descriptor_create_dict_def
       type_descriptor_create_optional_def type_descriptor_create_primitive_def
       split: option.splits if_splits)

lemma clone_defined_iff:
  "type_descriptor_clone (Some t) \<noteq> None \<longleftrightarrow> type_wf t \<and> type_complete t"
  using clone_id clone_Some_aux(1) by auto

lemma to_string_length: "0 < n \<Longrightarrow> length (type_descriptor_to_string t n) < n"
  by (cases t) (auto simp: snprintf_s_def)
text \<open>
  On well-formed descriptors \<^verbatim>\<open>type_descriptor_equals\<close> is reflexive, symmetric and
  transitive, although it compares structs by their fields and classes by their name only.
\<close>
theorem equals_equivalence:
  assumes "type_wf r" and "type_wf s"
  shows "type_descriptor_equals (Some r) (Some r) \<and>
    (type_descriptor_equals (Some r) (Some s) \<longrightarrow> type_descriptor_equals (Some s) (Some r)) \<and>
    (type_descriptor_equals (Some r) (Some s) \<longrightarrow> type_descriptor_equals (Some s) (Some t) \<longrightarrow>
     type_descriptor_equals (Some r) (Some t))"
  using equals_refl equals_sym [OF assms] equals_trans [OF assms] by blast

theorem equals_equivalence_witness:
  "type_descriptor_equals (Some (TClass ''B'' None [])) (Some (TClass ''B'' (Some ''A'') [(''x'', None)]))"
  using equals_equivalence [of "TClass ''B'' (Some ''A'') [(''x'', None)]" "TClass ''B'' None []" "TPrim TYPE_NIL"]
  by simp

text \<open>
  A clone is made exactly for the descriptors without NULL parts and without misused tags,
  and it is equal to the original in every part.
\<close>
theorem clone_correct:
  "type_descriptor_clone (Some t) = (if type_wf t \<and> type_complete t then Some t else None)"
  using clone_id [of t] clone_defined_iff [of t] by auto

section \<open>Compatibility is sound\<close>

text \<open>
  Shapes of values, and the shapes a type stands for: nil belongs to every optional, an object
  belongs to the struct or class of its name.
\<close>
datatype shape = ShScalar VarType | ShNil | ShList "shape list" | ShDict "(shape \<times> shape) list"
  | ShObject cstring

fun inhabits :: "shape \<Rightarrow> TypeDescriptor \<Rightarrow> bool" where
  "inhabits v (TPrim t) = (if t = TYPE_NIL then v = ShNil else v = ShScalar t)"
| "inhabits v (TArray e) = (case v of ShList vs \<Rightarrow> \<forall>u \<in> set vs. inhabits u e | _ \<Rightarrow> False)"
| "inhabits v (TDict k w) =
     (case v of ShDict ps \<Rightarrow> \<forall>(a, b) \<in> set ps. inhabits a k \<and> inhabits b w | _ \<Rightarrow> False)"
| "inhabits v (TOptional w) = (v = ShNil \<or> inhabits v w)"
| "inhabits v (TStruct n fs) = (v = ShObject n)"
| "inhabits v (TClass n p fs) = (v = ShObject n)"

fun empty_literals :: "shape \<Rightarrow> TypeDescriptor \<Rightarrow> bool" where
  \<comment> \<open>Nil is the type of the elements of empty literals: where it stands, there is no element\<close>
  "empty_literals v (TArray e) = (case v of
       ShList vs \<Rightarrow> (base_type e = TYPE_NIL \<longrightarrow> vs = []) \<and> (\<forall>u \<in> set vs. empty_literals u e) | _ \<Rightarrow> True)"
| "empty_literals v (TDict k w) = (case v of
       ShDict ps \<Rightarrow> (base_type k = TYPE_NIL \<and> base_type w = TYPE_NIL \<longrightarrow> ps = []) \<and>
         (\<forall>(a, b) \<in> set ps. empty_literals a k \<and> empty_literals b w) | _ \<Rightarrow> True)"
| "empty_literals v (TOptional w) = empty_literals v w"
| "empty_literals v _ = True"

lemma equals_inhabits:
  "type_wf s \<Longrightarrow> type_wf t \<Longrightarrow> type_descriptor_equals (Some s) (Some t) \<Longrightarrow> inhabits v s \<longleftrightarrow> inhabits v t"
proof (induction s arbitrary: t v)
  case (TPrim p)
  then show ?case by (cases t) auto
next
  case (TArray e)
  then obtain e' where "t = TArray e'" by (cases t) auto
  with TArray show ?case by (auto split: shape.splits)
next
  case (TDict k w)
  then obtain k' w' where t: "t = TDict k' w'" by (cases t) auto
  with TDict have "inhabits u k \<longleftrightarrow> inhabits u k'" "inhabits u w \<longleftrightarrow> inhabits u w'" for u by auto
  with t show ?case by (auto split: shape.splits)
next
  case (TOptional w)
  then obtain w' where "t = TOptional w'" by (cases t) auto
  with TOptional show ?case by auto
next
  case (TStruct n fs)
  then show ?case by (cases t) auto
next
  case (TClass n p fs)
  then show ?case by (cases t) auto
qed

lemma nominal_inhabits:
  "nominal_name s = nominal_name t \<Longrightarrow> nominal_name s \<noteq> None \<Longrightarrow> inhabits v s \<longleftrightarrow> inhabits v t"
  by (cases s; cases t) auto

declare type_descriptor_compatible.simps(1) [simp del]

lemma compatible_disj:
  assumes "type_descriptor_compatible (Some s) (Some t)"
  shows "type_descriptor_equals (Some s) (Some t) \<or>
    (nominal_name s = nominal_name t \<and> nominal_name s \<noteq> None) \<or>
    (\<exists>a b. s = TArray a \<and> t = TArray b \<and>
       (base_type a = TYPE_NIL \<or> type_descriptor_compatible (Some a) (Some b))) \<or>
    (\<exists>k v k' v'. s = TDict k v \<and> t = TDict k' v' \<and>
       (base_type k = TYPE_NIL \<and> base_type v = TYPE_NIL \<or>
        type_descriptor_compatible (Some k) (Some k') \<and> type_descriptor_compatible (Some v) (Some v'))) \<or>
    (\<exists>w. t = TOptional w \<and> (base_type s = TYPE_NIL \<or> type_descriptor_equals (Some s) (Some w)))"
proof (cases "type_descriptor_equals (Some s) (Some t) \<or>
    (nominal_name s = nominal_name t \<and> nominal_name s \<noteq> None)")
  case False
  with assms have "case (s, t) of
        (TArray a, TArray b) \<Rightarrow>
           if base_type a = TYPE_NIL then True else type_descriptor_compatible (Some a) (Some b)
      | (TDict k v, TDict k' v') \<Rightarrow>
           if base_type k = TYPE_NIL \<and> base_type v = TYPE_NIL then True
           else type_descriptor_compatible (Some k) (Some k') \<and> type_descriptor_compatible (Some v) (Some v')
      | (f, TOptional w) \<Rightarrow>
           if base_type f = TYPE_NIL then True else type_descriptor_equals (Some f) (Some w)
      | _ \<Rightarrow> False"
    unfolding type_descriptor_compatible.simps(1) [of s t] by argo
  then show ?thesis
    by (cases s; cases t) (simp_all del: type_descriptor_equals.simps split: if_splits)
qed blast

lemma compatible_cases:
  assumes "type_descriptor_compatible (Some s) (Some t)"
  obtains (equal) "type_descriptor_equals (Some s) (Some t)"
  | (nominal) "nominal_name s = nominal_name t" "nominal_name s \<noteq> None"
  | (array) a b where "s = TArray a" "t = TArray b"
      "base_type a = TYPE_NIL \<or> type_descriptor_compatible (Some a) (Some b)"
  | (dict) k v k' v' where "s = TDict k v" "t = TDict k' v'"
      "base_type k = TYPE_NIL \<and> base_type v = TYPE_NIL \<or>
       type_descriptor_compatible (Some k) (Some k') \<and> type_descriptor_compatible (Some v) (Some v')"
  | (wrap) w where "t = TOptional w" "base_type s = TYPE_NIL \<or> type_descriptor_equals (Some s) (Some w)"
  using compatible_disj [OF assms] by metis

lemma base_nil: "type_wf s \<Longrightarrow> base_type s = TYPE_NIL \<Longrightarrow> s = TPrim TYPE_NIL"
  by (cases s) auto

text \<open>
  C20: the assignment check is sound: where \<^verbatim>\<open>type_descriptor_compatible\<close> accepts a value of
  a well-formed type \<open>s\<close> for a slot of a well-formed type \<open>t\<close>, every value of \<open>s\<close> is a value of \<open>t\<close>: nil goes into
  optionals, a value goes into the optional of its type, arrays and dictionaries go
  elementwise, objects go by name, and no number goes into a slot of another numeric type. The check
  takes an array with elements of type Nil, or a dictionary with keys and values of type Nil, for an empty
  literal; for these types the values are the empty ones.
\<close>
theorem compatible_sound:
  assumes "type_descriptor_compatible (Some s) (Some t)" and "type_wf s" and "type_wf t"
    and "empty_literals v s" and "inhabits v s"
  shows "inhabits v t"
  using assms
proof (induction s arbitrary: t v rule: measure_induct_rule [of size])
  case (less s)
  from less.prems(1) show ?case
  proof (cases rule: compatible_cases)
    case equal
    with less.prems equals_inhabits show ?thesis by blast
  next
    case nominal
    with less.prems(5) nominal_inhabits show ?thesis by blast
  next
    case (array a b)
    then have "inhabits u b" if "inhabits u a" "empty_literals u a" "base_type a \<noteq> TYPE_NIL" for u
      using less.IH [of a b u] less.prems that by auto
    with array less.prems(4,5) show ?thesis by (auto split: shape.splits)
  next
    case (dict k w k' w')
    then have "inhabits u k \<Longrightarrow> empty_literals u k \<Longrightarrow> inhabits u k'" "inhabits u w \<Longrightarrow> empty_literals u w \<Longrightarrow> inhabits u w'"
      if "\<not> (base_type k = TYPE_NIL \<and> base_type w = TYPE_NIL)" for u
      using less.IH [of k k' u] less.IH [of w w' u] less.prems that by auto
    with dict less.prems(4,5) show ?thesis by (fastforce split: shape.splits)
  next
    case (wrap w)
    with less.prems base_nil [of s] equals_inhabits [of s w v] show ?thesis by auto
  qed
qed

theorem compatible_sound_witness:
  "inhabits (ShList [ShScalar TYPE_INT]) (TArray (TOptional (TPrim TYPE_INT))) \<and>
   inhabits (ShList [ShList []]) (TArray (TArray (TPrim TYPE_INT)))"
  using compatible_sound [of "TArray (TPrim TYPE_INT)" "TArray (TOptional (TPrim TYPE_INT))" "ShList [ShScalar TYPE_INT]"]
    compatible_sound [of "TArray (TArray (TPrim TYPE_NIL))" "TArray (TArray (TPrim TYPE_INT))" "ShList [ShList []]"]
  by (simp add: type_descriptor_compatible.simps(1))

lemma nil_elements_unsound:
  \<comment> \<open>an array of nils, of the type of the empty array, is accepted for an array of numbers\<close>
  "type_descriptor_compatible (Some (TArray (TPrim TYPE_NIL))) (Some (TArray (TPrim TYPE_INT)))"
  "inhabits (ShList [ShNil]) (TArray (TPrim TYPE_NIL))" "\<not> inhabits (ShList [ShNil]) (TArray (TPrim TYPE_INT))"
  by (simp_all add: type_descriptor_compatible.simps(1))
end
