(* ===== verification/BreadTypeParser.thy ===== *)
theory BreadTypeParser
  imports BreadTypes
begin

text \<open>
  The reader of written types, \<^verbatim>\<open>src/compiler/ast/ast_types.c\<close>.
  A parser takes the text from the cursor on and returns the result (NULL is \<open>None\<close>) with
  the text left. \<open>parse_type_descriptor\<close> recurses on the text a nested call left over, so it
  takes fuel; \<open>parse_type_fuel_enough\<close> shows that one unit more than the length of the text is
  always enough, which is what \<open>parse_type\<close> gives it.
\<close>

section \<open>Model\<close>

definition skip_type_ws :: "cstring \<Rightarrow> cstring" where
  "skip_type_ws code = dropWhile isspace code"

definition MAX_TOKEN_LEN :: nat where
  "MAX_TOKEN_LEN = 1024"

fun type_string_scan :: "int \<Rightarrow> cstring \<Rightarrow> cstring \<times> cstring" where
  \<comment> \<open>the loop of \<^verbatim>\<open>parse_type_string\<close>: the text passed over, and the text left\<close>
  "type_string_scan depth [] = ([], [])"
| "type_string_scan depth (c # s) =
     (let d = (if c = CHR ''['' \<or> c = CHR ''{'' then depth + 1
               else if c = CHR '']'' \<or> c = CHR ''}'' then depth - 1 else depth)
      in if d = 0 \<and> (c = CHR '','' \<or> c = CHR '')'' \<or> isspace c \<or> (c = CHR ''-'' \<and> at_char CHR ''>'' s))
         then ([], c # s)
         else if d < 0 then ([c], s)
         else (let (t, r) = type_string_scan d s in (c # t, r)))"

definition parse_type_string :: "cstring \<Rightarrow> nat \<Rightarrow> cstring option \<times> cstring" where
  "parse_type_string code0 out_sz =
     (if out_sz = 0 then (None, code0)
      else let code = skip_type_ws code0 in
        if code = [] then (None, code)
        else let (t, r) = type_string_scan 0 code;
                 tok = rev (dropWhile isspace (rev t))
             in if tok = [] \<or> length tok \<ge> out_sz then (None, r) else (Some tok, r))"

definition type_name_to_vartype :: "cstring \<Rightarrow> VarType" where
  "type_name_to_vartype name =
     (if name = ''Int'' then TYPE_INT
      else if name = ''String'' then TYPE_STRING
      else if name = ''Bool'' then TYPE_BOOL
      else if name = ''Float'' then TYPE_FLOAT
      else if name = ''Double'' then TYPE_DOUBLE
      else TYPE_NIL)"

fun dict_colon :: "int \<Rightarrow> cstring \<Rightarrow> bool" where
  \<comment> \<open>is there a colon outside nested brackets?\<close>
  "dict_colon depth [] = False"
| "dict_colon depth (c # s) =
     (if c = CHR ''['' then dict_colon (depth + 1) s
      else if c = CHR '']'' then dict_colon (depth - 1) s
      else if c = CHR '':'' \<and> depth = 0 then True
      else dict_colon depth s)"

definition before_last :: "char \<Rightarrow> cstring \<Rightarrow> cstring option" where
  \<comment> \<open>the text before the last occurrence (\<^verbatim>\<open>strrchr\<close>)\<close>
  "before_last c s = (if c \<in> set s then Some (rev (tl (dropWhile (\<lambda>d. d \<noteq> c) (rev s)))) else None)"

definition parse_type_token :: "cstring \<Rightarrow> VarType option \<times> cstring" where
  "parse_type_token code =
     (case parse_type_string (skip_type_ws code) MAX_TOKEN_LEN of
        (None, r) \<Rightarrow> (None, r)
      | (Some tmp, r) \<Rightarrow>
         (if tmp = ''Int'' then Some TYPE_INT
          else if tmp = ''String'' then Some TYPE_STRING
          else if tmp = ''Bool'' then Some TYPE_BOOL
          else if tmp = ''Float'' then Some TYPE_FLOAT
          else if tmp = ''Double'' then Some TYPE_DOUBLE
          else if at_char CHR ''['' tmp then
            (case before_last CHR '']'' tmp of None \<Rightarrow> None
             | Some body \<Rightarrow> Some (if dict_colon 0 (tl body) then TYPE_DICT else TYPE_ARRAY))
          else if tmp \<noteq> [] \<and> last tmp = CHR ''?'' then Some TYPE_OPTIONAL
          else None, r))"

definition parse_type_suffix :: "TypeDescriptor option \<Rightarrow> cstring \<Rightarrow> TypeDescriptor option \<times> cstring" where
  "parse_type_suffix out code0 =
     (let code = skip_type_ws code0 in
      if at_char CHR ''?'' code then (type_descriptor_create_optional out, tl code) else (out, code))"

definition type_of_token :: "cstring \<Rightarrow> TypeDescriptor option" where
  "type_of_token tmp =
     (let t = type_name_to_vartype tmp in
      if t = TYPE_ARRAY \<or> t = TYPE_DICT \<or> t = TYPE_OPTIONAL then None
      else if t = TYPE_NIL \<and> tmp \<noteq> ''Nil'' then Some (type_descriptor_create_struct tmp [])
      else type_descriptor_create_primitive t)"

fun parse_type_descriptor :: "nat \<Rightarrow> cstring \<Rightarrow> (TypeDescriptor option \<times> cstring) option" where
  "parse_type_descriptor 0 code0 = None"
| "parse_type_descriptor (Suc fuel) code0 =
     (let code = skip_type_ws code0 in
      if at_char CHR ''['' code then
        (case parse_type_descriptor fuel (tl code) of
           None \<Rightarrow> None
         | Some (None, r) \<Rightarrow> Some (None, r)
         | Some (Some first, r0) \<Rightarrow>
            (let r = skip_type_ws r0 in
             if at_char CHR '':'' r then
               (case parse_type_descriptor fuel (tl r) of
                  None \<Rightarrow> None
                | Some (None, q) \<Rightarrow> Some (None, q)
                | Some (Some second, q0) \<Rightarrow>
                   (let q = skip_type_ws q0 in
                    if at_char CHR '']'' q
                    then Some (parse_type_suffix (type_descriptor_create_dict (Some first) (Some second)) (tl q))
                    else Some (None, q)))
             else if at_char CHR '']'' r
             then Some (parse_type_suffix (type_descriptor_create_array (Some first)) (tl r))
             else Some (None, r)))
      else if starts_with is_ident_start code then
        (let tok = takeWhile is_ident_char code; r = dropWhile is_ident_char code in
         if length tok \<ge> MAX_TOKEN_LEN then Some (None, r)
         else case type_of_token tok of None \<Rightarrow> Some (None, r)
              | Some out \<Rightarrow> Some (parse_type_suffix (Some out) r))
      else Some (None, code))"

definition parse_type :: "cstring \<Rightarrow> TypeDescriptor option \<times> cstring" where
  "parse_type code = the (parse_type_descriptor (Suc (length code)) code)"

section \<open>Enough fuel, and progress of the cursor\<close>

lemma skip_type_ws_length: "length (skip_type_ws s) \<le> length s"
  by (simp add: skip_type_ws_def length_dropWhile_le)

lemma parse_type_suffix_length: "length (snd (parse_type_suffix out s)) \<le> length s"
  using skip_type_ws_length [of s] by (auto simp: parse_type_suffix_def Let_def)

lemma ident_token_length:
  "starts_with is_ident_start s \<Longrightarrow> length (dropWhile is_ident_char s) < length s"
  by (cases s) (auto simp: ident_start_char less_Suc_eq_le length_dropWhile_le)

lemma parse_type_step_length:
  assumes "length (skip_type_ws code) \<le> length code"
  shows "at_char c (skip_type_ws code) \<Longrightarrow> length (tl (skip_type_ws code)) < length code"
  using assms by (cases "skip_type_ws code") auto

lemma parse_type_progress:
  "parse_type_descriptor k code = Some (out, r) \<Longrightarrow> length r \<le> length code"
proof (induction k arbitrary: code out r)
  case (Suc k)
  have suf: "parse_type_suffix t s = (a, b) \<Longrightarrow> length b \<le> length s" for a b t s
    using parse_type_suffix_length [of t s] by simp
  from Suc.prems show ?case
    by (auto simp: Let_def split: if_splits option.splits prod.splits dest!: Suc.IH suf)
       (meson diff_le_self le_trans skip_type_ws_length length_dropWhile_le)+
qed simp

lemma parse_type_fuel_enough:
  "length code < k \<Longrightarrow> \<exists>out r. parse_type_descriptor k code = Some (out, r)"
proof (induction k arbitrary: code)
  case (Suc k)
  let ?c = "skip_type_ws code"
  show ?case
  proof (cases "at_char CHR ''['' ?c")
    case True
    then have l: "length (tl ?c) < k"
      using Suc.prems parse_type_step_length [OF skip_type_ws_length True] by simp
    then obtain o1 r1 where p1: "parse_type_descriptor k (tl ?c) = Some (o1, r1)"
      using Suc.IH by blast
    have "length (tl (skip_type_ws r1)) < k"
      using l parse_type_progress [OF p1] skip_type_ws_length [of r1] by simp
    then obtain o2 r2 where "parse_type_descriptor k (tl (skip_type_ws r1)) = Some (o2, r2)"
      using Suc.IH by blast
    with True p1 show ?thesis
      by (cases o1; cases o2) (auto simp: Let_def split: prod.splits)
  next
    case False
    then show ?thesis by (auto simp: Let_def split: option.splits prod.splits)
  qed
qed simp

text \<open>
  The type reader is total: on every text the fuel that \<open>parse_type\<close> gives is enough, and
  the cursor never moves backwards (the text left is never longer than the text given).
\<close>
theorem parse_type_total:
  "parse_type_descriptor (Suc (length code)) code = Some (parse_type code) \<and>
   length (snd (parse_type code)) \<le> length code"
  using parse_type_fuel_enough [of code "Suc (length code)"]
  by (auto simp: parse_type_def simp del: parse_type_descriptor.simps dest: parse_type_progress)

section \<open>Round trip\<close>

text \<open>
  The written form of a type, and the descriptors that have one: no struct fields or class
  descriptors (the reader makes every user-defined name a struct without fields), no optional
  of an optional (the reader takes one question mark), names that are identifiers shorter than
  the token buffer and not the name of a built-in type.
\<close>

fun show_type :: "TypeDescriptor \<Rightarrow> cstring" where
  "show_type (TPrim t) = (case t of TYPE_INT \<Rightarrow> ''Int'' | TYPE_STRING \<Rightarrow> ''String''
     | TYPE_BOOL \<Rightarrow> ''Bool'' | TYPE_FLOAT \<Rightarrow> ''Float'' | TYPE_DOUBLE \<Rightarrow> ''Double'' | _ \<Rightarrow> ''Nil'')"
| "show_type (TArray e) = CHR ''['' # show_type e @ '']''"
| "show_type (TDict k v) = CHR ''['' # show_type k @ CHR '':'' # show_type v @ '']''"
| "show_type (TOptional w) = show_type w @ ''?''"
| "show_type (TStruct n fs) = n"
| "show_type (TClass n p fs) = n"

definition type_name_ok :: "cstring \<Rightarrow> bool" where
  "type_name_ok n \<longleftrightarrow> starts_with is_ident_start n \<and> (\<forall>c \<in> set n. is_ident_char c) \<and>
     length n < MAX_TOKEN_LEN \<and> n \<notin> {''Int'', ''String'', ''Bool'', ''Float'', ''Double'', ''Nil''}"

fun writable_type :: "TypeDescriptor \<Rightarrow> bool" where
  "writable_type (TPrim t) = (t \<in> {TYPE_STRING, TYPE_INT, TYPE_BOOL, TYPE_FLOAT, TYPE_DOUBLE, TYPE_NIL})"
| "writable_type (TArray e) = writable_type e"
| "writable_type (TDict k v) = (writable_type k \<and> writable_type v)"
| "writable_type (TOptional w) = (writable_type w \<and> base_type w \<noteq> TYPE_OPTIONAL)"
| "writable_type (TStruct n fs) = (type_name_ok n \<and> fs = [])"
| "writable_type (TClass n p fs) = False"

lemma ident_start_not_bracket: "is_ident_start c \<Longrightarrow> c \<noteq> CHR ''[''"
  by (cases "c = CHR ''[''") (simp_all add: is_ident_start_def isalpha_def)

lemma parse_type_ident:
  assumes "starts_with is_ident_start n" "\<forall>c \<in> set n. is_ident_char c" "length n < MAX_TOKEN_LEN"
    and "\<not> starts_with is_ident_char rest" "type_of_token n = Some t"
  shows "parse_type_descriptor (Suc k) (n @ rest) = Some (parse_type_suffix (Some t) rest)"
proof -
  from assms(1) obtain c n' where n: "n = c # n'" "is_ident_start c" by (cases n) auto
  have c: "\<not> isspace c" "c \<noteq> CHR ''[''"
    using n(2) ident_not_space ident_start_char ident_start_not_bracket by blast+
  then have "skip_type_ws (n @ rest) = n @ rest" using n by (simp add: skip_type_ws_def)
  moreover have "takeWhile is_ident_char (n @ rest) = n" "dropWhile is_ident_char (n @ rest) = rest"
    using takeWhile_append_stop [OF assms(2,4)] dropWhile_append_stop [OF assms(2,4)] by blast+
  ultimately show ?thesis using assms(3,5) n c by (simp add: Let_def del: takeWhile_append dropWhile_append)
qed

lemma skip_type_ws_stop: "\<not> starts_with isspace s \<Longrightarrow> skip_type_ws s = s"
  by (simp add: skip_type_ws_def dropWhile_not_starts)

lemma parse_type_suffix_plain:
  "\<not> starts_with isspace rest \<Longrightarrow> \<not> at_char CHR ''?'' rest \<Longrightarrow>
   parse_type_suffix (Some t) rest = (Some t, rest)"
  by (simp add: parse_type_suffix_def skip_type_ws_stop)

lemma prim_token:
  assumes "writable_type (TPrim t)"
  shows "starts_with is_ident_start (show_type (TPrim t)) \<and> (\<forall>c \<in> set (show_type (TPrim t)). is_ident_char c) \<and>
    length (show_type (TPrim t)) < MAX_TOKEN_LEN \<and> type_of_token (show_type (TPrim t)) = Some (TPrim t)"
  using assms
  by (auto simp: is_ident_start_def is_ident_char_def isalpha_def MAX_TOKEN_LEN_def type_of_token_def
      type_name_to_vartype_def type_descriptor_create_primitive_def)

lemma struct_token: "type_name_ok n \<Longrightarrow> type_of_token n = Some (TStruct n [])"
  by (auto simp: type_name_ok_def type_of_token_def type_name_to_vartype_def
      type_descriptor_create_struct_def)

lemma show_type_not_space: "writable_type t \<Longrightarrow> \<not> starts_with isspace (show_type t @ s)"
proof (induction t arbitrary: s)
  case (TPrim t)
  then show ?case by (auto simp: isspace_def)
next
  case (TStruct n fs)
  then show ?case
    by (cases n) (auto simp: type_name_ok_def ident_not_space ident_start_char)
qed (auto simp: isspace_def)

lemma parse_type_show:
  "writable_type t \<Longrightarrow> size t \<le> k \<Longrightarrow> \<not> starts_with is_ident_char rest \<Longrightarrow>
   parse_type_descriptor (Suc k) (show_type t @ rest) =
     Some (if base_type t = TYPE_OPTIONAL then (Some t, rest) else parse_type_suffix (Some t) rest)"
proof (induction t arbitrary: k rest)
  case (TPrim t)
  then show ?case using prim_token [OF TPrim(1)] parse_type_ident by auto
next
  case (TStruct n fs)
  then show ?case using parse_type_ident struct_token by (auto simp: type_name_ok_def)
next
  case (TOptional w)
  then have "parse_type_descriptor (Suc k) (show_type w @ CHR ''?'' # rest) =
      Some (parse_type_suffix (Some w) (CHR ''?'' # rest))"
    by (simp add: is_ident_char_def isalpha_def isdigit_def del: parse_type_descriptor.simps)
  then show ?case
    by (simp add: parse_type_suffix_def skip_type_ws_def isspace_def type_descriptor_create_optional_def
        del: parse_type_descriptor.simps)
next
  case (TArray e)
  then obtain j where k: "k = Suc j" "size e \<le> j" by (cases k) auto
  let ?r = "CHR '']'' # rest"
  have r: "\<not> starts_with is_ident_char ?r" "\<not> starts_with isspace ?r"
    by (simp_all add: is_ident_char_def isalpha_def isdigit_def isspace_def)
  have "parse_type_descriptor (Suc j) (show_type e @ ?r) = Some (Some e, ?r)"
    using TArray.IH [OF _ k(2) r(1)] TArray.prems(1) parse_type_suffix_plain [OF r(2)]
    by (simp del: parse_type_descriptor.simps)
  then show ?case
    unfolding k(1) parse_type_descriptor.simps(2) [of "Suc j"]
    by (simp add: skip_type_ws_def isspace_def type_descriptor_create_array_def
        del: parse_type_descriptor.simps)
next
  case (TDict kt vt)
  then obtain j where k: "k = Suc j" "size kt \<le> j" "size vt \<le> j" by (cases k) auto
  let ?r = "CHR '']'' # rest"
  let ?q = "CHR '':'' # show_type vt @ ?r"
  have r: "\<not> starts_with is_ident_char ?r" "\<not> starts_with isspace ?r"
    and q: "\<not> starts_with is_ident_char ?q" "\<not> starts_with isspace ?q"
    by (simp_all add: is_ident_char_def isalpha_def isdigit_def isspace_def)
  have "parse_type_descriptor (Suc j) (show_type vt @ ?r) = Some (Some vt, ?r)"
    using TDict.IH(2) [OF _ k(3) r(1)] TDict.prems(1) parse_type_suffix_plain [OF r(2)]
    by (simp del: parse_type_descriptor.simps)
  moreover have "parse_type_descriptor (Suc j) (show_type kt @ ?q) = Some (Some kt, ?q)"
    using TDict.IH(1) [OF _ k(2) q(1)] TDict.prems(1) parse_type_suffix_plain [OF q(2)]
    by (simp del: parse_type_descriptor.simps)
  ultimately show ?case
    unfolding k(1) parse_type_descriptor.simps(2) [of "Suc j"]
    by (simp add: skip_type_ws_def isspace_def type_descriptor_create_dict_def
        del: parse_type_descriptor.simps)
qed simp

lemma size_show_type: "writable_type t \<Longrightarrow> size t \<le> length (show_type t)"
proof (induction t)
  case (TStruct n fs)
  then show ?case by (cases n) (auto simp: type_name_ok_def)
qed auto

lemma parse_shown:
  assumes "writable_type t"
  shows "parse_type (show_type t) = (Some t, [])"
proof -
  have "parse_type_descriptor (Suc (length (show_type t))) (show_type t @ []) =
      Some (if base_type t = TYPE_OPTIONAL then (Some t, []) else parse_type_suffix (Some t) [])"
    using parse_type_show [OF assms size_show_type [OF assms], of "[]"] by simp
  then show ?thesis
    by (auto simp: parse_type_def parse_type_suffix_def skip_type_ws_def
        simp del: parse_type_descriptor.simps split: if_splits)
qed

text \<open>
  C22: reading back the written form of any type that has one gives that type, and consumes all
  of the text: arrays, dictionaries, optionals, built-in and user-defined names, nested to any
  depth.
\<close>
theorem parse_show_type:
  assumes "writable_type t"
  shows "parse_type (show_type t) = (Some t, [])"
  using assms by (rule parse_shown)

theorem parse_show_type_witness:
  "parse_type ''[String:[Point?]]'' =
     (Some (TDict (TPrim TYPE_STRING) (TArray (TOptional (TStruct ''Point'' [])))), [])"
  using parse_show_type [of "TDict (TPrim TYPE_STRING) (TArray (TOptional (TStruct ''Point'' [])))"]
  by (simp add: type_name_ok_def is_ident_start_def is_ident_char_def isalpha_def MAX_TOKEN_LEN_def)

section \<open>What a string of a type can be read back to\<close>

fun plain_type :: "TypeDescriptor \<Rightarrow> bool" where
  "plain_type (TPrim t) = (t \<in> {TYPE_STRING, TYPE_INT, TYPE_BOOL, TYPE_DOUBLE})"
| "plain_type (TArray e) = plain_type e"
| "plain_type (TOptional w) = plain_type w"
| "plain_type (TStruct n fs) = True"
| "plain_type _ = False"

lemma to_string_show:
  "plain_type t \<Longrightarrow> length (show_type t) < n \<Longrightarrow> length (show_type t) \<le> 256 \<Longrightarrow>
   type_descriptor_to_string t n = show_type t"
  by (induction t arbitrary: n) (auto simp: snprintf_s_fits)

text \<open>
  For types built from String, Int, Bool, Double and user-defined names by arrays and
  optionals, the text \<^verbatim>\<open>type_descriptor_to_string\<close> produces (in a buffer that holds it, nested
  buffers being 256 bytes) reads back as the same type. Dictionaries, Float and Nil are left
  out because the printed form of those is not the written form.
\<close>
theorem to_string_reads_back:
  assumes "writable_type t" and "plain_type t"
    and "length (show_type t) < n" and "length (show_type t) \<le> 256"
  shows "parse_type (type_descriptor_to_string t n) = (Some t, [])"
  using parse_shown [OF assms(1)] to_string_show [OF assms(2-4)] by simp

theorem to_string_reads_back_witness:
  "parse_type (type_descriptor_to_string (TArray (TOptional (TPrim TYPE_INT))) 64) =
     (Some (TArray (TOptional (TPrim TYPE_INT))), [])"
  using to_string_reads_back [of "TArray (TOptional (TPrim TYPE_INT))" 64] by simp

lemma to_string_dict_not_read:
  "fst (parse_type (type_descriptor_to_string (TDict (TPrim TYPE_STRING) (TPrim TYPE_INT)) 64)) = None"
  by (simp add: snprintf_s_def parse_type_def skip_type_ws_def isspace_def is_ident_start_def isalpha_def)

lemma to_string_float_unknown:
  "type_descriptor_to_string (TPrim TYPE_FLOAT) 64 = ''Unknown''"
  by (simp add: snprintf_s_def)

end
