(* ===== verification/BreadErrors.thy ===== *)
theory BreadErrors
  imports BreadPrelude
begin

text \<open>
  The error state of \<^verbatim>\<open>src/runtime/error.c\<close> and the outcomes of the modelled C functions.
  A call either returns (\<open>Done\<close>), or ends the process after printing an error (\<open>Aborted\<close>, the
  \<^verbatim>\<open>abort()\<close> of \<^verbatim>\<open>bread_error_set_with_context\<close>), or does something C leaves
  undefined (\<open>Undefined\<close>: reading through a NULL or dangling pointer, signed overflow).
  The text line \<^verbatim>\<open>bread_read_line\<close> reads from a source file is a parameter.
\<close>

section \<open>Outcomes\<close>

datatype BreadErrorType = BREAD_ERROR_NONE | BREAD_ERROR_TYPE_MISMATCH
  | BREAD_ERROR_INDEX_OUT_OF_BOUNDS | BREAD_ERROR_DIVISION_BY_ZERO | BREAD_ERROR_UNDEFINED_VARIABLE
  | BREAD_ERROR_MEMORY_ALLOCATION | BREAD_ERROR_RUNTIME_ERROR | BREAD_ERROR_SYNTAX_ERROR
  | BREAD_ERROR_PARSE_ERROR | BREAD_ERROR_COMPILE_ERROR

record BreadError =
  err_type :: BreadErrorType
  err_message :: "cstring option"
  err_filename :: "cstring option"
  err_line :: int
  err_column :: int
  err_context :: "cstring option"

datatype 'a outcome = Done 'a | Aborted BreadError | Undefined

fun bnd :: "'a outcome \<Rightarrow> ('a \<Rightarrow> 'b outcome) \<Rightarrow> 'b outcome" where
  \<comment> \<open>sequencing: what follows runs only if the call returned\<close>
  "bnd (Done x) f = f x"
| "bnd (Aborted e) f = Aborted e"
| "bnd Undefined f = Undefined"

lemma bnd_assoc [outcome_simps]: "bnd (bnd x f) g = bnd x (\<lambda>y. bnd (f y) g)"
  by (cases x) auto

lemma bnd_Done_iff: "bnd x f = Done y \<longleftrightarrow> (\<exists>z. x = Done z \<and> f z = Done y)"
  by (cases x) auto

lemma bnd_Done_right [outcome_simps]: "bnd x Done = x"
  by (cases x) auto

section \<open>The error state\<close>

record BreadErrorContext =
  current_file :: "cstring option"
  current_line :: int
  current_column :: int
  current_function :: "cstring option"

record error_state =
  g_current_error :: BreadError
  g_error_initialized :: bool
  g_compilation_failed :: bool
  g_error_context_stack :: "BreadErrorContext list" \<comment> \<open>innermost first; its length is the depth\<close>

definition MAX_ERROR_CONTEXT_DEPTH :: nat where
  "MAX_ERROR_CONTEXT_DEPTH = 32"

definition no_error :: BreadError where
  "no_error = \<lparr>err_type = BREAD_ERROR_NONE, err_message = None, err_filename = None,
     err_line = 0, err_column = 0, err_context = None\<rparr>"

definition error_state0 :: error_state where
  \<comment> \<open>the static initial values\<close>
  "error_state0 = \<lparr>g_current_error = no_error, g_error_initialized = False,
     g_compilation_failed = False, g_error_context_stack = []\<rparr>"

definition bread_error_init :: "error_state \<Rightarrow> error_state" where
  "bread_error_init st =
     (if g_error_initialized st then st
      else \<lparr>g_current_error = no_error, g_error_initialized = True,
            g_compilation_failed = False, g_error_context_stack = []\<rparr>)"

definition bread_error_clear :: "error_state \<Rightarrow> error_state" where
  "bread_error_clear st = (if g_error_initialized st then st\<lparr>g_current_error := no_error\<rparr> else st)"

definition bread_error_cleanup :: "error_state \<Rightarrow> error_state" where
  "bread_error_cleanup st =
     (if g_error_initialized st then (bread_error_clear st)\<lparr>g_error_initialized := False\<rparr> else st)"

definition compile_time_error :: "BreadErrorType \<Rightarrow> bool" where
  "compile_time_error t \<longleftrightarrow> t \<in> {BREAD_ERROR_TYPE_MISMATCH, BREAD_ERROR_UNDEFINED_VARIABLE,
     BREAD_ERROR_SYNTAX_ERROR, BREAD_ERROR_PARSE_ERROR, BREAD_ERROR_COMPILE_ERROR}"

definition fail_fast_error :: "BreadErrorType \<Rightarrow> bool" where
  "fail_fast_error t \<longleftrightarrow> t \<in> {BREAD_ERROR_RUNTIME_ERROR, BREAD_ERROR_INDEX_OUT_OF_BOUNDS,
     BREAD_ERROR_DIVISION_BY_ZERO, BREAD_ERROR_MEMORY_ALLOCATION}"

definition bread_error_set_with_context ::
  "(cstring \<Rightarrow> int \<Rightarrow> cstring option) \<Rightarrow> BreadErrorType \<Rightarrow> cstring option \<Rightarrow> cstring option \<Rightarrow>
   int \<Rightarrow> int \<Rightarrow> cstring option \<Rightarrow> error_state \<Rightarrow> error_state outcome" where
  "bread_error_set_with_context read_line ty msg file line col ctx st0 =
     (let st = bread_error_init st0;
          ctx' = (case ctx of Some c \<Rightarrow> Some c
                  | None \<Rightarrow> (case file of Some f \<Rightarrow> if line > 0 then read_line f line else None
                             | None \<Rightarrow> None));
          e = \<lparr>err_type = ty, err_message = msg, err_filename = file, err_line = line,
               err_column = col, err_context = ctx'\<rparr>;
          st1 = st\<lparr>g_current_error := e\<rparr>;
          st2 = (if compile_time_error ty then st1\<lparr>g_compilation_failed := True\<rparr> else st1)
      in if fail_fast_error ty then Aborted e else Done st2)"

definition bread_error_set ::
  "BreadErrorType \<Rightarrow> cstring \<Rightarrow> error_state \<Rightarrow> error_state outcome" where
  \<comment> \<open>the \<^verbatim>\<open>BREAD_ERROR_SET_...\<close> macros; the position in the C source they pass is left out\<close>
  "bread_error_set ty msg st =
     bread_error_set_with_context (\<lambda>_ _. None) ty (Some msg) None 0 0 None st"

definition bread_error_get_type :: "error_state \<Rightarrow> BreadErrorType" where
  "bread_error_get_type st = (if g_error_initialized st then err_type (g_current_error st) else BREAD_ERROR_NONE)"

definition bread_error_has_error :: "error_state \<Rightarrow> bool" where
  "bread_error_has_error st = (g_error_initialized st \<and> err_type (g_current_error st) \<noteq> BREAD_ERROR_NONE)"

definition bread_error_has_compilation_errors :: "error_state \<Rightarrow> bool" where
  "bread_error_has_compilation_errors st = (g_error_initialized st \<and> g_compilation_failed st)"

definition bread_error_mark_compilation_failed :: "error_state \<Rightarrow> error_state" where
  "bread_error_mark_compilation_failed st = (bread_error_init st)\<lparr>g_compilation_failed := True\<rparr>"

definition bread_error_reset_compilation_state :: "error_state \<Rightarrow> error_state" where
  "bread_error_reset_compilation_state st =
     (if g_error_initialized st then st\<lparr>g_compilation_failed := False\<rparr> else st)"

definition bread_error_context_push :: "BreadErrorContext \<Rightarrow> error_state \<Rightarrow> error_state" where
  "bread_error_context_push c st =
     (if length (g_error_context_stack st) \<ge> MAX_ERROR_CONTEXT_DEPTH then st
      else st\<lparr>g_error_context_stack := c # g_error_context_stack st\<rparr>)"

definition bread_error_context_pop :: "error_state \<Rightarrow> error_state" where
  "bread_error_context_pop st =
     (if length (g_error_context_stack st) > 0
      then st\<lparr>g_error_context_stack := tl (g_error_context_stack st)\<rparr> else st)"

definition bread_error_context_current :: "error_state \<Rightarrow> BreadErrorContext option" where
  "bread_error_context_current st =
     (case g_error_context_stack st of [] \<Rightarrow> None | c # _ \<Rightarrow> Some c)"

lemma bread_error_set_cases [outcome_simps]:
  "fail_fast_error ty \<Longrightarrow> \<exists>e. bread_error_set ty msg st = Aborted e \<and> err_type e = ty"
  "\<not> fail_fast_error ty \<Longrightarrow> \<exists>st'. bread_error_set ty msg st = Done st'"
  by (simp_all add: bread_error_set_def bread_error_set_with_context_def Let_def)

end
