(* ===== verification/BreadErrorRuns.thy ===== *)
theory BreadErrorRuns
  imports BreadErrors
begin

text \<open>
  The error system over time: what a sequence of reports, clears, marks, resets and context pushes and pops
  leaves behind, stated over the sequence itself.
\<close>

section \<open>Sequences of calls\<close>

datatype error_event =
  Reported BreadErrorType "cstring option" "cstring option" int int "cstring option"
| Cleared
| MarkedFailed
| StateReset
| ContextPushed BreadErrorContext
| ContextPopped

fun error_does :: "(cstring \<Rightarrow> int \<Rightarrow> cstring option) \<Rightarrow> error_event \<Rightarrow> error_state \<Rightarrow> error_state outcome" where
  "error_does rl (Reported ty msg fl line col ctx) st = bread_error_set_with_context rl ty msg fl line col ctx st"
| "error_does rl Cleared st = Done (bread_error_clear st)"
| "error_does rl MarkedFailed st = Done (bread_error_mark_compilation_failed st)"
| "error_does rl StateReset st = Done (bread_error_reset_compilation_state st)"
| "error_does rl (ContextPushed c) st = Done (bread_error_context_push c st)"
| "error_does rl ContextPopped st = Done (bread_error_context_pop st)"

fun error_run :: "(cstring \<Rightarrow> int \<Rightarrow> cstring option) \<Rightarrow> error_event list \<Rightarrow> error_state \<Rightarrow> error_state outcome" where
  "error_run rl [] st = Done st"
| "error_run rl (ev # evs) st = bnd (error_does rl ev st) (error_run rl evs)"

lemma error_run_append: "error_run rl (evs @ evs') st = bnd (error_run rl evs st) (error_run rl evs')"
proof (induction evs arbitrary: st)
  case (Cons ev evs)
  then show ?case by (cases "error_does rl ev st") simp_all
qed simp

section \<open>What the sequence says\<close>

fun ends_process :: "error_event \<Rightarrow> bool" where
  \<comment> \<open>errors of the running program\<close>
  "ends_process (Reported ty msg fl line col ctx) = (ty = BREAD_ERROR_RUNTIME_ERROR \<or> ty = BREAD_ERROR_INDEX_OUT_OF_BOUNDS \<or>
     ty = BREAD_ERROR_DIVISION_BY_ZERO \<or> ty = BREAD_ERROR_MEMORY_ALLOCATION)"
| "ends_process ev = False"

fun fails_compilation :: "error_event \<Rightarrow> bool" where
  \<comment> \<open>errors of the program text\<close>
  "fails_compilation (Reported ty msg fl line col ctx) = (ty = BREAD_ERROR_SYNTAX_ERROR \<or> ty = BREAD_ERROR_PARSE_ERROR \<or>
     ty = BREAD_ERROR_COMPILE_ERROR \<or> ty = BREAD_ERROR_TYPE_MISMATCH \<or> ty = BREAD_ERROR_UNDEFINED_VARIABLE)"
| "fails_compilation MarkedFailed = True"
| "fails_compilation ev = False"

fun kind_after :: "error_event list \<Rightarrow> BreadErrorType \<Rightarrow> BreadErrorType" where
  \<comment> \<open>latest first: the last report that has not been cleared\<close>
  "kind_after [] k = k"
| "kind_after (Reported ty msg fl line col ctx # evs) k = ty"
| "kind_after (Cleared # evs) k = BREAD_ERROR_NONE"
| "kind_after (ev # evs) k = kind_after evs k"

fun stack_effect :: "error_event \<Rightarrow> BreadErrorContext list \<Rightarrow> BreadErrorContext list" where
  "stack_effect (ContextPushed c) cs = (if length cs < 32 then c # cs else cs)"
| "stack_effect ContextPopped cs = tl cs"
| "stack_effect ev cs = cs"

definition failed_after :: "error_event list \<Rightarrow> bool \<Rightarrow> bool" where
  \<comment> \<open>something has failed the compilation and there was no reset since\<close>
  "failed_after evs b \<longleftrightarrow> (\<exists>before ev after. evs = before @ ev # after \<and> fails_compilation ev \<and> StateReset \<notin> set after) \<or>
     b \<and> StateReset \<notin> set evs"

lemma failed_after_Nil [simp]: "failed_after [] b = b"
  by (simp add: failed_after_def)

lemma failed_after_snoc [simp]:
  "failed_after (evs @ [ev]) b \<longleftrightarrow> fails_compilation ev \<or> ev \<noteq> StateReset \<and> failed_after evs b"
proof -
  have "(\<exists>before e after. evs @ [ev] = before @ e # after \<and> fails_compilation e \<and> StateReset \<notin> set after) \<longleftrightarrow>
    fails_compilation ev \<or> ev \<noteq> StateReset \<and>
      (\<exists>before e after. evs = before @ e # after \<and> fails_compilation e \<and> StateReset \<notin> set after)" (is "?l \<longleftrightarrow> ?r")
  proof
    assume ?l
    then obtain before e after where e: "evs @ [ev] = before @ e # after" "fails_compilation e" "StateReset \<notin> set after" by blast
    then show ?r by (cases after rule: rev_cases) auto
  next
    assume ?r
    then show ?l
    proof
      assume "fails_compilation ev"
      then show ?l by (intro exI [of _ evs] exI [of _ ev] exI [of _ "[]"]) simp
    next
      assume "ev \<noteq> StateReset \<and> (\<exists>before e after. evs = before @ e # after \<and> fails_compilation e \<and> StateReset \<notin> set after)"
      then obtain before e after where "ev \<noteq> StateReset" "evs = before @ e # after" "fails_compilation e" "StateReset \<notin> set after" by blast
      then show ?l by (intro exI [of _ before] exI [of _ e] exI [of _ "after @ [ev]"]) simp
    qed
  qed
  then show ?thesis by (auto simp: failed_after_def)
qed

section \<open>What the calls do\<close>

lemma fail_fast_ends: "fail_fast_error ty = ends_process (Reported ty msg fl line col ctx)"
  by (auto simp: fail_fast_error_def)

lemma compile_time_fails: "compile_time_error ty = fails_compilation (Reported ty msg fl line col ctx)"
  by (auto simp: compile_time_error_def)

lemma report_ends:
  "ends_process ev \<Longrightarrow> \<exists>ty msg fl line col ctx e. ev = Reported ty msg fl line col ctx \<and>
     error_does rl ev st = Aborted e \<and> err_type e = ty \<and> err_message e = msg"
  by (cases ev) (auto simp: bread_error_set_with_context_def Let_def fail_fast_error_def)

lemma error_does_returns:
  assumes "g_error_initialized st" "\<not> ends_process ev"
  shows "\<exists>st'. error_does rl ev st = Done st' \<and> g_error_initialized st' \<and>
    bread_error_get_type st' = kind_after [ev] (bread_error_get_type st) \<and>
    bread_error_has_compilation_errors st' =
      (fails_compilation ev \<or> ev \<noteq> StateReset \<and> bread_error_has_compilation_errors st) \<and>
    g_error_context_stack st' = stack_effect ev (g_error_context_stack st)"
proof (cases ev)
  case (Reported ty msg fl line col ctx)
  then have "\<not> fail_fast_error ty" using assms(2) by (auto simp: fail_fast_error_def)
  then show ?thesis using assms(1)
    by (simp add: Reported bread_error_set_with_context_def bread_error_init_def bread_error_get_type_def
        bread_error_has_compilation_errors_def Let_def compile_time_fails [of ty msg fl line col ctx])
next
  case (ContextPushed c)
  then show ?thesis using assms(1)
    by (auto simp: bread_error_context_push_def MAX_ERROR_CONTEXT_DEPTH_def bread_error_get_type_def bread_error_has_compilation_errors_def)
next
  case ContextPopped
  then show ?thesis using assms(1)
    by (auto simp: bread_error_context_pop_def bread_error_get_type_def bread_error_has_compilation_errors_def)
qed (use assms(1) in \<open>auto simp: bread_error_clear_def bread_error_mark_compilation_failed_def bread_error_init_def
    bread_error_reset_compilation_state_def no_error_def bread_error_get_type_def bread_error_has_compilation_errors_def\<close>)

lemma kind_after_step: "kind_after (ev # evs) k = kind_after [ev] (kind_after evs k)"
  by (cases ev) simp_all

lemma error_run_returns:
  assumes "g_error_initialized st" "\<forall>ev \<in> set evs. \<not> ends_process ev"
  shows "\<exists>st'. error_run rl evs st = Done st' \<and> g_error_initialized st' \<and>
    bread_error_get_type st' = kind_after (rev evs) (bread_error_get_type st) \<and>
    bread_error_has_compilation_errors st' = failed_after evs (bread_error_has_compilation_errors st) \<and>
    g_error_context_stack st' = fold stack_effect evs (g_error_context_stack st)"
  using assms(2)
proof (induction evs rule: rev_induct)
  case Nil
  then show ?case using assms(1) by simp
next
  case (snoc ev evs)
  then obtain st1 where run: "error_run rl evs st = Done st1" "g_error_initialized st1"
    and st1: "bread_error_get_type st1 = kind_after (rev evs) (bread_error_get_type st)"
      "bread_error_has_compilation_errors st1 = failed_after evs (bread_error_has_compilation_errors st)"
      "g_error_context_stack st1 = fold stack_effect evs (g_error_context_stack st)" by auto
  have "\<not> ends_process ev" using snoc.prems by simp
  from error_does_returns [OF run(2) this, of rl] st1 run kind_after_step [of ev "rev evs"] show ?case
    by (auto simp: error_run_append)
qed

lemma error_run_ends:
  assumes "g_error_initialized st" "\<forall>ev \<in> set before. \<not> ends_process ev" "ends_process (Reported ty msg fl line col ctx)"
  shows "\<exists>e. error_run rl (before @ Reported ty msg fl line col ctx # after) st = Aborted e \<and> err_type e = ty \<and> err_message e = msg"
proof -
  obtain st1 where "error_run rl before st = Done st1" using error_run_returns [OF assms(1,2)] by blast
  then show ?thesis using report_ends [OF assms(3), of rl st1] by (auto simp: error_run_append)
qed

lemma stack_depth: "length cs \<le> 32 \<Longrightarrow> length (fold stack_effect evs cs) \<le> 32"
proof (induction evs arbitrary: cs)
  case (Cons ev evs)
  have "length (stack_effect ev cs) \<le> 32" using Cons.prems by (cases ev) auto
  from Cons.IH [OF this] show ?case by simp
qed simp

text \<open>
  C39: the error system over any sequence of calls. The first report of a runtime, index, division or allocation
  error ends the process, with that kind and message, whatever comes after it. A sequence without such a report
  returns; then the current error is of the kind of the last report, or none when it was cleared later; the
  compilation has failed exactly when, since the last reset, a syntax, parse, compile, type or undefined-variable
  error was reported or the failure was marked (or it had failed before and was not reset); and the contexts are
  what the pushes and pops leave, never more than 32.
\<close>
theorem error_runs_correct:
  assumes "g_error_initialized st"
  shows "(\<forall>before ty msg fl line col ctx after. evs = before @ Reported ty msg fl line col ctx # after \<and>
      ty \<in> {BREAD_ERROR_RUNTIME_ERROR, BREAD_ERROR_INDEX_OUT_OF_BOUNDS, BREAD_ERROR_DIVISION_BY_ZERO, BREAD_ERROR_MEMORY_ALLOCATION} \<and>
      (\<forall>ev \<in> set before. \<not> ends_process ev) \<longrightarrow>
      (\<exists>e. error_run rl evs st = Aborted e \<and> err_type e = ty \<and> err_message e = msg)) \<and>
    ((\<forall>ev \<in> set evs. \<not> ends_process ev) \<longrightarrow>
      (\<exists>st'. error_run rl evs st = Done st' \<and>
         bread_error_get_type st' = kind_after (rev evs) (bread_error_get_type st) \<and>
         bread_error_has_compilation_errors st' = failed_after evs (bread_error_has_compilation_errors st) \<and>
         g_error_context_stack st' = fold stack_effect evs (g_error_context_stack st) \<and>
         (length (g_error_context_stack st) \<le> 32 \<longrightarrow> length (g_error_context_stack st') \<le> 32)))"
proof (intro conjI allI impI)
  fix before ty msg fl line col ctx after
  assume "evs = before @ Reported ty msg fl line col ctx # after \<and>
      ty \<in> {BREAD_ERROR_RUNTIME_ERROR, BREAD_ERROR_INDEX_OUT_OF_BOUNDS, BREAD_ERROR_DIVISION_BY_ZERO, BREAD_ERROR_MEMORY_ALLOCATION} \<and>
      (\<forall>ev \<in> set before. \<not> ends_process ev)"
  with error_run_ends [OF assms, of before ty msg fl line col ctx rl after]
  show "\<exists>e. error_run rl evs st = Aborted e \<and> err_type e = ty \<and> err_message e = msg" by auto
next
  assume "\<forall>ev \<in> set evs. \<not> ends_process ev"
  from error_run_returns [OF assms this, of rl] show "\<exists>st'. error_run rl evs st = Done st' \<and>
         bread_error_get_type st' = kind_after (rev evs) (bread_error_get_type st) \<and>
         bread_error_has_compilation_errors st' = failed_after evs (bread_error_has_compilation_errors st) \<and>
         g_error_context_stack st' = fold stack_effect evs (g_error_context_stack st) \<and>
         (length (g_error_context_stack st) \<le> 32 \<longrightarrow> length (g_error_context_stack st') \<le> 32)"
    using stack_depth by (elim exE) auto
qed

theorem error_runs_correct_witness:
  "(\<exists>st'. error_run (\<lambda>_ _. None) [Reported BREAD_ERROR_SYNTAX_ERROR None None 1 2 None, Cleared] (bread_error_init error_state0) = Done st' \<and>
      bread_error_get_type st' = BREAD_ERROR_NONE \<and> bread_error_has_compilation_errors st') \<and>
   (\<exists>e. error_run (\<lambda>_ _. None) [Cleared, Reported BREAD_ERROR_DIVISION_BY_ZERO None None 1 2 None, Cleared] (bread_error_init error_state0) =
      Aborted e \<and> err_type e = BREAD_ERROR_DIVISION_BY_ZERO)"
proof -
  have init: "g_error_initialized (bread_error_init error_state0)" by (simp add: bread_error_init_def)
  let ?bad = "Reported BREAD_ERROR_SYNTAX_ERROR None None 1 2 None" and ?div = "Reported BREAD_ERROR_DIVISION_BY_ZERO None None 1 2 None"
  have "failed_after ([] @ [?bad] @ [Cleared]) b" for b
    unfolding failed_after_def by (rule disjI1, rule exI [of _ "[]"], rule exI [of _ ?bad], rule exI [of _ "[Cleared]"]) simp
  then have "failed_after [?bad, Cleared] b" for b by simp
  with error_runs_correct [OF init, of "[?bad, Cleared]" "\<lambda>_ _. None"]
  have "\<exists>st'. error_run (\<lambda>_ _. None) [?bad, Cleared] (bread_error_init error_state0) = Done st' \<and>
      bread_error_get_type st' = BREAD_ERROR_NONE \<and> bread_error_has_compilation_errors st'" by auto
  moreover have "[Cleared, ?div, Cleared] = [Cleared] @ ?div # [Cleared] \<and>
      BREAD_ERROR_DIVISION_BY_ZERO \<in> {BREAD_ERROR_RUNTIME_ERROR, BREAD_ERROR_INDEX_OUT_OF_BOUNDS, BREAD_ERROR_DIVISION_BY_ZERO,
        BREAD_ERROR_MEMORY_ALLOCATION} \<and> (\<forall>ev \<in> set [Cleared]. \<not> ends_process ev)" by simp
  from conjunct1 [OF error_runs_correct [OF init, of "[Cleared, ?div, Cleared]" "\<lambda>_ _. None"], rule_format, OF this]
  have "\<exists>e. error_run (\<lambda>_ _. None) [Cleared, ?div, Cleared] (bread_error_init error_state0) = Aborted e \<and>
      err_type e = BREAD_ERROR_DIVISION_BY_ZERO" by blast
  ultimately show ?thesis by blast
qed

end
