(* ===== verification/BreadHeap.thy ===== *)
theory BreadHeap
  imports BreadTypes BreadErrors "HOL-Library.Multiset"
begin

text \<open>
  The runtime's heap of reference-counted objects: the values and object layouts of
  \<^verbatim>\<open>include/core/value.h\<close> and \<^verbatim>\<open>include/runtime/runtime.h\<close>, allocation, retain and
  release of \<^verbatim>\<open>src/runtime/memory.c\<close>, and \<^verbatim>\<open>bread_value_clone\<close> and
  \<^verbatim>\<open>bread_value_release\<close> of \<^verbatim>\<open>src/core/value_core.c\<close> with the release functions of each
  kind of object they call.
  An address is an index into the list of cells; a freed cell is \<open>None\<close> and an address is
  never used twice. A pointer is an optional address (\<open>None\<close> is NULL). A buffer the object
  owns (items, entries, field arrays) is part of its body. Allocation does not fail.
\<close>

section \<open>Values and objects\<close>

type_synonym addr = nat
type_synonym ref = "addr option"

datatype val = VNil | VBool bool | VInt "64 word" | VFloat "32 word" | VDouble "64 word"
  | VString ref | VArray ref | VDict ref | VOptional ref | VStruct ref | VClass ref

fun vtype :: "val \<Rightarrow> VarType" where
  "vtype VNil = TYPE_NIL" | "vtype (VBool _) = TYPE_BOOL" | "vtype (VInt _) = TYPE_INT"
| "vtype (VFloat _) = TYPE_FLOAT" | "vtype (VDouble _) = TYPE_DOUBLE"
| "vtype (VString _) = TYPE_STRING" | "vtype (VArray _) = TYPE_ARRAY" | "vtype (VDict _) = TYPE_DICT"
| "vtype (VOptional _) = TYPE_OPTIONAL" | "vtype (VStruct _) = TYPE_STRUCT"
| "vtype (VClass _) = TYPE_CLASS"

fun ref_of :: "val \<Rightarrow> ref" where
  "ref_of (VString r) = r" | "ref_of (VArray r) = r" | "ref_of (VDict r) = r"
| "ref_of (VOptional r) = r" | "ref_of (VStruct r) = r" | "ref_of (VClass r) = r"
| "ref_of _ = None"

record bstring =
  sdata :: "char list"      \<comment> \<open>the \<open>len\<close> bytes before the final NUL\<close>
  interned :: bool          \<comment> \<open>the flag \<^verbatim>\<open>BREAD_STRING_INTERNED\<close>\<close>

record barray =
  acapacity :: nat
  element_type :: VarType
  items :: "val list"       \<comment> \<open>the first \<open>count\<close> slots\<close>

record dentry =
  dkey :: val
  dvalue :: val
  is_occupied :: bool
  is_deleted :: bool

record bdict =
  dcount :: nat
  key_type :: VarType
  value_type :: VarType
  entries :: "dentry list"  \<comment> \<open>its length is the capacity\<close>

record bstruct =
  type_name :: cstring
  sfields :: "(cstring \<times> val) list"

record bclass =
  class_name :: cstring
  parent_name :: "cstring option"
  parent_class :: ref
  cfields :: "(cstring option \<times> val) list"
  method_names :: "cstring option list"
  methods :: "nat option list"              \<comment> \<open>\<open>[]\<close> is NULL, an entry \<open>None\<close> is uninitialised\<close>
  compiled_methods :: "nat option list"     \<comment> \<open>code pointers\<close>
  compiled_constructor :: "nat option"

datatype body = BString bstring | BArray barray | BDict bdict | BOptional "val option"
  | BStruct bstruct | BClass bclass

record obj =
  refcount :: "32 word"
  body :: body

record mem =
  cells :: "obj option list"
  errs :: error_state
  total_allocations :: nat
  total_deallocations :: nat
  current_objects :: nat
  peak_objects :: nat

fun kind_ok :: "val \<Rightarrow> body \<Rightarrow> bool" where
  \<comment> \<open>the object behind a value is of the kind the value's tag says\<close>
  "kind_ok (VString _) (BString _) = True"
| "kind_ok (VArray _) (BArray _) = True"
| "kind_ok (VDict _) (BDict _) = True"
| "kind_ok (VOptional _) (BOptional _) = True"
| "kind_ok (VStruct _) (BStruct _) = True"
| "kind_ok (VClass _) (BClass _) = True"
| "kind_ok _ _ = False"

definition live_entry :: "dentry \<Rightarrow> bool" where
  "live_entry e \<longleftrightarrow> is_occupied e \<and> \<not> is_deleted e"

fun children :: "body \<Rightarrow> val list" where
  \<comment> \<open>the values a dying object releases, in the order of the loops of its release function\<close>
  "children (BString s) = []"
| "children (BArray a) = items a"
| "children (BDict d) = concat (map (\<lambda>e. [dkey e, dvalue e]) (filter live_entry (entries d)))"
| "children (BOptional v) = (case v of None \<Rightarrow> [] | Some w \<Rightarrow> [w])"
| "children (BStruct s) = map snd (sfields s)"
| "children (BClass c) = map snd (cfields c)"

section \<open>Cells\<close>

definition get_obj :: "mem \<Rightarrow> addr \<Rightarrow> obj option" where
  "get_obj m a = (if a < length (cells m) then cells m ! a else None)"

definition set_cell :: "addr \<Rightarrow> obj option \<Rightarrow> mem \<Rightarrow> mem" where
  "set_cell a c m = m\<lparr>cells := (cells m)[a := c]\<rparr>"

definition bread_memory_init :: mem where
  \<comment> \<open>the manager at start: no objects, no error\<close>
  "bread_memory_init = \<lparr>cells = [], errs = bread_error_init error_state0, total_allocations = 0,
     total_deallocations = 0, current_objects = 0, peak_objects = 0\<rparr>"

definition raise_error :: "BreadErrorType \<Rightarrow> cstring \<Rightarrow> mem \<Rightarrow> mem outcome" where
  "raise_error ty msg m = bnd (bread_error_set ty msg (errs m)) (\<lambda>st. Done (m\<lparr>errs := st\<rparr>))"

definition error_report :: "BreadErrorType \<Rightarrow> cstring \<Rightarrow> BreadError" where
  "error_report t msg = \<lparr>err_type = t, err_message = Some msg, err_filename = None, err_line = 0,
     err_column = 0, err_context = None\<rparr>"

lemma error_report_type [simp]: "err_type (error_report t msg) = t"
  by (simp add: error_report_def)

lemma fail_fast_simps [simp]:
  "fail_fast_error BREAD_ERROR_RUNTIME_ERROR" "fail_fast_error BREAD_ERROR_INDEX_OUT_OF_BOUNDS"
  "fail_fast_error BREAD_ERROR_DIVISION_BY_ZERO" "fail_fast_error BREAD_ERROR_MEMORY_ALLOCATION"
  "\<not> fail_fast_error BREAD_ERROR_TYPE_MISMATCH" "\<not> fail_fast_error BREAD_ERROR_UNDEFINED_VARIABLE"
  "\<not> fail_fast_error BREAD_ERROR_SYNTAX_ERROR" "\<not> fail_fast_error BREAD_ERROR_PARSE_ERROR"
  "\<not> fail_fast_error BREAD_ERROR_COMPILE_ERROR"
  by (simp_all add: fail_fast_error_def)

text \<open>An error either ends the process or is recorded; it never touches an object.\<close>

lemma raise_fatal [simp]: "fail_fast_error t \<Longrightarrow> raise_error t msg m = Aborted (error_report t msg)"
  by (simp add: raise_error_def bread_error_set_def bread_error_set_with_context_def Let_def error_report_def)

definition noted :: "BreadErrorType \<Rightarrow> cstring \<Rightarrow> mem \<Rightarrow> mem" where
  "noted t msg m = (let st = bread_error_init (errs m) in
     m\<lparr>errs := st\<lparr>g_current_error := error_report t msg,
       g_compilation_failed := g_compilation_failed st \<or> compile_time_error t\<rparr>\<rparr>)"

lemma raise_noted [simp]: "\<not> fail_fast_error t \<Longrightarrow> raise_error t msg m = Done (noted t msg m)"
  by (auto simp: raise_error_def bread_error_set_def bread_error_set_with_context_def Let_def
      error_report_def noted_def)

lemma noted_cells [simp]: "cells (noted t msg m) = cells m"
  by (simp add: noted_def Let_def)

definition bread_memory_alloc :: "body \<Rightarrow> mem \<Rightarrow> addr \<times> mem" where
  \<comment> \<open>a new object with one reference; the collector is off unless a caller enables it\<close>
  "bread_memory_alloc b m =
     (length (cells m),
      m\<lparr>cells := cells m @ [Some \<lparr>refcount = 1, body = b\<rparr>],
        total_allocations := total_allocations m + 1,
        current_objects := current_objects m + 1,
        peak_objects := max (peak_objects m) (current_objects m + 1)\<rparr>)"

definition bread_memory_free :: "addr \<Rightarrow> mem \<Rightarrow> mem" where
  "bread_memory_free a m =
     (case get_obj m a of None \<Rightarrow> m
      | Some _ \<Rightarrow> (set_cell a None m)\<lparr>total_deallocations := total_deallocations m + 1,
           current_objects := (if current_objects m > 0 then current_objects m - 1 else 0)\<rparr>)"

definition bread_object_retain :: "ref \<Rightarrow> mem \<Rightarrow> mem outcome" where
  "bread_object_retain r m =
     (case r of None \<Rightarrow> Done m
      | Some a \<Rightarrow> (case get_obj m a of None \<Rightarrow> Undefined
         | Some ob \<Rightarrow>
            if refcount ob = - 1 then raise_error BREAD_ERROR_MEMORY_ALLOCATION ''Refcount overflow'' m
            else Done (set_cell a (Some (ob\<lparr>refcount := refcount ob + 1\<rparr>)) m)))"

definition bread_value_clone :: "val \<Rightarrow> mem \<Rightarrow> (val \<times> mem) outcome" where
  "bread_value_clone v m = bnd (bread_object_retain (ref_of v) m) (\<lambda>m'. Done (v, m'))"

section \<open>Release\<close>

text \<open>
  Releasing a value may free its object, which releases the values in it, and so on: the C
  functions call each other recursively. The recursion is written with its stack of pending
  work: release a value, or free an object whose contents have been released. The counts in
  the heap, and then the stack, get smaller.
\<close>

datatype work = Rel val | FreeObj addr

definition total_refs :: "mem \<Rightarrow> nat" where
  "total_refs m = sum_list (map (\<lambda>c. case c of None \<Rightarrow> 0 | Some ob \<Rightarrow> unat (refcount ob)) (cells m))"

lemma sum_list_nth_update:
  "i < length xs \<Longrightarrow> sum_list (xs[i := x]) + xs ! i = sum_list xs + (x :: 'a :: comm_monoid_add)"
proof (induction xs arbitrary: i)
  case (Cons y ys)
  then show ?case by (cases i) (auto simp: ac_simps)
qed simp

lemma total_refs_set:
  "get_obj m a = Some ob \<Longrightarrow>
   total_refs (set_cell a c m) + unat (refcount ob) =
   total_refs m + (case c of None \<Rightarrow> 0 | Some ob' \<Rightarrow> unat (refcount ob'))"
  using sum_list_nth_update [of a "map (\<lambda>c. case c of None \<Rightarrow> 0 | Some ob \<Rightarrow> unat (refcount ob)) (cells m)"
      "case c of None \<Rightarrow> 0 | Some ob' \<Rightarrow> unat (refcount ob')"]
  by (auto simp: total_refs_def get_obj_def set_cell_def map_update split: if_splits)

lemma unat_minus_one_lt: "w \<noteq> 0 \<Longrightarrow> unat (w - 1) < unat (w :: 32 word)"
  by (metis measure_unat)

lemma total_refs_free: "total_refs (bread_memory_free a m) \<le> total_refs m"
proof (cases "get_obj m a")
  case (Some ob)
  have "total_refs (bread_memory_free a m) = total_refs (set_cell a None m)"
    using Some by (simp add: bread_memory_free_def total_refs_def)
  with total_refs_set [OF Some, of None] show ?thesis by simp
qed (simp add: bread_memory_free_def)

function release_work :: "mem \<Rightarrow> work list \<Rightarrow> mem outcome" where
  "release_work m [] = Done m"
| "release_work m (FreeObj a # ws) = release_work (bread_memory_free a m) ws"
| "release_work m (Rel v # ws) =
     (case ref_of v of None \<Rightarrow> release_work m ws
      | Some a \<Rightarrow> (case get_obj m a of None \<Rightarrow> Undefined
         | Some ob \<Rightarrow>
            if \<not> kind_ok v (body ob) then Undefined
            else if refcount ob = 0 then
              (if vtype v = TYPE_STRING
               then raise_error BREAD_ERROR_MEMORY_ALLOCATION ''Double free detected'' m
               else release_work m ws)
            else (let m' = set_cell a (Some (ob\<lparr>refcount := refcount ob - 1\<rparr>)) m in
              if refcount ob - 1 = 0
              then release_work m' (map Rel (children (body ob)) @ FreeObj a # ws)
              else release_work m' ws)))"
  by pat_completeness auto
termination
proof (relation "measures [total_refs \<circ> fst, length \<circ> snd]", goal_cases)
  case (2 m a ws)
  then show ?case using total_refs_free [of a m] by auto
next
  case (5 m v ws a ob x)
  then show ?case
    using total_refs_set [of m a ob "Some (ob\<lparr>refcount := refcount ob - 1\<rparr>)"]
      unat_minus_one_lt [of "refcount ob"] by auto
next
  case (6 m v ws a ob x)
  then show ?case
    using total_refs_set [of m a ob "Some (ob\<lparr>refcount := refcount ob - 1\<rparr>)"]
      unat_minus_one_lt [of "refcount ob"] by auto
qed auto

definition bread_value_release :: "val \<Rightarrow> mem \<Rightarrow> mem outcome" where
  "bread_value_release v m = release_work m [Rel v]"

definition bread_values_release :: "val list \<Rightarrow> mem \<Rightarrow> mem outcome" where
  \<comment> \<open>the release loops over items, entries and fields\<close>
  "bread_values_release vs m = release_work m (map Rel vs)"

end
