(* ===== verification/BreadRefcount.thy ===== *)
theory BreadRefcount
  imports BreadHeap
begin

text \<open>
  The reference-counting discipline: in a consistent heap the count of every object is
  the number of references to it, from the contents of live objects and from the outside (the
  multiset \<open>R\<close> of values that C variables, scopes and registries own).
\<close>

section \<open>Counting references\<close>

definition refs :: "addr \<Rightarrow> val multiset \<Rightarrow> nat" where
  "refs a V = size (filter_mset (\<lambda>v. ref_of v = Some a) V)"

lemma refs_simps [simp]:
  "refs a {#} = 0" "refs a (V + W) = refs a V + refs a W"
  "refs a (add_mset v V) = (if ref_of v = Some a then Suc (refs a V) else refs a V)"
  by (simp_all add: refs_def)

lemma refs_pos: "v \<in># V \<Longrightarrow> ref_of v = Some a \<Longrightarrow> 0 < refs a V"
  by (auto simp: refs_def nonempty_has_size [symmetric] filter_mset_eq_conv)

lemma refs_posD: "0 < refs a V \<Longrightarrow> \<exists>v. v \<in># V \<and> ref_of v = Some a"
  by (induction V) (auto split: if_splits)

definition cell_vals :: "obj option \<Rightarrow> val multiset" where
  \<comment> \<open>the references an object holds; one whose count is zero is being freed and holds none\<close>
  "cell_vals c = (case c of None \<Rightarrow> {#}
     | Some ob \<Rightarrow> if refcount ob = 0 then {#} else mset (children (body ob)))"

definition held :: "mem \<Rightarrow> val multiset" where
  "held m = sum_list (map cell_vals (cells m))"

definition rc_of :: "mem \<Rightarrow> addr \<Rightarrow> nat" where
  "rc_of m a = (case get_obj m a of None \<Rightarrow> 0 | Some ob \<Rightarrow> unat (refcount ob))"

fun pending_vals :: "work list \<Rightarrow> val multiset" where
  "pending_vals [] = {#}"
| "pending_vals (Rel v # ws) = add_mset v (pending_vals ws)"
| "pending_vals (FreeObj a # ws) = pending_vals ws"

fun pending_frees :: "work list \<Rightarrow> addr list" where
  "pending_frees [] = []"
| "pending_frees (Rel v # ws) = pending_frees ws"
| "pending_frees (FreeObj a # ws) = a # pending_frees ws"

lemma pending_append [simp]:
  "pending_vals (ws @ us) = pending_vals ws + pending_vals us"
  "pending_frees (ws @ us) = pending_frees ws @ pending_frees us"
  by (induction ws rule: pending_vals.induct) auto

lemma pending_Rel [simp]: "pending_vals (map Rel vs) = mset vs" "pending_frees (map Rel vs) = []"
  by (induction vs) auto

definition work_inv :: "mem \<Rightarrow> work list \<Rightarrow> val multiset \<Rightarrow> bool" where
  "work_inv m ws R \<longleftrightarrow>
     (\<forall>a. rc_of m a = refs a (held m + pending_vals ws + R)) \<and>
     (\<forall>v a ob. v \<in># held m + pending_vals ws + R \<longrightarrow> ref_of v = Some a \<longrightarrow> get_obj m a = Some ob \<longrightarrow>
        kind_ok v (body ob)) \<and>
     (\<forall>a. a \<in> set (pending_frees ws) \<longleftrightarrow> (\<exists>ob. get_obj m a = Some ob \<and> refcount ob = 0)) \<and>
     distinct (pending_frees ws)"

definition heap_ok :: "mem \<Rightarrow> val multiset \<Rightarrow> bool" where
  "heap_ok m R \<longleftrightarrow> work_inv m [] R"

lemma get_set_cell [simp]:
  "get_obj (set_cell a c m) b = (if a = b \<and> a < length (cells m) then c else get_obj m b)"
  by (auto simp: get_obj_def set_cell_def)

lemma get_obj_bound: "get_obj m a = Some ob \<Longrightarrow> a < length (cells m)"
  by (auto simp: get_obj_def split: if_splits)

lemma held_set_cell:
  "a < length (cells m) \<Longrightarrow> held (set_cell a c m) + cell_vals (cells m ! a) = held m + cell_vals c"
  using sum_list_nth_update [of a "map cell_vals (cells m)" "cell_vals c"]
  by (simp add: held_def set_cell_def map_update)

lemma held_set_obj:
  assumes "get_obj m a = Some ob"
  shows "held (set_cell a c m) + cell_vals (Some ob) = held m + cell_vals c"
  using assms held_set_cell [of a m c] by (auto simp: get_obj_def split: if_splits)

lemma free_get [simp]: "get_obj (bread_memory_free a m) b = (if a = b then None else get_obj m b)"
  by (auto simp: bread_memory_free_def get_obj_def set_cell_def split: option.splits)

lemma held_free: "rc_of m a = 0 \<Longrightarrow> held (bread_memory_free a m) = held m"
proof (cases "get_obj m a")
  case (Some ob)
  moreover assume "rc_of m a = 0"
  ultimately have "held (set_cell a None m) = held m"
    using held_set_obj [OF Some, of None] by (simp add: cell_vals_def rc_of_def unat_eq_0)
  with Some show ?thesis by (simp add: bread_memory_free_def held_def)
qed (simp add: bread_memory_free_def)

section \<open>Release keeps the discipline\<close>

lemma work_inv_freeD:
  assumes "work_inv m (FreeObj a # ws) R"
  shows "work_inv (bread_memory_free a m) ws R"
proof -
  from assms have "\<exists>ob. get_obj m a = Some ob \<and> refcount ob = 0"
    unfolding work_inv_def by (metis list.set_intros(1) pending_frees.simps(3))
  then obtain ob where ob: "get_obj m a = Some ob" "refcount ob = 0" by blast
  then have h: "held (bread_memory_free a m) = held m" by (intro held_free) (simp add: rc_of_def)
  have rc: "rc_of (bread_memory_free a m) b = rc_of m b" for b
    using ob by (auto simp: rc_of_def)
  show ?thesis
    using assms unfolding work_inv_def h rc by (auto split: if_splits)
qed

lemma work_inv_nullD:
  "work_inv m (Rel v # ws) R \<Longrightarrow> ref_of v = None \<Longrightarrow> work_inv m ws R"
  by (auto simp: work_inv_def)

lemma work_inv_live:
  assumes "work_inv m (Rel v # ws) R" "ref_of v = Some a"
  obtains ob where "get_obj m a = Some ob" "kind_ok v (body ob)" "refcount ob \<noteq> 0"
proof -
  from assms have "rc_of m a > 0" by (simp add: work_inv_def)
  then obtain ob where ob: "get_obj m a = Some ob" "refcount ob \<noteq> 0"
    by (auto simp: rc_of_def unat_gt_0 split: option.splits)
  moreover have "kind_ok v (body ob)"
    using assms ob by (auto simp: work_inv_def)
  ultimately show ?thesis using that by blast
qed

lemma unat_dec: "w \<noteq> 0 \<Longrightarrow> unat (w - 1) = unat (w :: 32 word) - 1"
  by (simp add: unat_minus_one)

lemma work_inv_dec:
  assumes inv: "work_inv m (Rel v # ws) R" and a: "ref_of v = Some a" and ob: "get_obj m a = Some ob"
    and rc: "refcount ob \<noteq> 0"
  defines "m' \<equiv> set_cell a (Some (ob\<lparr>refcount := refcount ob - 1\<rparr>)) m"
  shows "refcount ob - 1 \<noteq> 0 \<Longrightarrow> work_inv m' ws R"
    and "refcount ob - 1 = 0 \<Longrightarrow> work_inv m' (map Rel (children (body ob)) @ FreeObj a # ws) R"
proof -
  note bd = get_obj_bound [OF ob]
  have rcs: "rc_of m' b = (if b = a then rc_of m a - 1 else rc_of m b)" for b
    using ob bd rc by (auto simp: rc_of_def m'_def unat_dec)
  have pos: "0 < rc_of m a" using ob rc by (simp add: rc_of_def unat_gt_0)
  have old: "rc_of m b = refs b (held m + pending_vals (Rel v # ws) + R)" for b
    using inv by (simp add: work_inv_def)
  have kinds: "kind_ok u (body ob')" if "u \<in># held m + pending_vals (Rel v # ws) + R"
      "ref_of u = Some b" "get_obj m' b = Some ob'" for u b ob'
  proof (cases "b = a")
    case True
    with that ob bd inv show ?thesis by (auto simp: work_inv_def m'_def)
  next
    case False
    with that bd have "get_obj m b = Some ob'" by (auto simp: m'_def)
    with that inv show ?thesis unfolding work_inv_def by blast
  qed
  have zero: "(\<exists>ob'. get_obj m' b = Some ob' \<and> refcount ob' = 0) \<longleftrightarrow>
      (if b = a then refcount ob - 1 = 0 else \<exists>ob'. get_obj m b = Some ob' \<and> refcount ob' = 0)" for b
    using bd by (auto simp: m'_def)
  have fr: "b \<in> set (pending_frees ws) \<longleftrightarrow> (\<exists>ob. get_obj m b = Some ob \<and> refcount ob = 0)" for b
    using inv by (simp add: work_inv_def)
  have an: "a \<notin> set (pending_frees ws)" using fr ob rc by simp
  have di: "distinct (pending_frees ws)" using inv by (simp add: work_inv_def)
  show "work_inv m' ws R" if nz: "refcount ob - 1 \<noteq> 0"
  proof -
    have h: "held m' = held m"
      using held_set_obj [OF ob, of "Some (ob\<lparr>refcount := refcount ob - 1\<rparr>)"] rc nz
      by (simp add: m'_def cell_vals_def)
    have "rc_of m' b = refs b (held m' + pending_vals ws + R)" for b
      unfolding rcs h using old [of b] old [of a] a by auto
    then show ?thesis
      unfolding work_inv_def using kinds zero fr nz di an h by auto
  qed
  show "work_inv m' (map Rel (children (body ob)) @ FreeObj a # ws) R" if z: "refcount ob - 1 = 0"
  proof -
    have h: "held m = held m' + mset (children (body ob))"
      using held_set_obj [OF ob, of "Some (ob\<lparr>refcount := refcount ob - 1\<rparr>)"] rc z
      by (simp add: m'_def cell_vals_def)
    have "rc_of m' b = refs b (held m' + pending_vals (map Rel (children (body ob)) @ FreeObj a # ws) + R)" for b
      unfolding rcs using old [of b] old [of a] a h by auto
    then show ?thesis
      unfolding work_inv_def using kinds zero fr z di an h by auto
  qed
qed

theorem release_work_ok:
  "work_inv m ws R \<Longrightarrow> \<exists>m'. release_work m ws = Done m' \<and> work_inv m' [] R"
proof (induction m ws rule: release_work.induct)
  case (1 m)
  then show ?case by simp
next
  case (2 m a ws)
  then show ?case using work_inv_freeD by simp
next
  case (3 m v ws)
  show ?case
  proof (cases "ref_of v")
    case None
    with 3 show ?thesis using work_inv_nullD by simp
  next
    case (Some a)
    obtain ob where ob: "get_obj m a = Some ob" "kind_ok v (body ob)" "refcount ob \<noteq> 0"
      using work_inv_live [OF "3.prems" Some] .
    note dec = work_inv_dec [OF "3.prems" Some ob(1,3)]
    show ?thesis
    proof (cases "refcount ob - 1 = 0")
      case True
      with "3.IH"(3) [OF Some ob(1) _ _ refl] Some ob dec(2) show ?thesis by simp
    next
      case False
      with "3.IH"(4) [OF Some ob(1) _ _ refl] Some ob dec(1) show ?thesis by simp
    qed
  qed
qed

lemma heap_ok_refs: "heap_ok m R \<Longrightarrow> rc_of m a = refs a (held m + R)"
  by (simp add: heap_ok_def work_inv_def)

lemma heap_ok_live:
  assumes "heap_ok m R" "v \<in># held m + R" "ref_of v = Some a"
  obtains ob where "get_obj m a = Some ob" "kind_ok v (body ob)" "refcount ob \<noteq> 0"
proof -
  have "0 < rc_of m a" using assms refs_pos [of v _ a] heap_ok_refs by metis
  then obtain ob where ob: "get_obj m a = Some ob" "refcount ob \<noteq> 0"
    by (auto simp: rc_of_def unat_gt_0 split: option.splits)
  with assms show ?thesis using that by (auto simp: heap_ok_def work_inv_def)
qed

lemma heap_ok_rc_pos: "heap_ok m R \<Longrightarrow> get_obj m a = Some ob \<Longrightarrow> refcount ob \<noteq> 0"
  by (auto simp: heap_ok_def work_inv_def)

lemma values_release_ok:
  assumes "heap_ok m (mset vs + R)"
  obtains m' where "bread_values_release vs m = Done m'" "heap_ok m' R"
proof -
  have "work_inv m (map Rel vs) R"
    using assms by (simp add: heap_ok_def work_inv_def ac_simps)
  from release_work_ok [OF this] that show ?thesis
    by (auto simp: bread_values_release_def heap_ok_def)
qed

lemma value_release_values: "bread_value_release v m = bread_values_release [v] m"
  by (simp add: bread_value_release_def bread_values_release_def)

lemma retain_ok:
  assumes ok: "heap_ok m R" and v: "ref_of v = None \<or> v \<in># held m + R"
    and room: "\<And>a. ref_of v = Some a \<Longrightarrow> rc_of m a < 2 ^ 32 - 1"
  obtains m' where "bread_value_clone v m = Done (v, m')" "heap_ok m' (add_mset v R)"
    "\<And>a. map_option body (get_obj m' a) = map_option body (get_obj m a)"
    "length (cells m') = length (cells m)" "errs m' = errs m"
proof (cases "ref_of v")
  case None
  then have "heap_ok m (add_mset v R)"
    using ok by (auto simp: heap_ok_def work_inv_def)
  then show ?thesis using that None by (simp add: bread_value_clone_def bread_object_retain_def)
next
  case (Some a)
  with v have vin: "v \<in># held m + R" by simp
  obtain ob where ob: "get_obj m a = Some ob" "kind_ok v (body ob)" "refcount ob \<noteq> 0"
    using heap_ok_live [OF ok vin Some] .
  let ?m = "set_cell a (Some (ob\<lparr>refcount := refcount ob + 1\<rparr>)) m"
  note bd = get_obj_bound [OF ob(1)]
  have u: "unat (refcount ob) < 2 ^ 32 - 1" using room [OF Some] ob by (simp add: rc_of_def)
  have "unat (- 1 :: 32 word) = 2 ^ 32 - 1" by (simp add: unsigned_minus_1_eq_mask mask_eq_exp_minus_1)
  then have nm: "refcount ob \<noteq> - 1" using u by auto
  have up: "unat (refcount ob + 1) = unat (refcount ob) + 1"
    using u by (subst unat_add_lem [THEN iffD1]) (auto simp: )
  have nz: "refcount ob + 1 \<noteq> 0" using up by (metis add_is_0 one_neq_zero unat_0)
  have h: "held ?m = held m"
    using held_set_obj [OF ob(1), of "Some (ob\<lparr>refcount := refcount ob + 1\<rparr>)"] ob(3) nz
    by (simp add: cell_vals_def)
  have "rc_of ?m b = refs b (held m + add_mset v R)" for b
    using heap_ok_refs [OF ok, of b] ob bd up Some by (auto simp: rc_of_def)
  moreover have "kind_ok w (body ob')" if "w \<in># held m + add_mset v R" "ref_of w = Some b"
      "get_obj ?m b = Some ob'" for w b ob'
    using that ok ob bd Some by (auto simp: heap_ok_def work_inv_def split: if_splits)
  ultimately have "heap_ok ?m (add_mset v R)"
    using ok nz h by (auto simp: heap_ok_def work_inv_def split: if_splits)
  moreover have "bread_value_clone v m = Done (v, ?m)"
    using ob Some nm by (simp add: bread_value_clone_def bread_object_retain_def)
  moreover have "map_option body (get_obj ?m b) = map_option body (get_obj m b)" for b
    using ob bd by auto
  moreover have "length (cells ?m) = length (cells m)" "errs ?m = errs m"
    by (simp_all add: set_cell_def)
  ultimately show ?thesis using that by blast
qed

lemma alloc_get:
  "bread_memory_alloc b m = (a, m') \<Longrightarrow>
   get_obj m' c = (if c = a then Some \<lparr>refcount = 1, body = b\<rparr> else get_obj m c) \<and>
   a = length (cells m) \<and> errs m' = errs m"
  by (auto simp: bread_memory_alloc_def get_obj_def nth_append)

lemma fresh_no_refs:
  assumes "heap_ok m R" "get_obj m a = None"
  shows "refs a (held m + R) = 0"
  using heap_ok_refs [OF assms(1), of a] assms(2) by (simp add: rc_of_def)

lemma alloc_ok:
  assumes ok: "heap_ok m (mset (children b) + R)" and al: "bread_memory_alloc b m = (a, m')"
    and v: "ref_of v = Some a" "kind_ok v b"
  shows "heap_ok m' (add_mset v R)"
proof -
  have n: "get_obj m a = None" using al by (auto simp: bread_memory_alloc_def get_obj_def)
  have h: "held m' = held m + mset (children b)"
    using al by (auto simp: bread_memory_alloc_def held_def cell_vals_def)
  have z: "refs a (held m + mset (children b) + R) = 0"
    using fresh_no_refs [OF ok n] by simp
  have g: "get_obj m' c = (if c = a then Some \<lparr>refcount = 1, body = b\<rparr> else get_obj m c)" for c
    using alloc_get [OF al] by blast
  have "rc_of m' c = refs c (held m' + add_mset v R)" for c
    using heap_ok_refs [OF ok, of c] z v(1) h g [of c]
    by (auto simp: rc_of_def split: if_splits)
  moreover have "kind_ok u (body ob)" if "u \<in># held m' + add_mset v R" "ref_of u = Some c"
      "get_obj m' c = Some ob" for u c ob
  proof (cases "c = a")
    case True
    have "u \<notin># held m + mset (children b) + R"
      using refs_pos [of u _ a] that(2) z True by (metis less_numeral_extra(3))
    with that(1) h have "u = v" by auto
    with True that g v show ?thesis by auto
  next
    case False
    with that v(1) h g have "u \<in># held m + mset (children b) + R" "get_obj m c = Some ob" by auto
    with ok that(2) show ?thesis unfolding heap_ok_def work_inv_def by auto
  qed
  ultimately show ?thesis
    using ok g unfolding heap_ok_def work_inv_def by (auto split: if_splits)
qed

lemma heap_ok_null [simp]: "ref_of v = None \<Longrightarrow> heap_ok m (add_mset v R) = heap_ok m R"
  by (auto simp: heap_ok_def work_inv_def)

lemma heap_ok_nulls: "ref_of v = None \<Longrightarrow> heap_ok m (replicate_mset n v + R) = heap_ok m R"
  by (induction n) simp_all

lemma noted_heap [simp]: "get_obj (noted t msg m) a = get_obj m a" "heap_ok (noted t msg m) R = heap_ok m R"
  by (simp_all add: get_obj_def heap_ok_def work_inv_def rc_of_def held_def)

lemma heap_ok_init: "heap_ok bread_memory_init {#}"
  by (simp add: heap_ok_def work_inv_def bread_memory_init_def rc_of_def get_obj_def held_def)

text \<open>A heap with one string, an array that holds it twice, and its two owners.\<close>

definition sample_string :: mem where
  "sample_string = snd (bread_memory_alloc (BString \<lparr>sdata = ''ab'', interned = False\<rparr>) bread_memory_init)"

lemma sample_string_ok: "heap_ok sample_string {#VString (Some 0)#}"
proof -
  have "bread_memory_alloc (BString \<lparr>sdata = ''ab'', interned = False\<rparr>) bread_memory_init = (0, sample_string)"
    by (simp add: sample_string_def bread_memory_alloc_def bread_memory_init_def)
  then show ?thesis by (rule alloc_ok [rotated]) (simp_all add: heap_ok_init)
qed

lemma sample_string_get:
  "get_obj sample_string 0 = Some \<lparr>refcount = 1, body = BString \<lparr>sdata = ''ab'', interned = False\<rparr>\<rparr>"
  by (simp add: sample_string_def bread_memory_alloc_def bread_memory_init_def get_obj_def)

definition same_kind :: "body \<Rightarrow> body \<Rightarrow> bool" where
  "same_kind b c \<longleftrightarrow> (\<forall>v. kind_ok v b = kind_ok v c)"

lemma same_kind_simps [simp]:
  "same_kind (BString s) (BString t)" "same_kind (BArray x) (BArray y)" "same_kind (BDict d) (BDict e)"
  "same_kind (BOptional p) (BOptional q)" "same_kind (BStruct f) (BStruct g)"
  "same_kind (BClass h) (BClass i)"
  by (auto simp: same_kind_def elim: kind_ok.elims)

definition set_body :: "addr \<Rightarrow> body \<Rightarrow> mem \<Rightarrow> mem" where
  \<comment> \<open>write the contents of a live object\<close>
  "set_body a b m = (case get_obj m a of None \<Rightarrow> m
     | Some ob \<Rightarrow> set_cell a (Some (ob\<lparr>body := b\<rparr>)) m)"

lemma set_body_get:
  "get_obj m a = Some ob \<Longrightarrow>
   get_obj (set_body a b m) c = (if c = a then Some (ob\<lparr>body := b\<rparr>) else get_obj m c)"
  by (auto simp: set_body_def get_obj_bound)

lemma set_body_ok:
  assumes ok: "heap_ok m (mset (children b) + R)" and ob: "get_obj m a = Some ob"
    and k: "same_kind (body ob) b"
  shows "heap_ok (set_body a b m) (mset (children (body ob)) + R)"
proof -
  have nz: "refcount ob \<noteq> 0" using heap_ok_rc_pos [OF ok ob] .
  have h: "held (set_body a b m) + mset (children (body ob)) = held m + mset (children b)"
    using held_set_obj [OF ob, of "Some (ob\<lparr>body := b\<rparr>)"] nz ob
    by (simp add: set_body_def cell_vals_def)
  then have h': "held (set_body a b m) + (mset (children (body ob)) + R) = held m + (mset (children b) + R)"
    by (simp add: ac_simps add.left_commute [of _ _ R])
  have rc: "rc_of (set_body a b m) c = rc_of m c" for c
    using ob by (simp add: rc_of_def set_body_get)
  show ?thesis
    using ok ob k nz unfolding heap_ok_def work_inv_def rc pending_vals.simps add_0_right h'
    by (auto simp: set_body_get same_kind_def split: if_splits)
qed

section \<open>What a release leaves alone\<close>

definition survives :: "mem \<Rightarrow> mem \<Rightarrow> bool" where
  \<comment> \<open>every object left has the contents it had, no object is new, no error is recorded\<close>
  "survives m m' \<longleftrightarrow> (\<forall>a ob'. get_obj m' a = Some ob' \<longrightarrow>
       (\<exists>ob. get_obj m a = Some ob \<and> body ob = body ob')) \<and>
     length (cells m') = length (cells m) \<and> errs m' = errs m"

lemma survives_refl: "survives m m"
  by (auto simp: survives_def)

lemma survives_trans: "survives m m' \<Longrightarrow> survives m' m'' \<Longrightarrow> survives m m''"
  unfolding survives_def by metis

lemma survives_free: "survives m (bread_memory_free a m)"
  by (auto simp: survives_def bread_memory_free_def set_cell_def split: if_splits option.splits)
     (auto simp: get_obj_def nth_list_update split: if_splits)

lemma survives_dec:
  "get_obj m a = Some ob \<Longrightarrow> survives m (set_cell a (Some (ob\<lparr>refcount := n\<rparr>)) m)"
  by (auto simp: survives_def split: if_splits) (auto simp: set_cell_def)

lemma release_work_survives: "release_work m ws = Done m' \<Longrightarrow> survives m m'"
proof (induction m ws rule: release_work.induct)
  case (1 m)
  then show ?case by (simp add: survives_refl)
next
  case (2 m a ws)
  then show ?case using survives_trans [OF survives_free] by simp
next
  case (3 m v ws)
  have re: "raise_error BREAD_ERROR_MEMORY_ALLOCATION msg m \<noteq> Done m'" for msg
    by simp
  show ?case
  proof (cases "ref_of v")
    case None
    with 3 show ?thesis by simp
  next
    case (Some a)
    with "3.prems" obtain ob where ob: "get_obj m a = Some ob" "kind_ok v (body ob)"
      by (auto split: option.splits if_splits)
    let ?d = "set_cell a (Some (ob\<lparr>refcount := refcount ob - 1\<rparr>)) m"
    consider (z) "refcount ob = 0" | (one) "refcount ob \<noteq> 0" "refcount ob - 1 = 0"
      | (more) "refcount ob \<noteq> 0" "refcount ob - 1 \<noteq> 0" by blast
    then show ?thesis
    proof cases
      case z
      with "3.prems" Some ob re "3.IH"(2) [OF Some ob(1)] show ?thesis by (simp split: if_splits)
    next
      case one
      with "3.prems" Some ob have "release_work ?d (map Rel (children (body ob)) @ FreeObj a # ws) = Done m'"
        by simp
      with "3.IH"(3) [OF Some ob(1) _ one(1) refl one(2)] ob(2) survives_trans [OF survives_dec [OF ob(1)]]
      show ?thesis by blast
    next
      case more
      with "3.prems" Some ob have "release_work ?d ws = Done m'" by simp
      with "3.IH"(4) [OF Some ob(1) _ more(1) refl more(2)] ob(2) survives_trans [OF survives_dec [OF ob(1)]]
      show ?thesis by blast
    qed
  qed
qed
lemma value_release_ok_ex:
  assumes "heap_ok m (add_mset v R)"
  obtains m' where "bread_value_release v m = Done m'" "heap_ok m' R" "survives m m'"
proof -
  obtain m' where "bread_values_release [v] m = Done m'" "heap_ok m' R"
    using values_release_ok [of m "[v]" R] assms by auto
  with that release_work_survives show ?thesis
    by (metis value_release_values bread_value_release_def)
qed

text \<open>
  C9: in a heap that keeps the reference-counting discipline, releasing a value that is owned
  always returns (no use after free, no double free, no endless recursion, however the objects
  are nested or shared, cycles included), the discipline holds for the remaining owners, the
  contents of every object that is left are untouched, and an object is still allocated
  afterwards exactly if something still refers to it.
\<close>
theorem value_release_correct:
  assumes "heap_ok m (add_mset v R)"
  shows "\<exists>m'. bread_value_release v m = Done m' \<and> heap_ok m' R \<and> survives m m' \<and>
    (\<forall>a. get_obj m' a \<noteq> None \<longleftrightarrow> 0 < refs a (held m' + R))"
proof -
  obtain m' where m': "bread_value_release v m = Done m'" "heap_ok m' R" "survives m m'"
    using value_release_ok_ex [OF assms] .
  have "get_obj m' a \<noteq> None \<longleftrightarrow> 0 < rc_of m' a" for a
    using heap_ok_rc_pos [OF m'(2)] by (auto simp: rc_of_def unat_gt_0 split: option.splits)
  then show ?thesis using m' heap_ok_refs [OF m'(2)] by auto
qed

theorem value_release_correct_witness:
  "\<exists>m'. bread_value_release (VString (Some 0)) sample_string = Done m' \<and> heap_ok m' {#} \<and>
    get_obj m' 0 = None"
  using value_release_correct [of sample_string "VString (Some 0)" "{#}"] sample_string_ok
  by (auto simp: bread_value_release_def sample_string_get)

section \<open>The recursion of the C release functions\<close>

lemma release_work_append:
  "release_work m (ws @ us) = bnd (release_work m ws) (\<lambda>m'. release_work m' us)"
proof (induction m ws rule: release_work.induct)
  case (3 m v ws)
  have "bnd (raise_error BREAD_ERROR_MEMORY_ALLOCATION s m) f = raise_error BREAD_ERROR_MEMORY_ALLOCATION s m"
    for s and f :: "mem \<Rightarrow> mem outcome"
    by simp
  with 3 show ?case by (auto simp: Let_def split: option.splits)
qed auto

definition bread_string_release :: "ref \<Rightarrow> mem \<Rightarrow> mem outcome" where
  "bread_string_release r m = bread_value_release (VString r) m"

definition bread_array_release :: "ref \<Rightarrow> mem \<Rightarrow> mem outcome" where
  "bread_array_release r m = bread_value_release (VArray r) m"

definition bread_dict_release :: "ref \<Rightarrow> mem \<Rightarrow> mem outcome" where
  "bread_dict_release r m = bread_value_release (VDict r) m"

definition bread_optional_release :: "ref \<Rightarrow> mem \<Rightarrow> mem outcome" where
  "bread_optional_release r m = bread_value_release (VOptional r) m"

definition bread_struct_release :: "ref \<Rightarrow> mem \<Rightarrow> mem outcome" where
  "bread_struct_release r m = bread_value_release (VStruct r) m"

definition bread_class_release :: "ref \<Rightarrow> mem \<Rightarrow> mem outcome" where
  "bread_class_release r m = bread_value_release (VClass r) m"

text \<open>
  The work-list form of release is the recursion of the source: at an object whose count
  is zero nothing happens (a string reports the double free), otherwise the count goes down by
  one, and when it reaches zero the values in the object are released in order and then the
  object is freed.
\<close>
theorem release_unfold:
  assumes "ref_of v = Some a" and "get_obj m a = Some ob" and "kind_ok v (body ob)"
  shows "bread_value_release v m =
    (if refcount ob = 0
     then (if vtype v = TYPE_STRING
           then raise_error BREAD_ERROR_MEMORY_ALLOCATION ''Double free detected'' m else Done m)
     else let m1 = set_cell a (Some (ob\<lparr>refcount := refcount ob - 1\<rparr>)) m in
       if refcount ob - 1 = 0
       then bnd (bread_values_release (children (body ob)) m1) (\<lambda>m2. Done (bread_memory_free a m2))
       else Done m1)"
  using assms
  by (auto simp: bread_value_release_def bread_values_release_def release_work_append Let_def)

theorem release_unfold_witness:
  "bread_value_release (VString (Some 0)) sample_string =
     bnd (bread_values_release [] (set_cell 0
         (Some \<lparr>refcount = 0, body = BString \<lparr>sdata = ''ab'', interned = False\<rparr>\<rparr>) sample_string))
       (\<lambda>m2. Done (bread_memory_free 0 m2))"
  by (subst release_unfold [of _ 0 _ "\<lparr>refcount = 1, body = BString \<lparr>sdata = ''ab'', interned = False\<rparr>\<rparr>"])
    (simp_all add: sample_string_get)

section \<open>Statistics\<close>

definition live_cells :: "mem \<Rightarrow> nat" where
  "live_cells m = length (filter (\<lambda>c. c \<noteq> None) (cells m))"

definition stats_ok :: "mem \<Rightarrow> bool" where
  "stats_ok m \<longleftrightarrow> current_objects m = live_cells m \<and>
     total_allocations m = total_deallocations m + current_objects m \<and> current_objects m \<le> peak_objects m"

definition bread_memory_check_leaks :: "mem \<Rightarrow> bool" where
  "bread_memory_check_leaks m = (current_objects m \<noteq> 0)"

lemma live_update_None:
  "i < length cs \<Longrightarrow> cs ! i \<noteq> None \<Longrightarrow>
   Suc (length (filter (\<lambda>c. c \<noteq> None) (cs[i := None]))) = length (filter (\<lambda>c. c \<noteq> None) cs)"
proof (induction cs arbitrary: i)
  case (Cons c cs)
  then show ?case by (cases i) auto
qed simp

lemma live_update_Some:
  "i < length cs \<Longrightarrow> cs ! i \<noteq> None \<Longrightarrow>
   length (filter (\<lambda>c. c \<noteq> None) (cs[i := Some x])) = length (filter (\<lambda>c. c \<noteq> None) cs)"
proof (induction cs arbitrary: i)
  case (Cons c cs)
  then show ?case by (cases i) auto
qed simp

lemma stats_set_obj: "get_obj m a = Some ob \<Longrightarrow> stats_ok m \<Longrightarrow> stats_ok (set_cell a (Some x) m)"
  by (auto simp: stats_ok_def live_cells_def set_cell_def get_obj_def live_update_Some
      simp del: not_None_eq split: if_splits)

lemma stats_free: "stats_ok m \<Longrightarrow> stats_ok (bread_memory_free a m)"
proof (cases "get_obj m a")
  case (Some ob)
  moreover assume s: "stats_ok m"
  ultimately have "Suc (length (filter (\<lambda>c. c \<noteq> None) ((cells m)[a := None]))) = current_objects m"
    using live_update_None [of a "cells m"]
    by (auto simp: stats_ok_def live_cells_def get_obj_def simp del: not_None_eq split: if_splits)
  with Some s show ?thesis
    by (auto simp: stats_ok_def live_cells_def bread_memory_free_def set_cell_def simp del: not_None_eq)
qed (simp add: bread_memory_free_def)

lemma stats_release: "release_work m ws = Done m' \<Longrightarrow> stats_ok m \<Longrightarrow> stats_ok m'"
proof (induction m ws rule: release_work.induct)
  case (2 m a ws)
  then show ?case using stats_free by simp
next
  case (3 m v ws)
  have "raise_error BREAD_ERROR_MEMORY_ALLOCATION msg m \<noteq> Done m'" for msg
    by simp
  with 3 show ?case using stats_set_obj
    by (auto simp: Let_def split: option.splits if_splits)
qed simp

lemma stats_alloc: "stats_ok m \<Longrightarrow> stats_ok (snd (bread_memory_alloc b m))"
  by (auto simp: stats_ok_def live_cells_def bread_memory_alloc_def)

text \<open>
  The allocation statistics are exact: the number of current objects is the number of
  allocated cells after every allocation and every release, and what was allocated minus
  what was deallocated; so the leak check reports a leak exactly when a cell is still allocated.
\<close>
theorem stats_exact:
  assumes "stats_ok m"
  shows "stats_ok (snd (bread_memory_alloc b m)) \<and>
    (\<forall>m'. bread_value_release v m = Done m' \<longrightarrow> stats_ok m' \<and>
       (bread_memory_check_leaks m' \<longleftrightarrow> (\<exists>a. get_obj m' a \<noteq> None)))"
proof (intro conjI allI impI)
  show "stats_ok (snd (bread_memory_alloc b m))" using assms by (rule stats_alloc)
  fix m' assume "bread_value_release v m = Done m'"
  then show s: "stats_ok m'" using assms stats_release [of m "[Rel v]" m'] unfolding bread_value_release_def by blast
  have "bread_memory_check_leaks m' \<longleftrightarrow> (\<exists>c \<in> set (cells m'). c \<noteq> None)"
    using s by (auto simp: bread_memory_check_leaks_def stats_ok_def live_cells_def filter_empty_conv)
  moreover have "(\<exists>c \<in> set (cells m'). c \<noteq> None) \<longleftrightarrow> (\<exists>a. get_obj m' a \<noteq> None)"
    unfolding get_obj_def by (metis in_set_conv_nth)
  ultimately show "bread_memory_check_leaks m' \<longleftrightarrow> (\<exists>a. get_obj m' a \<noteq> None)" by simp
qed

theorem stats_exact_witness:
  "stats_ok (snd (bread_memory_alloc (BOptional None) bread_memory_init))"
  using stats_exact [of bread_memory_init "BOptional None" VNil]
  by (simp add: stats_ok_def live_cells_def bread_memory_init_def)

end
