(* ===== verification/BreadStrings.thy ===== *)
theory BreadStrings
  imports BreadRefcount
begin

text \<open>
  The interface between the containers and the reference-counted heap (a locale), and the
  strings of \<^verbatim>\<open>src/runtime/string_ops.c\<close>, interning included.
\<close>

section \<open>The interface: acquiring and dropping values\<close>

text \<open>
  What every container relies on when it stores a value: a dropped value gives up its
  reference, an acquired one gains a reference, as long as no counter is at its limit.
\<close>

locale value_store =
  fixes ok :: "'m \<Rightarrow> val multiset \<Rightarrow> bool"
    and acquire :: "val \<Rightarrow> 'm \<Rightarrow> (val \<times> 'm) outcome"
    and drop_val :: "val \<Rightarrow> 'm \<Rightarrow> 'm outcome"
    and room :: "nat \<Rightarrow> 'm \<Rightarrow> bool"
    and frame :: "'m \<Rightarrow> 'm \<Rightarrow> bool"
    and owned :: "'m \<Rightarrow> val multiset \<Rightarrow> val \<Rightarrow> bool"
  assumes drop_ok: "ok m (add_mset v R) \<Longrightarrow>
      \<exists>m'. drop_val v m = Done m' \<and> ok m' R \<and> frame m m' \<and> (\<forall>n. room n m \<longrightarrow> room n m')"
    and acquire_ok: "ok m R \<Longrightarrow> owned m R v \<Longrightarrow> room (Suc n) m \<Longrightarrow>
      \<exists>m'. acquire v m = Done (v, m') \<and> ok m' (add_mset v R) \<and> frame m m' \<and> room n m'"
    and frame_refl: "frame m m"
    and frame_trans: "frame m m' \<Longrightarrow> frame m' m'' \<Longrightarrow> frame m m''"
    and root_owned: "v \<in># R \<Longrightarrow> owned m R v"
begin

fun acquire_all :: "val list \<Rightarrow> 'm \<Rightarrow> (val list \<times> 'm) outcome" where
  "acquire_all [] m = Done ([], m)"
| "acquire_all (v # vs) m =
     bnd (acquire v m) (\<lambda>(w, m1). bnd (acquire_all vs m1) (\<lambda>(ws, m2). Done (w # ws, m2)))"

text \<open>Overwriting a slot: the old value is dropped, then the new one is acquired.\<close>

lemma replace_ok:
  assumes "ok m (add_mset old R)" and "new \<in># R" and "room (Suc n) m"
  shows "\<exists>m1 m2. drop_val old m = Done m1 \<and> acquire new m1 = Done (new, m2) \<and>
    ok m2 (add_mset new R) \<and> frame m m2 \<and> room n m2"
proof -
  obtain m1 where m1: "drop_val old m = Done m1" "ok m1 R" "frame m m1" "room (Suc n) m1"
    using drop_ok [OF assms(1)] assms(3) by blast
  obtain m2 where "acquire new m1 = Done (new, m2)" "ok m2 (add_mset new R)" "frame m1 m2" "room n m2"
    using acquire_ok [OF m1(2) root_owned [OF assms(2)] m1(4)] by blast
  with m1 frame_trans show ?thesis by blast
qed

lemma acquire_all_ok:
  assumes "ok m R" and "set vs \<subseteq> set_mset R" and "room (length vs + n) m"
  shows "\<exists>m'. acquire_all vs m = Done (vs, m') \<and> ok m' (mset vs + R) \<and> frame m m' \<and> room n m'"
  using assms
proof (induction vs arbitrary: m R)
  case Nil
  then show ?case using frame_refl by simp
next
  case (Cons v vs)
  then obtain m1 where m1: "acquire v m = Done (v, m1)" "ok m1 (add_mset v R)" "frame m m1"
      "room (length vs + n) m1"
    using acquire_ok [of m R v "length vs + n"] root_owned by auto
  with Cons.IH [of m1 "add_mset v R"] Cons.prems
  obtain m2 where "acquire_all vs m1 = Done (vs, m2)" "ok m2 (mset vs + add_mset v R)"
      "frame m1 m2" "room n m2" by auto
  with m1 frame_trans show ?case by auto
qed

end

definition room_for :: "nat \<Rightarrow> mem \<Rightarrow> bool" where
  "room_for n m \<longleftrightarrow> (\<forall>a. rc_of m a + n < 2 ^ 32)"

definition may_hold :: "mem \<Rightarrow> val multiset \<Rightarrow> val \<Rightarrow> bool" where
  "may_hold m R v \<longleftrightarrow> ref_of v = None \<or> v \<in># held m + R"

lemma rc_of_dec_le:
  "get_obj m a = Some ob \<Longrightarrow> refcount ob \<noteq> 0 \<Longrightarrow>
   rc_of (set_cell a (Some (ob\<lparr>refcount := refcount ob - 1\<rparr>)) m) b \<le> rc_of m b"
  by (auto simp: rc_of_def get_obj_bound unat_dec)

lemma release_work_rc: "release_work m ws = Done m' \<Longrightarrow> rc_of m' b \<le> rc_of m b"
proof (induction m ws rule: release_work.induct)
  case (2 m a ws)
  then have "rc_of m' b \<le> rc_of (bread_memory_free a m) b" by simp
  then show ?case by (auto simp: rc_of_def split: if_splits)
next
  case (3 m v ws)
  have re: "raise_error BREAD_ERROR_MEMORY_ALLOCATION msg m \<noteq> Done m'" for msg
    by simp
  show ?case
  proof (cases "ref_of v")
    case None
    with 3 show ?thesis by simp
  next
    case (Some a)
    with "3.prems" obtain ob where ob: "get_obj m a = Some ob" "kind_ok v (body ob)"
      by (auto split: option.splits if_splits)
    show ?thesis
    proof (cases "refcount ob = 0")
      case True
      with "3.prems" Some ob re "3.IH"(2) [OF Some ob(1)] show ?thesis by (simp split: if_splits)
    next
      case nz: False
      with "3.prems" Some ob "3.IH"(3,4) [OF Some ob(1) _ nz refl]
      have "rc_of m' b \<le> rc_of (set_cell a (Some (ob\<lparr>refcount := refcount ob - 1\<rparr>)) m) b"
        by (cases "refcount ob - 1 = 0") auto
      with rc_of_dec_le [OF ob(1) nz, of b] show ?thesis by simp
    qed
  qed
qed simp

lemma clone_cases:
  assumes "bread_value_clone v m = Done (w, m')"
  shows "w = v \<and> (ref_of v = None \<and> m' = m \<or>
    (\<exists>a ob. ref_of v = Some a \<and> get_obj m a = Some ob \<and> refcount ob \<noteq> - 1 \<and>
       m' = set_cell a (Some (ob\<lparr>refcount := refcount ob + 1\<rparr>)) m))"
proof -
  have re: "bnd (raise_error BREAD_ERROR_MEMORY_ALLOCATION msg m) f \<noteq> Done (w, m')"
    for msg and f :: "mem \<Rightarrow> (val \<times> mem) outcome"
    by simp
  show ?thesis using assms re
    by (auto simp: bread_value_clone_def bread_object_retain_def split: option.splits if_splits)
qed

lemma unat_inc_le: "unat (w + 1) \<le> Suc (unat (w :: 32 word))"
  by (simp add: unat_word_ariths)

lemma clone_rc: "bread_value_clone v m = Done (w, m') \<Longrightarrow> rc_of m' b \<le> Suc (rc_of m b)"
  using clone_cases [of v m w m'] unat_inc_le
  by (auto simp: rc_of_def get_obj_bound)

lemma clone_survives: "bread_value_clone v m = Done (w, m') \<Longrightarrow> survives m m'"
  using clone_cases [of v m w m'] survives_dec survives_refl by blast

lemma clone_get_body:
  "bread_value_clone v m = Done (w, m') \<Longrightarrow> map_option body (get_obj m' a) = map_option body (get_obj m a)"
  using clone_cases [of v m w m'] by (auto simp: get_obj_bound)

lemma clone_ok:
  assumes "heap_ok m R" "may_hold m R v" "room_for (Suc n) m"
  shows "\<exists>m'. bread_value_clone v m = Done (v, m') \<and> heap_ok m' (add_mset v R) \<and> survives m m' \<and> room_for n m'"
proof -
  have room: "rc_of m a < 2 ^ 32 - 1" for a
  proof -
    have "rc_of m a + Suc n < 2 ^ 32" using assms(3) unfolding room_for_def by blast
    then show ?thesis by simp
  qed
  obtain m' where m': "bread_value_clone v m = Done (v, m')" "heap_ok m' (add_mset v R)"
    using retain_ok [OF assms(1), of v] assms(2) room unfolding may_hold_def by metis
  moreover have "room_for n m'"
    unfolding room_for_def
  proof
    fix a
    have "rc_of m' a + n \<le> Suc (rc_of m a + n)" using clone_rc [OF m'(1), of a] by simp
    also have "\<dots> < 2 ^ 32" using assms(3) by (simp add: room_for_def)
    finally show "rc_of m' a + n < 2 ^ 32" .
  qed
  ultimately show ?thesis using clone_survives by blast
qed

lemma value_release_ok:
  assumes "heap_ok m (add_mset v R)"
  shows "\<exists>m'. bread_value_release v m = Done m' \<and> heap_ok m' R \<and> survives m m' \<and>
    (\<forall>n. room_for n m \<longrightarrow> room_for n m')"
proof -
  obtain m' where m': "bread_value_release v m = Done m'" "heap_ok m' R" "survives m m'"
    using value_release_ok_ex [OF assms] .
  have "room_for n m'" if "room_for n m" for n
    unfolding room_for_def
  proof
    fix a
    have "rc_of m' a \<le> rc_of m a"
      using release_work_rc [of m "[Rel v]" m'] m'(1) unfolding bread_value_release_def by blast
    with that show "rc_of m' a + n < 2 ^ 32" unfolding room_for_def by (metis add_le_mono1 le_less_trans)
  qed
  with m' show ?thesis by blast
qed

interpretation rt: value_store heap_ok bread_value_clone bread_value_release room_for survives may_hold
  by unfold_locales
    (use value_release_ok clone_ok survives_refl survives_trans in \<open>(blast | simp add: may_hold_def)+\<close>)

section \<open>Strings\<close>

definition string_data :: "mem \<Rightarrow> ref \<Rightarrow> char list" where
  \<comment> \<open>the bytes behind a string pointer; none behind NULL. A heap that keeps the
    reference-counting discipline has a string behind every string value (\<open>string_value_live\<close>)\<close>
  "string_data m r = (case r of None \<Rightarrow> []
     | Some a \<Rightarrow> (case get_obj m a of Some ob \<Rightarrow>
         (case body ob of BString s \<Rightarrow> sdata s | _ \<Rightarrow> []) | None \<Rightarrow> []))"

definition bread_string_len :: "mem \<Rightarrow> ref \<Rightarrow> nat" where
  "bread_string_len m r = length (string_data m r)"

definition bread_string_cstr :: "mem \<Rightarrow> ref \<Rightarrow> cstring" where
  "bread_string_cstr m r = cstr (string_data m r)"

definition bread_string_new_len :: "char list \<Rightarrow> mem \<Rightarrow> ref \<times> mem" where
  "bread_string_new_len data m =
     (let (a, m') = bread_memory_alloc (BString \<lparr>sdata = data, interned = False\<rparr>) m in (Some a, m'))"

definition bread_string_new :: "cstring \<Rightarrow> mem \<Rightarrow> ref \<times> mem" where
  "bread_string_new s m = bread_string_new_len s m"

definition bread_string_concat :: "ref \<Rightarrow> ref \<Rightarrow> mem \<Rightarrow> ref \<times> mem" where
  "bread_string_concat a b m = bread_string_new_len (string_data m a @ string_data m b) m"

definition bread_string_eq :: "mem \<Rightarrow> ref \<Rightarrow> ref \<Rightarrow> bool" where
  "bread_string_eq m a b =
     (if bread_string_len m a \<noteq> bread_string_len m b then False
      else if bread_string_len m a = 0 then True
      else string_data m a = string_data m b)"

fun strcmp :: "cstring \<Rightarrow> cstring \<Rightarrow> int" where
  \<comment> \<open>\<^verbatim>\<open>strcmp\<close> compares bytes as unsigned\<close>
  "strcmp [] [] = 0"
| "strcmp [] (d # t) = -1"
| "strcmp (c # s) [] = 1"
| "strcmp (c # s) (d # t) =
     (if (of_char c :: nat) < of_char d then -1 else if (of_char c :: nat) > of_char d then 1 else strcmp s t)"

definition bread_string_cmp :: "mem \<Rightarrow> ref \<Rightarrow> ref \<Rightarrow> int" where
  "bread_string_cmp m a b = strcmp (bread_string_cstr m a) (bread_string_cstr m b)"

definition bread_string_get_char :: "ref \<Rightarrow> nat \<Rightarrow> mem \<Rightarrow> (char \<times> mem) outcome" where
  "bread_string_get_char r i m =
     (case r of
        None \<Rightarrow> bnd (raise_error BREAD_ERROR_RUNTIME_ERROR ''String is null'' m) (\<lambda>m. Done (NUL, m))
      | Some a \<Rightarrow>
          if i \<ge> length (string_data m r)
          then bnd (raise_error BREAD_ERROR_INDEX_OUT_OF_BOUNDS
                 (''String index '' @ show_nat i @ '' out of bounds (string length: '' @ show_nat (length (string_data m r)) @ '')'') m) (\<lambda>m. Done (NUL, m))
          else Done (string_data m r ! i, m))"

subsection \<open>Interned literals\<close>

definition INTERN_TABLE_SIZE :: nat where
  "INTERN_TABLE_SIZE = 256"

definition bread_string_hash :: "cstring \<Rightarrow> nat" where
  "bread_string_hash s =
     unat (fold (\<lambda>c h. (push_bit 5 h + h) + of_char c) s (5381 :: 32 word)) mod INTERN_TABLE_SIZE"

definition bread_string_new_literal :: "cstring \<Rightarrow> ref list \<Rightarrow> mem \<Rightarrow> (ref \<times> ref list \<times> mem) outcome" where
  \<comment> \<open>the table has one string per bucket; a new literal takes the place of the old one\<close>
  "bread_string_new_literal s table m =
     (let h = bread_string_hash s; old = table ! h in
      if old \<noteq> None \<and> string_data m old = s
      then bnd (bread_value_clone (VString old) m) (\<lambda>(w, m'). Done (old, table, m'))
      else
        (let (a, m1) = bread_memory_alloc (BString \<lparr>sdata = s, interned = True\<rparr>) m in
         bnd (if old \<noteq> None then bread_value_release (VString old) m1 else Done m1) (\<lambda>m2.
         bnd (bread_value_clone (VString (Some a)) m2) (\<lambda>(w, m3).
           Done (Some a, table[h := Some a], m3)))))"

fun bread_string_intern_cleanup :: "ref list \<Rightarrow> mem \<Rightarrow> (ref list \<times> mem) outcome" where
  "bread_string_intern_cleanup [] m = Done ([], m)"
| "bread_string_intern_cleanup (r # rs) m =
     bnd (if r \<noteq> None then bread_value_release (VString r) m else Done m) (\<lambda>m1.
     bnd (bread_string_intern_cleanup rs m1) (\<lambda>(rs', m2). Done (None # rs', m2)))"

section \<open>Laws of strings\<close>

lemma string_value_live:
  assumes "heap_ok m R" "VString (Some a) \<in># held m + R"
  shows "\<exists>ob s. get_obj m a = Some ob \<and> body ob = BString s \<and> string_data m (Some a) = sdata s"
proof -
  obtain ob where "get_obj m a = Some ob" "kind_ok (VString (Some a)) (body ob)"
    using heap_ok_live [OF assms] by (metis ref_of.simps(1))
  then show ?thesis by (cases "body ob") (auto simp: string_data_def)
qed

lemma strcmp_eq: "strcmp s t = 0 \<longleftrightarrow> s = t"
  by (induction s t rule: strcmp.induct) (auto simp: of_char_eq_iff linorder_neq_iff)

lemma strcmp_lt_gt: "strcmp s t < 0 \<longleftrightarrow> strcmp t s > 0"
  by (induction s t rule: strcmp.induct) auto

lemma strcmp_trans: "strcmp s t < 0 \<Longrightarrow> strcmp t u < 0 \<Longrightarrow> strcmp s u < 0"
proof (induction s t arbitrary: u rule: strcmp.induct)
  case (4 c s d t)
  show ?case
  proof (cases u)
    case Nil
    with 4 show ?thesis by simp
  next
    case (Cons e u')
    let ?c = "of_char c :: nat" and ?d = "of_char d :: nat" and ?e = "of_char e :: nat"
    have "?c \<le> ?d" "?d \<le> ?e" using "4.prems" Cons by (simp_all split: if_splits)
    moreover have "strcmp s u' < 0" if "?c = ?d" "?d = ?e"
      using "4.IH" "4.prems" Cons that by simp
    ultimately show ?thesis using Cons by (auto simp: of_char_eq_iff dest: antisym)
  qed
next
  case (2 d t)
  then show ?case by (cases u) auto
qed auto

lemma cstr_no_nul: "NUL \<notin> set s \<Longrightarrow> cstr s = s"
  by (auto simp: cstr_def takeWhile_eq_all_conv)

lemma alloc_string_data:
  "bread_memory_alloc (BString s) m = (x, m') \<Longrightarrow> string_data m' (Some x) = sdata s"
  by (drule alloc_get [where c = x]) (auto simp: string_data_def)

lemma concat_data:
  assumes "bread_string_concat a b m = (r, m')"
  shows "string_data m' r = string_data m a @ string_data m b"
  using assms alloc_string_data [of "\<lparr>sdata = string_data m a @ string_data m b, interned = False\<rparr>" m]
  by (auto simp: bread_string_concat_def bread_string_new_len_def split: prod.splits)

lemma new_len_keeps:
  assumes "bread_string_new_len d m = (r, m')" "get_obj m c \<noteq> None"
  shows "get_obj m' c = get_obj m c"
proof -
  obtain x where x: "bread_memory_alloc (BString \<lparr>sdata = d, interned = False\<rparr>) m = (x, m')"
    using assms(1) by (auto simp: bread_string_new_len_def split: prod.splits)
  have "c \<noteq> x" using assms(2) x by (auto simp: bread_memory_alloc_def get_obj_def)
  with alloc_get [OF x, of c] show ?thesis by simp
qed

text \<open>
  Concatenating two strings yields a new string with the bytes of the first followed by the
  bytes of the second, of the summed length; the heap discipline is kept, with one more owner,
  the result; and every string that existed is unchanged.
\<close>
theorem string_concat_correct:
  assumes "heap_ok m R" and "bread_string_concat a b m = (r, m')"
  shows "string_data m' r = string_data m a @ string_data m b \<and>
    bread_string_len m' r = bread_string_len m a + bread_string_len m b \<and>
    heap_ok m' (add_mset (VString r) R) \<and>
    (\<forall>c. get_obj m c \<noteq> None \<longrightarrow> get_obj m' c = get_obj m c)"
proof -
  obtain x where x: "bread_memory_alloc (BString \<lparr>sdata = string_data m a @ string_data m b, interned = False\<rparr>) m
      = (x, m')" "r = Some x"
    using assms(2) by (auto simp: bread_string_concat_def bread_string_new_len_def split: prod.splits)
  have "heap_ok m' (add_mset (VString (Some x)) R)"
    by (rule alloc_ok [OF _ x(1)]) (use assms(1) in simp_all)
  with x concat_data [OF assms(2)] new_len_keeps assms(2) show ?thesis
    unfolding bread_string_len_def bread_string_concat_def by auto
qed

theorem string_concat_correct_witness:
  "string_data (snd (bread_string_concat (Some 0) (Some 0) sample_string)) (Some 1) = ''abab''"
proof -
  have "bread_string_concat (Some 0) (Some 0) sample_string =
      (Some 1, snd (bread_string_concat (Some 0) (Some 0) sample_string))"
    by (simp add: bread_string_concat_def bread_string_new_len_def bread_memory_alloc_def
        sample_string_def bread_memory_init_def)
  from string_concat_correct [OF sample_string_ok this]
  show ?thesis
    by (simp add: string_data_def sample_string_get)
qed

text \<open>
  On strings without NUL bytes the two comparisons agree: \<^verbatim>\<open>bread_string_cmp\<close> is a strict
  total order (antisymmetric and transitive) and returns 0 exactly where \<^verbatim>\<open>bread_string_eq\<close>
  holds, that is for equal contents.
\<close>
theorem string_compare_order:
  assumes "NUL \<notin> set (string_data m a)" and "NUL \<notin> set (string_data m b)"
  shows "(bread_string_cmp m a b = 0 \<longleftrightarrow> bread_string_eq m a b) \<and>
    (bread_string_eq m a b \<longleftrightarrow> string_data m a = string_data m b) \<and>
    (bread_string_cmp m a b < 0 \<longleftrightarrow> bread_string_cmp m b a > 0) \<and>
    (bread_string_cmp m a b < 0 \<longrightarrow> bread_string_cmp m b c < 0 \<longrightarrow> bread_string_cmp m a c < 0)"
  using assms strcmp_lt_gt strcmp_trans
  by (auto simp: bread_string_cmp_def bread_string_eq_def bread_string_cstr_def bread_string_len_def
      strcmp_eq cstr_no_nul)

theorem string_compare_order_witness:
  "bread_string_cmp sample_string None (Some 0) < 0 \<and> \<not> bread_string_eq sample_string None (Some 0)"
proof -
  have d: "string_data sample_string None = []" "string_data sample_string (Some 0) = ''ab''"
    by (simp_all add: string_data_def sample_string_get)
  have "NUL \<notin> set (string_data sample_string None)" "NUL \<notin> set (string_data sample_string (Some 0))"
    by (simp_all add: d NUL_def)
  from string_compare_order [OF this] show ?thesis
    by (simp add: d bread_string_cmp_def bread_string_cstr_def cstr_def NUL_def)
qed

subsection \<open>The table of literals\<close>

lemma survives_string_data:
  assumes "survives m m'" "r = None \<or> (\<exists>a. r = Some a \<and> get_obj m' a \<noteq> None)"
  shows "string_data m' r = string_data m r"
proof (cases r)
  case (Some a)
  with assms obtain ob' where "get_obj m' a = Some ob'" by auto
  with assms(1) obtain ob where "get_obj m a = Some ob" "body ob = body ob'"
    unfolding survives_def by blast
  with Some \<open>get_obj m' a = Some ob'\<close> show ?thesis by (simp add: string_data_def)
qed (simp add: string_data_def)

lemma root_live: "heap_ok m R \<Longrightarrow> v \<in># R \<Longrightarrow> ref_of v = Some a \<Longrightarrow> get_obj m a \<noteq> None"
  by (metis heap_ok_live option.distinct(1) union_iff)

lemma alloc_rc:
  "bread_memory_alloc b m = (a, m') \<Longrightarrow> rc_of m' c = (if c = a then 1 else rc_of m c)"
  by (drule alloc_get [where c = c]) (auto simp: rc_of_def)

lemma alloc_room: "bread_memory_alloc b m = (a, m') \<Longrightarrow> room_for n m \<Longrightarrow> n < 2 ^ 32 - 1 \<Longrightarrow> room_for n m'"
  by (auto simp: room_for_def alloc_rc)

definition table_roots :: "ref list \<Rightarrow> val multiset" where
  "table_roots t = mset (map VString t)"

lemma table_roots_update:
  assumes "h < length t"
  shows "table_roots t = add_mset (VString (t ! h)) (table_roots (t[h := r]) - {#VString r#})"
    and "VString r \<in># table_roots (t[h := r])"
  using assms by (simp_all add: table_roots_def map_update mset_update)

lemma literal_hit:
  assumes "heap_ok m (table_roots t + R)" and "room_for (Suc n) m" and "bread_string_hash s < length t"
    and "t ! bread_string_hash s = r" "r \<noteq> None" "string_data m r = s"
  shows "\<exists>m'. bread_string_new_literal s t m = Done (r, t, m') \<and> string_data m' r = s \<and>
     heap_ok m' (add_mset (VString r) (table_roots t + R)) \<and> room_for n m'"
proof -
  have v: "VString r \<in># table_roots t + R"
    using assms(3,4) by (auto simp: table_roots_def)
  then obtain m' where m': "bread_value_clone (VString r) m = Done (VString r, m')"
      "heap_ok m' (add_mset (VString r) (table_roots t + R))" "survives m m'" "room_for n m'"
    using rt.acquire_ok [OF assms(1) rt.root_owned [OF v] assms(2)] by blast
  obtain a where a: "r = Some a" using assms(5) by auto
  have "string_data m' r = s"
    using survives_string_data [OF m'(3), of r] root_live [OF m'(2), of "VString r" a] a assms(6) by simp
  with m' assms show ?thesis by (simp add: bread_string_new_literal_def Let_def)
qed

lemma literal_miss:
  assumes ok: "heap_ok m (table_roots t + R)" and room: "room_for (Suc n) m" "Suc n < 2 ^ 32 - 1"
    and h: "bread_string_hash s < length t"
    and miss: "\<not> (t ! bread_string_hash s \<noteq> None \<and> string_data m (t ! bread_string_hash s) = s)"
  shows "\<exists>r t' m'. bread_string_new_literal s t m = Done (r, t', m') \<and> string_data m' r = s \<and> r \<noteq> None \<and>
     heap_ok m' (add_mset (VString r) (table_roots t' + R)) \<and> length t' = length t \<and>
     t' ! bread_string_hash s = r \<and> room_for n m'"
proof -
  let ?h = "bread_string_hash s" and ?b = "BString \<lparr>sdata = s, interned = True\<rparr>"
  let ?old = "t ! ?h"
  obtain a m1 where a: "bread_memory_alloc ?b m = (a, m1)" by fastforce
  let ?T = "table_roots (t[?h := Some a])"
  have up: "add_mset (VString (Some a)) (table_roots t) = add_mset (VString ?old) ?T"
    using table_roots_update [OF h, of "Some a"] by (simp add: insert_DiffM)
  have "heap_ok m1 (add_mset (VString (Some a)) (table_roots t + R))"
    by (rule alloc_ok [OF _ a]) (use ok in simp_all)
  then have ok1: "heap_ok m1 (add_mset (VString ?old) (?T + R))"
    using up by (metis union_mset_add_mset_left)
  obtain m2 where m2: "(if ?old \<noteq> None then bread_value_release (VString ?old) m1 else Done m1) = Done m2"
      "heap_ok m2 (?T + R)" "room_for (Suc n) m2" "survives m1 m2"
  proof (cases ?old)
    case None
    then have "heap_ok m1 (?T + R)" using ok1 by (auto simp: heap_ok_def work_inv_def)
    with None that alloc_room [OF a room] survives_refl show ?thesis by simp
  next
    case (Some b)
    with value_release_ok [OF ok1] that alloc_room [OF a room] show ?thesis by auto
  qed
  have v: "VString (Some a) \<in># ?T + R" using table_roots_update(2) [OF h, of "Some a"] by simp
  then obtain m3 where m3: "bread_value_clone (VString (Some a)) m2 = Done (VString (Some a), m3)"
      "heap_ok m3 (add_mset (VString (Some a)) (?T + R))" "survives m2 m3" "room_for n m3"
    using rt.acquire_ok [OF m2(2) rt.root_owned [OF v] m2(3)] by blast
  have "string_data m3 (Some a) = string_data m1 (Some a)"
    using survives_string_data [OF survives_trans [OF m2(4) m3(3)], of "Some a"]
      root_live [OF m3(2), of "VString (Some a)" a] by simp
  then have "string_data m3 (Some a) = s" using alloc_string_data [OF a] by simp
  moreover have "bread_string_new_literal s t m = Done (Some a, t[?h := Some a], m3)"
    unfolding bread_string_new_literal_def Let_def if_not_P [OF miss]
    using a m2(1) m3(1) by simp
  ultimately show ?thesis using m3 h by auto
qed

text \<open>
  A string literal evaluates to a string with its characters, owned by the caller and by
  the intern table together with everything the table still holds; the string an evicted
  literal had is given up, and evaluating the same literal again at once yields the same object.
\<close>
theorem string_literal_interned:
  assumes ok: "heap_ok m (table_roots t + R)" and room: "room_for 2 m" and len: "length t = INTERN_TABLE_SIZE"
  shows "\<exists>r t' m'. bread_string_new_literal s t m = Done (r, t', m') \<and> string_data m' r = s \<and>
     heap_ok m' (add_mset (VString r) (table_roots t' + R)) \<and>
     (\<exists>m''. bread_string_new_literal s t' m' = Done (r, t', m''))"
proof -
  have h: "bread_string_hash s < length t" by (simp add: len bread_string_hash_def INTERN_TABLE_SIZE_def)
  have r2: "room_for (Suc 1) m" using room by (simp add: numeral_2_eq_2)
  obtain r t' m' where 1: "bread_string_new_literal s t m = Done (r, t', m')" "string_data m' r = s" "r \<noteq> None"
     "heap_ok m' (add_mset (VString r) (table_roots t' + R))" "length t' = length t"
     "t' ! bread_string_hash s = r" "room_for 1 m'"
  proof (cases "t ! bread_string_hash s \<noteq> None \<and> string_data m (t ! bread_string_hash s) = s")
    case True
    with literal_hit [OF ok r2 h refl] that show ?thesis by blast
  next
    case False
    with literal_miss [OF ok r2 _ h] that show ?thesis by auto
  qed
  have "heap_ok m' (table_roots t' + add_mset (VString r) R)" using 1(4) by simp
  moreover have "room_for (Suc 0) m'" "bread_string_hash s < length t'" using 1(5,7) h by simp_all
  ultimately have "\<exists>m''. bread_string_new_literal s t' m' = Done (r, t', m'')"
    using literal_hit [of m' t' "add_mset (VString r) R" 0 s r] 1(2,3,6) by blast
  with 1 show ?thesis by blast
qed

theorem string_literal_interned_witness:
  "\<exists>r t' m'. bread_string_new_literal ''ab'' (replicate INTERN_TABLE_SIZE None) bread_memory_init
     = Done (r, t', m') \<and> string_data m' r = ''ab''"
proof -
  have "table_roots (replicate n None) = replicate_mset n (VString None)" for n
    by (simp add: table_roots_def)
  moreover have "heap_ok bread_memory_init (replicate_mset n (VString None) + {#})" for n
    using heap_ok_init by (simp only: heap_ok_nulls ref_of.simps)
  moreover have "room_for 2 bread_memory_init"
    by (simp add: room_for_def rc_of_def get_obj_def bread_memory_init_def)
  ultimately show ?thesis
    using string_literal_interned [of bread_memory_init "replicate INTERN_TABLE_SIZE None" "{#}" "''ab''"]
    by auto
qed

end
