(* ===== verification/BreadSlots.thy ===== *)
theory BreadSlots
  imports BreadStrings
begin

text \<open>
  Slots: values stored inside an object that is in use. A container function reads its object
  through a pointer, releases the value in a slot, clears the slot, and stores a clone of another
  value there. This theory shows that a release never looks into an object that stays in use, so
  that these steps can be taken one at a time, and gives the one lemma per step the containers use.
\<close>

section \<open>Release and the object around the slot\<close>

lemma release_work_rc_dead: "release_work m ws = Done m' \<Longrightarrow> rc_of m a = 0 \<Longrightarrow> rc_of m' a = 0"
  using release_work_rc [of m ws m' a] by simp

lemma set_body_cell:
  assumes "get_obj m a = Some ob"
  shows "set_body a b m = set_cell a (Some (ob\<lparr>body := b\<rparr>)) m"
  using assms by (simp add: set_body_def)

lemma set_cell_twice [simp]: "set_cell a x (set_cell a y m) = set_cell a x m"
  by (simp add: set_cell_def)

lemma set_cell_same: "get_obj m a = Some ob \<Longrightarrow> set_cell a (Some ob) m = m"
  by (cases m) (auto simp: set_cell_def get_obj_def list_update_same_conv split: if_splits)

lemma set_cell_swap: "a \<noteq> b \<Longrightarrow> set_cell a x (set_cell b y m) = set_cell b y (set_cell a x m)"
  by (simp add: set_cell_def list_update_swap)

lemma set_body_set_cell:
  assumes "get_obj m a = Some ob" "c \<noteq> a"
  shows "set_body a b (set_cell c x m) = set_cell c x (set_body a b m)"
  using assms by (auto simp: set_body_def set_cell_swap)

lemma set_body_free:
  assumes "c \<noteq> a"
  shows "set_body a b (bread_memory_free c m) = bread_memory_free c (set_body a b m)"
proof (cases "get_obj m c")
  case None
  with assms have "get_obj (set_body a b m) c = None" by (auto simp: set_body_def split: option.splits)
  with None show ?thesis by (simp add: bread_memory_free_def)
next
  case (Some ob)
  with assms have "get_obj (set_body a b m) c = Some ob"
    by (auto simp: set_body_def get_obj_def set_cell_def split: option.splits if_splits)
  with Some assms show ?thesis
    by (auto simp: bread_memory_free_def set_body_def set_cell_def get_obj_def list_update_swap
        split: option.splits if_splits)
qed

text \<open>
  A release does not look into an object that is still in use afterwards: writing the body of
  such an object before or after the release makes no difference.
\<close>

lemma release_work_set_body:
  assumes "release_work (set_body a b m) ws = Done m'" and "rc_of m' a \<noteq> 0"
    and "get_obj m a = Some ob" and "same_kind (body ob) b"
  shows "release_work m ws = Done (set_body a (body ob) m')"
  using assms
proof (induction m ws arbitrary: ob rule: release_work.induct)
  case (1 m)
  then show ?case using set_cell_same [of m a ob] by (auto simp: set_body_def get_obj_bound)
next
  case (2 m c ws)
  have "c \<noteq> a"
  proof
    assume "c = a"
    then have "rc_of (bread_memory_free c (set_body a b m)) a = 0" by (simp add: rc_of_def)
    with 2 release_work_rc_dead show False by fastforce
  qed
  with 2 show ?case by (simp add: set_body_free)
next
  case (3 m v ws)
  have re: "raise_error BREAD_ERROR_MEMORY_ALLOCATION msg n \<noteq> Done m'" for msg n
    by simp
  note g = set_body_get [OF "3.prems"(3), of b]
  show ?case
  proof (cases "ref_of v")
    case None
    with 3 show ?thesis by simp
  next
    case (Some c)
    with "3.prems"(1) have "get_obj (set_body a b m) c \<noteq> None" by (auto split: option.splits)
    then obtain oc where oc: "get_obj m c = Some oc" using g [of c] "3.prems"(3) by (auto split: if_splits)
    show ?thesis
    proof (cases "c = a")
      case False
      with g have gc: "get_obj (set_body a b m) c = Some oc" using oc by simp
      have k: "kind_ok v (body oc)" using "3.prems"(1) Some gc by (simp split: if_splits)
      have sb: "set_body a b (set_cell c x m) = set_cell c x (set_body a b m)" for x
        using "3.prems"(3) False by (rule set_body_set_cell)
      have ga: "get_obj (set_cell c x m) a = Some ob" for x using "3.prems"(3) False by simp
      show ?thesis
        using "3.prems"(1,2,4) Some oc gc k re "3.IH"(2) [OF Some oc] "3.IH"(3,4) [OF Some oc _ _ refl]
          sb ga "3.prems"(3)
        by (auto simp: Let_def split: if_splits)
    next
      case True
      then have oc': "oc = ob" using oc "3.prems"(3) by simp
      have gc: "get_obj (set_body a b m) c = Some (ob\<lparr>body := b\<rparr>)" using g True by simp
      have k: "kind_ok v b" using "3.prems"(1) Some gc by (simp split: if_splits)
      then have k': "kind_ok v (body ob)" using "3.prems"(4) by (simp add: same_kind_def)
      have sb: "set_body a b (set_cell c (Some (ob\<lparr>refcount := n\<rparr>)) m) =
          set_cell c (Some (ob\<lparr>body := b, refcount := n\<rparr>)) (set_body a b m)" for n
        using "3.prems"(3) True by (cases ob) (simp add: set_body_def get_obj_bound)
      consider (z) "refcount ob = 0" | (one) "refcount ob \<noteq> 0" "refcount ob - 1 = 0"
        | (more) "refcount ob \<noteq> 0" "refcount ob - 1 \<noteq> 0" by blast
      then show ?thesis
      proof cases
        case z
        then show ?thesis
          using "3.prems" Some oc oc' gc k k' re "3.IH"(2) [OF Some oc] by (simp split: if_splits)
      next
        case one
        let ?z = "set_cell c (Some (ob\<lparr>body := b, refcount := 0\<rparr>)) (set_body a b m)"
        have "release_work ?z (map Rel (children b) @ FreeObj c # ws) = Done m'"
          using "3.prems"(1) Some gc k one by simp
        moreover have "rc_of ?z a = 0" using gc True by (simp add: rc_of_def get_obj_bound)
        ultimately have "rc_of m' a = 0" by (rule release_work_rc_dead)
        with "3.prems"(2) show ?thesis by simp
      next
        case more
        let ?o = "ob\<lparr>refcount := refcount ob - 1\<rparr>"
        have "release_work (set_body a b (set_cell c (Some ?o) m)) ws = Done m'"
          using "3.prems"(1) Some gc k more sb by simp
        moreover have "get_obj (set_cell c (Some ?o) m) a = Some ?o"
          using oc oc' True by (simp add: get_obj_bound)
        ultimately have "release_work (set_cell c (Some ?o) m) ws = Done (set_body a (body ?o) m')"
          using "3.IH"(4) [OF Some oc _ _ refl, of ?o] "3.prems"(2,4) oc' k' more by simp
        then show ?thesis using Some oc oc' k' more by simp
      qed
    qed
  qed
qed

lemma set_body_exchange:
  assumes ok: "heap_ok m R" and ob: "get_obj m a = Some ob" and k: "same_kind (body ob) b"
    and ex: "mset (children b) + R' = mset (children (body ob)) + R"
  shows "heap_ok (set_body a b m) R'"
proof -
  have nz: "refcount ob \<noteq> 0" using heap_ok_rc_pos [OF ok ob] .
  have h: "held (set_body a b m) + mset (children (body ob)) = held m + mset (children b)"
    using held_set_obj [OF ob, of "Some (ob\<lparr>body := b\<rparr>)"] nz ob
    by (simp add: set_body_def cell_vals_def)
  have "held (set_body a b m) + R' + mset (children (body ob)) = held m + (mset (children b) + R')"
    using h by (metis add.assoc add.commute)
  also have "\<dots> = held m + R + mset (children (body ob))" unfolding ex by (simp add: ac_simps)
  finally have h': "held (set_body a b m) + R' = held m + R" by (rule add_right_imp_eq)
  have rc: "rc_of (set_body a b m) c = rc_of m c" for c
    using ob by (simp add: rc_of_def set_body_get)
  show ?thesis
    using ok ob k nz unfolding heap_ok_def work_inv_def rc pending_vals.simps add_0_right h'
    by (auto simp: set_body_get same_kind_def split: if_splits)
qed

lemma room_set_body [simp]: "room_for n (set_body a b m) = room_for n m"
proof -
  have "rc_of (set_body a b m) c = rc_of m c" for c
    by (cases "get_obj m a") (auto simp: rc_of_def set_body_get, simp add: set_body_def)
  then show ?thesis by (simp add: room_for_def)
qed

lemma set_body_twice: "set_body a b (set_body a c m) = set_body a b m"
proof (cases "get_obj m a")
  case (Some ob)
  then show ?thesis by (simp add: set_body_def get_obj_bound)
qed (simp add: set_body_def)

lemma set_body_same: "get_obj m a = Some ob \<Longrightarrow> set_body a (body ob) m = m"
  by (simp add: set_body_def set_cell_same)

lemma heap_ok_null_mset: "\<forall>v \<in># N. ref_of v = None \<Longrightarrow> heap_ok m (N + R) = heap_ok m R"
  by (induction N) simp_all

text \<open>
  Releasing the value in a slot of an object in use, then clearing the slot: what the slot held
  is given up, everything else is kept.
\<close>

lemma slot_release_nulls:
  assumes ok: "heap_ok m R" and v: "v \<in># R" "ref_of v = Some a" and ob: "get_obj m a = Some ob"
    and k: "same_kind (body ob) b"
    and ch: "mset (children (body ob)) + N = add_mset old (mset (children b) + N')"
    and N: "\<forall>v \<in># N. ref_of v = None" "\<forall>v \<in># N'. ref_of v = None"
  shows "\<exists>m' ob'. bread_value_release old m = Done m' \<and> get_obj m' a = Some ob' \<and> body ob' = body ob \<and>
    heap_ok (set_body a b m') R \<and> survives (set_body a b m) (set_body a b m') \<and>
    (\<forall>n. room_for n m \<longrightarrow> room_for n m')"
proof -
  let ?m = "set_body a b m"
  have "heap_ok ?m (N' + add_mset old R)"
  proof (rule set_body_exchange [OF _ ob k])
    show "heap_ok m (N + R)" using ok N(1) by (simp add: heap_ok_null_mset)
    show "mset (children b) + (N' + add_mset old R) = mset (children (body ob)) + (N + R)"
      using ch by (metis add.assoc union_mset_add_mset_left union_mset_add_mset_right)
  qed
  then have ok1: "heap_ok ?m (add_mset old R)" by (rule heap_ok_null_mset [OF N(2), THEN iffD1])
  obtain m2 where m2: "bread_value_release old ?m = Done m2" "heap_ok m2 R" "survives ?m m2"
      "\<forall>n. room_for n ?m \<longrightarrow> room_for n m2"
    using value_release_ok [OF ok1] by blast
  have "v \<in># held m2 + R" using v by simp
  then obtain o2 where o2: "get_obj m2 a = Some o2" "refcount o2 \<noteq> 0"
    using heap_ok_live [OF m2(2) _ v(2)] by metis
  have b2: "body o2 = b"
    using m2(3) o2(1) ob set_body_get [OF ob, of b a] unfolding survives_def by fastforce
  have "release_work m [Rel old] = Done (set_body a (body ob) m2)"
  proof (rule release_work_set_body [OF _ _ ob k])
    show "release_work ?m [Rel old] = Done m2" using m2(1) by (simp only: bread_value_release_def)
    show "rc_of m2 a \<noteq> 0" using o2 by (simp add: rc_of_def unat_eq_0)
  qed
  moreover have "get_obj (set_body a (body ob) m2) a = Some (o2\<lparr>body := body ob\<rparr>)"
    using o2(1) by (simp add: set_body_get)
  moreover have "set_body a b (set_body a (body ob) m2) = m2"
    using set_body_same [OF o2(1)] b2 by (simp add: set_body_twice)
  ultimately show ?thesis using m2 by (simp add: bread_value_release_def del: release_work.simps)
qed

lemma slot_release:
  assumes "heap_ok m R" and "v \<in># R" "ref_of v = Some a" and "get_obj m a = Some ob"
    and "same_kind (body ob) b"
    and "mset (children (body ob)) + N = add_mset old (mset (children b))"
    and "\<forall>v \<in># N. ref_of v = None"
  shows "\<exists>m' ob'. bread_value_release old m = Done m' \<and> get_obj m' a = Some ob' \<and> body ob' = body ob \<and>
    heap_ok (set_body a b m') R \<and> survives (set_body a b m) (set_body a b m') \<and>
    (\<forall>n. room_for n m \<longrightarrow> room_for n m')"
  using slot_release_nulls [of m R v a ob b N old "{#}"] assms by simp

section \<open>Storing values\<close>

lemma clone_get:
  assumes "bread_value_clone v m = Done (w, m')" "get_obj m a = Some ob"
  shows "\<exists>ob'. get_obj m' a = Some ob' \<and> body ob' = body ob"
  using clone_get_body [OF assms(1), of a] assms(2) by (cases "get_obj m' a") auto

text \<open>A clone of an owned value is stored in a slot that held none.\<close>

lemma slot_store:
  assumes ok: "heap_ok m R" and v: "may_hold m R v" and room: "room_for (Suc n) m"
    and ob: "get_obj m a = Some ob" and k: "same_kind (body ob) b"
    and ch: "mset (children b) + N = add_mset v (mset (children (body ob)))"
    and N: "\<forall>v \<in># N. ref_of v = None"
  shows "\<exists>m'. bread_value_clone v m = Done (v, m') \<and> heap_ok (set_body a b m') R \<and> room_for n m' \<and>
    survives m m' \<and> (\<exists>ob'. get_obj m' a = Some ob' \<and> body ob' = body ob)"
proof -
  obtain m' where m': "bread_value_clone v m = Done (v, m')" "heap_ok m' (add_mset v R)" "survives m m'"
      "room_for n m'"
    using clone_ok [OF ok v room] by blast
  obtain ob' where ob': "get_obj m' a = Some ob'" "body ob' = body ob"
    using clone_get [OF m'(1) ob] by blast
  have "heap_ok (set_body a b m') (N + R)"
  proof (rule set_body_exchange [OF m'(2) ob'(1)])
    show "mset (children b) + (N + R) = mset (children (body ob')) + add_mset v R"
      using ch ob'(2) by (metis add.assoc union_mset_add_mset_left union_mset_add_mset_right)
  qed (use k ob'(2) in simp)
  then have "heap_ok (set_body a b m') R" using N by (simp add: heap_ok_null_mset)
  with m' ob' show ?thesis by blast
qed

lemma room_for_le: "room_for n m \<Longrightarrow> k \<le> n \<Longrightarrow> room_for k m"
  unfolding room_for_def by (meson add_left_mono le_less_trans)

lemma room_for_small: "(\<And>a. rc_of m a \<le> k) \<Longrightarrow> k + n < 2 ^ 32 \<Longrightarrow> room_for n m"
  unfolding room_for_def by (meson add_le_mono1 le_less_trans)

lemma root_obj:
  assumes "heap_ok m R" "v \<in># R" "ref_of v = Some a"
  obtains ob where "get_obj m a = Some ob" "kind_ok v (body ob)"
  using heap_ok_live [OF assms(1) _ assms(3)] assms(2) by (metis union_iff)

end
