(* ===== verification/BreadDoubles.thy ===== *)
theory BreadDoubles
  imports BreadPrelude "HOL-Library.Word"
begin

text \<open>
  The C types \<^verbatim>\<open>double\<close> and \<^verbatim>\<open>float\<close> as IEEE-754 bit patterns: comparison,
  conversion and rounded arithmetic, all executable on the patterns. The rounding mode is the
  default one (nearest, ties to even); no NaN payload is modelled beyond the quiet NaN that an
  invalid operation returns.
\<close>

section \<open>Formats\<close>

text \<open>
  A format has \<open>p\<close> stored fraction bits and \<open>w\<close> exponent bits. The functions below work on
  patterns read as natural numbers; \<open>f64\<close> and \<open>f32\<close> are their two instances.
\<close>

definition ieee_frac :: "nat \<Rightarrow> nat \<Rightarrow> nat \<Rightarrow> nat" where
  "ieee_frac p w x = x mod 2 ^ p"

definition ieee_exp :: "nat \<Rightarrow> nat \<Rightarrow> nat \<Rightarrow> nat" where
  "ieee_exp p w x = (x div 2 ^ p) mod 2 ^ w"

definition ieee_sign :: "nat \<Rightarrow> nat \<Rightarrow> nat \<Rightarrow> bool" where
  "ieee_sign p w x = (x div 2 ^ (p + w) mod 2 = 1)"

definition ieee_nan :: "nat \<Rightarrow> nat \<Rightarrow> nat \<Rightarrow> bool" where
  "ieee_nan p w x \<longleftrightarrow> ieee_exp p w x = 2 ^ w - 1 \<and> ieee_frac p w x \<noteq> 0"

definition ieee_key :: "nat \<Rightarrow> nat \<Rightarrow> nat \<Rightarrow> int" where
  \<comment> \<open>sign and magnitude as an integer: the order of the patterns of numbers\<close>
  "ieee_key p w x = (let k = int (x mod 2 ^ (p + w)) in if ieee_sign p w x then - k else k)"

definition ieee_eq :: "nat \<Rightarrow> nat \<Rightarrow> nat \<Rightarrow> nat \<Rightarrow> bool" where
  "ieee_eq p w x y \<longleftrightarrow> \<not> ieee_nan p w x \<and> \<not> ieee_nan p w y \<and> ieee_key p w x = ieee_key p w y"

definition ieee_less :: "nat \<Rightarrow> nat \<Rightarrow> nat \<Rightarrow> nat \<Rightarrow> bool" where
  "ieee_less p w x y \<longleftrightarrow> \<not> ieee_nan p w x \<and> \<not> ieee_nan p w y \<and> ieee_key p w x < ieee_key p w y"

definition f64_nan :: "64 word \<Rightarrow> bool" where
  "f64_nan x = ieee_nan 52 11 (unat x)"

definition f64_eq :: "64 word \<Rightarrow> 64 word \<Rightarrow> bool" where
  "f64_eq x y = ieee_eq 52 11 (unat x) (unat y)"

definition f64_less :: "64 word \<Rightarrow> 64 word \<Rightarrow> bool" where
  "f64_less x y = ieee_less 52 11 (unat x) (unat y)"

definition f32_eq :: "32 word \<Rightarrow> 32 word \<Rightarrow> bool" where
  "f32_eq x y = ieee_eq 23 8 (unat x) (unat y)"

definition f32_less :: "32 word \<Rightarrow> 32 word \<Rightarrow> bool" where
  "f32_less x y = ieee_less 23 8 (unat x) (unat y)"

lemma f64_eq_refl: "f64_eq x x \<longleftrightarrow> \<not> f64_nan x"
  by (simp add: f64_eq_def f64_nan_def ieee_eq_def)

lemma f64_eq_sym: "f64_eq x y \<Longrightarrow> f64_eq y x"
  by (simp add: f64_eq_def ieee_eq_def)

lemma f64_eq_trans: "f64_eq x y \<Longrightarrow> f64_eq y z \<Longrightarrow> f64_eq x z"
  by (simp add: f64_eq_def ieee_eq_def)

lemma f64_less_trans: "f64_less x y \<Longrightarrow> f64_less y z \<Longrightarrow> f64_less x z"
  by (simp add: f64_less_def ieee_less_def)

lemma f64_trichotomy: "\<not> f64_nan x \<Longrightarrow> \<not> f64_nan y \<Longrightarrow> f64_less x y \<or> f64_eq x y \<or> f64_less y x"
  by (auto simp: f64_less_def f64_eq_def f64_nan_def ieee_less_def ieee_eq_def)

text \<open>Equal numbers have the same pattern, except the two zeros.\<close>

lemma f64_eq_same:
  assumes "f64_eq x y" and "x \<noteq> 0x8000000000000000" "y \<noteq> 0x8000000000000000"
  shows "x = y"
proof -
  let ?x = "unat x" and ?y = "unat y"
  have b: "?x < 2 ^ 64" "?y < 2 ^ 64" using unsigned_less [of x] unsigned_less [of y] by simp_all
  have k: "ieee_key 52 11 ?x = ieee_key 52 11 ?y" using assms(1) by (simp add: f64_eq_def ieee_eq_def)
  have nz: "unat z \<noteq> 2 ^ 63" if "z \<noteq> 0x8000000000000000" for z :: "64 word"
  proof
    assume "unat z = 2 ^ 63"
    then have "(of_nat (unat z) :: 64 word) = of_nat (2 ^ 63)" by (simp only:)
    with that show False by simp
  qed
  have key: "ieee_key 52 11 z = (if z < 2 ^ 63 then int z else - int (z - 2 ^ 63))" if z: "z < 2 ^ 64" for z
  proof (cases "z < 2 ^ 63")
    case True
    then show ?thesis by (simp add: ieee_key_def ieee_sign_def)
  next
    case False
    then obtain t where t: "z = 2 ^ 63 + t" by (metis le_Suc_ex not_less)
    with z have "t < 2 ^ 63" by simp
    with t show ?thesis by (simp add: ieee_key_def ieee_sign_def div_add1_eq)
  qed
  have "X = Y" if "X < 2 ^ 64" "Y < 2 ^ 64" "ieee_key 52 11 X = ieee_key 52 11 Y" "X \<noteq> 2 ^ 63" "Y \<noteq> 2 ^ 63"
    for X Y :: nat
    using that by (simp add: key split: if_splits)
  from this [OF b k nz [OF assms(2)] nz [OF assms(3)]] have "?x = ?y" .
  then show ?thesis by (rule unsigned_word_eqI)
qed

end
