(* ===== verification/BreadArrays.thy ===== *)
theory BreadArrays
  imports BreadSlots BreadDoubles
begin

text \<open>
  Arrays: the operations of \<^verbatim>\<open>src/core/value_array.c\<close> and of
  \<^verbatim>\<open>src/runtime/array_utils.c\<close>. A pointer to an element is the element's index. An
  \<^verbatim>\<open>int\<close> index is an \<open>int\<close>; the length of an array stays below \<open>2 ^ 31\<close>, as memory does not
  hold more elements.
\<close>

section \<open>Operations\<close>

definition array_at :: "mem \<Rightarrow> addr \<Rightarrow> barray outcome" where
  \<comment> \<open>what a non-NULL \<^verbatim>\<open>BreadArray*\<close> points to\<close>
  "array_at m a = (case get_obj m a of None \<Rightarrow> Undefined
     | Some ob \<Rightarrow> (case body ob of BArray x \<Rightarrow> Done x | _ \<Rightarrow> Undefined))"

definition put_array :: "addr \<Rightarrow> barray \<Rightarrow> mem \<Rightarrow> mem" where
  "put_array a x m = set_body a (BArray x) m"

definition new_array :: "nat \<Rightarrow> VarType \<Rightarrow> mem \<Rightarrow> addr \<times> mem" where
  "new_array cap t m = bread_memory_alloc (BArray \<lparr>acapacity = cap, element_type = t, items = []\<rparr>) m"

definition bread_array_new :: "mem \<Rightarrow> ref \<times> mem" where
  "bread_array_new m = (let (a, m') = new_array 0 TYPE_NIL m in (Some a, m'))"

definition bread_array_new_typed :: "VarType \<Rightarrow> mem \<Rightarrow> ref \<times> mem" where
  "bread_array_new_typed t m = (let (a, m') = new_array 0 t m in (Some a, m'))"

definition bread_array_new_with_capacity :: "nat \<Rightarrow> VarType \<Rightarrow> mem \<Rightarrow> ref \<times> mem" where
  "bread_array_new_with_capacity cap t m = (let (a, m') = new_array cap t m in (Some a, m'))"

definition type_fits :: "barray \<Rightarrow> val \<Rightarrow> bool" where
  "type_fits x v \<longleftrightarrow> \<not> (element_type x \<noteq> TYPE_NIL \<and> element_type x \<noteq> vtype v)"

definition make_room :: "val \<Rightarrow> barray \<Rightarrow> barray" where
  \<comment> \<open>what \<^verbatim>\<open>append\<close> and \<^verbatim>\<open>insert\<close> do before they store: the first element fixes the type,
    a full buffer doubles; the capacity is an \<^verbatim>\<open>int\<close> in the code, whose overflow at \<open>2^30\<close> elements is not modelled\<close>
  "make_room v x =
     (let x1 = (if element_type x = TYPE_NIL \<and> length (items x) = 0 then x\<lparr>element_type := vtype v\<rparr> else x)
      in if length (items x1) \<ge> acapacity x1
         then x1\<lparr>acapacity := (if acapacity x1 = 0 then 8 else acapacity x1 * 2)\<rparr> else x1)"

definition bread_array_append :: "ref \<Rightarrow> val \<Rightarrow> mem \<Rightarrow> (bool \<times> mem) outcome" where
  "bread_array_append r v m =
     (case r of None \<Rightarrow> Done (False, m)
      | Some a \<Rightarrow> bnd (array_at m a) (\<lambda>x.
         if \<not> type_fits x v then Done (False, m)
         else let x1 = make_room v x in
           bnd (bread_value_clone v (put_array a x1 m)) (\<lambda>(w, m1).
             Done (True, put_array a (x1\<lparr>items := items x1 @ [w]\<rparr>) m1))))"

definition bread_array_get :: "ref \<Rightarrow> int \<Rightarrow> mem \<Rightarrow> nat option outcome" where
  "bread_array_get r idx m =
     (case r of None \<Rightarrow> Done None
      | Some a \<Rightarrow> bnd (array_at m a) (\<lambda>x.
         if idx < 0 \<or> idx \<ge> int (length (items x)) then Done None else Done (Some (nat idx))))"

definition overwrite_item :: "addr \<Rightarrow> nat \<Rightarrow> val \<Rightarrow> mem \<Rightarrow> mem outcome" where
  \<comment> \<open>\<^verbatim>\<open>bread_value_release(&items[i]); items[i] = bread_value_clone(v)\<close>; a released slot is nil\<close>
  "overwrite_item a i v m =
     bnd (array_at m a) (\<lambda>x.
     bnd (bread_value_release (items x ! i) m) (\<lambda>m1.
     let x1 = x\<lparr>items := (items x)[i := VNil]\<rparr> in
     bnd (bread_value_clone v (put_array a x1 m1)) (\<lambda>(w, m2).
       Done (put_array a (x1\<lparr>items := (items x1)[i := w]\<rparr>) m2))))"

definition bread_array_set :: "ref \<Rightarrow> int \<Rightarrow> val \<Rightarrow> mem \<Rightarrow> (bool \<times> mem) outcome" where
  "bread_array_set r idx v m =
     (case r of None \<Rightarrow> Done (False, m)
      | Some a \<Rightarrow> bnd (array_at m a) (\<lambda>x.
         if idx < 0 \<or> idx \<ge> int (length (items x)) then Done (False, m)
         else if \<not> type_fits x v then Done (False, m)
         else bnd (overwrite_item a (nat idx) v m) (\<lambda>m1. Done (True, m1))))"

definition bread_array_length :: "ref \<Rightarrow> mem \<Rightarrow> nat outcome" where
  "bread_array_length r m =
     (case r of None \<Rightarrow> Done 0 | Some a \<Rightarrow> bnd (array_at m a) (\<lambda>x. Done (length (items x))))"

fun array_fill :: "addr \<Rightarrow> val list \<Rightarrow> mem \<Rightarrow> mem outcome" where
  \<comment> \<open>the loop \<^verbatim>\<open>items[i] = bread_value_clone(...); count++\<close>\<close>
  "array_fill a [] m = Done m"
| "array_fill a (v # vs) m =
     bnd (bread_value_clone v m) (\<lambda>(w, m1).
     bnd (array_at m1 a) (\<lambda>x. array_fill a vs (put_array a (x\<lparr>items := items x @ [w]\<rparr>) m1)))"

definition bread_array_from_literal :: "val list option \<Rightarrow> mem \<Rightarrow> (ref \<times> mem) outcome" where
  "bread_array_from_literal elements m =
     (case elements of None \<Rightarrow> Done (None, m)
      | Some vs \<Rightarrow>
          let et = (case vs of v # _ \<Rightarrow> vtype v | [] \<Rightarrow> TYPE_NIL) in
          if list_ex (\<lambda>v. vtype v \<noteq> et) (tl vs)
          then bnd (raise_error BREAD_ERROR_TYPE_MISMATCH ''Array literal elements must have the same type'' m)
                 (\<lambda>m1. Done (None, m1))
          else let (a, m1) = new_array (length vs) et m in
            bnd (array_fill a vs m1) (\<lambda>m2. Done (Some a, m2)))"

definition bread_array_repeating :: "val \<Rightarrow> int \<Rightarrow> mem \<Rightarrow> (ref \<times> mem) outcome" where
  "bread_array_repeating v reps m =
     (if reps < 0
      then bnd (raise_error BREAD_ERROR_RUNTIME_ERROR ''Array repeat count cannot be negative'' m)
             (\<lambda>m1. Done (None, m1))
      else let (a, m1) = new_array (nat reps) (vtype v) m in
        bnd (array_fill a (replicate (nat reps) v) m1) (\<lambda>m2. Done (Some a, m2)))"

definition bread_array_negative_index :: "ref \<Rightarrow> int \<Rightarrow> mem \<Rightarrow> int outcome" where
  "bread_array_negative_index r index m =
     (case r of None \<Rightarrow> Done (- 1)
      | Some a \<Rightarrow> bnd (array_at m a) (\<lambda>x.
          Done (if index < 0 then int (length (items x)) + index else index)))"

definition from_end :: "int \<Rightarrow> nat \<Rightarrow> int" where
  "from_end index n = (if index < 0 then int n + index else index)"

definition bounds_text :: "cstring \<Rightarrow> int \<Rightarrow> nat \<Rightarrow> cstring" where
  "bounds_text what index n = snprintf_s 256
     (what @ '' index '' @ show_int index @ '' out of bounds for array of length '' @ show_nat n)"

definition type_text :: "cstring \<Rightarrow> VarType \<Rightarrow> cstring \<Rightarrow> VarType \<Rightarrow> cstring" where
  "type_text what t into et = snprintf_s 256
     (''Type mismatch: cannot '' @ what @ '' value of type '' @ show_nat (vartype_code t) @ into @
      show_nat (vartype_code et))"

definition bread_array_get_safe :: "ref \<Rightarrow> int \<Rightarrow> mem \<Rightarrow> (nat option \<times> mem) outcome" where
  "bread_array_get_safe r index m =
     (case r of
        None \<Rightarrow> bnd (raise_error BREAD_ERROR_RUNTIME_ERROR ''Cannot access element of null array'' m)
                 (\<lambda>m1. Done (None, m1))
      | Some a \<Rightarrow> bnd (array_at m a) (\<lambda>x.
          let n = length (items x); i = from_end index n in
          if i < 0 \<or> i \<ge> int n
          then bnd (raise_error BREAD_ERROR_INDEX_OUT_OF_BOUNDS (bounds_text ''Array'' i n) m)
                 (\<lambda>m1. Done (None, m1))
          else Done (Some (nat i), m)))"

definition bread_array_set_safe :: "ref \<Rightarrow> int \<Rightarrow> val \<Rightarrow> mem \<Rightarrow> (bool \<times> mem) outcome" where
  "bread_array_set_safe r index v m =
     (case r of
        None \<Rightarrow> bnd (raise_error BREAD_ERROR_RUNTIME_ERROR ''Cannot set element of null array'' m)
                 (\<lambda>m1. Done (False, m1))
      | Some a \<Rightarrow> bnd (array_at m a) (\<lambda>x.
          let n = length (items x); i = from_end index n in
          if i < 0 \<or> i \<ge> int n
          then bnd (raise_error BREAD_ERROR_INDEX_OUT_OF_BOUNDS (bounds_text ''Array'' i n) m)
                 (\<lambda>m1. Done (False, m1))
          else if \<not> type_fits x v
          then bnd (raise_error BREAD_ERROR_TYPE_MISMATCH
                     (type_text ''assign'' (vtype v) '' to array of type '' (element_type x)) m)
                 (\<lambda>m1. Done (False, m1))
          else bnd (overwrite_item a (nat i) v m) (\<lambda>m1. Done (True, m1))))"

definition bread_array_insert :: "ref \<Rightarrow> val \<Rightarrow> int \<Rightarrow> mem \<Rightarrow> (bool \<times> mem) outcome" where
  \<comment> \<open>the elements from the index on move up by one, then the clone is stored\<close>
  "bread_array_insert r v index m =
     (case r of
        None \<Rightarrow> bnd (raise_error BREAD_ERROR_RUNTIME_ERROR ''Cannot insert into null array'' m)
                 (\<lambda>m1. Done (False, m1))
      | Some a \<Rightarrow> bnd (array_at m a) (\<lambda>x.
          let n = length (items x); i = from_end index n in
          if i < 0 \<or> i > int n
          then bnd (raise_error BREAD_ERROR_INDEX_OUT_OF_BOUNDS (bounds_text ''Insert'' i n) m)
                 (\<lambda>m1. Done (False, m1))
          else if \<not> type_fits x v
          then bnd (raise_error BREAD_ERROR_TYPE_MISMATCH
                     (type_text ''insert'' (vtype v) '' into array of type '' (element_type x)) m)
                 (\<lambda>m1. Done (False, m1))
          else let x1 = make_room v x in
            bnd (bread_value_clone v (put_array a x1 m)) (\<lambda>(w, m1).
              Done (True, put_array a
                (x1\<lparr>items := take (nat i) (items x1) @ [w] @ drop (nat i) (items x1)\<rparr>) m1))))"

definition bread_array_remove_at :: "ref \<Rightarrow> int \<Rightarrow> mem \<Rightarrow> (val \<times> mem) outcome" where
  "bread_array_remove_at r index m =
     (case r of
        None \<Rightarrow> bnd (raise_error BREAD_ERROR_RUNTIME_ERROR ''Cannot remove from null array'' m)
                 (\<lambda>m1. Done (VNil, m1))
      | Some a \<Rightarrow> bnd (array_at m a) (\<lambda>x.
          let n = length (items x); i = from_end index n in
          if i < 0 \<or> i \<ge> int n
          then bnd (raise_error BREAD_ERROR_INDEX_OUT_OF_BOUNDS (bounds_text ''Remove'' i n) m)
                 (\<lambda>m1. Done (VNil, m1))
          else bnd (bread_value_clone (items x ! nat i) m) (\<lambda>(removed, m1).
            bnd (bread_value_release (items x ! nat i) m1) (\<lambda>m2.
              Done (removed, put_array a
                (x\<lparr>items := take (nat i) (items x) @ drop (Suc (nat i)) (items x)\<rparr>) m2)))))"

fun element_matches :: "mem \<Rightarrow> val \<Rightarrow> val \<Rightarrow> bool" where
  \<comment> \<open>an element against a value; floats and compound values match nothing\<close>
  "element_matches m (VInt x) (VInt y) \<longleftrightarrow> x = y"
| "element_matches m (VDouble x) (VDouble y) \<longleftrightarrow> f64_eq x y"
| "element_matches m (VBool x) (VBool y) \<longleftrightarrow> x = y"
| "element_matches m (VString r) (VString s) \<longleftrightarrow>
     r \<noteq> None \<and> s \<noteq> None \<and> strcmp (bread_string_cstr m r) (bread_string_cstr m s) = 0"
| "element_matches m VNil VNil \<longleftrightarrow> True"
| "element_matches m _ _ \<longleftrightarrow> False"

definition bread_array_contains :: "ref \<Rightarrow> val \<Rightarrow> mem \<Rightarrow> bool outcome" where
  "bread_array_contains r v m =
     (case r of None \<Rightarrow> Done False
      | Some a \<Rightarrow> bnd (array_at m a) (\<lambda>x. Done (list_ex (\<lambda>e. element_matches m e v) (items x))))"

fun index_from :: "(val \<Rightarrow> bool) \<Rightarrow> int \<Rightarrow> val list \<Rightarrow> int" where
  "index_from P i [] = - 1"
| "index_from P i (e # es) = (if P e then i else index_from P (i + 1) es)"

definition bread_array_index_of :: "ref \<Rightarrow> val \<Rightarrow> mem \<Rightarrow> int outcome" where
  "bread_array_index_of r v m =
     (case r of None \<Rightarrow> Done (- 1)
      | Some a \<Rightarrow> bnd (array_at m a) (\<lambda>x. Done (index_from (\<lambda>e. element_matches m e v) 0 (items x))))"

section \<open>Well-formed arrays\<close>

text \<open>
  A well-formed array has its elements in its buffer and, once it has an element type, only
  elements of that type. \<open>array_view m R a x\<close>: the caller owns the array at \<open>a\<close>, the heap keeps
  the discipline, and \<open>x\<close> is the array's contents.
\<close>

definition array_wf :: "barray \<Rightarrow> bool" where
  "array_wf x \<longleftrightarrow> length (items x) \<le> acapacity x \<and>
     (element_type x \<noteq> TYPE_NIL \<longrightarrow> (\<forall>v \<in> set (items x). vtype v = element_type x))"

definition array_view :: "mem \<Rightarrow> val multiset \<Rightarrow> addr \<Rightarrow> barray \<Rightarrow> bool" where
  "array_view m R a x \<longleftrightarrow> heap_ok m R \<and> VArray (Some a) \<in># R \<and>
     (\<exists>ob. get_obj m a = Some ob \<and> body ob = BArray x)"

lemma array_viewD [dest]:
  assumes "array_view m R a x"
  shows "heap_ok m R" "VArray (Some a) \<in># R" "array_at m a = Done x"
  using assms by (auto simp: array_view_def array_at_def)

lemma array_view_obj:
  assumes "array_view m R a x"
  obtains ob where "get_obj m a = Some ob" "body ob = BArray x" "heap_ok m R" "VArray (Some a) \<in># R"
  using assms by (auto simp: array_view_def)

lemma get_put_array:
  "get_obj m a = Some ob \<Longrightarrow> get_obj (put_array a x m) a = Some (ob\<lparr>body := BArray x\<rparr>)"
  by (simp add: put_array_def set_body_get)

lemma array_view_put:
  assumes "array_view m R a x" and "mset (items y) = mset (items x)"
  shows "array_view (put_array a y m) R a y"
proof -
  obtain ob where ob: "get_obj m a = Some ob" "body ob = BArray x" "heap_ok m R" "VArray (Some a) \<in># R"
    using array_view_obj [OF assms(1)] .
  have "heap_ok (put_array a y m) R"
    unfolding put_array_def by (rule set_body_exchange [OF ob(3,1)]) (use ob(2) assms(2) in simp_all)
  with ob show ?thesis by (simp add: array_view_def get_put_array)
qed

lemma room_put_array [simp]: "room_for n (put_array a x m) = room_for n m"
  by (simp add: put_array_def)

lemma make_room_items [simp]: "items (make_room v x) = items x"
  by (simp add: make_room_def Let_def)

lemma make_room_wf:
  assumes "array_wf x" "type_fits x v"
  shows "length (items x) < acapacity (make_room v x) \<and>
     (element_type (make_room v x) = element_type x \<or>
        (element_type x = TYPE_NIL \<and> items x = [] \<and> element_type (make_room v x) = vtype v)) \<and>
     acapacity x \<le> acapacity (make_room v x)"
  using assms by (auto simp: make_room_def array_wf_def Let_def)

text \<open>Storing a clone of an owned value in an array.\<close>

lemma array_store:
  assumes view: "array_view m R a x" and v: "may_hold m R v" and room: "room_for (Suc n) m"
    and y: "mset (items y) + N = add_mset v (mset (items x))" and N: "\<forall>v \<in># N. ref_of v = None"
  shows "\<exists>m1. bread_value_clone v m = Done (v, m1) \<and> array_view (put_array a y m1) R a y \<and>
     room_for n (put_array a y m1) \<and> survives m m1"
proof -
  obtain ob where ob: "get_obj m a = Some ob" "body ob = BArray x" "heap_ok m R" "VArray (Some a) \<in># R"
    using array_view_obj [OF view] .
  obtain m1 ob' where m1: "bread_value_clone v m = Done (v, m1)" "heap_ok (set_body a (BArray y) m1) R"
      "room_for n m1" "survives m m1" "get_obj m1 a = Some ob'"
    using slot_store [OF ob(3) v room ob(1), of "BArray y" N] ob(2) y N by auto
  then show ?thesis using ob(4) get_put_array [OF m1(5)]
    by (auto simp: array_view_def put_array_def)
qed

lemma array_append_ok:
  assumes view: "array_view m R a x" and v: "v \<in># R" and room: "room_for (Suc n) m" and fit: "type_fits x v"
  shows "\<exists>m'. bread_array_append (Some a) v m = Done (True, m') \<and>
     array_view m' R a ((make_room v x)\<lparr>items := items x @ [v]\<rparr>) \<and> room_for n m'"
proof -
  let ?y = "make_room v x"
  have view1: "array_view (put_array a ?y m) R a ?y" by (rule array_view_put [OF view]) simp
  have mh: "may_hold (put_array a ?y m) R v" using v by (simp add: may_hold_def)
  have "mset (items (?y\<lparr>items := items x @ [v]\<rparr>)) + {#} = add_mset v (mset (items ?y))" by simp
  from array_store [OF view1 mh _ this, of n] room
  show ?thesis using fit array_viewD(3) [OF view] by (auto simp: bread_array_append_def Let_def)
qed

lemma append_wf:
  assumes "array_wf x" "type_fits x v"
  shows "array_wf ((make_room v x)\<lparr>items := items x @ [v]\<rparr>)"
  using make_room_wf [OF assms] assms by (auto simp: array_wf_def type_fits_def)

lemma overwrite_item_ok:
  assumes view: "array_view m R a x" and v: "v \<in># R" and room: "room_for (Suc n) m"
    and i: "i < length (items x)"
  shows "\<exists>m'. overwrite_item a i v m = Done m' \<and> array_view m' R a (x\<lparr>items := (items x)[i := v]\<rparr>) \<and>
    room_for n m'"
proof -
  let ?x1 = "x\<lparr>items := (items x)[i := VNil]\<rparr>"
  obtain ob where ob: "get_obj m a = Some ob" "body ob = BArray x" "heap_ok m R" "VArray (Some a) \<in># R"
    using array_view_obj [OF view] .
  have ch: "mset (items x) = add_mset (items x ! i) (mset (items x) - {#items x ! i#})"
    using i by simp
  have ch: "mset (items x) + {#VNil#} = add_mset (items x ! i) (mset (items ?x1))"
    using ch i by (simp add: mset_update)
  obtain m1 ob' where m1: "bread_value_release (items x ! i) m = Done m1" "get_obj m1 a = Some ob'"
      "heap_ok (set_body a (BArray ?x1) m1) R" "\<forall>n. room_for n m \<longrightarrow> room_for n m1"
    using slot_release [OF ob(3,4) _ ob(1), of "BArray ?x1" "{#VNil#}" "items x ! i"] ob(2) ch by auto
  have view1: "array_view (put_array a ?x1 m1) R a ?x1"
    using m1 ob(4) get_put_array [OF m1(2)] by (simp add: array_view_def put_array_def)
  have mh: "may_hold (put_array a ?x1 m1) R v" using v by (simp add: may_hold_def)
  have "mset (items (x\<lparr>items := (items x)[i := v]\<rparr>)) + {#VNil#} = add_mset v (mset (items ?x1))"
    using i by (simp add: mset_update)
  from array_store [OF view1 mh _ this, of n] room m1
  show ?thesis using array_viewD(3) [OF view] by (auto simp: overwrite_item_def Let_def)
qed

lemma child_held:
  assumes "heap_ok m R" "get_obj m a = Some ob" "v \<in> set (children (body ob))"
  shows "v \<in># held m"
proof -
  have "refcount ob \<noteq> 0" using heap_ok_rc_pos [OF assms(1,2)] .
  then have "held (set_cell a None m) + mset (children (body ob)) = held m"
    using held_set_obj [OF assms(2), of "None"] by (simp add: cell_vals_def)
  from this [symmetric] assms(3) show ?thesis by simp
qed

lemma array_elem_may_hold:
  "array_view m R a x \<Longrightarrow> v \<in> set (items x) \<Longrightarrow> may_hold m R v"
  using child_held [of m R a _ v] by (auto simp: array_view_def may_hold_def)

lemma array_remove_at_ok:
  assumes view: "array_view m R a x" and room: "room_for (Suc n) m"
    and i: "from_end index (length (items x)) = int i" "i < length (items x)"
  shows "\<exists>m'. bread_array_remove_at (Some a) index m = Done (items x ! i, m') \<and>
    array_view m' (add_mset (items x ! i) R) a (x\<lparr>items := take i (items x) @ drop (Suc i) (items x)\<rparr>) \<and>
    room_for n m'"
proof -
  let ?v = "items x ! i" and ?x1 = "x\<lparr>items := take i (items x) @ drop (Suc i) (items x)\<rparr>"
  obtain ob where ob: "get_obj m a = Some ob" "body ob = BArray x" "heap_ok m R" "VArray (Some a) \<in># R"
    using array_view_obj [OF view] .
  have mh: "may_hold m R ?v" by (rule array_elem_may_hold [OF view]) (use i in simp)
  obtain m1 where m1: "bread_value_clone ?v m = Done (?v, m1)" "heap_ok m1 (add_mset ?v R)" "room_for n m1"
    using clone_ok [OF ob(3) mh room] by blast
  obtain ob1 where ob1: "get_obj m1 a = Some ob1" "body ob1 = body ob" using clone_get [OF m1(1) ob(1)] by blast
  have split: "items x = take i (items x) @ ?v # drop (Suc i) (items x)" by (rule id_take_nth_drop [OF i(2)])
  then have ch: "mset (items x) = add_mset ?v (mset (items ?x1))"
    by (metis barray.select_convs(3) barray.surjective barray.update_convs(3) mset.simps(2) mset_append
        union_mset_add_mset_right)
  have r: "VArray (Some a) \<in># add_mset ?v R" using ob(4) by simp
  obtain m2 ob2 where m2: "bread_value_release ?v m1 = Done m2" "get_obj m2 a = Some ob2"
      "heap_ok (set_body a (BArray ?x1) m2) (add_mset ?v R)" "\<forall>n. room_for n m1 \<longrightarrow> room_for n m2"
    using slot_release [OF m1(2) r _ ob1(1), of "BArray ?x1" "{#}" ?v] ob(2) ob1(2) ch by auto
  then show ?thesis
    using m1 i array_viewD(3) [OF view] get_put_array [OF m2(2)] ob(4)
    by (auto simp: bread_array_remove_at_def Let_def array_view_def put_array_def)
qed

lemma array_insert_ok:
  assumes view: "array_view m R a x" and v: "v \<in># R" and room: "room_for (Suc n) m" and fit: "type_fits x v"
    and i: "from_end index (length (items x)) = int i" "i \<le> length (items x)"
  shows "\<exists>m'. bread_array_insert (Some a) v index m = Done (True, m') \<and>
    array_view m' R a ((make_room v x)\<lparr>items := take i (items x) @ [v] @ drop i (items x)\<rparr>) \<and> room_for n m'"
proof -
  let ?y = "make_room v x"
  have view1: "array_view (put_array a ?y m) R a ?y" by (rule array_view_put [OF view]) simp
  have mh: "may_hold (put_array a ?y m) R v" using v by (simp add: may_hold_def)
  have "mset (take i (items x)) + mset (drop i (items x)) = mset (items x)"
    by (metis append_take_drop_id mset_append)
  then have "mset (items (?y\<lparr>items := take i (items x) @ [v] @ drop i (items x)\<rparr>)) + {#} = add_mset v (mset (items ?y))"
    by simp
  from array_store [OF view1 mh _ this, of n] room
  show ?thesis using fit array_viewD(3) [OF view] i by (auto simp: bread_array_insert_def Let_def)
qed

lemma array_fill_ok:
  assumes "array_view m R a x" "set vs \<subseteq> set_mset R" "room_for (length vs + n) m"
  shows "\<exists>m'. array_fill a vs m = Done m' \<and> array_view m' R a (x\<lparr>items := items x @ vs\<rparr>) \<and> room_for n m'"
  using assms
proof (induction vs arbitrary: m x)
  case (Cons v vs)
  have mh: "may_hold m R v" using Cons.prems(2) by (simp add: may_hold_def)
  have ms: "mset (items (x\<lparr>items := items x @ [v]\<rparr>)) + {#} = add_mset v (mset (items x))" by simp
  obtain m1 where m1: "bread_value_clone v m = Done (v, m1)"
      "array_view (put_array a (x\<lparr>items := items x @ [v]\<rparr>) m1) R a (x\<lparr>items := items x @ [v]\<rparr>)"
      "room_for (length vs + n) (put_array a (x\<lparr>items := items x @ [v]\<rparr>) m1)"
    using array_store [OF Cons.prems(1) mh _ ms, of "length vs + n"] Cons.prems(3) by auto
  obtain ob where ob: "get_obj m a = Some ob" "body ob = BArray x"
    using array_view_obj [OF Cons.prems(1)] .
  have "array_at m1 a = Done x" using clone_get [OF m1(1) ob(1)] ob(2) by (auto simp: array_at_def)
  with Cons.IH [OF m1(2) _ m1(3)] m1(1) Cons.prems(2) show ?case by auto
qed auto

lemma new_array_view:
  assumes "heap_ok m R" "new_array cap t m = (a, m')" "room_for n m" "n < 2 ^ 32 - 1"
  shows "array_view m' (add_mset (VArray (Some a)) R) a \<lparr>acapacity = cap, element_type = t, items = []\<rparr> \<and>
    room_for n m'"
proof -
  have al: "bread_memory_alloc (BArray \<lparr>acapacity = cap, element_type = t, items = []\<rparr>) m = (a, m')"
    using assms(2) by (simp add: new_array_def)
  have "heap_ok m' (add_mset (VArray (Some a)) R)" by (rule alloc_ok [OF _ al]) (use assms(1) in simp_all)
  moreover have "get_obj m' a = Some \<lparr>refcount = 1, body = BArray \<lparr>acapacity = cap, element_type = t, items = []\<rparr>\<rparr>"
    using alloc_get [OF al, of a, THEN conjunct1] by simp
  ultimately show ?thesis using alloc_room [OF al assms(3,4)] by (simp add: array_view_def)
qed

lemma list_ex_tl_type:
  "\<not> list_ex (\<lambda>v. vtype v \<noteq> (case vs of v # _ \<Rightarrow> vtype v | [] \<Rightarrow> TYPE_NIL)) (tl vs) \<longleftrightarrow>
   (\<forall>u \<in> set vs. \<forall>v \<in> set vs. vtype u = vtype v)"
  by (cases vs) (auto simp: list_ex_iff)


lemma from_literal_ok:
  assumes "heap_ok m R" "set vs \<subseteq> set_mset R" "room_for (length vs + n) m" "length vs + n < 2 ^ 32 - 1"
    and "\<forall>u \<in> set vs. \<forall>v \<in> set vs. vtype u = vtype v"
  shows "\<exists>a m' x. bread_array_from_literal (Some vs) m = Done (Some a, m') \<and>
    array_view m' (add_mset (VArray (Some a)) R) a x \<and> items x = vs \<and> array_wf x \<and>
    acapacity x = length vs \<and> room_for n m'"
proof -
  let ?t = "case vs of v # _ \<Rightarrow> vtype v | [] \<Rightarrow> TYPE_NIL"
  obtain a m1 where na: "new_array (length vs) ?t m = (a, m1)" by fastforce
  note view = new_array_view [OF assms(1) na assms(3,4)]
  then obtain m2 where "array_fill a vs m1 = Done m2"
      "array_view m2 (add_mset (VArray (Some a)) R) a \<lparr>acapacity = length vs, element_type = ?t, items = vs\<rparr>"
      "room_for n m2"
    using array_fill_ok [OF conjunct1 [OF view], of vs n] assms(2) by auto
  moreover have "array_wf \<lparr>acapacity = length vs, element_type = ?t, items = vs\<rparr>"
  proof (cases vs)
    case (Cons v us)
    then have "\<forall>u \<in> set us. vtype u = vtype v" using assms(5) by (metis list.set_intros)
    with Cons show ?thesis by (simp add: array_wf_def)
  qed (simp add: array_wf_def)
  moreover have "bread_array_from_literal (Some vs) m = bnd (array_fill a vs m1) (\<lambda>m2. Done (Some a, m2))"
    unfolding bread_array_from_literal_def Let_def option.case if_not_P [OF list_ex_tl_type [THEN iffD2, OF assms(5)]]
    by (simp add: na)
  ultimately show ?thesis
    by (intro exI [of _ a] exI [of _ m2] exI [of _ "\<lparr>acapacity = length vs, element_type = ?t, items = vs\<rparr>"])
      simp
qed

section \<open>What arrays promise\<close>

text \<open>
  C17: appending an owned value to an array in use either stores a clone at the end, with the
  element type fixed by the first element, or, exactly where the array already has another
  element type, returns 0 and changes nothing; the array keeps at most \<open>capacity\<close> elements,
  all of its element type, and the heap keeps its discipline.
\<close>
theorem array_append_correct:
  assumes "array_view m R a x" and "array_wf x" and "v \<in># R" and "room_for 1 m"
  shows "if type_fits x v
    then \<exists>m' y. bread_array_append (Some a) v m = Done (True, m') \<and> array_view m' R a y \<and> array_wf y \<and>
      items y = items x @ [v] \<and> (items x = [] \<or> element_type y = element_type x)
    else bread_array_append (Some a) v m = Done (False, m)"
proof (cases "type_fits x v")
  case True
  with array_append_ok [of m R a x v 0] append_wf [OF assms(2) True] make_room_wf [OF assms(2) True] assms
  show ?thesis by fastforce
next
  case False
  then show ?thesis using array_viewD(3) [OF assms(1)] by (simp add: bread_array_append_def)
qed

lemma from_end_cases:
  assumes "- int n \<le> index" "index < int n"
  obtains i where "from_end index n = int i" "i < n" "int i = (if index < 0 then int n + index else index)"
proof -
  have "from_end index n = int (nat (from_end index n))" "nat (from_end index n) < n"
    using assms by (auto simp: from_end_def)
  then show ?thesis using that by (simp add: from_end_def)
qed

text \<open>
  A checked write with an index from \<open>- n\<close> to \<open>n - 1\<close> replaces that element (a negative
  index counts from the end), after which the checked read finds the element's slot at the
  same index; the replaced value is released, and every other element is kept.
\<close>
theorem array_set_safe_correct:
  assumes "array_view m R a x" and "v \<in># R" and "type_fits x v" and "room_for 1 m"
    and "- int (length (items x)) \<le> index" and "index < int (length (items x))"
  shows "\<exists>m' i. bread_array_set_safe (Some a) index v m = Done (True, m') \<and>
    array_view m' R a (x\<lparr>items := (items x)[i := v]\<rparr>) \<and>
    int i = (if index < 0 then int (length (items x)) + index else index) \<and> i < length (items x) \<and>
    bread_array_get_safe (Some a) index m' = Done (Some i, m')"
proof -
  obtain i where i: "from_end index (length (items x)) = int i" "i < length (items x)"
      "int i = (if index < 0 then int (length (items x)) + index else index)"
    using from_end_cases [OF assms(5,6)] .
  obtain m' where m': "overwrite_item a i v m = Done m'" "array_view m' R a (x\<lparr>items := (items x)[i := v]\<rparr>)"
    using overwrite_item_ok [OF assms(1,2) _ i(2), of 0] assms(4) by auto
  have "bread_array_set_safe (Some a) index v m = Done (True, m')"
    using array_viewD(3) [OF assms(1)] i(1,2) assms(3) m'(1) by (simp add: bread_array_set_safe_def Let_def)
  moreover have "bread_array_get_safe (Some a) index m' = Done (Some i, m')"
    using array_viewD(3) [OF m'(2)] i(1,2) by (simp add: bread_array_get_safe_def Let_def)
  ultimately show ?thesis using m'(2) i by blast
qed

text \<open>
  Outside the bounds every checked operation ends the process with the index error:
  reading, writing and removing for an index below \<open>- n\<close> or from \<open>n\<close> on, inserting for an index
  below \<open>- n\<close> or beyond \<open>n\<close>.
\<close>
theorem array_bounds_errors:
  assumes "array_at m a = Done x" and "index < - int (length (items x)) \<or> int (length (items x)) \<le> index"
  shows "(\<exists>e. bread_array_get_safe (Some a) index m = Aborted e \<and> err_type e = BREAD_ERROR_INDEX_OUT_OF_BOUNDS) \<and>
    (\<exists>e. bread_array_set_safe (Some a) index v m = Aborted e \<and> err_type e = BREAD_ERROR_INDEX_OUT_OF_BOUNDS) \<and>
    (\<exists>e. bread_array_remove_at (Some a) index m = Aborted e \<and> err_type e = BREAD_ERROR_INDEX_OUT_OF_BOUNDS) \<and>
    (index \<noteq> int (length (items x)) \<longrightarrow>
       (\<exists>e. bread_array_insert (Some a) v index m = Aborted e \<and> err_type e = BREAD_ERROR_INDEX_OUT_OF_BOUNDS))"
proof -
  let ?i = "from_end index (length (items x))"
  have i: "?i < 0 \<or> ?i \<ge> int (length (items x))" using assms(2) by (auto simp: from_end_def)
  have i': "index \<noteq> int (length (items x)) \<Longrightarrow> ?i < 0 \<or> ?i > int (length (items x))"
    using assms(2) by (auto simp: from_end_def)
  show ?thesis
    using assms(1) i i' by (simp add: bread_array_get_safe_def bread_array_set_safe_def
        bread_array_remove_at_def bread_array_insert_def Let_def)
qed

text \<open>
  C18: inserting an owned value and removing it again at the same place is the identity on the
  elements: the value comes back, with an owner of its own, and every element is where it was;
  in between the value is at the index and the elements from there on are one higher.
\<close>
theorem array_insert_remove:
  assumes "array_view m R a x" and "array_wf x" and "v \<in># R" and "type_fits x v" and "room_for 2 m"
    and "0 \<le> index" and "index \<le> int (length (items x))"
  shows "\<exists>m1 y m2 z. bread_array_insert (Some a) v index m = Done (True, m1) \<and>
    array_view m1 R a y \<and> array_wf y \<and>
    items y = take (nat index) (items x) @ [v] @ drop (nat index) (items x) \<and>
    bread_array_remove_at (Some a) index m1 = Done (v, m2) \<and>
    array_view m2 (add_mset v R) a z \<and> array_wf z \<and> items z = items x"
proof -
  let ?i = "nat index" and ?y = "make_room v x"
  let ?its = "take ?i (items x) @ [v] @ drop ?i (items x)"
  have i: "?i \<le> length (items x)" "from_end index (length (items x)) = int ?i"
    using assms(6,7) by (auto simp: from_end_def)
  obtain m1 where m1: "bread_array_insert (Some a) v index m = Done (True, m1)"
      "array_view m1 R a (?y\<lparr>items := ?its\<rparr>)" "room_for 1 m1"
    using array_insert_ok [OF assms(1,3) _ assms(4) i(2,1), of 1] assms(5) by (auto simp: numeral_2_eq_2)
  have len: "length ?its = Suc (length (items x))" using i by simp
  have "from_end index (length ?its) = int ?i" "?i < length ?its"
    using assms(6) i(1) len by (auto simp: from_end_def)
  moreover have nth: "?its ! ?i = v" and rest: "take ?i ?its @ drop (Suc ?i) ?its = items x"
    using i(1) by (simp_all add: nth_append)
  ultimately obtain m2 where m2: "bread_array_remove_at (Some a) index m1 = Done (v, m2)"
      "array_view m2 (add_mset v R) a (?y\<lparr>items := items x\<rparr>)"
    using array_remove_at_ok [OF m1(2), of 0 index ?i] m1(3) by auto
  note mr = make_room_wf [OF assms(2,4)]
  have "array_wf (?y\<lparr>items := ?its\<rparr>)" "array_wf (?y\<lparr>items := items x\<rparr>)"
    using mr assms(2,4) len by (auto simp: array_wf_def type_fits_def dest: in_set_takeD in_set_dropD)
  with m1 m2 show ?thesis
    by (intro exI [of _ m1] exI [of _ "?y\<lparr>items := ?its\<rparr>"] exI [of _ m2] exI [of _ "?y\<lparr>items := items x\<rparr>"]) simp
qed

lemma index_from_spec:
  "index_from P k es = - 1 \<and> (\<forall>e \<in> set es. \<not> P e) \<or>
   (\<exists>i < length es. index_from P k es = k + int i \<and> P (es ! i) \<and> (\<forall>j < i. \<not> P (es ! j)))"
proof (induction es arbitrary: k)
  case (Cons e es)
  show ?case
  proof (cases "P e")
    case True
    then show ?thesis by (intro disjI2 exI [of _ 0]) simp
  next
    case False
    from Cons.IH [of "k + 1"] show ?thesis
    proof
      assume "\<exists>i < length es. index_from P (k + 1) es = k + 1 + int i \<and> P (es ! i) \<and> (\<forall>j < i. \<not> P (es ! j))"
      then obtain i where "i < length es" "index_from P (k + 1) es = k + 1 + int i" "P (es ! i)"
        "\<forall>j < i. \<not> P (es ! j)" by blast
      with False show ?thesis by (intro disjI2 exI [of _ "Suc i"]) (auto simp: less_Suc_eq_0_disj)
    qed (use False in simp)
  qed
qed simp

text \<open>
  \<^verbatim>\<open>contains\<close> and \<^verbatim>\<open>index_of\<close> agree: the index is the least position whose element
  matches, \<open>- 1\<close> exactly where no element does; a value of a type arrays do not
  compare (a Float, a container, an instance) is never found.
\<close>
theorem array_search_correct:
  assumes "array_at m a = Done x"
  shows "\<exists>k. bread_array_index_of (Some a) v m = Done k \<and>
    bread_array_contains (Some a) v m = Done (k \<noteq> - 1) \<and>
    (k = - 1 \<longrightarrow> (\<forall>e \<in> set (items x). \<not> element_matches m e v)) \<and>
    (k \<noteq> - 1 \<longrightarrow> (\<exists>i < length (items x). k = int i \<and> element_matches m (items x ! i) v \<and>
       (\<forall>j < i. \<not> element_matches m (items x ! j) v))) \<and>
    (vtype v \<notin> {TYPE_INT, TYPE_DOUBLE, TYPE_BOOL, TYPE_STRING, TYPE_NIL} \<longrightarrow> k = - 1)"
proof -
  let ?P = "\<lambda>e. element_matches m e v" and ?k = "index_from (\<lambda>e. element_matches m e v) 0 (items x)"
  have none: "\<not> ?P e" if "vtype v \<notin> {TYPE_INT, TYPE_DOUBLE, TYPE_BOOL, TYPE_STRING, TYPE_NIL}" for e
    using that by (cases v; cases e) simp_all
  from index_from_spec [of ?P 0 "items x"] show ?thesis
  proof
    assume "?k = - 1 \<and> (\<forall>e \<in> set (items x). \<not> ?P e)"
    then show ?thesis using assms
      by (auto simp: bread_array_index_of_def bread_array_contains_def list_ex_iff)
  next
    assume "\<exists>i < length (items x). ?k = 0 + int i \<and> ?P (items x ! i) \<and> (\<forall>j < i. \<not> ?P (items x ! j))"
    then obtain i where i: "i < length (items x)" "?k = int i" "?P (items x ! i)" "\<forall>j < i. \<not> ?P (items x ! j)"
      by auto
    moreover have "list_ex ?P (items x)" using i(1,3) by (auto simp: list_ex_iff)
    ultimately show ?thesis using assms none
      by (auto simp: bread_array_index_of_def bread_array_contains_def)
  qed
qed

section \<open>Ranges and element access\<close>

text \<open>
  The loop counter is an \<^verbatim>\<open>int\<close> while start, end and step are 64 bits wide: the start is
  truncated, and each step is added in 64 bits (overflowing there is undefined) and truncated.
  A counter that is truncated may never pass the end; then the function does not return (\<open>None\<close>).
\<close>

partial_function (option) range_loop ::
  "addr \<Rightarrow> 64 word \<Rightarrow> 64 word \<Rightarrow> 32 word \<Rightarrow> mem \<Rightarrow> (ref \<times> mem) outcome option" where
  "range_loop a e s i m =
     (if (if 0 < sint s then sint i < sint e else sint e < sint i)
      then (case bread_array_append (Some a) (VInt (scast i)) m of
          Undefined \<Rightarrow> Some Undefined
        | Aborted err \<Rightarrow> Some (Aborted err)
        | Done (done_ok, m1) \<Rightarrow>
            if \<not> done_ok then Some (bnd (bread_array_release (Some a) m1) (\<lambda>m2. Done (None, m2)))
            else let t = sint i + sint s in
              if t < - (2 ^ 63) \<or> 2 ^ 63 \<le> t then Some Undefined
              else range_loop a e s (word_of_int t) m1)
      else Some (Done (Some a, m)))"

definition bread_range_create :: "64 word \<Rightarrow> 64 word \<Rightarrow> 64 word \<Rightarrow> mem \<Rightarrow> (ref \<times> mem) outcome option" where
  "bread_range_create start stop step m =
     (if step = 0 then Some (Done (None, m))
      else if 0 < sint step \<and> sint start \<ge> sint stop then Some (Done (bread_array_new_typed TYPE_INT m))
      else if sint step < 0 \<and> sint start \<le> sint stop then Some (Done (bread_array_new_typed TYPE_INT m))
      else let (a, m1) = new_array 0 TYPE_INT m in range_loop a stop step (scast start) m1)"

definition bread_range :: "64 word \<Rightarrow> mem \<Rightarrow> (ref \<times> mem) outcome option" where
  "bread_range n m = bread_range_create 0 n 1 m"

definition bread_array_get_value :: "ref \<Rightarrow> int \<Rightarrow> mem \<Rightarrow> (bool \<times> val \<times> mem) outcome" where
  \<comment> \<open>success and what is stored in \<^verbatim>\<open>*out\<close>\<close>
  "bread_array_get_value r idx m =
     (case r of None \<Rightarrow> bnd (raise_error BREAD_ERROR_RUNTIME_ERROR ''Array is null'' m) (\<lambda>m1. Done (False, VNil, m1))
      | Some a \<Rightarrow> bnd (array_at m a) (\<lambda>x.
          let n = length (items x) in
          if idx < 0 \<or> idx \<ge> int n
          then bnd (raise_error BREAD_ERROR_INDEX_OUT_OF_BOUNDS (snprintf_s 256
                 (''Array index '' @ show_int idx @ '' out of bounds (array length: '' @ show_nat n @ '')'')) m)
                 (\<lambda>m1. Done (False, VNil, m1))
          else bnd (bread_value_clone (items x ! nat idx) m) (\<lambda>(w, m1). Done (True, w, m1))))"

definition bread_value_array_get :: "val \<Rightarrow> int \<Rightarrow> mem \<Rightarrow> (bool \<times> val \<times> mem) outcome" where
  "bread_value_array_get v idx m =
     (case v of VArray r \<Rightarrow> bread_array_get_value r idx m
      | _ \<Rightarrow> bnd (raise_error BREAD_ERROR_TYPE_MISMATCH ''Expected array type for indexing operation'' m)
              (\<lambda>m1. Done (False, VNil, m1)))"

definition bread_value_array_length :: "val \<Rightarrow> mem \<Rightarrow> nat outcome" where
  "bread_value_array_length v m = (case v of VArray r \<Rightarrow> bread_array_length r m | _ \<Rightarrow> Done 0)"

lemma array_view_null:
  assumes "array_view m R a x" and "mset (items y) = mset (items x) + N" and "\<forall>v \<in># N. ref_of v = None"
  shows "array_view (put_array a y m) R a y"
proof -
  obtain ob where ob: "get_obj m a = Some ob" "body ob = BArray x" "heap_ok m R" "VArray (Some a) \<in># R"
    using array_view_obj [OF assms(1)] .
  have "heap_ok (put_array a y m) R"
    unfolding put_array_def
  proof (rule set_body_exchange [OF _ ob(1)])
    show "heap_ok m (N + R)" using ob(3) assms(3) by (simp add: heap_ok_null_mset)
  qed (use ob(2) assms(2) in \<open>simp_all add: ac_simps\<close>)
  with ob show ?thesis by (simp add: array_view_def get_put_array)
qed

lemma append_int:
  assumes "array_view m R a x" "element_type x = TYPE_INT"
  shows "\<exists>m' y. bread_array_append (Some a) (VInt k) m = Done (True, m') \<and> array_view m' R a y \<and>
    items y = items x @ [VInt k] \<and> element_type y = TYPE_INT"
proof -
  let ?y = "make_room (VInt k) x" and ?z = "(make_room (VInt k) x)\<lparr>items := items x @ [VInt k]\<rparr>"
  have v1: "array_view (put_array a ?y m) R a ?y" by (rule array_view_put [OF assms(1)]) simp
  have "array_view (put_array a ?z (put_array a ?y m)) R a ?z"
    by (rule array_view_null [OF v1, of _ "{#VInt k#}"]) simp_all
  moreover have "element_type ?z = TYPE_INT" using assms(2) by (simp add: make_room_def Let_def)
  ultimately show ?thesis using assms array_viewD(3) [OF assms(1)]
    by (intro exI [of _ "put_array a ?z (put_array a ?y m)"] exI [of _ ?z])
      (simp add: bread_array_append_def Let_def type_fits_def bread_value_clone_def bread_object_retain_def)
qed

definition in_range :: "int \<Rightarrow> int \<Rightarrow> int \<Rightarrow> bool" where
  "in_range s e i \<longleftrightarrow> (if 0 < s then i < e else e < i)"

lemma range_loop_ok:
  assumes "array_view m R a x" "element_type x = TYPE_INT"
    and "\<forall>k < n. in_range (sint s) (sint e) (sint i + int k * sint s)"
    and "\<not> in_range (sint s) (sint e) (sint i + int n * sint s)"
    and "\<forall>k \<le> n. - (2 ^ 31) \<le> sint i + int k * sint s \<and> sint i + int k * sint s < 2 ^ 31"
  shows "\<exists>m' y. range_loop a e s i m = Some (Done (Some a, m')) \<and> array_view m' R a y \<and>
    items y = items x @ map (\<lambda>k. VInt (word_of_int (sint i + int k * sint s))) [0..<n] \<and> element_type y = TYPE_INT"
  using assms
proof (induction n arbitrary: i m x)
  case 0
  then have "\<not> in_range (sint s) (sint e) (sint i)" by simp
  then have "range_loop a e s i m = Some (Done (Some a, m))"
    by (subst range_loop.simps) (simp add: in_range_def)
  with 0 show ?case by auto
next
  case (Suc n)
  obtain m1 y where m1: "bread_array_append (Some a) (VInt (scast i)) m = Done (True, m1)" "array_view m1 R a y"
      "items y = items x @ [VInt (scast i)]" "element_type y = TYPE_INT"
    using append_int [OF Suc.prems(1,2)] by blast
  define j where jd: "j = (word_of_int (sint i + sint s) :: 32 word)"
  have b: "- (2 ^ 31) \<le> sint i + sint s" "sint i + sint s < 2 ^ 31"
    using Suc.prems(5) [rule_format, of 1] by auto
  then have j: "sint j = sint i + sint s"
    unfolding jd sint_sbintrunc' by (simp add: signed_take_bit_int_eq_self)
  have e: "sint j + int k * sint s = sint i + int (Suc k) * sint s" for k
    by (simp add: j algebra_simps)
  have "in_range (sint s) (sint e) (sint i)" using Suc.prems(3) [rule_format, of 0] by simp
  with m1(1) b have step: "range_loop a e s i m = range_loop a e s j m1"
    by (subst range_loop.simps) (simp add: in_range_def Let_def jd)
  have "\<forall>k < n. in_range (sint s) (sint e) (sint j + int k * sint s)"
    "\<not> in_range (sint s) (sint e) (sint j + int n * sint s)"
    "\<forall>k \<le> n. - (2 ^ 31) \<le> sint j + int k * sint s \<and> sint j + int k * sint s < 2 ^ 31"
    unfolding e using Suc.prems(3,4,5) by (blast intro: Suc_mono Suc_le_mono [THEN iffD2])+
  from Suc.IH [OF m1(2,4) this] obtain m' z where "range_loop a e s j m1 = Some (Done (Some a, m'))"
      "array_view m' R a z" "element_type z = TYPE_INT"
      "items z = items y @ map (\<lambda>k. VInt (word_of_int (sint j + int k * sint s))) [0..<n]"
    by blast
  moreover have "map (\<lambda>k. VInt (word_of_int (sint i + int k * sint s))) [0..<Suc n] =
      VInt (scast i) # map (\<lambda>k. VInt (word_of_int (sint i + int (Suc k) * sint s))) [0..<n]"
    by (subst upt_conv_Cons) (simp_all add: map_Suc_upt [symmetric] o_def del: upt_Suc)
  ultimately show ?case using step m1(3) unfolding e
    by (intro exI [of _ m'] exI [of _ z]) (simp del: upt_Suc)
qed

definition range_count :: "int \<Rightarrow> int \<Rightarrow> int \<Rightarrow> nat" where
  \<comment> \<open>how many of \<open>s, s + d, s + 2 d, ...\<close> come before \<open>e\<close>\<close>
  "range_count s e d = (if 0 < d then nat ((e - s + d - 1) div d) else nat ((s - e - d - 1) div - d))"

lemma range_count_up:
  assumes "0 < d" "s < e"
  shows "int (range_count s e d) * d < e - s + d \<and> e - s \<le> int (range_count s e d) * d \<and>
    (\<forall>k < range_count s e d. s + int k * d < e)"
proof -
  let ?q = "(e - s + d - 1) div d"
  have q: "?q * d \<le> e - s + d - 1" "e - s + d - 1 < ?q * d + d"
    using assms(1) div_mult_mod_eq [of "e - s + d - 1" d] pos_mod_bound [of d "e - s + d - 1"]
      pos_mod_sign [of d "e - s + d - 1"] by linarith+
  have "0 \<le> ?q" using assms by (simp add: pos_imp_zdiv_nonneg_iff)
  then have n: "int (range_count s e d) = ?q" using assms(1) by (simp add: range_count_def)
  have "s + int k * d < e" if "k < range_count s e d" for k
  proof -
    have "int k + 1 \<le> ?q" using that n by linarith
    then have "(int k + 1) * d \<le> ?q * d" using assms(1) by (intro mult_right_mono) auto
    with q(1) show ?thesis by (simp add: algebra_simps)
  qed
  with q n show ?thesis by auto
qed

lemma range_count_down:
  assumes "d < 0" "e < s"
  shows "e - s + d < int (range_count s e d) * d \<and> int (range_count s e d) * d \<le> e - s \<and>
    (\<forall>k < range_count s e d. e < s + int k * d)"
proof -
  have "range_count s e d = range_count (- s) (- e) (- d)" using assms(1) by (simp add: range_count_def)
  moreover have "0 < - d" "- s < - e" using assms by simp_all
  ultimately show ?thesis using range_count_up [of "- d" "- s" "- e"] by auto
qed

lemma room_for_0: "room_for 0 m"
proof -
  have "unat w < 2 ^ 32" for w :: "32 word" using unsigned_less [of w] by simp
  then show ?thesis by (simp add: room_for_def rc_of_def split: option.split)
qed

lemma mult_between:
  "k \<le> n \<Longrightarrow> (0 \<le> int k * d \<and> int k * d \<le> int n * d) \<or> (int n * d \<le> int k * d \<and> int k * d \<le> 0)"
  by (cases "0 \<le> d") (auto intro: mult_right_mono mult_right_mono_neg simp: mult_nonneg_nonpos)

text \<open>
  C38: while the counter, and the first value past the end, fit in 32 bits, \<^verbatim>\<open>range\<close>
  returns, and its result is a new Int array with exactly start, start + step, start + 2 step
  and so on, as long as they are before the end in the direction of the step.
\<close>
theorem range_correct:
  assumes "heap_ok m R" and "step \<noteq> 0" and "- (2 ^ 31) \<le> sint start" and "sint start < 2 ^ 31"
    and "- (2 ^ 31) - 1 \<le> sint stop + sint step" and "sint stop + sint step \<le> 2 ^ 31"
  shows "\<exists>a m' y. bread_range_create start stop step m = Some (Done (Some a, m')) \<and>
    array_view m' (add_mset (VArray (Some a)) R) a y \<and> element_type y = TYPE_INT \<and>
    items y = map (\<lambda>k. VInt (word_of_int (sint start + int k * sint step)))
      [0..<if (if 0 < sint step then sint start < sint stop else sint stop < sint start)
           then range_count (sint start) (sint stop) (sint step) else 0]"
proof -
  let ?s = "sint start" and ?e = "sint stop" and ?d = "sint step"
  obtain a m1 where na: "new_array 0 TYPE_INT m = (a, m1)" by fastforce
  have view: "array_view m1 (add_mset (VArray (Some a)) R) a
      \<lparr>acapacity = 0, element_type = TYPE_INT, items = []\<rparr>"
    using new_array_view [OF assms(1) na room_for_0] by simp
  have d0: "?d \<noteq> 0" using assms(2) signed_eq_0_iff [of step] by auto
  show ?thesis
  proof (cases "if 0 < ?d then ?s < ?e else ?e < ?s")
    case False
    then have "bread_range_create start stop step m = Some (Done (Some a, m1))"
      using d0 assms(2) na by (auto simp: bread_range_create_def bread_array_new_typed_def split: if_splits)
    with view False show ?thesis by (simp only: if_False) auto
  next
    case True
    define n where "n = range_count ?s ?e ?d"
    define i where "i = (word_of_int ?s :: 32 word)"
    have si: "sint i = ?s"
      unfolding i_def sint_sbintrunc' using assms(3,4) by (simp add: signed_take_bit_int_eq_self)
    have c: "\<forall>k < n. in_range ?d ?e (?s + int k * ?d)" "\<not> in_range ?d ?e (?s + int n * ?d)"
      "- (2 ^ 31) \<le> ?s + int n * ?d" "?s + int n * ?d < 2 ^ 31"
      using True range_count_up [of ?d ?s ?e] range_count_down [of ?d ?e ?s] d0 assms(3-6)
      by (auto simp: in_range_def n_def split: if_splits)
    have "- (2 ^ 31) \<le> ?s + int k * ?d \<and> ?s + int k * ?d < 2 ^ 31" if "k \<le> n" for k
      using mult_between [OF that, of ?d] c(3,4) assms(3,4) by linarith
    then obtain m' y where "range_loop a stop step i m1 = Some (Done (Some a, m'))"
      "array_view m' (add_mset (VArray (Some a)) R) a y" "element_type y = TYPE_INT"
      "items y = map (\<lambda>k. VInt (word_of_int (?s + int k * ?d))) [0..<n]"
      using range_loop_ok [OF view, of n step stop i] c si by auto
    moreover have "bread_range_create start stop step m = range_loop a stop step i m1"
      using True d0 assms(2) na by (auto simp: bread_range_create_def i_def split: if_splits)
    ultimately show ?thesis using True by (auto simp: n_def)
  qed
qed

section \<open>A sample array\<close>

definition sample_ints :: mem where
  "sample_ints = put_array 0 \<lparr>acapacity = 2, element_type = TYPE_INT, items = [VInt 5, VInt 7]\<rparr>
     (snd (new_array 2 TYPE_INT bread_memory_init))"

lemma sample_ints_view:
  "array_view sample_ints {#VArray (Some 0), VInt 9#} 0 \<lparr>acapacity = 2, element_type = TYPE_INT, items = [VInt 5, VInt 7]\<rparr>"
proof -
  have na: "new_array 2 TYPE_INT bread_memory_init = (0, snd (new_array 2 TYPE_INT bread_memory_init))"
    by (simp add: new_array_def bread_memory_alloc_def bread_memory_init_def)
  have "heap_ok bread_memory_init {#VInt 9#}" using heap_ok_init by simp
  from conjunct1 [OF new_array_view [OF this na room_for_0]]
  have view: "array_view (snd (new_array 2 TYPE_INT bread_memory_init)) {#VArray (Some 0), VInt 9#} 0
     \<lparr>acapacity = 2, element_type = TYPE_INT, items = []\<rparr>" by (simp add: add_mset_commute)
  show ?thesis unfolding sample_ints_def
    by (rule array_view_null [OF view, of _ "{#VInt 5, VInt 7#}"]) simp_all
qed

lemma sample_ints_room: "room_for 2 sample_ints"
  unfolding sample_ints_def room_put_array
  by (simp add: room_for_def rc_of_def new_array_def bread_memory_alloc_def bread_memory_init_def get_obj_def)

lemma sample_ints_wf: "array_wf \<lparr>acapacity = 2, element_type = TYPE_INT, items = [VInt 5, VInt 7]\<rparr>"
  by (simp add: array_wf_def)

theorem array_append_correct_witness:
  "\<exists>m' y. bread_array_append (Some 0) (VInt 9) sample_ints = Done (True, m') \<and>
    array_view m' {#VArray (Some 0), VInt 9#} 0 y \<and> items y = [VInt 5, VInt 7, VInt 9]"
proof -
  have "room_for 1 sample_ints" by (rule room_for_le [OF sample_ints_room]) simp
  from array_append_correct [OF sample_ints_view sample_ints_wf _ this, of "VInt 9"]
  show ?thesis by (auto simp: type_fits_def)
qed

theorem array_set_safe_correct_witness:
  "\<exists>m'. bread_array_set_safe (Some 0) (- 1) (VInt 9) sample_ints = Done (True, m')"
proof -
  have "room_for 1 sample_ints" by (rule room_for_le [OF sample_ints_room]) simp
  from array_set_safe_correct [OF sample_ints_view _ _ this, of "VInt 9" "- 1"]
  show ?thesis by (auto simp: type_fits_def)
qed

theorem array_bounds_errors_witness:
  "\<exists>e. bread_array_get_safe (Some 0) (- 3) sample_ints = Aborted e \<and> err_type e = BREAD_ERROR_INDEX_OUT_OF_BOUNDS"
  using array_bounds_errors [OF array_viewD(3) [OF sample_ints_view], of "- 3" VNil] by auto

theorem array_insert_remove_witness:
  "\<exists>m1 m2. bread_array_insert (Some 0) (VInt 9) 1 sample_ints = Done (True, m1) \<and>
    bread_array_remove_at (Some 0) 1 m1 = Done (VInt 9, m2)"
  using array_insert_remove [OF sample_ints_view sample_ints_wf _ _ sample_ints_room, of "VInt 9" 1]
  by (auto simp: type_fits_def)

theorem array_search_correct_witness:
  "bread_array_contains (Some 0) (VFloat 0) sample_ints = Done False"
  using array_search_correct [OF array_viewD(3) [OF sample_ints_view], of "VFloat 0"] by auto

theorem range_correct_witness:
  "\<exists>a m' y. bread_range_create 10 0 (- 3) bread_memory_init = Some (Done (Some a, m')) \<and>
    array_view m' {#VArray (Some a)#} a y \<and> items y = [VInt 10, VInt 7, VInt 4, VInt 1]"
  using range_correct [OF heap_ok_init, of "- 3" 10 0]
  by (simp add: range_count_def upt_rec) blast

text \<open>A range whose counter wraps before it reaches its end starts over at the least int.\<close>

lemma range_wraps:
  "\<exists>m'. range_loop 0 (word_of_int (2 ^ 31 - 1)) 2 (word_of_int (2 ^ 31 - 2)) sample_ints =
    range_loop 0 (word_of_int (2 ^ 31 - 1)) 2 2147483648 m' \<and> sint (2147483648 :: 32 word) = - (2 ^ 31)"
proof -
  obtain m' where "bread_array_append (Some 0) (VInt 2147483646) sample_ints = Done (True, m')"
    using append_int [OF sample_ints_view, of 2147483646] by auto
  then show ?thesis by (intro exI [of _ m']) (subst range_loop.simps, simp add: Let_def)
qed

end
