(* ===== verification/BreadProbing.thy ===== *)
theory BreadProbing
  imports BreadPrelude
begin

text \<open>
  Linear probing: the search loop of \<^verbatim>\<open>bread_dict_find_slot\<close> as a function, and the laws of
  tables searched this way, for any hash and equality of keys that fit together (a locale).
  The dictionaries instantiate it with their own.
\<close>

section \<open>The search loop\<close>

fun probe :: "(nat \<Rightarrow> bool) \<Rightarrow> nat \<Rightarrow> nat \<Rightarrow> nat \<Rightarrow> nat option" where
  \<comment> \<open>the first of the slots \<open>i, i + 1, ...\<close> (modulo \<open>cap\<close>) the search stops at, of at most \<open>n\<close>\<close>
  "probe stop cap 0 i = None"
| "probe stop cap (Suc n) i = (if stop i then Some i else probe stop cap n ((i + 1) mod cap))"

lemma probe_Some:
  "probe stop cap n i = Some s \<Longrightarrow> i < cap \<Longrightarrow>
   \<exists>d < n. s = (i + d) mod cap \<and> stop s \<and> (\<forall>e < d. \<not> stop ((i + e) mod cap))"
proof (induction n arbitrary: i)
  case (Suc n)
  show ?case
  proof (cases "stop i")
    case True
    with Suc.prems show ?thesis by (intro exI [of _ 0]) simp
  next
    case False
    with Suc.prems have "probe stop cap n ((i + 1) mod cap) = Some s" "(i + 1) mod cap < cap" by simp_all
    from Suc.IH [OF this] obtain d where d: "d < n" "s = ((i + 1) mod cap + d) mod cap" "stop s"
      "\<forall>e < d. \<not> stop (((i + 1) mod cap + e) mod cap)" by blast
    have "\<not> stop ((i + e) mod cap)" if "e < Suc d" for e
      using d(4) False that Suc.prems(2) by (cases e) (auto simp: mod_simps)
    with d show ?thesis by (intro exI [of _ "Suc d"]) (simp add: mod_simps)
  qed
qed simp

lemma probe_first:
  "d < n \<Longrightarrow> i < cap \<Longrightarrow> stop ((i + d) mod cap) \<Longrightarrow> \<forall>e < d. \<not> stop ((i + e) mod cap) \<Longrightarrow>
   probe stop cap n i = Some ((i + d) mod cap)"
proof (induction n arbitrary: i d)
  case (Suc n)
  show ?case
  proof (cases d)
    case 0
    with Suc.prems show ?thesis by simp
  next
    case (Suc d')
    with Suc.prems have "\<not> stop i" by (metis add.right_neutral mod_less zero_less_Suc)
    moreover have "\<not> stop (((i + 1) mod cap + e) mod cap)" if "e < d'" for e
      using Suc.prems(4) [rule_format, of "Suc e"] Suc that by (simp add: mod_simps)
    moreover have "((i + 1) mod cap + d') mod cap = (i + d) mod cap" using Suc by (simp add: mod_simps)
    ultimately show ?thesis
      using Suc.IH [of d' "(i + 1) mod cap"] Suc.prems Suc by simp
  qed
qed simp

lemma probe_stop: "probe stop cap n i = Some s \<Longrightarrow> i < cap \<Longrightarrow> stop s \<and> s < cap"
  using probe_Some [of stop cap n i s] by (auto intro: mod_less_divisor)

lemma probe_None: "probe stop cap n i = None \<Longrightarrow> i < cap \<Longrightarrow> d < n \<Longrightarrow> \<not> stop ((i + d) mod cap)"
proof (induction n arbitrary: i d)
  case (Suc n)
  then have n: "\<not> stop i" "probe stop cap n ((i + 1) mod cap) = None" by (auto split: if_splits)
  show ?case
  proof (cases d)
    case 0
    with n Suc.prems show ?thesis by simp
  next
    case (Suc d')
    with Suc.IH [OF n(2), of d'] Suc.prems show ?thesis by (auto simp: mod_simps)
  qed
qed simp

text \<open>A search that goes once round the table meets every slot.\<close>

lemma slot_met:
  assumes "i < cap" "s < cap"
  shows "\<exists>d < cap. (i + d) mod cap = (s :: nat)"
proof (cases "i \<le> s")
  case True
  with assms show ?thesis by (intro exI [of _ "s - i"]) auto
next
  case False
  with assms show ?thesis by (intro exI [of _ "cap - i + s"]) (auto simp: not_le)
qed

lemma probe_None_all: "probe stop cap cap i = None \<Longrightarrow> i < cap \<Longrightarrow> s < cap \<Longrightarrow> \<not> stop s"
  using probe_None slot_met by metis

lemma probe_cong:
  assumes "\<And>s. s < cap \<Longrightarrow> stop s = stop' s" "i < cap"
  shows "probe stop cap n i = probe stop' cap n i"
  using assms(2)
proof (induction n arbitrary: i)
  case (Suc n)
  then have "(i + 1) mod cap < cap" by simp
  with Suc assms(1) show ?case by simp
qed simp

text \<open>Making the search stop at one more slot changes only the searches that met the slot.\<close>

lemma probe_more_stops:
  assumes "probe stop cap n i = Some s" "i < cap" "\<And>u. u < cap \<Longrightarrow> u \<noteq> f \<Longrightarrow> stop' u = stop u" "stop' f"
  shows "probe stop' cap n i \<in> {Some s, Some f}"
  using assms(1,2)
proof (induction n arbitrary: i)
  case (Suc n)
  then have "(i + 1) mod cap < cap" by simp
  with Suc assms(3,4) show ?case by (cases "i = f") (auto split: if_splits)
qed simp

section \<open>Tables\<close>

locale probing =
  fixes good :: "'k \<Rightarrow> bool" and eq :: "'k \<Rightarrow> 'k \<Rightarrow> bool" and hash :: "'k \<Rightarrow> nat"
  assumes eq_refl: "good k \<Longrightarrow> eq k k"
    and eq_sym: "good k \<Longrightarrow> good l \<Longrightarrow> eq k l \<Longrightarrow> eq l k"
    and eq_trans: "good k \<Longrightarrow> good l \<Longrightarrow> good q \<Longrightarrow> eq k l \<Longrightarrow> eq l q \<Longrightarrow> eq k q"
    and eq_hash: "good k \<Longrightarrow> good l \<Longrightarrow> eq k l \<Longrightarrow> hash k = hash l"
begin

text \<open>A table maps slots to stored keys; \<open>None\<close> is a slot the search stops at for any key.\<close>

definition stops :: "(nat \<Rightarrow> 'k option) \<Rightarrow> 'k \<Rightarrow> nat \<Rightarrow> bool" where
  "stops t k s = (case t s of None \<Rightarrow> True | Some l \<Rightarrow> eq l k)"

definition find_slot :: "(nat \<Rightarrow> 'k option) \<Rightarrow> nat \<Rightarrow> 'k \<Rightarrow> nat option" where
  "find_slot t n k = probe (stops t k) n n (hash k mod n)"

definition table_ok :: "(nat \<Rightarrow> 'k option) \<Rightarrow> nat \<Rightarrow> bool" where
  \<comment> \<open>every stored key is found in its own slot\<close>
  "table_ok t n \<longleftrightarrow> (\<forall>s < n. \<forall>k. t s = Some k \<longrightarrow> good k \<and> find_slot t n k = Some s)"

lemma find_slot_cong:
  assumes "good k" "good l" "eq k l" "\<And>s q. s < n \<Longrightarrow> t s = Some q \<Longrightarrow> good q" "0 < n"
  shows "find_slot t n k = find_slot t n l"
proof -
  have "stops t k s = stops t l s" if "s < n" for s
  proof (cases "t s")
    case (Some q)
    then have q: "good q" using assms(4) [OF that] by simp
    have "eq q k \<longleftrightarrow> eq q l"
      using eq_trans [OF q assms(1,2)] eq_trans [OF q assms(2,1)] eq_sym [OF assms(1,2)] assms(3) by blast
    with Some show ?thesis by (simp add: stops_def)
  qed (simp add: stops_def)
  moreover have "hash k = hash l" using eq_hash assms(1-3) by blast
  ultimately show ?thesis unfolding find_slot_def using assms(5) by (auto intro: probe_cong)
qed

lemma find_slot_stored:
  assumes "table_ok t n" "good k" "s < n" "t s = Some l" "eq l k"
  shows "find_slot t n k = Some s"
proof -
  have l: "good l" "find_slot t n l = Some s" using assms(1,3,4) by (auto simp: table_ok_def)
  have "find_slot t n l = find_slot t n k"
    by (rule find_slot_cong [OF l(1) assms(2,5)]) (use assms(1,3) in \<open>auto simp: table_ok_def\<close>)
  with l show ?thesis by simp
qed

lemma stored_unique:
  assumes "table_ok t n" "s < n" "u < n" "t s = Some k" "t u = Some l" "eq k l"
  shows "s = u"
proof -
  have "good l" "find_slot t n l = Some u" using assms(1,3,5) by (auto simp: table_ok_def)
  with find_slot_stored [OF assms(1) _ assms(2,4,6)] show ?thesis by simp
qed

lemma find_slot_Some:
  assumes "find_slot t n k = Some s" "0 < n"
  shows "s < n \<and> (case t s of None \<Rightarrow> True | Some l \<Rightarrow> eq l k)"
  using assms probe_stop [of "stops t k" n n "hash k mod n" s] by (simp add: find_slot_def stops_def)

lemma find_slot_free:
  assumes "table_ok t n" "good k" "0 < n" "find_slot t n k = Some s" "t s = None" "u < n" "t u = Some l"
  shows "\<not> eq l k"
  using find_slot_stored [OF assms(1,2,6,7)] assms(4,5,7) by auto

lemma find_slot_None:
  assumes "find_slot t n k = None" "0 < n" "s < n"
  shows "\<exists>l. t s = Some l \<and> \<not> eq l k"
  using probe_None_all [of "stops t k" n "hash k mod n" s] assms
  by (auto simp: find_slot_def stops_def split: option.splits)

text \<open>Storing a new key in the slot its search ends at keeps every key findable.\<close>

lemma table_ok_store:
  assumes ok: "table_ok t n" and k: "good k" and n: "0 < n"
    and s: "find_slot t n k = Some s" and free: "t s = None"
  shows "table_ok (t(s := Some k)) n"
proof -
  let ?t = "t(s := Some k)"
  have "find_slot ?t n k = Some s"
  proof -
    let ?i = "hash k mod n"
    obtain d where d: "d < n" "s = (?i + d) mod n" "\<forall>e < d. \<not> stops t k ((?i + e) mod n)"
      using probe_Some [of "stops t k" n n ?i s] s n by (auto simp: find_slot_def)
    have "\<not> stops ?t k ((?i + e) mod n)" if "e < d" for e
    proof -
      have "(?i + e) mod n \<noteq> s" using d(3) that free by (auto simp: stops_def)
      with d(3) that show ?thesis by (simp add: stops_def)
    qed
    moreover have "stops ?t k ((?i + d) mod n)" using eq_refl [OF k] d(2) by (simp add: stops_def)
    ultimately show ?thesis using probe_first [of d n ?i n "stops ?t k"] d n by (simp add: find_slot_def)
  qed
  moreover have "find_slot ?t n l = Some u" if u: "u < n" "t u = Some l" "u \<noteq> s" for u l
  proof -
    have l: "good l" "find_slot t n l = Some u" using ok u by (auto simp: table_ok_def)
    let ?i = "hash l mod n"
    obtain d where d: "d < n" "u = (?i + d) mod n" "stops t l u" "\<forall>e < d. \<not> stops t l ((?i + e) mod n)"
      using probe_Some [of "stops t l" n n ?i u] l(2) n by (auto simp: find_slot_def)
    have "\<not> stops ?t l ((?i + e) mod n)" if "e < d" for e
    proof -
      have "(?i + e) mod n \<noteq> s" using d(4) that free by (auto simp: stops_def)
      with d(4) that show ?thesis by (simp add: stops_def)
    qed
    moreover have "stops ?t l ((?i + d) mod n)" using d(2,3) u by (simp add: stops_def)
    ultimately show ?thesis using probe_first [of d n ?i n "stops ?t l"] d n by (simp add: find_slot_def)
  qed
  ultimately show ?thesis using ok k by (auto simp: table_ok_def)
qed

lemma table_ok_empty: "(\<And>s. s < n \<Longrightarrow> t s = None) \<Longrightarrow> table_ok t n"
  by (simp add: table_ok_def)

text \<open>What a table holds: the slot with a key, if any.\<close>

lemma find_slot_store:
  assumes ok: "table_ok t n" and k: "good k" and n: "0 < n" and s: "find_slot t n k = Some s"
    and free: "t s = None" and l: "good l" "u < n" "t u = Some q" "eq q l"
  shows "find_slot (t(s := Some k)) n l = Some u"
proof -
  have "u \<noteq> s" using free l(3) by auto
  with find_slot_stored [OF table_ok_store [OF ok k n s free] l(1,2)] l(3,4) show ?thesis by simp
qed

end

end
