(* ===== verification/BreadDicts.thy ===== *)
theory BreadDicts
  imports BreadArrays BreadProbing
begin

unbundle bit_operations_syntax

text \<open>
  Dictionaries: the operations of \<^verbatim>\<open>src/core/value_dict.c\<close>. There are two ways to use a
  dictionary, both modelled: the hashed one (\<^verbatim>\<open>get_safe\<close>, \<^verbatim>\<open>set_safe\<close>,
  \<^verbatim>\<open>contains_key\<close>, \<^verbatim>\<open>remove\<close>), which probes from the hash of the key, and the
  string-keyed one (\<^verbatim>\<open>bread_dict_set\<close>, \<^verbatim>\<open>bread_dict_get\<close>), which scans the slots in order.
  A pointer to a value is the number of its slot. The load factors are computed in
  \<^verbatim>\<open>double\<close>; on \<^verbatim>\<open>int\<close> counts the comparisons with \<open>0.75\<close> are exact and are written on integers.
  \<^verbatim>\<open>char\<close> is signed, as on the compilers the project targets.
\<close>

section \<open>Keys\<close>

definition int_mix :: "32 word \<Rightarrow> 32 word" where
  "int_mix x = (drop_bit 16 x XOR x) * 0x45d9f3b"

definition fnv1a :: "char list \<Rightarrow> 32 word" where
  "fnv1a s = fold (\<lambda>c h. (h XOR scast (of_char c :: 8 word)) * 16777619) s 2166136261"

fun bread_dict_hash_key :: "mem \<Rightarrow> val \<Rightarrow> 32 word" where
  "bread_dict_hash_key m (VInt v) = (let x = int_mix (int_mix (ucast v)) in drop_bit 16 x XOR x)"
| "bread_dict_hash_key m (VDouble d) = ucast d XOR ucast (drop_bit 32 d)"
| "bread_dict_hash_key m (VString r) = (case r of None \<Rightarrow> 0 | Some a \<Rightarrow> fnv1a (string_data m (Some a)))"
| "bread_dict_hash_key m (VBool b) = (if b then 1 else 0)"
| "bread_dict_hash_key m _ = 0"

definition slot_stops :: "mem \<Rightarrow> dentry list \<Rightarrow> val \<Rightarrow> nat \<Rightarrow> bool" where
  \<comment> \<open>where the search ends: an unused slot, a deleted one, or the key. The comparison of
    keys is the \<^verbatim>\<open>switch\<close> of \<^verbatim>\<open>bread_array_contains\<close>\<close>
  "slot_stops m es key s \<longleftrightarrow>
     \<not> is_occupied (es ! s) \<or> is_deleted (es ! s) \<or> element_matches m (dkey (es ! s)) key"

definition bread_dict_find_slot :: "mem \<Rightarrow> dentry list \<Rightarrow> val \<Rightarrow> nat option" where
  "bread_dict_find_slot m es key =
     (if es = [] then None
      else probe (slot_stops m es key) (length es) (length es) (unat (bread_dict_hash_key m key) mod length es))"

section \<open>Creating dictionaries\<close>

definition dict_at :: "mem \<Rightarrow> addr \<Rightarrow> bdict outcome" where
  "dict_at m a = (case get_obj m a of None \<Rightarrow> Undefined
     | Some ob \<Rightarrow> (case body ob of BDict d \<Rightarrow> Done d | _ \<Rightarrow> Undefined))"

definition put_dict :: "addr \<Rightarrow> bdict \<Rightarrow> mem \<Rightarrow> mem" where
  "put_dict a d m = set_body a (BDict d) m"

definition empty_entry :: dentry where
  \<comment> \<open>the zeroed memory of \<^verbatim>\<open>calloc\<close>\<close>
  "empty_entry = \<lparr>dkey = VString None, dvalue = VString None, is_occupied = False, is_deleted = False\<rparr>"

definition new_dict :: "nat \<Rightarrow> VarType \<Rightarrow> VarType \<Rightarrow> mem \<Rightarrow> addr \<times> mem" where
  "new_dict cap kt vt m = bread_memory_alloc
     (BDict \<lparr>dcount = 0, key_type = kt, value_type = vt, entries = replicate cap empty_entry\<rparr>) m"

definition bread_dict_new :: "mem \<Rightarrow> ref \<times> mem" where
  "bread_dict_new m = (let (a, m') = new_dict 0 TYPE_NIL TYPE_NIL m in (Some a, m'))"

definition bread_dict_new_with_capacity :: "nat \<Rightarrow> VarType \<Rightarrow> VarType \<Rightarrow> mem \<Rightarrow> ref \<times> mem" where
  "bread_dict_new_with_capacity cap kt vt m = (let (a, m') = new_dict cap kt vt m in (Some a, m'))"

definition bread_dict_new_typed :: "VarType \<Rightarrow> VarType \<Rightarrow> mem \<Rightarrow> ref \<times> mem" where
  "bread_dict_new_typed kt vt m = bread_dict_new_with_capacity 0 kt vt m"

fun dict_fill :: "addr \<Rightarrow> (val \<times> val) list \<Rightarrow> mem \<Rightarrow> mem outcome" where
  \<comment> \<open>the loop of \<^verbatim>\<open>bread_dict_from_literal\<close>: a slot that already holds the key is overwritten
    without releasing what it held, and counted again\<close>
  "dict_fill a [] m = Done m"
| "dict_fill a ((k, v) # kvs) m =
     bnd (dict_at m a) (\<lambda>d.
       (case bread_dict_find_slot m (entries d) k of
          None \<Rightarrow> dict_fill a kvs m
        | Some s \<Rightarrow>
            bnd (bread_value_clone k m) (\<lambda>(k', m1).
            bnd (bread_value_clone v m1) (\<lambda>(v', m2).
              dict_fill a kvs (put_dict a (d\<lparr>dcount := dcount d + 1, entries := (entries d)
                [s := \<lparr>dkey = k', dvalue = v', is_occupied = True, is_deleted = False\<rparr>]\<rparr>) m2)))))"

definition literal_capacity :: "nat \<Rightarrow> nat" where
  \<comment> \<open>\<^verbatim>\<open>(int)(count / 0.75) + 1\<close>, at least 8\<close>
  "literal_capacity n = max 8 (if n > 0 then (4 * n) div 3 + 1 else 8)"

definition bread_dict_from_literal :: "(val \<times> val) list option \<Rightarrow> mem \<Rightarrow> (ref \<times> mem) outcome" where
  "bread_dict_from_literal entries_arg m =
     (case entries_arg of None \<Rightarrow> Done (None, m)
      | Some kvs \<Rightarrow>
          let kt = (case kvs of kv # _ \<Rightarrow> vtype (fst kv) | [] \<Rightarrow> TYPE_NIL);
              vt = (case kvs of kv # _ \<Rightarrow> vtype (snd kv) | [] \<Rightarrow> TYPE_NIL);
              bad = (\<lambda>kv. vtype (fst kv) \<noteq> kt \<or> vtype (snd kv) \<noteq> vt) in
          (case filter bad (tl kvs) of
             kv # _ \<Rightarrow>
               bnd (raise_error BREAD_ERROR_TYPE_MISMATCH
                 (if vtype (fst kv) \<noteq> kt then ''Dictionary literal keys must have the same type''
                  else ''Dictionary literal values must have the same type'') m) (\<lambda>m1. Done (None, m1))
           | [] \<Rightarrow>
               let (a, m1) = new_dict (literal_capacity (length kvs)) kt vt m in
               bnd (dict_fill a kvs m1) (\<lambda>m2. Done (Some a, m2))))"

section \<open>The hashed operations\<close>

definition key_error :: "VarType \<Rightarrow> VarType \<Rightarrow> cstring" where
  "key_error t kt = snprintf_s 256 (''Type mismatch: cannot use key of type '' @ show_nat (vartype_code t) @
     '' in dictionary with key type '' @ show_nat (vartype_code kt))"

definition value_error :: "VarType \<Rightarrow> VarType \<Rightarrow> cstring" where
  "value_error t vt = snprintf_s 256 (''Type mismatch: cannot assign value of type '' @ show_nat (vartype_code t) @
     '' to dictionary with value type '' @ show_nat (vartype_code vt))"

definition live_slot :: "mem \<Rightarrow> bdict \<Rightarrow> val \<Rightarrow> nat option" where
  \<comment> \<open>\<^verbatim>\<open>slot >= 0 && is_occupied && !is_deleted\<close> at the end of the search\<close>
  "live_slot m d key = (case bread_dict_find_slot m (entries d) key of None \<Rightarrow> None
     | Some s \<Rightarrow> if live_entry (entries d ! s) then Some s else None)"

definition bread_dict_get_safe :: "ref \<Rightarrow> val \<Rightarrow> mem \<Rightarrow> (nat option \<times> mem) outcome" where
  "bread_dict_get_safe r key m =
     (case r of
        None \<Rightarrow> bnd (raise_error BREAD_ERROR_RUNTIME_ERROR ''Cannot access element of null dictionary'' m)
                 (\<lambda>m1. Done (None, m1))
      | Some a \<Rightarrow> bnd (dict_at m a) (\<lambda>d.
          if key_type d \<noteq> TYPE_NIL \<and> key_type d \<noteq> vtype key
          then bnd (raise_error BREAD_ERROR_TYPE_MISMATCH (key_error (vtype key) (key_type d)) m)
                 (\<lambda>m1. Done (None, m1))
          else if entries d = [] then Done (None, m)
          else Done (live_slot m d key, m)))"

definition bread_dict_get_with_default :: "ref \<Rightarrow> val \<Rightarrow> val \<Rightarrow> mem \<Rightarrow> (val \<times> mem) outcome" where
  "bread_dict_get_with_default r key default_val m =
     bnd (bread_dict_get_safe r key m) (\<lambda>(found, m1).
       (case found of None \<Rightarrow> bread_value_clone default_val m1
        | Some s \<Rightarrow> (case r of None \<Rightarrow> Undefined
            | Some a \<Rightarrow> bnd (dict_at m1 a) (\<lambda>d. bread_value_clone (dvalue (entries d ! s)) m1))))"

fun rehash :: "mem \<Rightarrow> dentry list \<Rightarrow> dentry list \<times> nat \<Rightarrow> dentry list \<times> nat" where
  "rehash m [] (es, n) = (es, n)"
| "rehash m (e # old) (es, n) =
     (if live_entry e
      then (case bread_dict_find_slot m es (dkey e) of
              Some s \<Rightarrow> rehash m old (es[s := e], n + 1) | None \<Rightarrow> rehash m old (es, n))
      else rehash m old (es, n))"

definition resized :: "mem \<Rightarrow> nat \<Rightarrow> bdict \<Rightarrow> bdict" where
  "resized m new_capacity d =
     (let (es, n) = rehash m (entries d) (replicate new_capacity empty_entry, 0)
      in d\<lparr>entries := es, dcount := n\<rparr>)"

definition bread_dict_resize :: "ref \<Rightarrow> int \<Rightarrow> mem \<Rightarrow> mem outcome" where
  "bread_dict_resize r new_capacity m =
     (case r of None \<Rightarrow> Done m
      | Some a \<Rightarrow> if new_capacity \<le> 0 then Done m
          else bnd (dict_at m a) (\<lambda>d. Done (put_dict a (resized m (nat new_capacity) d) m)))"

definition fix_types :: "VarType \<Rightarrow> VarType \<Rightarrow> bdict \<Rightarrow> bdict" where
  "fix_types kt vt d =
     (let d1 = (if key_type d = TYPE_NIL \<and> dcount d = 0 then d\<lparr>key_type := kt\<rparr> else d)
      in if value_type d1 = TYPE_NIL \<and> dcount d1 = 0 then d1\<lparr>value_type := vt\<rparr> else d1)"

definition set_slot :: "nat \<Rightarrow> dentry \<Rightarrow> bdict \<Rightarrow> bdict" where
  "set_slot s e d = d\<lparr>entries := (entries d)[s := e]\<rparr>"

definition overwrite_value :: "addr \<Rightarrow> nat \<Rightarrow> val \<Rightarrow> mem \<Rightarrow> mem outcome" where
  \<comment> \<open>\<^verbatim>\<open>bread_value_release(&entries[s].value); entries[s].value = bread_value_clone(v)\<close>\<close>
  "overwrite_value a s v m =
     bnd (dict_at m a) (\<lambda>d. let e = entries d ! s in
     bnd (bread_value_release (dvalue e) m) (\<lambda>m1.
     bnd (bread_value_clone v (put_dict a (set_slot s (e\<lparr>dvalue := VNil\<rparr>) d) m1)) (\<lambda>(w, m2).
       Done (put_dict a (set_slot s (e\<lparr>dvalue := w\<rparr>) d) m2))))"

definition grow_hashed :: "mem \<Rightarrow> bdict \<Rightarrow> bdict" where
  \<comment> \<open>\<^verbatim>\<open>capacity == 0 || (double)(count + 1) / capacity > 0.75\<close>; the capacity is an \<^verbatim>\<open>int\<close>
    in the code, whose overflow at \<open>2^30\<close> slots is not modelled\<close>
  "grow_hashed m d =
     (let cap = length (entries d) in
      if cap = 0 \<or> 4 * (dcount d + 1) > 3 * cap then resized m (if cap = 0 then 8 else cap * 2) d else d)"

definition bread_dict_set_safe :: "ref \<Rightarrow> val \<Rightarrow> val \<Rightarrow> mem \<Rightarrow> (bool \<times> mem) outcome" where
  "bread_dict_set_safe r key v m =
     (case r of
        None \<Rightarrow> bnd (raise_error BREAD_ERROR_RUNTIME_ERROR ''Cannot set element of null dictionary'' m)
                 (\<lambda>m1. Done (False, m1))
      | Some a \<Rightarrow> bnd (dict_at m a) (\<lambda>d.
          if key_type d \<noteq> TYPE_NIL \<and> key_type d \<noteq> vtype key
          then bnd (raise_error BREAD_ERROR_TYPE_MISMATCH (key_error (vtype key) (key_type d)) m)
                 (\<lambda>m1. Done (False, m1))
          else if value_type d \<noteq> TYPE_NIL \<and> value_type d \<noteq> vtype v
          then bnd (raise_error BREAD_ERROR_TYPE_MISMATCH (value_error (vtype v) (value_type d)) m)
                 (\<lambda>m1. Done (False, m1))
          else let d1 = grow_hashed m (fix_types (vtype key) (vtype v) d); m1 = put_dict a d1 m in
            (case bread_dict_find_slot m1 (entries d1) key of
               None \<Rightarrow> bnd (raise_error BREAD_ERROR_RUNTIME_ERROR
                        ''Dictionary is full and cannot be resized'' m1) (\<lambda>m2. Done (False, m2))
             | Some s \<Rightarrow>
                 if live_entry (entries d1 ! s)
                 then bnd (overwrite_value a s v m1) (\<lambda>m2. Done (True, m2))
                 else bnd (bread_value_clone key m1) (\<lambda>(k', m2).
                      bnd (bread_value_clone v m2) (\<lambda>(v', m3).
                        Done (True, put_dict a ((set_slot s \<lparr>dkey = k', dvalue = v', is_occupied = True,
                           is_deleted = False\<rparr> d1)\<lparr>dcount := dcount d1 + 1\<rparr>) m3))))))"

definition bread_dict_count :: "ref \<Rightarrow> mem \<Rightarrow> nat outcome" where
  "bread_dict_count r m = (case r of None \<Rightarrow> Done 0 | Some a \<Rightarrow> bnd (dict_at m a) (\<lambda>d. Done (dcount d)))"

definition bread_dict_contains_key :: "ref \<Rightarrow> val \<Rightarrow> mem \<Rightarrow> bool outcome" where
  "bread_dict_contains_key r key m =
     (case r of None \<Rightarrow> Done False
      | Some a \<Rightarrow> bnd (dict_at m a) (\<lambda>d.
          if key_type d \<noteq> TYPE_NIL \<and> key_type d \<noteq> vtype key then Done False
          else if entries d = [] then Done False
          else Done (live_slot m d key \<noteq> None)))"

definition bread_dict_remove :: "ref \<Rightarrow> val \<Rightarrow> mem \<Rightarrow> (val \<times> mem) outcome" where
  \<comment> \<open>the slot stays occupied and is marked deleted\<close>
  "bread_dict_remove r key m =
     (case r of
        None \<Rightarrow> bnd (raise_error BREAD_ERROR_RUNTIME_ERROR ''Cannot remove from null dictionary'' m)
                 (\<lambda>m1. Done (VNil, m1))
      | Some a \<Rightarrow> bnd (dict_at m a) (\<lambda>d.
          if key_type d \<noteq> TYPE_NIL \<and> key_type d \<noteq> vtype key
          then bnd (raise_error BREAD_ERROR_TYPE_MISMATCH (key_error (vtype key) (key_type d)) m)
                 (\<lambda>m1. Done (VNil, m1))
          else if entries d = [] then Done (VNil, m)
          else (case live_slot m d key of None \<Rightarrow> Done (VNil, m)
            | Some s \<Rightarrow> let e = entries d ! s in
                bnd (bread_value_clone (dvalue e) m) (\<lambda>(removed, m1).
                bnd (bread_value_release (dkey e) m1) (\<lambda>m2.
                bnd (bread_value_release (dvalue e) (put_dict a (set_slot s (e\<lparr>dkey := VNil\<rparr>) d) m2)) (\<lambda>m3.
                  Done (removed, put_dict a ((set_slot s \<lparr>dkey = VNil, dvalue = VNil, is_occupied = True,
                     is_deleted = True\<rparr> d)\<lparr>dcount := dcount d - 1\<rparr>) m3)))))))"

fun array_append_all :: "addr \<Rightarrow> val list \<Rightarrow> mem \<Rightarrow> (bool \<times> mem) outcome" where
  "array_append_all a [] m = Done (True, m)"
| "array_append_all a (v # vs) m =
     bnd (bread_array_append (Some a) v m) (\<lambda>(done_ok, m1).
       if done_ok then array_append_all a vs m1 else Done (False, m1))"

definition listed :: "VarType \<Rightarrow> val list \<Rightarrow> mem \<Rightarrow> (ref \<times> mem) outcome" where
  "listed t vs m =
     (let (a, m1) = new_array 0 t m in
      bnd (array_append_all a vs m1) (\<lambda>(done_ok, m2).
        if done_ok then Done (Some a, m2)
        else bnd (bread_array_release (Some a) m2) (\<lambda>m3. Done (None, m3))))"

definition bread_dict_keys :: "ref \<Rightarrow> mem \<Rightarrow> (ref \<times> mem) outcome" where
  "bread_dict_keys r m =
     (case r of None \<Rightarrow> Done (None, m)
      | Some a \<Rightarrow> bnd (dict_at m a) (\<lambda>d. listed (key_type d) (map dkey (filter live_entry (entries d))) m))"

definition bread_dict_values :: "ref \<Rightarrow> mem \<Rightarrow> (ref \<times> mem) outcome" where
  "bread_dict_values r m =
     (case r of None \<Rightarrow> Done (None, m)
      | Some a \<Rightarrow> bnd (dict_at m a) (\<lambda>d. listed (value_type d) (map dvalue (filter live_entry (entries d))) m))"

fun clear_slots :: "addr \<Rightarrow> nat list \<Rightarrow> mem \<Rightarrow> mem outcome" where
  "clear_slots a [] m = Done m"
| "clear_slots a (s # ss) m =
     bnd (dict_at m a) (\<lambda>d. let e = entries d ! s in
     if live_entry e
     then bnd (bread_value_release (dkey e) m) (\<lambda>m1.
          bnd (bread_value_release (dvalue e) (put_dict a (set_slot s (e\<lparr>dkey := VNil\<rparr>) d) m1)) (\<lambda>m2.
            clear_slots a ss (put_dict a (set_slot s \<lparr>dkey = VNil, dvalue = VNil, is_occupied = False,
              is_deleted = False\<rparr> d) m2)))
     else clear_slots a ss (put_dict a (set_slot s (e\<lparr>is_occupied := False, is_deleted := False\<rparr>) d) m))"

definition bread_dict_clear :: "ref \<Rightarrow> mem \<Rightarrow> mem outcome" where
  "bread_dict_clear r m =
     (case r of None \<Rightarrow> Done m
      | Some a \<Rightarrow> bnd (dict_at m a) (\<lambda>d.
          bnd (clear_slots a [0..<length (entries d)] m) (\<lambda>m1.
          bnd (dict_at m1 a) (\<lambda>d1. Done (put_dict a (d1\<lparr>dcount := 0\<rparr>) m1)))))"

section \<open>The string-keyed operations\<close>

definition bread_string_equals :: "mem \<Rightarrow> ref \<Rightarrow> cstring \<Rightarrow> bool" where
  "bread_string_equals m bs str = (bs \<noteq> None \<and> strcmp (bread_string_cstr m bs) str = 0)"

fun first_slot :: "(dentry \<Rightarrow> bool) \<Rightarrow> dentry list \<Rightarrow> nat option" where
  "first_slot P [] = None"
| "first_slot P (e # es) = (if P e then Some 0 else map_option Suc (first_slot P es))"

definition key_entry :: "mem \<Rightarrow> cstring \<Rightarrow> dentry \<Rightarrow> bool" where
  "key_entry m key e = (live_entry e \<and> (case dkey e of VString r \<Rightarrow> bread_string_equals m r key | _ \<Rightarrow> False))"

fun repack :: "dentry list \<Rightarrow> dentry list \<times> nat \<Rightarrow> dentry list \<times> nat" where
  \<comment> \<open>each live entry moves to the first slot of the new table that is not occupied\<close>
  "repack [] (es, n) = (es, n)"
| "repack (e # old) (es, n) =
     (if live_entry e
      then (case first_slot (\<lambda>x. \<not> is_occupied x) es of
              Some s \<Rightarrow> repack old (es[s := e], n + 1) | None \<Rightarrow> repack old (es, n))
      else repack old (es, n))"

definition grow_scanned :: "bdict \<Rightarrow> bdict" where
  \<comment> \<open>\<^verbatim>\<open>count >= capacity * 0.75\<close>\<close>
  "grow_scanned d =
     (let cap = length (entries d) in
      if 4 * dcount d \<ge> 3 * cap
      then (let (es, n) = repack (entries d) (replicate (if cap = 0 then 8 else cap * 2) empty_entry, 0)
            in d\<lparr>entries := es, dcount := n\<rparr>)
      else d)"

definition bread_dict_set :: "ref \<Rightarrow> cstring \<Rightarrow> val \<Rightarrow> mem \<Rightarrow> (bool \<times> mem) outcome" where
  "bread_dict_set r key v m0 =
     (case r of None \<Rightarrow> Done (False, m0)
      | Some a \<Rightarrow>
          let (ks, m) = bread_string_new key m0 in
          bnd (dict_at m a) (\<lambda>d.
          if key_type d \<noteq> TYPE_NIL \<and> key_type d \<noteq> TYPE_STRING \<or>
             value_type d \<noteq> TYPE_NIL \<and> value_type d \<noteq> vtype v
          then bnd (bread_string_release ks m) (\<lambda>m1. Done (False, m1))
          else let d1 = fix_types TYPE_STRING (vtype v) d in
            (case first_slot (key_entry m key) (entries d1) of
               Some s \<Rightarrow> bnd (overwrite_value a s v (put_dict a d1 m)) (\<lambda>m1.
                          bnd (bread_string_release ks m1) (\<lambda>m2. Done (True, m2)))
             | None \<Rightarrow>
                 let d2 = grow_scanned d1; m2 = put_dict a d2 m in
                 (case first_slot (\<lambda>e. \<not> is_occupied e \<or> is_deleted e) (entries d2) of
                    Some s \<Rightarrow> bnd (bread_value_clone v m2) (\<lambda>(w, m3).
                        Done (True, put_dict a ((set_slot s \<lparr>dkey = VString ks, dvalue = w, is_occupied = True,
                           is_deleted = False\<rparr> d2)\<lparr>dcount := dcount d2 + 1\<rparr>) m3))
                  | None \<Rightarrow> bnd (bread_string_release ks m2) (\<lambda>m3. Done (False, m3))))))"

definition bread_dict_get :: "ref \<Rightarrow> cstring \<Rightarrow> mem \<Rightarrow> nat option outcome" where
  "bread_dict_get r key m =
     (case r of None \<Rightarrow> Done None
      | Some a \<Rightarrow> bnd (dict_at m a) (\<lambda>d. Done (first_slot (key_entry m key) (entries d))))"

end
