(* ===== verification/BreadDictTables.thy ===== *)
theory BreadDictTables
  imports BreadDicts
begin

text \<open>
  The tables of dictionaries: the keys that can be looked up, the interpretation of the laws of
  linear probing on the hash and the comparison of keys, and what resizing does to a table.
\<close>

section \<open>Keys that can be looked up\<close>

text \<open>
  A good key equals itself and hashes like its equals: ints, bools, nil, doubles other than NaN
  and minus zero, and strings without NUL bytes.
\<close>

fun good_key :: "mem \<Rightarrow> val \<Rightarrow> bool" where
  "good_key m (VInt _) = True" | "good_key m (VBool _) = True" | "good_key m VNil = True"
| "good_key m (VDouble d) = (\<not> f64_nan d \<and> d \<noteq> 0x8000000000000000)"
| "good_key m (VString r) = (r \<noteq> None \<and> NUL \<notin> set (string_data m r))"
| "good_key m _ = False"

lemma element_matches_type: "element_matches m k l \<Longrightarrow> vtype k = vtype l"
  by (cases k; cases l) simp_all

lemma good_match_string:
  "good_key m (VString r) \<Longrightarrow> good_key m (VString s) \<Longrightarrow>
   element_matches m (VString r) (VString s) \<longleftrightarrow> string_data m r = string_data m s"
  by (simp add: bread_string_cstr_def cstr_no_nul strcmp_eq)

lemma good_match_double:
  "good_key m (VDouble x) \<Longrightarrow> good_key m (VDouble y) \<Longrightarrow> element_matches m (VDouble x) (VDouble y) \<longleftrightarrow> x = y"
  using f64_eq_same f64_eq_refl by auto

interpretation keys: probing "good_key m" "element_matches m" "\<lambda>k. unat (bread_dict_hash_key m k)" for m
proof
  show "element_matches m k k" if "good_key m k" for k
    using that by (cases k) (auto simp: f64_eq_refl strcmp_eq)
  show "element_matches m l k" if "good_key m k" "good_key m l" "element_matches m k l" for k l
    using that(3) by (elim element_matches.elims(2)) (auto simp: strcmp_eq f64_eq_sym)
  show "element_matches m k q"
    if "good_key m k" "good_key m l" "good_key m q" "element_matches m k l" "element_matches m l q" for k l q
    using that(4,5) by (elim element_matches.elims(2)) (auto simp: strcmp_eq dest: f64_eq_trans)
  show "unat (bread_dict_hash_key m k) = unat (bread_dict_hash_key m l)"
    if "good_key m k" "good_key m l" "element_matches m k l" for k l
    using that(3)
  proof (rule element_matches.elims(2))
    fix r s assume kl: "k = VString r" "l = VString s"
    then have "string_data m r = string_data m s" using that good_match_string by blast
    with kl that show ?thesis by auto
  next
    fix x y assume kl: "k = VDouble x" "l = VDouble y"
    then have "x = y" using that good_match_double by blast
    with kl show ?thesis by simp
  qed simp_all
qed

section \<open>Well-formed dictionaries\<close>

definition key_table :: "dentry list \<Rightarrow> nat \<Rightarrow> val option" where
  "key_table es s = (if s < length es \<and> live_entry (es ! s) then Some (dkey (es ! s)) else None)"

lemma slot_stops_table: "s < length es \<Longrightarrow> slot_stops m es k s = keys.stops m (key_table es) k s"
  by (auto simp: slot_stops_def keys.stops_def key_table_def live_entry_def)

lemma find_slot_table:
  "es \<noteq> [] \<Longrightarrow> bread_dict_find_slot m es k = keys.find_slot m (key_table es) (length es) k"
  unfolding bread_dict_find_slot_def keys.find_slot_def
  by (simp add: slot_stops_table cong: probe_cong)

definition hashed_ok :: "mem \<Rightarrow> dentry list \<Rightarrow> bool" where
  "hashed_ok m es = keys.table_ok m (key_table es) (length es)"

definition dict_ok :: "mem \<Rightarrow> bdict \<Rightarrow> bool" where
  \<comment> \<open>every key is found where it is stored, the count is exact, and a quarter of the slots is free\<close>
  "dict_ok m d \<longleftrightarrow> hashed_ok m (entries d) \<and> dcount d = length (filter live_entry (entries d)) \<and>
     4 * dcount d \<le> 3 * length (entries d)"

lemma key_table_update:
  "s < length es \<Longrightarrow> live_entry e \<Longrightarrow> key_table (es[s := e]) = (key_table es)(s := Some (dkey e))"
  by (auto simp: key_table_def fun_eq_iff nth_list_update)

lemma mset_live_update:
  "s < length es \<Longrightarrow> \<not> live_entry (es ! s) \<Longrightarrow> live_entry e \<Longrightarrow>
   mset (filter live_entry (es[s := e])) = add_mset e (mset (filter live_entry es))"
proof (induction es arbitrary: s)
  case (Cons x es)
  then show ?case by (cases s) auto
qed simp

lemma free_slot_exists:
  assumes "length (filter live_entry es) < length es"
  shows "\<exists>s < length es. \<not> live_entry (es ! s)"
  using assms length_filter_less by (metis filter_True in_set_conv_nth less_not_refl)

lemma hashed_store:
  assumes ok: "hashed_ok m es" and k: "good_key m (dkey e)" and e: "live_entry e"
    and room: "length (filter live_entry es) < length es"
    and new: "\<forall>x \<in> set es. live_entry x \<longrightarrow> \<not> element_matches m (dkey x) (dkey e)"
  shows "\<exists>s. bread_dict_find_slot m es (dkey e) = Some s \<and> s < length es \<and> \<not> live_entry (es ! s) \<and>
    hashed_ok m (es[s := e]) \<and>
    mset (filter live_entry (es[s := e])) = add_mset e (mset (filter live_entry es))"
proof -
  let ?t = "key_table es" and ?n = "length es"
  have n: "0 < ?n" "es \<noteq> []" using room by auto
  obtain u where u: "u < ?n" "\<not> live_entry (es ! u)" using free_slot_exists [OF room] by blast
  have "keys.find_slot m ?t ?n (dkey e) \<noteq> None"
    using keys.find_slot_None [of m ?t ?n "dkey e" u] n u by (auto simp: key_table_def)
  then obtain s where s: "keys.find_slot m ?t ?n (dkey e) = Some s" by auto
  from keys.find_slot_Some [OF this n(1)] have sn: "s < ?n"
    and st: "case ?t s of None \<Rightarrow> True | Some l \<Rightarrow> element_matches m l (dkey e)" by auto
  have free: "\<not> live_entry (es ! s)"
    using st new sn by (auto simp: key_table_def)
  have "keys.table_ok m (?t(s := Some (dkey e))) ?n"
    by (rule keys.table_ok_store [OF _ k n(1) s]) (use ok free in \<open>auto simp: hashed_ok_def key_table_def\<close>)
  then have "hashed_ok m (es[s := e])"
    using sn e by (simp add: hashed_ok_def key_table_update)
  with s sn free n mset_live_update [OF sn free e] show ?thesis
    by (auto simp: find_slot_table simp del: mset_filter)
qed

subsection \<open>Resizing\<close>

definition keys_apart :: "mem \<Rightarrow> dentry list \<Rightarrow> bool" where
  "keys_apart m es = sorted_wrt (\<lambda>x y. \<not> element_matches m (dkey x) (dkey y)) (filter live_entry es)"

lemma hashed_key:
  assumes "hashed_ok m es" "x \<in> set es" "live_entry x"
  shows "good_key m (dkey x)"
proof -
  obtain i where "i < length es" "es ! i = x" using assms(2) by (auto simp: in_set_conv_nth)
  with assms(1,3) show ?thesis by (auto simp: hashed_ok_def keys.table_ok_def key_table_def)
qed

lemma hashed_keys_apart:
  assumes "hashed_ok m es"
  shows "keys_apart m es"
proof -
  have "\<not> element_matches m (dkey (es ! i)) (dkey (es ! j))"
    if "i < j" "j < length es" "live_entry (es ! i)" "live_entry (es ! j)" for i j
  proof
    assume "element_matches m (dkey (es ! i)) (dkey (es ! j))"
    then have "i = j"
      using keys.stored_unique [of m "key_table es" "length es" i j] assms that
      by (auto simp: hashed_ok_def key_table_def)
    with that show False by simp
  qed
  then have "sorted_wrt (\<lambda>x y. live_entry x \<longrightarrow> live_entry y \<longrightarrow> \<not> element_matches m (dkey x) (dkey y)) es"
    by (simp add: sorted_wrt_iff_nth_less)
  then have "sorted_wrt (\<lambda>x y. live_entry x \<longrightarrow> live_entry y \<longrightarrow> \<not> element_matches m (dkey x) (dkey y))
     (filter live_entry es)" by (rule sorted_wrt_filter)
  then show ?thesis unfolding keys_apart_def
    by (rule sorted_wrt_mono_rel [rotated]) auto
qed

lemma rehash_ok:
  assumes "hashed_ok m es" "n = length (filter live_entry es)"
    and "length (filter live_entry es) + length (filter live_entry old) < length es"
    and "\<forall>x \<in> set old. live_entry x \<longrightarrow> good_key m (dkey x)"
    and "keys_apart m old"
    and "\<forall>x \<in> set es. \<forall>y \<in> set old. live_entry x \<longrightarrow> live_entry y \<longrightarrow> \<not> element_matches m (dkey x) (dkey y)"
  shows "\<exists>es'. rehash m old (es, n) = (es', n + length (filter live_entry old)) \<and> length es' = length es \<and>
    hashed_ok m es' \<and>
    mset (filter live_entry es') = mset (filter live_entry es) + mset (filter live_entry old)"
  using assms
proof (induction old arbitrary: es n)
  case (Cons e old)
  show ?case
  proof (cases "live_entry e")
    case False
    with Cons.IH [of es n] Cons.prems show ?thesis by (auto simp: keys_apart_def)
  next
    case True
    have good: "good_key m (dkey e)" using Cons.prems(4) True by simp
    have room: "length (filter live_entry es) < length es" using Cons.prems(3) by simp
    have new: "\<forall>x \<in> set es. live_entry x \<longrightarrow> \<not> element_matches m (dkey x) (dkey e)"
      using Cons.prems(6) True by simp
    obtain s where s: "bread_dict_find_slot m es (dkey e) = Some s" "s < length es" "\<not> live_entry (es ! s)"
        "hashed_ok m (es[s := e])"
        "mset (filter live_entry (es[s := e])) = add_mset e (mset (filter live_entry es))"
      using hashed_store [OF Cons.prems(1) good True room new] by blast
    have len: "length (filter live_entry (es[s := e])) = Suc (length (filter live_entry es))"
      using arg_cong [OF s(5), of size] by (simp del: mset_filter)
    have apart: "\<forall>y \<in> set old. live_entry y \<longrightarrow> \<not> element_matches m (dkey e) (dkey y)" "keys_apart m old"
      using Cons.prems(5) True by (auto simp: keys_apart_def)
    have p6: "\<forall>x \<in> set (es[s := e]). \<forall>y \<in> set old. live_entry x \<longrightarrow> live_entry y \<longrightarrow>
        \<not> element_matches m (dkey x) (dkey y)"
      using Cons.prems(6) apart(1) set_update_subset_insert [of es s e] by auto
    have p2: "n + 1 = length (filter live_entry (es[s := e]))" using Cons.prems(2) len by simp
    have p3: "length (filter live_entry (es[s := e])) + length (filter live_entry old) < length (es[s := e])"
      using Cons.prems(3) len True by simp
    have p4: "\<forall>x \<in> set old. live_entry x \<longrightarrow> good_key m (dkey x)" using Cons.prems(4) by simp
    from Cons.IH [OF s(4) p2 p3 p4 apart(2) p6]
    obtain es' where "rehash m old (es[s := e], n + 1) = (es', n + 1 + length (filter live_entry old))"
        "length es' = length es" "hashed_ok m es'"
        "mset (filter live_entry es') = mset (filter live_entry (es[s := e])) + mset (filter live_entry old)"
      by (auto simp del: mset_filter)
    with s True show ?thesis by (simp del: mset_filter)
  qed
qed simp

lemma live_replicate_empty [simp]: "filter live_entry (replicate n empty_entry) = []"
  by (induction n) (simp_all add: live_entry_def empty_entry_def)

lemma hashed_empty: "hashed_ok m (replicate n empty_entry)"
  unfolding hashed_ok_def
  by (rule keys.table_ok_empty) (simp add: key_table_def live_entry_def empty_entry_def)

lemma resized_ok:
  assumes "hashed_ok m (entries d)" "length (filter live_entry (entries d)) < n"
  shows "hashed_ok m (entries (resized m n d)) \<and> length (entries (resized m n d)) = n \<and>
    dcount (resized m n d) = length (filter live_entry (entries d)) \<and>
    mset (filter live_entry (entries (resized m n d))) = mset (filter live_entry (entries d)) \<and>
    key_type (resized m n d) = key_type d \<and> value_type (resized m n d) = value_type d"
proof -
  obtain es' where es': "rehash m (entries d) (replicate n empty_entry, 0)
        = (es', 0 + length (filter live_entry (entries d)))"
      "length es' = n" "hashed_ok m es'"
      "mset (filter live_entry es') = mset (filter live_entry (entries d))"
    using rehash_ok [OF hashed_empty, of 0 n "entries d" m] assms hashed_key [OF assms(1)]
      hashed_keys_apart [OF assms(1)]
    by (auto simp: live_entry_def empty_entry_def simp del: mset_filter)
  then show ?thesis by (simp add: resized_def del: mset_filter)
qed

lemma live_update_same:
  assumes "s < length es" "live_entry (es ! s)" "live_entry e" "dkey e = dkey (es ! s)"
  shows "key_table (es[s := e]) = key_table es"
    "length (filter live_entry (es[s := e])) = length (filter live_entry es)"
proof -
  show "key_table (es[s := e]) = key_table es"
    using assms by (auto simp: key_table_def fun_eq_iff nth_list_update)
  show "length (filter live_entry (es[s := e])) = length (filter live_entry es)"
    using assms(1-3)
  proof (induction es arbitrary: s)
    case (Cons x es)
    then show ?case by (cases s) auto
  qed simp
qed

lemma grow_hashed_ok:
  assumes "dict_ok m d"
  shows "hashed_ok m (entries (grow_hashed m d)) \<and>
    dcount (grow_hashed m d) = dcount d \<and>
    mset (filter live_entry (entries (grow_hashed m d))) = mset (filter live_entry (entries d)) \<and>
    4 * (dcount d + 1) \<le> 3 * length (entries (grow_hashed m d)) \<and>
    key_type (grow_hashed m d) = key_type d \<and> value_type (grow_hashed m d) = value_type d"
proof -
  let ?cap = "length (entries d)" and ?n = "if entries d = [] then 8 else length (entries d) * 2"
  have d: "hashed_ok m (entries d)" "dcount d = length (filter live_entry (entries d))" "4 * dcount d \<le> 3 * ?cap"
    using assms by (auto simp: dict_ok_def)
  show ?thesis
  proof (cases "entries d = [] \<or> 4 * (dcount d + 1) > 3 * ?cap")
    case True
    have c: "dcount d < ?n" "4 * (dcount d + 1) \<le> 3 * ?n" using d(3) by (cases "entries d"; simp; presburger)+
    have "grow_hashed m d = resized m ?n d" using True by (auto simp: grow_hashed_def Let_def)
    with resized_ok [OF d(1), of ?n] c d(2) show ?thesis by (simp del: mset_filter split del: if_split)
  next
    case False
    then have "grow_hashed m d = d" by (auto simp: grow_hashed_def Let_def)
    with False d show ?thesis by simp
  qed
qed

end
