(* ===== verification/BreadDictLaws.thy ===== *)
theory BreadDictLaws
  imports BreadDictTables
begin

text \<open>
  What the hashed dictionary operations promise: the heap keeps its discipline and the dictionary
  behaves as a map, with one exception the model makes visible, the slots of removed keys.
\<close>

section \<open>Dictionaries in the heap\<close>

definition dict_view :: "mem \<Rightarrow> val multiset \<Rightarrow> addr \<Rightarrow> bdict \<Rightarrow> bool" where
  "dict_view m R a d \<longleftrightarrow> heap_ok m R \<and> VDict (Some a) \<in># R \<and>
     (\<exists>ob. get_obj m a = Some ob \<and> body ob = BDict d)"

lemma dict_viewD [dest]:
  assumes "dict_view m R a d"
  shows "heap_ok m R" "VDict (Some a) \<in># R" "dict_at m a = Done d"
  using assms by (auto simp: dict_view_def dict_at_def)

lemma dict_view_obj:
  assumes "dict_view m R a d"
  obtains ob where "get_obj m a = Some ob" "body ob = BDict d" "heap_ok m R" "VDict (Some a) \<in># R"
  using assms by (auto simp: dict_view_def)

lemma get_put_dict:
  "get_obj m a = Some ob \<Longrightarrow> get_obj (put_dict a d m) a = Some (ob\<lparr>body := BDict d\<rparr>)"
  by (simp add: put_dict_def set_body_get)

lemma room_put_dict [simp]: "room_for n (put_dict a d m) = room_for n m"
  by (simp add: put_dict_def)

definition entry_vals :: "dentry \<Rightarrow> val multiset" where
  "entry_vals e = (if live_entry e then {#dkey e, dvalue e#} else {#})"

definition dict_vals :: "dentry list \<Rightarrow> val multiset" where
  "dict_vals es = sum_list (map entry_vals es)"

lemma children_dict: "mset (children (BDict d)) = dict_vals (entries d)"
proof -
  have "mset (concat (map (\<lambda>e. [dkey e, dvalue e]) (filter live_entry es))) = dict_vals es" for es
    by (induction es) (simp_all add: dict_vals_def entry_vals_def)
  then show ?thesis by simp
qed

lemma dict_vals_mset: "dict_vals es = (\<Sum>e\<in>#mset (filter live_entry es). {#dkey e, dvalue e#})"
  by (induction es) (simp_all add: dict_vals_def entry_vals_def)

lemma dict_vals_update:
  "s < length es \<Longrightarrow> dict_vals (es[s := e]) + entry_vals (es ! s) = dict_vals es + entry_vals e"
  using sum_list_nth_update [of s "map entry_vals es" "entry_vals e"] by (simp add: dict_vals_def map_update)

lemma dict_view_put:
  assumes "dict_view m R a d" and "dict_vals (entries d') = dict_vals (entries d)"
  shows "dict_view (put_dict a d' m) R a d'"
proof -
  obtain ob where ob: "get_obj m a = Some ob" "body ob = BDict d" "heap_ok m R" "VDict (Some a) \<in># R"
    using dict_view_obj [OF assms(1)] .
  have "heap_ok (put_dict a d' m) R"
    unfolding put_dict_def
    by (rule set_body_exchange [OF ob(3,1)]) (use ob(2) assms(2) in \<open>simp_all add: children_dict del: children.simps\<close>)
  with ob show ?thesis by (simp add: dict_view_def get_put_dict)
qed

subsection \<open>Keys through changes of the heap\<close>

definition strings_kept :: "mem \<Rightarrow> mem \<Rightarrow> bool" where
  "strings_kept m m' \<longleftrightarrow> (\<forall>b. get_obj m' b \<noteq> None \<longrightarrow>
     get_obj m b \<noteq> None \<and> string_data m' (Some b) = string_data m (Some b))"

lemma strings_kept_refl: "strings_kept m m"
  by (simp add: strings_kept_def)

lemma strings_kept_trans: "strings_kept m m' \<Longrightarrow> strings_kept m' m'' \<Longrightarrow> strings_kept m m''"
  unfolding strings_kept_def by metis

lemma survives_kept:
  assumes "survives m m'"
  shows "strings_kept m m'"
  unfolding strings_kept_def
proof (intro allI impI)
  fix b assume "get_obj m' b \<noteq> None"
  then obtain ob ob' where ob: "get_obj m' b = Some ob'" "get_obj m b = Some ob" "body ob = body ob'"
    using assms unfolding survives_def by blast
  then show "get_obj m b \<noteq> None \<and> string_data m' (Some b) = string_data m (Some b)"
    by (simp add: string_data_def)
qed

lemma put_dict_string_data:
  assumes "get_obj m a = Some ob" "body ob = BDict d"
  shows "string_data (put_dict a d' m) r = string_data m r"
proof (cases r)
  case (Some b)
  then show ?thesis
    using assms by (cases "b = a") (simp_all add: string_data_def put_dict_def set_body_get)
qed (simp add: string_data_def)

lemma put_dict_live: "get_obj (put_dict a d' m) b \<noteq> None \<longleftrightarrow> get_obj m b \<noteq> None"
  by (cases "get_obj m a") (auto simp: put_dict_def set_body_get, auto simp: set_body_def)

lemma put_dict_kept:
  "get_obj m a = Some ob \<Longrightarrow> body ob = BDict d \<Longrightarrow> strings_kept m (put_dict a d' m) \<and> strings_kept (put_dict a d' m) m"
  using put_dict_string_data put_dict_live unfolding strings_kept_def by metis

definition same_key :: "mem \<Rightarrow> mem \<Rightarrow> val \<Rightarrow> bool" where
  "same_key m m' k \<longleftrightarrow> (\<forall>r. k = VString r \<longrightarrow> string_data m' r = string_data m r)"

lemma kept_same_key:
  assumes "strings_kept m m'" "\<And>b. ref_of k = Some b \<Longrightarrow> get_obj m' b \<noteq> None"
  shows "same_key m m' k"
  unfolding same_key_def
proof (intro allI impI)
  fix r assume "k = VString r"
  with assms show "string_data m' r = string_data m r"
    by (cases r) (auto simp: strings_kept_def string_data_def)
qed

lemma same_key_matches: "same_key m m' k \<Longrightarrow> same_key m m' l \<Longrightarrow> element_matches m' k l = element_matches m k l"
  by (cases k; cases l) (simp_all add: same_key_def bread_string_cstr_def)

lemma same_key_hash: "same_key m m' k \<Longrightarrow> bread_dict_hash_key m' k = bread_dict_hash_key m k"
  by (cases k) (auto simp: same_key_def split: option.split)

lemma same_key_good: "same_key m m' k \<Longrightarrow> good_key m' k = good_key m k"
  by (cases k) (simp_all add: same_key_def)

lemma find_slot_same:
  assumes "\<And>x. x \<in> set es \<Longrightarrow> live_entry x \<Longrightarrow> same_key m m' (dkey x)" "same_key m m' k"
  shows "bread_dict_find_slot m' es k = bread_dict_find_slot m es k"
proof -
  have "slot_stops m' es k s = slot_stops m es k s" if "s < length es" for s
  proof (cases "live_entry (es ! s)")
    case True
    with same_key_matches [OF assms(1) assms(2), of "es ! s"] that show ?thesis by (simp add: slot_stops_def)
  qed (auto simp: slot_stops_def live_entry_def)
  then show ?thesis
    using same_key_hash [OF assms(2)] by (auto simp: bread_dict_find_slot_def intro: probe_cong)
qed

lemma hashed_ok_same:
  assumes "\<And>x. x \<in> set es \<Longrightarrow> live_entry x \<Longrightarrow> same_key m m' (dkey x)" "hashed_ok m es"
  shows "hashed_ok m' es"
  unfolding hashed_ok_def keys.table_ok_def
proof (intro allI impI)
  fix s k assume s: "s < length es" "key_table es s = Some k"
  then have live: "live_entry (es ! s)" "k = dkey (es ! s)" by (auto simp: key_table_def split: if_splits)
  then have same: "same_key m m' k" using assms(1) s by simp
  have "good_key m k \<and> keys.find_slot m (key_table es) (length es) k = Some s"
    using assms(2) s by (auto simp: hashed_ok_def keys.table_ok_def)
  moreover have "es \<noteq> []" using s by auto
  ultimately show "good_key m' k \<and> keys.find_slot m' (key_table es) (length es) k = Some s"
    using find_slot_same [of es m m' k, OF assms(1) same] same_key_good [OF same] by (simp add: find_slot_table)
qed

lemma view_ref_live:
  assumes "dict_view m R a d" "v \<in># R \<or> (\<exists>x \<in> set (entries d). live_entry x \<and> (v = dkey x \<or> v = dvalue x))"
    and "ref_of v = Some b"
  shows "get_obj m b \<noteq> None"
proof -
  obtain ob where ob: "get_obj m a = Some ob" "body ob = BDict d" "heap_ok m R"
    using dict_view_obj [OF assms(1)] .
  have "v \<in># held m + R"
    using assms(2) child_held [OF ob(3,1), of v] ob(2) by auto
  from heap_ok_live [OF ob(3) this assms(3)] show ?thesis by auto
qed

lemma view_same_key:
  assumes "dict_view m' R a d'" "strings_kept m m'"
    "k \<in># R \<or> (\<exists>x \<in> set (entries d'). live_entry x \<and> k = dkey x)"
  shows "same_key m m' k"
  using kept_same_key [OF assms(2)] view_ref_live [OF assms(1)] assms(3) by blast

text \<open>Storing clones in a dictionary slot.\<close>

lemma dict_store_value:
  assumes view: "dict_view m R a d" and v: "may_hold m R v" and room: "room_for (Suc n) m"
    and y: "dict_vals (entries d') + N = add_mset v (dict_vals (entries d))" and N: "\<forall>v \<in># N. ref_of v = None"
  shows "\<exists>m1. bread_value_clone v m = Done (v, m1) \<and> dict_view (put_dict a d' m1) R a d' \<and>
     room_for n (put_dict a d' m1) \<and> strings_kept m (put_dict a d' m1)"
proof -
  obtain ob where ob: "get_obj m a = Some ob" "body ob = BDict d" "heap_ok m R" "VDict (Some a) \<in># R"
    using dict_view_obj [OF view] .
  obtain m1 ob' where m1: "bread_value_clone v m = Done (v, m1)" "heap_ok (set_body a (BDict d') m1) R"
      "room_for n m1" "get_obj m1 a = Some ob'" "body ob' = BDict d" "survives m m1"
    using slot_store [OF ob(3) v room ob(1), of "BDict d'" N] ob(2) y N by (auto simp: children_dict simp del: children.simps)
  have "strings_kept m (put_dict a d' m1)"
    using strings_kept_trans [OF survives_kept [OF m1(6)]] put_dict_kept [OF m1(4,5)] by blast
  with m1 show ?thesis using ob(4) get_put_dict [OF m1(4)] by (auto simp: dict_view_def put_dict_def)
qed

lemma overwrite_value_ok:
  assumes view: "dict_view m R a d" and v: "v \<in># R" and room: "room_for (Suc n) m"
    and s: "s < length (entries d)" "live_entry (entries d ! s)"
  shows "\<exists>m'. overwrite_value a s v m = Done m' \<and>
    dict_view m' R a (set_slot s ((entries d ! s)\<lparr>dvalue := v\<rparr>) d) \<and> room_for n m' \<and> strings_kept m m'"
proof -
  let ?e = "entries d ! s" and ?d1 = "set_slot s ((entries d ! s)\<lparr>dvalue := VNil\<rparr>) d"
  obtain ob where ob: "get_obj m a = Some ob" "body ob = BDict d" "heap_ok m R" "VDict (Some a) \<in># R"
    using dict_view_obj [OF view] .
  have live: "live_entry (?e\<lparr>dvalue := w\<rparr>)" for w using s(2) by (simp add: live_entry_def)
  have up: "dict_vals ((entries d)[s := ?e\<lparr>dvalue := w\<rparr>]) + {#dvalue ?e#} = add_mset w (dict_vals (entries d))" for w
  proof -
    have "dict_vals ((entries d)[s := ?e\<lparr>dvalue := w\<rparr>]) + {#dkey ?e, dvalue ?e#} =
        dict_vals (entries d) + {#dkey ?e, w#}"
      using dict_vals_update [OF s(1), of "?e\<lparr>dvalue := w\<rparr>"] s(2) live [of w] by (simp add: entry_vals_def)
    then have "(dict_vals ((entries d)[s := ?e\<lparr>dvalue := w\<rparr>]) + {#dvalue ?e#}) + {#dkey ?e#} =
        add_mset w (dict_vals (entries d)) + {#dkey ?e#}" by simp
    then show ?thesis by (rule add_right_imp_eq)
  qed
  have ch: "dict_vals (entries d) + {#VNil#} = add_mset (dvalue ?e) (dict_vals (entries ?d1))"
    using up [of VNil] by (simp add: set_slot_def)
  obtain m1 ob' where m1: "bread_value_release (dvalue ?e) m = Done m1" "get_obj m1 a = Some ob'"
      "heap_ok (set_body a (BDict ?d1) m1) R" "\<forall>n. room_for n m \<longrightarrow> room_for n m1"
      "survives (put_dict a ?d1 m) (put_dict a ?d1 m1)"
    unfolding put_dict_def using slot_release [OF ob(3,4) _ ob(1), of "BDict ?d1" "{#VNil#}" "dvalue ?e"] ob(2) ch
    by (auto simp: children_dict simp del: children.simps)
  have view1: "dict_view (put_dict a ?d1 m1) R a ?d1"
    using m1 ob(4) get_put_dict [OF m1(2)] by (simp add: dict_view_def put_dict_def)
  have mh: "may_hold (put_dict a ?d1 m1) R v" using v by (simp add: may_hold_def)
  have "(dict_vals (entries (set_slot s (?e\<lparr>dvalue := v\<rparr>) d)) + {#VNil#}) + {#dvalue ?e#} =
      add_mset v (dict_vals (entries ?d1)) + {#dvalue ?e#}"
    using up [of v] up [of VNil] by (simp add: set_slot_def add_mset_commute)
  then have "dict_vals (entries (set_slot s (?e\<lparr>dvalue := v\<rparr>) d)) + {#VNil#} = add_mset v (dict_vals (entries ?d1))"
    by (rule add_right_imp_eq)
  from dict_store_value [OF view1 mh _ this, of n] room m1
  obtain m2 where "bread_value_clone v (put_dict a ?d1 m1) = Done (v, m2)"
      "dict_view (put_dict a (set_slot s (?e\<lparr>dvalue := v\<rparr>) d) m2) R a (set_slot s (?e\<lparr>dvalue := v\<rparr>) d)"
      "room_for n (put_dict a (set_slot s (?e\<lparr>dvalue := v\<rparr>) d) m2)"
      "strings_kept (put_dict a ?d1 m1) (put_dict a (set_slot s (?e\<lparr>dvalue := v\<rparr>) d) m2)"
    by auto
  moreover have "strings_kept m (put_dict a ?d1 m1)"
    using strings_kept_trans [OF conjunct1 [OF put_dict_kept [OF ob(1,2)]] survives_kept [OF m1(5)]] .
  ultimately show ?thesis using m1(1) dict_viewD(3) [OF view] strings_kept_trans
    by (auto simp: overwrite_value_def Let_def)
qed

section \<open>What the hashed operations promise\<close>

definition dict_get :: "mem \<Rightarrow> bdict \<Rightarrow> val \<Rightarrow> val option" where
  \<comment> \<open>the map a dictionary stands for\<close>
  "dict_get m d k = map_option (\<lambda>s. dvalue (entries d ! s)) (live_slot m d k)"

lemma live_slot_iff:
  assumes "hashed_ok m (entries d)" "good_key m k"
  shows "live_slot m d k = Some s \<longleftrightarrow>
    s < length (entries d) \<and> live_entry (entries d ! s) \<and> element_matches m (dkey (entries d ! s)) k"
proof (cases "entries d = []")
  case True
  then show ?thesis by (simp add: live_slot_def bread_dict_find_slot_def)
next
  case False
  let ?t = "key_table (entries d)" and ?n = "length (entries d)"
  have f: "bread_dict_find_slot m (entries d) k = keys.find_slot m ?t ?n k" by (rule find_slot_table [OF False])
  have n: "0 < ?n" using False by simp
  show ?thesis
  proof
    assume "live_slot m d k = Some s"
    then have "keys.find_slot m ?t ?n k = Some s" and live: "live_entry (entries d ! s)"
      using f by (auto simp: live_slot_def split: option.splits if_splits)
    from keys.find_slot_Some [OF this(1) n] live
    show "s < ?n \<and> live_entry (entries d ! s) \<and> element_matches m (dkey (entries d ! s)) k"
      by (auto simp: key_table_def split: if_splits)
  next
    assume s: "s < ?n \<and> live_entry (entries d ! s) \<and> element_matches m (dkey (entries d ! s)) k"
    then have "keys.find_slot m ?t ?n k = Some s"
      using keys.find_slot_stored [of m ?t ?n k s "dkey (entries d ! s)"] assms
      by (auto simp: hashed_ok_def key_table_def)
    with f s show "live_slot m d k = Some s" by (simp add: live_slot_def)
  qed
qed

lemma dict_get_iff:
  assumes "hashed_ok m (entries d)" "good_key m k"
  shows "dict_get m d k = Some v \<longleftrightarrow>
    (\<exists>e \<in> set (entries d). live_entry e \<and> element_matches m (dkey e) k \<and> dvalue e = v)"
  unfolding dict_get_def map_option_eq_Some live_slot_iff [OF assms]
  by (metis in_set_conv_nth)

lemma live_set_mset: "(e \<in> set es \<and> live_entry e) \<longleftrightarrow> e \<in># mset (filter live_entry es)"
  by auto

lemma dict_get_entries:
  assumes "hashed_ok m (entries d)" "hashed_ok m (entries d')" "good_key m k"
    and "mset (filter live_entry (entries d')) = mset (filter live_entry (entries d))"
  shows "dict_get m d' k = dict_get m d k"
proof -
  have "dict_get m d' k = Some v \<longleftrightarrow> dict_get m d k = Some v" for v
    unfolding dict_get_iff [OF assms(1,3)] dict_get_iff [OF assms(2,3)]
    using assms(4) by (metis live_set_mset)
  then show ?thesis by (metis option.exhaust)
qed

lemma dict_get_same:
  assumes "\<And>x. x \<in> set (entries d) \<Longrightarrow> live_entry x \<Longrightarrow> same_key m m' (dkey x)" "same_key m m' k"
  shows "dict_get m' d k = dict_get m d k"
  using find_slot_same [OF assms] by (simp add: dict_get_def live_slot_def)

lemma dict_get_update:
  assumes ok: "hashed_ok m (entries d)" "hashed_ok m ((entries d)[s := e])" and l: "good_key m l"
    and s: "s < length (entries d)" "live_entry e"
    and old: "live_entry (entries d ! s) \<longrightarrow> dkey (entries d ! s) = dkey e"
    and d': "entries d' = (entries d)[s := e]"
  shows "dict_get m d' l = (if element_matches m (dkey e) l then Some (dvalue e) else dict_get m d l)"
proof -
  have "dict_get m d' l = Some w \<longleftrightarrow>
      (if element_matches m (dkey e) l then Some (dvalue e) else dict_get m d l) = Some w" for w
  proof (cases "element_matches m (dkey e) l")
    case True
    have "live_slot m d' l = Some s"
      unfolding live_slot_iff [OF ok(2) [folded d'] l] using True s by (simp add: d')
    with True s show ?thesis by (simp add: dict_get_def d')
  next
    case False
    have "live_slot m d' l = Some u \<longleftrightarrow> live_slot m d l = Some u" for u
      unfolding live_slot_iff [OF ok(2) [folded d'] l] live_slot_iff [OF ok(1) l]
      using False s old by (auto simp: d' nth_list_update)
    moreover have "live_slot m d l \<noteq> Some s"
      unfolding live_slot_iff [OF ok(1) l] using False old by auto
    ultimately show ?thesis using False by (auto simp: dict_get_def d' nth_list_update)
  qed
  then show ?thesis by (metis option.exhaust)
qed

lemma fix_types_simps [simp]:
  "entries (fix_types kt vt d) = entries d" "dcount (fix_types kt vt d) = dcount d"
  by (simp_all add: fix_types_def Let_def)

definition fits :: "VarType \<Rightarrow> val \<Rightarrow> bool" where
  "fits t v \<longleftrightarrow> t = TYPE_NIL \<or> t = vtype v"

text \<open>The dictionary right before the new value is stored, and the slot its search ends at.\<close>

lemma set_safe_prepare:
  fixes v :: val
  assumes view: "dict_view m R a d" and ok: "dict_ok m d" and k: "good_key m k" "k \<in># R"
  defines "d1 \<equiv> grow_hashed m (fix_types (vtype k) (vtype v) d)"
  defines "m1 \<equiv> put_dict a d1 m"
  shows "dict_view m1 R a d1" "strings_kept m m1" "hashed_ok m1 (entries d1)" "same_key m m1 k"
    "mset (filter live_entry (entries d1)) = mset (filter live_entry (entries d))"
    "dcount d1 = dcount d" "4 * (dcount d + 1) \<le> 3 * length (entries d1)"
    "dcount d1 = length (filter live_entry (entries d1))"
    "\<And>l. same_key m m1 l \<Longrightarrow> good_key m l \<Longrightarrow> dict_get m1 d1 l = dict_get m d l"
proof -
  let ?d0 = "fix_types (vtype k) (vtype v) d"
  obtain ob where ob: "get_obj m a = Some ob" "body ob = BDict d" using dict_view_obj [OF view] .
  have "dict_ok m ?d0" using ok by (simp add: dict_ok_def)
  note g = grow_hashed_ok [OF this, folded d1_def, unfolded fix_types_simps]
  show ms: "mset (filter live_entry (entries d1)) = mset (filter live_entry (entries d))"
    and "dcount d1 = dcount d" "4 * (dcount d + 1) \<le> 3 * length (entries d1)" using g by blast+
  have "length (filter live_entry (entries d1)) = length (filter live_entry (entries d))"
    using arg_cong [OF ms, of size] by (simp del: mset_filter)
  with g ok show "dcount d1 = length (filter live_entry (entries d1))" by (simp add: dict_ok_def)
  have "dict_vals (entries d1) = dict_vals (entries d)" unfolding dict_vals_mset ms ..
  then show view1: "dict_view m1 R a d1" unfolding m1_def by (rule dict_view_put [OF view])
  show kept: "strings_kept m m1" using put_dict_kept [OF ob] by (simp add: m1_def)
  have keys: "same_key m m1 (dkey x)" if "x \<in> set (entries d1)" "live_entry x" for x
    using view_same_key [OF view1 kept] that by blast
  show h1: "hashed_ok m1 (entries d1)" using hashed_ok_same [OF keys] g by blast
  show "same_key m m1 k" using view_same_key [OF view1 kept] k(2) by blast
  show "dict_get m1 d1 l = dict_get m d l" if l: "same_key m m1 l" "good_key m l" for l
  proof -
    have "dict_get m1 d1 l = dict_get m d1 l" using dict_get_same [OF keys l(1)] .
    also have "\<dots> = dict_get m d l"
      by (rule dict_get_entries [OF _ _ l(2) ms]) (use g ok in \<open>auto simp: dict_ok_def\<close>)
    finally show ?thesis .
  qed
qed

lemma find_slot_room:
  assumes "hashed_ok m es" "length (filter live_entry es) < length es"
  obtains s where "bread_dict_find_slot m es k = Some s" "s < length es"
    "live_entry (es ! s) \<Longrightarrow> element_matches m (dkey (es ! s)) k"
proof -
  let ?t = "key_table es" and ?n = "length es"
  have n: "0 < ?n" "es \<noteq> []" using assms(2) by auto
  obtain u where u: "u < ?n" "\<not> live_entry (es ! u)" using free_slot_exists [OF assms(2)] by blast
  have "keys.find_slot m ?t ?n k \<noteq> None"
    using keys.find_slot_None [of m ?t ?n k u] n u by (auto simp: key_table_def)
  then obtain s where s: "keys.find_slot m ?t ?n k = Some s" by auto
  with keys.find_slot_Some [OF this n(1)] that [of s] n(2) show ?thesis
    by (auto simp: find_slot_table key_table_def split: if_splits)
qed

lemma dict_store_entry:
  assumes view: "dict_view m R a d" and k: "k \<in># R" and v: "v \<in># R" and room: "room_for 2 m"
    and s: "s < length (entries d)" "\<not> live_entry (entries d ! s)"
    and d': "entries d' = (entries d)[s := e]" and e: "live_entry e" "dkey e = k" "dvalue e = v"
  shows "\<exists>m2 m3. bread_value_clone k m = Done (k, m2) \<and> bread_value_clone v m2 = Done (v, m3) \<and>
    dict_view (put_dict a d' m3) R a d' \<and> strings_kept m (put_dict a d' m3)"
proof -
  obtain ob where ob: "get_obj m a = Some ob" "body ob = BDict d" "heap_ok m R" "VDict (Some a) \<in># R"
    using dict_view_obj [OF view] .
  have room2: "room_for (Suc 1) m" using room by (simp add: numeral_2_eq_2)
  obtain m2 where m2: "bread_value_clone k m = Done (k, m2)" "heap_ok m2 (add_mset k R)" "survives m m2" "room_for 1 m2"
    using clone_ok [OF ob(3) rt.root_owned [OF k] room2] by blast
  have "v \<in># add_mset k R" using v by simp
  from clone_ok [OF m2(2) rt.root_owned [OF this], of 0] m2(4)
  obtain m3 where m3: "bread_value_clone v m2 = Done (v, m3)" "heap_ok m3 (add_mset v (add_mset k R))" "survives m2 m3"
    by auto
  obtain ob3 where ob3: "get_obj m3 a = Some ob3" "body ob3 = BDict d"
    using clone_get [OF m2(1) ob(1)] clone_get [OF m3(1)] ob(2) by metis
  have dv: "dict_vals (entries d') = dict_vals (entries d) + {#k, v#}"
    using dict_vals_update [OF s(1), of e] s(2) e d' by (simp add: entry_vals_def)
  have "heap_ok (put_dict a d' m3) R"
    unfolding put_dict_def
    by (rule set_body_exchange [OF m3(2) ob3(1)])
      (use ob3(2) dv in \<open>simp_all add: children_dict del: children.simps\<close>)
  moreover have "strings_kept m (put_dict a d' m3)"
    using strings_kept_trans [OF survives_kept [OF survives_trans [OF m2(3) m3(3)]]] put_dict_kept [OF ob3] by blast
  ultimately show ?thesis using m2(1) m3(1) ob(4) get_put_dict [OF ob3(1)] by (auto simp: dict_view_def)
qed

lemma entry_stored:
  assumes h1: "hashed_ok m1 (entries d1)" and s: "s < length (entries d1)" and view': "dict_view m' R a d'"
    and kept: "strings_kept m1 m'" and es': "entries d' = (entries d1)[s := e]" and e: "live_entry e"
    and hashed: "hashed_ok m1 ((entries d1)[s := e])"
    and old: "live_entry (entries d1 ! s) \<longrightarrow> dkey (entries d1 ! s) = dkey e"
    and k: "good_key m1 k" "element_matches m1 (dkey e) k"
    and count: "dcount d' = length (filter live_entry (entries d'))" "4 * dcount d' \<le> 3 * length (entries d1)"
  shows "dict_ok m' d'"
    and "l \<in># R \<Longrightarrow> same_key m1 m' l \<Longrightarrow> good_key m1 l \<Longrightarrow>
      dict_get m' d' l = (if element_matches m1 k l then Some (dvalue e) else dict_get m1 d1 l)"
proof -
  have keys: "same_key m1 m' (dkey x)" if "x \<in> set (entries d')" "live_entry x" for x
    using view_same_key [OF view' kept] that by blast
  have "hashed_ok m' (entries d')" using hashed_ok_same [OF keys] hashed es' by metis
  then show "dict_ok m' d'" using count by (simp add: dict_ok_def es')
  assume l: "l \<in># R" "same_key m1 m' l" "good_key m1 l"
  have ge: "good_key m1 (dkey e)"
    using hashed_key [OF hashed _ e] s by (metis length_list_update nth_list_update_eq nth_mem)
  have "element_matches m1 (dkey e) l = element_matches m1 k l"
    using keys.eq_trans [OF ge k(1) l(3) k(2)] keys.eq_trans [OF k(1) ge l(3)] keys.eq_sym [OF ge k(1,2)] by blast
  moreover have "dict_get m' d' l = dict_get m1 d' l" using dict_get_same [OF keys l(2)] .
  ultimately show "dict_get m' d' l = (if element_matches m1 k l then Some (dvalue e) else dict_get m1 d1 l)"
    using dict_get_update [OF h1 hashed l(3) s e old es'] by simp
qed

text \<open>The end of a search for a good key in a slot not in use: the key is nowhere.\<close>

lemma not_stored:
  assumes "hashed_ok m es" "good_key m k" "bread_dict_find_slot m es k = Some s" "\<not> live_entry (es ! s)"
  shows "\<forall>x \<in> set es. live_entry x \<longrightarrow> \<not> element_matches m (dkey x) k"
proof (intro ballI impI notI)
  fix x assume x: "x \<in> set es" "live_entry x" "element_matches m (dkey x) k"
  define d where "d = \<lparr>dcount = 0, key_type = TYPE_NIL, value_type = TYPE_NIL, entries = es\<rparr>"
  obtain u where "u < length es" "es ! u = x" using x(1) by (auto simp: in_set_conv_nth)
  with x have "live_slot m d k = Some u" using live_slot_iff [of m d k u] assms(1,2) by (simp add: d_def)
  with assms(3,4) show False by (simp add: live_slot_def d_def)
qed

lemma set_safe_run:
  assumes "dict_view m R a d" "fits (key_type d) k" "fits (value_type d) v"
    and "d1 = grow_hashed m (fix_types (vtype k) (vtype v) d)" "m1 = put_dict a d1 m"
    and "bread_dict_find_slot m1 (entries d1) k = Some s"
  shows "bread_dict_set_safe (Some a) k v m =
      (if live_entry (entries d1 ! s)
       then bnd (overwrite_value a s v m1) (\<lambda>m2. Done (True, m2))
       else bnd (bread_value_clone k m1) (\<lambda>(k', m2). bnd (bread_value_clone v m2) (\<lambda>(v', m3).
         Done (True, put_dict a ((set_slot s \<lparr>dkey = k', dvalue = v', is_occupied = True,
           is_deleted = False\<rparr> d1)\<lparr>dcount := dcount d1 + 1\<rparr>) m3))))"
  using dict_viewD(3) [OF assms(1)] assms(2,3,6)
  by (auto simp: bread_dict_set_safe_def fits_def Let_def assms(4,5))

text \<open>Both ways to store: over the value of the key, or in the slot the search ended at.\<close>

lemma store_existing:
  assumes view: "dict_view m1 R a d1" and h: "hashed_ok m1 (entries d1)" and v: "v \<in># R" and room: "room_for 2 m1"
    and k: "good_key m1 k" and s: "s < length (entries d1)" "live_entry (entries d1 ! s)"
    "element_matches m1 (dkey (entries d1 ! s)) k"
    and count: "dcount d1 = length (filter live_entry (entries d1))" "4 * dcount d1 \<le> 3 * length (entries d1)"
  shows "\<exists>m' d'. overwrite_value a s v m1 = Done m' \<and> dict_view m' R a d' \<and> dict_ok m' d' \<and> strings_kept m1 m' \<and>
    (\<forall>l. l \<in># R \<longrightarrow> same_key m1 m' l \<longrightarrow> good_key m1 l \<longrightarrow>
       dict_get m' d' l = (if element_matches m1 k l then Some v else dict_get m1 d1 l))"
proof -
  let ?e = "(entries d1 ! s)\<lparr>dvalue := v\<rparr>"
  have e: "live_entry ?e" using s(2) by (simp add: live_entry_def)
  obtain m' where m': "overwrite_value a s v m1 = Done m'" "dict_view m' R a (set_slot s ?e d1)" "strings_kept m1 m'"
    using overwrite_value_ok [OF view v _ s(1,2), of 1] room by (auto simp: numeral_2_eq_2)
  note up = live_update_same [OF s(1,2) e]
  have es: "entries (set_slot s ?e d1) = (entries d1)[s := ?e]" "dcount (set_slot s ?e d1) = dcount d1"
    by (simp_all add: set_slot_def)
  have h': "hashed_ok m1 ((entries d1)[s := ?e])" using h up by (simp add: hashed_ok_def)
  have sm: "live_entry (entries d1 ! s) \<longrightarrow> dkey (entries d1 ! s) = dkey ?e" "element_matches m1 (dkey ?e) k"
    using s(3) by simp_all
  have ct: "dcount (set_slot s ?e d1) = length (filter live_entry (entries (set_slot s ?e d1)))"
    "4 * dcount (set_slot s ?e d1) \<le> 3 * length (entries d1)" using count up(2) es by simp_all
  show ?thesis
    using m' entry_stored [OF h s(1) m'(2,3) es(1) e h' sm(1) k sm(2) ct] by (intro exI [of _ m'] exI) auto
qed

lemma store_new:
  assumes view: "dict_view m1 R a d1" and h: "hashed_ok m1 (entries d1)" and v: "v \<in># R" and room: "room_for 2 m1"
    and k: "good_key m1 k" "k \<in># R" and find: "bread_dict_find_slot m1 (entries d1) k = Some s"
    and s: "s < length (entries d1)" "\<not> live_entry (entries d1 ! s)"
    and count: "dcount d1 = length (filter live_entry (entries d1))" "4 * (dcount d1 + 1) \<le> 3 * length (entries d1)"
  shows "\<exists>m2 m3 d'. bread_value_clone k m1 = Done (k, m2) \<and> bread_value_clone v m2 = Done (v, m3) \<and>
    d' = (set_slot s \<lparr>dkey = k, dvalue = v, is_occupied = True, is_deleted = False\<rparr> d1)\<lparr>dcount := dcount d1 + 1\<rparr> \<and>
    dict_view (put_dict a d' m3) R a d' \<and> dict_ok (put_dict a d' m3) d' \<and> strings_kept m1 (put_dict a d' m3) \<and>
    (\<forall>l. l \<in># R \<longrightarrow> same_key m1 (put_dict a d' m3) l \<longrightarrow> good_key m1 l \<longrightarrow>
       dict_get (put_dict a d' m3) d' l = (if element_matches m1 k l then Some v else dict_get m1 d1 l))"
proof -
  let ?e = "\<lparr>dkey = k, dvalue = v, is_occupied = True, is_deleted = False\<rparr>"
  let ?d2 = "(set_slot s ?e d1)\<lparr>dcount := dcount d1 + 1\<rparr>"
  have e: "live_entry ?e" by (simp add: live_entry_def)
  have cnt: "length (filter live_entry (entries d1)) < length (entries d1)" using count by simp
  obtain u where u: "bread_dict_find_slot m1 (entries d1) (dkey ?e) = Some u"
      "hashed_ok m1 ((entries d1)[u := ?e])"
      "mset (filter live_entry ((entries d1)[u := ?e])) = add_mset ?e (mset (filter live_entry (entries d1)))"
    using hashed_store [OF h _ e cnt] k(1) not_stored [OF h k(1) find s(2)] by auto
  then have us: "u = s" using find by simp
  have es: "entries ?d2 = (entries d1)[s := ?e]" by (simp add: set_slot_def)
  obtain m2 m3 where m3: "bread_value_clone k m1 = Done (k, m2)" "bread_value_clone v m2 = Done (v, m3)"
      "dict_view (put_dict a ?d2 m3) R a ?d2" "strings_kept m1 (put_dict a ?d2 m3)"
    using dict_store_entry [OF view k(2) v room s es e] by auto
  have same: "live_entry (entries d1 ! s) \<longrightarrow> dkey (entries d1 ! s) = dkey ?e" "element_matches m1 (dkey ?e) k"
    using s(2) keys.eq_refl [OF k(1)] by simp_all
  have ct: "dcount ?d2 = length (filter live_entry (entries ?d2))" "4 * dcount ?d2 \<le> 3 * length (entries d1)"
    using arg_cong [OF u(3), of size] us count by (simp_all add: set_slot_def del: mset_filter)
  show ?thesis
    using m3 entry_stored [OF h s(1) m3(3,4) es e u(2) [unfolded us] same(1) k(1) same(2) ct]
    by (intro exI [of _ m2] exI [of _ m3] exI [of _ ?d2]) auto
qed

text \<open>
  C12: storing a key and a value that fit an intact dictionary succeeds, growing the table where
  needed; afterwards the dictionary is intact, the key is mapped to the value, and every other
  key to what it was mapped to before.
\<close>
theorem dict_set_safe_correct:
  assumes view: "dict_view m R a d" and ok: "dict_ok m d" and k: "good_key m k" "k \<in># R" and v: "v \<in># R"
    and fit: "fits (key_type d) k" "fits (value_type d) v" and room: "room_for 2 m"
  shows "\<exists>m' d'. bread_dict_set_safe (Some a) k v m = Done (True, m') \<and> dict_view m' R a d' \<and> dict_ok m' d' \<and>
    (\<forall>l. l \<in># R \<longrightarrow> good_key m l \<longrightarrow>
       dict_get m' d' l = (if element_matches m k l then Some v else dict_get m d l))"
proof -
  define d1 where "d1 = grow_hashed m (fix_types (vtype k) (vtype v) d)"
  define m1 where "m1 = put_dict a d1 m"
  note pre = set_safe_prepare [OF view ok k, of v, folded d1_def, folded m1_def]
  have r1: "room_for 2 m1" using room by (simp add: m1_def)
  have goodk: "good_key m1 k" using same_key_good [OF pre(4)] k by simp
  have cnt: "length (filter live_entry (entries d1)) < length (entries d1)" using pre(6-8) by simp
  obtain s where s: "bread_dict_find_slot m1 (entries d1) k = Some s" "s < length (entries d1)"
      "live_entry (entries d1 ! s) \<Longrightarrow> element_matches m1 (dkey (entries d1 ! s)) k"
    using find_slot_room [OF pre(3) cnt, of k] by blast
  note run = set_safe_run [OF view fit d1_def m1_def s(1)]
  have "\<exists>m' d'. bread_dict_set_safe (Some a) k v m = Done (True, m') \<and> dict_view m' R a d' \<and> dict_ok m' d' \<and>
      strings_kept m1 m' \<and> (\<forall>l. l \<in># R \<longrightarrow> same_key m1 m' l \<longrightarrow> good_key m1 l \<longrightarrow>
       dict_get m' d' l = (if element_matches m1 k l then Some v else dict_get m1 d1 l))"
  proof (cases "live_entry (entries d1 ! s)")
    case True
    with store_existing [OF pre(1,3) v r1 goodk s(2) True s(3) pre(8)] pre(6,7) run show ?thesis by fastforce
  next
    case False
    with store_new [OF pre(1,3) v r1 goodk k(2) s(1,2) False pre(8)] pre(6,7) run show ?thesis by fastforce
  qed
  then obtain m' d' where m': "bread_dict_set_safe (Some a) k v m = Done (True, m')" "dict_view m' R a d'"
      "dict_ok m' d'" "strings_kept m1 m'"
      and get: "\<And>l. l \<in># R \<Longrightarrow> same_key m1 m' l \<Longrightarrow> good_key m1 l \<Longrightarrow>
       dict_get m' d' l = (if element_matches m1 k l then Some v else dict_get m1 d1 l)"
    by blast
  have "dict_get m' d' l = (if element_matches m k l then Some v else dict_get m d l)"
    if l: "l \<in># R" "good_key m l" for l
  proof -
    have sl: "same_key m m1 l" "same_key m1 m' l"
      using view_same_key [OF pre(1,2)] view_same_key [OF m'(2,4)] l(1) by blast+
    have gl: "good_key m1 l" using same_key_good [OF sl(1)] l(2) by simp
    show ?thesis
      using get [OF l(1) sl(2) gl] same_key_matches [OF pre(4) sl(1)] pre(9) [OF sl(1) l(2)] by simp
  qed
  with m' show ?thesis by blast
qed

text \<open>
  Looking a key up finds what the dictionary maps it to: \<^verbatim>\<open>contains_key\<close> tells whether the
  key is mapped, and \<^verbatim>\<open>get_with_default\<close> returns the mapped value, or else the default, with an
  owner of its own.
\<close>
theorem dict_lookup_correct:
  assumes view: "dict_view m R a d" and ok: "dict_ok m d" and k: "good_key m k" and fit: "fits (key_type d) k"
    and dflt: "w \<in># R" and room: "room_for 1 m"
  defines "v \<equiv> (case dict_get m d k of Some u \<Rightarrow> u | None \<Rightarrow> w)"
  shows "bread_dict_contains_key (Some a) k m = Done (dict_get m d k \<noteq> None) \<and>
    (\<exists>m'. bread_dict_get_with_default (Some a) k w m = Done (v, m') \<and> heap_ok m' (add_mset v R))"
proof -
  have empty: "live_slot m d k = None" if "entries d = []"
    using that by (simp add: live_slot_def bread_dict_find_slot_def)
  have h: "hashed_ok m (entries d)" using ok by (simp add: dict_ok_def)
  have at: "dict_at m a = Done d" using dict_viewD(3) [OF view] .
  have safe: "bread_dict_get_safe (Some a) k m = Done (live_slot m d k, m)"
    using at fit empty by (auto simp: bread_dict_get_safe_def fits_def)
  have "may_hold m R v"
  proof (cases "live_slot m d k")
    case None
    then show ?thesis using dflt by (simp add: v_def dict_get_def may_hold_def)
  next
    case (Some s)
    then have "s < length (entries d)" "live_entry (entries d ! s)" using live_slot_iff [OF h k] by blast+
    then have "v \<in> set (children (BDict d))" using Some by (force simp: v_def dict_get_def)
    moreover obtain ob where "get_obj m a = Some ob" "body ob = BDict d" using dict_view_obj [OF view] .
    ultimately show ?thesis using child_held [of m R a ob v] view by (auto simp: may_hold_def)
  qed
  with clone_ok [of m R v 0] view room obtain m' where "bread_value_clone v m = Done (v, m')" "heap_ok m' (add_mset v R)"
    by auto
  then have "\<exists>m'. bread_dict_get_with_default (Some a) k w m = Done (v, m') \<and> heap_ok m' (add_mset v R)"
    using safe at by (auto simp: bread_dict_get_with_default_def v_def dict_get_def split: option.splits)
  moreover have "bread_dict_contains_key (Some a) k m = Done (dict_get m d k \<noteq> None)"
    using at fit empty by (auto simp: bread_dict_contains_key_def fits_def dict_get_def)
  ultimately show ?thesis by blast
qed

text \<open>
  C35: resizing to any capacity above the number of entries keeps the dictionary intact and every
  mapping of it, and drops the deleted slots.
\<close>
theorem dict_resize_correct:
  assumes view: "dict_view m R a d" and ok: "hashed_ok m (entries d)"
    and n: "length (filter live_entry (entries d)) < n"
  shows "\<exists>m' d'. bread_dict_resize (Some a) (int n) m = Done m' \<and> dict_view m' R a d' \<and>
    hashed_ok m' (entries d') \<and> length (entries d') = n \<and>
    dcount d' = length (filter live_entry (entries d)) \<and>
    (\<forall>l. l \<in># R \<longrightarrow> good_key m l \<longrightarrow> dict_get m' d' l = dict_get m d l)"
proof -
  let ?d = "resized m n d" and ?m = "put_dict a (resized m n d) m"
  note r = resized_ok [OF ok n]
  obtain ob where ob: "get_obj m a = Some ob" "body ob = BDict d" using dict_view_obj [OF view] .
  have kept: "strings_kept m ?m" using put_dict_kept [OF ob] by blast
  have "dict_vals (entries ?d) = dict_vals (entries d)" unfolding dict_vals_mset using r by metis
  then have view': "dict_view ?m R a ?d" by (rule dict_view_put [OF view])
  have keys: "same_key m ?m (dkey x)" if "x \<in> set (entries ?d)" "live_entry x" for x
    using view_same_key [OF view' kept] that by blast
  have "dict_get ?m ?d l = dict_get m d l" if "l \<in># R" "good_key m l" for l
    using dict_get_same [OF keys] view_same_key [OF view' kept] that dict_get_entries [OF ok _ that(2)] r by metis
  moreover have "hashed_ok ?m (entries ?d)" using hashed_ok_same [OF keys] r by blast
  moreover have "bread_dict_resize (Some a) (int n) m = Done ?m"
    using n dict_viewD(3) [OF view] by (auto simp: bread_dict_resize_def)
  ultimately show ?thesis using view' r by blast
qed

text \<open>Emptying a slot: its key and its value are released and the slot is marked.\<close>

lemma release_entry:
  assumes view: "dict_view m R a d" and s: "s < length (entries d)" "live_entry (entries d ! s)"
    and e': "\<not> live_entry e'"
  shows "\<exists>m1 m2. bread_value_release (dkey (entries d ! s)) m = Done m1 \<and>
    bread_value_release (dvalue (entries d ! s)) (put_dict a (set_slot s ((entries d ! s)\<lparr>dkey := VNil\<rparr>) d) m1) = Done m2 \<and>
    (\<forall>d'. entries d' = (entries d)[s := e'] \<longrightarrow> dict_view (put_dict a d' m2) R a d' \<and> strings_kept m (put_dict a d' m2))"
proof -
  let ?e = "entries d ! s" and ?d1 = "set_slot s ((entries d ! s)\<lparr>dkey := VNil\<rparr>) d"
  obtain ob where ob: "get_obj m a = Some ob" "body ob = BDict d" "heap_ok m R" "VDict (Some a) \<in># R"
    using dict_view_obj [OF view] .
  have live: "live_entry (?e\<lparr>dkey := VNil\<rparr>)" using s(2) by (simp add: live_entry_def)
  have "(dict_vals (entries d) + {#VNil#}) + {#dvalue ?e#} =
      add_mset (dkey ?e) (dict_vals (entries ?d1)) + {#dvalue ?e#}"
    using dict_vals_update [OF s(1), of "?e\<lparr>dkey := VNil\<rparr>"] s(2) live
    by (simp add: entry_vals_def set_slot_def add_mset_commute)
  then have ch: "dict_vals (entries d) + {#VNil#} = add_mset (dkey ?e) (dict_vals (entries ?d1))"
    by (rule add_right_imp_eq)
  obtain m1 ob1 where m1: "bread_value_release (dkey ?e) m = Done m1" "get_obj m1 a = Some ob1" "body ob1 = BDict d"
      "heap_ok (put_dict a ?d1 m1) R" "survives (put_dict a ?d1 m) (put_dict a ?d1 m1)"
    using slot_release [OF ob(3,4) _ ob(1), of "BDict ?d1" "{#VNil#}" "dkey ?e"] ob(2) ch
    unfolding put_dict_def by (auto simp: children_dict simp del: children.simps)
  let ?m1 = "put_dict a ?d1 m1"
  have o1: "get_obj ?m1 a = Some (ob1\<lparr>body := BDict ?d1\<rparr>)" using get_put_dict [OF m1(2)] .
  have k1: "strings_kept m ?m1"
    using strings_kept_trans [OF conjunct1 [OF put_dict_kept [OF ob(1,2)]] survives_kept [OF m1(5)]] .
  have len: "(entries ?d1)[s := e'] = (entries d)[s := e']" by (simp add: set_slot_def)
  have d1s: "entries ?d1 ! s = ?e\<lparr>dkey := VNil\<rparr>" "s < length (entries ?d1)" using s(1) by (simp_all add: set_slot_def)
  obtain d2 :: bdict where d2: "entries d2 = (entries d)[s := e']" by (metis bdict.select_convs(4))
  have ch2: "dict_vals (entries ?d1) + {#} = add_mset (dvalue ?e) (dict_vals (entries d') + {#VNil#})"
    if "entries d' = (entries d)[s := e']" for d'
    using dict_vals_update [OF d1s(2), of e'] live e' that unfolding len d1s(1)
    by (simp add: entry_vals_def add_mset_commute)
  have k2: "strings_kept m1 (put_dict a d' m1)" for d' using put_dict_kept [OF m1(2,3)] by blast
  have sp: "\<exists>m' ob'. bread_value_release (dvalue ?e) ?m1 = Done m' \<and> get_obj m' a = Some ob' \<and>
      body ob' = BDict ?d1 \<and> heap_ok (set_body a (BDict d') m') R \<and>
      survives (set_body a (BDict d') ?m1) (set_body a (BDict d') m')"
    if "entries d' = (entries d)[s := e']" for d'
    using slot_release_nulls [OF m1(4) ob(4) _ o1, of "BDict d'" "{#}" "dvalue ?e" "{#VNil#}"] ch2 [OF that]
    by (auto simp: children_dict simp del: children.simps)
  obtain m2 ob2 where m2: "bread_value_release (dvalue ?e) ?m1 = Done m2" "get_obj m2 a = Some ob2"
    using sp [OF d2] by blast
  have "dict_view (put_dict a d' m2) R a d' \<and> strings_kept m (put_dict a d' m2)"
    if d': "entries d' = (entries d)[s := e']" for d'
  proof -
    have m2': "heap_ok (put_dict a d' m2) R" "survives (put_dict a d' ?m1) (put_dict a d' m2)"
      using sp [OF d'] m2(1) by (auto simp: put_dict_def)
    have "strings_kept ?m1 (put_dict a d' ?m1)" using put_dict_kept [OF o1] by simp
    with m2' k1 show ?thesis
      using ob(4) get_put_dict [OF m2(2)] survives_kept strings_kept_trans by (auto simp: dict_view_def)
  qed
  with m1(1) m2(1) show ?thesis by blast
qed

lemma live_count_kill:
  "s < length es \<Longrightarrow> live_entry (es ! s) \<Longrightarrow> \<not> live_entry e \<Longrightarrow>
   Suc (length (filter live_entry (es[s := e]))) = length (filter live_entry es)"
proof (induction es arbitrary: s)
  case (Cons x es)
  then show ?case by (cases s) auto
qed simp

lemma find_slot_more_stops:
  assumes "bread_dict_find_slot m es k = Some u" "s < length es" "is_deleted e"
  shows "bread_dict_find_slot m (es[s := e]) k \<in> {Some u, Some s}"
proof -
  have ne: "es \<noteq> []" using assms(2) by auto
  let ?h = "unat (bread_dict_hash_key m k) mod length es"
  have "probe (slot_stops m (es[s := e]) k) (length es) (length es) ?h \<in> {Some u, Some s}"
  proof (rule probe_more_stops)
    show "probe (slot_stops m es k) (length es) (length es) ?h = Some u"
      using assms(1) ne by (simp add: bread_dict_find_slot_def)
    show "?h < length es" using ne by simp
    show "slot_stops m (es[s := e]) k s" using assms(2,3) by (simp add: slot_stops_def)
  qed (simp add: slot_stops_def)
  then show ?thesis using ne by (simp add: bread_dict_find_slot_def)
qed

text \<open>
  C14: removing a mapped key returns its value, with an owner of its own, releases the dictionary's
  key and value, and leaves a table without the key whose count is one less. Every other key is
  still found where it was, except those whose search passes the freed slot: for them the search
  now ends there.
\<close>
theorem dict_remove_correct:
  assumes view: "dict_view m R a d" and ok: "dict_ok m d" and k: "good_key m k" "k \<in># R"
    and fit: "fits (key_type d) k" and room: "room_for 1 m" and v: "dict_get m d k = Some v"
  shows "\<exists>m' d' s. bread_dict_remove (Some a) k m = Done (v, m') \<and> dict_view m' (add_mset v R) a d' \<and>
    live_slot m d k = Some s \<and> dcount d' = dcount d - 1 \<and>
    dcount d' = length (filter live_entry (entries d')) \<and>
    dict_get m' d' k = None \<and>
    (\<forall>l u. l \<in># R \<longrightarrow> live_slot m d l = Some u \<longrightarrow> u \<noteq> s \<longrightarrow>
       dict_get m' d' l = dict_get m d l \<or> bread_dict_find_slot m' (entries d') l = Some s)"
proof -
  have h: "hashed_ok m (entries d)" using ok by (simp add: dict_ok_def)
  obtain s where s: "live_slot m d k = Some s" "dvalue (entries d ! s) = v"
    using v by (auto simp: dict_get_def)
  then have sn: "s < length (entries d)" "live_entry (entries d ! s)" using live_slot_iff [OF h k(1)] by blast+
  let ?e' = "\<lparr>dkey = VNil, dvalue = VNil, is_occupied = True, is_deleted = True\<rparr>"
  let ?d' = "(set_slot s ?e' d)\<lparr>dcount := dcount d - 1\<rparr>"
  have es': "entries ?d' = (entries d)[s := ?e']" by (simp add: set_slot_def)
  have dead: "\<not> live_entry ?e'" by (simp add: live_entry_def)
  obtain ob where ob: "get_obj m a = Some ob" "body ob = BDict d" "heap_ok m R" "VDict (Some a) \<in># R"
    using dict_view_obj [OF view] .
  have "v \<in> set (children (BDict d))" using sn s(2) by force
  then have mh: "may_hold m R v" using child_held [OF ob(3,1)] ob(2) by (simp add: may_hold_def)
  obtain m1 where m1: "bread_value_clone v m = Done (v, m1)" "heap_ok m1 (add_mset v R)" "survives m m1"
    using clone_ok [OF ob(3) mh, of 0] room by auto
  have view1: "dict_view m1 (add_mset v R) a d"
    using clone_get [OF m1(1) ob(1)] ob(2,4) m1(2) by (auto simp: dict_view_def)
  obtain m2 m3 where m3: "bread_value_release (dkey (entries d ! s)) m1 = Done m2"
      "bread_value_release v (put_dict a (set_slot s ((entries d ! s)\<lparr>dkey := VNil\<rparr>) d) m2) = Done m3"
      "dict_view (put_dict a ?d' m3) (add_mset v R) a ?d'" "strings_kept m1 (put_dict a ?d' m3)"
    using release_entry [OF view1 sn dead] es' s(2) by blast
  let ?m = "put_dict a ?d' m3"
  have run: "bread_dict_remove (Some a) k m = Done (v, ?m)"
    using dict_viewD(3) [OF view] fit s sn m1(1) m3(1,2)
    by (auto simp: bread_dict_remove_def fits_def Let_def)
  have kept: "strings_kept m ?m" using strings_kept_trans [OF survives_kept [OF m1(3)] m3(4)] .
  have keys: "same_key m ?m (dkey x)" if "x \<in> set (entries ?d')" "live_entry x" for x
    using view_same_key [OF m3(3) kept] that by blast
  have roots: "same_key m ?m l" if "l \<in># R" for l
    using view_same_key [OF m3(3) kept, of l] that by auto
  have find: "bread_dict_find_slot ?m (entries ?d') l = bread_dict_find_slot m ((entries d)[s := ?e']) l"
    if "l \<in># R" for l using find_slot_same [OF keys roots [OF that]] unfolding es' by blast
  have more: "bread_dict_find_slot ?m (entries ?d') l \<in> {Some u, Some s}"
    if "l \<in># R" "live_slot m d l = Some u" for l u
    unfolding find [OF that(1)]
    by (rule find_slot_more_stops) (use that(2) sn in \<open>auto simp: live_slot_def split: option.splits if_splits\<close>)
  have "dict_get ?m ?d' k = None"
    using more [OF k(2) s(1)] dead sn by (auto simp: dict_get_def live_slot_def set_slot_def)
  moreover have "dict_get ?m ?d' l = dict_get m d l \<or> bread_dict_find_slot ?m (entries ?d') l = Some s"
    if l: "l \<in># R" "live_slot m d l = Some u" "u \<noteq> s" for l u
  proof -
    have "live_entry (entries d ! u)" using l(2) by (auto simp: live_slot_def split: option.splits if_splits)
    with more [OF l(1,2)] l show ?thesis by (auto simp: dict_get_def live_slot_def set_slot_def)
  qed
  moreover have "dcount ?d' = length (filter live_entry (entries ?d'))"
    using live_count_kill [OF sn dead] ok by (simp add: dict_ok_def set_slot_def)
  ultimately show ?thesis using run m3(3) s(1) by (intro exI [of _ ?m] exI [of _ ?d'] exI [of _ s]) simp
qed

section \<open>A sample dictionary\<close>

text \<open>Two int keys with the same first slot in a table of eight.\<close>

definition sample_entries :: "dentry list" where
  "sample_entries = \<lparr>dkey = VInt 0, dvalue = VInt 10, is_occupied = True, is_deleted = False\<rparr> #
     \<lparr>dkey = VInt 2, dvalue = VInt 20, is_occupied = True, is_deleted = False\<rparr> # replicate 6 empty_entry"

definition sample_bdict :: bdict where
  "sample_bdict = \<lparr>dcount = 2, key_type = TYPE_INT, value_type = TYPE_INT, entries = sample_entries\<rparr>"

definition sample_dict :: mem where
  "sample_dict = put_dict 0 sample_bdict (snd (new_dict 8 TYPE_INT TYPE_INT bread_memory_init))"

lemma sample_hash:
  "unat (bread_dict_hash_key m (VInt 0)) mod 8 = 0" "unat (bread_dict_hash_key m (VInt 2)) mod 8 = 0"
  by (simp_all add: Let_def int_mix_def)

lemma probe_numeral:
  "probe stop cap (numeral n) i = (if stop i then Some i else probe stop cap (pred_numeral n) ((i + 1) mod cap))"
  by (simp add: numeral_eq_Suc)

lemma sample_length: "length sample_entries = 8"
  by (simp add: sample_entries_def)

lemma sample_find:
  "bread_dict_find_slot m sample_entries (VInt 0) = Some 0"
  "bread_dict_find_slot m sample_entries (VInt 2) = Some 1"
proof -
  have stops: "slot_stops m sample_entries (VInt 0) 0" "\<not> slot_stops m sample_entries (VInt 2) 0"
    "slot_stops m sample_entries (VInt 2) 1"
    by (simp_all add: slot_stops_def sample_entries_def)
  have ne: "sample_entries \<noteq> []" by (simp add: sample_entries_def)
  show "bread_dict_find_slot m sample_entries (VInt 0) = Some 0"
    "bread_dict_find_slot m sample_entries (VInt 2) = Some 1"
    unfolding bread_dict_find_slot_def sample_length sample_hash using stops ne by (simp_all add: probe_numeral)
qed

lemma sample_dict_ok: "dict_ok m sample_bdict"
proof -
  have "hashed_ok m sample_entries"
    unfolding hashed_ok_def keys.table_ok_def
  proof (intro allI impI)
    fix s k assume s: "s < length sample_entries" "key_table sample_entries s = Some k"
    then have "s = 0 \<and> k = VInt 0 \<or> s = 1 \<and> k = VInt 2"
      by (auto simp: key_table_def sample_entries_def live_entry_def empty_entry_def nth_Cons'
          split: if_splits)
    moreover have "sample_entries \<noteq> []" by (simp add: sample_entries_def)
    ultimately show "good_key m k \<and> keys.find_slot m (key_table sample_entries) (length sample_entries) k = Some s"
      using sample_find [of m] by (auto simp: find_slot_table)
  qed
  then show ?thesis
    by (simp add: dict_ok_def sample_bdict_def sample_entries_def live_entry_def)
qed

lemma dict_view_null:
  assumes "dict_view m R a d" and "dict_vals (entries d') = dict_vals (entries d) + N" and "\<forall>v \<in># N. ref_of v = None"
  shows "dict_view (put_dict a d' m) R a d'"
proof -
  obtain ob where ob: "get_obj m a = Some ob" "body ob = BDict d" "heap_ok m R" "VDict (Some a) \<in># R"
    using dict_view_obj [OF assms(1)] .
  have "heap_ok (put_dict a d' m) R"
    unfolding put_dict_def
  proof (rule set_body_exchange [OF _ ob(1)])
    show "heap_ok m (N + R)" using ob(3) assms(3) by (simp add: heap_ok_null_mset)
  qed (use ob(2) assms(2) in \<open>simp_all add: children_dict ac_simps del: children.simps\<close>)
  with ob show ?thesis by (simp add: dict_view_def get_put_dict)
qed

lemma new_dict_view:
  assumes "heap_ok m R" "new_dict cap kt vt m = (a, m')"
  shows "dict_view m' (add_mset (VDict (Some a)) R) a
    \<lparr>dcount = 0, key_type = kt, value_type = vt, entries = replicate cap empty_entry\<rparr>"
proof -
  let ?d = "\<lparr>dcount = 0, key_type = kt, value_type = vt, entries = replicate cap empty_entry\<rparr>"
  have al: "bread_memory_alloc (BDict ?d) m = (a, m')" using assms(2) by (simp add: new_dict_def)
  have "dict_vals (replicate cap empty_entry) = {#}" by (simp add: dict_vals_mset del: mset_filter)
  then have "heap_ok m (mset (children (BDict ?d)) + R)" using assms(1) by (simp add: children_dict del: children.simps)
  from alloc_ok [OF this al, of "VDict (Some a)"]
  show ?thesis using alloc_get [OF al, of a, THEN conjunct1] by (simp add: dict_view_def)
qed

lemma sample_dict_view:
  "dict_view sample_dict {#VDict (Some 0), VInt 0, VInt 2, VInt 5#} 0 sample_bdict"
proof -
  have nd: "new_dict 8 TYPE_INT TYPE_INT bread_memory_init = (0, snd (new_dict 8 TYPE_INT TYPE_INT bread_memory_init))"
    by (simp add: new_dict_def bread_memory_alloc_def bread_memory_init_def)
  have "heap_ok bread_memory_init {#VInt 0, VInt 2, VInt 5#}" using heap_ok_init by simp
  from new_dict_view [OF this nd]
  have view: "dict_view (snd (new_dict 8 TYPE_INT TYPE_INT bread_memory_init)) {#VDict (Some 0), VInt 0, VInt 2, VInt 5#} 0
     \<lparr>dcount = 0, key_type = TYPE_INT, value_type = TYPE_INT, entries = replicate 8 empty_entry\<rparr>"
    by simp
  have "dict_vals (replicate 8 empty_entry) = {#}" "dict_vals sample_entries = {#VInt 0, VInt 10, VInt 2, VInt 20#}"
    by (simp_all add: dict_vals_mset sample_entries_def live_entry_def empty_entry_def)
  then show ?thesis unfolding sample_dict_def
    by (intro dict_view_null [OF view, of _ "{#VInt 0, VInt 10, VInt 2, VInt 20#}"]) (simp_all add: sample_bdict_def)
qed

lemma sample_dict_room: "room_for 2 sample_dict"
  unfolding sample_dict_def room_put_dict
  by (simp add: room_for_def rc_of_def new_dict_def bread_memory_alloc_def bread_memory_init_def get_obj_def)

lemma sample_fits: "fits (key_type sample_bdict) (VInt k)" "fits (value_type sample_bdict) (VInt k)"
  by (simp_all add: fits_def sample_bdict_def)

lemma sample_get:
  "dict_get m sample_bdict (VInt 0) = Some (VInt 10)" "dict_get m sample_bdict (VInt 2) = Some (VInt 20)"
  using sample_find [of m]
  by (simp_all add: dict_get_def live_slot_def sample_bdict_def) (simp_all add: sample_entries_def live_entry_def)

theorem dict_set_safe_correct_witness:
  "\<exists>m' d'. bread_dict_set_safe (Some 0) (VInt 2) (VInt 5) sample_dict = Done (True, m') \<and>
    dict_get m' d' (VInt 2) = Some (VInt 5) \<and> dict_get m' d' (VInt 0) = Some (VInt 10)"
  using dict_set_safe_correct [OF sample_dict_view sample_dict_ok _ _ _ sample_fits sample_dict_room, of 2 5]
  by (auto simp: sample_get)

theorem dict_lookup_correct_witness:
  "bread_dict_contains_key (Some 0) (VInt 2) sample_dict = Done True"
  using dict_lookup_correct [OF sample_dict_view sample_dict_ok _ sample_fits(1) _ room_for_le [OF sample_dict_room],
      of 2 "VInt 5"]
  by (simp add: sample_get)

theorem dict_resize_correct_witness:
  "\<exists>m' d'. bread_dict_resize (Some 0) 3 sample_dict = Done m' \<and> dict_view m' {#VDict (Some 0), VInt 0, VInt 2, VInt 5#} 0 d' \<and>
    dict_get m' d' (VInt 2) = Some (VInt 20)"
proof -
  have "length (filter live_entry (entries sample_bdict)) < 3"
    by (simp add: sample_bdict_def sample_entries_def live_entry_def)
  moreover have "hashed_ok sample_dict (entries sample_bdict)" using sample_dict_ok by (simp add: dict_ok_def)
  ultimately show ?thesis
    using dict_resize_correct [OF sample_dict_view, of 3] by (fastforce simp: sample_get)
qed

theorem dict_remove_correct_witness:
  "\<exists>m' d'. bread_dict_remove (Some 0) (VInt 0) sample_dict = Done (VInt 10, m') \<and> dict_get m' d' (VInt 0) = None"
  using dict_remove_correct [OF sample_dict_view sample_dict_ok _ _ sample_fits(1) room_for_le [OF sample_dict_room]
      sample_get(1)]
  by fastforce

text \<open>
  The slot of a removed key ends every search that meets it: after removing 0, the dictionary
  denies having the key 2, which is still stored in it.
\<close>

lemma remove_hides_key:
  "\<exists>m'. bread_dict_contains_key (Some 0) (VInt 2) sample_dict = Done True \<and>
    bread_dict_remove (Some 0) (VInt 0) sample_dict = Done (VInt 10, m') \<and>
    bread_dict_contains_key (Some 0) (VInt 2) m' = Done False \<and>
    (\<exists>d'. dict_at m' 0 = Done d' \<and> (\<exists>e \<in> set (entries d'). live_entry e \<and> dkey e = VInt 2))"
proof -
  let ?e = "\<lparr>dkey = VNil, dvalue = VNil, is_occupied = True, is_deleted = True\<rparr>"
  let ?d1 = "set_slot 0 ((sample_entries ! 0)\<lparr>dkey := VNil\<rparr>) sample_bdict"
  let ?d' = "(set_slot 0 ?e sample_bdict)\<lparr>dcount := 1\<rparr>"
  let ?m = "put_dict 0 ?d' (put_dict 0 ?d1 sample_dict)"
  have at: "dict_at sample_dict 0 = Done sample_bdict" using dict_viewD(3) [OF sample_dict_view] .
  have slot: "live_slot m sample_bdict (VInt 0) = Some 0" "live_slot m sample_bdict (VInt 2) = Some 1" for m
    using sample_find [of m] by (simp_all add: live_slot_def sample_bdict_def)
      (simp_all add: sample_entries_def live_entry_def)
  have e0: "sample_entries ! 0 = \<lparr>dkey = VInt 0, dvalue = VInt 10, is_occupied = True, is_deleted = False\<rparr>"
    by (simp add: sample_entries_def)
  have es: "sample_entries \<noteq> []"
    "key_type sample_bdict = TYPE_INT" "entries sample_bdict = sample_entries" "dcount sample_bdict = 2"
    by (simp_all add: sample_bdict_def sample_entries_def)
  have run: "bread_dict_remove (Some 0) (VInt 0) sample_dict = Done (VInt 10, ?m)"
    using at slot by (simp add: bread_dict_remove_def es e0 bread_value_clone_def bread_object_retain_def
        bread_value_release_def Let_def)
  obtain ob where "get_obj sample_dict 0 = Some ob" using dict_view_obj [OF sample_dict_view] .
  then have at': "dict_at ?m 0 = Done ?d'" by (simp add: dict_at_def put_dict_def set_body_get)
  have "slot_stops ?m (entries ?d') (VInt 2) 0" "entries ?d' \<noteq> []" "length (entries ?d') = 8"
    by (simp_all add: slot_stops_def set_slot_def es sample_length)
  then have "bread_dict_find_slot ?m (entries ?d') (VInt 2) = Some 0"
    unfolding bread_dict_find_slot_def by (simp only: sample_hash if_False) (simp add: probe_numeral)
  then have "live_slot ?m ?d' (VInt 2) = None"
    by (simp add: live_slot_def set_slot_def es live_entry_def)
  then have "bread_dict_contains_key (Some 0) (VInt 2) ?m = Done False"
    using at' by (simp add: bread_dict_contains_key_def set_slot_def es)
  moreover have "bread_dict_contains_key (Some 0) (VInt 2) sample_dict = Done True"
    using at slot by (simp add: bread_dict_contains_key_def es)
  moreover have "entries ?d' ! 1 = \<lparr>dkey = VInt 2, dvalue = VInt 20, is_occupied = True, is_deleted = False\<rparr>"
    "1 < length (entries ?d')" by (simp_all add: set_slot_def es sample_entries_def)
  then have "\<exists>e \<in> set (entries ?d'). live_entry e \<and> dkey e = VInt 2"
    by (metis dentry.select_convs(1,3,4) live_entry_def nth_mem)
  ultimately show ?thesis using run at' by blast
qed

end
