(* ===== verification/BreadDictStrings.thy ===== *)
theory BreadDictStrings
  imports BreadDictLaws
begin

text \<open>
  What the string-keyed dictionary operations promise, and how they differ from the hashed ones.
\<close>

section \<open>What the string-keyed operations promise\<close>

definition str_get :: "mem \<Rightarrow> bdict \<Rightarrow> cstring \<Rightarrow> val option" where
  \<comment> \<open>the value of the first live entry with the key\<close>
  "str_get m d key = map_option dvalue (find (key_entry m key) (entries d))"

lemma first_slot_iff:
  "first_slot P es = Some s \<longleftrightarrow> s < length es \<and> P (es ! s) \<and> (\<forall>u < s. \<not> P (es ! u))"
proof (induction es arbitrary: s)
  case (Cons e es)
  then show ?case by (cases s) (auto simp: less_Suc_eq_0_disj)
qed simp

lemma first_slot_None: "first_slot P es = None \<longleftrightarrow> (\<forall>e \<in> set es. \<not> P e)"
  by (induction es) auto

lemma find_first_slot: "find P es = map_option ((!) es) (first_slot P es)"
  by (induction es) (auto simp: option.map_comp o_def)

lemma get_str_get:
  assumes "dict_at m a = Done d"
  shows "\<exists>s. bread_dict_get (Some a) key m = Done s \<and> str_get m d key = map_option (\<lambda>s. dvalue (entries d ! s)) s"
  using assms by (simp add: bread_dict_get_def str_get_def find_first_slot option.map_comp o_def)

lemma find_live: "find (key_entry m key) es = find (key_entry m key) (filter live_entry es)"
  by (induction es) (auto simp: key_entry_def)

lemma repack_ok:
  assumes "list_all is_occupied L" "length (filter live_entry old) \<le> k"
  shows "repack old (L @ replicate k empty_entry, n) =
    (L @ filter live_entry old @ replicate (k - length (filter live_entry old)) empty_entry,
     n + length (filter live_entry old))"
  using assms
proof (induction old arbitrary: L k n)
  case (Cons e old)
  show ?case
  proof (cases "live_entry e")
    case False
    with Cons show ?thesis by simp
  next
    case True
    then obtain k' where k: "k = Suc k'" using Cons.prems(2) by (cases k) auto
    have fs: "first_slot (\<lambda>x. \<not> is_occupied x) (L @ replicate k empty_entry) = Some (length L)"
      unfolding first_slot_iff using Cons.prems(1) k
      by (auto simp: nth_append list_all_length empty_entry_def)
    have up: "(L @ replicate k empty_entry)[length L := e] = (L @ [e]) @ replicate k' empty_entry"
      by (simp add: k list_update_append)
    have "list_all is_occupied (L @ [e])" using Cons.prems(1) True by (simp add: live_entry_def)
    from Cons.IH [OF this, of k' "n + 1"] Cons.prems(2) True fs up k show ?thesis by simp
  qed
qed simp

lemma grow_scanned_ok:
  assumes "dcount d = length (filter live_entry (entries d))"
  shows "filter live_entry (entries (grow_scanned d)) = filter live_entry (entries d) \<and>
    dcount (grow_scanned d) = dcount d \<and> dcount d < length (entries (grow_scanned d))"
proof (cases "4 * dcount d \<ge> 3 * length (entries d)")
  case True
  define n where "n = (if entries d = [] then 8 else length (entries d) * 2)"
  have n: "dcount d < n"
  proof (cases "entries d = []")
    case False
    then have "length (entries d) < length (entries d) * 2" by simp
    then have "length (filter live_entry (entries d)) < length (entries d) * 2"
      using length_filter_le [of live_entry "entries d"] by (rule le_less_trans [rotated])
    with assms False show ?thesis by (simp add: n_def)
  qed (use assms in \<open>simp add: n_def\<close>)
  then have "length (filter live_entry (entries d)) \<le> n" using assms by simp
  from repack_ok [of "[]" "entries d" n 0, OF _ this]
  have "grow_scanned d = d\<lparr>entries := filter live_entry (entries d) @ replicate (n - dcount d) empty_entry,
      dcount := dcount d\<rparr>"
    unfolding grow_scanned_def Let_def length_0_conv n_def [symmetric] using True assms by simp
  then show ?thesis using n assms by simp
next
  case False
  then show ?thesis by (simp add: grow_scanned_def Let_def)
qed

lemma string_key_entry:
  assumes "NUL \<notin> set key" "live_entry e" "dkey e = VString (Some b)" "string_data m (Some b) = key" "NUL \<notin> set key'"
  shows "key_entry m key' e \<longleftrightarrow> key' = key"
  using assms by (auto simp: key_entry_def bread_string_equals_def bread_string_cstr_def cstr_no_nul strcmp_eq)

lemma key_entry_same:
  "same_key m m' (dkey e) \<Longrightarrow> key_entry m' key e = key_entry m key e"
  by (cases "dkey e") (simp_all add: key_entry_def same_key_def bread_string_equals_def bread_string_cstr_def)

lemma find_cong_set: "(\<And>x. x \<in> set xs \<Longrightarrow> P x = Q x) \<Longrightarrow> find P xs = find Q xs"
  by (induction xs) auto

lemma str_get_same:
  assumes "\<And>x. x \<in> set (entries d) \<Longrightarrow> live_entry x \<Longrightarrow> same_key m m' (dkey x)"
  shows "str_get m' d key = str_get m d key"
proof -
  have "key_entry m' key x = key_entry m key x" if "x \<in> set (entries d)" for x
    using assms [OF that] key_entry_same by (cases "live_entry x") (auto simp: key_entry_def)
  then show ?thesis unfolding str_get_def by (metis find_cong_set)
qed

lemma find_update_other: "\<not> P e \<Longrightarrow> \<not> P (es ! s) \<Longrightarrow> find P (es[s := e]) = find P es"
proof (induction es arbitrary: s)
  case (Cons x es)
  then show ?case by (cases s) auto
qed simp

lemma find_update_new: "s < length es \<Longrightarrow> P e \<Longrightarrow> \<forall>x \<in> set es. \<not> P x \<Longrightarrow> find P (es[s := e]) = Some e"
proof (induction es arbitrary: s)
  case (Cons x es)
  then show ?case by (cases s) auto
qed simp

lemma find_update_first: "first_slot P es = Some s \<Longrightarrow> P e \<Longrightarrow> find P (es[s := e]) = Some e"
proof (induction es arbitrary: s)
  case (Cons x es)
  then show ?case by (auto split: if_splits)
qed simp

text \<open>Allocating the string of the key leaves the dictionary and every key as they are.\<close>

lemma dict_view_alloc_string:
  assumes view: "dict_view m0 R a d" and al: "bread_string_new key m0 = (ks, m)"
  shows "dict_view m (add_mset (VString ks) R) a d" "string_data m ks = key" "ks \<noteq> None"
    and "\<And>x. x \<in> set (entries d) \<Longrightarrow> live_entry x \<Longrightarrow> same_key m0 m (dkey x)"
    and "room_for n m0 \<Longrightarrow> n < 2 ^ 32 - 1 \<Longrightarrow> room_for n m"
proof -
  obtain b where b: "bread_memory_alloc (BString \<lparr>sdata = key, interned = False\<rparr>) m0 = (b, m)" "ks = Some b"
    using al by (auto simp: bread_string_new_def bread_string_new_len_def split: prod.splits)
  obtain ob where ob: "get_obj m0 a = Some ob" "body ob = BDict d" "heap_ok m0 R" "VDict (Some a) \<in># R"
    using dict_view_obj [OF view] .
  have same: "get_obj m c = get_obj m0 c" if "get_obj m0 c \<noteq> None" for c
    using new_len_keeps [of key m0 ks m c] al that by (simp add: bread_string_new_def)
  have "heap_ok m (add_mset (VString ks) R)" unfolding b(2) by (rule alloc_ok [OF _ b(1)]) (use ob in simp_all)
  then show "dict_view m (add_mset (VString ks) R) a d" using ob same [of a] by (simp add: dict_view_def)
  show "string_data m ks = key" "ks \<noteq> None" using alloc_string_data [OF b(1)] b(2) by simp_all
  show "same_key m0 m (dkey x)" if x: "x \<in> set (entries d)" "live_entry x" for x
    unfolding same_key_def
  proof (intro allI impI)
    fix r assume r: "dkey x = VString r"
    show "string_data m r = string_data m0 r"
    proof (cases r)
      case (Some c)
      then have "get_obj m0 c \<noteq> None" using view_ref_live [OF view _, of "dkey x" c] x r by force
      with same Some show ?thesis by (simp add: string_data_def)
    qed (simp add: string_data_def)
  qed
  show "room_for n m" if "room_for n m0" "n < 2 ^ 32 - 1" using alloc_room [OF b(1) that] .
qed

lemma dict_view_drop:
  assumes view: "dict_view m (add_mset v R) a d" and R: "VDict (Some a) \<in># R"
  shows "\<exists>m'. bread_value_release v m = Done m' \<and> dict_view m' R a d \<and> strings_kept m m'"
proof -
  obtain m' where m': "bread_value_release v m = Done m'" "heap_ok m' R" "survives m m'"
    using value_release_ok [of m v R] view by blast
  obtain ob' where ob': "get_obj m' a = Some ob'" using root_live [OF m'(2) R] by auto
  then obtain ob where "get_obj m a = Some ob" "body ob = body ob'" using m'(3) unfolding survives_def by blast
  then have "body ob' = BDict d" using view by (auto simp: dict_view_def)
  with m' ob' R survives_kept show ?thesis by (auto simp: dict_view_def)
qed

lemma view_same_keys:
  "dict_view m' R a d' \<Longrightarrow> strings_kept m m' \<Longrightarrow> x \<in> set (entries d') \<Longrightarrow> live_entry x \<Longrightarrow> same_key m m' (dkey x)"
  using view_same_key by blast

lemma set_existing:
  assumes view: "dict_view m (add_mset (VString ks) R) a d" and R: "VDict (Some a) \<in># R" and v: "v \<in># R"
    and room: "room_for 1 m" and key: "NUL \<notin> set key" and s: "first_slot (key_entry m key) (entries d) = Some s"
  shows "\<exists>m1 m2 d'. overwrite_value a s v m = Done m1 \<and> bread_string_release ks m1 = Done m2 \<and>
    dict_view m2 R a d' \<and> dcount d' = dcount d \<and>
    length (filter live_entry (entries d')) = length (filter live_entry (entries d)) \<and>
    (\<forall>key'. NUL \<notin> set key' \<longrightarrow> str_get m2 d' key' = (if key' = key then Some v else str_get m d key'))"
proof -
  let ?e = "entries d ! s" and ?e' = "(entries d ! s)\<lparr>dvalue := v\<rparr>"
  have sn: "s < length (entries d)" and ke: "key_entry m key ?e" using s by (auto simp: first_slot_iff)
  have live: "live_entry ?e" using ke by (simp add: key_entry_def)
  then have live': "live_entry ?e'" by (simp add: live_entry_def)
  obtain m1 where m1: "overwrite_value a s v m = Done m1"
      "dict_view m1 (add_mset (VString ks) R) a (set_slot s ?e' d)" "strings_kept m m1"
    using overwrite_value_ok [OF view _ _ sn live, of v 0] v room by auto
  obtain m2 where m2: "bread_string_release ks m1 = Done m2" "dict_view m2 R a (set_slot s ?e' d)" "strings_kept m1 m2"
    using dict_view_drop [OF m1(2) R] by (auto simp: bread_string_release_def)
  have kept: "strings_kept m m2" using strings_kept_trans [OF m1(3) m2(3)] .
  have ke': "key_entry m k ?e' = key_entry m k ?e" for k
    using live live' by (simp add: key_entry_def)
  have "str_get m2 (set_slot s ?e' d) key' = (if key' = key then Some v else str_get m d key')"
    if "NUL \<notin> set key'" for key'
  proof -
    have "str_get m2 (set_slot s ?e' d) key' = str_get m (set_slot s ?e' d) key'"
      using str_get_same [OF view_same_keys [OF m2(2) kept]] .
    also have "\<dots> = (if key' = key then Some v else str_get m d key')"
    proof (cases "key' = key")
      case True
      with find_update_first [OF s, of ?e'] ke ke' show ?thesis by (simp add: str_get_def set_slot_def)
    next
      case False
      have "\<not> key_entry m key' ?e"
        using ke False that key by (auto simp: key_entry_def bread_string_equals_def strcmp_eq split: val.splits)
      with False ke' find_update_other [of "key_entry m key'" ?e' "entries d" s] show ?thesis
        by (simp add: str_get_def set_slot_def)
    qed
    finally show ?thesis .
  qed
  then show ?thesis using m1(1) m2(1,2) live_update_same(2) [OF sn live live']
    by (intro exI [of _ m1] exI [of _ m2] exI [of _ "set_slot s ?e' d"]) (simp add: set_slot_def)
qed

lemma set_new:
  assumes view: "dict_view m (add_mset (VString ks) R) a d" and R: "VDict (Some a) \<in># R" and v: "v \<in># R"
    and room: "room_for 1 m" and key: "NUL \<notin> set key" "string_data m ks = key" "ks \<noteq> None"
    and absent: "\<forall>x \<in> set (entries d). \<not> key_entry m key x"
    and s: "s < length (entries d)" "\<not> live_entry (entries d ! s)"
    and e: "e = \<lparr>dkey = VString ks, dvalue = v, is_occupied = True, is_deleted = False\<rparr>"
    and d': "d' = (set_slot s e d)\<lparr>dcount := n\<rparr>"
  shows "\<exists>m1. bread_value_clone v m = Done (v, m1) \<and> dict_view (put_dict a d' m1) R a d' \<and>
    (\<forall>key'. NUL \<notin> set key' \<longrightarrow>
       str_get (put_dict a d' m1) d' key' = (if key' = key then Some v else str_get m d key'))"
proof -
  have es: "entries d' = (entries d)[s := e]" by (simp add: d' set_slot_def)
  have live: "live_entry e" by (simp add: e live_entry_def)
  obtain ob where ob: "get_obj m a = Some ob" "body ob = BDict d" "heap_ok m (add_mset (VString ks) R)"
    using dict_view_obj [OF view] .
  have mh: "may_hold m (add_mset (VString ks) R) v" using v by (simp add: may_hold_def)
  obtain m1 where m1: "bread_value_clone v m = Done (v, m1)" "heap_ok m1 (add_mset v (add_mset (VString ks) R))"
      "survives m m1"
    using clone_ok [OF ob(3) mh, of 0] room by auto
  obtain ob1 where ob1: "get_obj m1 a = Some ob1" "body ob1 = BDict d"
    using clone_get [OF m1(1) ob(1)] ob(2) by auto
  let ?m = "put_dict a d' m1"
  have "dict_vals (entries d') = dict_vals (entries d) + {#VString ks, v#}"
    using dict_vals_update [OF s(1), of e] s(2) live by (simp add: es entry_vals_def e)
  then have "heap_ok ?m R"
    unfolding put_dict_def
    by (intro set_body_exchange [OF m1(2) ob1(1)]) (use ob1(2) in \<open>simp_all add: children_dict del: children.simps\<close>)
  then have view': "dict_view ?m R a d'" using R get_put_dict [OF ob1(1)] by (simp add: dict_view_def)
  have kept: "strings_kept m ?m"
    using strings_kept_trans [OF survives_kept [OF m1(3)]] put_dict_kept [OF ob1] by blast
  have ke: "key_entry m key' e \<longleftrightarrow> key' = key" if "NUL \<notin> set key'" for key'
    using that key live by (auto simp: key_entry_def e bread_string_equals_def bread_string_cstr_def cstr_no_nul strcmp_eq)
  have "str_get ?m d' key' = (if key' = key then Some v else str_get m d key')" if n: "NUL \<notin> set key'" for key'
  proof -
    have "str_get ?m d' key' = str_get m d' key'"
      using str_get_same [OF view_same_keys [OF view' kept]] .
    also have "\<dots> = (if key' = key then Some v else str_get m d key')"
    proof (cases "key' = key")
      case True
      with find_update_new [OF s(1), of "key_entry m key" e] absent ke [OF n] show ?thesis
        by (simp add: str_get_def es e)
    next
      case False
      moreover have "\<not> key_entry m key' (entries d ! s)" using s(2) by (simp add: key_entry_def)
      ultimately show ?thesis using find_update_other [of "key_entry m key'" e "entries d" s] ke [OF n]
        by (simp add: str_get_def es)
    qed
    finally show ?thesis .
  qed
  with m1(1) view' show ?thesis by blast
qed

lemma key_entry_put:
  assumes "dict_view m R a d"
  shows "key_entry (put_dict a d' m) key = key_entry m key"
proof
  fix x
  obtain ob where ob: "get_obj m a = Some ob" "body ob = BDict d" using dict_view_obj [OF assms] .
  show "key_entry (put_dict a d' m) key x = key_entry m key x"
    by (rule key_entry_same) (simp add: same_key_def put_dict_string_data [OF ob])
qed

lemma dict_set_prepare:
  assumes "dict_view m R a d" "dcount d = length (filter live_entry (entries d))"
    and "d2 = grow_scanned (fix_types kt vt d)"
  shows "dict_view (put_dict a d2 m) R a d2"
    "filter live_entry (entries d2) = filter live_entry (entries d)" "dcount d2 = dcount d"
    "dcount d2 < length (entries d2)" "str_get (put_dict a d2 m) d2 key = str_get m d key"
    "string_data (put_dict a d2 m) r = string_data m r"
    "key_entry (put_dict a d2 m) key = key_entry m key"
proof -
  have c: "dcount (fix_types kt vt d) = length (filter live_entry (entries (fix_types kt vt d)))" using assms(2) by simp
  note g = grow_scanned_ok [OF c, folded assms(3), unfolded fix_types_simps]
  from g show f: "filter live_entry (entries d2) = filter live_entry (entries d)" and "dcount d2 = dcount d"
    "dcount d2 < length (entries d2)" by auto
  have "dict_vals (entries d2) = dict_vals (entries d)" unfolding dict_vals_mset f ..
  then show "dict_view (put_dict a d2 m) R a d2" by (rule dict_view_put [OF assms(1)])
  obtain ob where ob: "get_obj m a = Some ob" "body ob = BDict d" using dict_view_obj [OF assms(1)] .
  show sd: "string_data (put_dict a d2 m) r = string_data m r" for r using put_dict_string_data [OF ob] .
  show "key_entry (put_dict a d2 m) key = key_entry m key" using key_entry_put [OF assms(1)] .
  then show "str_get (put_dict a d2 m) d2 key = str_get m d key"
    unfolding str_get_def by (simp only: find_live [of m key "entries d2"] find_live [of m key "entries d"] f)
qed

text \<open>
  C13: setting a string key of a dictionary that takes string keys and the value succeeds;
  afterwards the key reads as the value and every other key as before, whatever else was done to
  the dictionary, deletions included. The count stays exact; the string made for the key is kept
  only where the key is new.
\<close>
theorem dict_set_get_correct:
  assumes view: "dict_view m R a d" and count: "dcount d = length (filter live_entry (entries d))"
    and kt: "key_type d = TYPE_NIL \<or> key_type d = TYPE_STRING" and fit: "fits (value_type d) v"
    and v: "v \<in># R" and key: "NUL \<notin> set key" and room: "room_for 1 m"
  shows "\<exists>m' d' s. bread_dict_set (Some a) key v m = Done (True, m') \<and> dict_view m' R a d' \<and>
    dcount d' = length (filter live_entry (entries d')) \<and>
    bread_dict_get (Some a) key m' = Done (Some s) \<and> dvalue (entries d' ! s) = v \<and>
    (\<forall>key'. NUL \<notin> set key' \<longrightarrow> str_get m' d' key' = (if key' = key then Some v else str_get m d key'))"
proof -
  obtain ks m1 where al: "bread_string_new key m = (ks, m1)" by fastforce
  note pre = dict_view_alloc_string [OF view al]
  define d1 where "d1 = fix_types TYPE_STRING (vtype v) d"
  have R: "VDict (Some a) \<in># R" using view by blast
  have r1: "room_for 1 m1" using pre(5) room by simp
  have same: "str_get m1 d k = str_get m d k" for k using str_get_same [OF pre(4)] .
  have found: "\<exists>s. bread_dict_get (Some a) key m' = Done (Some s) \<and> dvalue (entries d' ! s) = v"
    if "dict_view m' R a d'" "str_get m' d' key = Some v" for m' d'
  proof -
    note at' = dict_viewD(3) [OF that(1)]
    obtain q where "bread_dict_get (Some a) key m' = Done q" "str_get m' d' key = map_option (\<lambda>s. dvalue (entries d' ! s)) q"
      using get_str_get [OF at', of key] by blast
    with that(2) show ?thesis by (cases q) simp_all
  qed
  have at: "dict_at m1 a = Done d" using dict_viewD(3) [OF pre(1)] .
  show ?thesis
  proof (cases "first_slot (key_entry m1 key) (entries d1)")
    case (Some s)
    have view1: "dict_view (put_dict a d1 m1) (add_mset (VString ks) R) a d1"
      by (rule dict_view_put [OF pre(1)]) (simp add: d1_def)
    have ke: "key_entry (put_dict a d1 m1) k = key_entry m1 k" for k using key_entry_put [OF pre(1)] by blast
    have s': "first_slot (key_entry (put_dict a d1 m1) key) (entries d1) = Some s" using Some by (simp add: ke)
    obtain m2 m3 d' where m': "overwrite_value a s v (put_dict a d1 m1) = Done m2" "bread_string_release ks m2 = Done m3"
        "dict_view m3 R a d'" "dcount d' = dcount d1"
        "length (filter live_entry (entries d')) = length (filter live_entry (entries d1))"
        "\<forall>key'. NUL \<notin> set key' \<longrightarrow> str_get m3 d' key' =
           (if key' = key then Some v else str_get (put_dict a d1 m1) d1 key')"
      using set_existing [OF view1 R v _ key s'] r1 by auto
    have run: "bread_dict_set (Some a) key v m = Done (True, m3)"
      using al at kt fit Some m'(1,2)
      by (auto simp: bread_dict_set_def fits_def Let_def d1_def [symmetric])
    have "str_get (put_dict a d1 m1) d1 k = str_get m d k" for k
    proof -
      have "entries d1 = entries d" by (simp add: d1_def)
      then show ?thesis unfolding same [of k, symmetric] by (simp add: str_get_def ke)
    qed
    with run m' count found [OF m'(3)] key show ?thesis
      by (intro exI [of _ m3] exI [of _ d']) (simp add: d1_def)
  next
    case None
    define d2 where "d2 = grow_scanned d1"
    define m2 where "m2 = put_dict a d2 m1"
    note g = dict_set_prepare [OF pre(1) count d2_def [unfolded d1_def], folded m2_def]
    obtain s where s: "first_slot (\<lambda>e. \<not> is_occupied e \<or> is_deleted e) (entries d2) = Some s"
    proof (cases "first_slot (\<lambda>e. \<not> is_occupied e \<or> is_deleted e) (entries d2)")
      case None
      then have "filter live_entry (entries d2) = entries d2" by (auto simp: first_slot_None live_entry_def)
      with g(3,4) count g(2) show ?thesis by simp
    qed
    then have sn: "s < length (entries d2)" "\<not> live_entry (entries d2 ! s)"
      by (auto simp: first_slot_iff live_entry_def)
    have "\<forall>x \<in> set (entries d2). \<not> key_entry m2 key x"
    proof
      fix x assume x: "x \<in> set (entries d2)"
      show "\<not> key_entry m2 key x"
      proof (cases "live_entry x")
        case True
        then have "x \<in> set (filter live_entry (entries d2))" using x by simp
        then have "x \<in> set (entries d)" unfolding g(2) by simp
        with None show ?thesis by (auto simp: first_slot_None g(7) d1_def)
      qed (simp add: key_entry_def)
    qed
    from set_new [OF g(1) R v _ key _ pre(3) this sn refl refl, of "dcount d2 + 1"] r1 pre(2) g(6)
    obtain m3 d3 where m3: "bread_value_clone v m2 = Done (v, m3)"
      "d3 = (set_slot s \<lparr>dkey = VString ks, dvalue = v, is_occupied = True, is_deleted = False\<rparr> d2)\<lparr>dcount := dcount d2 + 1\<rparr>"
      "dict_view (put_dict a d3 m3) R a d3"
      "\<forall>key'. NUL \<notin> set key' \<longrightarrow> str_get (put_dict a d3 m3) d3 key' = (if key' = key then Some v else str_get m2 d2 key')"
      by (auto simp: m2_def)
    have run: "bread_dict_set (Some a) key v m = Done (True, put_dict a d3 m3)"
      using al at kt fit None s m3(1,2) by (auto simp: bread_dict_set_def fits_def Let_def d1_def [symmetric]
          d2_def [symmetric] m2_def [symmetric])
    have "length (filter live_entry (entries d3)) = Suc (length (filter live_entry (entries d2)))"
      using arg_cong [OF mset_live_update [OF sn], of "\<lparr>dkey = VString ks, dvalue = v, is_occupied = True,
         is_deleted = False\<rparr>" size]
      by (simp add: m3(2) set_slot_def live_entry_def del: mset_filter)
    then have "dcount d3 = length (filter live_entry (entries d3))"
      using g(2,3) count by (simp add: m3(2))
    with run m3(3,4) g(5) same found [OF m3(3)] key show ?thesis
      by (intro exI [of _ "put_dict a d3 m3"] exI [of _ d3]) simp
  qed
qed

section \<open>A sample\<close>

definition empty_dict :: mem where
  "empty_dict = snd (bread_dict_new bread_memory_init)"

lemma empty_dict_view:
  "dict_view empty_dict {#VDict (Some 0), VInt 5#} 0 \<lparr>dcount = 0, key_type = TYPE_NIL, value_type = TYPE_NIL, entries = []\<rparr>"
proof -
  have "new_dict 0 TYPE_NIL TYPE_NIL bread_memory_init = (0, empty_dict)"
    by (simp add: empty_dict_def bread_dict_new_def new_dict_def bread_memory_alloc_def bread_memory_init_def)
  from new_dict_view [OF _ this, of "{#VInt 5#}"] heap_ok_init show ?thesis by simp
qed

lemma empty_dict_room: "room_for 1 empty_dict"
  by (simp add: empty_dict_def bread_dict_new_def room_for_def rc_of_def new_dict_def bread_memory_alloc_def
      bread_memory_init_def get_obj_def)

theorem dict_set_get_correct_witness:
  "\<exists>m' d' s. bread_dict_set (Some 0) ''k'' (VInt 5) empty_dict = Done (True, m') \<and>
    bread_dict_get (Some 0) ''k'' m' = Done (Some s) \<and> dict_view m' {#VDict (Some 0), VInt 5#} 0 d' \<and>
    dvalue (entries d' ! s) = VInt 5"
  using dict_set_get_correct [OF empty_dict_view, of "VInt 5" "''k''"] empty_dict_room
  by (simp add: fits_def NUL_def) blast

text \<open>
  The string-keyed store ignores the hash, so the hashed lookup need not find what it stored:
  in a new dictionary the key lands in slot 0, while its hash leads to slot 4.
\<close>

lemma set_not_hashed:
  "\<exists>m' ks. bread_dict_set (Some 0) ''a'' (VInt 5) empty_dict = Done (True, m') \<and>
    string_data m' ks = ''a'' \<and> bread_dict_get (Some 0) ''a'' m' = Done (Some 0) \<and>
    bread_dict_contains_key (Some 0) (VString ks) m' = Done False"
proof -
  let ?e = "\<lparr>dkey = VString (Some (Suc 0)), dvalue = VInt 5, is_occupied = True, is_deleted = False\<rparr>"
  let ?dn = "\<lparr>dcount = 0, key_type = TYPE_NIL, value_type = TYPE_NIL, entries = []\<rparr>"
  let ?d = "\<lparr>dcount = Suc 0, key_type = TYPE_STRING, value_type = TYPE_INT, entries = ?e # replicate 7 empty_entry\<rparr>"
  let ?d2 = "\<lparr>dcount = 0, key_type = TYPE_STRING, value_type = TYPE_INT, entries = replicate 8 empty_entry\<rparr>"
  obtain m1 where al: "bread_string_new ''a'' empty_dict = (Some (Suc 0), m1)"
    by (simp add: bread_string_new_def bread_string_new_len_def empty_dict_def bread_dict_new_def new_dict_def
        bread_memory_alloc_def bread_memory_init_def)
  note pre = dict_view_alloc_string [OF empty_dict_view al]
  have at: "dict_at m1 0 = Done ?dn" using dict_viewD(3) [OF pre(1)] .
  let ?m2 = "put_dict 0 ?d2 m1" and ?m = "put_dict 0 ?d (put_dict 0 ?d2 m1)"
  have fs: "first_slot (\<lambda>e. \<not> is_occupied e \<or> is_deleted e) (replicate 8 empty_entry) = Some 0"
    by (simp add: numeral_eq_Suc empty_entry_def)
  have gr: "grow_scanned (fix_types TYPE_STRING TYPE_INT ?dn) = ?d2"
    by (simp add: grow_scanned_def fix_types_def)
  have up: "(set_slot 0 ?e ?d2)\<lparr>dcount := Suc 0\<rparr> = ?d"
    by (simp add: set_slot_def numeral_eq_Suc)
  have run: "bread_dict_set (Some 0) ''a'' (VInt 5) empty_dict = Done (True, ?m)"
    using fs up by (simp add: bread_dict_set_def al at gr bread_value_clone_def bread_object_retain_def Let_def)
  obtain ob where ob: "get_obj m1 0 = Some ob" "body ob = BDict ?dn" using dict_view_obj [OF pre(1)] .
  have o2: "get_obj ?m2 0 = Some (ob\<lparr>body := BDict ?d2\<rparr>)" using get_put_dict [OF ob(1)] .
  have sd: "string_data ?m (Some (Suc 0)) = ''a''"
    using put_dict_string_data [OF o2] put_dict_string_data [OF ob] pre(2) by simp
  have at': "dict_at ?m 0 = Done ?d" using get_put_dict [OF o2] by (simp add: dict_at_def)
  have h: "unat (bread_dict_hash_key ?m (VString (Some (Suc 0)))) mod 8 = 4"
    unfolding bread_dict_hash_key.simps option.case sd by (simp add: fnv1a_def)
  have len: "length (entries ?d) = 8" by simp
  have "slot_stops ?m (entries ?d) (VString (Some (Suc 0))) 4" by (simp add: slot_stops_def empty_entry_def)
  then have "bread_dict_find_slot ?m (entries ?d) (VString (Some (Suc 0))) = Some 4"
    unfolding bread_dict_find_slot_def len h by (simp add: probe_numeral)
  then have "live_slot ?m ?d (VString (Some (Suc 0))) = None"
    by (simp add: live_slot_def live_entry_def empty_entry_def)
  then have no: "bread_dict_contains_key (Some 0) (VString (Some (Suc 0))) ?m = Done False"
    using at' by (simp add: bread_dict_contains_key_def)
  have "key_entry ?m ''a'' ?e"
    by (simp add: key_entry_def live_entry_def bread_string_equals_def bread_string_cstr_def sd cstr_def NUL_def)
  then have "bread_dict_get (Some 0) ''a'' ?m = Done (Some 0)" using at' by (simp add: bread_dict_get_def)
  with run sd no show ?thesis by blast
qed

end
