(* ===== verification/BreadRecords.thy ===== *)
theory BreadRecords
  imports BreadSlots
begin

text \<open>
  Objects with named fields: the structs of \<^verbatim>\<open>src/core/value_struct.c\<close>, the optionals of
  \<^verbatim>\<open>src/core/value_optional.c\<close> and the fields and methods of the class objects of
  \<^verbatim>\<open>src/core/value_class.c\<close> (the registry of class definitions and the hierarchy are in
  \<open>BreadClasses\<close>). A C array given as a pointer and a count is a list behind an option; a field
  name that is NULL is \<open>None\<close>. A pointer to a field value is the index of the field.
\<close>

section \<open>Names and slots\<close>

fun find_name :: "cstring option list \<Rightarrow> cstring \<Rightarrow> nat \<Rightarrow> nat option outcome" where
  \<comment> \<open>\<^verbatim>\<open>for (i...) if (strcmp(names[i], name) == 0) return i;\<close> where a NULL name is a crash\<close>
  "find_name [] name i = Done None"
| "find_name (None # ns) name i = Undefined"
| "find_name (Some n # ns) name i = (if n = name then Done (Some i) else find_name ns name (Suc i))"

fun find_set_name :: "cstring option list \<Rightarrow> cstring \<Rightarrow> nat \<Rightarrow> nat option" where
  \<comment> \<open>the same loop where the code skips a NULL name\<close>
  "find_set_name [] name i = None"
| "find_set_name (n # ns) name i = (if n = Some name then Some i else find_set_name ns name (Suc i))"

definition overwrite_slot :: "(val list \<Rightarrow> body) \<Rightarrow> val list \<Rightarrow> addr \<Rightarrow> nat \<Rightarrow> val \<Rightarrow> mem \<Rightarrow> mem outcome" where
  \<comment> \<open>\<^verbatim>\<open>bread_value_release(&vs[i]); vs[i] = bread_value_clone(v)\<close> in the object at \<open>a\<close>, whose
    contents are \<open>mk vs\<close>; a released slot is nil\<close>
  "overwrite_slot mk vs a i v m =
     bnd (bread_value_release (vs ! i) m) (\<lambda>m1.
     bnd (bread_value_clone v (set_body a (mk (vs[i := VNil])) m1)) (\<lambda>(w, m2).
       Done (set_body a (mk (vs[i := w])) m2)))"

definition rows_of :: "int \<Rightarrow> 'a list option \<Rightarrow> 'a list outcome" where
  \<comment> \<open>the first \<open>n\<close> elements behind a pointer\<close>
  "rows_of n p = (if n \<le> 0 then Done [] else
     (case p of None \<Rightarrow> Undefined
      | Some xs \<Rightarrow> if length xs < nat n then Undefined else Done (take (nat n) xs)))"

section \<open>Structs\<close>

definition struct_at :: "mem \<Rightarrow> addr \<Rightarrow> bstruct outcome" where
  "struct_at m a = (case get_obj m a of None \<Rightarrow> Undefined
     | Some ob \<Rightarrow> (case body ob of BStruct s \<Rightarrow> Done s | _ \<Rightarrow> Undefined))"

definition bread_struct_new ::
  "cstring option \<Rightarrow> int \<Rightarrow> cstring list option \<Rightarrow> mem \<Rightarrow> (ref \<times> mem) outcome" where
  "bread_struct_new tn field_count names m =
     (case tn of None \<Rightarrow> Done (None, m)
      | Some t \<Rightarrow>
          if field_count < 0 \<or> (field_count > 0 \<and> names = None) then Done (None, m)
          else bnd (rows_of field_count names) (\<lambda>fs.
            let (a, m1) = bread_memory_alloc (BStruct \<lparr>type_name = t, sfields = map (\<lambda>f. (f, VNil)) fs\<rparr>) m
            in Done (Some a, m1)))"

definition bread_struct_find_field_index :: "ref \<Rightarrow> cstring option \<Rightarrow> mem \<Rightarrow> nat option outcome" where
  \<comment> \<open>the result -1 is \<open>None\<close>\<close>
  "bread_struct_find_field_index r f m =
     (case (r, f) of (Some a, Some name) \<Rightarrow>
        bnd (struct_at m a) (\<lambda>s. find_name (map (Some \<circ> fst) (sfields s)) name 0)
      | _ \<Rightarrow> Done None)"

definition struct_with :: "bstruct \<Rightarrow> val list \<Rightarrow> body" where
  "struct_with s vs = BStruct (s\<lparr>sfields := zip (map fst (sfields s)) vs\<rparr>)"

definition bread_struct_set_field :: "ref \<Rightarrow> cstring option \<Rightarrow> val \<Rightarrow> mem \<Rightarrow> mem outcome" where
  "bread_struct_set_field r f v m =
     (case (r, f) of (Some a, Some name) \<Rightarrow>
        bnd (bread_struct_find_field_index r f m) (\<lambda>index.
          case index of None \<Rightarrow> Done m
          | Some i \<Rightarrow> bnd (struct_at m a) (\<lambda>s.
              overwrite_slot (struct_with s) (map snd (sfields s)) a i v m))
      | _ \<Rightarrow> Done m)"

definition bread_struct_set_field_value_ptr :: "ref \<Rightarrow> cstring option \<Rightarrow> val option \<Rightarrow> mem \<Rightarrow> mem outcome" where
  "bread_struct_set_field_value_ptr r f v m =
     (case v of None \<Rightarrow> Done m | Some w \<Rightarrow> bread_struct_set_field r f w m)"

definition bread_struct_get_field :: "ref \<Rightarrow> cstring option \<Rightarrow> mem \<Rightarrow> nat option outcome" where
  "bread_struct_get_field r f m =
     (case (r, f) of (Some a, Some name) \<Rightarrow> bread_struct_find_field_index r f m | _ \<Rightarrow> Done None)"

section \<open>Optionals\<close>

definition bread_optional_new_none :: "mem \<Rightarrow> ref \<times> mem" where
  "bread_optional_new_none m = (let (a, m1) = bread_memory_alloc (BOptional None) m in (Some a, m1))"

definition bread_optional_new_some :: "val \<Rightarrow> mem \<Rightarrow> (ref \<times> mem) outcome" where
  "bread_optional_new_some v m =
     (let (a, m1) = bread_memory_alloc (BOptional None) m in
      bnd (bread_value_clone v m1) (\<lambda>(w, m2). Done (Some a, set_body a (BOptional (Some w)) m2)))"

section \<open>Class objects\<close>

definition class_at :: "mem \<Rightarrow> addr \<Rightarrow> bclass outcome" where
  "class_at m a = (case get_obj m a of None \<Rightarrow> Undefined
     | Some ob \<Rightarrow> (case body ob of BClass c \<Rightarrow> Done c | _ \<Rightarrow> Undefined))"

definition put_class :: "addr \<Rightarrow> bclass \<Rightarrow> mem \<Rightarrow> mem" where
  "put_class a c m = set_body a (BClass c) m"

definition bread_class_new ::
  "cstring option \<Rightarrow> cstring option \<Rightarrow> int \<Rightarrow> cstring option list option \<Rightarrow> mem \<Rightarrow> (ref \<times> mem) outcome" where
  "bread_class_new cn pn field_count names m =
     (case cn of None \<Rightarrow> Done (None, m)
      | Some n \<Rightarrow>
          if field_count < 0 \<or> (field_count > 0 \<and> names = None) then Done (None, m)
          else bnd (rows_of field_count names) (\<lambda>fs.
            let (a, m1) = bread_memory_alloc (BClass
                  \<lparr>class_name = n, parent_name = pn, parent_class = None, cfields = map (\<lambda>f. (f, VNil)) fs,
                   method_names = [], methods = [], compiled_methods = [], compiled_constructor = None\<rparr>) m
            in Done (Some a, m1)))"

definition bread_class_new_with_methods ::
  "cstring option \<Rightarrow> cstring option \<Rightarrow> int \<Rightarrow> cstring option list option \<Rightarrow>
   int \<Rightarrow> cstring option list option \<Rightarrow> mem \<Rightarrow> (ref \<times> mem) outcome" where
  "bread_class_new_with_methods cn pn field_count fnames method_count mnames m =
     bnd (bread_class_new cn pn field_count fnames m) (\<lambda>(r, m1).
       case r of None \<Rightarrow> Done (None, m1)
       | Some a \<Rightarrow>
           if method_count > 0 \<and> mnames \<noteq> None
           then bnd (class_at m1 a) (\<lambda>c. bnd (rows_of method_count mnames) (\<lambda>ms.
             Done (Some a, put_class a
               (c\<lparr>method_names := ms, compiled_methods := replicate (length ms) None\<rparr>) m1)))
           else Done (Some a, m1))"

definition bread_class_find_field_index :: "ref \<Rightarrow> cstring option \<Rightarrow> mem \<Rightarrow> nat option outcome" where
  "bread_class_find_field_index r f m =
     (case (r, f) of (Some a, Some name) \<Rightarrow>
        bnd (class_at m a) (\<lambda>c. find_name (map fst (cfields c)) name 0)
      | _ \<Rightarrow> Done None)"

definition class_with :: "bclass \<Rightarrow> val list \<Rightarrow> body" where
  "class_with c vs = BClass (c\<lparr>cfields := zip (map fst (cfields c)) vs\<rparr>)"

definition bread_class_set_field :: "ref \<Rightarrow> cstring option \<Rightarrow> val \<Rightarrow> mem \<Rightarrow> mem outcome" where
  "bread_class_set_field r f v m =
     (case (r, f) of (Some a, Some name) \<Rightarrow>
        bnd (bread_class_find_field_index r f m) (\<lambda>index.
          case index of None \<Rightarrow> Done m
          | Some i \<Rightarrow> bnd (class_at m a) (\<lambda>c.
              overwrite_slot (class_with c) (map snd (cfields c)) a i v m))
      | _ \<Rightarrow> Done m)"

definition bread_class_set_field_value_ptr :: "ref \<Rightarrow> cstring option \<Rightarrow> val option \<Rightarrow> mem \<Rightarrow> mem outcome" where
  "bread_class_set_field_value_ptr r f v m =
     (case (r, f, v) of (Some a, Some name, Some w) \<Rightarrow>
        bnd (bread_class_find_field_index r f m) (\<lambda>index.
          case index of None \<Rightarrow> Done m
          | Some i \<Rightarrow> bnd (class_at m a) (\<lambda>c.
              overwrite_slot (class_with c) (map snd (cfields c)) a i w m))
      | _ \<Rightarrow> Done m)"

definition bread_class_get_field :: "ref \<Rightarrow> cstring option \<Rightarrow> mem \<Rightarrow> nat option outcome" where
  "bread_class_get_field r f m =
     (case (r, f) of (Some a, Some name) \<Rightarrow> bread_class_find_field_index r f m | _ \<Rightarrow> Done None)"

definition bread_class_get_field_value_ptr :: "ref \<Rightarrow> cstring option \<Rightarrow> mem \<Rightarrow> val option outcome" where
  \<comment> \<open>\<open>Some v\<close>: the result is 1 and \<^verbatim>\<open>*out\<close> is \<open>v\<close> (not retained); \<open>None\<close>: the result is 0\<close>
  "bread_class_get_field_value_ptr r f m =
     (case (r, f) of (Some a, Some name) \<Rightarrow>
        bnd (bread_class_get_field r f m) (\<lambda>field.
          case field of None \<Rightarrow> Done None
          | Some i \<Rightarrow> bnd (class_at m a) (\<lambda>c. Done (Some (snd (cfields c ! i)))))
      | _ \<Rightarrow> Done None)"

definition bread_class_find_method_index :: "ref \<Rightarrow> cstring option \<Rightarrow> mem \<Rightarrow> nat option outcome" where
  "bread_class_find_method_index r f m =
     (case (r, f) of (Some a, Some name) \<Rightarrow>
        bnd (class_at m a) (\<lambda>c. Done (find_set_name (method_names c) name 0))
      | _ \<Rightarrow> Done None)"

definition bread_class_add_method :: "ref \<Rightarrow> cstring option \<Rightarrow> nat option \<Rightarrow> mem \<Rightarrow> mem outcome" where
  \<comment> \<open>\<^verbatim>\<open>realloc\<close> of the table of methods leaves uninitialised entries where there was none\<close>
  "bread_class_add_method r f meth m =
     (case (r, f, meth) of (Some a, Some name, Some p) \<Rightarrow>
        bnd (class_at m a) (\<lambda>c.
          let n = length (method_names c) in
          Done (put_class a (c\<lparr>method_names := method_names c @ [Some name],
            methods := (methods c @ replicate (n - length (methods c)) None) @ [Some p],
            compiled_methods := compiled_methods c @ [None]\<rparr>) m))
      | _ \<Rightarrow> Done m)"

definition bread_class_set_compiled_method :: "ref \<Rightarrow> int \<Rightarrow> nat option \<Rightarrow> mem \<Rightarrow> mem outcome" where
  "bread_class_set_compiled_method r i fn m =
     (case r of None \<Rightarrow> Done m
      | Some a \<Rightarrow> bnd (class_at m a) (\<lambda>c.
          if i < 0 \<or> i \<ge> int (length (method_names c)) \<or> compiled_methods c = [] then Done m
          else Done (put_class a (c\<lparr>compiled_methods := (compiled_methods c)[nat i := fn]\<rparr>) m)))"

definition bread_class_set_compiled_constructor :: "ref \<Rightarrow> nat option \<Rightarrow> mem \<Rightarrow> mem outcome" where
  "bread_class_set_compiled_constructor r fn m =
     (case r of None \<Rightarrow> Done m
      | Some a \<Rightarrow> bnd (class_at m a) (\<lambda>c. Done (put_class a (c\<lparr>compiled_constructor := fn\<rparr>) m)))"

section \<open>Slots of objects with fields\<close>

text \<open>
  What the two kinds of objects with named fields share: an object whose contents are given by the
  list of the values in its slots.
\<close>

locale slotted =
  fixes at :: "mem \<Rightarrow> addr \<Rightarrow> 'r outcome"
    and wrap :: "'r \<Rightarrow> body"
    and tag :: "ref \<Rightarrow> val"
    and rows :: "'r \<Rightarrow> ('n \<times> val) list"
    and with_rows :: "'r \<Rightarrow> ('n \<times> val) list \<Rightarrow> 'r"
  assumes at_iff: "at m a = Done x \<longleftrightarrow> (\<exists>ob. get_obj m a = Some ob \<and> body ob = wrap x)"
    and kids: "children (wrap x) = map snd (rows x)"
    and kinds: "same_kind (wrap x) (wrap y)"
    and tag_ref: "ref_of (tag r) = r"
    and rows_with: "rows (with_rows x fs) = fs"
begin

definition view :: "mem \<Rightarrow> val multiset \<Rightarrow> addr \<Rightarrow> 'r \<Rightarrow> bool" where
  "view m R a x \<longleftrightarrow> heap_ok m R \<and> tag (Some a) \<in># R \<and> at m a = Done x"

definition put :: "'r \<Rightarrow> val list \<Rightarrow> body" where
  "put x vs = wrap (with_rows x (zip (map fst (rows x)) vs))"

lemma children_put: "length vs = length (rows x) \<Longrightarrow> children (put x vs) = vs"
  by (simp add: put_def kids rows_with)

lemma overwrite_ok:
  assumes view: "view m R a x" and v: "v \<in># R" and room: "room_for (Suc n) m" and i: "i < length (rows x)"
  shows "\<exists>m'. overwrite_slot (put x) (map snd (rows x)) a i v m = Done m' \<and>
    view m' R a (with_rows x ((rows x)[i := (fst (rows x ! i), v)])) \<and> room_for n m'"
proof -
  let ?vs = "map snd (rows x)"
  obtain ob where ob: "get_obj m a = Some ob" "body ob = wrap x" "heap_ok m R" "tag (Some a) \<in># R"
    using view by (auto simp: view_def at_iff)
  have k: "same_kind (body ob) (put x vs)" for vs using ob(2) kinds by (simp add: put_def)
  have len: "length (?vs[i := w]) = length (rows x)" for w by simp
  have "mset (children (body ob)) + {#VNil#} = add_mset (?vs ! i) (mset (children (put x (?vs[i := VNil]))))"
    using i by (simp only: ob(2) kids children_put [OF len]) (simp add: mset_update)
  then obtain m1 ob1 where m1: "bread_value_release (?vs ! i) m = Done m1" "get_obj m1 a = Some ob1"
      "heap_ok (set_body a (put x (?vs[i := VNil])) m1) R" "\<forall>n. room_for n m \<longrightarrow> room_for n m1"
    using slot_release [OF ob(3,4) tag_ref ob(1) k [of "?vs[i := VNil]"], of "{#VNil#}" "?vs ! i"] by auto
  let ?m = "set_body a (put x (?vs[i := VNil])) m1" and ?o = "ob1\<lparr>body := put x (?vs[i := VNil])\<rparr>"
  have g: "get_obj ?m a = Some ?o" using m1(2) by (simp add: set_body_get)
  have mh: "may_hold ?m R v" using v by (simp add: may_hold_def)
  have r: "room_for (Suc n) ?m" using m1(4) room by simp
  have k2: "same_kind (body ?o) (put x (?vs[i := v]))" using kinds by (simp add: put_def)
  have "mset (children (put x (?vs[i := v]))) + {#VNil#} = add_mset v (mset (children (body ?o)))"
    using i by (simp add: children_put mset_update)
  from slot_store [OF m1(3) mh r g k2 this]
  obtain m2 ob2 where m2: "bread_value_clone v ?m = Done (v, m2)" "heap_ok (set_body a (put x (?vs[i := v])) m2) R"
      "room_for n m2" "get_obj m2 a = Some ob2" by auto
  have "put x (?vs[i := v]) = wrap (with_rows x ((rows x)[i := (fst (rows x ! i), v)]))"
    unfolding put_def using i
    by (intro arg_cong [where f = wrap] arg_cong [where f = "with_rows x"]) (auto intro!: nth_equalityI simp: nth_list_update)
  with m1 m2 ob(4) show ?thesis
    by (auto simp: overwrite_slot_def view_def at_iff set_body_get)
qed

end

interpretation structs: slotted struct_at BStruct VStruct sfields "\<lambda>s fs. s\<lparr>sfields := fs\<rparr>"
  by unfold_locales (auto simp: struct_at_def split: option.splits body.splits)

interpretation classes: slotted class_at BClass VClass cfields "\<lambda>c fs. c\<lparr>cfields := fs\<rparr>"
  by unfold_locales (auto simp: class_at_def split: option.splits body.splits)

lemma struct_with_put: "struct_with = structs.put"
  by (intro ext) (simp add: struct_with_def structs.put_def)

lemma class_with_put: "class_with = classes.put"
  by (intro ext) (simp add: class_with_def classes.put_def)

section \<open>Finding and setting a field\<close>

lemma find_name_spec:
  "None \<notin> set ns \<Longrightarrow> find_name ns f i =
     Done (if Some f \<in> set ns then Some (i + length (takeWhile (\<lambda>n. n \<noteq> Some f) ns)) else None)"
  by (induction ns f i rule: find_name.induct) auto

lemma find_set_name_spec:
  "find_set_name ns f i = (if Some f \<in> set ns then Some (i + length (takeWhile (\<lambda>n. n \<noteq> Some f) ns)) else None)"
  by (induction ns f i rule: find_set_name.induct) auto

lemma first_row:
  assumes "k \<in> fst ` set fs"
  defines "i \<equiv> length (takeWhile (\<lambda>n. n \<noteq> k) (map fst fs))"
  shows "i < length fs" "fst (fs ! i) = k" "map_of fs k = Some (snd (fs ! i))"
    "map_of (fs[i := (k, v)]) = (map_of fs)(k \<mapsto> v)"
proof -
  have "i < length fs \<and> fst (fs ! i) = k \<and> map_of fs k = Some (snd (fs ! i)) \<and>
      map_of (fs[i := (k, v)]) = (map_of fs)(k \<mapsto> v)"
    using assms(1) unfolding i_def
  proof (induction fs)
    case (Cons p fs)
    show ?case
    proof (cases "fst p = k")
      case False
      with Cons have "k \<in> fst ` set fs" by auto
      from Cons.IH [OF this] False show ?thesis by (cases p) (auto simp: fun_upd_twist)
    qed (cases p, simp add: fun_eq_iff)
  qed simp
  then show "i < length fs" "fst (fs ! i) = k" "map_of fs k = Some (snd (fs ! i))"
      "map_of (fs[i := (k, v)]) = (map_of fs)(k \<mapsto> v)" by auto
qed


text \<open>Set and get, for either kind of object, in terms of the fields as a map.\<close>

definition named :: "(cstring option \<times> val) list \<Rightarrow> bool" where
  "named fs \<longleftrightarrow> None \<notin> fst ` set fs"

lemma class_field_index:
  assumes "class_at m a = Done c" "named (cfields c)"
  shows "bread_class_find_field_index (Some a) (Some f) m =
    Done (if Some f \<in> fst ` set (cfields c)
          then Some (length (takeWhile (\<lambda>n. n \<noteq> Some f) (map fst (cfields c)))) else None)"
  using assms find_name_spec [of "map fst (cfields c)" f 0]
  by (simp add: bread_class_find_field_index_def named_def)

lemma class_get_field:
  assumes "class_at m a = Done c" "named (cfields c)"
  shows "bread_class_get_field_value_ptr (Some a) (Some f) m = Done (map_of (cfields c) (Some f))"
  using class_field_index [OF assms, of f] first_row(3) [of "Some f" "cfields c"] assms(1)
    map_of_eq_None_iff [of "cfields c" "Some f", THEN iffD2]
  by (auto simp: bread_class_get_field_value_ptr_def bread_class_get_field_def)

lemma class_set_field:
  assumes view: "classes.view m R a c" and nm: "named (cfields c)" and v: "v \<in># R"
    and room: "room_for (Suc n) m"
  shows "\<exists>m' fs. bread_class_set_field (Some a) (Some f) v m = Done m' \<and>
    classes.view m' R a (c\<lparr>cfields := fs\<rparr>) \<and> room_for n m' \<and> map fst fs = map fst (cfields c) \<and>
    map_of fs = (if Some f \<in> fst ` set (cfields c) then (map_of (cfields c))(Some f \<mapsto> v) else map_of (cfields c))"
proof -
  have at: "class_at m a = Done c" using view by (simp add: classes.view_def)
  let ?i = "length (takeWhile (\<lambda>n. n \<noteq> Some f) (map fst (cfields c)))"
  show ?thesis
  proof (cases "Some f \<in> fst ` set (cfields c)")
    case True
    note row = first_row [OF True]
    let ?fs = "(cfields c)[?i := (Some f, v)]"
    obtain m' where m': "overwrite_slot (class_with c) (map snd (cfields c)) a ?i v m = Done m'"
        "classes.view m' R a (c\<lparr>cfields := ?fs\<rparr>)" "room_for n m'"
      using classes.overwrite_ok [OF view v room row(1)] row(2) by (auto simp: class_with_put)
    have "map fst ?fs = map fst (cfields c)"
      using row(1,2) by (auto intro!: nth_equalityI simp: nth_list_update)
    with m' row(4) [of v] class_field_index [OF at nm] True at show ?thesis
      by (auto simp: bread_class_set_field_def intro!: exI [of _ m'] exI [of _ ?fs])
  next
    case False
    have "room_for n m" using room by (rule room_for_le) simp
    with False view class_field_index [OF at nm] show ?thesis
      by (auto simp: bread_class_set_field_def intro!: exI [of _ "cfields c"])
  qed
qed

lemma class_set_value_ptr: "bread_class_set_field_value_ptr r f (Some v) = bread_class_set_field r f v"
  by (intro ext) (simp add: bread_class_set_field_value_ptr_def bread_class_set_field_def split: option.splits)

lemma struct_field_index:
  assumes "struct_at m a = Done s"
  shows "bread_struct_find_field_index (Some a) (Some f) m =
    Done (if f \<in> fst ` set (sfields s) then Some (length (takeWhile (\<lambda>n. n \<noteq> f) (map fst (sfields s)))) else None)"
proof -
  have "length (takeWhile (\<lambda>n. n \<noteq> Some f) (map (Some \<circ> fst) fs)) = length (takeWhile (\<lambda>n. n \<noteq> f) (map fst fs))"
    for fs :: "(cstring \<times> val) list" by (induction fs) auto
  then show ?thesis
    using assms find_name_spec [of "map (Some \<circ> fst) (sfields s)" f 0]
    by (auto simp: bread_struct_find_field_index_def image_iff)
qed

text \<open>
  Setting a field of a struct the caller owns to a value it owns stores a new reference to
  the value under that name: looking the field up gives the value back, every other field keeps
  its value, the names of the fields stay, a name that is no field changes nothing, what
  the field held before is released, and the reference-counting discipline is kept.
\<close>
theorem struct_set_field_correct:
  assumes "heap_ok m R" and "VStruct (Some a) \<in># R" and "struct_at m a = Done s" and "v \<in># R"
    and "room_for (Suc n) m"
  shows "\<exists>m' s'. bread_struct_set_field (Some a) (Some f) v m = Done m' \<and> heap_ok m' R \<and>
    struct_at m' a = Done s' \<and> room_for n m' \<and> map fst (sfields s') = map fst (sfields s) \<and>
    map_of (sfields s') = (if f \<in> fst ` set (sfields s) then (map_of (sfields s))(f \<mapsto> v) else map_of (sfields s)) \<and>
    (\<forall>g. bread_struct_get_field (Some a) (Some g) m' = bread_struct_get_field (Some a) (Some g) m) \<and>
    (\<forall>i. bread_struct_get_field (Some a) (Some f) m' = Done (Some i) \<longrightarrow> snd (sfields s' ! i) = v)"
proof -
  have view: "structs.view m R a s" using assms by (simp add: structs.view_def)
  let ?i = "length (takeWhile (\<lambda>n. n \<noteq> f) (map fst (sfields s)))"
  show ?thesis
  proof (cases "f \<in> fst ` set (sfields s)")
    case True
    note row = first_row [OF True]
    let ?fs = "(sfields s)[?i := (f, v)]"
    obtain m' where m': "overwrite_slot (struct_with s) (map snd (sfields s)) a ?i v m = Done m'"
        "structs.view m' R a (s\<lparr>sfields := ?fs\<rparr>)" "room_for n m'"
      using structs.overwrite_ok [OF view assms(4,5) row(1)] row(2) by (auto simp: struct_with_put)
    have names: "map fst ?fs = map fst (sfields s)"
      using row(1,2) by (auto intro!: nth_equalityI simp: nth_list_update)
    have "g \<in> fst ` set ?fs \<longleftrightarrow> g \<in> fst ` set (sfields s)" for g
      using arg_cong [OF names, of set] by (metis list.set_map)
    with m' row names struct_field_index [OF assms(3)] True assms(3)
    show ?thesis
      by (auto simp: bread_struct_set_field_def structs.view_def bread_struct_get_field_def struct_field_index
          intro!: exI [of _ m'])
  next
    case False
    have "room_for n m" using assms(5) by (rule room_for_le) simp
    with False assms struct_field_index [OF assms(3)] show ?thesis
      by (auto simp: bread_struct_set_field_def bread_struct_get_field_def)
  qed
qed


text \<open>A heap with one struct of two fields, and its owner.\<close>

definition sample_struct :: mem where
  "sample_struct = snd (bread_memory_alloc
     (BStruct \<lparr>type_name = ''P'', sfields = [(''x'', VNil), (''y'', VInt 2)]\<rparr>) bread_memory_init)"

lemma sample_struct_facts:
  "heap_ok sample_struct {#VStruct (Some 0)#}"
  "struct_at sample_struct 0 = Done \<lparr>type_name = ''P'', sfields = [(''x'', VNil), (''y'', VInt 2)]\<rparr>"
  "room_for 5 (sample_struct)"
proof -
  have al: "bread_memory_alloc (BStruct \<lparr>type_name = ''P'', sfields = [(''x'', VNil), (''y'', VInt 2)]\<rparr>)
      bread_memory_init = (0, sample_struct)"
    by (simp add: sample_struct_def bread_memory_alloc_def bread_memory_init_def)
  then show "heap_ok sample_struct {#VStruct (Some 0)#}"
    by (rule alloc_ok [rotated]) (simp_all add: heap_ok_init)
  show "struct_at sample_struct 0 = Done \<lparr>type_name = ''P'', sfields = [(''x'', VNil), (''y'', VInt 2)]\<rparr>"
    by (simp add: struct_at_def sample_struct_def bread_memory_alloc_def bread_memory_init_def get_obj_def)
  show "room_for 5 sample_struct"
    by (simp add: room_for_def rc_of_def sample_struct_def bread_memory_alloc_def bread_memory_init_def get_obj_def)
qed

theorem struct_set_field_correct_witness:
  "\<exists>m' s'. bread_struct_set_field (Some 0) (Some ''x'') (VBool True) (sample_struct) = Done m' \<and>
     struct_at m' 0 = Done s' \<and> map_of (sfields s') ''x'' = Some (VBool True) \<and>
     map_of (sfields s') ''y'' = Some (VInt 2)"
proof -
  have "heap_ok sample_struct {#VBool True, VStruct (Some 0)#}" using sample_struct_facts(1) by simp
  from struct_set_field_correct [OF this _ sample_struct_facts(2), of "VBool True" 4 "''x''"]
    sample_struct_facts(3)
  show ?thesis by auto
qed

end
