(* ===== verification/BreadClasses.thy ===== *)
theory BreadClasses
  imports BreadRecords
begin

text \<open>
  The class hierarchy of \<^verbatim>\<open>src/core/value_class.c\<close>: the registry of class definitions, linking
  classes to their parents, instances with inherited fields, finding and running methods. The
  registry is the list of its non-NULL entries. The functions that follow \<open>parent_class\<close> recurse
  once per ancestor; they are given as many calls as there are cells, which is enough for every
  hierarchy without a cycle (lemma \<open>ancestry_length\<close>), and a longer recursion, which in C
  runs out of stack, is \<open>Undefined\<close>. Compiled methods are machine code: a code pointer is a number
  and running it is the parameter \<open>run\<close>.
\<close>

section \<open>The registry\<close>

type_synonym registry = "addr list"

fun find_definition :: "addr list \<Rightarrow> cstring \<Rightarrow> mem \<Rightarrow> addr option outcome" where
  "find_definition [] n m = Done None"
| "find_definition (a # as) n m =
     bnd (class_at m a) (\<lambda>c. if class_name c = n then Done (Some a) else find_definition as n m)"

definition bread_class_find_definition :: "cstring \<Rightarrow> registry \<Rightarrow> mem \<Rightarrow> ref outcome" where
  "bread_class_find_definition n reg m = find_definition reg n m"

fun registered_at :: "addr list \<Rightarrow> cstring \<Rightarrow> nat \<Rightarrow> mem \<Rightarrow> nat option outcome" where
  "registered_at [] n i m = Done None"
| "registered_at (a # as) n i m =
     bnd (class_at m a) (\<lambda>c. if class_name c = n then Done (Some i) else registered_at as n (Suc i) m)"

definition bread_class_register_definition :: "ref \<Rightarrow> registry \<Rightarrow> mem \<Rightarrow> (registry \<times> mem) outcome" where
  "bread_class_register_definition r reg m =
     (case r of None \<Rightarrow> Done (reg, m)
      | Some d \<Rightarrow> bnd (class_at m d) (\<lambda>c.
          bnd (registered_at reg (class_name c) 0 m) (\<lambda>found.
            case found of
              Some i \<Rightarrow> bnd (bread_class_release (Some (reg ! i)) m) (\<lambda>m1.
                bnd (bread_object_retain (Some d) m1) (\<lambda>m2. Done (reg[i := d], m2)))
            | None \<Rightarrow> bnd (bread_object_retain (Some d) m) (\<lambda>m1. Done (reg @ [d], m1)))))"

fun resolve_from :: "addr list \<Rightarrow> registry \<Rightarrow> mem \<Rightarrow> mem outcome" where
  \<comment> \<open>the loop of \<^verbatim>\<open>bread_class_resolve_inheritance\<close> over the rest of the registry\<close>
  "resolve_from [] reg m = Done m"
| "resolve_from (a # as) reg m =
     bnd (class_at m a) (\<lambda>c.
       case (parent_name c, parent_class c) of
         (Some p, None) \<Rightarrow>
           bnd (bread_class_find_definition p reg m) (\<lambda>parent.
             case parent of None \<Rightarrow> resolve_from as reg m
             | Some b \<Rightarrow> bnd (bread_object_retain (Some b) (put_class a (c\<lparr>parent_class := Some b\<rparr>) m))
                 (resolve_from as reg))
       | _ \<Rightarrow> resolve_from as reg m)"

definition bread_class_resolve_inheritance :: "registry \<Rightarrow> mem \<Rightarrow> mem outcome" where
  "bread_class_resolve_inheritance reg m = resolve_from reg reg m"

section \<open>Following the parents\<close>

fun count_fields :: "nat \<Rightarrow> ref \<Rightarrow> mem \<Rightarrow> nat outcome" where
  \<comment> \<open>\<^verbatim>\<open>while (current) { total += current->field_count; current = current->parent_class; }\<close>\<close>
  "count_fields n None m = Done 0"
| "count_fields 0 (Some a) m = Undefined"
| "count_fields (Suc n) (Some a) m =
     bnd (class_at m a) (\<lambda>c. bnd (count_fields n (parent_class c) m) (\<lambda>k. Done (length (cfields c) + k)))"

definition own_fields :: "bclass \<Rightarrow> cstring list" where
  \<comment> \<open>the names of the class itself, NULL skipped\<close>
  "own_fields c = concat (map (\<lambda>f. case fst f of None \<Rightarrow> [] | Some n \<Rightarrow> [n]) (cfields c))"

fun collect_fields :: "nat \<Rightarrow> addr \<Rightarrow> mem \<Rightarrow> (cstring list \<times> nat) outcome" where
  \<comment> \<open>the names stored and the length of the buffer for them; what was not stored in it is not
    initialised, and the copying loop of the caller reads all of it\<close>
  "collect_fields 0 a m = Undefined"
| "collect_fields (Suc n) a m =
     bnd (count_fields (Suc n) (Some a) m) (\<lambda>total.
       if total = 0 then Done ([], 0)
       else bnd (class_at m a) (\<lambda>c.
         bnd (case parent_class c of None \<Rightarrow> Done []
              | Some p \<Rightarrow> bnd (collect_fields n p m) (\<lambda>(names, k).
                  if length names < k then Undefined else Done names)) (\<lambda>inherited.
           Done (inherited @ own_fields c, total))))"

definition bread_class_collect_all_fields :: "addr \<Rightarrow> mem \<Rightarrow> (cstring list \<times> nat) outcome" where
  "bread_class_collect_all_fields a m = collect_fields (length (cells m)) a m"

fun method_search :: "nat \<Rightarrow> ref \<Rightarrow> cstring \<Rightarrow> mem \<Rightarrow> (addr \<times> nat) option outcome" where
  "method_search n None name m = Done None"
| "method_search 0 (Some a) name m = Undefined"
| "method_search (Suc n) (Some a) name m =
     bnd (class_at m a) (\<lambda>c.
       case find_set_name (method_names c) name 0 of Some i \<Rightarrow> Done (Some (a, i))
       | None \<Rightarrow> method_search n (parent_class c) name m)"

definition bread_class_find_method_defining_class ::
  "ref \<Rightarrow> cstring option \<Rightarrow> mem \<Rightarrow> (addr \<times> nat) option outcome" where
  "bread_class_find_method_defining_class r f m =
     (case f of None \<Rightarrow> Done None | Some name \<Rightarrow> method_search (length (cells m)) r name m)"

fun native_method :: "nat \<Rightarrow> ref \<Rightarrow> cstring \<Rightarrow> mem \<Rightarrow> nat option outcome" where
  "native_method n None name m = Done None"
| "native_method 0 (Some a) name m = Undefined"
| "native_method (Suc n) (Some a) name m =
     bnd (class_at m a) (\<lambda>c. bnd (find_name (method_names c) name 0) (\<lambda>found.
       case found of
         Some i \<Rightarrow> (if i < length (methods c) \<and> methods c ! i \<noteq> None then Done (methods c ! i) else Undefined)
       | None \<Rightarrow> native_method n (parent_class c) name m))"

definition bread_class_get_method :: "ref \<Rightarrow> cstring option \<Rightarrow> mem \<Rightarrow> nat option outcome" where
  "bread_class_get_method r f m =
     (case f of None \<Rightarrow> Done None | Some name \<Rightarrow> native_method (length (cells m)) r name m)"

fun set_compiled_by_name :: "nat \<Rightarrow> ref \<Rightarrow> cstring \<Rightarrow> nat option \<Rightarrow> mem \<Rightarrow> mem outcome" where
  "set_compiled_by_name n None name fn m = Done m"
| "set_compiled_by_name 0 (Some a) name fn m = Undefined"
| "set_compiled_by_name (Suc n) (Some a) name fn m =
     bnd (bread_class_find_method_index (Some a) (Some name) m) (\<lambda>idx.
       case idx of Some i \<Rightarrow> bread_class_set_compiled_method (Some a) (int i) fn m
       | None \<Rightarrow> bnd (class_at m a) (\<lambda>c. set_compiled_by_name n (parent_class c) name fn m))"

definition bread_class_set_compiled_method_by_name :: "ref \<Rightarrow> cstring option \<Rightarrow> nat option \<Rightarrow> mem \<Rightarrow> mem outcome" where
  "bread_class_set_compiled_method_by_name r f fn m =
     (case f of None \<Rightarrow> Done m | Some name \<Rightarrow> set_compiled_by_name (length (cells m)) r name fn m)"

section \<open>Instances\<close>

definition linked_method :: "bclass \<Rightarrow> cstring option \<Rightarrow> nat option \<Rightarrow> nat option" where
  \<comment> \<open>the code of the first method of the definition with this name, else what was there\<close>
  "linked_method d name old =
     (case name of None \<Rightarrow> old
      | Some n \<Rightarrow> (case List.find (\<lambda>p. fst p = Some n) (zip (method_names d) (compiled_methods d)) of
          None \<Rightarrow> old | Some p \<Rightarrow> snd p))"

definition link_instance :: "bclass \<Rightarrow> bclass \<Rightarrow> bclass" where
  "link_instance d i =
     i\<lparr>compiled_methods := map (\<lambda>(n, old). linked_method d n old) (zip (method_names i) (compiled_methods i)),
       compiled_constructor := (case compiled_constructor d of None \<Rightarrow> compiled_constructor i | Some k \<Rightarrow> Some k)\<rparr>"

definition bread_class_create_instance ::
  "cstring \<Rightarrow> cstring option \<Rightarrow> int \<Rightarrow> cstring option list option \<Rightarrow> int \<Rightarrow> cstring option list option \<Rightarrow>
   registry \<Rightarrow> mem \<Rightarrow> (ref \<times> mem) outcome" where
  "bread_class_create_instance cn pn field_count fnames method_count mnames reg m =
     bnd (bread_class_find_definition cn reg m) (\<lambda>def.
       case def of
         None \<Rightarrow> bread_class_new_with_methods (Some cn) pn field_count fnames method_count mnames m
       | Some d \<Rightarrow> bnd (class_at m d) (\<lambda>dc.
           bnd (bread_class_collect_all_fields d m) (\<lambda>(names, total).
             if length names < total then Undefined
             else bnd (bread_class_new_with_methods (Some cn) pn (int total) (Some (map Some names))
                         method_count mnames m) (\<lambda>(r, m1).
               case r of None \<Rightarrow> Done (None, m1)
               | Some a \<Rightarrow> bnd (class_at m1 a) (\<lambda>ic.
                   let ic1 = ic\<lparr>parent_class := (case parent_class dc of None \<Rightarrow> parent_class ic | Some p \<Rightarrow> Some p)\<rparr> in
                   bnd (bread_object_retain (parent_class dc) (put_class a ic1 m1)) (\<lambda>m2.
                     Done (Some a, put_class a (link_instance dc ic1) m2)))))))"

section \<open>Running methods\<close>

type_synonym code = "nat \<Rightarrow> val \<Rightarrow> val list \<Rightarrow> mem \<Rightarrow> (val \<times> mem) outcome"

definition bread_class_call_compiled_method ::
  "code \<Rightarrow> nat \<Rightarrow> ref \<Rightarrow> int \<Rightarrow> val list \<Rightarrow> mem \<Rightarrow> (val \<times> mem) outcome" where
  \<comment> \<open>what is left in \<^verbatim>\<open>*out\<close>; the result is always 1\<close>
  "bread_class_call_compiled_method run fn inst argc args m =
     bnd (bread_object_retain inst m) (\<lambda>m1.
       if argc \<in> {0, 1, 2, 3}
       then if length args < nat argc then Undefined
         else bnd (run fn (VClass inst) (take (nat argc) args) m1) (\<lambda>(ret, m2).
           bnd (bread_value_release (VClass inst) m2) (\<lambda>m3. Done (ret, m3)))
       else bnd (bread_value_release (VClass inst) m1) (\<lambda>m2. Done (VNil, m2)))"

fun set_fields :: "addr \<Rightarrow> (cstring option \<times> val) list \<Rightarrow> mem \<Rightarrow> mem outcome" where
  "set_fields a [] m = Done m"
| "set_fields a ((None, v) # fs) m = set_fields a fs m"
| "set_fields a ((Some f, v) # fs) m =
     bnd (bread_class_set_field_value_ptr (Some a) (Some f) (Some v) m) (set_fields a fs)"

definition bread_class_execute_constructor ::
  "code \<Rightarrow> ref \<Rightarrow> int \<Rightarrow> val list \<Rightarrow> mem \<Rightarrow> (bool \<times> val \<times> mem) outcome" where
  "bread_class_execute_constructor run r argc args m =
     (case r of None \<Rightarrow> Done (False, VNil, m)
      | Some a \<Rightarrow> bnd (class_at m a) (\<lambda>c.
          case compiled_constructor c of
            Some fn \<Rightarrow> bnd (bread_class_call_compiled_method run fn r argc args m) (\<lambda>(out, m1). Done (True, out, m1))
          | None \<Rightarrow>
              let k = (if argc < int (length (cfields c)) then nat argc else length (cfields c)) in
              if length args < k then Undefined
              else bnd (set_fields a (zip (map fst (take k (cfields c))) args) m) (\<lambda>m1. Done (True, VNil, m1))))"

definition bread_class_execute_method_direct ::
  "code \<Rightarrow> ref \<Rightarrow> int \<Rightarrow> ref \<Rightarrow> int \<Rightarrow> val list \<Rightarrow> mem \<Rightarrow> (bool \<times> val \<times> mem) outcome" where
  \<comment> \<open>the message on stderr is not modelled\<close>
  "bread_class_execute_method_direct run dr i inst argc args m =
     (case (dr, inst) of (Some d, Some a) \<Rightarrow>
        bnd (class_at m d) (\<lambda>c.
          if i < 0 \<or> i \<ge> int (length (method_names c)) then Done (False, VNil, m)
          else (case method_names c ! nat i of None \<Rightarrow> Undefined
            | Some name \<Rightarrow>
                if name = ''init'' then bread_class_execute_constructor run inst argc args m
                else if compiled_methods c \<noteq> [] \<and> compiled_methods c ! nat i \<noteq> None
                then bnd (bread_class_call_compiled_method run (the (compiled_methods c ! nat i)) inst argc args m)
                       (\<lambda>(out, m1). Done (True, out, m1))
                else Done (False, VNil, m)))
      | _ \<Rightarrow> Done (False, VNil, m))"

definition bread_class_execute_method ::
  "code \<Rightarrow> ref \<Rightarrow> int \<Rightarrow> int \<Rightarrow> val list \<Rightarrow> mem \<Rightarrow> (bool \<times> val \<times> mem) outcome" where
  "bread_class_execute_method run r i argc args m =
     (case r of None \<Rightarrow> Done (False, VNil, m)
      | Some a \<Rightarrow> if i < 0 then Done (False, VNil, m)
          else bread_class_execute_method_direct run r i r argc args m)"

definition bread_class_call_method ::
  "(nat \<Rightarrow> addr \<Rightarrow> val list \<Rightarrow> mem \<Rightarrow> (val \<times> mem) outcome) \<Rightarrow>
   ref \<Rightarrow> cstring option \<Rightarrow> val list \<Rightarrow> mem \<Rightarrow> (val \<times> mem) outcome" where
  "bread_class_call_method run_native r f args m =
     (case (r, f) of (Some a, Some name) \<Rightarrow>
        bnd (bread_class_get_method r f m) (\<lambda>meth.
          case meth of None \<Rightarrow> Done (VNil, m) | Some p \<Rightarrow> run_native p a args m)
      | _ \<Rightarrow> Done (VNil, m))"

section \<open>Ancestors\<close>

inductive ancestry :: "mem \<Rightarrow> ref \<Rightarrow> (addr \<times> bclass) list \<Rightarrow> bool" for m where
  root: "ancestry m None []"
| link: "class_at m a = Done c \<Longrightarrow> ancestry m (parent_class c) cs \<Longrightarrow> ancestry m (Some a) ((a, c) # cs)"

inductive_simps ancestry_simps:
  "ancestry m None cs" "ancestry m (Some a) cs"

inductive_cases ancestry_ConsE: "ancestry m r (p # cs)"

lemma ancestry_unique: "ancestry m r cs \<Longrightarrow> ancestry m r ds \<Longrightarrow> ds = cs"
proof (induction arbitrary: ds rule: ancestry.induct)
  case root
  then show ?case by (simp add: ancestry_simps)
next
  case (link a c cs)
  from link.prems obtain ds' where "ds = (a, c) # ds'" "ancestry m (parent_class c) ds'"
    using link.hyps(1) unfolding ancestry_simps by auto
  with link.IH show ?case by simp
qed

lemma ancestry_split: "ancestry m r (xs @ (a, c) # ys) \<Longrightarrow> ancestry m (Some a) ((a, c) # ys)"
proof (induction xs arbitrary: r)
  case Nil
  then show ?case by (auto elim: ancestry_ConsE intro: ancestry.link)
next
  case (Cons x xs)
  then show ?case by (auto elim: ancestry_ConsE)
qed

lemma ancestry_distinct: "ancestry m r cs \<Longrightarrow> distinct (map fst cs)"
proof (induction rule: ancestry.induct)
  case (link a c cs)
  have "a \<notin> fst ` set cs"
  proof
    assume "a \<in> fst ` set cs"
    then obtain xs d ys where cs: "cs = xs @ (a, d) # ys" by (force dest: split_list)
    have "ancestry m (Some a) ((a, d) # ys)" using link.hyps(2) ancestry_split unfolding cs by blast
    from ancestry_unique [OF ancestry.link [OF link.hyps] this] cs show False
      by (metis append_Cons length_append length_Cons less_add_Suc2 less_irrefl)
  qed
  with link show ?case by simp
qed simp

lemma ancestry_cells: "ancestry m r cs \<Longrightarrow> fst ` set cs \<subseteq> {..< length (cells m)}"
  by (induction rule: ancestry.induct)
    (auto simp: class_at_def dest: get_obj_bound split: option.splits)

text \<open>A hierarchy without a cycle is no longer than the heap, so the calls given are enough.\<close>

lemma ancestry_length: "ancestry m r cs \<Longrightarrow> length cs \<le> length (cells m)"
proof -
  assume a: "ancestry m r cs"
  have "length cs = card (fst ` set cs)"
    using ancestry_distinct [OF a] by (metis distinct_card length_map list.set_map)
  also have "\<dots> \<le> card {..< length (cells m)}" by (rule card_mono) (use ancestry_cells [OF a] in auto)
  finally show ?thesis by simp
qed

lemma first_index:
  "x \<in> set xs \<Longrightarrow> length (takeWhile (\<lambda>y. y \<noteq> x) xs) < length xs \<and> xs ! length (takeWhile (\<lambda>y. y \<noteq> x) xs) = x \<and>
     x \<notin> set (take (length (takeWhile (\<lambda>y. y \<noteq> x) xs)) xs)"
  by (induction xs) auto

definition declares :: "cstring \<Rightarrow> bclass \<Rightarrow> bool" where
  "declares f c \<longleftrightarrow> Some f \<in> set (method_names c)"

lemma method_search_ancestry:
  "ancestry m r cs \<Longrightarrow> length cs \<le> n \<Longrightarrow>
   method_search n r f m = Done (case List.find (\<lambda>p. declares f (snd p)) cs of None \<Rightarrow> None
     | Some (a, c) \<Rightarrow> Some (a, length (takeWhile (\<lambda>g. g \<noteq> Some f) (method_names c))))"
proof (induction arbitrary: n rule: ancestry.induct)
  case root
  then show ?case by (cases n) auto
next
  case (link a c cs)
  then obtain k where "n = Suc k" "length cs \<le> k" by (cases n) auto
  with link show ?case
    by (auto simp: declares_def find_set_name_spec split: option.splits)
qed

text \<open>
  C30: a method call finds the nearest definition: along the chain of a class and its ancestors
  the result is the first class that declares the method, with the first position of that name in
  its table; it is "not found" exactly if no ancestor declares it. The search ends for every
  hierarchy without a cycle.
\<close>
theorem method_lookup_nearest:
  assumes "ancestry m r cs"
  shows "\<exists>res. bread_class_find_method_defining_class r (Some f) m = Done res \<and>
    (res = None \<longleftrightarrow> (\<forall>(a, c) \<in> set cs. Some f \<notin> set (method_names c))) \<and>
    (\<forall>a i. res = Some (a, i) \<longrightarrow>
      (\<exists>nearer c further. cs = nearer @ (a, c) # further \<and>
         (\<forall>(b, d) \<in> set nearer. Some f \<notin> set (method_names d)) \<and>
         i < length (method_names c) \<and> method_names c ! i = Some f \<and>
         Some f \<notin> set (take i (method_names c))))"
proof -
  let ?i = "\<lambda>c. length (takeWhile (\<lambda>g. g \<noteq> Some f) (method_names c))"
  have pos: "?i c < length (method_names c) \<and> method_names c ! ?i c = Some f \<and> Some f \<notin> set (take (?i c) (method_names c))"
    if "declares f c" for c
    using that first_index by (simp add: declares_def)
  note s = method_search_ancestry [OF assms ancestry_length [OF assms], of f]
  show ?thesis
  proof (cases "List.find (\<lambda>p. declares f (snd p)) cs")
    case None
    with s have "method_search (length (cells m)) r f m = Done None" by simp
    with None show ?thesis
      by (auto simp: bread_class_find_method_defining_class_def find_None_iff declares_def)
  next
    case (Some p)
    then obtain a c where p: "p = (a, c)" by (cases p)
    obtain j where j: "j < length cs" "cs ! j = (a, c)" "declares f c" "\<forall>k < j. \<not> declares f (snd (cs ! k))"
      using Some p unfolding find_Some_iff by (metis snd_conv)
    have "cs = take j cs @ (a, c) # drop (Suc j) cs" using j(1,2) by (metis id_take_nth_drop)
    moreover have "\<forall>(b, d) \<in> set (take j cs). Some f \<notin> set (method_names d)"
      using j(1,4) by (force simp: declares_def in_set_conv_nth)
    moreover have "(a, c) \<in> set cs" using j(1,2) by (metis nth_mem)
    ultimately have "\<exists>nearer further. cs = nearer @ (a, c) # further \<and>
        (\<forall>(b, d) \<in> set nearer. Some f \<notin> set (method_names d))" by blast
    moreover have "method_search (length (cells m)) r f m = Done (Some (a, ?i c))"
      using s Some p by simp
    moreover have "\<not> (\<forall>(a, c) \<in> set cs. Some f \<notin> set (method_names c))"
      using \<open>(a, c) \<in> set cs\<close> j(3) by (auto simp: declares_def)
    ultimately show ?thesis using pos [OF j(3)]
      by (auto simp: bread_class_find_method_defining_class_def)
  qed
qed

section \<open>The registry as a table\<close>

lemma class_at_put: "class_at m a = Done c \<Longrightarrow> class_at (put_class a d m) b = (if b = a then Done d else class_at m b)"
  by (auto simp: class_at_def put_class_def set_body_get split: option.splits body.splits)

lemma class_survives:
  assumes "heap_ok m' R" "VClass (Some a) \<in># held m' + R" "survives m m'"
  shows "class_at m' a = class_at m a"
proof -
  obtain ob where "get_obj m' a = Some ob" using heap_ok_live [OF assms(1,2)] by auto
  then show ?thesis using assms(3) by (fastforce simp: survives_def class_at_def)
qed

lemma class_live:
  assumes "heap_ok m R" "VClass (Some a) \<in># held m + R"
  obtains c where "class_at m a = Done c"
proof -
  obtain ob where "get_obj m a = Some ob" "kind_ok (VClass (Some a)) (body ob)"
    using heap_ok_live [OF assms] by auto
  then show ?thesis using that by (cases "body ob") (auto simp: class_at_def)
qed

lemma retain_class_ok:
  assumes "heap_ok m R" "may_hold m R (VClass r)" "room_for (Suc n) m"
  shows "\<exists>m'. bread_object_retain r m = Done m' \<and> heap_ok m' (add_mset (VClass r) R) \<and> survives m m' \<and> room_for n m'"
  using rt.acquire_ok [OF assms] by (auto simp: bread_value_clone_def bnd_Done_iff)

definition roots :: "addr list \<Rightarrow> val multiset" where
  "roots reg = mset (map (\<lambda>a. VClass (Some a)) reg)"

lemma roots_simps [simp]: "roots [] = {#}" "roots (a # as) = add_mset (VClass (Some a)) (roots as)"
    "roots (as @ bs) = roots as + roots bs"
  by (simp_all add: roots_def)

lemma roots_in: "VClass (Some a) \<in># roots reg \<longleftrightarrow> a \<in> set reg"
  by (auto simp: roots_def)

lemma roots_update: "i < length reg \<Longrightarrow> add_mset (VClass (Some (reg ! i))) (roots (reg[i := d])) = add_mset (VClass (Some d)) (roots reg)"
  by (simp add: roots_def map_update mset_update)

definition cname :: "mem \<Rightarrow> addr \<Rightarrow> cstring" where
  "cname m a = (case class_at m a of Done c \<Rightarrow> class_name c | _ \<Rightarrow> [])"

definition class_table :: "registry \<Rightarrow> mem \<Rightarrow> cstring \<rightharpoonup> addr" where
  \<comment> \<open>the registry as a map from names to definitions\<close>
  "class_table reg m = map_of (map (\<lambda>a. (cname m a, a)) reg)"

definition registry_ok :: "mem \<Rightarrow> val multiset \<Rightarrow> registry \<Rightarrow> bool" where
  "registry_ok m R reg \<longleftrightarrow> heap_ok m (roots reg + R) \<and> distinct (map (cname m) reg)"

lemma registry_live:
  assumes "heap_ok m (roots reg + R)" "a \<in> set reg"
  obtains c where "class_at m a = Done c"
  using class_live [OF assms(1), of a] assms(2) by (auto simp: roots_in)

lemma find_definition_table:
  assumes "\<forall>a \<in> set reg. \<exists>c. class_at m a = Done c"
  shows "bread_class_find_definition n reg m = Done (class_table reg m n)"
proof -
  have "find_definition reg n m = Done (map_of (map (\<lambda>a. (cname m a, a)) reg) n)"
    using assms by (induction reg) (auto simp: cname_def)
  then show ?thesis by (simp add: bread_class_find_definition_def class_table_def)
qed

lemma registry_find:
  "heap_ok m (roots reg + R) \<Longrightarrow> bread_class_find_definition n reg m = Done (class_table reg m n)"
  by (rule find_definition_table) (meson registry_live)

lemma registered_at_table:
  assumes "\<forall>a \<in> set reg. \<exists>c. class_at m a = Done c"
  shows "registered_at reg n i m = Done (if n \<in> cname m ` set reg
     then Some (i + length (takeWhile (\<lambda>x. x \<noteq> n) (map (cname m) reg))) else None)"
  using assms by (induction reg arbitrary: i) (auto simp: cname_def)

lemma table_update:
  assumes "i < length reg" "distinct (map (cname m) reg)" "cname m' d = cname m (reg ! i)"
    and "\<forall>a \<in> set reg. a \<noteq> reg ! i \<longrightarrow> cname m' a = cname m a"
  shows "class_table (reg[i := d]) m' = (class_table reg m)(cname m' d \<mapsto> d) \<and>
    map (cname m') (reg[i := d]) = map (cname m) reg"
  using assms
proof (induction reg arbitrary: i)
  case (Cons a reg)
  show ?case
  proof (cases i)
    case 0
    have "map (\<lambda>a. (cname m' a, a)) reg = map (\<lambda>a. (cname m a, a)) reg" "map (cname m') reg = map (cname m) reg"
      using Cons.prems 0 by (auto simp: map_eq_conv)
    then show ?thesis using 0 Cons.prems by (simp add: class_table_def fun_eq_iff del: map_eq_conv)
  next
    case (Suc k)
    have ne: "a \<noteq> reg ! k" "cname m a \<noteq> cname m (reg ! k)" using Cons.prems(1,2) Suc
      by (auto dest!: nth_mem)
    have "class_table (reg[k := d]) m' = (class_table reg m)(cname m' d \<mapsto> d) \<and>
        map (cname m') (reg[k := d]) = map (cname m) reg"
      by (rule Cons.IH) (use Cons.prems Suc in auto)
    moreover have "cname m' a = cname m a" using Cons.prems Suc ne by auto
    ultimately show ?thesis using Suc ne Cons.prems(3) by (auto simp: class_table_def fun_upd_twist)
  qed
qed simp


lemma cname_at: "class_at m a = Done c \<Longrightarrow> cname m a = class_name c"
  by (simp add: cname_def)

lemma class_table_cong: "\<forall>a \<in> set reg. cname m' a = cname m a \<Longrightarrow> class_table reg m' = class_table reg m"
  by (simp add: class_table_def cong: map_cong)

lemma class_table_append: "n \<notin> cname m ` set reg \<Longrightarrow> cname m d = n \<Longrightarrow>
   class_table (reg @ [d]) m = (class_table reg m)(n \<mapsto> d)"
  by (induction reg) (auto simp: class_table_def fun_upd_twist)

lemma retain_new_root:
  assumes ok: "heap_ok m (roots reg + R)" and d: "VClass (Some d) \<in># R" and room: "room_for (Suc n) m"
  shows "\<exists>m'. bread_object_retain (Some d) m = Done m' \<and> heap_ok m' (add_mset (VClass (Some d)) (roots reg) + R) \<and>
    room_for n m' \<and> (\<forall>a. VClass (Some a) \<in># held m' + (add_mset (VClass (Some d)) (roots reg) + R) \<longrightarrow> class_at m' a = class_at m a)"
proof -
  have "may_hold m (roots reg + R) (VClass (Some d))" using d by (simp add: may_hold_def)
  then obtain m' where "bread_object_retain (Some d) m = Done m'"
      "heap_ok m' (add_mset (VClass (Some d)) (roots reg + R))" "survives m m'" "room_for n m'"
    using retain_class_ok [OF ok _ room] by blast
  then show ?thesis using class_survives by (metis union_mset_add_mset_left)
qed

text \<open>
  C33: the registry of class definitions is a table from names to classes: registering a
  definition maps its name to it and leaves every other name alone, whether the name is new or
  replaces an earlier definition, no name is ever registered twice, and the registry owns exactly
  one reference to each of its classes, so the definition it replaces is given up.
\<close>
theorem register_definition_correct:
  assumes "registry_ok m R reg" and "VClass (Some d) \<in># R" and "class_at m d = Done c" and "room_for (Suc n) m"
  shows "\<exists>reg' m'. bread_class_register_definition (Some d) reg m = Done (reg', m') \<and> registry_ok m' R reg' \<and>
    room_for n m' \<and> class_at m' d = Done c \<and>
    (\<forall>k. bread_class_find_definition k reg' m' =
       (if k = class_name c then Done (Some d) else bread_class_find_definition k reg m))"
proof -
  have ok: "heap_ok m (roots reg + R)" and di: "distinct (map (cname m) reg)"
    using assms(1) by (auto simp: registry_ok_def)
  have live: "\<forall>a \<in> set reg. \<exists>c. class_at m a = Done c" by (meson ok registry_live)
  note at = registered_at_table [OF live, of "class_name c" 0]
  show ?thesis
  proof (cases "class_name c \<in> cname m ` set reg")
    case False
    obtain m' where m': "bread_object_retain (Some d) m = Done m'" "heap_ok m' (add_mset (VClass (Some d)) (roots reg) + R)"
        "room_for n m'" "\<forall>a. VClass (Some a) \<in># held m' + (add_mset (VClass (Some d)) (roots reg) + R) \<longrightarrow> class_at m' a = class_at m a"
      using retain_new_root [OF ok assms(2,4)] by blast
    have same: "cname m' a = cname m a" if "a \<in> set (reg @ [d])" for a
      using m'(4) that by (auto simp: cname_def roots_in)
    have tab: "class_table (reg @ [d]) m' = (class_table reg m)(class_name c \<mapsto> d)"
      using class_table_append [OF False, of d] class_table_cong [of "reg @ [d]" m' m] same assms(3)
      by (simp add: cname_at)
    have ok': "heap_ok m' (roots (reg @ [d]) + R)" using m'(2) by simp
    have d': "class_at m' d = Done c" using m'(4) assms(3) by simp
    have "distinct (map (cname m') (reg @ [d]))"
      using di False same assms(3) by (auto simp: cname_at cong: map_cong)
    moreover have "bread_class_register_definition (Some d) reg m = Done (reg @ [d], m')"
      using assms(3) at False m'(1) by (simp add: bread_class_register_definition_def)
    ultimately show ?thesis
      using ok' d' m'(3) registry_find [OF ok'] registry_find [OF ok] tab by (auto simp: registry_ok_def)
  next
    case True
    let ?i = "length (takeWhile (\<lambda>x. x \<noteq> class_name c) (map (cname m) reg))"
    have i: "?i < length reg" "cname m (reg ! ?i) = class_name c"
      using first_index [of "class_name c" "map (cname m) reg"] True by (auto simp: image_iff)
    let ?reg = "reg[?i := d]" and ?S = "roots (reg[?i := d]) + R"
    have split: "roots reg + R = add_mset (VClass (Some (reg ! ?i))) (roots (take ?i reg @ drop (Suc ?i) reg) + R)"
      using arg_cong [OF id_take_nth_drop [OF i(1)], of roots] by simp
    have split': "roots ?reg = add_mset (VClass (Some d)) (roots (take ?i reg @ drop (Suc ?i) reg))"
      using i(1) by (simp add: upd_conv_take_nth_drop)
    obtain m1 where m1: "bread_value_release (VClass (Some (reg ! ?i))) m = Done m1"
        "heap_ok m1 (roots (take ?i reg @ drop (Suc ?i) reg) + R)" "survives m m1" "room_for (Suc n) m1"
      using value_release_ok ok assms(4) unfolding split by blast
    obtain m' where m': "bread_object_retain (Some d) m1 = Done m'" "heap_ok m' ?S" "room_for n m'"
        "\<forall>a. VClass (Some a) \<in># held m' + ?S \<longrightarrow> class_at m' a = class_at m1 a"
      using retain_new_root [OF m1(2) assms(2) m1(4)] unfolding split' by blast
    have same: "class_at m' a = class_at m a" if "VClass (Some a) \<in># ?S" for a
    proof -
      have "VClass (Some a) \<in># held m' + ?S" using that by (meson union_iff)
      then have "class_at m' a = class_at m1 a" using m'(4) by blast
      moreover have "VClass (Some a) \<in># roots (take ?i reg @ drop (Suc ?i) reg) + R"
        using that assms(2) unfolding split' by auto
      ultimately show ?thesis using class_survives [OF m1(2) _ m1(3)] by simp
    qed
    have d': "class_at m' d = Done c" using same [of d] assms(2,3) by simp
    have "a \<in> set ?reg" if "a \<in> set reg" "a \<noteq> reg ! ?i" for a
      using that i(1) by (metis in_set_conv_nth length_list_update nth_list_update_neq)
    then have oth: "\<forall>a \<in> set reg. a \<noteq> reg ! ?i \<longrightarrow> cname m' a = cname m a"
      using same by (auto simp: cname_def roots_in)
    have tab: "class_table ?reg m' = (class_table reg m)(class_name c \<mapsto> d)"
        "map (cname m') ?reg = map (cname m) reg"
      using table_update [OF i(1) di _ oth, of d] d' i(2) by (simp_all add: cname_at)
    have "bread_class_register_definition (Some d) reg m = Done (?reg, m')"
      using assms(3) at True m1(1) m'(1) by (simp add: bread_class_register_definition_def bread_class_release_def)
    then show ?thesis
      using m'(2,3) di tab d' registry_find [OF m'(2)] registry_find [OF ok] by (auto simp: registry_ok_def)
  qed
qed

section \<open>Linking classes to their parents\<close>

lemma retain_class_at: "bread_object_retain r m = Done m' \<Longrightarrow> class_at m' b = class_at m b"
proof -
  assume "bread_object_retain r m = Done m'"
  then have "bread_value_clone (VClass r) m = Done (VClass r, m')" by (simp add: bread_value_clone_def)
  from clone_get_body [OF this, of b] show ?thesis
    by (auto simp: class_at_def split: option.splits)
qed

lemma put_class_ok:
  assumes "heap_ok m R" "class_at m a = Done c" "map snd (cfields d) = map snd (cfields c)"
  shows "heap_ok (put_class a d m) R"
proof -
  obtain ob where ob: "get_obj m a = Some ob" "body ob = BClass c"
    using assms(2) by (auto simp: classes.at_iff)
  show ?thesis unfolding put_class_def
    by (rule set_body_exchange [OF assms(1) ob(1)]) (use ob(2) assms(3) in simp_all)
qed

lemma room_put_class [simp]: "room_for n (put_class a c m) = room_for n m"
  by (simp add: put_class_def)

definition linked :: "(cstring \<rightharpoonup> addr) \<Rightarrow> bclass \<Rightarrow> bclass" where
  "linked T c = c\<lparr>parent_class := (case parent_class c of Some q \<Rightarrow> Some q
     | None \<Rightarrow> (case parent_name c of None \<Rightarrow> None | Some p \<Rightarrow> T p))\<rparr>"

lemma linked_idem: "linked T (linked T c) = linked T c"
  by (auto simp: linked_def split: option.splits)

lemma linked_same: "parent_class c \<noteq> None \<or> parent_name c = None \<Longrightarrow> linked T c = c"
  by (auto simp: linked_def split: option.splits)

lemma linked_name [simp]: "class_name (linked T c) = class_name c" "cfields (linked T c) = cfields c"
  by (simp_all add: linked_def)

lemma class_table_values: "class_table reg m p = Some b \<Longrightarrow> b \<in> set reg"
  by (auto simp: class_table_def dest!: map_of_SomeD)

lemma resolve_from_ok:
  assumes "heap_ok m (roots reg + R)" and "room_for (length as + n) m" and "set as \<subseteq> set reg"
  shows "\<exists>m' L. resolve_from as reg m = Done m' \<and> heap_ok m' (roots reg + (L + R)) \<and> room_for n m' \<and>
    (\<forall>v \<in># L. \<exists>b \<in> set reg. v = VClass (Some b)) \<and>
    (\<forall>b c. class_at m b = Done c \<longrightarrow>
       class_at m' b = Done (if b \<in> set as then linked (class_table reg m) c else c))"
  using assms
proof (induction as arbitrary: m R)
  case Nil
  then show ?case by (auto intro!: exI [of _ "{#}"])
next
  case (Cons a as)
  let ?T = "class_table reg m"
  from Cons.prems obtain c where c: "class_at m a = Done c" using registry_live [of m reg R a] by auto
  note find = registry_find [OF Cons.prems(1)]
  have skip: ?case if "linked ?T c = c" "resolve_from (a # as) reg m = resolve_from as reg m"
  proof -
    have "room_for (length as + n) m" using Cons.prems(2) by (rule room_for_le) simp
    then obtain m' L where m': "resolve_from as reg m = Done m'" "heap_ok m' (roots reg + (L + R))" "room_for n m'"
        "\<forall>v \<in># L. \<exists>b \<in> set reg. v = VClass (Some b)"
        "\<forall>b c. class_at m b = Done c \<longrightarrow> class_at m' b = Done (if b \<in> set as then linked ?T c else c)"
      using Cons.IH [OF Cons.prems(1)] Cons.prems(3) by auto
    then show ?thesis using that c by (intro exI [of _ m'] exI [of _ L]) auto
  qed
  show ?case
  proof (cases "parent_class c = None \<and> (\<exists>p b. parent_name c = Some p \<and> ?T p = Some b)")
    case False
    then show ?thesis
      using c find by (intro skip) (auto simp: linked_def split: option.splits)
  next
    case True
    then obtain p b where p: "parent_class c = None" "parent_name c = Some p" "?T p = Some b" by blast
    let ?c = "c\<lparr>parent_class := Some b\<rparr>" and ?m = "put_class a (c\<lparr>parent_class := Some b\<rparr>) m"
    have lc: "linked ?T c = ?c" using p by (simp add: linked_def)
    have ok1: "heap_ok ?m (roots reg + R)" by (rule put_class_ok [OF Cons.prems(1) c]) simp
    have "VClass (Some b) \<in># roots reg + R" using class_table_values [OF p(3)] by (simp add: roots_in)
    then have mh: "may_hold ?m (roots reg + R) (VClass (Some b))" by (simp add: may_hold_def)
    obtain m1 where m1: "bread_object_retain (Some b) ?m = Done m1"
        "heap_ok m1 (add_mset (VClass (Some b)) (roots reg + R))" "room_for (length as + n) m1"
      using retain_class_ok [OF ok1 mh, of "length as + n"] Cons.prems(2) by auto
    have at1: "class_at m1 x = (if x = a then Done ?c else class_at m x)" for x
      using retain_class_at [OF m1(1)] class_at_put [OF c] by simp
    have "cname m1 x = cname m x" for x using at1 [of x] c by (simp add: cname_def)
    then have T1: "class_table reg m1 = ?T" by (simp add: class_table_cong)
    have ok2: "heap_ok m1 (roots reg + add_mset (VClass (Some b)) R)" using m1(2) by simp
    obtain m' L where m': "resolve_from as reg m1 = Done m'" "room_for n m'"
        "heap_ok m' (roots reg + (L + add_mset (VClass (Some b)) R))"
        "\<forall>v \<in># L. \<exists>b \<in> set reg. v = VClass (Some b)"
        "\<forall>x d. class_at m1 x = Done d \<longrightarrow> class_at m' x = Done (if x \<in> set as then linked ?T d else d)"
      using Cons.IH [OF ok2 m1(3)] Cons.prems(3) unfolding T1 by auto
    have "class_at m' x = Done (if x \<in> set (a # as) then linked ?T d else d)" if "class_at m x = Done d" for x d
      using m'(5) at1 [of x] that c lc linked_idem [of ?T c] by (cases "x = a") auto
    moreover have "resolve_from (a # as) reg m = Done m'"
      using c p find m1(1) m'(1) by simp
    moreover have "heap_ok m' (roots reg + (add_mset (VClass (Some b)) L + R))" using m'(3) by simp
    moreover have "\<forall>v \<in># add_mset (VClass (Some b)) L. \<exists>b \<in> set reg. v = VClass (Some b)"
      using m'(4) class_table_values [OF p(3)] by auto
    ultimately show ?thesis using m'(2) by blast
  qed
qed

text \<open>
  Resolving inheritance links every registered class that names a parent and has none yet to
  the class registered under that name (a parent that is not registered stays unresolved), and
  changes nothing else in any class; the registry stays a table with the same names, and the
  references the links add are all to registered classes.
\<close>
theorem resolve_inheritance_correct:
  assumes "registry_ok m R reg" and "room_for (length reg + n) m"
  shows "\<exists>m' L. bread_class_resolve_inheritance reg m = Done m' \<and> registry_ok m' (L + R) reg \<and> room_for n m' \<and>
    (\<forall>v \<in># L. \<exists>b \<in> set reg. v = VClass (Some b)) \<and>
    (\<forall>a c. class_at m a = Done c \<longrightarrow> class_at m' a = Done
       (if a \<in> set reg \<and> parent_class c = None
        then c\<lparr>parent_class := (case parent_name c of None \<Rightarrow> None | Some p \<Rightarrow> class_table reg m p)\<rparr> else c))"
proof -
  have ok: "heap_ok m (roots reg + R)" and di: "distinct (map (cname m) reg)"
    using assms(1) by (auto simp: registry_ok_def)
  obtain m' L where m': "resolve_from reg reg m = Done m'" "heap_ok m' (roots reg + (L + R))" "room_for n m'"
      "\<forall>v \<in># L. \<exists>b \<in> set reg. v = VClass (Some b)"
      "\<forall>b c. class_at m b = Done c \<longrightarrow> class_at m' b = Done (if b \<in> set reg then linked (class_table reg m) c else c)"
    using resolve_from_ok [OF ok assms(2)] by auto
  have names: "cname m' a = cname m a" if a: "a \<in> set reg" for a
  proof -
    obtain c where c: "class_at m a = Done c" using registry_live [OF ok a] .
    from m'(5) [rule_format, OF c] a c show ?thesis by (simp add: cname_at)
  qed
  then have "registry_ok m' (L + R) reg" using m'(2) di by (simp add: registry_ok_def cong: map_cong)
  moreover have "class_at m' a = Done (if a \<in> set reg \<and> parent_class c = None
      then c\<lparr>parent_class := (case parent_name c of None \<Rightarrow> None | Some p \<Rightarrow> class_table reg m p)\<rparr> else c)"
    if "class_at m a = Done c" for a c
    using m'(5) [rule_format, OF that] linked_same [of c "class_table reg m"]
    by (simp add: linked_def split: if_splits)
  ultimately show ?thesis
    unfolding bread_class_resolve_inheritance_def using m'(1,3,4) by blast
qed

section \<open>Instances\<close>

definition all_fields :: "bclass list \<Rightarrow> cstring list" where
  \<comment> \<open>of a class and its ancestors, the most distant ancestor first\<close>
  "all_fields cs = concat (map own_fields (rev cs))"

lemma own_fields_length: "named (cfields c) \<Longrightarrow> length (own_fields c) = length (cfields c)"
proof -
  have "None \<notin> fst ` set fs \<Longrightarrow>
      length (concat (map (\<lambda>f. case fst f of None \<Rightarrow> [] | Some n \<Rightarrow> [n]) fs)) = length fs"
    for fs :: "(cstring option \<times> val) list" by (induction fs) (auto split: option.splits)
  then show "named (cfields c) \<Longrightarrow> ?thesis" by (simp add: own_fields_def named_def)
qed

lemma count_fields_ancestry:
  "ancestry m r cs \<Longrightarrow> length cs \<le> n \<Longrightarrow>
   count_fields n r m = Done (sum_list (map (\<lambda>p. length (cfields (snd p))) cs))"
proof (induction arbitrary: n rule: ancestry.induct)
  case root
  then show ?case by (cases n) auto
next
  case (link a c cs)
  then obtain k where "n = Suc k" "length cs \<le> k" by (cases n) auto
  with link show ?case by simp
qed

lemma all_fields_length:
  "\<forall>c \<in> set cs. named (cfields c) \<Longrightarrow> length (all_fields cs) = sum_list (map (\<lambda>c. length (cfields c)) cs)"
  by (induction cs) (auto simp: all_fields_def own_fields_length)

lemma collect_fields_ancestry:
  assumes "ancestry m (Some a) cs" and "length cs \<le> n" and "\<forall>p \<in> set cs. named (cfields (snd p))"
  shows "collect_fields n a m =
    Done (all_fields (map snd cs), sum_list (map (\<lambda>p. length (cfields (snd p))) cs))"
  using assms
proof (induction n arbitrary: a cs)
  case 0
  then show ?case by (auto simp: ancestry_simps)
next
  case (Suc n)
  obtain c ds where cs: "cs = (a, c) # ds" "class_at m a = Done c" "ancestry m (parent_class c) ds"
    using Suc.prems(1) by (auto simp: ancestry_simps)
  note count = count_fields_ancestry [OF Suc.prems(1,2)]
  have len: "length (all_fields (map snd xs)) = sum_list (map (\<lambda>p. length (cfields (snd p))) xs)"
    if "\<forall>p \<in> set xs. named (cfields (snd p))" for xs :: "(addr \<times> bclass) list"
    using all_fields_length [of "map snd xs"] that by (simp add: o_def)
  have inh: "(case parent_class c of None \<Rightarrow> Done [] | Some p \<Rightarrow> bnd (collect_fields n p m) (\<lambda>(names, k).
      if length names < k then Undefined else Done names)) = Done (all_fields (map snd ds))"
  proof (cases "parent_class c")
    case None
    then show ?thesis using cs(3) by (simp add: ancestry_simps all_fields_def)
  next
    case (Some p)
    have "collect_fields n p m = Done (all_fields (map snd ds), sum_list (map (\<lambda>p. length (cfields (snd p))) ds))"
      by (rule Suc.IH) (use cs Some Suc.prems in auto)
    then show ?thesis using Some len [of ds] Suc.prems(3) cs(1) by simp
  qed
  show ?case
  proof (cases "sum_list (map (\<lambda>p. length (cfields (snd p))) cs) = 0")
    case True
    then have "all_fields (map snd cs) = []" using len [OF Suc.prems(3)] by (metis length_0_conv)
    then show ?thesis using count True by simp
  next
    case False
    have "all_fields (map snd cs) = all_fields (map snd ds) @ own_fields c" by (simp add: cs(1) all_fields_def)
    with count False cs(2) inh show ?thesis by auto
  qed
qed

lemma collect_all_fields_ancestry:
  "ancestry m (Some a) cs \<Longrightarrow> \<forall>p \<in> set cs. named (cfields (snd p)) \<Longrightarrow>
   bread_class_collect_all_fields a m = Done (all_fields (map snd cs), length (all_fields (map snd cs)))"
  using collect_fields_ancestry [OF _ ancestry_length] all_fields_length [of "map snd cs"]
  by (simp add: bread_class_collect_all_fields_def o_def)


lemma rows_of_all [simp]: "rows_of (int (length xs)) (Some xs) = Done xs"
  by (simp add: rows_of_def)

lemma class_new_with_methods_ok:
  assumes ok: "heap_ok m R" and room: "room_for n m" "n < 2 ^ 32 - 1"
  shows "\<exists>m'. bread_class_new_with_methods (Some cn) pn (int (length fs)) (Some fs) (int (length ms)) (Some ms) m =
      Done (Some (length (cells m)), m') \<and> heap_ok m' (add_mset (VClass (Some (length (cells m)))) R) \<and>
    room_for n m' \<and> (\<forall>b. b \<noteq> length (cells m) \<longrightarrow> class_at m' b = class_at m b) \<and>
    class_at m' (length (cells m)) = Done \<lparr>class_name = cn, parent_name = pn, parent_class = None,
      cfields = map (\<lambda>f. (f, VNil)) fs, method_names = ms, methods = [],
      compiled_methods = replicate (length ms) None, compiled_constructor = None\<rparr>"
proof -
  let ?a = "length (cells m)"
  let ?c = "\<lparr>class_name = cn, parent_name = pn, parent_class = None, cfields = map (\<lambda>f. (f, VNil)) fs,
    method_names = [], methods = [], compiled_methods = [], compiled_constructor = None\<rparr>"
  obtain m1 where al: "bread_memory_alloc (BClass ?c) m = (?a, m1)" by (simp add: bread_memory_alloc_def)
  note g = alloc_get [OF al]
  have at: "class_at m1 b = (if b = ?a then Done ?c else class_at m b)" for b
    using g [of b] by (simp add: class_at_def)
  have "heap_ok m (mset (children (BClass ?c)) + R)" using ok by (subst heap_ok_null_mset) auto
  then have ok1: "heap_ok m1 (add_mset (VClass (Some ?a)) R)" by (rule alloc_ok [OF _ al]) simp_all
  have rc: "rc_of m1 b \<le> max (rc_of m b) 1" for b using g [of b] by (simp add: rc_of_def)
  have room1: "room_for n m1"
    unfolding room_for_def
  proof
    fix b
    show "rc_of m1 b + n < 2 ^ 32" using rc [of b] room unfolding room_for_def
      by (metis (no_types, lifting) add_less_cancel_right le_less_trans less_diff_conv max.commute max_def add.commute)
  qed
  have new: "bread_class_new (Some cn) pn (int (length fs)) (Some fs) m = Done (Some ?a, m1)"
    using al by (simp add: bread_class_new_def)
  let ?d = "?c\<lparr>method_names := ms, compiled_methods := replicate (length ms) None\<rparr>"
  have ok2: "heap_ok (put_class ?a ?d m1) (add_mset (VClass (Some ?a)) R)"
    by (rule put_class_ok [OF ok1, of _ ?c]) (simp_all add: at)
  have at2: "class_at (put_class ?a ?d m1) b = (if b = ?a then Done ?d else class_at m b)" for b
    using class_at_put [of m1 ?a ?c ?d b] at by simp
  show ?thesis
  proof (cases "ms = []")
    case True
    then show ?thesis using new ok1 room1 at by (auto simp: bread_class_new_with_methods_def)
  next
    case False
    then show ?thesis using new ok2 room1 at at2 by (auto simp: bread_class_new_with_methods_def)
  qed
qed

lemma link_compiled:
  assumes "length (compiled_methods d) = length (method_names d)"
  shows "linked_method d (Some f) old = (if Some f \<in> set (method_names d)
    then compiled_methods d ! length (takeWhile (\<lambda>g. g \<noteq> Some f) (method_names d)) else old)"
proof -
  have "length cs = length ns \<Longrightarrow>
    (case List.find (\<lambda>p. fst p = Some f) (zip ns cs) of None \<Rightarrow> old | Some p \<Rightarrow> snd p) =
    (if Some f \<in> set ns then cs ! length (takeWhile (\<lambda>g. g \<noteq> Some f) ns) else old)"
    for ns :: "cstring option list" and cs
    by (induction ns arbitrary: cs) (auto simp: length_Suc_conv)
  then show ?thesis using assms by (simp add: linked_method_def)
qed

text \<open>
  C40: An instance of a registered class is a new object that holds a nil field for every field of
  the class and all its ancestors, the ancestors' fields first and in order, whatever list of
  fields the caller passed; it has the methods asked for, each one the definition declares linked
  to the compiled code of the definition; it has the definition's constructor and parent, and the
  discipline is kept, with one more reference to the parent.
\<close>
theorem create_instance_correct:
  assumes ok: "heap_ok m R" and def: "bread_class_find_definition cn reg m = Done (Some d)"
    and anc: "ancestry m (Some d) ((d, dc) # cs)" and nm: "\<forall>c \<in> set (dc # map snd cs). named (cfields c)"
    and own: "parent_class dc \<noteq> None \<Longrightarrow> VClass (parent_class dc) \<in># R" and room: "room_for (Suc (Suc n)) m"
    and len: "length (compiled_methods dc) = length (method_names dc)"
  shows "\<exists>m' a ic. bread_class_create_instance cn pn k fs (int (length ms)) (Some ms) reg m = Done (Some a, m') \<and>
    get_obj m a = None \<and> room_for n m' \<and> heap_ok m' (add_mset (VClass (Some a)) (add_mset (VClass (parent_class dc)) R)) \<and>
    class_at m' a = Done ic \<and> class_name ic = cn \<and> parent_class ic = parent_class dc \<and>
    cfields ic = map (\<lambda>f. (Some f, VNil)) (all_fields (dc # map snd cs)) \<and>
    method_names ic = ms \<and> compiled_constructor ic = compiled_constructor dc \<and>
    (\<forall>i < length ms. \<forall>f. ms ! i = Some f \<longrightarrow> compiled_methods ic ! i =
       (if Some f \<in> set (method_names dc)
        then compiled_methods dc ! length (takeWhile (\<lambda>g. g \<noteq> Some f) (method_names dc)) else None))"
proof -
  let ?fs = "map Some (all_fields (dc # map snd cs))" and ?a = "length (cells m)"
  have dat: "class_at m d = Done dc" using anc by (auto simp: ancestry_simps)
  have col: "bread_class_collect_all_fields d m =
      Done (all_fields (dc # map snd cs), length (all_fields (dc # map snd cs)))"
    using collect_all_fields_ancestry [OF anc] nm by simp
  have "rc_of m 0 + Suc (Suc n) < 2 ^ 32" using room unfolding room_for_def by blast
  then have n: "Suc n < 2 ^ 32 - 1" by simp
  have room': "room_for (Suc n) m" using room by (rule room_for_le) simp
  obtain m1 ic0 where m1: "bread_class_new_with_methods (Some cn) pn (int (length ?fs)) (Some ?fs) (int (length ms)) (Some ms) m =
      Done (Some ?a, m1)" "heap_ok m1 (add_mset (VClass (Some ?a)) R)" "room_for (Suc n) m1" "class_at m1 ?a = Done ic0"
    and ic0: "class_name ic0 = cn" "parent_class ic0 = None" "cfields ic0 = map (\<lambda>f. (f, VNil)) ?fs" "method_names ic0 = ms"
      "compiled_methods ic0 = replicate (length ms) None" "compiled_constructor ic0 = None"
    using class_new_with_methods_ok [OF ok room' n, of cn pn ?fs ms] by fastforce
  let ?ic1 = "ic0\<lparr>parent_class := parent_class dc\<rparr>" and ?R = "add_mset (VClass (Some ?a)) R"
  have par: "(case parent_class dc of None \<Rightarrow> parent_class ic0 | Some p \<Rightarrow> Some p) = parent_class dc"
    using ic0(2) by (auto split: option.splits)
  have ok2: "heap_ok (put_class ?a ?ic1 m1) ?R" by (rule put_class_ok [OF m1(2,4)]) simp
  have mh: "may_hold (put_class ?a ?ic1 m1) ?R (VClass (parent_class dc))"
    using own by (cases "parent_class dc") (auto simp: may_hold_def)
  obtain m2 where m2: "bread_object_retain (parent_class dc) (put_class ?a ?ic1 m1) = Done m2"
      "heap_ok m2 (add_mset (VClass (parent_class dc)) ?R)" "room_for n m2"
    using retain_class_ok [OF ok2 mh, of n] m1(3) by auto
  have at2: "class_at m2 ?a = Done ?ic1"
    using retain_class_at [OF m2(1), of ?a] class_at_put [OF m1(4), of ?ic1 ?a] by simp
  let ?ic = "link_instance dc ?ic1"
  have ok3: "heap_ok (put_class ?a ?ic m2) (add_mset (VClass (parent_class dc)) ?R)"
    by (rule put_class_ok [OF m2(2) at2]) (simp add: link_instance_def)
  have at3: "class_at (put_class ?a ?ic m2) ?a = Done ?ic" using class_at_put [OF at2, of ?ic ?a] by simp
  have run: "bread_class_create_instance cn pn k fs (int (length ms)) (Some ms) reg m = Done (Some ?a, put_class ?a ?ic m2)"
    using def dat col m1(1,4) m2(1) par by (simp add: bread_class_create_instance_def Let_def)
  have comp: "compiled_methods ?ic ! i = linked_method dc (ms ! i) None" if "i < length ms" for i
    using that ic0(4,5) by (simp add: link_instance_def)
  have "get_obj m ?a = None" by (simp add: get_obj_def)
  moreover have "class_name ?ic = cn \<and> parent_class ?ic = parent_class dc \<and> method_names ?ic = ms \<and>
      compiled_constructor ?ic = compiled_constructor dc \<and>
      cfields ?ic = map (\<lambda>f. (Some f, VNil)) (all_fields (dc # map snd cs))"
    using ic0 by (auto simp: link_instance_def split: option.splits)
  ultimately show ?thesis
    using run ok3 at3 m2(3) comp link_compiled [OF len, of _ None]
    by (intro exI [of _ "put_class ?a ?ic m2"] exI [of _ ?a] exI [of _ ?ic]) (simp add: add_mset_commute)
qed


section \<open>A sample hierarchy\<close>

definition class_A :: bclass where
  "class_A = \<lparr>class_name = ''A'', parent_name = None, parent_class = None, cfields = [(Some ''x'', VNil)],
     method_names = [Some ''f''], methods = [], compiled_methods = [Some 7], compiled_constructor = None\<rparr>"

definition class_B :: bclass where
  "class_B = \<lparr>class_name = ''B'', parent_name = Some ''A'', parent_class = None, cfields = [(Some ''y'', VNil)],
     method_names = [Some ''g''], methods = [], compiled_methods = [Some 8], compiled_constructor = None\<rparr>"

definition sample_classes :: mem where
  \<comment> \<open>both definitions, not linked yet\<close>
  "sample_classes = snd (bread_memory_alloc (BClass class_B) (snd (bread_memory_alloc (BClass class_A) bread_memory_init)))"

definition sample_linked :: mem where
  "sample_linked = put_class 1 (class_B\<lparr>parent_class := Some 0\<rparr>) sample_classes"

lemma sample_classes_facts:
  "heap_ok sample_classes {#VClass (Some 0), VClass (Some 1)#}"
  "class_at sample_classes 0 = Done class_A" "class_at sample_classes 1 = Done class_B"
  "room_for 9 sample_classes"
proof -
  let ?m = "snd (bread_memory_alloc (BClass class_A) bread_memory_init)"
  have a: "bread_memory_alloc (BClass class_A) bread_memory_init = (0, ?m)"
    by (simp add: bread_memory_alloc_def bread_memory_init_def)
  have ok: "heap_ok ?m {#VClass (Some 0)#}"
    by (rule alloc_ok [OF _ a]) (simp_all add: class_A_def heap_ok_init)
  have b: "bread_memory_alloc (BClass class_B) ?m = (1, sample_classes)"
    by (simp add: sample_classes_def) (simp add: bread_memory_alloc_def bread_memory_init_def)
  have "heap_ok sample_classes (add_mset (VClass (Some 1)) {#VClass (Some 0)#})"
  proof (rule alloc_ok [OF _ b])
    show "heap_ok ?m (mset (children (BClass class_B)) + {#VClass (Some 0)#})"
      using ok by (subst heap_ok_null_mset) (auto simp: class_B_def)
  qed simp_all
  then show "heap_ok sample_classes {#VClass (Some 0), VClass (Some 1)#}" by (simp add: add_mset_commute)
  show "class_at sample_classes 0 = Done class_A" "class_at sample_classes 1 = Done class_B"
    using alloc_get [OF b, of 0, THEN conjunct1] alloc_get [OF b, of 1, THEN conjunct1]
      alloc_get [OF a, of 0, THEN conjunct1] by (simp_all add: class_at_def)
  have "rc_of sample_classes c \<le> 1" for c
    using alloc_get [OF b, of c] alloc_get [OF a, of c]
    by (auto simp: rc_of_def bread_memory_init_def get_obj_def split: option.splits)
  then show "room_for 9 sample_classes" by (rule room_for_small) simp
qed

lemma sample_linked_facts:
  "heap_ok sample_linked {#VClass (Some 0), VClass (Some 1)#}"
  "class_at sample_linked 0 = Done class_A"
  "class_at sample_linked 1 = Done (class_B\<lparr>parent_class := Some 0\<rparr>)" "room_for 9 sample_linked"
  "ancestry sample_linked (Some 1) [(1, class_B\<lparr>parent_class := Some 0\<rparr>), (0, class_A)]"
proof -
  show ok: "heap_ok sample_linked {#VClass (Some 0), VClass (Some 1)#}" unfolding sample_linked_def
    by (rule put_class_ok [OF sample_classes_facts(1,3)]) simp
  show a: "class_at sample_linked 0 = Done class_A"
    and b: "class_at sample_linked 1 = Done (class_B\<lparr>parent_class := Some 0\<rparr>)"
    using class_at_put [OF sample_classes_facts(3)] sample_classes_facts(2) by (simp_all add: sample_linked_def)
  show "room_for 9 sample_linked" using sample_classes_facts(4) by (simp add: sample_linked_def)
  show "ancestry sample_linked (Some 1) [(1, class_B\<lparr>parent_class := Some 0\<rparr>), (0, class_A)]"
    using a b by (auto intro!: ancestry.intros simp: class_A_def)
qed

theorem method_lookup_nearest_witness:
  "\<exists>res. bread_class_find_method_defining_class (Some 1) (Some ''f'') sample_linked = Done res \<and> res \<noteq> None"
  using method_lookup_nearest [OF sample_linked_facts(5), of "''f''"] by (auto simp: class_A_def class_B_def)

theorem create_instance_correct_witness:
  "\<exists>m' a ic. bread_class_create_instance ''B'' None 0 None 2 (Some [Some ''f'', Some ''g'']) [0, 1] sample_linked = Done (Some a, m') \<and>
     class_at m' a = Done ic \<and> map fst (cfields ic) = [Some ''x'', Some ''y''] \<and> compiled_methods ic ! 1 = Some 8"
proof -
  have "bread_class_find_definition ''B'' [0, 1] sample_linked = Done (Some 1)"
    using sample_linked_facts(2,3) by (simp add: bread_class_find_definition_def class_A_def class_B_def)
  from create_instance_correct [OF sample_linked_facts(1) this sample_linked_facts(5), of 7 None 0 None
      "[Some ''f'', Some ''g'']"] sample_linked_facts(4)
  show ?thesis
    by (fastforce simp: named_def class_A_def class_B_def all_fields_def own_fields_def)
qed

theorem register_definition_correct_witness:
  "\<exists>reg' m'. bread_class_register_definition (Some 1) [0] sample_classes = Done (reg', m') \<and>
     bread_class_find_definition ''B'' reg' m' = Done (Some 1) \<and> bread_class_find_definition ''A'' reg' m' = Done (Some 0)"
proof -
  have "registry_ok sample_classes {#VClass (Some 1)#} [0]"
    using sample_classes_facts(1) by (simp add: registry_ok_def add_mset_commute)
  from register_definition_correct [OF this _ sample_classes_facts(3), of 8] sample_classes_facts(2,4)
  show ?thesis by (auto simp: class_A_def class_B_def bread_class_find_definition_def)
qed

theorem resolve_inheritance_correct_witness:
  "\<exists>m'. bread_class_resolve_inheritance [0, 1] sample_classes = Done m' \<and>
     class_at m' 1 = Done (class_B\<lparr>parent_class := Some 0\<rparr>)"
proof -
  have "registry_ok sample_classes {#} [0, 1]"
    using sample_classes_facts(1,2,3) by (simp add: registry_ok_def cname_def class_A_def class_B_def)
  from resolve_inheritance_correct [OF this, of 7] sample_classes_facts(2-4)
  show ?thesis
    by (auto simp: class_A_def class_B_def class_table_def cname_def)
qed

end
