(* ===== verification/BreadRounding.thy ===== *)
theory BreadRounding
  imports BreadDoubles
begin

text \<open>
  Rounded arithmetic on \<^verbatim>\<open>double\<close> and \<^verbatim>\<open>float\<close> patterns and the conversions the
  operators use. Every finite number of a format is a whole multiple of its smallest positive number
  \<open>2 ^ - f64_unit\<close>; the operations compute the exact result as a ratio of natural
  numbers in that unit and round it to nearest, ties to even. An invalid operation gives the
  quiet NaN \<open>f64_qnan\<close>; which NaN a processor gives is not fixed by C, and no operation of the
  program looks at it.
\<close>

unbundle bit_operations_syntax

section \<open>Rounding\<close>

fun bitlen :: "nat \<Rightarrow> nat" where
  "bitlen n = (if n = 0 then 0 else Suc (bitlen (n div 2)))"

declare bitlen.simps [simp del]

definition round_even :: "nat \<Rightarrow> nat \<Rightarrow> nat" where
  \<comment> \<open>the whole number nearest to \<open>n / d\<close>\<close>
  "round_even n d =
     (let q = n div d; r = n mod d in if 2 * r > d \<or> (2 * r = d \<and> odd q) then q + 1 else q)"

definition ieee_round :: "nat \<Rightarrow> nat \<Rightarrow> nat \<Rightarrow> nat \<Rightarrow> nat" where
  \<comment> \<open>the magnitude pattern of \<open>n / d\<close> units: with \<open>k\<close> bits too many the significand is
    \<open>n / (d * 2 ^ k)\<close> rounded, and the exponent field counts \<open>k\<close>\<close>
  "ieee_round p w n d =
     (let k = bitlen (n div d) - (p + 1) in min (k * 2 ^ p + round_even n (d * 2 ^ k)) ((2 ^ w - 1) * 2 ^ p))"

definition ieee_units :: "nat \<Rightarrow> nat \<Rightarrow> nat \<Rightarrow> nat" where
  \<comment> \<open>the magnitude of a finite number in units\<close>
  "ieee_units p w x = (let e = ieee_exp p w x; f = ieee_frac p w x
     in if e = 0 then f else (f + 2 ^ p) * 2 ^ (e - 1))"

definition ieee_inf :: "nat \<Rightarrow> nat \<Rightarrow> nat \<Rightarrow> bool" where
  "ieee_inf p w x \<longleftrightarrow> ieee_exp p w x = 2 ^ w - 1 \<and> ieee_frac p w x = 0"

section \<open>Doubles\<close>

definition f64_unit :: nat where "f64_unit = 1074"

definition f64_qnan :: "64 word" where "f64_qnan = 0x7FF8000000000000"

definition f64_inf :: "64 word \<Rightarrow> bool" where "f64_inf x = ieee_inf 52 11 (unat x)"

definition f64_neg :: "64 word \<Rightarrow> bool" where "f64_neg x = ieee_sign 52 11 (unat x)"

definition f64_units :: "64 word \<Rightarrow> nat" where "f64_units x = ieee_units 52 11 (unat x)"

definition f64_pack :: "bool \<Rightarrow> nat \<Rightarrow> 64 word" where
  "f64_pack s k = of_nat (k + (if s then 2 ^ 63 else 0))"

definition f64_infinity :: "bool \<Rightarrow> 64 word" where
  "f64_infinity s = f64_pack s (0x7FF * 2 ^ 52)"

definition f64_signed :: "64 word \<Rightarrow> int" where
  "f64_signed x = (if f64_neg x then - int (f64_units x) else int (f64_units x))"

definition f64_of_units :: "int \<Rightarrow> bool \<Rightarrow> 64 word" where
  \<comment> \<open>a whole number of units; the sign of a zero is given\<close>
  "f64_of_units i z = (if i = 0 then f64_pack z 0 else f64_pack (i < 0) (ieee_round 52 11 (nat \<bar>i\<bar>) 1))"

definition f64_abs :: "64 word \<Rightarrow> 64 word" where
  "f64_abs x = x AND 0x7FFFFFFFFFFFFFFF"

definition f64_add :: "64 word \<Rightarrow> 64 word \<Rightarrow> 64 word" where
  "f64_add x y =
     (if f64_nan x \<or> f64_nan y then f64_qnan
      else if f64_inf x then (if f64_inf y \<and> f64_neg x \<noteq> f64_neg y then f64_qnan else x)
      else if f64_inf y then y
      else f64_of_units (f64_signed x + f64_signed y) (f64_neg x \<and> f64_neg y))"

definition f64_sub :: "64 word \<Rightarrow> 64 word \<Rightarrow> 64 word" where
  "f64_sub x y =
     (if f64_nan x \<or> f64_nan y then f64_qnan
      else if f64_inf x then (if f64_inf y \<and> f64_neg x = f64_neg y then f64_qnan else x)
      else if f64_inf y then f64_infinity (\<not> f64_neg y)
      else f64_of_units (f64_signed x - f64_signed y) (f64_neg x \<and> \<not> f64_neg y))"

definition f64_mul :: "64 word \<Rightarrow> 64 word \<Rightarrow> 64 word" where
  "f64_mul x y =
     (let s = (f64_neg x \<noteq> f64_neg y) in
      if f64_nan x \<or> f64_nan y then f64_qnan
      else if f64_inf x \<or> f64_inf y
      then (if (f64_inf x \<or> f64_units x \<noteq> 0) \<and> (f64_inf y \<or> f64_units y \<noteq> 0) then f64_infinity s else f64_qnan)
      else f64_pack s (ieee_round 52 11 (f64_units x * f64_units y) (2 ^ f64_unit)))"

definition f64_div :: "64 word \<Rightarrow> 64 word \<Rightarrow> 64 word" where
  "f64_div x y =
     (let s = (f64_neg x \<noteq> f64_neg y) in
      if f64_nan x \<or> f64_nan y then f64_qnan
      else if f64_inf x then (if f64_inf y then f64_qnan else f64_infinity s)
      else if f64_inf y then f64_pack s 0
      else if f64_units y = 0 then (if f64_units x = 0 then f64_qnan else f64_infinity s)
      else f64_pack s (ieee_round 52 11 (f64_units x * 2 ^ f64_unit) (f64_units y)))"

definition f64_of_int :: "64 word \<Rightarrow> 64 word" where
  \<comment> \<open>\<^verbatim>\<open>(double)i\<close>\<close>
  "f64_of_int i = f64_of_units (sint i * 2 ^ f64_unit) False"

definition f64_to_int :: "64 word \<Rightarrow> 64 word option" where
  \<comment> \<open>\<^verbatim>\<open>(int64_t)d\<close> drops the fraction; undefined in C when the result does not fit\<close>
  "f64_to_int x =
     (if f64_nan x \<or> f64_inf x then None
      else let t = int (f64_units x div 2 ^ f64_unit); i = (if f64_neg x then - t else t) in
        if i < - (2 ^ 63) \<or> i \<ge> 2 ^ 63 then None else Some (word_of_int i))"

section \<open>Floats\<close>

definition f32_unit :: nat where "f32_unit = 149"

definition f32_qnan :: "32 word" where "f32_qnan = 0x7FC00000"

definition f32_nan :: "32 word \<Rightarrow> bool" where "f32_nan x = ieee_nan 23 8 (unat x)"

definition f32_inf :: "32 word \<Rightarrow> bool" where "f32_inf x = ieee_inf 23 8 (unat x)"

definition f32_neg :: "32 word \<Rightarrow> bool" where "f32_neg x = ieee_sign 23 8 (unat x)"

definition f32_units :: "32 word \<Rightarrow> nat" where "f32_units x = ieee_units 23 8 (unat x)"

definition f32_signed :: "32 word \<Rightarrow> int" where
  "f32_signed x = (if f32_neg x then - int (f32_units x) else int (f32_units x))"

definition f32_pack :: "bool \<Rightarrow> nat \<Rightarrow> 32 word" where
  "f32_pack s k = of_nat (k + (if s then 2 ^ 31 else 0))"

definition f32_of_units :: "int \<Rightarrow> bool \<Rightarrow> 32 word" where
  "f32_of_units i z = (if i = 0 then f32_pack z 0 else f32_pack (i < 0) (ieee_round 23 8 (nat \<bar>i\<bar>) 1))"

definition f32_sub :: "32 word \<Rightarrow> 32 word \<Rightarrow> 32 word" where
  "f32_sub x y =
     (if f32_nan x \<or> f32_nan y then f32_qnan
      else if f32_inf x then (if f32_inf y \<and> f32_neg x = f32_neg y then f32_qnan else x)
      else if f32_inf y then f32_pack (\<not> f32_neg y) (0xFF * 2 ^ 23)
      else f32_of_units (f32_signed x - f32_signed y) (f32_neg x \<and> \<not> f32_neg y))"

definition f32_abs :: "32 word \<Rightarrow> 32 word" where
  "f32_abs x = x AND 0x7FFFFFFF"

definition f32_of_int :: "64 word \<Rightarrow> 32 word" where
  \<comment> \<open>\<^verbatim>\<open>(float)i\<close>\<close>
  "f32_of_int i = f32_of_units (sint i * 2 ^ f32_unit) False"

definition f32_to_int :: "32 word \<Rightarrow> 64 word option" where
  "f32_to_int x =
     (if f32_nan x \<or> f32_inf x then None
      else let t = int (f32_units x div 2 ^ f32_unit); i = (if f32_neg x then - t else t) in
        if i < - (2 ^ 63) \<or> i \<ge> 2 ^ 63 then None else Some (word_of_int i))"

definition f64_of_f32 :: "32 word \<Rightarrow> 64 word" where
  \<comment> \<open>exact\<close>
  "f64_of_f32 x =
     (if f32_nan x then f64_qnan
      else if f32_inf x then f64_infinity (f32_neg x)
      else f64_pack (f32_neg x) (ieee_round 52 11 (f32_units x * 2 ^ (f64_unit - f32_unit)) 1))"

definition f32_of_f64 :: "64 word \<Rightarrow> 32 word" where
  "f32_of_f64 x =
     (if f64_nan x then f32_qnan
      else if f64_inf x then f32_pack (f64_neg x) (0xFF * 2 ^ 23)
      else f32_pack (f64_neg x) (ieee_round 23 8 (f64_units x) (2 ^ (f64_unit - f32_unit))))"

section \<open>Rounding is exact where it can be\<close>

lemma bitlen_pos: "0 < n \<Longrightarrow> bitlen n = Suc (bitlen (n div 2))"
  by (subst bitlen.simps) simp

lemma bitlen_0 [simp]: "bitlen 0 = 0"
  by (simp add: bitlen.simps)

lemma bitlen_bounds: "n < 2 ^ bitlen n \<and> (0 < n \<longrightarrow> 2 ^ (bitlen n - 1) \<le> n)"
proof (induction n rule: bitlen.induct)
  case (1 n)
  show ?case
  proof (cases "n = 0")
    case False
    then have "n div 2 < 2 ^ bitlen (n div 2) \<and> (0 < n div 2 \<longrightarrow> 2 ^ (bitlen (n div 2) - 1) \<le> n div 2)"
      using 1 by simp
    moreover have "bitlen n = Suc (bitlen (n div 2))" using False by (simp add: bitlen_pos)
    moreover have "0 < n div 2 \<Longrightarrow> bitlen (n div 2) = Suc (bitlen (n div 2 div 2))" by (simp add: bitlen_pos)
    moreover have up: "n div 2 < x \<Longrightarrow> n < 2 * x" and dn: "x \<le> n div 2 \<Longrightarrow> 2 * x \<le> n" for x by arith+
    ultimately show ?thesis
      using False up [of "2 ^ bitlen (n div 2)"] dn [of "2 ^ bitlen (n div 2 div 2)"]
      by (cases "n div 2 = 0") auto
  qed simp
qed

lemma bitlen_le: "n < 2 ^ k \<Longrightarrow> bitlen n \<le> k"
proof (rule ccontr)
  assume "n < 2 ^ k" "\<not> bitlen n \<le> k"
  then have "0 < n" "k \<le> bitlen n - 1" by (auto intro: gr0I)
  then have "(2::nat) ^ k \<le> n" using bitlen_bounds [of n] by (meson le_trans one_le_numeral power_increasing)
  with \<open>n < 2 ^ k\<close> show False by simp
qed

text \<open>A number with at most \<open>p + 1\<close> significant bits is its own rounding.\<close>

lemma round_exact:
  fixes p n :: nat
  defines "s \<equiv> bitlen n - (p + 1)"
  assumes dvd: "2 ^ s dvd n" and small: "s + 1 < 2 ^ w - 1" and w: "2 \<le> w"
  shows "ieee_units p w (ieee_round p w n 1) = n" and "ieee_round p w n 1 < (2 ^ w - 1) * 2 ^ p"
proof -
  let ?q = "n div 2 ^ s"
  have n: "n = ?q * 2 ^ s" using dvd by simp
  have q: "?q < 2 ^ (p + 1)"
  proof -
    have "n < 2 ^ bitlen n" using bitlen_bounds by blast
    also have "bitlen n \<le> s + (p + 1)" by (simp add: s_def)
    then have "(2::nat) ^ bitlen n \<le> 2 ^ (s + (p + 1))" by (rule power_increasing) simp
    finally have "n < 2 ^ (p + 1) * 2 ^ s" by (simp only: power_add mult.commute)
    then show ?thesis by (rule less_mult_imp_div_less)
  qed
  have re: "round_even n (1 * 2 ^ s) = ?q" using dvd by (simp add: round_even_def Let_def dvd_eq_mod_eq_0)
  have norm: "2 ^ p \<le> ?q" if "0 < s"
  proof -
    have b: "bitlen n - 1 = s + p" using that by (simp add: s_def)
    have "0 < n" using that by (auto simp: s_def intro: gr0I)
    then have "2 ^ (s + p) \<le> n" using bitlen_bounds [of n] b by simp
    then show ?thesis by (metis div_le_mono mult.commute nonzero_mult_div_cancel_left power_add power_not_zero zero_neq_numeral)
  qed
  let ?x = "s * 2 ^ p + ?q"
  have xb: "?x < (2 ^ w - 1) * 2 ^ p"
  proof -
    have "?x < s * 2 ^ p + 2 * 2 ^ p" using q by simp
    also have "\<dots> = (s + 2) * 2 ^ p" by (simp add: algebra_simps)
    also have "\<dots> \<le> (2 ^ w - 1) * 2 ^ p" using small by (intro mult_le_mono) auto
    finally show ?thesis .
  qed
  then have r: "ieee_round p w n 1 = ?x"
    using re by (simp add: ieee_round_def Let_def s_def)
  with xb show "ieee_round p w n 1 < (2 ^ w - 1) * 2 ^ p" by simp
  have pw: "s + 1 < 2 ^ w" using small by simp
  have "ieee_units p w ?x = n"
  proof (cases "?q < 2 ^ p")
    case True
    with norm have "s = 0" by fastforce
    with True show ?thesis by (simp add: ieee_units_def ieee_exp_def ieee_frac_def)
  next
    case False
    then obtain t where t: "?q = 2 ^ p + t" by (metis le_Suc_ex not_less)
    with q have t': "t < 2 ^ p" by simp
    have x: "?x = (s + 1) * 2 ^ p + t" using t by (simp add: algebra_simps)
    have "?x div 2 ^ p = s + 1" "?x mod 2 ^ p = t" unfolding x using t'
      by (simp_all only: div_mult_self3 mod_mult_self3 power_not_zero div_less mod_less zero_neq_numeral
          not_False_eq_True add_0_right)
    then have "ieee_exp p w ?x = s + 1" "ieee_frac p w ?x = t"
      using pw by (simp_all only: ieee_exp_def ieee_frac_def mod_less)
    then show ?thesis using n t by (simp add: ieee_units_def add.commute)
  qed
  with r show "ieee_units p w (ieee_round p w n 1) = n" by simp
qed

lemma f64_pack_unat: "k < 2 ^ 63 \<Longrightarrow> unat (f64_pack s k) = k + (if s then 2 ^ 63 else 0)"
  unfolding f64_pack_def unat_of_nat by simp

lemma f64_pack_fields:
  assumes k: "k < 2 ^ 63"
  shows "f64_neg (f64_pack s k) = s" "f64_units (f64_pack s k) = ieee_units 52 11 k"
    "f64_nan (f64_pack s k) = ieee_nan 52 11 k" "f64_inf (f64_pack s k) = ieee_inf 52 11 k"
proof -
  let ?x = "k + (if s then 2 ^ 63 else 0)"
  have "?x = k + (if s then 1 else 0) * 2 ^ 63" by simp
  then have d: "?x div 2 ^ 63 = (if s then 1 else 0)" using k by (simp only: div_mult_self1) simp
  have e: "?x div 2 ^ 52 mod 2 ^ 11 = k div 2 ^ 52 mod 2 ^ 11"
  proof -
    have "?x = k + (if s then 2 ^ 11 else 0) * 2 ^ 52" by simp
    then have "?x div 2 ^ 52 = (if s then 2 ^ 11 else 0) + k div 2 ^ 52" by (simp only: div_mult_self1) simp
    then show ?thesis by (simp split: if_splits)
  qed
  have f: "?x mod 2 ^ 52 = k mod 2 ^ 52"
  proof -
    have "?x = k + (if s then 2 ^ 11 else 0) * 2 ^ 52" by simp
    then show ?thesis by (simp only: mod_mult_self1)
  qed
  show "f64_neg (f64_pack s k) = s" using d by (simp add: f64_neg_def f64_pack_unat [OF k] ieee_sign_def)
  show "f64_units (f64_pack s k) = ieee_units 52 11 k" "f64_nan (f64_pack s k) = ieee_nan 52 11 k"
      "f64_inf (f64_pack s k) = ieee_inf 52 11 k"
    unfolding f64_units_def f64_nan_def f64_inf_def f64_pack_unat [OF k] ieee_units_def ieee_nan_def
      ieee_inf_def ieee_exp_def ieee_frac_def e f by simp_all
qed

lemma finite_pattern:
  assumes "k < (2 ^ 11 - 1) * 2 ^ 52"
  shows "k < 2 ^ 63" "\<not> ieee_nan 52 11 k" "\<not> ieee_inf 52 11 k"
proof -
  have d: "k div 2 ^ 52 < 2 ^ 11 - 1" using assms by (simp add: less_mult_imp_div_less)
  show "k < 2 ^ 63" using assms by simp
  from d show "\<not> ieee_nan 52 11 k" "\<not> ieee_inf 52 11 k"
    by (simp_all add: ieee_nan_def ieee_inf_def ieee_exp_def)
qed

text \<open>Whole numbers of at most 53 bits are doubles.\<close>

lemma whole_units:
  fixes a u :: nat
  assumes a: "a \<le> 2 ^ 53"
  shows "2 ^ (bitlen (a * 2 ^ u) - (52 + 1)) dvd a * 2 ^ u \<and> bitlen (a * 2 ^ u) - (52 + 1) \<le> u + 1"
proof (cases "a = 2 ^ 53")
  case True
  then have n: "a * 2 ^ u = 2 ^ (53 + u)" by (simp only: power_add)
  have "a * 2 ^ u < 2 ^ (54 + u)" unfolding n by (rule power_strict_increasing) simp_all
  then have le: "bitlen (a * 2 ^ u) \<le> 54 + u" by (rule bitlen_le)
  then have "(2::nat) ^ (bitlen (a * 2 ^ u) - (52 + 1)) dvd 2 ^ (53 + u)" by (intro le_imp_power_dvd) simp
  with n le show ?thesis by simp
next
  case False
  with a have "a < 2 ^ 53" by simp
  then have "a * 2 ^ u < 2 ^ (53 + u)" by (simp only: power_add mult_less_mono1 zero_less_power zero_less_numeral)
  then have le: "bitlen (a * 2 ^ u) \<le> 53 + u" by (rule bitlen_le)
  then have "(2::nat) ^ (bitlen (a * 2 ^ u) - (52 + 1)) dvd 2 ^ u" by (intro le_imp_power_dvd) simp
  with le show ?thesis by simp
qed

lemma f64_of_int_exact:
  assumes "\<bar>sint i\<bar> \<le> 2 ^ 53"
  defines "d \<equiv> f64_of_int i"
  shows "f64_units d = nat \<bar>sint i\<bar> * 2 ^ f64_unit" "f64_neg d \<longleftrightarrow> sint i < 0"
    "\<not> f64_nan d" "\<not> f64_inf d"
proof -
  let ?a = "nat \<bar>sint i\<bar>" and ?n = "nat \<bar>sint i\<bar> * 2 ^ f64_unit"
  have a: "?a \<le> 2 ^ 53" using assms(1) by simp
  have n: "nat \<bar>sint i * 2 ^ f64_unit\<bar> = ?n" by (simp add: abs_mult nat_mult_distrib)
  have small: "bitlen ?n - (52 + 1) + 1 < 2 ^ 11 - 1" and dvd: "2 ^ (bitlen ?n - (52 + 1)) dvd ?n"
  proof -
    have "f64_unit + 2 < 2 ^ 11 - 1" by (simp add: f64_unit_def)
    with whole_units [OF a, of f64_unit]
    show "bitlen ?n - (52 + 1) + 1 < 2 ^ 11 - 1" "2 ^ (bitlen ?n - (52 + 1)) dvd ?n" by linarith+
  qed
  note rx = round_exact [OF dvd small]
  have rx: "ieee_units 52 11 (ieee_round 52 11 ?n 1) = ?n" "ieee_round 52 11 ?n 1 < (2 ^ 11 - 1) * 2 ^ 52"
    using rx by simp_all
  note fp = finite_pattern [OF rx(2)]
  have pk: "d = f64_pack (sint i < 0) (ieee_round 52 11 ?n 1)" if "sint i \<noteq> 0"
    using that n by (simp add: d_def f64_of_int_def f64_of_units_def mult_less_0_iff)
  have z: "d = f64_pack False 0" "?n = 0" if "sint i = 0"
    using that by (simp_all add: d_def f64_of_int_def f64_of_units_def)
  show "f64_units d = ?n" "f64_neg d \<longleftrightarrow> sint i < 0" "\<not> f64_nan d" "\<not> f64_inf d"
  proof -
    have z0: "f64_units (f64_pack False 0) = 0" "\<not> f64_neg (f64_pack False 0)"
        "\<not> f64_nan (f64_pack False 0)" "\<not> f64_inf (f64_pack False 0)"
      using f64_pack_fields [of 0 False]
      by (simp_all add: ieee_units_def ieee_exp_def ieee_frac_def ieee_nan_def ieee_inf_def)
    note nz = f64_pack_fields [OF fp(1), of "sint i < 0"]
    show "f64_units d = ?n" using pk z z0(1) nz(2) rx(1) by (cases "sint i = 0") (simp_all only: not_False_eq_True simp_thms)
    show "f64_neg d \<longleftrightarrow> sint i < 0" using pk z(1) z0(2) nz(1) by (cases "sint i = 0") auto
    show "\<not> f64_nan d" using pk z(1) z0(3) nz(3) fp(2) by (cases "sint i = 0") (simp_all only: not_False_eq_True)
    show "\<not> f64_inf d" using pk z(1) z0(4) nz(4) fp(3) by (cases "sint i = 0") (simp_all only: not_False_eq_True)
  qed
qed

lemma f64_int_roundtrip: "\<bar>sint i\<bar> \<le> 2 ^ 53 \<Longrightarrow> f64_to_int (f64_of_int i) = Some i"
proof -
  assume i: "\<bar>sint i\<bar> \<le> 2 ^ 53"
  note e = f64_of_int_exact [OF i]
  have "int (f64_units (f64_of_int i) div 2 ^ f64_unit) = \<bar>sint i\<bar>" using e(1) by simp
  then show ?thesis using e(2-4) i by (auto simp: f64_to_int_def Let_def)
qed

end
