(* ===== verification/BreadText.thy ===== *)
theory BreadText
  imports BreadRounding BreadSlots
begin

text \<open>
  Numbers as text: the \<^verbatim>\<open>printf\<close> conversions \<^verbatim>\<open>%g\<close> and \<^verbatim>\<open>%f\<close> of doubles,
  which print the exact value rounded to the digits asked for, and the float format of
  \<^verbatim>\<open>bread_format_float\<close> in \<^verbatim>\<open>src/runtime/value_ops.c\<close>.
\<close>

function dec_up :: "nat \<Rightarrow> nat \<Rightarrow> nat" where
  \<comment> \<open>the largest \<open>X\<close> with \<open>10 ^ X * d \<le> n\<close>\<close>
  "dec_up n d = (if d = 0 \<or> n < 10 * d then 0 else Suc (dec_up n (10 * d)))"
  by pat_completeness auto
termination
  by (relation "measure (\<lambda>(n, d). n - d)") auto

function dec_down :: "nat \<Rightarrow> nat \<Rightarrow> nat" where
  \<comment> \<open>the least \<open>k\<close> with \<open>d \<le> n * 10 ^ k\<close>\<close>
  "dec_down n d = (if n = 0 \<or> d \<le> n then 0 else Suc (dec_down (10 * n) d))"
  by pat_completeness auto
termination
  by (relation "measure (\<lambda>(n, d). d - n)") auto

declare dec_up.simps [simp del] dec_down.simps [simp del]

definition strip_zeros :: "cstring \<Rightarrow> cstring" where
  "strip_zeros s = rev (dropWhile (\<lambda>c. c = CHR ''0'') (rev s))"

definition pad_zeros :: "nat \<Rightarrow> cstring \<Rightarrow> cstring" where
  "pad_zeros n s = replicate (n - length s) CHR ''0'' @ s"

definition point :: "cstring \<Rightarrow> cstring" where
  "point frac = (if frac = [] then [] else CHR ''.'' # frac)"

definition show_exponent :: "int \<Rightarrow> cstring" where
  "show_exponent x = ''e'' @ (if x < 0 then ''-'' else ''+'') @ pad_zeros 2 (show_nat (nat \<bar>x\<bar>))"

definition g_digits :: "nat \<Rightarrow> nat \<Rightarrow> nat \<Rightarrow> nat \<times> int" where
  \<comment> \<open>\<open>P\<close> significant digits of \<open>n / d\<close> and the exponent of the first one\<close>
  "g_digits P n d =
     (let x = (if n \<ge> d then int (dec_up n d) else - int (dec_down n d));
          s = int P - 1 - x;
          k = (if s \<ge> 0 then round_even (n * 10 ^ nat s) d else round_even n (d * 10 ^ nat (- s)))
      in if k = 10 ^ P then (10 ^ (P - 1), x + 1) else (k, x))"

definition format_g :: "nat \<Rightarrow> 64 word \<Rightarrow> cstring" where
  "format_g P x =
     (let sign = (if f64_neg x then ''-'' else '''') in
      if f64_nan x then sign @ ''nan''
      else if f64_inf x then sign @ ''inf''
      else if f64_units x = 0 then sign @ ''0''
      else let (k, e) = g_digits P (f64_units x) (2 ^ f64_unit); ds = show_nat k in
        sign @ (if - 4 \<le> e \<and> e < int P
          then (if e \<ge> 0 then take (nat e + 1) ds @ point (strip_zeros (drop (nat e + 1) ds))
                else ''0.'' @ replicate (nat (- e) - 1) CHR ''0'' @ strip_zeros ds)
          else take 1 ds @ point (strip_zeros (drop 1 ds)) @ show_exponent e))"

definition format_f :: "64 word \<Rightarrow> cstring" where
  \<comment> \<open>\<^verbatim>\<open>%f\<close>: six digits after the point\<close>
  "format_f x =
     (let sign = (if f64_neg x then ''-'' else '''') in
      if f64_nan x then sign @ ''nan''
      else if f64_inf x then sign @ ''inf''
      else let k = round_even (f64_units x * 10 ^ 6) (2 ^ f64_unit) in
        sign @ show_nat (k div 10 ^ 6) @ ''.'' @ pad_zeros 6 (show_nat (k mod 10 ^ 6)))"

definition bread_format_float :: "64 word \<Rightarrow> cstring" where
  \<comment> \<open>the buffer of 64 bytes is never full: at most 22 characters\<close>
  "bread_format_float x =
     (let s = format_g 15 x in
      if CHR ''.'' \<in> set s \<or> CHR ''e'' \<in> set s \<or> CHR ''E'' \<in> set s then s
      else if length s + 2 < 64 then s @ ''.0'' else s)"

end
