(* ===== verification/BreadOperators.thy ===== *)
theory BreadOperators
  imports BreadText BreadDicts BreadArrays BreadRecords
begin

text \<open>
  The operators of \<^verbatim>\<open>src/runtime/value_ops.c\<close>: building values, truth, equality,
  comparison, arithmetic and coercion, and printing. A pointer argument is never NULL (a NULL
  operand makes each function return 0 at once); the result is \<open>None\<close> for the return value 0
  and \<open>Some v\<close> for 1 with \<open>v\<close> written to \<^verbatim>\<open>*out\<close>. Signed 64-bit overflow and the
  conversion of a double that does not fit are undefined behaviour of C and \<open>Undefined\<close> here.
  Printed text is the result of the printing functions.
\<close>

unbundle bit_operations_syntax

section \<open>Building values\<close>

definition bread_value_set_bool :: "bool \<Rightarrow> val" where "bread_value_set_bool b = VBool b"
definition bread_value_set_int :: "64 word \<Rightarrow> val" where "bread_value_set_int i = VInt i"
definition bread_value_set_float :: "32 word \<Rightarrow> val" where "bread_value_set_float x = VFloat x"
definition bread_value_set_double :: "64 word \<Rightarrow> val" where "bread_value_set_double x = VDouble x"

definition bread_value_set_string :: "cstring option \<Rightarrow> mem \<Rightarrow> val \<times> mem" where
  "bread_value_set_string s m =
     (let (r, m1) = bread_string_new (case s of None \<Rightarrow> [] | Some t \<Rightarrow> t) m in (VString r, m1))"

definition bread_value_set_array :: "ref \<Rightarrow> mem \<Rightarrow> (val \<times> mem) outcome" where
  "bread_value_set_array r m =
     (case r of
        None \<Rightarrow> bnd (raise_error BREAD_ERROR_MEMORY_ALLOCATION ''Out of memory creating array'' m)
                 (\<lambda>m1. Done (VNil, m1))
      | Some a \<Rightarrow> bnd (bread_object_retain r m) (\<lambda>m1. Done (VArray r, m1)))"

definition bread_value_set_dict :: "ref \<Rightarrow> mem \<Rightarrow> (val \<times> mem) outcome" where
  "bread_value_set_dict r m = bnd (bread_object_retain r m) (\<lambda>m1. Done (VDict r, m1))"

definition bread_value_set_optional :: "ref \<Rightarrow> mem \<Rightarrow> (val \<times> mem) outcome" where
  "bread_value_set_optional r m = bnd (bread_object_retain r m) (\<lambda>m1. Done (VOptional r, m1))"

definition bread_value_set_struct :: "ref \<Rightarrow> mem \<Rightarrow> (val \<times> mem) outcome" where
  "bread_value_set_struct r m = bnd (bread_object_retain r m) (\<lambda>m1. Done (VStruct r, m1))"

definition bread_value_set_class :: "ref \<Rightarrow> mem \<Rightarrow> (val \<times> mem) outcome" where
  "bread_value_set_class r m = bnd (bread_object_retain r m) (\<lambda>m1. Done (VClass r, m1))"

definition bread_value_assign :: "val \<Rightarrow> val \<Rightarrow> mem \<Rightarrow> (val \<times> mem) outcome" where
  \<comment> \<open>two different variables: the new value is cloned before the old one is released\<close>
  "bread_value_assign target source m =
     bnd (bread_value_clone source m) (\<lambda>(v, m1). bnd (bread_value_release target m1) (\<lambda>m2. Done (v, m2)))"

definition bread_value_copy :: "val \<Rightarrow> val \<Rightarrow> mem \<Rightarrow> (val \<times> mem) outcome" where
  \<comment> \<open>two different variables: the old value is released before the new one is cloned\<close>
  "bread_value_copy source target m =
     bnd (bread_value_release target m) (\<lambda>m1. bread_value_clone source m1)"

section \<open>Numbers\<close>

definition bread_value_is_number :: "VarType \<Rightarrow> bool" where
  "bread_value_is_number t \<longleftrightarrow> t = TYPE_INT \<or> t = TYPE_FLOAT \<or> t = TYPE_DOUBLE"

fun bread_value_as_double :: "val \<Rightarrow> 64 word" where
  "bread_value_as_double (VDouble x) = x"
| "bread_value_as_double (VFloat x) = f64_of_f32 x"
| "bread_value_as_double (VInt i) = f64_of_int i"
| "bread_value_as_double _ = 0"

definition checked_int :: "int \<Rightarrow> val outcome" where
  \<comment> \<open>the result of signed 64-bit arithmetic\<close>
  "checked_int i = (if i < - (2 ^ 63) \<or> i \<ge> 2 ^ 63 then Undefined else Done (bread_value_set_int (word_of_int i)))"

definition c_div :: "int \<Rightarrow> int \<Rightarrow> int" where
  \<comment> \<open>division of C rounds towards zero\<close>
  "c_div a b = sgn a * sgn b * (\<bar>a\<bar> div \<bar>b\<bar>)"

definition c_mod :: "int \<Rightarrow> int \<Rightarrow> int" where
  "c_mod a b = a - c_div a b * b"

definition type_error :: "cstring \<Rightarrow> mem \<Rightarrow> ('a option \<times> mem) outcome" where
  \<comment> \<open>\<^verbatim>\<open>BREAD_ERROR_SET_TYPE_MISMATCH(msg); return 0;\<close>\<close>
  "type_error msg m = bnd (raise_error BREAD_ERROR_TYPE_MISMATCH msg m) (\<lambda>m1. Done (None, m1))"

definition runtime_error :: "cstring \<Rightarrow> mem \<Rightarrow> ('a option \<times> mem) outcome" where
  "runtime_error msg m = bnd (raise_error BREAD_ERROR_RUNTIME_ERROR msg m) (\<lambda>m1. Done (None, m1))"

definition bread_add :: "val \<Rightarrow> val \<Rightarrow> mem \<Rightarrow> (val option \<times> mem) outcome" where
  "bread_add l r m =
     (if vtype l = TYPE_STRING \<or> vtype r = TYPE_STRING
      then (if vtype l \<noteq> TYPE_STRING \<or> vtype r \<noteq> TYPE_STRING
            then type_error ''Cannot concatenate string with non-string'' m
            else let (s, m1) = bread_string_concat (ref_of l) (ref_of r) m in Done (Some (VString s), m1))
      else if \<not> bread_value_is_number (vtype l) \<or> \<not> bread_value_is_number (vtype r)
      then type_error ''Invalid operand types for arithmetic operation'' m
      else (case (l, r) of
          (VInt a, VInt b) \<Rightarrow> bnd (checked_int (sint a + sint b)) (\<lambda>v. Done (Some v, m))
        | _ \<Rightarrow> Done (Some (VDouble (f64_add (bread_value_as_double l) (bread_value_as_double r))), m)))"

definition int_arith :: "char \<Rightarrow> 64 word \<Rightarrow> 64 word \<Rightarrow> mem \<Rightarrow> (val option \<times> mem) outcome" where
  \<comment> \<open>both operands of \<^verbatim>\<open>bread_arithmetic_op\<close> are integers\<close>
  "int_arith op a b m =
     (if (op = CHR ''/'' \<or> op = CHR ''%'') \<and> b = 0
      then bnd (raise_error BREAD_ERROR_DIVISION_BY_ZERO
             (if op = CHR ''/'' then ''Integer division by zero'' else ''Integer modulo by zero'') m) (\<lambda>m1. Done (None, m1))
      else if op = CHR ''-'' then bnd (checked_int (sint a - sint b)) (\<lambda>v. Done (Some v, m))
      else if op = CHR ''*'' then bnd (checked_int (sint a * sint b)) (\<lambda>v. Done (Some v, m))
      else if op = CHR ''/'' then bnd (checked_int (c_div (sint a) (sint b))) (\<lambda>v. Done (Some v, m))
      else if op = CHR ''%''
      then bnd (checked_int (c_div (sint a) (sint b))) (\<lambda>q. \<comment> \<open>\<open>a % b\<close> is undefined when \<open>a / b\<close> is\<close>
             bnd (checked_int (c_mod (sint a) (sint b))) (\<lambda>v. Done (Some v, m)))
      else Done (None, m))"

definition double_arith :: "char \<Rightarrow> 64 word \<Rightarrow> 64 word \<Rightarrow> mem \<Rightarrow> (val option \<times> mem) outcome" where
  "double_arith op l r m =
     (if op = CHR ''%'' then type_error ''Modulo operation not supported for floating point numbers'' m
      else if op = CHR ''/'' \<and> f64_eq r 0
      then bnd (raise_error BREAD_ERROR_DIVISION_BY_ZERO ''Floating point division by zero'' m) (\<lambda>m1. Done (None, m1))
      else if op = CHR ''-'' then Done (Some (VDouble (f64_sub l r)), m)
      else if op = CHR ''*'' then Done (Some (VDouble (f64_mul l r)), m)
      else if op = CHR ''/'' then Done (Some (VDouble (f64_div l r)), m)
      else Done (None, m))"

definition bread_arithmetic_op :: "char \<Rightarrow> val \<Rightarrow> val \<Rightarrow> mem \<Rightarrow> (val option \<times> mem) outcome" where
  "bread_arithmetic_op op l r m =
     (if \<not> bread_value_is_number (vtype l) \<or> \<not> bread_value_is_number (vtype r)
      then type_error ''Invalid operand types for arithmetic operation'' m
      else (case (l, r) of
          (VInt a, VInt b) \<Rightarrow> int_arith op a b m
        | _ \<Rightarrow> double_arith op (bread_value_as_double l) (bread_value_as_double r) m))"

section \<open>Equality, comparison, truth\<close>

definition tolerance64 :: "64 word" where "tolerance64 = 0x3E112E0BE826D695" \<comment> \<open>\<^verbatim>\<open>1e-9\<close>\<close>
definition tolerance32 :: "32 word" where "tolerance32 = 0x358637BD" \<comment> \<open>\<^verbatim>\<open>1e-6f\<close>\<close>

definition bread_eq :: "mem \<Rightarrow> val \<Rightarrow> val \<Rightarrow> bool" where
  "bread_eq m l r =
     (if vtype l \<noteq> vtype r then False
      else (case l of
          VNil \<Rightarrow> True
        | VBool a \<Rightarrow> (case r of VBool b \<Rightarrow> a = b | _ \<Rightarrow> False)
        | VInt a \<Rightarrow> (case r of VInt b \<Rightarrow> a = b | _ \<Rightarrow> False)
        | VFloat a \<Rightarrow> (case r of VFloat b \<Rightarrow> f32_less (f32_abs (f32_sub a b)) tolerance32 | _ \<Rightarrow> False)
        | VDouble a \<Rightarrow> (case r of VDouble b \<Rightarrow> f64_less (f64_abs (f64_sub a b)) tolerance64 | _ \<Rightarrow> False)
        | VString a \<Rightarrow> bread_string_eq m a (ref_of r)
        | _ \<Rightarrow> ref_of l = ref_of r))"

definition by_op :: "char \<Rightarrow> bool \<Rightarrow> bool \<Rightarrow> bool \<Rightarrow> bool option" where
  \<comment> \<open>the comparison the operator asks for, from the tests \<open>=\<close>, \<open><\<close> and \<open>>\<close>\<close>
  "by_op op e l g =
     (if op = CHR ''='' then Some e else if op = CHR ''!'' then Some (\<not> e)
      else if op = CHR ''<'' then Some l else if op = CHR ''>'' then Some g
      else if op = CHR ''l'' then Some (l \<or> e) else if op = CHR ''g'' then Some (g \<or> e) else None)"

definition bread_compare_values :: "char \<Rightarrow> val \<Rightarrow> val \<Rightarrow> mem \<Rightarrow> (bool option \<times> mem) outcome" where
  "bread_compare_values op l r m =
     (if vtype l \<noteq> vtype r then type_error ''Cannot compare different types'' m
      else (case l of
          VInt a \<Rightarrow> (case r of VInt b \<Rightarrow> Done (by_op op (a = b) (sint a < sint b) (sint a > sint b), m) | _ \<Rightarrow> Undefined)
        | VDouble a \<Rightarrow> (case r of VDouble b \<Rightarrow> Done (by_op op (f64_eq a b) (f64_less a b) (f64_less b a), m) | _ \<Rightarrow> Undefined)
        | VFloat a \<Rightarrow> (case r of VFloat b \<Rightarrow> Done (by_op op (f32_eq a b) (f32_less a b) (f32_less b a), m) | _ \<Rightarrow> Undefined)
        | VBool a \<Rightarrow> (case r of VBool b \<Rightarrow> Done (by_op op (a = b) (\<not> a \<and> b) (a \<and> \<not> b), m) | _ \<Rightarrow> Undefined)
        | VString a \<Rightarrow>
            (let c = bread_string_cmp m a (ref_of r) in Done (by_op op (c = 0) (c < 0) (c > 0), m))
        | VNil \<Rightarrow> type_error ''Cannot compare this type'' m
        | _ \<Rightarrow>
            if op \<noteq> CHR ''='' \<and> op \<noteq> CHR ''!''
            then type_error ''Complex types only support == and != comparison'' m
            else Done (Some (if op = CHR ''='' then ref_of l = ref_of r else ref_of l \<noteq> ref_of r), m)))"

definition bread_binary_op :: "char \<Rightarrow> val \<Rightarrow> val \<Rightarrow> mem \<Rightarrow> (val option \<times> mem) outcome" where
  "bread_binary_op op l r m =
     (if op = CHR ''+'' then bread_add l r m
      else if op \<in> {CHR ''-'', CHR ''*'', CHR ''/'', CHR ''%''} then bread_arithmetic_op op l r m
      else if op \<in> {CHR ''='', CHR ''!'', CHR ''<'', CHR ''>'', CHR ''l'', CHR ''g''}
      then bnd (bread_compare_values op l r m) (\<lambda>(res, m1). Done (map_option bread_value_set_bool res, m1))
      else if op \<in> {CHR ''&'', CHR ''|''}
      then (case (l, r) of
          (VBool a, VBool b) \<Rightarrow> Done (Some (bread_value_set_bool (if op = CHR ''&'' then a \<and> b else a \<or> b)), m)
        | _ \<Rightarrow> type_error ''Logical operations require boolean operands'' m)
      else runtime_error (''Unknown binary operator '' @ [CHR 0x27, op, CHR 0x27]) m)"

definition bread_unary_not :: "val \<Rightarrow> mem \<Rightarrow> (val option \<times> mem) outcome" where
  "bread_unary_not v m =
     (case v of VBool b \<Rightarrow> Done (Some (bread_value_set_bool (\<not> b)), m)
      | _ \<Rightarrow> type_error ''Logical NOT requires boolean operand'' m)"

definition optional_at :: "mem \<Rightarrow> addr \<Rightarrow> val option outcome" where
  "optional_at m a = (case get_obj m a of None \<Rightarrow> Undefined
     | Some ob \<Rightarrow> (case body ob of BOptional v \<Rightarrow> Done v | _ \<Rightarrow> Undefined))"

fun bread_is_truthy :: "val \<Rightarrow> mem \<Rightarrow> bool outcome" where
  "bread_is_truthy VNil m = Done False"
| "bread_is_truthy (VBool b) m = Done b"
| "bread_is_truthy (VInt i) m = Done (i \<noteq> 0)"
| "bread_is_truthy (VFloat x) m = Done (\<not> f32_eq x 0)"
| "bread_is_truthy (VDouble x) m = Done (\<not> f64_eq x 0)"
| "bread_is_truthy (VString r) m = Done (bread_string_len m r > 0)"
| "bread_is_truthy (VOptional r) m =
     (case r of None \<Rightarrow> Done False | Some a \<Rightarrow> bnd (optional_at m a) (\<lambda>v. Done (v \<noteq> None)))"
| "bread_is_truthy v m = Done (ref_of v \<noteq> None)"

section \<open>Coercion\<close>

definition wrap_optional :: "ref \<times> mem \<Rightarrow> (val option \<times> mem) outcome" where
  \<comment> \<open>\<^verbatim>\<open>bread_value_set_optional(out, o); bread_optional_release(o);\<close>\<close>
  "wrap_optional p =
     bnd (bread_value_set_optional (fst p) (snd p)) (\<lambda>(v, m1).
     bnd (bread_optional_release (fst p) m1) (\<lambda>m2. Done (Some v, m2)))"

definition bread_coerce_value :: "VarType \<Rightarrow> val \<Rightarrow> mem \<Rightarrow> (val option \<times> mem) outcome" where
  "bread_coerce_value target v m =
     (if target = TYPE_OPTIONAL \<and> vtype v = TYPE_NIL then wrap_optional (bread_optional_new_none m)
      else if target = TYPE_OPTIONAL \<and> vtype v \<noteq> TYPE_OPTIONAL
      then bnd (bread_optional_new_some v m) wrap_optional
      else if target = vtype v then bnd (bread_value_clone v m) (\<lambda>(w, m1). Done (Some w, m1))
      else let mismatch = type_error ''Type mismatch in coercion'' m in
        if target = TYPE_DOUBLE
        then (case v of VInt i \<Rightarrow> Done (Some (VDouble (f64_of_int i)), m)
              | VFloat x \<Rightarrow> Done (Some (VDouble (f64_of_f32 x)), m) | _ \<Rightarrow> mismatch)
        else if target = TYPE_FLOAT
        then (case v of VInt i \<Rightarrow> Done (Some (VFloat (f32_of_int i)), m)
              | VDouble x \<Rightarrow> Done (Some (VFloat (f32_of_f64 x)), m) | _ \<Rightarrow> mismatch)
        else if target = TYPE_INT
        then (case v of
            VDouble x \<Rightarrow> (case f64_to_int x of None \<Rightarrow> Undefined | Some i \<Rightarrow> Done (Some (VInt i), m))
          | VFloat x \<Rightarrow> (case f32_to_int x of None \<Rightarrow> Undefined | Some i \<Rightarrow> Done (Some (VInt i), m))
          | _ \<Rightarrow> mismatch)
        else mismatch)"

section \<open>Printing\<close>

fun print_value :: "nat \<Rightarrow> bool \<Rightarrow> val \<Rightarrow> mem \<Rightarrow> (cstring \<times> mem) outcome"
  and print_items :: "nat \<Rightarrow> bool \<Rightarrow> (cstring \<times> val) list \<Rightarrow> mem \<Rightarrow> (cstring \<times> mem) outcome" where
  \<comment> \<open>\<^verbatim>\<open>bread_print_value_recursive\<close>; values nested deeper than the first argument (a
    container in itself) are \<open>Undefined\<close>: the recursion does not end\<close>
  "print_value 0 cp v m = Undefined"
| "print_value (Suc n) cp v m =
     (case v of
        VNil \<Rightarrow> Done (''nil'', m)
      | VBool b \<Rightarrow> Done (if b then ''true'' else ''false'', m)
      | VInt i \<Rightarrow> Done (show_int (sint i), m)
      | VFloat x \<Rightarrow> Done (if cp then bread_format_float (f64_of_f32 x) else format_f (f64_of_f32 x), m)
      | VDouble x \<Rightarrow> Done (if cp then bread_format_float x else format_f x, m)
      | VString r \<Rightarrow> Done (bread_string_cstr m r, m)
      | VOptional r \<Rightarrow> (case r of None \<Rightarrow> Done (''nil'', m)
          | Some a \<Rightarrow> bnd (optional_at m a) (\<lambda>o'. case o' of None \<Rightarrow> Done (''nil'', m)
              | Some w \<Rightarrow> bnd (bread_value_clone w m) (\<lambda>(w', m1). bnd (print_value n cp w' m1) (\<lambda>(s, m2).
                  bnd (bread_value_release w' m2) (\<lambda>m3. Done (s, m3))))))
      | VArray r \<Rightarrow> (case r of None \<Rightarrow> Done (''[]'', m)
          | Some a \<Rightarrow> bnd (array_at m a) (\<lambda>x.
              bnd (print_items n cp (map (\<lambda>w. ([], w)) (items x)) m) (\<lambda>(s, m1). Done (''['' @ s @ '']'', m1))))
      | VDict r \<Rightarrow> (case r of None \<Rightarrow> Done (''{}'', m)
          | Some a \<Rightarrow> bnd (dict_at m a) (\<lambda>d.
              if dcount d > 0
              then bnd (print_items n cp (map (\<lambda>e. (case dkey e of VString k \<Rightarrow> bread_string_cstr m k @ '': '' | _ \<Rightarrow> ''key: '', dvalue e))
                      (filter live_entry (entries d))) m) (\<lambda>(s, m1). Done (''{'' @ s @ ''}'', m1))
              else Done (''{}'', m)))
      | VStruct r \<Rightarrow> (case r of None \<Rightarrow> Done (''nil'', m)
          | Some a \<Rightarrow> bnd (struct_at m a) (\<lambda>t.
              bnd (print_items n cp (map (\<lambda>f. (fst f @ '': '', snd f)) (sfields t)) m)
                (\<lambda>(s, m1). Done (type_name t @ '' { '' @ s @ '' }'', m1))))
      | VClass r \<Rightarrow> (case r of None \<Rightarrow> Done (''nil'', m)
          | Some a \<Rightarrow> bnd (class_at m a) (\<lambda>c.
              bnd (print_items n cp (map (\<lambda>f. ((case fst f of Some g \<Rightarrow> g | None \<Rightarrow> ''(null)'') @ '': '', snd f)) (cfields c)) m)
                (\<lambda>(s, m1). Done (class_name c @ '' { '' @ s @ '' }'', m1)))))"
| "print_items n cp [] m = Done ([], m)"
| "print_items n cp ((l, v) # fs) m =
     bnd (print_value n cp v m) (\<lambda>(s, m1).
     bnd (print_items n cp fs m1) (\<lambda>(t, m2). Done (l @ s @ (if fs = [] then [] else '', '' @ t), m2)))"

definition bread_print :: "nat \<Rightarrow> val \<Rightarrow> mem \<Rightarrow> (cstring \<times> mem) outcome" where
  "bread_print n v m = bnd (print_value n False v m) (\<lambda>(s, m1). Done (s @ [CHR 10], m1))"

definition bread_print_compact :: "nat \<Rightarrow> val \<Rightarrow> mem \<Rightarrow> (cstring \<times> mem) outcome" where
  "bread_print_compact n v m = bnd (print_value n True v m) (\<lambda>(s, m1). Done (s @ [CHR 10], m1))"

section \<open>Integer arithmetic\<close>

definition fits64 :: "int \<Rightarrow> bool" where
  "fits64 i \<longleftrightarrow> - (2 ^ 63) \<le> i \<and> i < 2 ^ 63"

lemma checked_int_fits:
  "checked_int i = (if fits64 i then Done (VInt (word_of_int i)) else Undefined)"
  by (auto simp: checked_int_def fits64_def bread_value_set_int_def)

lemma sint_word_of_int: "fits64 i \<Longrightarrow> sint (word_of_int i :: 64 word) = i"
  by (simp add: fits64_def signed_take_bit_int_eq_self sint_sbintrunc')

lemma fits64_sint: "fits64 (sint (a :: 64 word))"
  using sint_range_size [of a] by (simp add: fits64_def word_size)

lemma c_div_mod:
  assumes "b \<noteq> 0"
  shows "a = c_div a b * b + c_mod a b" "\<bar>c_mod a b\<bar> < \<bar>b\<bar>" "c_mod a b = 0 \<or> sgn (c_mod a b) = sgn a"
proof -
  have s: "sgn x * \<bar>x\<bar> = x" for x :: int by (simp add: sgn_mult_abs)
  have "c_div a b * b = sgn a * (\<bar>a\<bar> div \<bar>b\<bar> * \<bar>b\<bar>)"
    using assms by (simp add: c_div_def abs_sgn ac_simps)
  moreover have "a = sgn a * (\<bar>a\<bar> div \<bar>b\<bar> * \<bar>b\<bar>) + sgn a * (\<bar>a\<bar> mod \<bar>b\<bar>)"
    by (simp only: distrib_left [symmetric] div_mult_mod_eq s)
  ultimately have m: "c_mod a b = sgn a * (\<bar>a\<bar> mod \<bar>b\<bar>)"
    by (simp add: c_mod_def)
  have r: "0 \<le> \<bar>a\<bar> mod \<bar>b\<bar>" "\<bar>a\<bar> mod \<bar>b\<bar> < \<bar>b\<bar>" using assms by simp_all
  show "a = c_div a b * b + c_mod a b" by (simp add: c_mod_def)
  show "\<bar>c_mod a b\<bar> < \<bar>b\<bar>" using r assms
    by (cases "a = 0") (simp add: c_mod_def c_div_def, simp add: m abs_mult)
  show "c_mod a b = 0 \<or> sgn (c_mod a b) = sgn a"
    using r by (cases "\<bar>a\<bar> mod \<bar>b\<bar> = 0") (simp_all add: m sgn_mult)
qed

lemma c_div_fits:
  fixes a b :: int
  assumes "fits64 a" "b \<noteq> 0"
  shows "fits64 (c_div a b) \<longleftrightarrow> \<not> (a = - (2 ^ 63) \<and> b = - 1)"
proof -
  have half: "\<bar>c_div a b\<bar> * 2 \<le> \<bar>a\<bar>" if "\<bar>b\<bar> \<noteq> 1"
  proof -
    have "2 \<le> \<bar>b\<bar>" using that assms(2) by linarith
    have "\<bar>c_div a b\<bar> = (if a = 0 then 0 else \<bar>a\<bar> div \<bar>b\<bar>)" using assms(2) 
      by (simp add: c_div_def abs_mult abs_sgn_eq pos_imp_zdiv_nonneg_iff)
    moreover have "\<bar>a\<bar> div \<bar>b\<bar> * 2 \<le> \<bar>a\<bar> div \<bar>b\<bar> * \<bar>b\<bar>"
      using \<open>2 \<le> \<bar>b\<bar>\<close> by (intro mult_left_mono) (simp_all add: pos_imp_zdiv_nonneg_iff)
    moreover have "\<bar>a\<bar> div \<bar>b\<bar> * \<bar>b\<bar> \<le> \<bar>a\<bar>" using assms(2) by (simp add: minus_mod_eq_div_mult [symmetric])
    ultimately show ?thesis by auto
  qed
  consider "b = 1" | "b = - 1" | "\<bar>b\<bar> \<noteq> 1" by linarith
  then show ?thesis
  proof cases
    case 1
    then show ?thesis using assms by (simp add: c_div_def sgn_mult_abs)
  next
    case 2
    have "c_div a b = - a" using 2 by (simp add: c_div_def sgn_mult_abs)
    with 2 assms show ?thesis by (auto simp: fits64_def)
  next
    case 3
    with half assms show ?thesis by (auto simp: fits64_def)
  qed
qed

lemma int_arithmetic_facts:
  shows "\<forall>(op, f) \<in> set [(CHR ''+'', (+)), (CHR ''-'', (-)), (CHR ''*'', (*))].
      bread_binary_op op (VInt a) (VInt b) m =
        (if fits64 (f (sint a) (sint b)) then Done (Some (VInt (word_of_int (f (sint a) (sint b)))), m) else Undefined)"
    and "fits64 i \<Longrightarrow> sint (word_of_int i :: 64 word) = i"
    and "\<forall>op \<in> {CHR ''/'', CHR ''%''}. \<exists>e. bread_binary_op op (VInt a) (VInt 0) m = Aborted e \<and>
      err_type e = BREAD_ERROR_DIVISION_BY_ZERO"
    and "b \<noteq> 0 \<Longrightarrow> (if sint a = - (2 ^ 63) \<and> sint b = - 1
      then bread_binary_op CHR ''/'' (VInt a) (VInt b) m = Undefined \<and> bread_binary_op CHR ''%'' (VInt a) (VInt b) m = Undefined
      else \<exists>q r. bread_binary_op CHR ''/'' (VInt a) (VInt b) m = Done (Some (VInt q), m) \<and>
        bread_binary_op CHR ''%'' (VInt a) (VInt b) m = Done (Some (VInt r), m) \<and>
        sint a = sint q * sint b + sint r \<and> \<bar>sint r\<bar> < \<bar>sint b\<bar> \<and> (sint r = 0 \<or> sgn (sint r) = sgn (sint a)))"
proof -
  show "\<forall>(op, f) \<in> set [(CHR ''+'', (+)), (CHR ''-'', (-)), (CHR ''*'', (*))].
      bread_binary_op op (VInt a) (VInt b) m =
        (if fits64 (f (sint a) (sint b)) then Done (Some (VInt (word_of_int (f (sint a) (sint b)))), m) else Undefined)"
    by (simp add: bread_binary_op_def bread_add_def bread_arithmetic_op_def int_arith_def checked_int_fits
        bread_value_is_number_def)
  show "fits64 i \<Longrightarrow> sint (word_of_int i :: 64 word) = i" by (rule sint_word_of_int)
  show "\<forall>op \<in> {CHR ''/'', CHR ''%''}. \<exists>e. bread_binary_op op (VInt a) (VInt 0) m = Aborted e \<and>
      err_type e = BREAD_ERROR_DIVISION_BY_ZERO"
    by (simp add: bread_binary_op_def bread_arithmetic_op_def int_arith_def bread_value_is_number_def)
  assume "b \<noteq> 0"
  then have b: "sint b \<noteq> 0" by (simp add: signed_eq_0_iff)
  note dm = c_div_mod [OF b, of "sint a"]
  have fr: "fits64 (c_mod (sint a) (sint b))"
    using dm(2) fits64_sint [of b] by (auto simp: fits64_def)
  show "if sint a = - (2 ^ 63) \<and> sint b = - 1
      then bread_binary_op CHR ''/'' (VInt a) (VInt b) m = Undefined \<and> bread_binary_op CHR ''%'' (VInt a) (VInt b) m = Undefined
      else \<exists>q r. bread_binary_op CHR ''/'' (VInt a) (VInt b) m = Done (Some (VInt q), m) \<and>
        bread_binary_op CHR ''%'' (VInt a) (VInt b) m = Done (Some (VInt r), m) \<and>
        sint a = sint q * sint b + sint r \<and> \<bar>sint r\<bar> < \<bar>sint b\<bar> \<and> (sint r = 0 \<or> sgn (sint r) = sgn (sint a))"
    using \<open>b \<noteq> 0\<close> dm fr c_div_fits [OF fits64_sint b, of a]
    by (auto simp: bread_binary_op_def bread_arithmetic_op_def int_arith_def checked_int_fits
        bread_value_is_number_def sint_word_of_int)
qed

text \<open>
  C28: integer arithmetic is exact: where the mathematical result fits into 64 bits, sum, difference
  and product are that result (where it does not fit the operation is undefined in C); dividing by zero,
  and the remainder by zero, end the program with a division error; every other quotient and
  remainder satisfy the division law with the remainder smaller than the divisor and of the sign
  of the dividend, except for the one overflowing quotient of the least integer by minus one.
\<close>
theorem int_arithmetic_correct:
  "(\<forall>(op, f) \<in> set [(CHR ''+'', (+)), (CHR ''-'', (-)), (CHR ''*'', (*))].
      bread_binary_op op (VInt a) (VInt b) m =
        (if fits64 (f (sint a) (sint b)) then Done (Some (VInt (word_of_int (f (sint a) (sint b)))), m) else Undefined)) \<and>
   (fits64 i \<longrightarrow> sint (word_of_int i :: 64 word) = i) \<and>
   (\<forall>op \<in> {CHR ''/'', CHR ''%''}. \<exists>e. bread_binary_op op (VInt a) (VInt 0) m = Aborted e \<and>
      err_type e = BREAD_ERROR_DIVISION_BY_ZERO) \<and>
   (b \<noteq> 0 \<longrightarrow> (if sint a = - (2 ^ 63) \<and> sint b = - 1
      then bread_binary_op CHR ''/'' (VInt a) (VInt b) m = Undefined \<and> bread_binary_op CHR ''%'' (VInt a) (VInt b) m = Undefined
      else \<exists>q r. bread_binary_op CHR ''/'' (VInt a) (VInt b) m = Done (Some (VInt q), m) \<and>
        bread_binary_op CHR ''%'' (VInt a) (VInt b) m = Done (Some (VInt r), m) \<and>
        sint a = sint q * sint b + sint r \<and> \<bar>sint r\<bar> < \<bar>sint b\<bar> \<and> (sint r = 0 \<or> sgn (sint r) = sgn (sint a))))"
  by (intro conjI impI) (fact int_arithmetic_facts)+


section \<open>Comparison\<close>

definition comparable :: "val \<Rightarrow> val \<Rightarrow> bool" where
  \<comment> \<open>numbers, truth values and strings of one type, NaN excluded\<close>
  "comparable l r \<longleftrightarrow> vtype l = vtype r \<and> vtype l \<in> {TYPE_INT, TYPE_DOUBLE, TYPE_FLOAT, TYPE_BOOL, TYPE_STRING} \<and>
     (\<forall>x. VDouble x \<in> {l, r} \<longrightarrow> \<not> f64_nan x) \<and> (\<forall>x. VFloat x \<in> {l, r} \<longrightarrow> \<not> f32_nan x)"

definition compared :: "char \<Rightarrow> val \<Rightarrow> val \<Rightarrow> mem \<Rightarrow> bool \<Rightarrow> bool" where
  "compared op l r m b \<longleftrightarrow> bread_binary_op op l r m = Done (Some (VBool b), m)"

text \<open>One of three: what the comparison of a pair of scalars is made of.\<close>

definition one_of :: "bool \<Rightarrow> bool \<Rightarrow> bool \<Rightarrow> bool" where
  "one_of e l g \<longleftrightarrow> (e \<and> \<not> l \<and> \<not> g) \<or> (\<not> e \<and> l \<and> \<not> g) \<or> (\<not> e \<and> \<not> l \<and> g)"

lemma f64_one_of: "\<not> f64_nan a \<Longrightarrow> \<not> f64_nan b \<Longrightarrow> one_of (f64_eq a b) (f64_less a b) (f64_less b a)"
  by (auto simp: one_of_def f64_eq_def f64_less_def ieee_eq_def ieee_less_def f64_nan_def)

lemma f32_one_of: "\<not> f32_nan a \<Longrightarrow> \<not> f32_nan b \<Longrightarrow> one_of (f32_eq a b) (f32_less a b) (f32_less b a)"
  by (auto simp: one_of_def f32_eq_def f32_less_def ieee_eq_def ieee_less_def f32_nan_def)

lemma compare_by_op:
  assumes "comparable l r"
  shows "\<exists>e lt gt. one_of e lt gt \<and> (\<forall>op. bread_compare_values op l r m = Done (by_op op e lt gt, m))"
proof (cases l)
  case (VInt a)
  then obtain b where "r = VInt b" using assms by (cases r) (auto simp: comparable_def)
  moreover have "one_of (a = b) (sint a < sint b) (sint a > sint b)" using signed_word_eqI [of a b]
    by (cases "sint a = sint b") (auto simp: one_of_def)
  ultimately show ?thesis using VInt by (auto simp: bread_compare_values_def)
next
  case (VDouble a)
  then obtain b where "r = VDouble b" using assms by (cases r) (auto simp: comparable_def)
  then show ?thesis using VDouble assms f64_one_of [of a b] by (auto simp: bread_compare_values_def comparable_def)
next
  case (VFloat a)
  then obtain b where "r = VFloat b" using assms by (cases r) (auto simp: comparable_def)
  then show ?thesis using VFloat assms f32_one_of [of a b] by (auto simp: bread_compare_values_def comparable_def)
next
  case (VBool a)
  then obtain b where "r = VBool b" using assms by (cases r) (auto simp: comparable_def)
  moreover have "one_of (a = b) (\<not> a \<and> b) (a \<and> \<not> b)" by (auto simp: one_of_def)
  ultimately show ?thesis using VBool by (auto simp: bread_compare_values_def)
next
  case (VString a)
  let ?c = "bread_string_cmp m a (ref_of r)"
  have "one_of (?c = 0) (?c < 0) (?c > 0)" by (auto simp: one_of_def)
  then show ?thesis using VString assms by (auto simp: bread_compare_values_def comparable_def Let_def)
qed (use assms in \<open>auto simp: comparable_def\<close>)

lemma comparison_laws_facts:
  shows "comparable l r \<Longrightarrow> \<exists>e lt gt. one_of e lt gt \<and>
      compared CHR ''='' l r m e \<and> compared CHR ''!'' l r m (\<not> e) \<and>
      compared CHR ''<'' l r m lt \<and> compared CHR ''>'' l r m gt \<and>
      compared CHR ''l'' l r m (lt \<or> e) \<and> compared CHR ''g'' l r m (gt \<or> e)"
    and "vtype l \<noteq> vtype r \<Longrightarrow> op \<in> {CHR ''='', CHR ''!'', CHR ''<'', CHR ''>'', CHR ''l'', CHR ''g''} \<Longrightarrow>
      bread_binary_op op l r m = Done (None, noted BREAD_ERROR_TYPE_MISMATCH ''Cannot compare different types'' m)"
proof -
  assume "comparable l r"
  from compare_by_op [OF this] obtain e lt gt where
    c: "one_of e lt gt" "\<And>op. bread_compare_values op l r m = Done (by_op op e lt gt, m)" by blast
  show "\<exists>e lt gt. one_of e lt gt \<and>
      compared CHR ''='' l r m e \<and> compared CHR ''!'' l r m (\<not> e) \<and>
      compared CHR ''<'' l r m lt \<and> compared CHR ''>'' l r m gt \<and>
      compared CHR ''l'' l r m (lt \<or> e) \<and> compared CHR ''g'' l r m (gt \<or> e)"
    using c(1) by (intro exI [of _ e] exI [of _ lt] exI [of _ gt])
      (simp add: compared_def bread_binary_op_def c(2) by_op_def bread_value_set_bool_def)
next
  assume "vtype l \<noteq> vtype r" "op \<in> {CHR ''='', CHR ''!'', CHR ''<'', CHR ''>'', CHR ''l'', CHR ''g''}"
  then show "bread_binary_op op l r m = Done (None, noted BREAD_ERROR_TYPE_MISMATCH ''Cannot compare different types'' m)"
    by (auto simp: bread_binary_op_def bread_compare_values_def type_error_def)
qed

text \<open>
  On two scalars of the same type (no NaN) exactly one of \<open>==\<close>, \<open><\<close> and \<open>>\<close> holds,
  \<open>!=\<close> is the negation of \<open>==\<close>, and \<open><=\<close> and \<open>>=\<close> are the unions; comparing values of
  different types is a type error that yields no value and changes no object.
\<close>
theorem comparison_laws:
  "(comparable l r \<longrightarrow> (\<exists>e lt gt. one_of e lt gt \<and>
      compared CHR ''='' l r m e \<and> compared CHR ''!'' l r m (\<not> e) \<and>
      compared CHR ''<'' l r m lt \<and> compared CHR ''>'' l r m gt \<and>
      compared CHR ''l'' l r m (lt \<or> e) \<and> compared CHR ''g'' l r m (gt \<or> e))) \<and>
   (vtype l \<noteq> vtype r \<longrightarrow> op \<in> {CHR ''='', CHR ''!'', CHR ''<'', CHR ''>'', CHR ''l'', CHR ''g''} \<longrightarrow>
      bread_binary_op op l r m = Done (None, noted BREAD_ERROR_TYPE_MISMATCH ''Cannot compare different types'' m))"
  by (intro conjI impI) (erule comparison_laws_facts, erule (1) comparison_laws_facts)

section \<open>Equality\<close>

lemma f64_sub_self: "\<not> f64_nan x \<Longrightarrow> \<not> f64_inf x \<Longrightarrow> f64_sub x x = 0"
  by (simp add: f64_sub_def f64_of_units_def f64_pack_def)

lemma f32_sub_self: "\<not> f32_nan x \<Longrightarrow> \<not> f32_inf x \<Longrightarrow> f32_sub x x = 0"
  by (simp add: f32_sub_def f32_of_units_def f32_pack_def)


definition special :: "val \<Rightarrow> bool" where
  \<comment> \<open>infinities and NaNs\<close>
  "special v = (case v of VDouble x \<Rightarrow> f64_nan x \<or> f64_inf x | VFloat x \<Rightarrow> f32_nan x \<or> f32_inf x | _ \<Rightarrow> False)"

lemma f64_close_self: "f64_less (f64_abs (f64_sub x x)) tolerance64 \<longleftrightarrow> \<not> f64_nan x \<and> \<not> f64_inf x"
proof (cases "f64_nan x \<or> f64_inf x")
  case True
  then have "f64_sub x x = f64_qnan" by (auto simp: f64_sub_def)
  moreover have "f64_nan (f64_abs f64_qnan)"
    by (simp add: f64_abs_def f64_qnan_def f64_nan_def ieee_nan_def ieee_exp_def ieee_frac_def)
  ultimately show ?thesis using True by (auto simp: f64_less_def ieee_less_def f64_nan_def)
next
  case False
  have "f64_less (f64_abs 0) tolerance64"
    by (simp add: f64_abs_def tolerance64_def f64_less_def ieee_less_def ieee_nan_def ieee_exp_def ieee_frac_def
        ieee_key_def ieee_sign_def)
  with False show ?thesis by (simp add: f64_sub_self)
qed

lemma f32_close_self: "f32_less (f32_abs (f32_sub x x)) tolerance32 \<longleftrightarrow> \<not> f32_nan x \<and> \<not> f32_inf x"
proof (cases "f32_nan x \<or> f32_inf x")
  case True
  then have "f32_sub x x = f32_qnan" by (auto simp: f32_sub_def)
  moreover have "f32_nan (f32_abs f32_qnan)"
    by (simp add: f32_abs_def f32_qnan_def f32_nan_def ieee_nan_def ieee_exp_def ieee_frac_def)
  ultimately show ?thesis using True by (auto simp: f32_less_def ieee_less_def f32_nan_def)
next
  case False
  have "f32_less (f32_abs 0) tolerance32"
    by (simp add: f32_abs_def tolerance32_def f32_less_def ieee_less_def ieee_nan_def ieee_exp_def ieee_frac_def
        ieee_key_def ieee_sign_def)
  with False show ?thesis by (simp add: f32_sub_self)
qed

lemma eq_reflexive: "bread_eq m v v \<longleftrightarrow> \<not> special v"
  by (auto simp: bread_eq_def special_def f64_close_self f32_close_self bread_string_eq_def split: val.splits)

section \<open>What an operator does to the heap\<close>

lemma concat_ok:
  assumes "heap_ok m R" "bread_string_concat a b m = (r, m')"
  shows "heap_ok m' (add_mset (VString r) R) \<and> (\<forall>x. get_obj m x \<noteq> None \<longrightarrow> get_obj m' x = get_obj m x)"
proof -
  obtain x m1 where al: "bread_memory_alloc (BString \<lparr>sdata = string_data m a @ string_data m b, interned = False\<rparr>) m = (x, m1)"
    by (cases "bread_memory_alloc (BString \<lparr>sdata = string_data m a @ string_data m b, interned = False\<rparr>) m") 
  then have r: "r = Some x" "m' = m1" using assms(2) by (auto simp: bread_string_concat_def bread_string_new_len_def)
  have "heap_ok m1 (add_mset (VString (Some x)) R)"
    by (rule alloc_ok [OF _ al]) (use assms(1) in simp_all)
  moreover have "get_obj m1 y = get_obj m y" if "get_obj m y \<noteq> None" for y
    using alloc_get [OF al, of y] that by (auto simp: get_obj_def split: if_splits)
  ultimately show ?thesis using r by simp
qed

definition quiet :: "val option \<Rightarrow> mem \<Rightarrow> mem \<Rightarrow> bool" where
  \<comment> \<open>a scalar result, or none and at most a note of an error\<close>
  "quiet res m m' \<longleftrightarrow> (m' = m \<and> (\<forall>v. res = Some v \<longrightarrow> ref_of v = None)) \<or> (res = None \<and> (\<exists>t msg. m' = noted t msg m))"

lemma quiet_simps [simp]:
  "quiet None m m" "quiet None m (noted t msg m)" "quiet (Some v) m m' \<longleftrightarrow> m' = m \<and> ref_of v = None"
  by (auto simp: quiet_def)

lemma quiet_map [simp]: "quiet (map_option VBool x) m m"
  by (cases x) simp_all

lemma type_error_quiet: "type_error msg m = Done (res, m') \<Longrightarrow> quiet res m m'"
  by (auto simp: type_error_def)

lemma checked_int_quiet: "bnd (checked_int i) (\<lambda>v. Done (Some v, m)) = Done (res, m') \<Longrightarrow> quiet res m m'"
  by (auto simp: checked_int_fits split: if_splits)

lemma int_arith_quiet: "int_arith op a b m = Done (res, m') \<Longrightarrow> quiet res m m'"
  by (auto simp: int_arith_def bnd_Done_iff checked_int_fits split: if_splits)

lemma double_arith_quiet: "double_arith op a b m = Done (res, m') \<Longrightarrow> quiet res m m'"
  by (auto simp: double_arith_def dest: type_error_quiet split: if_splits)

lemma arithmetic_quiet: "bread_arithmetic_op op l r m = Done (res, m') \<Longrightarrow> quiet res m m'"
  by (cases l; cases r; simp add: bread_arithmetic_op_def bread_value_is_number_def)
    (blast dest: type_error_quiet int_arith_quiet double_arith_quiet)+

lemma add_quiet:
  assumes "bread_add l r m = Done (res, m')" "\<not> (vtype l = TYPE_STRING \<and> vtype r = TYPE_STRING)"
  shows "quiet res m m'"
  using assms
  by (cases l; cases r; simp add: bread_add_def bread_value_is_number_def)
    (auto dest: type_error_quiet checked_int_quiet)

lemma compare_quiet:
  assumes "bread_compare_values op l r m = Done (b, m')"
  shows "quiet (map_option VBool b) m m'"
proof (cases "vtype l = vtype r")
  case False
  then show ?thesis using assms by (auto simp: bread_compare_values_def type_error_def)
next
  case True
  from True assms show ?thesis
    by (cases l; cases r; simp add: bread_compare_values_def type_error_def Let_def split: if_splits) auto
qed

lemma quiet_ok:
  "quiet res m m' \<Longrightarrow> heap_ok m R \<Longrightarrow>
   heap_ok m' ((case res of None \<Rightarrow> {#} | Some v \<Rightarrow> {#v#}) + R) \<and> (\<forall>x. get_obj m' x = get_obj m x)"
  by (cases res) (auto simp: quiet_def)

lemma binary_op_cases:
  assumes "bread_binary_op op l r m = Done (res, m')"
  shows "(vtype l = TYPE_STRING \<and> vtype r = TYPE_STRING \<and>
      (\<exists>s. bread_string_concat (ref_of l) (ref_of r) m = (s, m') \<and> res = Some (VString s))) \<or> quiet res m m'"
proof -
  consider (add) "op = CHR ''+''" | (arith) "op \<noteq> CHR ''+''" "op \<in> {CHR ''-'', CHR ''*'', CHR ''/'', CHR ''%''}"
    | (cmp) "op \<noteq> CHR ''+''" "op \<notin> {CHR ''-'', CHR ''*'', CHR ''/'', CHR ''%''}"
      "op \<in> {CHR ''='', CHR ''!'', CHR ''<'', CHR ''>'', CHR ''l'', CHR ''g''}"
    | (other) "op \<noteq> CHR ''+''" "op \<notin> {CHR ''-'', CHR ''*'', CHR ''/'', CHR ''%''}"
      "op \<notin> {CHR ''='', CHR ''!'', CHR ''<'', CHR ''>'', CHR ''l'', CHR ''g''}" by metis
  then show ?thesis
  proof cases
    case add
    then have run: "bread_add l r m = Done (res, m')" using assms by (simp add: bread_binary_op_def)
    show ?thesis
    proof (cases "vtype l = TYPE_STRING \<and> vtype r = TYPE_STRING")
      case True
      with run show ?thesis by (auto simp: bread_add_def Let_def split: prod.splits)
    qed (use add_quiet [OF run] in blast)
  next
    case arith
    then have "bread_arithmetic_op op l r m = Done (res, m')"
      using assms unfolding bread_binary_op_def by (simp only: if_True if_False)
    then show ?thesis using arithmetic_quiet by blast
  next
    case cmp
    then have "bnd (bread_compare_values op l r m) (\<lambda>(res, m1). Done (map_option bread_value_set_bool res, m1)) = Done (res, m')"
      using assms unfolding bread_binary_op_def by (simp only: if_True if_False)
    then show ?thesis using compare_quiet
      by (auto simp: bnd_Done_iff bread_value_set_bool_def [abs_def])
  next
    case other
    then have "(if op \<in> {CHR ''&'', CHR ''|''}
        then (case (l, r) of
            (VBool a, VBool b) \<Rightarrow> Done (Some (bread_value_set_bool (if op = CHR ''&'' then a \<and> b else a \<or> b)), m)
          | _ \<Rightarrow> type_error ''Logical operations require boolean operands'' m)
        else runtime_error (''Unknown binary operator '' @ [CHR 0x27, op, CHR 0x27]) m) = Done (res, m')"
      using assms unfolding bread_binary_op_def by (simp only: if_True if_False)
    then have run: "(case (l, r) of
          (VBool a, VBool b) \<Rightarrow> Done (Some (bread_value_set_bool (if op = CHR ''&'' then a \<and> b else a \<or> b)), m)
        | _ \<Rightarrow> type_error ''Logical operations require boolean operands'' m) = Done (res, m')"
      by (cases "op \<in> {CHR ''&'', CHR ''|''}") (simp_all only: if_True if_False runtime_error_def raise_fatal [OF fail_fast_simps(1)] bnd.simps outcome.distinct)
    have "type_error msg m = Done (res, m') \<Longrightarrow> quiet res m m'" for msg by (rule type_error_quiet)
    then have "quiet res m m'"
      using run by (cases l; cases r; simp only: prod.case val.case) (auto simp: bread_value_set_bool_def)
    then show ?thesis ..
  qed
qed

text \<open>
  C29: a binary operator keeps the reference-counting discipline: whatever the operator and the
  operands, when it returns, no object that was there has been touched, its result (if any) is
  owned by the caller, and without a result the heap holds exactly what it held; so no
  operator, failing or not, leaks an object.
\<close>
theorem binary_op_safe:
  assumes "heap_ok m R" and "bread_binary_op op l r m = Done (res, m')"
  shows "heap_ok m' ((case res of None \<Rightarrow> {#} | Some v \<Rightarrow> {#v#}) + R) \<and>
    (\<forall>x. get_obj m x \<noteq> None \<longrightarrow> get_obj m' x = get_obj m x)"
  using binary_op_cases [OF assms(2)]
proof (elim disjE)
  assume "quiet res m m'"
  then show ?thesis using quiet_ok assms(1) by blast
next
  assume "vtype l = TYPE_STRING \<and> vtype r = TYPE_STRING \<and>
      (\<exists>s. bread_string_concat (ref_of l) (ref_of r) m = (s, m') \<and> res = Some (VString s))"
  then show ?thesis using concat_ok [OF assms(1)] by auto
qed


section \<open>Coercion\<close>

text \<open>
  Every integer of magnitude at most 2^53 survives the way to a double and back: the coercion to
  Double gives the double the arithmetic works with, and coercing that to Int gives the
  integer; neither touches the heap.
\<close>
theorem coerce_int_roundtrip:
  assumes "\<bar>sint i\<bar> \<le> 2 ^ 53"
  shows "\<exists>d. bread_coerce_value TYPE_DOUBLE (VInt i) m = Done (Some (VDouble d), m) \<and>
    d = bread_value_as_double (VInt i) \<and> bread_coerce_value TYPE_INT (VDouble d) m = Done (Some (VInt i), m)"
  using f64_int_roundtrip [OF assms] by (simp add: bread_coerce_value_def)

lemma wrap_ok:
  assumes ok: "heap_ok m (add_mset (VOptional (Some a)) R)" and room: "room_for (Suc n) m"
    and at: "optional_at m a = Done x"
  shows "\<exists>m'. wrap_optional (Some a, m) = Done (Some (VOptional (Some a)), m') \<and>
    heap_ok m' (add_mset (VOptional (Some a)) R) \<and> optional_at m' a = Done x"
proof -
  let ?v = "VOptional (Some a)"
  have mh: "may_hold m (add_mset ?v R) ?v" by (simp add: may_hold_def)
  obtain m1 where m1: "bread_value_clone ?v m = Done (?v, m1)" "heap_ok m1 (add_mset ?v (add_mset ?v R))" "survives m m1"
    using clone_ok [OF ok mh room] by blast
  obtain m2 where m2: "bread_value_release ?v m1 = Done m2" "heap_ok m2 (add_mset ?v R)" "survives m1 m2"
    using value_release_ok [OF m1(2)] by blast
  obtain ob where "get_obj m2 a = Some ob" using root_obj [OF m2(2), of ?v a] by auto
  then have "optional_at m2 a = Done x"
    using survives_trans [OF m1(3) m2(3)] at by (fastforce simp: survives_def optional_at_def)
  with m1 m2 show ?thesis
    by (auto simp: wrap_optional_def bread_value_set_optional_def bread_optional_release_def bread_value_clone_def bnd_Done_iff)
qed

text \<open>
  Coercing a value to an optional wraps it: the result is a new optional the caller owns that holds
  a reference to the value, nil gives the empty optional, the discipline is kept, and the
  temporary reference of the wrapper is given up again.
\<close>
theorem coerce_optional_correct:
  assumes ok: "heap_ok m R" and v: "v \<in># R" and ty: "vtype v \<noteq> TYPE_OPTIONAL" and room: "room_for (Suc (Suc (Suc n))) m"
  shows "\<exists>a m'. bread_coerce_value TYPE_OPTIONAL v m = Done (Some (VOptional (Some a)), m') \<and> get_obj m a = None \<and>
    heap_ok m' (add_mset (VOptional (Some a)) R) \<and> optional_at m' a = Done (if v = VNil then None else Some v)"
proof -
  let ?a = "length (cells m)"
  obtain m1 where al: "bread_memory_alloc (BOptional None) m = (?a, m1)" by (simp add: bread_memory_alloc_def)
  have g: "get_obj m1 ?a = Some \<lparr>refcount = 1, body = BOptional None\<rparr>" using alloc_get [OF al] by simp
  have fresh: "get_obj m ?a = None" by (simp add: get_obj_def)
  have ok1: "heap_ok m1 (add_mset (VOptional (Some ?a)) R)" by (rule alloc_ok [OF _ al]) (use ok in simp_all)
  have "rc_of m 0 + Suc (Suc (Suc n)) < 2 ^ 32" using room unfolding room_for_def by blast
  then have room1: "room_for (Suc (Suc n)) m1" by (intro alloc_room [OF al room_for_le [OF room]]) simp_all
  show ?thesis
  proof (cases "v = VNil")
    case True
    have "optional_at m1 ?a = Done None" using g by (simp add: optional_at_def)
    from wrap_ok [OF ok1 room1 this] True al fresh show ?thesis
      by (auto simp: bread_coerce_value_def bread_optional_new_none_def)
  next
    case False
    have mh: "may_hold m1 (add_mset (VOptional (Some ?a)) R) v" using v by (simp add: may_hold_def)
    obtain m2 ob2 where m2: "bread_value_clone v m1 = Done (v, m2)" "room_for (Suc n) m2" "get_obj m2 ?a = Some ob2"
        "heap_ok (set_body ?a (BOptional (Some v)) m2) (add_mset (VOptional (Some ?a)) R)"
      using slot_store [OF ok1 mh room1 g, of "BOptional (Some v)" "{#}"] by auto
    let ?m = "set_body ?a (BOptional (Some v)) m2"
    have at: "optional_at ?m ?a = Done (Some v)" using m2(3) by (simp add: optional_at_def set_body_get)
    have "room_for (Suc n) ?m" using m2(2) by simp
    from wrap_ok [OF m2(4) this at] False m2(1) al fresh ty show ?thesis
      by (cases v) (auto simp: bread_coerce_value_def bread_optional_new_some_def)
  qed
qed

theorem int_arithmetic_correct_witness:
  "\<exists>q r. bread_binary_op CHR ''/'' (VInt 7) (VInt (- 2)) bread_memory_init = Done (Some (VInt q), bread_memory_init) \<and>
     bread_binary_op CHR ''%'' (VInt 7) (VInt (- 2)) bread_memory_init = Done (Some (VInt r), bread_memory_init) \<and>
     7 = sint q * (- 2) + sint r \<and> sint (word_of_int 5 :: 64 word) = 5"
  using int_arithmetic_correct [of 7 "- 2" bread_memory_init 5]
  by (simp add: fits64_def) (elim exE conjE, intro exI conjI, assumption+)

theorem comparison_laws_witness:
  "(\<exists>e lt gt. one_of e lt gt \<and> compared CHR ''<'' (VInt 1) (VInt 2) bread_memory_init lt) \<and>
   bread_binary_op CHR ''='' VNil (VInt 2) bread_memory_init =
     Done (None, noted BREAD_ERROR_TYPE_MISMATCH ''Cannot compare different types'' bread_memory_init)"
  using comparison_laws [of "VInt 1" "VInt 2" bread_memory_init] comparison_laws [of VNil "VInt 2" bread_memory_init "CHR ''=''"]
  by (auto simp: comparable_def)

theorem binary_op_safe_witness:
  "\<exists>s m'. bread_binary_op CHR ''+'' (VString (Some 0)) (VString (Some 0)) sample_string = Done (Some (VString s), m') \<and>
     heap_ok m' {#VString s, VString (Some 0)#}"
proof -
  obtain s m' where "bread_string_concat (Some 0) (Some 0) sample_string = (s, m')" by fastforce
  then have run: "bread_binary_op CHR ''+'' (VString (Some 0)) (VString (Some 0)) sample_string = Done (Some (VString s), m')"
    by (simp add: bread_binary_op_def bread_add_def)
  from binary_op_safe [OF sample_string_ok run] run show ?thesis by (auto simp: add_mset_commute)
qed

theorem coerce_int_roundtrip_witness:
  "\<exists>d. bread_coerce_value TYPE_INT (VDouble d) bread_memory_init = Done (Some (VInt 42), bread_memory_init)"
  using coerce_int_roundtrip [of 42 bread_memory_init] by auto

theorem coerce_optional_correct_witness:
  "\<exists>a m'. bread_coerce_value TYPE_OPTIONAL (VString (Some 0)) sample_string = Done (Some (VOptional (Some a)), m') \<and>
     optional_at m' a = Done (Some (VString (Some 0)))"
proof -
  have "rc_of sample_string a \<le> 1" for a
    by (simp add: rc_of_def sample_string_def bread_memory_alloc_def bread_memory_init_def get_obj_def)
  then have "room_for 3 sample_string" by (rule room_for_small) simp
  then have "room_for (Suc (Suc (Suc 0))) sample_string" by (simp add: numeral_3_eq_3)
  from coerce_optional_correct [OF sample_string_ok _ _ this, of "VString (Some 0)"] show ?thesis by auto
qed

end
