(* ===== verification/BreadAccess.thy ===== *)
theory BreadAccess
  imports BreadOperators BreadClasses
begin

text \<open>
  The operators of \<^verbatim>\<open>src/runtime/operators.c\<close>: indexing, members, method calls and calls of
  the parent's constructor. As in \<open>BreadOperators\<close> the result \<open>None\<close> is the return value
  0 and \<open>Some v\<close> is 1 with \<open>v\<close> written to \<^verbatim>\<open>*out\<close>; for the setting operators the result
  is a truth value. Compiled methods and the registry of classes are arguments.
\<close>

section \<open>Looking into optionals\<close>

definition unwrap_optional :: "val \<Rightarrow> mem \<Rightarrow> ((val \<times> bool) option \<times> mem) outcome" where
  \<comment> \<open>the value to work on and whether it has been cloned; \<open>None\<close> for an empty optional\<close>
  "unwrap_optional v m =
     (case v of
        VOptional r \<Rightarrow> (case r of None \<Rightarrow> Done (None, m)
          | Some a \<Rightarrow> bnd (optional_at m a) (\<lambda>o'. case o' of None \<Rightarrow> Done (None, m)
              | Some w \<Rightarrow> bnd (bread_value_clone w m) (\<lambda>(w', m1). Done (Some (w', True), m1))))
      | _ \<Rightarrow> Done (Some (v, False), m))"

definition cleanup_if_owned :: "val \<Rightarrow> bool \<Rightarrow> mem \<Rightarrow> mem outcome" where
  "cleanup_if_owned v owned m = (if owned then bread_value_release v m else Done m)"

definition with_unwrapped ::
  "val \<Rightarrow> (val \<Rightarrow> mem \<Rightarrow> ('a option \<times> mem) outcome) \<Rightarrow> 'a \<Rightarrow> mem \<Rightarrow> ('a option \<times> mem) outcome" where
  \<comment> \<open>unwrap, run, clean up; an empty optional gives the second value at once\<close>
  "with_unwrapped v f d m =
     bnd (unwrap_optional v m) (\<lambda>(u, m1).
       case u of None \<Rightarrow> Done (Some d, m1)
       | Some (t, owned) \<Rightarrow>
           bnd (f t m1) (\<lambda>(res, m2). bnd (cleanup_if_owned t owned m2) (\<lambda>m3. Done (res, m3))))"

section \<open>Indexing\<close>

definition int_index :: "64 word \<Rightarrow> int" where
  \<comment> \<open>\<^verbatim>\<open>int index = idx->value.int_val\<close> keeps the low 32 bits\<close>
  "int_index i = sint (ucast i :: 32 word)"

definition index_error :: "cstring \<Rightarrow> 64 word \<Rightarrow> nat \<Rightarrow> cstring" where
  "index_error what i len =
     what @ '' index '' @ show_int (sint i) @ '' out of bounds (length '' @ show_nat len @ '')''"

definition key_not_found :: "cstring \<Rightarrow> cstring" where
  "key_not_found key = snprintf_s 256 (''Dictionary key '' @ [CHR 0x27] @ key @ [CHR 0x27] @ '' not found'')"

definition dict_value :: "ref \<Rightarrow> cstring \<Rightarrow> mem \<Rightarrow> (val option \<times> mem) outcome" where
  \<comment> \<open>the value under a string key, cloned\<close>
  "dict_value r key m =
     bnd (bread_dict_get r key m) (\<lambda>s.
       case (r, s) of
         (Some a, Some i) \<Rightarrow> bnd (dict_at m a) (\<lambda>d.
            bnd (bread_value_clone (dvalue (entries d ! i)) m) (\<lambda>(w, m1). Done (Some w, m1)))
       | _ \<Rightarrow> runtime_error (key_not_found key) m)"

definition index_value :: "val \<Rightarrow> val \<Rightarrow> mem \<Rightarrow> (val option \<times> mem) outcome" where
  "index_value t idx m =
     (case t of
        VString r \<Rightarrow> (case idx of
            VInt i \<Rightarrow>
              let len = bread_string_len m r; index = from_end (int_index i) len in
              if index < 0 \<or> index \<ge> int len
              then bnd (raise_error BREAD_ERROR_INDEX_OUT_OF_BOUNDS (index_error ''String'' i len) m) (\<lambda>m1. Done (None, m1))
              else bnd (bread_string_get_char r (nat index) m) (\<lambda>(ch, m1).
                let (v, m2) = bread_value_set_string (Some (cstr [ch])) m1 in Done (Some v, m2))
          | _ \<Rightarrow> type_error ''String index must be Int'' m)
      | VArray r \<Rightarrow> (case idx of
            VInt i \<Rightarrow> bnd (bread_array_length r m) (\<lambda>len.
              let index = from_end (int_index i) len in
              if index < 0 \<or> index \<ge> int len
              then bnd (raise_error BREAD_ERROR_INDEX_OUT_OF_BOUNDS (index_error ''Array'' i len) m) (\<lambda>m1. Done (None, m1))
              else bnd (bread_array_get r index m) (\<lambda>at. case (r, at) of
                  (Some a, Some j) \<Rightarrow> bnd (array_at m a) (\<lambda>x.
                    bnd (bread_value_clone (items x ! j) m) (\<lambda>(w, m1). Done (Some w, m1)))
                | _ \<Rightarrow> runtime_error ''Failed to retrieve array element'' m))
          | _ \<Rightarrow> type_error ''Array index must be Int'' m)
      | VDict r \<Rightarrow> (case idx of
            VString k \<Rightarrow> dict_value r (bread_string_cstr m k) m
          | _ \<Rightarrow> type_error ''Dictionary key must be String'' m)
      | _ \<Rightarrow> runtime_error ''Type does not support indexing'' m)"

definition bread_index_op :: "val \<Rightarrow> val \<Rightarrow> mem \<Rightarrow> (val option \<times> mem) outcome" where
  "bread_index_op target idx m = with_unwrapped target (\<lambda>t. index_value t idx) VNil m"

definition failed_with :: "BreadErrorType \<Rightarrow> cstring \<Rightarrow> mem \<Rightarrow> (bool \<times> mem) outcome" where
  "failed_with t msg m = bnd (raise_error t msg m) (\<lambda>m1. Done (False, m1))"

definition bread_dict_set_value :: "ref \<Rightarrow> val \<Rightarrow> val \<Rightarrow> mem \<Rightarrow> (bool \<times> mem) outcome" where
  "bread_dict_set_value r key v m =
     (case r of None \<Rightarrow> failed_with BREAD_ERROR_RUNTIME_ERROR ''Null pointer in dict set'' m
      | Some a \<Rightarrow> (case key of
            VString k \<Rightarrow> bread_dict_set r (bread_string_cstr m k) v m
          | _ \<Rightarrow> failed_with BREAD_ERROR_TYPE_MISMATCH ''Dictionary keys must be strings'' m))"

definition bread_array_append_value :: "ref \<Rightarrow> val \<Rightarrow> mem \<Rightarrow> (bool \<times> mem) outcome" where
  "bread_array_append_value r v m =
     (case r of None \<Rightarrow> failed_with BREAD_ERROR_RUNTIME_ERROR ''Null pointer in array append'' m
      | Some a \<Rightarrow> bread_array_append r v m)"

definition bread_array_set_value :: "ref \<Rightarrow> int \<Rightarrow> val \<Rightarrow> mem \<Rightarrow> (bool \<times> mem) outcome" where
  "bread_array_set_value r index v m =
     (case r of None \<Rightarrow> failed_with BREAD_ERROR_RUNTIME_ERROR ''Null pointer in array set'' m
      | Some a \<Rightarrow> bnd (bread_array_length r m) (\<lambda>len.
          let i = from_end index len in
          if i < 0 \<or> i \<ge> int len
          then failed_with BREAD_ERROR_INDEX_OUT_OF_BOUNDS
                 (''Array index '' @ show_int i @ '' out of bounds (length '' @ show_nat len @ '')'') m
          else bread_array_set r i v m))"

definition bread_index_set_op :: "val \<Rightarrow> val \<Rightarrow> val \<Rightarrow> mem \<Rightarrow> (bool \<times> mem) outcome" where
  "bread_index_set_op target idx v m =
     (case target of
        VArray r \<Rightarrow> (case idx of
            VInt i \<Rightarrow> bread_array_set_value r (int_index i) v m
          | _ \<Rightarrow> failed_with BREAD_ERROR_TYPE_MISMATCH ''Array index must be Int'' m)
      | VDict r \<Rightarrow> (case idx of
            VString k \<Rightarrow> bread_dict_set_value r idx v m
          | _ \<Rightarrow> failed_with BREAD_ERROR_TYPE_MISMATCH ''Dictionary key must be String'' m)
      | _ \<Rightarrow> failed_with BREAD_ERROR_RUNTIME_ERROR ''Type does not support index assignment'' m)"

section \<open>Members\<close>

definition quoted :: "cstring \<Rightarrow> cstring" where
  "quoted s = [CHR 0x27] @ s @ [CHR 0x27]"

definition member_length :: "val \<Rightarrow> mem \<Rightarrow> (val option \<times> mem) outcome" where
  \<comment> \<open>the property \<^verbatim>\<open>length\<close>\<close>
  "member_length t m =
     (case t of
        VArray r \<Rightarrow> bnd (bread_array_length r m) (\<lambda>n. Done (Some (VInt (of_nat n)), m))
      | VString r \<Rightarrow> Done (Some (VInt (of_nat (bread_string_len m r))), m)
      | VDict r \<Rightarrow> bnd (bread_dict_count r m) (\<lambda>n. Done (Some (VInt (of_nat n)), m))
      | _ \<Rightarrow> runtime_error (''Member '' @ quoted ''length'' @ '' not supported for this type'') m)"

definition member_value :: "bool \<Rightarrow> cstring \<Rightarrow> val \<Rightarrow> mem \<Rightarrow> (val option \<times> mem) outcome" where
  "member_value is_opt member t m =
     (case t of
        VDict r \<Rightarrow> dict_value r member m
      | VStruct r \<Rightarrow> (case r of None \<Rightarrow> runtime_error ''Cannot access field of null struct'' m
          | Some a \<Rightarrow> bnd (bread_struct_get_field r (Some member) m) (\<lambda>f. bnd (struct_at m a) (\<lambda>s.
              case f of
                Some i \<Rightarrow> bnd (bread_value_clone (snd (sfields s ! i)) m) (\<lambda>(w, m1). Done (Some w, m1))
              | None \<Rightarrow> runtime_error (snprintf_s 256 (''Struct field '' @ quoted member @
                  '' not found in struct '' @ quoted (type_name s))) m)))
      | VClass r \<Rightarrow> (case r of None \<Rightarrow> runtime_error ''Cannot access field of null class'' m
          | Some a \<Rightarrow> bnd (bread_class_get_field r (Some member) m) (\<lambda>f. bnd (class_at m a) (\<lambda>c.
              case f of
                Some i \<Rightarrow> bnd (bread_value_clone (snd (cfields c ! i)) m) (\<lambda>(w, m1). Done (Some w, m1))
              | None \<Rightarrow> runtime_error (snprintf_s 256 (''Class field '' @ quoted member @
                  '' not found in class '' @ quoted (class_name c))) m)))
      | _ \<Rightarrow> if is_opt then Done (Some VNil, m)
             else runtime_error (snprintf_s 256 (''Member '' @ quoted member @ '' not supported for this type'')) m)"

definition bread_member_op :: "val \<Rightarrow> cstring option \<Rightarrow> bool \<Rightarrow> mem \<Rightarrow> (val option \<times> mem) outcome" where
  "bread_member_op target member is_opt m =
     (let act = (\<lambda>t. if member = Some ''length'' then member_length t
                     else member_value is_opt (case member of None \<Rightarrow> [] | Some s \<Rightarrow> s) t)
      in if is_opt
         then (if target = VNil then Done (Some VNil, m) else with_unwrapped target act VNil m)
         else act target m)"

definition bread_member_set_op :: "val \<Rightarrow> cstring option \<Rightarrow> val \<Rightarrow> mem \<Rightarrow> (bool \<times> mem) outcome" where
  "bread_member_set_op target member v m =
     (case member of None \<Rightarrow> failed_with BREAD_ERROR_RUNTIME_ERROR ''Null member name'' m
      | Some f \<Rightarrow> (case target of
          VStruct r \<Rightarrow> (case r of None \<Rightarrow> failed_with BREAD_ERROR_RUNTIME_ERROR ''Cannot set field of null struct'' m
            | Some a \<Rightarrow> bnd (bread_struct_set_field r member v m) (\<lambda>m1. Done (True, m1)))
        | VClass r \<Rightarrow> (case r of None \<Rightarrow> failed_with BREAD_ERROR_RUNTIME_ERROR ''Cannot set field of null class'' m
            | Some a \<Rightarrow> bnd (bread_class_set_field r member v m) (\<lambda>m1. Done (True, m1)))
        | VDict r \<Rightarrow> bnd (bread_dict_set r f v m) (\<lambda>(stored, m1).
            if stored then Done (True, m1)
            else failed_with BREAD_ERROR_RUNTIME_ERROR ''Failed to set dictionary value'' m1)
        | _ \<Rightarrow> failed_with BREAD_ERROR_RUNTIME_ERROR ''Member assignment not supported for this type'' m))"

section \<open>Method calls\<close>

definition convert_to_string :: "val \<Rightarrow> mem \<Rightarrow> (val option \<times> mem) outcome" where
  "convert_to_string v m =
     (let str = (\<lambda>s. let (w, m1) = bread_value_set_string (Some s) m in Done (Some w, m1)) in
      case v of
        VString r \<Rightarrow> str (bread_string_cstr m r)
      | VInt i \<Rightarrow> str (show_int (sint i))
      | VBool b \<Rightarrow> str (if b then ''true'' else ''false'')
      | VFloat x \<Rightarrow> str (format_g 6 (f64_of_f32 x))
      | VDouble x \<Rightarrow> str (format_g 6 x)
      | VNil \<Rightarrow> str ''nil''
      | _ \<Rightarrow> Done (None, m))"

definition as_result :: "(bool \<times> val \<times> mem) outcome \<Rightarrow> (val option \<times> mem) outcome" where
  "as_result p = bnd p (\<lambda>(success, v, m). Done (if success then Some v else None, m))"

definition call_method :: "code \<Rightarrow> cstring option \<Rightarrow> int \<Rightarrow> val list option \<Rightarrow> val \<Rightarrow> mem \<Rightarrow> (val option \<times> mem) outcome" where
  "call_method run name argc args t m =
     (let unsupported = runtime_error (snprintf_s 256 (''Method '' @ quoted (case name of None \<Rightarrow> [] | Some n \<Rightarrow> n) @
            '' not supported for this type'')) m;
          argv = (case args of None \<Rightarrow> [] | Some vs \<Rightarrow> vs) in
      if name = Some ''toString''
      then (if argc \<noteq> 0 then runtime_error ''toString() expects 0 arguments'' m
            else bnd (convert_to_string t m) (\<lambda>(res, m1). case res of
                Some v \<Rightarrow> Done (Some v, m1)
              | None \<Rightarrow> runtime_error ''toString() not supported for this type'' m1))
      else if name = Some ''append''
      then (case t of
          VArray r \<Rightarrow>
            (case args of
               Some (v # vs) \<Rightarrow>
                 if argc \<noteq> 1 then runtime_error ''append() expects 1 argument'' m
                 else bnd (bread_array_append r v m) (\<lambda>(appended, m1).
                   if appended then Done (Some VNil, m1)
                   else bnd (raise_error BREAD_ERROR_MEMORY_ALLOCATION ''Out of memory during array append'' m1)
                          (\<lambda>m2. Done (None, m2)))
             | Some [] \<Rightarrow> if argc \<noteq> 1 then runtime_error ''append() expects 1 argument'' m else Undefined
             | None \<Rightarrow> runtime_error ''append() expects 1 argument'' m)
        | _ \<Rightarrow> runtime_error ''append() is only supported on arrays'' m)
      else (case (t, name) of
          (VClass (Some a), Some n) \<Rightarrow>
            if n = ''init'' then as_result (bread_class_execute_constructor run (Some a) argc argv m)
            else bnd (bread_class_find_method_defining_class (Some a) name m) (\<lambda>found. case found of
                Some (d, i) \<Rightarrow> as_result (bread_class_execute_method_direct run (Some d) (int i) (Some a) argc argv m)
              | None \<Rightarrow> unsupported)
        | _ \<Rightarrow> unsupported))"

definition bread_method_call_op ::
  "code \<Rightarrow> val \<Rightarrow> cstring option \<Rightarrow> int \<Rightarrow> val list option \<Rightarrow> bool \<Rightarrow> mem \<Rightarrow> (val option \<times> mem) outcome" where
  "bread_method_call_op run target name argc args is_opt m =
     (if is_opt
      then (if target = VNil then Done (Some VNil, m)
            else with_unwrapped target (call_method run name argc args) VNil m)
      else call_method run name argc args target m)"

section \<open>The parent's constructor\<close>

fun set_own_fields :: "addr \<Rightarrow> (cstring option \<times> val) list \<Rightarrow> mem \<Rightarrow> mem outcome" where
  \<comment> \<open>the fallback loop: a temporary reference around each store\<close>
  "set_own_fields a [] m = Done m"
| "set_own_fields a ((None, v) # fs) m = set_own_fields a fs m"
| "set_own_fields a ((Some f, v) # fs) m =
     bnd (bread_value_clone v m) (\<lambda>(w, m1).
     bnd (bread_class_set_field (Some a) (Some f) w m1) (\<lambda>m2.
     bnd (bread_value_release w m2) (set_own_fields a fs)))"

definition bread_super_init_impl ::
  "code \<Rightarrow> registry \<Rightarrow> val \<Rightarrow> cstring option \<Rightarrow> val list \<Rightarrow> mem \<Rightarrow> (val option \<times> mem) outcome" where
  \<comment> \<open>the arguments are an array of exactly \<^verbatim>\<open>argc\<close> values\<close>
  "bread_super_init_impl run reg self parent args m =
     (case parent of None \<Rightarrow> runtime_error ''Null pointer in super init'' m
      | Some p \<Rightarrow> (case self of
          VClass r \<Rightarrow> (case r of None \<Rightarrow> runtime_error ''Invalid class instance'' m
            | Some a \<Rightarrow> bnd (bread_class_find_definition p reg m) (\<lambda>def. case def of
                None \<Rightarrow> runtime_error (snprintf_s 256 (''Parent class '' @ quoted p @ '' not found'')) m
              | Some d \<Rightarrow> bnd (class_at m d) (\<lambda>pc. case compiled_constructor pc of
                    Some fn \<Rightarrow> bnd (bread_class_call_compiled_method run fn r (int (length args)) args m) (\<lambda>(res, m1).
                      bnd (bread_value_release res m1) (\<lambda>m2. Done (Some VNil, m2)))
                  | None \<Rightarrow> bnd (set_own_fields a (zip (map fst (cfields pc)) args) m) (\<lambda>m1. Done (Some VNil, m1)))))
        | _ \<Rightarrow> type_error ''Super call requires class instance'' m))"

definition bread_super_init_0 :: "code \<Rightarrow> registry \<Rightarrow> val \<Rightarrow> cstring option \<Rightarrow> mem \<Rightarrow> (val option \<times> mem) outcome" where
  "bread_super_init_0 run reg self parent m = bread_super_init_impl run reg self parent [] m"

definition bread_super_init_1 ::
  "code \<Rightarrow> registry \<Rightarrow> val \<Rightarrow> cstring option \<Rightarrow> val option \<Rightarrow> mem \<Rightarrow> (val option \<times> mem) outcome" where
  "bread_super_init_1 run reg self parent arg0 m =
     (case arg0 of None \<Rightarrow> runtime_error ''Null argument'' m
      | Some x \<Rightarrow> bread_super_init_impl run reg self parent [x] m)"

definition bread_super_init_2 ::
  "code \<Rightarrow> registry \<Rightarrow> val \<Rightarrow> cstring option \<Rightarrow> val option \<Rightarrow> val option \<Rightarrow> mem \<Rightarrow> (val option \<times> mem) outcome" where
  "bread_super_init_2 run reg self parent arg0 arg1 m =
     (case (arg0, arg1) of (Some x, Some y) \<Rightarrow> bread_super_init_impl run reg self parent [x, y] m
      | _ \<Rightarrow> runtime_error ''Null argument'' m)"

definition bread_super_init_3 ::
  "code \<Rightarrow> registry \<Rightarrow> val \<Rightarrow> cstring option \<Rightarrow> val option \<Rightarrow> val option \<Rightarrow> val option \<Rightarrow> mem \<Rightarrow>
   (val option \<times> mem) outcome" where
  "bread_super_init_3 run reg self parent arg0 arg1 arg2 m =
     (case (arg0, arg1, arg2) of (Some x, Some y, Some z) \<Rightarrow> bread_super_init_impl run reg self parent [x, y, z] m
      | _ \<Rightarrow> runtime_error ''Null argument'' m)"

section \<open>Indexing an array\<close>

lemma int_index_small: "- (2 ^ 31) \<le> sint i \<Longrightarrow> sint i < 2 ^ 31 \<Longrightarrow> int_index i = sint i"
proof -
  assume r: "- (2 ^ 31) \<le> sint i" "sint i < 2 ^ 31"
  have "int_index i = signed_take_bit 31 (sint i)"
    by (simp add: int_index_def sint_uint unsigned_ucast_eq signed_take_bit_take_bit signed_take_bit_signed_take_bit)
  with r show ?thesis by (simp add: signed_take_bit_int_eq_self)
qed

text \<open>An index beyond 32 bits reads another element instead of failing.\<close>

lemma int_index_wraps: "int_index 0x100000000 = 0"
  by (simp add: int_index_def)

lemma array_at_frame: "get_obj m' a = Some ob' \<Longrightarrow> survives m m' \<Longrightarrow> array_at m a = Done x \<Longrightarrow> array_at m' a = Done x"
  by (fastforce simp: survives_def array_at_def)

lemma array_view_keep:
  assumes "array_view m R a x" "heap_ok m' R'" "VArray (Some a) \<in># R'" "survives m m'"
  shows "array_view m' R' a x"
proof -
  obtain ob' where ob': "get_obj m' a = Some ob'" using root_obj [OF assms(2,3)] by auto
  from array_view_obj [OF assms(1)] obtain ob where "get_obj m a = Some ob" "body ob = BArray x" .
  with ob' assms show ?thesis by (fastforce simp: array_view_def survives_def)
qed

lemma index_array_ok:
  assumes view: "array_view m R a x" and room: "room_for (Suc n) m"
    and i: "from_end (int_index i) (length (items x)) = int j" "j < length (items x)"
  shows "\<exists>m'. index_value (VArray (Some a)) (VInt i) m = Done (Some (items x ! j), m') \<and>
    array_view m' (add_mset (items x ! j) R) a x \<and> survives m m' \<and> room_for n m'"
proof -
  obtain ob where ob: "get_obj m a = Some ob" "body ob = BArray x" "heap_ok m R" "VArray (Some a) \<in># R"
    using array_view_obj [OF view] .
  have mh: "may_hold m R (items x ! j)" by (rule array_elem_may_hold [OF view]) (use i in simp)
  obtain m1 where m1: "bread_value_clone (items x ! j) m = Done (items x ! j, m1)" "heap_ok m1 (add_mset (items x ! j) R)"
      "survives m m1" "room_for n m1"
    using clone_ok [OF ob(3) mh room] by blast
  have "array_view m1 (add_mset (items x ! j) R) a x"
    by (rule array_view_keep [OF view m1(2) _ m1(3)]) (use ob(4) in simp)
  then show ?thesis using m1 i array_viewD(3) [OF view]
    by (auto simp: index_value_def bread_array_length_def bread_array_get_def Let_def)
qed

text \<open>
  C27: reading an element by an index that fits 32 bits, from an array or through an optional that
  holds one: a negative index counts from the end, the result is a new reference to that element,
  the reference-counting discipline is kept (the temporary reference to the unwrapped array is given up), and
  an index out of range ends the program with an index error; an empty optional gives nil.
\<close>
theorem index_op_correct:
  assumes ok: "heap_ok m R" and t: "t \<in># R" and at: "array_at m a = Done x"
    and tgt: "t = VArray (Some a) \<or> (\<exists>p. t = VOptional (Some p) \<and> optional_at m p = Done (Some (VArray (Some a))))"
    and i: "- (2 ^ 31) \<le> sint i" "sint i < 2 ^ 31" and room: "room_for (Suc (Suc n)) m"
  shows "(let j = (if sint i < 0 then int (length (items x)) + sint i else sint i) in
      if 0 \<le> j \<and> j < int (length (items x))
      then \<exists>m'. bread_index_op t (VInt i) m = Done (Some (items x ! nat j), m') \<and>
             heap_ok m' (add_mset (items x ! nat j) R) \<and> array_at m' a = Done x \<and> room_for n m'
      else \<exists>e. bread_index_op t (VInt i) m = Aborted e \<and> err_type e = BREAD_ERROR_INDEX_OUT_OF_BOUNDS)"
proof -
  define j where "j = (if sint i < 0 then int (length (items x)) + sint i else sint i)"
  have fe: "from_end (int_index i) (length (items x)) = j" by (simp add: int_index_small [OF i] from_end_def j_def)
  have oob: "\<exists>e. index_value (VArray (Some a)) (VInt i) m1 = Aborted e \<and> err_type e = BREAD_ERROR_INDEX_OUT_OF_BOUNDS"
    if "\<not> (0 \<le> j \<and> j < int (length (items x)))" "array_at m1 a = Done x" for m1
    using that fe by (auto simp: index_value_def bread_array_length_def Let_def)
  let ?G = "if 0 \<le> j \<and> j < int (length (items x))
      then \<exists>m'. bread_index_op t (VInt i) m = Done (Some (items x ! nat j), m') \<and>
             heap_ok m' (add_mset (items x ! nat j) R) \<and> array_at m' a = Done x \<and> room_for n m'
      else \<exists>e. bread_index_op t (VInt i) m = Aborted e \<and> err_type e = BREAD_ERROR_INDEX_OUT_OF_BOUNDS"
  have "?G" using tgt
  proof (elim disjE exE conjE)
    assume tv: "t = VArray (Some a)"
    then have view: "array_view m R a x" using ok t at by (auto simp: array_view_def array_at_def split: option.splits body.splits)
    have r1: "room_for (Suc n) m" using room by (rule room_for_le) simp
    have run: "bread_index_op t (VInt i) m =
        bnd (index_value (VArray (Some a)) (VInt i) m) (\<lambda>(res, m2). Done (res, m2))"
      using tv by (simp add: bread_index_op_def with_unwrapped_def unwrap_optional_def cleanup_if_owned_def)
    show ?G
    proof (cases "0 \<le> j \<and> j < int (length (items x))")
      case True
      then have "from_end (int_index i) (length (items x)) = int (nat j)" "nat j < length (items x)" using fe by auto
      from index_array_ok [OF view r1 this] True run show ?G by (auto simp: Let_def)
    next
      case False
      with oob [OF False at] run show ?G by (auto simp: Let_def)
    qed
  next
    fix p assume tv: "t = VOptional (Some p)" and op: "optional_at m p = Done (Some (VArray (Some a)))"
    let ?w = "VArray (Some a)"
    obtain ob where ob: "get_obj m p = Some ob" "body ob = BOptional (Some ?w)"
      using op by (auto simp: optional_at_def split: option.splits body.splits)
    then have mh: "may_hold m R ?w" using child_held [OF ok ob(1), of ?w] by (simp add: may_hold_def)
    obtain m1 where m1: "bread_value_clone ?w m = Done (?w, m1)" "heap_ok m1 (add_mset ?w R)" "survives m m1"
        "room_for (Suc n) m1"
      using clone_ok [OF ok mh room] by blast
    have at1: "array_at m1 a = Done x"
      using root_obj [OF m1(2), of ?w a] array_at_frame [OF _ m1(3) at] by auto
    then have view: "array_view m1 (add_mset ?w R) a x"
      using m1(2) by (auto simp: array_view_def array_at_def split: option.splits body.splits)
    have run: "bread_index_op t (VInt i) m = bnd (index_value ?w (VInt i) m1)
        (\<lambda>(res, m2). bnd (bread_value_release ?w m2) (\<lambda>m3. Done (res, m3)))"
      using tv op m1(1) by (simp add: bread_index_op_def with_unwrapped_def unwrap_optional_def cleanup_if_owned_def)
    show ?G
    proof (cases "0 \<le> j \<and> j < int (length (items x))")
      case True
      let ?v = "items x ! nat j"
      from True have "from_end (int_index i) (length (items x)) = int (nat j)" "nat j < length (items x)" using fe by auto
      from index_array_ok [OF view m1(4) this] obtain m2 where
        m2: "index_value ?w (VInt i) m1 = Done (Some ?v, m2)" "array_view m2 (add_mset ?v (add_mset ?w R)) a x"
          "survives m1 m2" "room_for n m2" by blast
      have "heap_ok m2 (add_mset ?w (add_mset ?v R))" using m2(2) by (auto simp: array_view_def add_mset_commute)
      then obtain m3 where m3: "bread_value_release ?w m2 = Done m3" "heap_ok m3 (add_mset ?v R)" "survives m2 m3"
          "room_for n m3"
        using value_release_ok m2(4) by blast
      have "survives m m3" using m1(3) m2(3) m3(3) survives_trans by blast
      obtain ob3 where "get_obj m3 p = Some ob3" using root_obj [OF m3(2), of t p] t tv by auto
      then obtain b where b: "get_obj m3 p = Some ob3" "body ob3 = BOptional (Some ?w)"
        using \<open>survives m m3\<close> ob by (fastforce simp: survives_def)
      have "?w \<in># held m3" using child_held [OF m3(2) b(1), of ?w] b(2) by simp
      then obtain oa where "get_obj m3 a = Some oa" using heap_ok_live [OF m3(2), of ?w a] by auto
      then have "array_at m3 a = Done x" using array_at_frame \<open>survives m m3\<close> at by blast
      with m2 m3 run True show ?G by (auto simp: Let_def)
    next
      case False
      with oob [OF False at1] run show ?G by (auto simp: Let_def)
    qed
  qed
  then show ?thesis unfolding j_def Let_def .
qed

theorem index_op_correct_witness:
  "\<exists>m'. bread_index_op (VArray (Some 0)) (VInt (- 1)) sample_ints = Done (Some (VInt 7), m')"
proof -
  have "heap_ok sample_ints {#VArray (Some 0), VInt 9#}" using sample_ints_view by (simp add: array_view_def)
  moreover have "room_for (Suc (Suc 0)) sample_ints" using sample_ints_room by (simp add: numeral_2_eq_2)
  ultimately show ?thesis
    using index_op_correct [of sample_ints _ "VArray (Some 0)" 0 _ "- 1" 0] array_viewD(3) [OF sample_ints_view] by fastforce
qed

text \<open>Appending a value of another type through a method call ends the program as if memory had run out.\<close>

lemma append_wrong_type:
  assumes "array_at m a = Done x" "\<not> type_fits x v"
  shows "\<exists>e. bread_method_call_op run (VArray (Some a)) (Some ''append'') 1 (Some [v]) False m = Aborted e \<and>
    err_type e = BREAD_ERROR_MEMORY_ALLOCATION"
  using assms by (simp add: bread_method_call_op_def call_method_def bread_array_append_def Let_def)

end
