(* ===== verification/BreadScopes.thy ===== *)
theory BreadScopes
  imports BreadOperators
begin

text \<open>
  Variables and scopes: \<^verbatim>\<open>src/core/var.c\<close> and the \<^verbatim>\<open>bread_var_...\<close> functions of
  \<^verbatim>\<open>src/runtime/runtime.c\<close>. A variable's type and value are one tagged value. The scope
  stack is a list of scopes, the innermost first, each the list of its variables in the order they
  were declared; \<^verbatim>\<open>scope_depth\<close> is the length. Names are C strings; the tests for
  pointers below \<^verbatim>\<open>0x1000\<close> are not modelled. Lines printed on stdout are not modelled.
\<close>

section \<open>State\<close>

record variable =
  vname :: cstring
  vval :: val
  is_const :: bool

type_synonym scope = "variable list"

record vars_state =
  scopes :: "scope list"
  heap :: mem

definition MAX_VARS :: nat where "MAX_VARS = 256"
definition MAX_SCOPES :: nat where "MAX_SCOPES = 64"

definition init_variables :: "vars_state \<Rightarrow> vars_state" where
  "init_variables st = st\<lparr>scopes := [[]]\<rparr>"

definition fail_vars :: "BreadErrorType \<Rightarrow> cstring \<Rightarrow> 'a \<Rightarrow> vars_state \<Rightarrow> ('a \<times> vars_state) outcome" where
  "fail_vars t msg x st = bnd (raise_error t msg (heap st)) (\<lambda>m. Done (x, st\<lparr>heap := m\<rparr>))"

definition push_scope :: "vars_state \<Rightarrow> vars_state outcome" where
  "push_scope st =
     (if length (scopes st) \<ge> MAX_SCOPES
      then bnd (fail_vars BREAD_ERROR_RUNTIME_ERROR ''Scope stack overflow'' () st) (\<lambda>(_, st1). Done st1)
      else Done (st\<lparr>scopes := [] # scopes st\<rparr>))"

fun release_variables :: "variable list \<Rightarrow> mem \<Rightarrow> mem outcome" where
  "release_variables [] m = Done m"
| "release_variables (v # vs) m = bnd (bread_value_release (vval v) m) (release_variables vs)"

definition pop_scope :: "vars_state \<Rightarrow> vars_state outcome" where
  "pop_scope st =
     (if length (scopes st) \<le> 1
      then bnd (fail_vars BREAD_ERROR_RUNTIME_ERROR ''Cannot pop global scope'' () st) (\<lambda>(_, st1). Done st1)
      else bnd (release_variables (hd (scopes st)) (heap st)) (\<lambda>m.
        Done (st\<lparr>scopes := tl (scopes st), heap := m\<rparr>)))"

definition can_pop_scope :: "vars_state \<Rightarrow> bool" where
  "can_pop_scope st \<longleftrightarrow> length (scopes st) > 1"

definition scope_depth_current :: "vars_state \<Rightarrow> nat" where
  "scope_depth_current st = length (scopes st)"

fun pop_loop :: "nat \<Rightarrow> vars_state \<Rightarrow> vars_state outcome" where
  \<comment> \<open>\<^verbatim>\<open>while (scope_depth > target_depth) pop_scope();\<close>, by the number of scopes to pop\<close>
  "pop_loop 0 st = Done st"
| "pop_loop (Suc n) st = bnd (pop_scope st) (pop_loop n)"

definition pop_to_scope_depth :: "int \<Rightarrow> vars_state \<Rightarrow> vars_state outcome" where
  "pop_to_scope_depth target st =
     (if target < 1 \<or> target > int (length (scopes st))
      then bnd (fail_vars BREAD_ERROR_RUNTIME_ERROR
             (if target < 1 then ''Invalid target scope depth'' else ''Cannot pop to a deeper scope depth'') () st)
             (\<lambda>(_, st1). Done st1)
      else pop_loop (length (scopes st) - nat target) st)"

fun cleanup_scopes :: "scope list \<Rightarrow> mem \<Rightarrow> mem outcome" where
  "cleanup_scopes [] m = Done m"
| "cleanup_scopes (s # ss) m = bnd (release_variables s m) (cleanup_scopes ss)"

definition cleanup_variables :: "vars_state \<Rightarrow> vars_state outcome" where
  "cleanup_variables st = bnd (cleanup_scopes (scopes st) (heap st)) (\<lambda>m. Done (st\<lparr>scopes := [], heap := m\<rparr>))"

section \<open>Looking up\<close>

fun find_var :: "cstring \<Rightarrow> variable list \<Rightarrow> nat \<Rightarrow> nat option" where
  "find_var n [] i = None"
| "find_var n (v # vs) i = (if vname v = n then Some i else find_var n vs (Suc i))"

fun find_in_scopes :: "cstring \<Rightarrow> scope list \<Rightarrow> nat \<Rightarrow> (nat \<times> nat) option" where
  "find_in_scopes n [] s = None"
| "find_in_scopes n (sc # scs) s =
     (case find_var n sc 0 of Some i \<Rightarrow> Some (s, i) | None \<Rightarrow> find_in_scopes n scs (Suc s))"

definition get_variable :: "cstring \<Rightarrow> vars_state \<Rightarrow> (nat \<times> nat) option" where
  \<comment> \<open>the position of the variable: scope (0 is the innermost) and index\<close>
  "get_variable n st = (if length n = 0 \<or> length n \<ge> 255 then None else find_in_scopes n (scopes st) 0)"

definition var_at :: "vars_state \<Rightarrow> nat \<times> nat \<Rightarrow> variable" where
  "var_at st p = scopes st ! fst p ! snd p"

definition put_var :: "nat \<times> nat \<Rightarrow> variable \<Rightarrow> vars_state \<Rightarrow> vars_state" where
  "put_var p v st = st\<lparr>scopes := (scopes st)[fst p := (scopes st ! fst p)[snd p := v]]\<rparr>"

section \<open>Declaring\<close>

fun zero_of :: "VarType \<Rightarrow> val" where
  \<comment> \<open>the type with the union set to zero\<close>
  "zero_of TYPE_STRING = VString None" | "zero_of TYPE_INT = VInt 0" | "zero_of TYPE_BOOL = VBool False"
| "zero_of TYPE_FLOAT = VFloat 0" | "zero_of TYPE_DOUBLE = VDouble 0" | "zero_of TYPE_ARRAY = VArray None"
| "zero_of TYPE_DICT = VDict None" | "zero_of TYPE_OPTIONAL = VOptional None"
| "zero_of TYPE_STRUCT = VStruct None" | "zero_of TYPE_CLASS = VClass None" | "zero_of TYPE_NIL = VNil"

definition retain_value_by_type :: "val \<Rightarrow> mem \<Rightarrow> (val \<times> mem) outcome" where
  "retain_value_by_type v m =
     (if v = VString None then (let (s, m1) = bread_string_new [] m in Done (VString s, m1))
      else bread_value_clone v m)"

definition declare_variable_raw :: "cstring \<Rightarrow> val \<Rightarrow> bool \<Rightarrow> vars_state \<Rightarrow> (bool \<times> vars_state) outcome" where
  \<comment> \<open>type and value are one argument\<close>
  "declare_variable_raw n v const st =
     (case scopes st of
        [] \<Rightarrow> fail_vars BREAD_ERROR_RUNTIME_ERROR ''Variable system not initialized'' False st
      | sc # outer \<Rightarrow>
          if list_ex (\<lambda>x. vname x = n) sc
          then fail_vars BREAD_ERROR_RUNTIME_ERROR ''Variable already declared'' False st
          else if length sc \<ge> MAX_VARS
          then fail_vars BREAD_ERROR_RUNTIME_ERROR ''Too many variables in scope'' False st
          else if length n \<ge> 255
          then fail_vars BREAD_ERROR_RUNTIME_ERROR ''Variable name too long'' False st
          else bnd (retain_value_by_type v (heap st)) (\<lambda>(w, m).
            Done (True, st\<lparr>scopes := (sc @ [\<lparr>vname = n, vval = w, is_const = const\<rparr>]) # outer, heap := m\<rparr>)))"

section \<open>Assigning\<close>

definition to_int32 :: "64 word option \<Rightarrow> 64 word outcome" where
  \<comment> \<open>\<^verbatim>\<open>(int)d\<close>: undefined when the result does not fit 32 bits\<close>
  "to_int32 i =
     (case i of None \<Rightarrow> Undefined
      | Some k \<Rightarrow> if sint k < - (2 ^ 31) \<or> sint k \<ge> 2 ^ 31 then Undefined else Done k)"

definition try_numeric_coercion :: "VarType \<Rightarrow> val \<Rightarrow> val outcome option" where
  "try_numeric_coercion target v =
     (if target = TYPE_DOUBLE
      then (case v of VInt i \<Rightarrow> Some (Done (VDouble (f64_of_int i)))
            | VFloat x \<Rightarrow> Some (Done (VDouble (f64_of_f32 x))) | _ \<Rightarrow> None)
      else if target = TYPE_FLOAT
      then (case v of VInt i \<Rightarrow> Some (Done (VFloat (f32_of_int i)))
            | VDouble x \<Rightarrow> Some (Done (VFloat (f32_of_f64 x))) | _ \<Rightarrow> None)
      else if target = TYPE_INT
      then (case v of VDouble x \<Rightarrow> Some (bnd (to_int32 (f64_to_int x)) (\<lambda>i. Done (VInt i)))
            | VFloat x \<Rightarrow> Some (bnd (to_int32 (f32_to_int x)) (\<lambda>i. Done (VInt i))) | _ \<Rightarrow> None)
      else None)"

definition try_optional_coercion :: "VarType \<Rightarrow> val \<Rightarrow> mem \<Rightarrow> (ref \<times> mem) outcome option" where
  "try_optional_coercion target v m =
     (if target \<noteq> TYPE_OPTIONAL then None
      else if vtype v = TYPE_NIL then Some (Done (bread_optional_new_none m))
      else if vtype v \<noteq> TYPE_OPTIONAL then Some (bread_optional_new_some v m)
      else None)"

definition store_same :: "val \<Rightarrow> val \<Rightarrow> mem \<Rightarrow> (val \<times> mem) outcome" where
  \<comment> \<open>the switch of \<^verbatim>\<open>coerce_and_assign\<close>, for a value of the target's type: a string is
    retained before the old one is released, the other objects after\<close>
  "store_same old v m =
     (case v of
        VString (Some s) \<Rightarrow> bnd (bread_object_retain (Some s) m) (\<lambda>m1.
          bnd (bread_value_release old m1) (\<lambda>m2. Done (v, m2)))
      | VString None \<Rightarrow> (let (s, m1) = bread_string_new [] m in
          bnd (bread_value_release old m1) (\<lambda>m2. Done (VString s, m2)))
      | VInt i \<Rightarrow> Done (v, m) | VBool b \<Rightarrow> Done (v, m) | VFloat x \<Rightarrow> Done (v, m) | VDouble x \<Rightarrow> Done (v, m)
      | VNil \<Rightarrow> Done (old, m)
      | _ \<Rightarrow> bnd (bread_value_release old m) (\<lambda>m1. bnd (bread_object_retain (ref_of v) m1) (\<lambda>m2. Done (v, m2))))"

definition coerce_and_assign :: "val \<Rightarrow> val \<Rightarrow> mem \<Rightarrow> (bool \<times> val \<times> mem) outcome" where
  \<comment> \<open>success, the variable's new type and value, and the heap\<close>
  "coerce_and_assign old v m =
     (let store = (\<lambda>o' v' m'. bnd (store_same o' v' m') (\<lambda>(w, m1). Done (True, w, m1))) in
      if vtype old = TYPE_NIL then store (zero_of (vtype v)) v m
      else if vtype old = vtype v then store old v m
      else (case try_numeric_coercion (vtype old) v of
          Some c \<Rightarrow> bnd c (\<lambda>w. store old w m)
        | None \<Rightarrow> (case try_optional_coercion (vtype old) v m of
            Some c \<Rightarrow> bnd c (\<lambda>(r, m1). bnd (store old (VOptional r) m1) (\<lambda>(ok, w, m2).
              bnd (bread_optional_release r m2) (\<lambda>m3. Done (ok, w, m3))))
          | None \<Rightarrow>
              (case (old, v) of
                 (VStruct r, VClass c) \<Rightarrow> store (VClass r) v m  \<comment> \<open>the union read as a class pointer\<close>
               | _ \<Rightarrow> Done (False, old, m)))))"

definition assign_var :: "nat \<times> nat \<Rightarrow> val \<Rightarrow> vars_state \<Rightarrow> (bool \<times> vars_state) outcome" where
  \<comment> \<open>\<^verbatim>\<open>set_variable_value_from_expr_result\<close>\<close>
  "assign_var p v st =
     bnd (coerce_and_assign (vval (var_at st p)) v (heap st)) (\<lambda>(ok, w, m).
       Done (ok, put_var p ((var_at st p)\<lparr>vval := w\<rparr>) (st\<lparr>heap := m\<rparr>)))"

definition bread_init_variable_from_expr_result :: "cstring \<Rightarrow> val \<Rightarrow> vars_state \<Rightarrow> (bool \<times> vars_state) outcome" where
  "bread_init_variable_from_expr_result n v st =
     (case get_variable n st of None \<Rightarrow> Done (False, st) | Some p \<Rightarrow> assign_var p v st)"

definition bread_assign_variable_from_expr_result :: "cstring \<Rightarrow> val \<Rightarrow> vars_state \<Rightarrow> (bool \<times> vars_state) outcome" where
  "bread_assign_variable_from_expr_result n v st =
     (case get_variable n st of None \<Rightarrow> Done (False, st)
      | Some p \<Rightarrow> if is_const (var_at st p) then Done (False, st) else assign_var p v st)"

section \<open>The runtime's entry points\<close>

definition bread_var_decl :: "cstring \<Rightarrow> VarType \<Rightarrow> bool \<Rightarrow> val option \<Rightarrow> vars_state \<Rightarrow> (bool \<times> vars_state) outcome" where
  "bread_var_decl n t const init st =
     bnd (declare_variable_raw n (zero_of t) const st) (\<lambda>(ok, st1).
       if \<not> ok then Done (False, st1)
       else (case init of None \<Rightarrow> Done (True, st1) | Some v \<Rightarrow> bread_init_variable_from_expr_result n v st1))"

definition bread_var_decl_if_missing ::
  "cstring \<Rightarrow> VarType \<Rightarrow> bool \<Rightarrow> val option \<Rightarrow> vars_state \<Rightarrow> (bool \<times> vars_state) outcome" where
  "bread_var_decl_if_missing n t const init st =
     (if get_variable n st \<noteq> None then Done (True, st) else bread_var_decl n t const init st)"

definition bread_var_assign :: "cstring \<Rightarrow> val \<Rightarrow> vars_state \<Rightarrow> (bool \<times> vars_state) outcome" where
  "bread_var_assign n v st =
     (if length n \<ge> 255 then fail_vars BREAD_ERROR_UNDEFINED_VARIABLE ''Variable name too long'' False st
      else (case get_variable n st of
          None \<Rightarrow> fail_vars BREAD_ERROR_UNDEFINED_VARIABLE
                   (''Unknown variable '' @ [CHR 0x27] @ n @ [CHR 0x27]) False st
        | Some p \<Rightarrow>
            if is_const (var_at st p)
            then fail_vars BREAD_ERROR_RUNTIME_ERROR ''Cannot assign to constant variable'' False st
            else bread_assign_variable_from_expr_result n v st))"

definition bread_var_load :: "cstring \<Rightarrow> vars_state \<Rightarrow> (val option \<times> vars_state) outcome" where
  "bread_var_load n st =
     (case get_variable n st of
        None \<Rightarrow> fail_vars BREAD_ERROR_UNDEFINED_VARIABLE ''Unknown variable'' None st
      | Some p \<Rightarrow> bnd (bread_value_clone (vval (var_at st p)) (heap st)) (\<lambda>(v, m).
          Done (Some v, st\<lparr>heap := m\<rparr>)))"

definition bread_push_scope :: "vars_state \<Rightarrow> vars_state outcome" where "bread_push_scope st = push_scope st"
definition bread_pop_scope :: "vars_state \<Rightarrow> vars_state outcome" where "bread_pop_scope st = pop_scope st"
definition bread_can_pop_scope :: "vars_state \<Rightarrow> bool" where "bread_can_pop_scope st = can_pop_scope st"
definition bread_scope_depth :: "vars_state \<Rightarrow> nat" where "bread_scope_depth st = scope_depth_current st"
definition bread_pop_to_scope_depth :: "int \<Rightarrow> vars_state \<Rightarrow> vars_state outcome" where
  "bread_pop_to_scope_depth target st = pop_to_scope_depth target st"

section \<open>Unboxing\<close>

definition bread_unbox_int :: "val \<Rightarrow> int outcome" where
  \<comment> \<open>an \<^verbatim>\<open>int\<close>: the low 32 bits of an integer\<close>
  "bread_unbox_int v =
     (case v of VInt i \<Rightarrow> Done (sint (ucast i :: 32 word)) | VBool b \<Rightarrow> Done (if b then 1 else 0)
      | VDouble x \<Rightarrow> bnd (to_int32 (f64_to_int x)) (\<lambda>i. Done (sint i))
      | VFloat x \<Rightarrow> bnd (to_int32 (f32_to_int x)) (\<lambda>i. Done (sint i)) | _ \<Rightarrow> Done 0)"

definition bread_unbox_double :: "val \<Rightarrow> 64 word" where
  "bread_unbox_double v =
     (case v of VBool b \<Rightarrow> if b then f64_of_int 1 else 0 | _ \<Rightarrow> bread_value_as_double v)"

definition bread_unbox_bool :: "val \<Rightarrow> bool" where
  "bread_unbox_bool v =
     (case v of VBool b \<Rightarrow> b | VInt i \<Rightarrow> i \<noteq> 0 | VDouble x \<Rightarrow> \<not> f64_eq x 0 | VFloat x \<Rightarrow> \<not> f32_eq x 0 | _ \<Rightarrow> False)"

section \<open>Assigning keeps the discipline\<close>

lemma retain_of_clone: "bread_value_clone v m = Done (w, m') \<longleftrightarrow> w = v \<and> bread_object_retain (ref_of v) m = Done m'"
  by (auto simp: bread_value_clone_def bnd_Done_iff)

lemma store_same_ok:
  assumes ok: "heap_ok m (add_mset old R)" and v: "v \<in># R" and ty: "vtype old = vtype v"
    and ns: "v \<noteq> VString None" and room: "room_for (Suc n) m"
  shows "\<exists>m'. store_same old v m = Done (v, m') \<and> heap_ok m' (add_mset v R) \<and> survives m m' \<and> room_for n m'"
proof -
  obtain m1 m2 where rel: "bread_value_release old m = Done m1" "bread_object_retain (ref_of v) m1 = Done m2"
      "heap_ok m2 (add_mset v R)" "survives m m2" "room_for n m2"
    using rt.replace_ok [OF ok v room] by (auto simp: retain_of_clone)
  have mh: "may_hold m (add_mset old R) v" using v by (simp add: may_hold_def)
  obtain c1 where c1: "bread_object_retain (ref_of v) m = Done c1" "heap_ok c1 (add_mset v (add_mset old R))"
      "survives m c1" "room_for n c1"
    using clone_ok [OF ok mh room] by (auto simp: retain_of_clone)
  have "heap_ok c1 (add_mset old (add_mset v R))" using c1(2) by (simp add: add_mset_commute)
  then obtain c2 where c2: "bread_value_release old c1 = Done c2" "heap_ok c2 (add_mset v R)" "survives c1 c2"
      "room_for n c2"
    using value_release_ok c1(4) by blast
  have room': "room_for n m" using room by (rule room_for_le) simp
  have scalar: "heap_ok m (add_mset v R)" if "ref_of v = None" "ref_of old = None"
    using ok that by simp
  show ?thesis
  proof (cases v)
    case (VString s)
    then obtain a where "s = Some a" using ns by (cases s) auto
    with VString c1 c2 survives_trans [OF c1(3) c2(3)] show ?thesis by (auto simp: store_same_def)
  next
    case VNil
    then have "old = VNil" using ty by (cases old) auto
    with VNil ok room' survives_refl show ?thesis by (simp add: store_same_def)
  qed (use rel scalar ty room' survives_refl in \<open>auto simp: store_same_def vtype.elims split: val.splits\<close>,
      (cases old; simp add: store_same_def scalar room' survives_refl)+)
qed


definition numeric_pair :: "VarType \<Rightarrow> VarType \<Rightarrow> bool" where
  "numeric_pair t u \<longleftrightarrow> t \<noteq> u \<and> t \<in> {TYPE_INT, TYPE_FLOAT, TYPE_DOUBLE} \<and> u \<in> {TYPE_INT, TYPE_FLOAT, TYPE_DOUBLE}"

fun converted :: "VarType \<Rightarrow> val \<Rightarrow> val option" where
  \<comment> \<open>the C conversion between two numeric types; none when it is undefined\<close>
  "converted TYPE_DOUBLE (VInt i) = Some (VDouble (f64_of_int i))"
| "converted TYPE_DOUBLE (VFloat x) = Some (VDouble (f64_of_f32 x))"
| "converted TYPE_FLOAT (VInt i) = Some (VFloat (f32_of_int i))"
| "converted TYPE_FLOAT (VDouble x) = Some (VFloat (f32_of_f64 x))"
| "converted TYPE_INT (VDouble x) = (case to_int32 (f64_to_int x) of Done i \<Rightarrow> Some (VInt i) | _ \<Rightarrow> None)"
| "converted TYPE_INT (VFloat x) = (case to_int32 (f32_to_int x) of Done i \<Rightarrow> Some (VInt i) | _ \<Rightarrow> None)"
| "converted _ _ = None"

definition assignable :: "VarType \<Rightarrow> val \<Rightarrow> bool" where
  \<comment> \<open>what a variable of a type takes\<close>
  "assignable t v \<longleftrightarrow> v \<noteq> VString None \<and> (t = TYPE_NIL \<or> t = vtype v \<or> t = TYPE_OPTIONAL \<or> converted t v \<noteq> None)"

definition holds_value :: "VarType \<Rightarrow> val \<Rightarrow> val \<Rightarrow> mem \<Rightarrow> bool" where
  \<comment> \<open>\<open>w\<close> is what a variable of type \<open>t\<close> holds after \<open>v\<close> has been assigned to it\<close>
  "holds_value t v w m \<longleftrightarrow>
     (if t = TYPE_NIL \<or> t = vtype v then w = v
      else if t = TYPE_OPTIONAL
      then (\<exists>a. w = VOptional (Some a) \<and> optional_at m a = Done (if v = VNil then None else Some v))
      else Some w = converted t v)"

lemma numeric_coercion:
  assumes "converted t v = Some w"
  shows "try_numeric_coercion t v = Some (Done w)" "vtype w = t" "ref_of w = None" "w \<noteq> VString None"
proof -
  have "try_numeric_coercion t v = Some (Done w) \<and> vtype w = t \<and> ref_of w = None \<and> w \<noteq> VString None"
    using assms by (cases "(t, v)" rule: converted.cases) (auto simp: try_numeric_coercion_def split: outcome.splits)
  then show "try_numeric_coercion t v = Some (Done w)" "vtype w = t" "ref_of w = None" "w \<noteq> VString None" by auto
qed

lemma zero_of_facts [simp]: "vtype (zero_of t) = t" "ref_of (zero_of t) = None"
  by (cases t; simp)+

lemma try_numeric_types:
  "t = TYPE_OPTIONAL \<Longrightarrow> try_numeric_coercion t v = None"
  by (simp add: try_numeric_coercion_def)

text \<open>A new optional that holds a value, made without giving up anything.\<close>

lemma optional_new_ok:
  assumes ok: "heap_ok m R" and v: "v \<in># R" and room: "room_for (Suc (Suc n)) m"
  shows "\<exists>a m'. (if v = VNil then Done (bread_optional_new_none m) else bread_optional_new_some v m) = Done (Some a, m') \<and>
    heap_ok m' (add_mset (VOptional (Some a)) R) \<and> room_for n m' \<and>
    optional_at m' a = Done (if v = VNil then None else Some v)"
proof -
  let ?a = "length (cells m)"
  obtain m1 where al: "bread_memory_alloc (BOptional None) m = (?a, m1)" by (simp add: bread_memory_alloc_def)
  have g: "get_obj m1 ?a = Some \<lparr>refcount = 1, body = BOptional None\<rparr>" using alloc_get [OF al] by simp
  have ok1: "heap_ok m1 (add_mset (VOptional (Some ?a)) R)" by (rule alloc_ok [OF _ al]) (use ok in simp_all)
  have "rc_of m 0 + Suc (Suc n) < 2 ^ 32" using room unfolding room_for_def by blast
  then have room1: "room_for (Suc n) m1" by (intro alloc_room [OF al room_for_le [OF room]]) simp_all
  show ?thesis
  proof (cases "v = VNil")
    case True
    moreover have "room_for n m1" using room1 by (rule room_for_le) simp
    ultimately show ?thesis using al g ok1 by (auto simp: bread_optional_new_none_def optional_at_def)
  next
    case False
    have mh: "may_hold m1 (add_mset (VOptional (Some ?a)) R) v" using v by (simp add: may_hold_def)
    obtain m2 ob2 where m2: "bread_value_clone v m1 = Done (v, m2)" "room_for n m2" "get_obj m2 ?a = Some ob2"
        "heap_ok (set_body ?a (BOptional (Some v)) m2) (add_mset (VOptional (Some ?a)) R)"
      using slot_store [OF ok1 mh room1 g, of "BOptional (Some v)" "{#}"] by auto
    then show ?thesis using False al
      by (auto simp: bread_optional_new_some_def optional_at_def set_body_get)
  qed
qed

lemma optional_survives:
  assumes "heap_ok m' R" "VOptional (Some a) \<in># R" "survives m m'" "optional_at m a = Done x"
  shows "optional_at m' a = Done x"
proof -
  obtain ob where "get_obj m' a = Some ob" using root_obj [OF assms(1,2), of a] by auto
  moreover then obtain ob' where "get_obj m a = Some ob'" "body ob' = body ob"
    using assms(3) unfolding survives_def by metis
  ultimately show ?thesis using assms(4) by (simp add: optional_at_def)
qed

lemma coerce_and_assign_ok:
  assumes ok: "heap_ok m (add_mset old R)" and v: "v \<in># R" and as: "assignable (vtype old) v"
    and room: "room_for (Suc (Suc (Suc n))) m"
  shows "\<exists>w m'. coerce_and_assign old v m = Done (True, w, m') \<and> heap_ok m' (add_mset w R) \<and> room_for n m' \<and>
    holds_value (vtype old) v w m'"
proof -
  have ns: "v \<noteq> VString None" using as by (simp add: assignable_def)
  have r1: "room_for (Suc n) m" using room by (rule room_for_le) simp
  consider (nil) "vtype old = TYPE_NIL" | (same) "vtype old = vtype v" "vtype old \<noteq> TYPE_NIL"
    | (opt) "vtype old = TYPE_OPTIONAL" "vtype v \<noteq> TYPE_OPTIONAL"
    | (num) w where "converted (vtype old) v = Some w" "vtype old \<noteq> vtype v" "vtype old \<noteq> TYPE_NIL"
      "vtype old \<noteq> TYPE_OPTIONAL"
    using as unfolding assignable_def by (metis option.exhaust)
  then show ?thesis
  proof cases
    case nil
    then have "ref_of old = None" by (cases old) auto
    then have "heap_ok m (add_mset (zero_of (vtype v)) R)" using ok by simp
    from store_same_ok [OF this v _ ns r1] nil show ?thesis
      by (auto simp: coerce_and_assign_def holds_value_def)
  next
    case same
    from store_same_ok [OF ok v same(1) ns r1] same show ?thesis
      by (auto simp: coerce_and_assign_def holds_value_def)
  next
    case num
    note nc = numeric_coercion [OF num(1)]
    have "heap_ok m (add_mset w (add_mset old R))" using ok nc(3) by simp
    then have ok': "heap_ok m (add_mset old (add_mset w R))" by (simp only: add_mset_commute)
    obtain m' where m': "store_same old w m = Done (w, m')" "heap_ok m' (add_mset w (add_mset w R))" "room_for n m'"
      using store_same_ok [OF ok' _ _ nc(4) r1] nc(2) by auto
    have "heap_ok m' (add_mset w R)" using m'(2) nc(3) by simp
    with m' num nc show ?thesis by (auto simp: coerce_and_assign_def holds_value_def)
  next
    case opt
    obtain a m1 where m1: "(if v = VNil then Done (bread_optional_new_none m) else bread_optional_new_some v m) = Done (Some a, m1)"
        "heap_ok m1 (add_mset (VOptional (Some a)) (add_mset old R))" "room_for (Suc n) m1"
        "optional_at m1 a = Done (if v = VNil then None else Some v)"
      using optional_new_ok [OF ok, of v "Suc n"] v room by auto
    let ?o = "VOptional (Some a)"
    have ok1: "heap_ok m1 (add_mset old (add_mset ?o R))" using m1(2) by (simp add: add_mset_commute)
    obtain m2 where m2: "store_same old ?o m1 = Done (?o, m2)" "heap_ok m2 (add_mset ?o (add_mset ?o R))"
        "survives m1 m2" "room_for n m2"
      using store_same_ok [OF ok1, of ?o, OF _ _ _ m1(3)] opt(1) by auto
    obtain m3 where m3: "bread_value_release ?o m2 = Done m3" "heap_ok m3 (add_mset ?o R)" "survives m2 m3" "room_for n m3"
      using value_release_ok [OF m2(2)] m2(4) by blast
    have "optional_at m3 a = Done (if v = VNil then None else Some v)"
      using optional_survives [OF m3(2) _ survives_trans [OF m2(3) m3(3)] m1(4)] by simp
    moreover have "try_optional_coercion (vtype old) v m = Some (Done (Some a, m1))"
      using opt m1(1) by (cases v) (auto simp: try_optional_coercion_def)
    ultimately show ?thesis using opt m2 m3 try_numeric_types
      by (auto simp: coerce_and_assign_def holds_value_def bread_optional_release_def)
  qed
qed

section \<open>The stack of scopes\<close>

definition env_roots :: "scope list \<Rightarrow> val multiset" where
  \<comment> \<open>the values that the variables own\<close>
  "env_roots scs = mset (map vval (concat scs))"

definition vars_ok :: "vars_state \<Rightarrow> val multiset \<Rightarrow> bool" where
  "vars_ok st R \<longleftrightarrow> heap_ok (heap st) (env_roots (scopes st) + R)"

lemma env_roots_simps [simp]:
  "env_roots [] = {#}"
  "env_roots (sc # scs) = mset (map vval sc) + env_roots scs"
  by (simp_all add: env_roots_def)

lemma release_variables_ok:
  "heap_ok m (mset (map vval vs) + R) \<Longrightarrow>
   \<exists>m'. release_variables vs m = Done m' \<and> heap_ok m' R \<and> survives m m' \<and> (\<forall>n. room_for n m \<longrightarrow> room_for n m')"
proof (induction vs arbitrary: m)
  case (Cons v vs)
  then have "heap_ok m (add_mset (vval v) (mset (map vval vs) + R))" by simp
  then obtain m1 where m1: "bread_value_release (vval v) m = Done m1" "heap_ok m1 (mset (map vval vs) + R)"
      "survives m m1" "\<forall>n. room_for n m \<longrightarrow> room_for n m1"
    using value_release_ok by blast
  from Cons.IH [OF this(2)] m1 survives_trans show ?case by auto
qed (simp add: survives_refl)

lemma pop_loop_ok:
  assumes "vars_ok st R" and "n < length (scopes st)"
  shows "\<exists>m. pop_loop n st = Done (st\<lparr>scopes := drop n (scopes st), heap := m\<rparr>) \<and>
    heap_ok m (env_roots (drop n (scopes st)) + R) \<and> survives (heap st) m \<and>
    (\<forall>k. room_for k (heap st) \<longrightarrow> room_for k m)"
  using assms
proof (induction n arbitrary: st)
  case 0
  then show ?case by (auto simp: vars_ok_def survives_refl intro!: exI [of _ "heap st"])
next
  case (Suc n)
  then obtain sc scs where sc: "scopes st = sc # scs" by (cases "scopes st") auto
  have "heap_ok (heap st) (mset (map vval sc) + (env_roots scs + R))"
    using Suc.prems(1) sc by (simp add: vars_ok_def add.assoc)
  from release_variables_ok [OF this] obtain m where
    m: "release_variables sc (heap st) = Done m" "heap_ok m (env_roots scs + R)" "survives (heap st) m"
      "\<forall>k. room_for k (heap st) \<longrightarrow> room_for k m" by blast
  let ?st = "st\<lparr>scopes := scs, heap := m\<rparr>"
  have pop: "pop_scope st = Done ?st" using Suc.prems(2) sc m(1) by (cases scs) (auto simp: pop_scope_def)
  from Suc.IH [of ?st] Suc.prems(2) sc m obtain m' where
    "pop_loop n ?st = Done (?st\<lparr>scopes := drop n scs, heap := m'\<rparr>)" "heap_ok m' (env_roots (drop n scs) + R)"
      "survives m m'" "\<forall>k. room_for k m \<longrightarrow> room_for k m'" by (auto simp: vars_ok_def)
  with pop sc m survives_trans show ?case by auto
qed

text \<open>
  Popping to a scope depth returns (the loop ends) and leaves exactly the outer scopes,
  untouched; the values of the variables of the popped scopes are given up, those of the others
  and everything else that is owned keep the discipline, and the objects that are left keep
  their contents. The global scope is never popped.
\<close>
theorem pop_to_depth_correct:
  assumes "vars_ok st R" and "1 \<le> d" and "d \<le> length (scopes st)"
  shows "\<exists>m. bread_pop_to_scope_depth (int d) st =
      Done (st\<lparr>scopes := drop (length (scopes st) - d) (scopes st), heap := m\<rparr>) \<and>
    heap_ok m (env_roots (drop (length (scopes st) - d) (scopes st)) + R) \<and> survives (heap st) m"
proof -
  have "length (scopes st) - d < length (scopes st)" using assms(2,3) by simp
  from pop_loop_ok [OF assms(1) this] assms(2,3) show ?thesis
    by (simp add: bread_pop_to_scope_depth_def pop_to_scope_depth_def) blast
qed

definition sample_vars :: vars_state where
  "sample_vars = \<lparr>scopes = [[\<lparr>vname = ''s'', vval = VString (Some 0), is_const = False\<rparr>], []], heap = sample_string\<rparr>"

lemma sample_vars_ok: "vars_ok sample_vars {#}"
  using sample_string_ok by (simp add: vars_ok_def sample_vars_def)

theorem pop_to_depth_correct_witness:
  "\<exists>m. bread_pop_to_scope_depth 1 sample_vars = Done \<lparr>scopes = [[]], heap = m\<rparr> \<and> heap_ok m {#}"
  using pop_to_depth_correct [OF sample_vars_ok, of 1] by (auto simp: sample_vars_def)

section \<open>Where a name is found\<close>

lemma find_var_SomeD:
  "find_var n vs i = Some k \<Longrightarrow>
   \<exists>j. k = i + j \<and> j < length vs \<and> vname (vs ! j) = n \<and> (\<forall>v \<in> set (take j vs). vname v \<noteq> n)"
proof (induction vs arbitrary: i)
  case (Cons v vs)
  show ?case
  proof (cases "vname v = n")
    case True
    with Cons.prems show ?thesis by (intro exI [of _ 0]) simp
  next
    case False
    with Cons obtain j where "k = Suc i + j" "j < length vs" "vname (vs ! j) = n" "\<forall>v \<in> set (take j vs). vname v \<noteq> n"
      by fastforce
    with False show ?thesis by (intro exI [of _ "Suc j"]) simp
  qed
qed simp

lemma find_var_None: "find_var n vs i = None \<longleftrightarrow> (\<forall>v \<in> set vs. vname v \<noteq> n)"
  by (induction vs arbitrary: i) auto

lemma find_var_append:
  "find_var n (vs @ us) i = (case find_var n vs i of None \<Rightarrow> find_var n us (i + length vs) | Some k \<Rightarrow> Some k)"
  by (induction vs arbitrary: i) (auto split: option.split)

lemma find_var_names: "map vname vs = map vname us \<Longrightarrow> find_var n vs i = find_var n us i"
  by (induction vs us arbitrary: i rule: list_induct2') auto

lemma find_in_scopes_names: "map (map vname) vs = map (map vname) us \<Longrightarrow> find_in_scopes n vs i = find_in_scopes n us i"
proof (induction vs us arbitrary: i rule: list_induct2')
  case (4 v vs u us)
  then show ?case using find_var_names [of v u n 0] by (simp split: option.split)
qed auto

lemma find_in_scopes_SomeD:
  "find_in_scopes n scs i = Some (s, k) \<Longrightarrow>
   \<exists>j. s = i + j \<and> j < length scs \<and> k < length (scs ! j) \<and> vname (scs ! j ! k) = n \<and>
     (\<forall>v \<in> set (take k (scs ! j)). vname v \<noteq> n) \<and> (\<forall>sc \<in> set (take j scs). \<forall>v \<in> set sc. vname v \<noteq> n)"
proof (induction scs arbitrary: i)
  case (Cons sc scs)
  show ?case
  proof (cases "find_var n sc 0")
    case (Some j)
    with Cons.prems find_var_SomeD [OF Some] show ?thesis by (intro exI [of _ 0]) auto
  next
    case None
    with Cons.prems have "find_in_scopes n scs (Suc i) = Some (s, k)" by simp
    from Cons.IH [OF this] None obtain j where "s = Suc i + j" "j < length scs" "k < length (scs ! j)"
      "vname (scs ! j ! k) = n" "\<forall>v \<in> set (take k (scs ! j)). vname v \<noteq> n"
      "\<forall>sc \<in> set (take j scs). \<forall>v \<in> set sc. vname v \<noteq> n" by blast
    with None show ?thesis by (intro exI [of _ "Suc j"]) (simp add: find_var_None)
  qed
qed simp

section \<open>Changing one variable\<close>

definition in_env :: "nat \<times> nat \<Rightarrow> vars_state \<Rightarrow> bool" where
  "in_env p st \<longleftrightarrow> fst p < length (scopes st) \<and> snd p < length (scopes st ! fst p)"

lemma get_variable_in: "get_variable n st = Some p \<Longrightarrow> in_env p st \<and> vname (var_at st p) = n \<and> length n < 255"
  using find_in_scopes_SomeD [of n "scopes st" 0 "fst p" "snd p"]
  by (auto simp: get_variable_def in_env_def var_at_def split: if_splits)

lemma put_var_at:
  assumes "in_env p st" "in_env q st"
  shows "var_at (put_var p v st) q = (if q = p then v else var_at st q)"
  using assms by (cases p; cases q) (auto simp: in_env_def var_at_def put_var_def nth_list_update)

lemma put_var_heap [simp]: "heap (put_var p v st) = heap st"
  by (simp add: put_var_def)

lemma put_var_names:
  assumes "in_env p st" "vname v = vname (var_at st p)"
  shows "map (map vname) (scopes (put_var p v st)) = map (map vname) (scopes st)"
proof -
  obtain s k where p: "p = (s, k)" by (cases p)
  have "map vname ((scopes st ! s)[k := v]) = map vname (scopes st ! s)"
    using assms p by (metis fst_conv snd_conv var_at_def map_update list_update_id)
  moreover have "scopes (put_var p v st) = (scopes st)[s := (scopes st ! s)[k := v]]"
    using p by (simp add: put_var_def)
  ultimately show ?thesis by (metis map_update list_update_id)
qed

lemma mset_update: "i < length xs \<Longrightarrow> add_mset (xs ! i) (mset (xs[i := x])) = add_mset x (mset xs)"
  by (induction xs arbitrary: i) (auto simp: add_mset_commute split: nat.split)

lemma env_roots_update:
  assumes "s < length scs" "k < length (scs ! s)"
  shows "add_mset (vval (scs ! s ! k)) (env_roots (scs[s := (scs ! s)[k := v]])) = add_mset (vval v) (env_roots scs)"
  using assms
proof (induction scs arbitrary: s)
  case (Cons sc scs)
  show ?case
  proof (cases s)
    case 0
    with Cons.prems mset_update [of k "map vval sc" "vval v"] show ?thesis by (simp add: map_update)
  next
    case (Suc j)
    with Cons.prems Cons.IH [of j] show ?thesis by simp
  qed
qed simp

lemma env_roots_put:
  assumes "in_env p st"
  obtains E where "env_roots (scopes st) = add_mset (vval (var_at st p)) E"
    "\<And>v. env_roots (scopes (put_var p v st)) = add_mset (vval v) E"
proof -
  have eq: "add_mset (vval (var_at st p)) (env_roots (scopes (put_var p v st))) = add_mset (vval v) (env_roots (scopes st))" for v
    using assms env_roots_update by (simp add: in_env_def var_at_def put_var_def)
  define E where "E = env_roots (scopes st) - {#vval (var_at st p)#}"
  have "vval (var_at st p) \<in># env_roots (scopes st)"
    using assms by (auto simp: env_roots_def in_env_def var_at_def intro!: imageI bexI [of _ "scopes st ! fst p"])
  then have E: "env_roots (scopes st) = add_mset (vval (var_at st p)) E" by (simp add: E_def)
  moreover have "env_roots (scopes (put_var p v st)) = add_mset (vval v) E" for v
    using eq [of v] E by (simp add: add_mset_commute [of "vval v"])
  ultimately show thesis using that by blast
qed

section \<open>Assignment and declaration\<close>

lemma assign_var_ok:
  assumes ok: "vars_ok st R" and p: "in_env p st" and v: "v \<in># R"
    and as: "assignable (vtype (vval (var_at st p))) v" and room: "room_for (Suc (Suc (Suc n))) (heap st)"
  shows "\<exists>w m. assign_var p v st = Done (True, put_var p ((var_at st p)\<lparr>vval := w\<rparr>) (st\<lparr>heap := m\<rparr>)) \<and>
    vars_ok (put_var p ((var_at st p)\<lparr>vval := w\<rparr>) (st\<lparr>heap := m\<rparr>)) R \<and> room_for n m \<and>
    holds_value (vtype (vval (var_at st p))) v w m"
proof -
  obtain E where E: "env_roots (scopes st) = add_mset (vval (var_at st p)) E"
    "\<And>v. env_roots (scopes (put_var p v st)) = add_mset (vval v) E"
    using env_roots_put [OF p] by blast
  have "heap_ok (heap st) (add_mset (vval (var_at st p)) (E + R))" using ok E(1) by (simp add: vars_ok_def)
  moreover have "v \<in># E + R" using v by simp
  ultimately obtain w m where "coerce_and_assign (vval (var_at st p)) v (heap st) = Done (True, w, m)"
      "heap_ok m (add_mset w (E + R))" "room_for n m" "holds_value (vtype (vval (var_at st p))) v w m"
    using coerce_and_assign_ok as room by blast
  moreover have "scopes (put_var p x (st\<lparr>heap := m\<rparr>)) = scopes (put_var p x st)" for x by (simp add: put_var_def)
  ultimately show ?thesis using E(2)
    by (intro exI [of _ w] exI [of _ m]) (simp add: assign_var_def vars_ok_def)
qed

lemma put_var_lookup:
  assumes "in_env p st"
  shows "get_variable n (put_var p ((var_at st p)\<lparr>vval := w\<rparr>) (st\<lparr>heap := m\<rparr>)) = get_variable n st"
proof -
  let ?st = "put_var p ((var_at st p)\<lparr>vval := w\<rparr>) (st\<lparr>heap := m\<rparr>)"
  have "map (map vname) (scopes ?st) = map (map vname) (scopes st)"
    using put_var_names [of p "st\<lparr>heap := m\<rparr>"] assms by (simp add: in_env_def var_at_def)
  then have "find_in_scopes n (scopes ?st) 0 = find_in_scopes n (scopes st) 0" by (rule find_in_scopes_names)
  then show ?thesis by (simp add: get_variable_def)
qed

lemma heap_irrelevant [simp]: "var_at (st\<lparr>heap := m\<rparr>) q = var_at st q" "in_env q (st\<lparr>heap := m\<rparr>) = in_env q st"
  by (simp_all add: var_at_def in_env_def)

text \<open>The nearest variable of a name: the innermost scope is scope 0.\<close>

definition nearest :: "cstring \<Rightarrow> nat \<times> nat \<Rightarrow> vars_state \<Rightarrow> bool" where
  \<comment> \<open>it has the name, and every other of that name is in an outer scope, or later in the same one\<close>
  "nearest x p st \<longleftrightarrow> in_env p st \<and> vname (var_at st p) = x \<and>
     (\<forall>q. in_env q st \<and> vname (var_at st q) = x \<longrightarrow> fst p < fst q \<or> fst p = fst q \<and> snd p \<le> snd q)"

lemma find_in_scopes_None: "find_in_scopes n scs i = None \<longleftrightarrow> (\<forall>sc \<in> set scs. \<forall>v \<in> set sc. vname v \<noteq> n)"
proof (induction scs arbitrary: i)
  case (Cons sc scs)
  then show ?case using find_var_None [of n sc 0] by (cases "find_var n sc 0") auto
qed simp

lemma get_variable_is_nearest:
  assumes "get_variable x st = Some p"
  shows "nearest x p st"
proof -
  obtain s k where p: "p = (s, k)" by (cases p)
  have at: "s < length (scopes st)" "k < length (scopes st ! s)" "vname (scopes st ! s ! k) = x"
    and earlier: "\<And>v. v \<in> set (take k (scopes st ! s)) \<Longrightarrow> vname v \<noteq> x"
    and inner: "\<And>sc v. sc \<in> set (take s (scopes st)) \<Longrightarrow> v \<in> set sc \<Longrightarrow> vname v \<noteq> x"
    using assms find_in_scopes_SomeD [of x "scopes st" 0 s k] by (auto simp: p get_variable_def split: if_splits)
  have "s < fst q \<or> s = fst q \<and> k \<le> snd q" if q: "in_env q st" "vname (var_at st q) = x" for q
  proof (rule ccontr)
    assume "\<not> (s < fst q \<or> s = fst q \<and> k \<le> snd q)"
    then consider "fst q < s" | "fst q = s" "snd q < k" by linarith
    then show False
    proof cases
      case 1
      then have "scopes st ! fst q \<in> set (take s (scopes st))" using at(1) by (auto simp: in_set_conv_nth intro!: exI [of _ "fst q"])
      with inner q show False by (auto simp: in_env_def var_at_def)
    next
      case 2
      then have "scopes st ! s ! snd q \<in> set (take k (scopes st ! s))"
        using at(2) by (auto simp: in_set_conv_nth intro!: exI [of _ "snd q"])
      with earlier q 2 show False by (auto simp: var_at_def)
    qed
  qed
  with at show ?thesis by (simp add: nearest_def p in_env_def var_at_def)
qed

lemma nearest_unique:
  assumes "nearest x p st" "nearest x q st"
  shows "p = q"
proof -
  have "fst p < fst q \<or> fst p = fst q \<and> snd p \<le> snd q" "fst q < fst p \<or> fst q = fst p \<and> snd q \<le> snd p"
    using assms unfolding nearest_def by blast+
  then have "fst p = fst q" "snd p = snd q" by linarith+
  then show ?thesis by (rule prod_eqI)
qed

lemma get_variable_nearest:
  assumes "x \<noteq> []" "length x < 255"
  shows "get_variable x st = Some p \<longleftrightarrow> nearest x p st"
proof
  assume near: "nearest x p st"
  then have "var_at st p \<in> set (scopes st ! fst p)" "scopes st ! fst p \<in> set (scopes st)" "vname (var_at st p) = x"
    by (auto simp: nearest_def in_env_def var_at_def)
  then have "find_in_scopes x (scopes st) 0 \<noteq> None" unfolding find_in_scopes_None by blast
  then obtain q where "get_variable x st = Some q" using assms by (auto simp: get_variable_def)
  with nearest_unique [OF get_variable_is_nearest near] show "get_variable x st = Some p" by blast
qed (rule get_variable_is_nearest)

lemma put_var_nearest:
  assumes "in_env p st"
  shows "nearest y q (put_var p ((var_at st p)\<lparr>vval := w\<rparr>) (st\<lparr>heap := m\<rparr>)) = nearest y q st"
proof -
  let ?st = "put_var p ((var_at st p)\<lparr>vval := w\<rparr>) (st\<lparr>heap := m\<rparr>)"
  have "in_env r ?st = in_env r st" for r
    using assms by (cases p) (auto simp: in_env_def put_var_def nth_list_update)
  moreover have "vname (var_at ?st r) = vname (var_at st r)" if "in_env r st" for r
    using put_var_at [of p "st\<lparr>heap := m\<rparr>" r] assms that by simp
  ultimately show ?thesis unfolding nearest_def by metis
qed

text \<open>
  C23: assigning to a name that is visible and not constant a value that its type takes (its own
  type, any value for a variable of type nil or optional, a number for a number) succeeds; the
  variable changed is the nearest of that name (no variable of an inner scope has the name), it then
  holds the value (converted, or wrapped in a new optional), every other variable is what it was, the nearest
  variable of every name is the one it was, and the discipline is kept: the old value is given up and the new
  one is owned.
\<close>
theorem var_assign_correct:
  assumes "vars_ok st R" and "x \<noteq> []" and "length x < 255" and "nearest x p st" and "\<not> is_const (var_at st p)" and "v \<in># R"
    and "assignable (vtype (vval (var_at st p))) v" and "room_for 3 (heap st)"
  shows "\<exists>w st'. bread_var_assign x v st = Done (True, st') \<and> vars_ok st' R \<and>
    var_at st' p = (var_at st p)\<lparr>vval := w\<rparr> \<and>
    holds_value (vtype (vval (var_at st p))) v w (heap st') \<and>
    (\<forall>q. in_env q st \<and> q \<noteq> p \<longrightarrow> var_at st' q = var_at st q) \<and>
    (\<forall>y q. nearest y q st' \<longleftrightarrow> nearest y q st)"
proof -
  have found: "get_variable x st = Some p" using get_variable_nearest assms(2-4) by blast
  note p = get_variable_in [OF found]
  have room: "room_for (Suc (Suc (Suc 0))) (heap st)" using assms(8) by (simp add: eval_nat_numeral)
  obtain w m where w: "assign_var p v st = Done (True, put_var p ((var_at st p)\<lparr>vval := w\<rparr>) (st\<lparr>heap := m\<rparr>))"
      "vars_ok (put_var p ((var_at st p)\<lparr>vval := w\<rparr>) (st\<lparr>heap := m\<rparr>)) R"
      "holds_value (vtype (vval (var_at st p))) v w m"
    using assign_var_ok [OF assms(1) conjunct1 [OF p] assms(6,7) room] by blast
  let ?st = "put_var p ((var_at st p)\<lparr>vval := w\<rparr>) (st\<lparr>heap := m\<rparr>)"
  have at: "var_at ?st q = (if q = p then (var_at st p)\<lparr>vval := w\<rparr> else var_at st q)" if "in_env q st" for q
    using put_var_at [of p "st\<lparr>heap := m\<rparr>" q] p that by simp
  have "bread_var_assign x v st = Done (True, ?st)"
    using w(1) found assms(5) p by (simp add: bread_var_assign_def bread_assign_variable_from_expr_result_def)
  with w at p put_var_nearest show ?thesis by (intro exI [of _ w] exI [of _ ?st]) simp
qed

lemma sample_room: "room_for 3 sample_string"
proof (rule room_for_small [of _ 1])
  fix a show "rc_of sample_string a \<le> 1"
    by (cases a) (auto simp: rc_of_def get_obj_def sample_string_def bread_memory_alloc_def
        bread_memory_init_def split: option.split)
qed simp

definition sample_env :: vars_state where
  "sample_env = \<lparr>scopes = [[\<lparr>vname = ''s'', vval = VNil, is_const = False\<rparr>]], heap = sample_string\<rparr>"

definition sample_shadow :: vars_state where
  \<comment> \<open>two variables \<open>s\<close>, of which the inner one is behind another variable\<close>
  "sample_shadow = \<lparr>scopes = [[\<lparr>vname = ''t'', vval = VNil, is_const = False\<rparr>, \<lparr>vname = ''s'', vval = VNil, is_const = False\<rparr>],
     [\<lparr>vname = ''s'', vval = VNil, is_const = False\<rparr>]], heap = sample_string\<rparr>"

theorem var_assign_correct_witness:
  "\<exists>st'. bread_var_assign ''s'' (VString (Some 0)) sample_shadow = Done (True, st') \<and>
     vval (var_at st' (0, 1)) = VString (Some 0) \<and> vval (var_at st' (1, 0)) = VNil"
proof -
  have "get_variable ''s'' sample_shadow = Some (0, 1)" by code_simp
  then have near: "nearest ''s'' (0, 1) sample_shadow" by (rule get_variable_is_nearest)
  have "vars_ok sample_shadow {#VString (Some 0)#}" "room_for 3 (heap sample_shadow)"
      "var_at sample_shadow (0, 1) = \<lparr>vname = ''s'', vval = VNil, is_const = False\<rparr>" "in_env (1, 0) sample_shadow"
      "vval (var_at sample_shadow (1, 0)) = VNil"
    using sample_string_ok sample_room by (simp_all add: vars_ok_def get_variable_def var_at_def sample_shadow_def in_env_def
        add_mset_commute [of "VString (Some 0)" VNil])
  note s = this
  from var_assign_correct [OF s(1) _ _ near _ _ _ s(2), of "VString (Some 0)"] s(3-5) show ?thesis
    by (auto simp: assignable_def holds_value_def)
qed


text \<open>Declaring\<close>

lemma retain_zero:
  assumes "heap_ok m R" "room_for n m" "n < 2 ^ 32 - 1"
  shows "\<exists>w m'. retain_value_by_type (zero_of t) m = Done (w, m') \<and> vtype w = t \<and> heap_ok m' (add_mset w R) \<and> room_for n m'"
proof (cases "t = TYPE_STRING")
  case True
  obtain a m' where al: "bread_memory_alloc (BString \<lparr>sdata = [], interned = False\<rparr>) m = (a, m')" by fastforce
  have "heap_ok m' (add_mset (VString (Some a)) R)" by (rule alloc_ok [OF _ al]) (use assms(1) in simp_all)
  with True al alloc_room [OF al assms(2,3)] show ?thesis
    by (auto simp: retain_value_by_type_def bread_string_new_def bread_string_new_len_def)
next
  case False
  then have "zero_of t \<noteq> VString None" by (cases t) auto
  then show ?thesis using assms by (simp add: retain_value_by_type_def retain_of_clone bread_value_clone_def bread_object_retain_def)
qed

definition can_declare :: "cstring \<Rightarrow> vars_state \<Rightarrow> bool" where
  \<comment> \<open>a name that fits, not in the innermost scope, which is not full\<close>
  "can_declare x st \<longleftrightarrow> x \<noteq> [] \<and> length x < 255 \<and> scopes st \<noteq> [] \<and> length (hd (scopes st)) < MAX_VARS \<and>
     (\<forall>y \<in> set (hd (scopes st)). vname y \<noteq> x)"

lemma declare_zero:
  assumes ok: "vars_ok st R" and can: "can_declare x st" and room: "room_for n (heap st)" "n < 2 ^ 32 - 1"
  shows "\<exists>w m st1. declare_variable_raw x (zero_of t) c st = Done (True, st1) \<and> vtype w = t \<and> vars_ok st1 R \<and>
    st1 = st\<lparr>scopes := (hd (scopes st) @ [\<lparr>vname = x, vval = w, is_const = c\<rparr>]) # tl (scopes st), heap := m\<rparr> \<and>
    room_for n m"
proof -
  obtain w m where w: "retain_value_by_type (zero_of t) (heap st) = Done (w, m)" "vtype w = t"
      "heap_ok m (add_mset w (env_roots (scopes st) + R))" "room_for n m"
    using retain_zero [OF _ room] ok unfolding vars_ok_def by blast
  obtain sc outer where sc: "scopes st = sc # outer" using can by (cases "scopes st") (auto simp: can_declare_def)
  with w can have "declare_variable_raw x (zero_of t) c st =
      Done (True, st\<lparr>scopes := (sc @ [\<lparr>vname = x, vval = w, is_const = c\<rparr>]) # outer, heap := m\<rparr>)"
    by (auto simp: declare_variable_raw_def can_declare_def list_ex_iff)
  with w sc show ?thesis by (auto simp: vars_ok_def)
qed

lemma get_declared:
  assumes "can_declare x st" "scopes st1 = (hd (scopes st) @ [\<lparr>vname = x, vval = w, is_const = c\<rparr>]) # scs"
  shows "get_variable x st1 = Some (0, length (hd (scopes st)))"
    "var_at st1 (0, length (hd (scopes st))) = \<lparr>vname = x, vval = w, is_const = c\<rparr>"
    "in_env (0, length (hd (scopes st))) st1"
proof -
  have "find_var x (hd (scopes st)) 0 = None" using assms(1) by (simp add: can_declare_def find_var_None)
  then show "get_variable x st1 = Some (0, length (hd (scopes st)))"
    using assms by (auto simp: get_variable_def can_declare_def find_var_append)
qed (use assms(2) in \<open>auto simp: var_at_def in_env_def\<close>)

text \<open>
  Declaring a variable of a type with an initial value that the type takes, under a name that
  is not yet in the innermost scope, succeeds; the name is then the new variable, a constant or
  not as declared, and it holds the value (a constant too: the initial value is stored in spite
  of the constness); the outer scopes and the variables already in the scope are what they were.
\<close>
theorem var_decl_correct:
  assumes "vars_ok st R" and "can_declare x st" and "v \<in># R" and "assignable t v" and "room_for 3 (heap st)"
  shows "\<exists>w st'. bread_var_decl x t c (Some v) st = Done (True, st') \<and> vars_ok st' R \<and>
    get_variable x st' = Some (0, length (hd (scopes st))) \<and> holds_value t v w (heap st') \<and>
    scopes st' = (hd (scopes st) @ [\<lparr>vname = x, vval = w, is_const = c\<rparr>]) # tl (scopes st)"
proof -
  have room: "room_for (Suc (Suc (Suc 0))) (heap st)" using assms(5) by (simp add: eval_nat_numeral)
  obtain w0 m0 st1 where d: "declare_variable_raw x (zero_of t) c st = Done (True, st1)" "vtype w0 = t" "vars_ok st1 R"
      "st1 = st\<lparr>scopes := (hd (scopes st) @ [\<lparr>vname = x, vval = w0, is_const = c\<rparr>]) # tl (scopes st), heap := m0\<rparr>"
      "room_for (Suc (Suc (Suc 0))) m0"
    using declare_zero [OF assms(1,2) room] by fastforce
  let ?p = "(0, length (hd (scopes st)))"
  have s1: "scopes st1 = (hd (scopes st) @ [\<lparr>vname = x, vval = w0, is_const = c\<rparr>]) # tl (scopes st)" using d(4) by simp
  note g = get_declared [OF assms(2) s1]
  let ?put = "\<lambda>w m. put_var ?p ((var_at st1 ?p)\<lparr>vval := w\<rparr>) (st1\<lparr>heap := m\<rparr>)"
  obtain w m where w: "assign_var ?p v st1 = Done (True, ?put w m)" "vars_ok (?put w m) R" "holds_value t v w m"
    using assign_var_ok [OF d(3) g(3) assms(3), of 0] assms(4) d(2,4,5) g(2) by auto
  have "scopes (?put w m) = (hd (scopes st) @ [\<lparr>vname = x, vval = w, is_const = c\<rparr>]) # tl (scopes st)"
    using s1 g(2) by (simp add: put_var_def)
  moreover have "bread_var_decl x t c (Some v) st = Done (True, ?put w m)"
    using d(1) w(1) g(1) by (simp add: bread_var_decl_def bread_init_variable_from_expr_result_def)
  ultimately show ?thesis using w put_var_lookup [OF g(3)] g(1) by (intro exI [of _ w] exI [of _ "?put w m"]) simp
qed

theorem var_decl_correct_witness:
  "\<exists>st'. bread_var_decl ''t'' TYPE_STRING True (Some (VString (Some 0))) sample_env = Done (True, st') \<and>
     get_variable ''t'' st' = Some (0, 1)"
proof -
  have "vars_ok sample_env {#VString (Some 0)#}" "can_declare ''t'' sample_env" "room_for 3 (heap sample_env)"
    using sample_string_ok sample_room by (simp_all add: vars_ok_def can_declare_def sample_env_def MAX_VARS_def
        add_mset_commute [of "VString (Some 0)" VNil])
  from var_decl_correct [OF this(1,2) _ _ this(3), of "VString (Some 0)" TYPE_STRING True] show ?thesis
    by (auto simp: assignable_def sample_env_def)
qed

section \<open>Runs of the scope operations\<close>

text \<open>
  One call of the runtime that changes or reads variables. The values come from anywhere: the
  facts below do not depend on who owns them.
\<close>

inductive vars_step :: "vars_state \<Rightarrow> vars_state \<Rightarrow> bool" where
  step_push: "bread_push_scope st = Done st' \<Longrightarrow> vars_step st st'"
| step_pop: "bread_pop_scope st = Done st' \<Longrightarrow> vars_step st st'"
| step_pop_to: "bread_pop_to_scope_depth d st = Done st' \<Longrightarrow> vars_step st st'"
| step_decl: "bread_var_decl x t c init st = Done (ok, st') \<Longrightarrow> vars_step st st'"
| step_decl_if_missing: "bread_var_decl_if_missing x t c init st = Done (ok, st') \<Longrightarrow> vars_step st st'"
| step_assign: "bread_var_assign x v st = Done (ok, st') \<Longrightarrow> vars_step st st'"
| step_load: "bread_var_load x st = Done (r, st') \<Longrightarrow> vars_step st st'"

inductive vars_steps :: "vars_state \<Rightarrow> vars_state \<Rightarrow> bool" where
  steps_refl: "vars_steps st st"
| steps_step: "vars_steps st st1 \<Longrightarrow> vars_step st1 st2 \<Longrightarrow> vars_steps st st2"

definition scope_ok :: "scope \<Rightarrow> bool" where
  "scope_ok sc \<longleftrightarrow> length sc \<le> MAX_VARS \<and> distinct (map vname sc) \<and> (\<forall>v \<in> set sc. length (vname v) < 255)"

definition scopes_ok :: "scope list \<Rightarrow> bool" where
  "scopes_ok scs \<longleftrightarrow> 1 \<le> length scs \<and> length scs \<le> MAX_SCOPES \<and> (\<forall>sc \<in> set scs. scope_ok sc)"

inductive scope_change :: "scope list \<Rightarrow> scope list \<Rightarrow> bool" where
  \<comment> \<open>what a call can do to the scopes\<close>
  no_change: "scope_change scs scs"
| opened: "length scs < MAX_SCOPES \<Longrightarrow> scope_change scs ([] # scs)"
| popped: "n < length scs \<Longrightarrow> scope_change scs (drop n scs)"
| declared: "length sc < MAX_VARS \<Longrightarrow> length (vname v) < 255 \<Longrightarrow> vname v \<notin> vname ` set sc \<Longrightarrow>
    scope_change (sc # scs) ((sc @ [v]) # scs)"
| assigned: "s < length scs \<Longrightarrow> i < length (scs ! s) \<Longrightarrow> \<not> is_const (scs ! s ! i) \<Longrightarrow>
    scope_change scs (scs[s := (scs ! s)[i := (scs ! s ! i)\<lparr>vval := w\<rparr>]])"

lemma fail_vars_scopes: "fail_vars t msg x st = Done (y, st') \<Longrightarrow> scopes st' = scopes st"
  by (auto simp: fail_vars_def bnd_Done_iff)

lemma pop_scope_scopes:
  "pop_scope st = Done st' \<Longrightarrow> scopes st' = (if length (scopes st) \<le> 1 then scopes st else tl (scopes st))"
  by (auto simp: pop_scope_def bnd_Done_iff dest: fail_vars_scopes split: if_splits)

lemma pop_loop_scopes:
  "pop_loop n st = Done st' \<Longrightarrow> n < length (scopes st) \<Longrightarrow> scopes st' = drop n (scopes st)"
proof (induction n arbitrary: st)
  case (Suc n)
  then obtain st1 where st1: "pop_scope st = Done st1" "pop_loop n st1 = Done st'" by (auto simp: bnd_Done_iff)
  with Suc.prems have "scopes st1 = tl (scopes st)" by (auto dest: pop_scope_scopes)
  with Suc.IH [OF st1(2)] Suc.prems show ?case by (simp add: drop_Suc)
qed simp

lemma pop_change:
  assumes "scopes st \<noteq> []"
  shows "pop_scope st = Done st' \<Longrightarrow> scope_change (scopes st) (scopes st')"
    and "pop_to_scope_depth d st = Done st' \<Longrightarrow> scope_change (scopes st) (scopes st')"
proof -
  assume "pop_scope st = Done st'"
  from pop_scope_scopes [OF this] popped [of 1 "scopes st"] no_change show "scope_change (scopes st) (scopes st')"
    by (auto simp: drop_Suc)
next
  assume a: "pop_to_scope_depth d st = Done st'"
  show "scope_change (scopes st) (scopes st')"
  proof (cases "d < 1 \<or> d > int (length (scopes st))")
    case True
    with a show ?thesis by (auto simp: pop_to_scope_depth_def bnd_Done_iff no_change dest!: fail_vars_scopes)
  next
    case False
    then have "pop_loop (length (scopes st) - nat d) st = Done st'" "length (scopes st) - nat d < length (scopes st)"
      using a by (auto simp: pop_to_scope_depth_def)
    from pop_loop_scopes [OF this] popped [OF this(2)] show ?thesis by simp
  qed
qed

lemma assign_scopes:
  "assign_var p v st = Done (ok, st') \<Longrightarrow>
   \<exists>w. scopes st' = (scopes st)[fst p := (scopes st ! fst p)[snd p := (var_at st p)\<lparr>vval := w\<rparr>]]"
  by (auto simp: assign_var_def bnd_Done_iff put_var_def)

lemma var_assign_change:
  assumes "bread_var_assign x v st = Done (ok, st')"
  shows "scope_change (scopes st) (scopes st')"
proof -
  consider "scopes st' = scopes st"
    | p where "get_variable x st = Some p" "\<not> is_const (var_at st p)" "assign_var p v st = Done (ok, st')"
    using assms
    by (auto simp: bread_var_assign_def bread_assign_variable_from_expr_result_def dest: fail_vars_scopes
        split: if_splits option.splits)
  then show ?thesis
  proof cases
    case 2
    from assign_scopes [OF 2(3)] get_variable_in [OF 2(1)] 2(2) show ?thesis
      by (auto simp: in_env_def var_at_def intro: assigned)
  qed (simp add: no_change)
qed

lemma declare_raw_scopes:
  assumes "declare_variable_raw x z c st = Done (ok, st')"
  shows "\<not> ok \<and> scopes st' = scopes st \<or>
    ok \<and> (\<exists>w sc outer. scopes st = sc # outer \<and> scopes st' = (sc @ [\<lparr>vname = x, vval = w, is_const = c\<rparr>]) # outer \<and>
      length sc < MAX_VARS \<and> length x < 255 \<and> x \<notin> vname ` set sc)"
  using assms
  by (auto simp: declare_variable_raw_def fail_vars_def bnd_Done_iff list_ex_iff split: list.splits if_splits)

lemma var_decl_change:
  assumes "bread_var_decl x t c init st = Done (ok, st')"
  shows "scope_change (scopes st) (scopes st')"
proof -
  obtain ok1 st1 where d: "declare_variable_raw x (zero_of t) c st = Done (ok1, st1)"
    "(if \<not> ok1 then Done (False, st1)
       else (case init of None \<Rightarrow> Done (True, st1) | Some v \<Rightarrow> bread_init_variable_from_expr_result x v st1)) = Done (ok, st')"
    using assms by (auto simp: bread_var_decl_def bnd_Done_iff)
  show ?thesis
  proof (cases ok1)
    case False
    with d declare_raw_scopes [OF d(1)] show ?thesis by (auto intro: no_change)
  next
    case True
    then obtain w sc outer where s: "scopes st = sc # outer"
        "scopes st1 = (sc @ [\<lparr>vname = x, vval = w, is_const = c\<rparr>]) # outer"
        "length sc < MAX_VARS" "length x < 255" "x \<notin> vname ` set sc"
      using declare_raw_scopes [OF d(1)] by blast
    have p: "p = (0, length sc)" if "get_variable x st1 = Some p" for p
      using that s find_var_None [of x sc 0]
      by (auto simp: get_variable_def find_var_append split: if_splits option.splits)
    have "\<exists>w. scopes st' = (sc @ [\<lparr>vname = x, vval = w, is_const = c\<rparr>]) # outer"
      using d(2) True s(2) p assign_scopes [of "(0, length sc)" _ st1]
      by (fastforce simp: bread_init_variable_from_expr_result_def var_at_def split: option.splits)
    with s declared show ?thesis by fastforce
  qed
qed

lemma vars_step_change: "vars_step st st' \<Longrightarrow> scopes st \<noteq> [] \<Longrightarrow> scope_change (scopes st) (scopes st')"
proof (induction rule: vars_step.induct)
  case (step_push st st')
  then show ?case
    by (auto simp: bread_push_scope_def push_scope_def bnd_Done_iff no_change opened dest!: fail_vars_scopes
        split: if_splits)
next
  case (step_decl_if_missing x t c init st ok st')
  then show ?case by (auto simp: bread_var_decl_if_missing_def no_change dest: var_decl_change split: if_splits)
next
  case (step_load x st r st')
  then have "scopes st' = scopes st"
    by (auto simp: bread_var_load_def bnd_Done_iff dest: fail_vars_scopes split: option.splits)
  then show ?case by (simp add: no_change)
qed (auto simp: bread_pop_scope_def bread_pop_to_scope_depth_def intro: pop_change var_decl_change var_assign_change)

lemma scope_ok_update: "scope_ok sc \<Longrightarrow> i < length sc \<Longrightarrow> scope_ok (sc[i := (sc ! i)\<lparr>vval := w\<rparr>])"
proof -
  assume sc: "scope_ok sc" "i < length sc"
  then have "map vname (sc[i := (sc ! i)\<lparr>vval := w\<rparr>]) = map vname sc"
    by (metis list_update_id map_update variable.select_convs(1) variable.surjective variable.update_convs(2))
  then have "distinct (map vname (sc[i := (sc ! i)\<lparr>vval := w\<rparr>]))"
      "vname ` set (sc[i := (sc ! i)\<lparr>vval := w\<rparr>]) = vname ` set sc"
    using sc by (simp_all add: scope_ok_def flip: set_map)
  with sc show ?thesis unfolding scope_ok_def by (metis image_iff length_list_update)
qed

lemma scope_change_ok: "scope_change scs scs' \<Longrightarrow> scopes_ok scs \<Longrightarrow> scopes_ok scs'"
proof (induction rule: scope_change.induct)
  case (declared sc v scs)
  then show ?case by (auto simp: scopes_ok_def scope_ok_def)
next
  case (assigned s scs i w)
  have "scope_ok sc" if "sc \<in> set (scs[s := (scs ! s)[i := (scs ! s ! i)\<lparr>vval := w\<rparr>]])" for sc
    using that assigned scope_ok_update [of "scs ! s" i w] set_update_subset_insert [of scs s]
    by (auto simp: scopes_ok_def)
  with assigned show ?case by (simp add: scopes_ok_def)
qed (auto simp: scopes_ok_def scope_ok_def dest: in_set_dropD)

text \<open>
  C36: along every sequence of scope operations, successful or not, there is always a global scope
  and never more than 64 scopes, no scope has more than 256 variables or two of one name, and
  every name fits its buffer.
\<close>
theorem scopes_stay_ok:
  assumes "vars_steps st st'" and "scopes_ok (scopes st)"
  shows "scopes_ok (scopes st')"
  using assms
proof (induction rule: vars_steps.induct)
  case (steps_step st st1 st2)
  then have "scopes_ok (scopes st1)" by blast
  with vars_step_change [OF steps_step.hyps(2)] scope_change_ok show ?case by (fastforce simp: scopes_ok_def)
qed

theorem scopes_stay_ok_witness:
  "\<exists>st'. bread_push_scope (init_variables sample_env) = Done st' \<and> scopes_ok (scopes st') \<and> length (scopes st') = 2"
proof -
  obtain st' where st': "bread_push_scope (init_variables sample_env) = Done st'" "length (scopes st') = 2"
    by (auto simp: bread_push_scope_def push_scope_def init_variables_def MAX_SCOPES_def)
  have "scopes_ok (scopes (init_variables sample_env))"
    by (simp add: scopes_ok_def scope_ok_def init_variables_def MAX_SCOPES_def)
  from scopes_stay_ok [OF steps_step [OF steps_refl step_push [OF st'(1)]] this] st' show ?thesis by blast
qed

lemma last_nth_update: "last (xs[s := x]) = (if xs = [] then last [] else if s = length xs - 1 then x else last xs)"
  by (cases "xs = []") (auto simp: last_conv_nth nth_list_update)

lemma scope_change_global:
  assumes "scope_change scs scs'" "scs \<noteq> []" "j < length (last scs)" "is_const (last scs ! j)"
  shows "scs' \<noteq> [] \<and> j < length (last scs') \<and> last scs' ! j = last scs ! j"
  using assms
proof (cases rule: scope_change.cases)
  case (assigned s i w)
  then show ?thesis using assms(2-4) by (auto simp: last_nth_update last_conv_nth nth_list_update)
qed (auto simp: last_drop nth_append)

text \<open>
  C31: a constant of the global scope keeps its name and value along every sequence of scope
  operations: no assignment, declaration (with an initial value, of any name) or pop changes it.
\<close>
theorem global_constants_stay:
  assumes "vars_steps st st'" and "scopes st \<noteq> []" and "j < length (last (scopes st))"
    and "is_const (last (scopes st) ! j)"
  shows "scopes st' \<noteq> [] \<and> j < length (last (scopes st')) \<and> last (scopes st') ! j = last (scopes st) ! j"
  using assms
proof (induction rule: vars_steps.induct)
  case (steps_step st st1 st2)
  then have st1: "scopes st1 \<noteq> []" "j < length (last (scopes st1))" "last (scopes st1) ! j = last (scopes st) ! j"
    by blast+
  with scope_change_global [OF vars_step_change [OF steps_step.hyps(2) st1(1)] st1(1,2)] steps_step.prems(3)
  show ?case by simp
qed simp

definition sample_const :: vars_state where
  "sample_const = \<lparr>scopes = [[\<lparr>vname = ''c'', vval = VBool True, is_const = True\<rparr>]], heap = sample_string\<rparr>"

theorem global_constants_stay_witness:
  "\<exists>st'. bread_var_decl_if_missing ''c'' TYPE_INT False (Some (VInt 1)) sample_const = Done (True, st') \<and>
     vval (last (scopes st') ! 0) = VBool True"
proof -
  obtain st' where "bread_var_decl_if_missing ''c'' TYPE_INT False (Some (VInt 1)) sample_const = Done (True, st')"
    by (auto simp: bread_var_decl_if_missing_def get_variable_def sample_const_def)
  from this global_constants_stay [OF steps_step [OF steps_refl step_decl_if_missing [OF this]], of 0] show ?thesis
    by (simp add: sample_const_def)
qed

end
