(* ===== verification/BreadAST.thy ===== *)
theory BreadAST
  imports BreadTypes
begin

text \<open>
  The syntax trees of \<^verbatim>\<open>src/include/compiler/ast/ast.h\<close>. A value of \<open>ASTExpr\<close> is a pointer
  to an expression: \<open>Null\<close>, or a node. A node carries its type tag and what the analyses attach to
  it (\<^verbatim>\<open>stability_info\<close>, \<^verbatim>\<open>escape_info\<close>, NULL being \<open>None\<close>); source locations, which
  only messages use, and \<^verbatim>\<open>opt_hints\<close> of expressions, which nothing sets, are left out.
  Arrays with their counts are lists. Trees are not shared, so a pass that writes into nodes
  returns the changed tree.
\<close>

section \<open>What the analyses attach\<close>

datatype EscapeKind = ESCAPE_UNKNOWN | ESCAPE_NONE | ESCAPE_RETURN | ESCAPE_GLOBAL | ESCAPE_PARAMETER | ESCAPE_HEAP

record EscapeInfo =
  escape_kind :: EscapeKind
  can_stack_allocate :: bool
  lifetime_end :: int
  ref_count :: int

datatype TypeStability = STABILITY_UNKNOWN | STABILITY_STABLE | STABILITY_UNSTABLE | STABILITY_CONDITIONAL

record TypeStabilityInfo =
  stab_type :: VarType
  stability :: TypeStability
  is_constant :: bool
  is_local :: bool
  mutation_count :: nat
  usage_count :: nat

datatype InlineHeuristic = INLINE_NEVER | INLINE_COLD | INLINE_NORMAL | INLINE_HOT | INLINE_ALWAYS

record FunctionOptInfo =
  inline_hint :: InlineHeuristic
  instruction_count :: nat
  call_count :: nat
  is_recursive :: bool
  is_leaf :: bool
  parameter_count :: nat

record OptimizationHints =
  is_hot_path :: bool
  is_cold_path :: bool
  branch_probability :: nat
  can_speculate :: bool
  is_pure :: bool

record ASTTypeTag =
  is_known :: bool
  tag_type :: VarType
  type_desc :: "TypeDescriptor option"

record ast_note =
  tag :: ASTTypeTag
  stability_info :: "TypeStabilityInfo option"
  escape_info :: "EscapeInfo option"

section \<open>Expressions\<close>

datatype ASTExpr = Null | Expr (expr_note: ast_note) (expr_node: ast_node)
and ast_node =
    ENil
  | EBool bool
  | EInt "64 word"
  | EDouble "64 word"
  | EString cstring
  | EVar cstring
  | ESelf
  | ESuper
  | EBinary char ASTExpr ASTExpr
  | EUnary char ASTExpr
  | ECall cstring "ASTExpr list"
  | EArray "ASTExpr list"
  | EDict "(ASTExpr \<times> ASTExpr) list"
  | EIndex ASTExpr ASTExpr
  | EMember ASTExpr cstring bool
  | EMethodCall ASTExpr cstring "ASTExpr list" bool
  | EStringLiteral cstring
  | EArrayLiteral "ASTExpr list" VarType
  | EStructLiteral cstring "(cstring \<times> ASTExpr) list"
  | EClassLiteral cstring "(cstring \<times> ASTExpr) list"

section \<open>Statements\<close>

record func_sig =
  func_name :: cstring
  func_params :: "(cstring \<times> TypeDescriptor option \<times> ASTExpr) list" \<comment> \<open>the default is \<open>Null\<close> when there is none\<close>
  return_type :: VarType
  return_type_desc :: "TypeDescriptor option"

datatype ASTStmt = Stmt (stmt_hints: "OptimizationHints option") (stmt_node: stmt_node)
and stmt_node =
    SVarDecl cstring VarType "TypeDescriptor option" ASTExpr bool
  | SVarAssign cstring ASTExpr char
  | SIndexAssign ASTExpr ASTExpr ASTExpr char
  | SMemberAssign ASTExpr cstring ASTExpr char
  | SPrint ASTExpr
  | SExpr ASTExpr
  | SIf ASTExpr "ASTStmt list option" "ASTStmt list option"
  | SWhile ASTExpr "ASTStmt list option"
  | SFor cstring ASTExpr "ASTStmt list option"
  | SForIn cstring ASTExpr "ASTStmt list option"
  | SBreak
  | SContinue
  | SFuncDecl func_decl
  | SStructDecl cstring "(cstring \<times> TypeDescriptor option) list"
  | SClassDecl cstring "cstring option" "(cstring \<times> TypeDescriptor option) list" "func_decl list" "func_decl option"
  | SReturn ASTExpr
  | SImport cstring "cstring option" bool "(cstring \<times> cstring option) list"
  | SExport bool "(cstring \<times> cstring option) list"
and func_decl = FuncDecl (func_sig: func_sig) (func_body: "ASTStmt list option") (opt_info: "FunctionOptInfo option")

section \<open>Making nodes\<close>

definition no_tag :: ASTTypeTag where
  "no_tag = \<lparr>is_known = False, tag_type = TYPE_NIL, type_desc = None\<rparr>"

definition known_tag :: "VarType \<Rightarrow> ASTTypeTag" where
  "known_tag t = \<lparr>is_known = True, tag_type = t, type_desc = None\<rparr>"

definition new_note :: ast_note where
  "new_note = \<lparr>tag = no_tag, stability_info = None, escape_info = None\<rparr>"

definition ast_expr_new :: "ast_node \<Rightarrow> ASTExpr" where
  "ast_expr_new k = Expr new_note k"

definition ast_expr_tagged :: "ast_node \<Rightarrow> VarType \<Rightarrow> ASTExpr" where
  \<comment> \<open>a new node whose tag is then set\<close>
  "ast_expr_tagged k t = Expr (new_note\<lparr>tag := known_tag t\<rparr>) k"

definition ast_stmt_new :: "stmt_node \<Rightarrow> ASTStmt" where
  "ast_stmt_new k = Stmt None k"

section \<open>Recursion over trees\<close>

lemma member_size: "x \<in> set xs \<Longrightarrow> size x \<le> size_list size xs"
  by (rule size_list_estimation') auto

lemma pair_size:
  "(a, b) \<in> set ps \<Longrightarrow> size a \<le> size_list (size_prod size size) ps"
  "(a, b) \<in> set ps \<Longrightarrow> size b \<le> size_list (size_prod size size) ps"
  by (erule size_list_estimation', simp)+

lemma snd_size: "(a, b) \<in> set ps \<Longrightarrow> size b \<le> size_list (size_prod (\<lambda>_. 0) size) ps"
  by (erule size_list_estimation', simp)

lemmas tree_sizes = member_size pair_size snd_size

definition stmts_of :: "ASTStmt list option \<Rightarrow> ASTStmt list" where
  \<comment> \<open>the statements of a branch; none when the branch is NULL\<close>
  "stmts_of b = (case b of None \<Rightarrow> [] | Some ss \<Rightarrow> ss)"

lemma stmts_of_simps [simp]: "stmts_of None = []" "stmts_of (Some ss) = ss"
  by (simp_all add: stmts_of_def)

lemma stmts_of_size: "size_list size (stmts_of b) < size_option (size_list size) b"
  by (cases b) auto

lemma stmt_in_size: "s \<in> set (stmts_of b) \<Longrightarrow> size s < size_option (size_list size) b"
  using member_size [of s "stmts_of b"] stmts_of_size [of b] by simp

definition branch :: "ASTStmt list option \<Rightarrow> ASTStmt list \<Rightarrow> ASTStmt list option" where
  \<comment> \<open>the branch with its statements changed; NULL stays NULL\<close>
  "branch b ss = (case b of None \<Rightarrow> None | Some _ \<Rightarrow> Some ss)"

fun func_stmts :: "func_decl \<Rightarrow> ASTStmt list" where
  "func_stmts (FuncDecl sig b i) = stmts_of b"

lemma func_stmts_size: "size_list size (func_stmts f) < size f"
proof (cases f)
  case (FuncDecl sig b i)
  have "size_list size (stmts_of b) < size_option (size_list size) b" by (rule stmts_of_size)
  then show ?thesis by (simp add: FuncDecl)
qed

lemma stmts_of_bound: "size_option (size_list size) b \<le> n \<Longrightarrow> size_list size (stmts_of b) < n"
  using stmts_of_size [of b] by simp

lemma func_stmts_bound: "size f \<le> n \<Longrightarrow> size_list size (func_stmts f) < n"
  using func_stmts_size [of f] by simp

section \<open>Children and nodes of an expression\<close>

fun children :: "ast_node \<Rightarrow> ASTExpr list" where
  "children (EBinary op l r) = [l, r]"
| "children (EUnary op e) = [e]"
| "children (ECall f args) = args"
| "children (EArray es) = es"
| "children (EDict kvs) = concat (map (\<lambda>(k, v). [k, v]) kvs)"
| "children (EIndex t i) = [t, i]"
| "children (EMember t m c) = [t]"
| "children (EMethodCall t m args c) = t # args"
| "children (EArrayLiteral es t) = es"
| "children (EStructLiteral s fs) = map snd fs"
| "children (EClassLiteral s fs) = map snd fs"
| "children _ = []"

fun map_children :: "(ASTExpr \<Rightarrow> ASTExpr) \<Rightarrow> ast_node \<Rightarrow> ast_node" where
  "map_children f (EBinary op l r) = EBinary op (f l) (f r)"
| "map_children f (EUnary op e) = EUnary op (f e)"
| "map_children f (ECall g args) = ECall g (map f args)"
| "map_children f (EArray es) = EArray (map f es)"
| "map_children f (EDict kvs) = EDict (map (\<lambda>(k, v). (f k, f v)) kvs)"
| "map_children f (EIndex t i) = EIndex (f t) (f i)"
| "map_children f (EMember t m c) = EMember (f t) m c"
| "map_children f (EMethodCall t m args c) = EMethodCall (f t) m (map f args) c"
| "map_children f (EArrayLiteral es t) = EArrayLiteral (map f es) t"
| "map_children f (EStructLiteral s fs) = EStructLiteral s (map (\<lambda>(n, e). (n, f e)) fs)"
| "map_children f (EClassLiteral s fs) = EClassLiteral s (map (\<lambda>(n, e). (n, f e)) fs)"
| "map_children f k = k"

lemma children_size: "x \<in> set (children k) \<Longrightarrow> size x < size k"
  by (cases k) (auto dest: tree_sizes)

lemma map_children_cong [fundef_cong]:
  "k = k' \<Longrightarrow> (\<And>x. x \<in> set (children k') \<Longrightarrow> f x = g x) \<Longrightarrow> map_children f k = map_children g k'"
  by (cases k') (auto, force+)

lemma children_map_children [simp]: "children (map_children f k) = map f (children k)"
  by (cases k) (auto simp: map_concat comp_def split_def)

lemma map_children_comp [simp]: "map_children f (map_children g k) = map_children (f \<circ> g) k"
  by (cases k) auto

function subexprs :: "ASTExpr \<Rightarrow> ASTExpr list" where
  \<comment> \<open>the nodes of a tree, the root first\<close>
  "subexprs Null = []"
| "subexprs (Expr nt k) = Expr nt k # concat (map subexprs (children k))"
  by pat_completeness auto
termination
  by (relation "measure size") (auto dest: children_size)

function map_notes :: "(ast_note \<Rightarrow> ast_note) \<Rightarrow> ASTExpr \<Rightarrow> ASTExpr" where
  \<comment> \<open>the same tree with other notes\<close>
  "map_notes f Null = Null"
| "map_notes f (Expr nt k) = Expr (f nt) (map_children (map_notes f) k)"
  by pat_completeness auto
termination
  by (relation "measure (size \<circ> snd)") (auto dest: children_size)

section \<open>The statements of a program\<close>

fun stmt_exprs :: "ASTStmt \<Rightarrow> ASTExpr list" where
  \<comment> \<open>the expressions of a statement itself\<close>
  "stmt_exprs (Stmt h (SVarDecl x t td e c)) = [e]"
| "stmt_exprs (Stmt h (SVarAssign x e op)) = [e]"
| "stmt_exprs (Stmt h (SIndexAssign t i e op)) = [t, i, e]"
| "stmt_exprs (Stmt h (SMemberAssign t m e op)) = [t, e]"
| "stmt_exprs (Stmt h (SPrint e)) = [e]"
| "stmt_exprs (Stmt h (SExpr e)) = [e]"
| "stmt_exprs (Stmt h (SIf e t f)) = [e]"
| "stmt_exprs (Stmt h (SWhile e b)) = [e]"
| "stmt_exprs (Stmt h (SFor x e b)) = [e]"
| "stmt_exprs (Stmt h (SForIn x e b)) = [e]"
| "stmt_exprs (Stmt h (SReturn e)) = [e]"
| "stmt_exprs (Stmt h _) = []"

fun branches :: "ASTStmt \<Rightarrow> ASTStmt list list" where
  \<comment> \<open>its statement lists: branches of a condition, the body of a loop or of a function\<close>
  "branches (Stmt h (SIf e t f)) = [stmts_of t, stmts_of f]"
| "branches (Stmt h (SWhile e b)) = [stmts_of b]"
| "branches (Stmt h (SFor x e b)) = [stmts_of b]"
| "branches (Stmt h (SForIn x e b)) = [stmts_of b]"
| "branches (Stmt h (SFuncDecl f)) = [func_stmts f]"
| "branches (Stmt h _) = []"

definition bodies :: "ASTStmt \<Rightarrow> ASTStmt list" where
  "bodies s = concat (branches s)"

lemma branches_size: "ss \<in> set (branches t) \<Longrightarrow> size_list size ss < size t"
  by (cases t rule: branches.cases) (auto intro!: stmts_of_bound func_stmts_bound)

lemma bodies_size: "s \<in> set (bodies t) \<Longrightarrow> size s < size t"
  unfolding bodies_def using branches_size member_size by (metis in_set_conv_nth nth_mem set_concat UN_iff le_less_trans)

lemma stmt_induct:
  assumes "\<And>s. (\<And>ss. ss \<in> set (branches s) \<Longrightarrow> Q ss) \<Longrightarrow> P s"
    and "Q []" and "\<And>s ss. P s \<Longrightarrow> Q ss \<Longrightarrow> Q (s # ss)"
  shows "P s" "Q ss"
proof -
  have both: "(size_list size ss < n \<longrightarrow> Q ss) \<and> (size s < n \<longrightarrow> P s)" for n s ss
  proof (induction n arbitrary: s ss)
    case (Suc n)
    have P: "P s" if "size s < Suc n" for s
      using assms(1) [of s] branches_size Suc.IH that by (metis less_Suc_eq_le order_less_le_trans)
    have "size_list size ss < Suc n \<longrightarrow> Q ss"
      by (induction ss) (auto intro!: assms(2,3) P)
    with P show ?case by blast
  qed simp
  show "P s" "Q ss" using both by blast+
qed

function all_stmts :: "ASTStmt \<Rightarrow> ASTStmt list" where
  \<comment> \<open>a statement and, in its branches and bodies, all inner ones\<close>
  "all_stmts s = s # concat (map all_stmts (bodies s))"
  by pat_completeness auto
termination
  by (relation "measure size") (auto dest: bodies_size)

declare all_stmts.simps [simp del]

function (sequential)
  map_stmt_exprs :: "(ASTExpr \<Rightarrow> ASTExpr) \<Rightarrow> ASTStmt \<Rightarrow> ASTStmt" and
  map_stmts_exprs :: "(ASTExpr \<Rightarrow> ASTExpr) \<Rightarrow> ASTStmt list \<Rightarrow> ASTStmt list"
where
  "map_stmt_exprs g (Stmt h k) = Stmt h (case k of
       SVarDecl x t td e c \<Rightarrow> SVarDecl x t td (g e) c
     | SVarAssign x e op \<Rightarrow> SVarAssign x (g e) op
     | SIndexAssign t i e op \<Rightarrow> SIndexAssign (g t) (g i) (g e) op
     | SMemberAssign t m e op \<Rightarrow> SMemberAssign (g t) m (g e) op
     | SPrint e \<Rightarrow> SPrint (g e)
     | SExpr e \<Rightarrow> SExpr (g e)
     | SIf e t f \<Rightarrow> SIf (g e) (branch t (map_stmts_exprs g (stmts_of t))) (branch f (map_stmts_exprs g (stmts_of f)))
     | SWhile e b \<Rightarrow> SWhile (g e) (branch b (map_stmts_exprs g (stmts_of b)))
     | SFor x e b \<Rightarrow> SFor x (g e) (branch b (map_stmts_exprs g (stmts_of b)))
     | SForIn x e b \<Rightarrow> SForIn x (g e) (branch b (map_stmts_exprs g (stmts_of b)))
     | SFuncDecl f \<Rightarrow> SFuncDecl (FuncDecl (func_sig f) (branch (func_body f) (map_stmts_exprs g (func_stmts f))) (opt_info f))
     | SReturn e \<Rightarrow> SReturn (g e)
     | other \<Rightarrow> other)"
| "map_stmts_exprs g [] = []"
| "map_stmts_exprs g (s # ss) = map_stmt_exprs g s # map_stmts_exprs g ss"
  by pat_completeness auto
termination
  by (relation "measure (\<lambda>x. case x of Inl (g, s) \<Rightarrow> size s | Inr (g, ss) \<Rightarrow> size_list size ss)")
    (auto intro!: stmts_of_bound func_stmts_bound)

lemma branch_simps [simp]:
  "stmts_of (branch b ss) = (if b = None then [] else ss)"
  "branch (branch b ss) ss' = branch b ss'"
  by (simp_all add: branch_def split: option.splits)

lemma func_stmts_def': "func_stmts f = stmts_of (func_body f)"
  by (cases f) simp

lemma branch_none [simp]: "stmts_of b = [] \<Longrightarrow> branch b [] = b"
  by (cases b) (simp_all add: branch_def)

end
