(* ===== verification/BreadExprParser.thy ===== *)
theory BreadExprParser
  imports BreadAST BreadErrors BreadRounding
begin

text \<open>
  The expression parser, \<^verbatim>\<open>src/compiler/ast/ast_expr_parser.c\<close>. A parser takes the text
  from the cursor on and the error state, and gives its result, the text left and the error state;
  a failed parse gives \<open>Null\<close> (or \<open>None\<close>) as the source gives NULL. \<open>Undefined\<close> is a write past
  the buffer of a string literal. The only recursion through the whole grammar is the call of
  \<^verbatim>\<open>parse_expression\<close>: the parsers take it as their argument \<open>pe\<close>, and
  \<open>parse_expression\<close> ties the knot with fuel, which also bounds the loops; \<open>None\<close> outside is fuel
  that ran out. \<open>parse_expression_total\<close> shows that one unit more than the length of the text is
  enough, which is what \<open>parse_expr\<close> gives it. Memory is assumed to suffice.
\<close>

section \<open>Parsers\<close>

type_synonym 'a parsed = "('a \<times> cstring \<times> error_state) outcome option"
type_synonym 'a parser = "cstring \<Rightarrow> error_state \<Rightarrow> 'a parsed"

definition ret :: "'a \<Rightarrow> 'a parser" where
  "ret x r st = Some (Done (x, r, st))"

definition pbind :: "'a parsed \<Rightarrow> ('a \<Rightarrow> 'b parser) \<Rightarrow> 'b parsed" where
  "pbind p f = (case p of None \<Rightarrow> None
     | Some q \<Rightarrow> (case q of Done (x, r, st) \<Rightarrow> f x r st | Aborted e \<Rightarrow> Some (Aborted e) | Undefined \<Rightarrow> Some Undefined))"

definition failed :: "BreadErrorType \<Rightarrow> cstring \<Rightarrow> 'a \<Rightarrow> 'a parser" where
  \<comment> \<open>report an error and give the failing result\<close>
  "failed t msg x r st =
     Some (case bread_error_set t msg st of Done st1 \<Rightarrow> Done (x, r, st1) | Aborted e \<Rightarrow> Aborted e | Undefined \<Rightarrow> Undefined)"

abbreviation syntax_error :: "cstring \<Rightarrow> 'a \<Rightarrow> 'a parser" where
  "syntax_error \<equiv> failed BREAD_ERROR_SYNTAX_ERROR"

fun skip_line :: "cstring \<Rightarrow> cstring" where
  "skip_line s = dropWhile (\<lambda>c. c \<noteq> CHR 0x0A) s"

function skip_ws :: "cstring \<Rightarrow> cstring" where
  \<comment> \<open>\<^verbatim>\<open>skip_whitespace\<close>: white space and comments\<close>
  "skip_ws s =
     (case s of [] \<Rightarrow> []
      | c # t \<Rightarrow> if isspace c then skip_ws t
                 else if c = CHR ''/'' \<and> at_char CHR ''/'' t then skip_ws (skip_line t)
                 else s)"
  by pat_completeness auto
termination
  by (relation "measure length") (auto simp: less_Suc_eq_le length_dropWhile_le)

definition starts :: "cstring \<Rightarrow> cstring \<Rightarrow> bool" where
  \<comment> \<open>\<^verbatim>\<open>strncmp(*expr, word, strlen(word)) == 0\<close>\<close>
  "starts w s \<longleftrightarrow> take (length w) s = w"

definition keyword_at :: "cstring \<Rightarrow> cstring \<Rightarrow> bool" where
  "keyword_at w s \<longleftrightarrow> starts w s \<and> \<not> starts_with is_ident_char (drop (length w) s)"

section \<open>Literals\<close>

definition decimal :: "cstring \<Rightarrow> nat" where
  "decimal ds = foldl (\<lambda>n c. 10 * n + (of_char c - 48)) 0 ds"

definition atoi :: "cstring \<Rightarrow> 64 word" where
  \<comment> \<open>of a text of digits; the value of \<^verbatim>\<open>strtol\<close>, which stops at \<^verbatim>\<open>LONG_MAX\<close>, taken to
    \<^verbatim>\<open>int\<close>: outside \<^verbatim>\<open>int\<close> the standard leaves \<^verbatim>\<open>atoi\<close> undefined\<close>
  "atoi ds = scast (of_nat (min (decimal ds) (2 ^ 63 - 1)) :: 32 word)"

definition strtod :: "cstring \<Rightarrow> 64 word" where
  \<comment> \<open>of a text of digits with one point, rounded correctly\<close>
  "strtod s =
     (let whole = takeWhile isdigit s; frac = drop (Suc (length whole)) s
      in of_nat (ieee_round 52 11 (decimal (whole @ frac) * 2 ^ 1074) (10 ^ length frac)))"

fun number_scan :: "bool \<Rightarrow> cstring \<Rightarrow> cstring" where
  \<comment> \<open>the text of the number; a second point ends it\<close>
  "number_scan dot [] = []"
| "number_scan dot (c # s) =
     (if isdigit c then c # number_scan dot s
      else if c = CHR ''.'' \<and> \<not> dot then c # number_scan True s
      else [])"

definition EXPR_TOKEN_LEN :: nat where "EXPR_TOKEN_LEN = 1024"

definition parse_number :: "ASTExpr parser" where
  "parse_number s st =
     (let num = number_scan False s; r = drop (length num) s in
      if num = [] then ret Null r st
      else if length num \<ge> EXPR_TOKEN_LEN then syntax_error ''Number too long'' Null r st
      else if CHR ''.'' \<in> set num then ret (ast_expr_tagged (EDouble (strtod num)) TYPE_DOUBLE) r st
      else ret (ast_expr_tagged (EInt (atoi num)) TYPE_INT) r st)"

record string_buffer =
  chars :: cstring
  capacity :: nat

definition INITIAL_STRING_CAPACITY :: nat where "INITIAL_STRING_CAPACITY = 64"

definition buf_room :: "string_buffer \<Rightarrow> string_buffer" where
  "buf_room b = (if length (chars b) + 2 > capacity b then b\<lparr>capacity := capacity b * 2\<rparr> else b)"

definition buf_add :: "cstring \<Rightarrow> string_buffer \<Rightarrow> string_buffer option" where
  \<comment> \<open>\<^verbatim>\<open>buffer[length++] = c\<close>; none when that is past the end\<close>
  "buf_add cs b = (if length (chars b) + length cs > capacity b then None else Some (b\<lparr>chars := chars b @ cs\<rparr>))"

definition buf_text :: "string_buffer \<Rightarrow> cstring option" where
  \<comment> \<open>\<^verbatim>\<open>buffer[length] = '\0'\<close>\<close>
  "buf_text b = (if length (chars b) + 1 > capacity b then None else Some (chars b))"

definition string_node :: "cstring \<Rightarrow> ASTExpr" where
  "string_node s = ast_expr_tagged (EStringLiteral s) TYPE_STRING"

definition joined :: "ASTExpr \<Rightarrow> ASTExpr \<Rightarrow> ASTExpr" where
  \<comment> \<open>the next part of an interpolated string\<close>
  "joined result part = (if result = Null then part else ast_expr_new (EBinary CHR ''+'' result part))"

definition unescape :: "char \<Rightarrow> cstring" where
  \<comment> \<open>what stands in the buffer for the character after a backslash\<close>
  "unescape c =
     (if c = CHR ''n'' then [CHR 0x0A] else if c = CHR ''t'' then [CHR 0x09]
      else if c = CHR ''r'' then [CHR 0x0D] else if c = CHR ''b'' then [CHR 0x08]
      else if c = CHR ''f'' then [CHR 0x0C] else if c = CHR 0x22 then [CHR 0x22]
      else if c = CHR 0x5C then [CHR 0x5C] else if c = CHR ''/'' then [CHR ''/'']
      else if c = CHR ''('' then [CHR ''(''] else [CHR 0x5C, c])"

definition flush_text :: "string_buffer \<Rightarrow> ASTExpr \<Rightarrow> ASTExpr option" where
  "flush_text b result =
     (case buf_text b of None \<Rightarrow> None | Some s \<Rightarrow> Some (joined result (string_node s)))"

fun string_loop :: "ASTExpr parser \<Rightarrow> nat \<Rightarrow> string_buffer \<Rightarrow> ASTExpr \<Rightarrow> ASTExpr parser" where
  "string_loop pe 0 b result r st = None"
| "string_loop pe (Suc n) b result r st =
     (case r of
        [] \<Rightarrow> syntax_error ''Unterminated string literal'' Null r st
      | c # r1 \<Rightarrow>
          if c = CHR 0x22 then
            (if chars b \<noteq> [] \<or> result = Null
             then (case flush_text b result of None \<Rightarrow> Some Undefined | Some e \<Rightarrow> ret e r1 st)
             else ret result r1 st)
          else let b1 = buf_room b in
            if c = CHR 0x5C \<and> at_char CHR ''('' r1 then
              (case (if chars b1 = [] then Some result else flush_text b1 result) of
                 None \<Rightarrow> Some Undefined
               | Some result1 \<Rightarrow>
                   pbind (pe (tl r1) st) (\<lambda>e r2 st2.
                     if e = Null then ret Null r2 st2
                     else let r3 = skip_ws r2 in
                       if \<not> at_char CHR '')'' r3
                       then syntax_error ''Missing closing ')' in string interpolation'' Null r3 st2
                       else string_loop pe n (b1\<lparr>chars := []\<rparr>)
                              (joined result1 (ast_expr_new (ECall ''str'' [e]))) (tl r3) st2))
            else let (cs, r2) = (if c = CHR 0x5C \<and> r1 \<noteq> [] then (unescape (hd r1), tl r1) else ([c], r1)) in
              (case buf_add cs b1 of None \<Rightarrow> Some Undefined
               | Some b2 \<Rightarrow> string_loop pe n b2 result r2 st))"

definition parse_string_literal :: "ASTExpr parser \<Rightarrow> nat \<Rightarrow> ASTExpr parser" where
  \<comment> \<open>the cursor is at the opening quote\<close>
  "parse_string_literal pe n s st =
     string_loop pe n \<lparr>chars = [], capacity = INITIAL_STRING_CAPACITY\<rparr> Null (tl s) st"

section \<open>Lists\<close>

fun args_loop :: "ASTExpr parser \<Rightarrow> nat \<Rightarrow> ASTExpr list \<Rightarrow> (ASTExpr list option) parser" where
  "args_loop pe 0 acc r st = None"
| "args_loop pe (Suc n) acc r st =
     (if r = [] \<or> at_char CHR '')'' r then ret (Some acc) r st
      else pbind (pe r st) (\<lambda>e r1 st1.
        if e = Null then ret None r1 st1
        else let r2 = skip_ws r1 in
          if at_char CHR '','' r2 then args_loop pe n (acc @ [e]) (skip_ws (tl r2)) st1
          else ret (Some (acc @ [e])) r2 st1))"

definition parse_argument_list :: "ASTExpr parser \<Rightarrow> nat \<Rightarrow> (ASTExpr list option) parser" where
  "parse_argument_list pe n s st =
     (let r = skip_ws s in
      if at_char CHR '')'' r then ret (Some []) (tl r) st
      else pbind (args_loop pe n [] r st) (\<lambda>args r1 st1.
        case args of None \<Rightarrow> ret None r1 st1
        | Some xs \<Rightarrow> (let r2 = skip_ws r1 in
            if \<not> at_char CHR '')'' r2 then syntax_error ''Missing closing parenthesis'' None r2 st1
            else ret (Some xs) (tl r2) st1)))"

definition ident_text :: "cstring \<Rightarrow> cstring" where
  \<comment> \<open>the identifier at the cursor\<close>
  "ident_text s = takeWhile is_ident_char s"

fun fields_loop :: "ASTExpr parser \<Rightarrow> nat \<Rightarrow> (cstring \<times> ASTExpr) list \<Rightarrow> ((cstring \<times> ASTExpr) list option) parser" where
  "fields_loop pe 0 acc r st = None"
| "fields_loop pe (Suc n) acc r st =
     (if r = [] \<or> at_char CHR ''}'' r then ret (Some acc) r st
      else if \<not> starts_with is_ident_start r then syntax_error ''Expected field name in literal'' None r st
      else let field = ident_text r; r1 = skip_ws (drop (length field) r) in
        if \<not> at_char CHR '':'' r1 then syntax_error ''Expected ':' after field name in literal'' None r1 st
        else pbind (pe (tl r1) st) (\<lambda>e r2 st2.
          if e = Null then ret None r2 st2
          else let r3 = skip_ws r2 in
            if at_char CHR '','' r3 then fields_loop pe n (acc @ [(field, e)]) (skip_ws (tl r3)) st2
            else ret (Some (acc @ [(field, e)])) r3 st2))"

section \<open>Primary expressions\<close>

definition parse_identifier_expr :: "ASTExpr parser \<Rightarrow> nat \<Rightarrow> ASTExpr parser" where
  "parse_identifier_expr pe n s0 st =
     (let s = skip_ws s0 in
      if \<not> starts_with is_ident_start s then ret Null s st
      else let name = ident_text s; r0 = drop (length name) s in
        if name = ''self'' then ret (ast_expr_new ESelf) r0 st
        else if name = ''super'' then ret (ast_expr_new ESuper) r0 st
        else let r = skip_ws r0 in
          if at_char CHR ''{'' r then
            pbind (fields_loop pe n [] (skip_ws (tl r)) st) (\<lambda>fs r1 st1.
              case fs of None \<Rightarrow> ret Null r1 st1
              | Some fvs \<Rightarrow> (let r2 = skip_ws r1 in
                  if \<not> at_char CHR ''}'' r2 then syntax_error ''Missing closing '}' in literal'' Null r2 st1
                  else ret (ast_expr_new (EStructLiteral name fvs)) (tl r2) st1))
          else if at_char CHR ''('' r then
            pbind (parse_argument_list pe n (tl r) st) (\<lambda>args r1 st1.
              case args of None \<Rightarrow> ret Null r1 st1
              | Some xs \<Rightarrow> ret (ast_expr_new (ECall name xs)) r1 st1)
          else ret (ast_expr_new (EVar name)) r st)"

datatype literal_items = Items (is_dict: bool) (entry_list: "(ASTExpr \<times> ASTExpr) list") (elem_list: "ASTExpr list")

fun items_loop :: "ASTExpr parser \<Rightarrow> nat \<Rightarrow> literal_items \<Rightarrow> (literal_items option) parser" where
  \<comment> \<open>the elements before the first colon are collected, and dropped when it becomes a dictionary\<close>
  "items_loop pe 0 it r st = None"
| "items_loop pe (Suc n) (Items d ens els) r st =
     (if r = [] \<or> at_char CHR '']'' r then ret (Some (Items d ens els)) r st
      else pbind (pe r st) (\<lambda>first r1 st1.
        if first = Null then ret None r1 st1
        else let r2 = skip_ws r1; d1 = (d \<or> at_char CHR '':'' r2);
                 next_item = (\<lambda>it r' st'. let r3 = skip_ws r' in
                   if at_char CHR '','' r3 then items_loop pe n it (skip_ws (tl r3)) st'
                   else ret (Some it) r3 st') in
          if d1 then
            (if \<not> at_char CHR '':'' r2 then syntax_error ''Expected ':' in dictionary literal'' None r2 st1
             else pbind (pe (tl r2) st1) (\<lambda>val r4 st4.
               if val = Null then ret None r4 st4 else next_item (Items d1 (ens @ [(first, val)]) els) r4 st4))
          else next_item (Items d1 ens (els @ [first])) r2 st1))"

definition parse_array_or_dict :: "ASTExpr parser \<Rightarrow> nat \<Rightarrow> ASTExpr parser" where
  "parse_array_or_dict pe n s0 st =
     (let s = skip_ws s0 in
      if \<not> at_char CHR ''['' s then ret Null s st
      else let r = skip_ws (tl s) in
        if at_char CHR '':'' r then
          (let r1 = skip_ws (tl r) in
           if \<not> at_char CHR '']'' r1 then syntax_error ''Missing closing ']' in dictionary literal'' Null r1 st
           else ret (ast_expr_new (EDict [])) (tl r1) st)
        else if at_char CHR '']'' r then ret (ast_expr_new (EArrayLiteral [] TYPE_NIL)) (tl r) st
        else pbind (items_loop pe n (Items False [] []) r st) (\<lambda>items r1 st1.
          case items of None \<Rightarrow> ret Null r1 st1
          | Some (Items d ens els) \<Rightarrow> (let r2 = skip_ws r1 in
              if \<not> at_char CHR '']'' r2
              then syntax_error ''Missing closing ']' in array/dictionary literal'' Null r2 st1
              else if d then ret (ast_expr_new (EDict ens)) (tl r2) st1
              else ret (ast_expr_new (EArrayLiteral els TYPE_NIL)) (tl r2) st1)))"

definition parse_primary :: "ASTExpr parser \<Rightarrow> nat \<Rightarrow> ASTExpr parser" where
  "parse_primary pe n s0 st =
     (let s = skip_ws s0 in
      if keyword_at ''nil'' s then ret (ast_expr_new ENil) (drop 3 s) st
      else if keyword_at ''true'' s then ret (ast_expr_tagged (EBool True) TYPE_BOOL) (drop 4 s) st
      else if keyword_at ''false'' s then ret (ast_expr_tagged (EBool False) TYPE_BOOL) (drop 5 s) st
      else if at_char CHR ''('' s then
        pbind (pe (tl s) st) (\<lambda>inner r st1.
          if inner = Null then ret Null r st1
          else let r1 = skip_ws r in
            if \<not> at_char CHR '')'' r1 then syntax_error ''Missing closing parenthesis'' Null r1 st1
            else ret inner (tl r1) st1)
      else if at_char CHR 0x22 s then parse_string_literal pe n s st
      else if starts_with isdigit s \<or> at_char CHR ''.'' s \<and> starts_with isdigit (tl s) then parse_number s st
      else if at_char CHR ''['' s then parse_array_or_dict pe n s st
      else if starts_with is_ident_start s then parse_identifier_expr pe n s st
      else syntax_error (''Unexpected character '' @ [CHR 0x27] @ (if s = [] then [] else [hd s, CHR 0x27])) Null s st)"

fun postfix_loop :: "ASTExpr parser \<Rightarrow> nat \<Rightarrow> ASTExpr \<Rightarrow> ASTExpr parser" where
  \<comment> \<open>\<^verbatim>\<open>parse_postfix\<close>; the base is \<open>Null\<close> when the primary expression failed\<close>
  "postfix_loop pe 0 base s st = None"
| "postfix_loop pe (Suc n) base s st =
     (let r = skip_ws s in
      if at_char CHR ''['' r then
        pbind (pe (tl r) st) (\<lambda>idx r1 st1.
          if idx = Null then ret Null r1 st1
          else let r2 = skip_ws r1 in
            if \<not> at_char CHR '']'' r2 then syntax_error ''Missing closing ']' in indexing'' Null r2 st1
            else postfix_loop pe n (ast_expr_new (EIndex base idx)) (tl r2) st1)
      else let chain = (at_char CHR ''?'' r \<and> at_char CHR ''.'' (tl r)) in
        if \<not> chain \<and> \<not> at_char CHR ''.'' r then ret base r st
        else let r1 = skip_ws (if chain then tl (tl r) else tl r) in
          if \<not> starts_with is_ident_start r1 then syntax_error (''Expected member name after '' @ [CHR 0x27, CHR ''.'', CHR 0x27]) Null r1 st
          else let member = ident_text r1; r2 = skip_ws (drop (length member) r1) in
            if at_char CHR ''('' r2 then
              pbind (parse_argument_list pe n (tl r2) st) (\<lambda>args r3 st3.
                case args of None \<Rightarrow> ret Null r3 st3
                | Some xs \<Rightarrow> postfix_loop pe n (ast_expr_new (EMethodCall base member xs chain)) r3 st3)
            else postfix_loop pe n (ast_expr_new (EMember base member chain)) r2 st)"

section \<open>Operators\<close>

fun parse_unary :: "ASTExpr parser \<Rightarrow> nat \<Rightarrow> ASTExpr parser" where
  "parse_unary pe 0 s0 st = None"
| "parse_unary pe (Suc n) s0 st =
     (let s = skip_ws s0 in
      if at_char CHR ''!'' s \<or> at_char CHR ''-'' s then
        pbind (parse_unary pe n (tl s) st) (\<lambda>operand r st1.
          if operand = Null then ret Null r st1
          else ret (ast_expr_new (EUnary (hd s) operand)) r st1)
      else pbind (parse_primary pe n s st) (\<lambda>base r st1. postfix_loop pe n base r st1))"

fun binary_loop :: "(cstring \<Rightarrow> (char \<times> cstring) option) \<Rightarrow> ASTExpr parser \<Rightarrow> nat \<Rightarrow> ASTExpr \<Rightarrow> ASTExpr parser" where
  \<comment> \<open>the loops of \<^verbatim>\<open>parse_factor\<close>, \<^verbatim>\<open>parse_term\<close>, \<^verbatim>\<open>parse_logical_and\<close> and
    \<^verbatim>\<open>parse_logical_or\<close>: as long as an operator follows, an operand\<close>
  "binary_loop operator operand 0 left r st = None"
| "binary_loop operator operand (Suc n) left r0 st =
     (let r = skip_ws r0 in
      case operator r of None \<Rightarrow> ret left r st
      | Some (op, r1) \<Rightarrow>
          pbind (operand r1 st) (\<lambda>right r2 st2.
            if right = Null then ret Null r2 st2
            else binary_loop operator operand n (ast_expr_new (EBinary op left right)) r2 st2))"

definition binary_level :: "(cstring \<Rightarrow> (char \<times> cstring) option) \<Rightarrow> ASTExpr parser \<Rightarrow> nat \<Rightarrow> ASTExpr parser" where
  "binary_level operator operand n s st =
     pbind (operand s st) (\<lambda>left r st1.
       if left = Null then ret Null r st1 else binary_loop operator operand n left r st1)"

definition op_in :: "cstring \<Rightarrow> cstring \<Rightarrow> (char \<times> cstring) option" where
  "op_in ops r = (if starts_with (\<lambda>c. c \<in> set ops) r then Some (hd r, tl r) else None)"

definition doubled :: "char \<Rightarrow> cstring \<Rightarrow> (char \<times> cstring) option" where
  "doubled c r = (if at_char c r \<and> at_char c (tl r) then Some (c, drop 2 r) else None)"

definition comparison_op :: "cstring \<Rightarrow> (char \<times> cstring) option" where
  \<comment> \<open>the two-character operators first: \<^verbatim>\<open><=\<close> is encoded as l and \<^verbatim>\<open>>=\<close> as g\<close>
  "comparison_op r =
     (if starts_with (\<lambda>c. c \<in> {CHR ''='', CHR ''!'', CHR ''<'', CHR ''>''}) r \<and> at_char CHR ''='' (tl r)
      then Some (if hd r = CHR ''<'' then CHR ''l'' else if hd r = CHR ''>'' then CHR ''g'' else hd r, drop 2 r)
      else if at_char CHR ''<'' r \<or> at_char CHR ''>'' r then Some (hd r, tl r)
      else None)"

definition parse_factor :: "ASTExpr parser \<Rightarrow> nat \<Rightarrow> ASTExpr parser" where
  "parse_factor pe n = binary_level (op_in ''*/%'') (parse_unary pe n) n"

definition parse_term :: "ASTExpr parser \<Rightarrow> nat \<Rightarrow> ASTExpr parser" where
  "parse_term pe n = binary_level (op_in ''+-'') (parse_factor pe n) n"

definition parse_comparison :: "ASTExpr parser \<Rightarrow> nat \<Rightarrow> ASTExpr parser" where
  \<comment> \<open>one comparison at most\<close>
  "parse_comparison pe n s st =
     pbind (parse_term pe n s st) (\<lambda>left r0 st1.
       if left = Null then ret Null r0 st1
       else let r = skip_ws r0 in
         case comparison_op r of None \<Rightarrow> ret left r st1
         | Some (op, r1) \<Rightarrow>
             pbind (parse_term pe n r1 st1) (\<lambda>right r2 st2.
               if right = Null then ret Null r2 st2
               else ret (ast_expr_new (EBinary op left right)) r2 st2))"

definition parse_logical_and :: "ASTExpr parser \<Rightarrow> nat \<Rightarrow> ASTExpr parser" where
  "parse_logical_and pe n = binary_level (doubled CHR ''&'') (parse_comparison pe n) n"

definition parse_logical_or :: "ASTExpr parser \<Rightarrow> nat \<Rightarrow> ASTExpr parser" where
  "parse_logical_or pe n = binary_level (doubled CHR ''|'') (parse_logical_and pe n) n"

fun parse_expression :: "nat \<Rightarrow> ASTExpr parser" where
  "parse_expression 0 s st = None"
| "parse_expression (Suc n) s st = parse_logical_or (parse_expression n) (Suc (Suc n)) s st"

definition parse_expr :: "cstring \<Rightarrow> error_state \<Rightarrow> (ASTExpr \<times> cstring \<times> error_state) outcome" where
  "parse_expr s st = the (parse_expression (Suc (length s)) s st)"

section \<open>Every parse returns\<close>

lemma skip_ws_length [cursor_simps]: "length (skip_ws s) \<le> length s"
proof (induction s rule: skip_ws.induct)
  case (1 s)
  show ?case
  proof (cases s)
    case (Cons c t)
    have "length (skip_line t) \<le> length t" by (simp add: length_dropWhile_le)
    with 1 Cons show ?thesis by (subst skip_ws.simps) (auto intro: le_SucI le_trans)
  qed simp
qed

declare skip_ws.simps [simp del]

lemma skip_ws_idem [simp]: "skip_ws (skip_ws s) = skip_ws s"
proof (induction s rule: skip_ws.induct)
  case (1 s)
  then show ?case
    by (cases s) (auto simp: skip_ws.simps [of "[]"] skip_ws.simps [of "_ # _"])
qed

lemma skip_ws_ident: "starts_with is_ident_start s \<Longrightarrow> skip_ws s = s"
  by (cases s) (auto simp: skip_ws.simps [of "_ # _"] ident_start_char ident_not_space is_ident_start_def isalpha_def)

abbreviation erred :: "error_state \<Rightarrow> bool" where
  "erred \<equiv> bread_error_has_compilation_errors"

definition parsed_ok :: "nat \<Rightarrow> nat \<Rightarrow> ('a \<Rightarrow> bool) \<Rightarrow> error_state \<Rightarrow> 'a parsed \<Rightarrow> bool" where
  \<comment> \<open>the parse returns; the text left is no longer than the text given, and \<open>d\<close> shorter when it
    succeeds; a failure is on record, and a record is never lost\<close>
  "parsed_ok d n fails st p \<longleftrightarrow> (\<exists>q. p = Some q \<and>
     (\<forall>x r st'. q = Done (x, r, st') \<longrightarrow> length r \<le> n \<and> (if fails x then erred st' else length r + d \<le> n) \<and>
        (erred st \<longrightarrow> erred st')))"

abbreviation no_tree :: "ASTExpr \<Rightarrow> bool" where
  "no_tree e \<equiv> e = Null"

definition good_parser :: "nat \<Rightarrow> ASTExpr parser \<Rightarrow> bool" where
  "good_parser n pe \<longleftrightarrow> (\<forall>s st. length s < n \<longrightarrow> parsed_ok 1 (length s) no_tree st (pe s st))"

lemma parsed_Undefined [simp]: "parsed_ok d n F st (Some Undefined)"
  by (simp add: parsed_ok_def)

lemma parsed_ret [simp]:
  "parsed_ok d n F st (ret x r st') \<longleftrightarrow> length r \<le> n \<and> (if F x then erred st' else length r + d \<le> n) \<and> (erred st \<longrightarrow> erred st')"
  by (auto simp: parsed_ok_def ret_def)

lemma syntax_error_ok [simp]: "F x \<Longrightarrow> length r \<le> n \<Longrightarrow> parsed_ok d n F st (syntax_error msg x r st')"
  by (auto simp: parsed_ok_def failed_def bread_error_set_def bread_error_set_with_context_def Let_def
      bread_error_init_def fail_fast_error_def compile_time_error_def bread_error_has_compilation_errors_def)

lemma parsed_bind:
  assumes "parsed_ok d n F st p"
    and "\<And>x r st1. length r \<le> n \<Longrightarrow> (if F x then erred st1 else length r + d \<le> n) \<Longrightarrow> (erred st \<Longrightarrow> erred st1) \<Longrightarrow>
           parsed_ok k m G st1 (f x r st1)"
  shows "parsed_ok k m G st (pbind p f)"
proof -
  obtain q where q: "p = Some q" and
    d: "\<And>x r st'. q = Done (x, r, st') \<Longrightarrow> length r \<le> n \<and> (if F x then erred st' else length r + d \<le> n) \<and> (erred st \<longrightarrow> erred st')"
    using assms(1) by (auto simp: parsed_ok_def)
  show ?thesis
  proof (cases q)
    case (Done t)
    obtain x r st1 where t: "t = (x, r, st1)" by (cases t) auto
    from d [of x r st1] Done t have "parsed_ok k m G st1 (f x r st1)" "erred st \<longrightarrow> erred st1"
      by (auto intro!: assms(2))
    with q Done t show ?thesis by (auto simp: pbind_def parsed_ok_def)
  qed (simp_all add: q pbind_def parsed_ok_def)
qed

lemma good_bind:
  assumes "good_parser N pe" and "length s < N" and "length s \<le> L"
    and "\<And>x r st1. length r \<le> L \<Longrightarrow> (if x = Null then erred st1 else Suc (length r) \<le> L) \<Longrightarrow>
           (erred st \<Longrightarrow> erred st1) \<Longrightarrow> parsed_ok k m G st1 (f x r st1)"
  shows "parsed_ok k m G st (pbind (pe s st) f)"
proof (rule parsed_bind)
  show "parsed_ok 1 (length s) no_tree st (pe s st)" using assms(1,2) by (simp add: good_parser_def)
  fix x and r :: cstring and st1
  assume "length r \<le> length s" "if x = Null then erred st1 else length r + 1 \<le> length s" "erred st \<Longrightarrow> erred st1"
  with assms(3) show "parsed_ok k m G st1 (f x r st1)" by (intro assms(4)) (auto split: if_splits)
qed

declare length_tl [simp del]

lemma skip_ws_le: "length q \<le> m \<Longrightarrow> length (skip_ws q) \<le> m" "length q < m \<Longrightarrow> length (skip_ws q) < m"
  using skip_ws_length [of q] by auto

lemma tl_le: "at_char c s \<Longrightarrow> length s \<le> m \<Longrightarrow> length (tl s) < m" "length s \<le> m \<Longrightarrow> length (tl s) \<le> m"
  by (cases s; simp)+

lemma tl_Suc_le: "at_char c s \<Longrightarrow> length s \<le> m \<Longrightarrow> Suc (length (tl s)) \<le> m"
  by (cases s; simp)+

lemmas shorter = skip_ws_le tl_le tl_Suc_le

lemma ident_text_drop:
  "starts_with is_ident_start s \<Longrightarrow> length s \<le> m \<Longrightarrow> length (drop (length (ident_text s)) s) < m"
  by (cases s) (auto simp: ident_text_def ident_start_char)

lemma number_scan_length: "length (number_scan d s) \<le> length s"
  by (induction d s rule: number_scan.induct) auto

lemma parsed_mono: "parsed_ok d m F st p \<Longrightarrow> m \<le> n \<Longrightarrow> k + m \<le> d + n \<Longrightarrow> parsed_ok k n F st p"
  by (fastforce simp: parsed_ok_def split: if_splits)

lemma next_item_less: "Suc (length q) \<le> n \<Longrightarrow> length (skip_ws (tl (skip_ws q))) < n"
  using skip_ws_length [of q] skip_ws_length [of "tl (skip_ws q)"] by (simp add: length_tl)

lemma args_loop_ok:
  assumes "good_parser N pe"
  shows "length r < n \<Longrightarrow> length r < N \<Longrightarrow> length r \<le> m \<Longrightarrow>
    parsed_ok 0 m (\<lambda>a. a = None) st (args_loop pe n acc r st)"
proof (induction n arbitrary: r st acc)
  case (Suc n)
  have step: "parsed_ok 0 m (\<lambda>a. a = None) st2 (args_loop pe n acc' (skip_ws (tl (skip_ws q))) st2)"
    if "Suc (length q) \<le> length r" for acc' q st2
    using next_item_less [OF that] Suc.IH Suc.prems by simp
  from Suc.prems show ?case
    by (auto simp: Let_def step shorter intro!: good_bind [OF assms, where L = "length r"])
qed simp

lemma parse_argument_list_ok:
  assumes "good_parser N pe" "length s < n" "length s < N"
  shows "parsed_ok 1 (length s) (\<lambda>a. a = None) st (parse_argument_list pe n s st)"
proof -
  have "parsed_ok 0 (length s) (\<lambda>a. a = None) st (args_loop pe n [] (skip_ws s) st)"
    by (rule args_loop_ok [OF assms(1)]) (use skip_ws_length [of s] assms(2,3) in auto)
  then show ?thesis unfolding parse_argument_list_def Let_def
    by (auto simp: shorter intro!: parsed_bind [of 0] split: option.splits)
qed

lemma fields_loop_ok:
  assumes "good_parser N pe"
  shows "length r < n \<Longrightarrow> length r < N \<Longrightarrow> length r \<le> m \<Longrightarrow>
    parsed_ok 0 m (\<lambda>a. a = None) st (fields_loop pe n acc r st)"
proof (induction n arbitrary: r st acc)
  case (Suc n)
  have step: "parsed_ok 0 m (\<lambda>a. a = None) st2 (fields_loop pe n acc' (skip_ws (tl (skip_ws q))) st2)"
    if "Suc (length q) \<le> length r" for acc' q st2
    using next_item_less [OF that] Suc.IH Suc.prems by simp
  let ?r1 = "skip_ws (drop (length (ident_text r)) r)"
  have le: "length ?r1 \<le> length r" by (intro shorter) simp
  show ?case
  proof (cases "r = [] \<or> at_char CHR ''}'' r \<or> \<not> starts_with is_ident_start r \<or> \<not> at_char CHR '':'' ?r1")
    case True
    with Suc.prems le show ?thesis by (auto simp: Let_def)
  next
    case False
    then have "length (tl ?r1) < length r" using le by (auto intro: shorter)
    with False Suc.prems show ?thesis
      by (auto simp: Let_def step shorter intro!: good_bind [OF assms, where L = "length r"])
  qed
qed simp

lemma items_loop_ok:
  assumes "good_parser N pe"
  shows "length r < n \<Longrightarrow> length r < N \<Longrightarrow> length r \<le> m \<Longrightarrow>
    parsed_ok 0 m (\<lambda>a. a = None) st (items_loop pe n it r st)"
proof (induction n arbitrary: r st it)
  case (Suc n)
  obtain d ens els where it: "it = Items d ens els" by (cases it)
  have step: "parsed_ok 0 m (\<lambda>a. a = None) st2 (items_loop pe n it' (skip_ws (tl (skip_ws q))) st2)"
    if "Suc (length q) \<le> length r" for it' q st2
    using next_item_less [OF that] Suc.IH Suc.prems by simp
  have tl: "length (tl (skip_ws q)) < length r" if "Suc (length q) \<le> length r" for q
    using that skip_ws_length [of q] by (simp add: length_tl)
  have pair: "parsed_ok 0 m (\<lambda>a. a = None) st2
      (pbind (pe (tl (skip_ws q)) st2) (\<lambda>val r4 st4. if val = Null then ret None r4 st4 else
         if at_char CHR '','' (skip_ws r4) then items_loop pe n (it' val) (skip_ws (tl (skip_ws r4))) st4
         else ret (Some (it' val)) (skip_ws r4) st4))"
    if "Suc (length q) \<le> length r" for q it' st2
    using tl [OF that] Suc.prems
    by (auto simp: step shorter intro!: good_bind [OF assms, where L = "length r"])
  with it Suc.prems show ?case
    by (auto simp: Let_def step shorter intro!: good_bind [OF assms, where L = "length r"])
qed simp

lemma parse_identifier_ok:
  assumes "good_parser N pe" "length s \<le> N" "length s \<le> n" "starts_with is_ident_start s"
  shows "parsed_ok 1 (length s) no_tree st (parse_identifier_expr pe n s st)"
proof -
  let ?r0 = "drop (length (ident_text s)) s"
  have r0: "length ?r0 < length s" by (rule ident_text_drop [OF assms(4) order_refl])
  have le: "length (skip_ws (tl (skip_ws ?r0))) \<le> length ?r0" "length (tl (skip_ws ?r0)) \<le> length ?r0"
    using skip_ws_length [of ?r0] skip_ws_length [of "tl (skip_ws ?r0)"] by (simp_all add: length_tl)
  have f: "parsed_ok 0 (length ?r0) (\<lambda>a. a = None) st (fields_loop pe n [] (skip_ws (tl (skip_ws ?r0))) st)"
    by (rule fields_loop_ok [OF assms(1)]) (use r0 le assms(2,3) in linarith)+
  have a: "parsed_ok 1 (length (tl (skip_ws ?r0))) (\<lambda>a. a = None) st (parse_argument_list pe n (tl (skip_ws ?r0)) st)"
    by (rule parse_argument_list_ok [OF assms(1)]) (use r0 le assms(2,3) in linarith)+
  have close: "length (tl (skip_ws r1)) < length s" "length (skip_ws r1) < length s" if "length r1 \<le> length ?r0" for r1
    using that r0 skip_ws_length [of r1] by (simp_all add: length_tl)
  have F: "parsed_ok 1 (length s) no_tree st (pbind (fields_loop pe n [] (skip_ws (tl (skip_ws ?r0))) st) (\<lambda>fs r1 st1.
      case fs of None \<Rightarrow> ret Null r1 st1
      | Some fvs \<Rightarrow> (let r2 = skip_ws r1 in
          if \<not> at_char CHR ''}'' r2 then syntax_error msg Null r2 st1
          else ret (ast_expr_new (EStructLiteral nm fvs)) (tl r2) st1)))" for msg nm
    using r0 close by (intro parsed_bind [OF f]) (auto simp: Let_def less_imp_le Suc_le_eq ast_expr_new_def split: option.split)
  have A: "parsed_ok 1 (length s) no_tree st (pbind (parse_argument_list pe n (tl (skip_ws ?r0)) st) (\<lambda>args r1 st1.
      case args of None \<Rightarrow> ret Null r1 st1 | Some xs \<Rightarrow> ret (ast_expr_new (ECall nm xs)) r1 st1))" for nm
    using r0 le by (intro parsed_bind [OF a]) (auto simp: ast_expr_new_def split: option.split)
  have V: "length (skip_ws ?r0) < length s" using r0 skip_ws_length [of ?r0] by linarith
  show ?thesis
    unfolding parse_identifier_expr_def Let_def skip_ws_ident [OF assms(4)]
    using assms(4) r0 V F [unfolded Let_def] A by (auto simp: less_imp_le Suc_le_eq ast_expr_new_def)
qed

lemma new_not_null [simp]: "ast_expr_new k \<noteq> Null" "ast_expr_tagged k t \<noteq> Null" "string_node x \<noteq> Null"
  by (simp_all add: ast_expr_new_def ast_expr_tagged_def string_node_def)

lemma parse_array_or_dict_ok:
  assumes "good_parser N pe" "length s \<le> N" "length s \<le> n" "at_char CHR ''['' s"
  shows "parsed_ok 1 (length s) no_tree st (parse_array_or_dict pe n s st)"
proof -
  obtain t where s: "s = CHR ''['' # t" using assms(4) by (cases s) auto
  have ws: "skip_ws s = s" using s by (simp add: skip_ws.simps [of "_ # _"] isspace_def)
  let ?r = "skip_ws t"
  have r: "length ?r < length s" using s skip_ws_length [of t] by simp
  have i: "parsed_ok 0 (length ?r) (\<lambda>a. a = None) st (items_loop pe n (Items False [] []) ?r st)"
    by (rule items_loop_ok [OF assms(1)]) (use r assms(2,3) in linarith)+
  have close: "length (tl (skip_ws r1)) < length s" "length (skip_ws r1) < length s" if "length r1 \<le> length ?r" for r1
    using that r skip_ws_length [of r1] by (simp_all add: length_tl)
  have I: "parsed_ok 1 (length s) no_tree st (pbind (items_loop pe n (Items False [] []) ?r st) (\<lambda>items r1 st1.
      case items of None \<Rightarrow> ret Null r1 st1
      | Some (Items d ens els) \<Rightarrow>
          if \<not> at_char CHR '']'' (skip_ws r1) then syntax_error msg Null (skip_ws r1) st1
          else if d then ret (ast_expr_new (EDict ens)) (tl (skip_ws r1)) st1
          else ret (ast_expr_new (EArrayLiteral els TYPE_NIL)) (tl (skip_ws r1)) st1))" for msg
    using r close by (intro parsed_bind [OF i]) (auto simp: less_imp_le Suc_le_eq split: option.split literal_items.split)
  have t: "length (tl ?r) < length s" "length (tl (skip_ws (tl ?r))) < length s" "length (skip_ws (tl ?r)) < length s"
    using r skip_ws_length [of "tl ?r"] by (simp_all add: length_tl)
  show ?thesis
    unfolding parse_array_or_dict_def Let_def ws using s t I by (auto simp: less_imp_le Suc_le_eq)
qed

lemma string_loop_ok:
  assumes "good_parser N pe"
  shows "length r < n \<Longrightarrow> length r \<le> N \<Longrightarrow> length r \<le> m \<Longrightarrow>
    parsed_ok 0 m no_tree st (string_loop pe n b result r st)"
proof (induction n arbitrary: r st b result)
  case (Suc n)
  have rec: "parsed_ok 0 m no_tree st' (string_loop pe n b' result' q st')" if "length q < length r" for b' result' q st'
    using that Suc by simp
  show ?case
  proof (cases r)
    case (Cons c r1)
    have close: "length (skip_ws q) \<le> m" "length (tl (skip_ws q)) < length r" if "Suc (length q) \<le> length r1" for q
      using that Cons Suc.prems skip_ws_length [of q] by (simp_all add: length_tl)
    have tl: "length (tl r1) < N" "length (tl r1) \<le> length r1" using Cons Suc.prems by (simp_all add: length_tl)
    have "parsed_ok 0 m no_tree st (pbind (pe (tl r1) st) (\<lambda>e r2 st2.
        if e = Null then ret Null r2 st2
        else let r3 = skip_ws r2 in
          if \<not> at_char CHR '')'' r3 then syntax_error msg Null r3 st2
          else string_loop pe n b' (res' e) (tl r3) st2))" for msg b' res'
      using Cons Suc.prems tl close
      by (intro good_bind [OF assms, where L = "length r1"]) (auto simp: Let_def intro!: rec)
    note I = this
    have esc: "length (snd (if p then (unescape (hd r1), tl r1) else ([c], r1))) < length r" for p
      using Cons tl by (simp add: less_Suc_eq_le)
    show ?thesis
    proof (cases "c = CHR 0x22 \<or> c = CHR 0x5C \<and> at_char CHR ''('' r1")
      case True
      then show ?thesis
      proof
        assume "c = CHR 0x22"
        then show ?thesis using Cons Suc.prems by (simp add: flush_text_def joined_def split: option.split)
      next
        assume "c = CHR 0x5C \<and> at_char CHR ''('' r1"
        then show ?thesis using Cons by (simp add: Let_def I split: option.split)
      qed
    next
      case False
      obtain cs r2 where e: "(if c = CHR 0x5C \<and> r1 \<noteq> [] then (unescape (hd r1), tl r1) else ([c], r1)) = (cs, r2)"
        by (meson surj_pair)
      then have "length r2 < length r" using esc [of "c = CHR 0x5C \<and> r1 \<noteq> []"] by simp
      with False Cons show ?thesis
        by (simp add: Let_def e del: if_split) (auto intro: rec split: option.split)
    qed
  qed (use Suc.prems in simp)
qed simp

lemma parse_number_ok:
  assumes "starts_with isdigit s \<or> at_char CHR ''.'' s"
  shows "parsed_ok 1 (length s) no_tree st (parse_number s st)"
proof -
  have "number_scan False s \<noteq> []" using assms by (cases s) (auto simp: isdigit_def)
  then show ?thesis using number_scan_length [of False s]
    by (cases "number_scan False s") (auto simp: parse_number_def Let_def)
qed

lemma drop_keyword: "keyword_at w s \<Longrightarrow> w \<noteq> [] \<Longrightarrow> length (drop (length w) s) < length s"
  by (cases s) (auto simp: keyword_at_def starts_def)

lemma parse_primary_ok:
  assumes good: "good_parser N pe" and N: "length s \<le> N" and n: "length s < n" and ws: "skip_ws s = s"
  shows "parsed_ok 1 (length s) no_tree st (parse_primary pe n s st)"
proof -
  have kw: "length (drop (length w) s) < length s" if "keyword_at w s" "w \<noteq> []" for w
    by (rule drop_keyword [OF that])
  have kw': "keyword_at ''nil'' s \<Longrightarrow> length s - 3 < length s" "keyword_at ''true'' s \<Longrightarrow> length s - 4 < length s"
      "keyword_at ''false'' s \<Longrightarrow> length s - 5 < length s"
    using kw [of "''nil''"] kw [of "''true''"] kw [of "''false''"] by auto
  have close: "length (tl (skip_ws q)) < length s" "length (skip_ws q) \<le> length s" if "Suc (length q) \<le> length (tl s)" for q
    using that skip_ws_length [of q] by (simp_all add: length_tl)
  have paren: "parsed_ok 1 (length s) no_tree st (pbind (pe (tl s) st) (\<lambda>inner r st1.
      if inner = Null then ret Null r st1
      else if \<not> at_char CHR '')'' (skip_ws r) then syntax_error msg Null (skip_ws r) st1
      else ret inner (tl (skip_ws r)) st1))" if "at_char c s" for c msg
    using tl_le(1) [OF that order_refl] N close
    by (intro good_bind [OF good, where L = "length (tl s)"]) (auto simp: less_imp_le Suc_le_eq)
  have str: "parsed_ok 1 (length s) no_tree st (parse_string_literal pe n s st)" if "at_char CHR 0x22 s"
    unfolding parse_string_literal_def
    using tl_le(1) [OF that order_refl] N n
    by (intro parsed_mono [OF string_loop_ok [OF good, where m = "length (tl s)"]]) auto
  show ?thesis
    unfolding parse_primary_def ws Let_def
    using kw' paren [where msg = "''Missing closing parenthesis''"] str parse_number_ok
      parse_array_or_dict_ok [OF good N] parse_identifier_ok [OF good N] n
    by (auto simp: less_imp_le Suc_le_eq)
qed

lemma postfix_loop_ok:
  assumes good: "good_parser N pe"
  shows "length s < n \<Longrightarrow> length s \<le> N \<Longrightarrow> length s \<le> m \<Longrightarrow> (if base = Null then erred st else length s + 1 \<le> m) \<Longrightarrow>
    parsed_ok 1 m no_tree st (postfix_loop pe n base s st)"
proof (induction n arbitrary: s st base)
  case (Suc n)
  let ?r = "skip_ws s"
  have r: "length ?r \<le> length s" by (rule skip_ws_length)
  have rec: "parsed_ok (Suc 0) m no_tree st' (postfix_loop pe n (ast_expr_new b) q st')" if "length q < length s" for b q st'
    using that Suc by simp
  have close: "length (tl (skip_ws q)) < length s" "length (skip_ws q) \<le> m" if "Suc (length q) \<le> length s" for q
    using that skip_ws_length [of q] Suc.prems by (simp_all add: length_tl)
  have index: "parsed_ok 1 m no_tree st (pbind (pe (tl ?r) st) (\<lambda>idx r1 st1.
      if idx = Null then ret Null r1 st1
      else if \<not> at_char CHR '']'' (skip_ws r1) then syntax_error msg Null (skip_ws r1) st1
      else postfix_loop pe n (ast_expr_new (EIndex base idx)) (tl (skip_ws r1)) st1))" if "at_char CHR ''['' ?r" for msg
    using tl_le(1) [OF that r] Suc.prems close
    by (intro good_bind [OF good, where L = "length s"]) (auto intro: rec close)
  define chain where "chain \<longleftrightarrow> at_char CHR ''?'' ?r \<and> at_char CHR ''.'' (tl ?r)"
  define r1 where "r1 = skip_ws (if chain then tl (tl ?r) else tl ?r)"
  have r1: "length r1 < length s" if "chain \<or> at_char CHR ''.'' ?r"
  proof -
    have "length (if chain then tl (tl ?r) else tl ?r) < length s"
      using that r by (cases ?r) (auto simp: chain_def length_tl split: if_splits)
    then show ?thesis unfolding r1_def by (rule skip_ws_le)
  qed
  let ?r2 = "skip_ws (drop (length (ident_text r1)) r1)"
  have r2: "length ?r2 < length s" if "chain \<or> at_char CHR ''.'' ?r"
    using r1 [OF that] skip_ws_length [of "drop (length (ident_text r1)) r1"] by simp
  have call: "parsed_ok (Suc 0) m no_tree st (pbind (parse_argument_list pe n (tl ?r2) st) (\<lambda>args r3 st3.
      case args of None \<Rightarrow> ret Null r3 st3
      | Some xs \<Rightarrow> postfix_loop pe n (ast_expr_new (EMethodCall base mem xs ch)) r3 st3))"
    if "chain \<or> at_char CHR ''.'' ?r" for mem ch
  proof (rule parsed_bind)
    have "length (tl ?r2) < length s" using r2 [OF that] by (simp add: length_tl)
    then show "parsed_ok 1 (length (tl ?r2)) (\<lambda>a. a = None) st (parse_argument_list pe n (tl ?r2) st)"
      using Suc.prems by (intro parse_argument_list_ok [OF good]) auto
    show "parsed_ok (Suc 0) m no_tree st1 (case x of None \<Rightarrow> ret Null q st1
        | Some xs \<Rightarrow> postfix_loop pe n (ast_expr_new (EMethodCall base mem xs ch)) q st1)"
      if "length q \<le> length (tl ?r2)" "if x = None then erred st1 else length q + 1 \<le> length (tl ?r2)" for x q st1
      using that \<open>length (tl ?r2) < length s\<close> Suc.prems(3) by (auto intro!: rec split: option.split)
  qed
  have stop: "length r1 \<le> m" if "chain \<or> at_char CHR ''.'' ?r" using r1 [OF that] Suc.prems(3) by simp
  have base: "parsed_ok (Suc 0) m no_tree st (ret base ?r st)" using r Suc.prems(3,4) by auto
  show ?case
    unfolding postfix_loop.simps Let_def chain_def [symmetric] r1_def [symmetric]
    using index call stop rec r2 by (simp add: base del: parsed_ret)
qed simp

section \<open>Operators, and the knot\<close>

lemma parse_unary_ok:
  assumes good: "good_parser N pe"
  shows "length s \<le> N \<Longrightarrow> Suc (length s) < n \<Longrightarrow> parsed_ok 1 (length s) no_tree st (parse_unary pe n s st)"
proof (induction n arbitrary: s st)
  case (Suc n)
  let ?s = "skip_ws s"
  have le: "length ?s \<le> length s" by (rule skip_ws_length)
  have un: "parsed_ok 1 (length s) no_tree st (pbind (parse_unary pe n (tl ?s) st) (\<lambda>operand r st1.
      if operand = Null then ret Null r st1 else ret (ast_expr_new (EUnary (hd ?s) operand)) r st1))"
    if "at_char c ?s" for c
  proof (rule parsed_bind)
    have l: "length (tl ?s) < length s" by (rule tl_le(1) [OF that le])
    then show "parsed_ok 1 (length (tl ?s)) no_tree st (parse_unary pe n (tl ?s) st)"
      using Suc.prems by (intro Suc.IH) auto
  qed (use tl_le(1) [OF that le] in \<open>auto split: if_splits\<close>)
  have prim: "parsed_ok 1 (length s) no_tree st
      (pbind (parse_primary pe n ?s st) (\<lambda>base r st1. postfix_loop pe n base r st1))"
  proof (rule parsed_bind)
    show "parsed_ok 1 (length ?s) no_tree st (parse_primary pe n ?s st)"
      using le Suc.prems by (intro parse_primary_ok [OF good]) auto
  qed (use le Suc.prems in \<open>auto intro!: postfix_loop_ok [OF good, simplified] split: if_splits\<close>)
  show ?case using un prim by (auto simp: Let_def)
qed simp

definition operand_ok :: "nat \<Rightarrow> ASTExpr parser \<Rightarrow> bool" where
  "operand_ok N p \<longleftrightarrow> (\<forall>s st. length s \<le> N \<longrightarrow> parsed_ok 1 (length s) no_tree st (p s st))"

definition operator_ok :: "(cstring \<Rightarrow> (char \<times> cstring) option) \<Rightarrow> bool" where
  "operator_ok f \<longleftrightarrow> (\<forall>r op r1. f r = Some (op, r1) \<longrightarrow> length r1 < length r)"

lemma operators_ok: "operator_ok (op_in ops)" "operator_ok (doubled c)" "operator_ok comparison_op"
  by (auto simp: operator_ok_def op_in_def doubled_def comparison_op_def length_tl split: if_splits)
    (auto simp: at_char_def starts_with_def split: list.splits)

lemma operator_shorter: "operator_ok f \<Longrightarrow> f (skip_ws r) = Some (op, r1) \<Longrightarrow> length r1 < length r"
  using skip_ws_length [of r] unfolding operator_ok_def by (meson less_le_trans)

lemma operand_bind:
  assumes "operand_ok N p" and "length s \<le> N" and "length s \<le> L"
    and "\<And>x r st1. length r \<le> L \<Longrightarrow> (if x = Null then erred st1 else Suc (length r) \<le> L) \<Longrightarrow>
           (erred st \<Longrightarrow> erred st1) \<Longrightarrow> parsed_ok k m G st1 (f x r st1)"
  shows "parsed_ok k m G st (pbind (p s st) f)"
  using assms unfolding operand_ok_def
  by (intro good_bind [of "Suc N" p s L]) (auto simp: good_parser_def)

lemma binary_loop_ok:
  assumes "operand_ok N p" "operator_ok f"
  shows "length r < n \<Longrightarrow> length r \<le> N \<Longrightarrow> length r < m \<Longrightarrow> left \<noteq> Null \<Longrightarrow>
    parsed_ok 1 m no_tree st (binary_loop f p n left r st)"
proof (induction n arbitrary: r st left)
  case (Suc n)
  have rec: "parsed_ok (Suc 0) m no_tree st' (binary_loop f p n (ast_expr_new b) q st')" if "length q < length r" for b q st'
    using that Suc by simp
  show ?case
  proof (cases "f (skip_ws r)")
    case None
    then show ?thesis using Suc.prems skip_ws_length [of r] by simp
  next
    case (Some or1)
    obtain op r1 where or1: "or1 = (op, r1)" by (cases or1)
    then have l: "length r1 < length r" using Some operator_shorter [OF assms(2)] by simp
    then have "parsed_ok (Suc 0) m no_tree st (pbind (p r1 st) (\<lambda>right r2 st2.
        if right = Null then ret Null r2 st2
        else binary_loop f p n (ast_expr_new (EBinary op left right)) r2 st2))"
      using Suc.prems by (intro operand_bind [OF assms(1), where L = "length r1"]) (auto intro: rec)
    with Some or1 show ?thesis by simp
  qed
qed simp

lemma binary_level_ok:
  assumes "operand_ok N p" "operator_ok f" "N < n"
  shows "operand_ok N (binary_level f p n)"
  unfolding operand_ok_def binary_level_def
proof (intro allI impI)
  fix s :: cstring and st
  assume "length s \<le> N"
  with assms(3) show "parsed_ok 1 (length s) no_tree st (pbind (p s st) (\<lambda>left r st1.
      if left = Null then ret Null r st1 else binary_loop f p n left r st1))"
    by (intro operand_bind [OF assms(1), where L = "length s"]) (auto intro!: binary_loop_ok [OF assms(1,2), simplified])
qed

lemma parse_comparison_ok:
  assumes "operand_ok N (parse_term pe n)"
  shows "operand_ok N (parse_comparison pe n)"
  unfolding operand_ok_def parse_comparison_def
proof (intro allI impI operand_bind [OF assms])
  fix s :: cstring and st left and r0 :: cstring and st1
  assume s: "length s \<le> N" and r0: "length r0 \<le> length s"
    "if no_tree left then erred st1 else Suc (length r0) \<le> length s"
  show "parsed_ok 1 (length s) no_tree st1
      (if left = Null then ret Null r0 st1
       else let r = skip_ws r0 in
         case comparison_op r of None \<Rightarrow> ret left r st1
         | Some (op, r1) \<Rightarrow>
             pbind (parse_term pe n r1 st1) (\<lambda>right r2 st2.
               if right = Null then ret Null r2 st2
               else ret (ast_expr_new (EBinary op left right)) r2 st2))"
  proof (cases "comparison_op (skip_ws r0)")
    case None
    then show ?thesis using r0 skip_ws_length [of r0] by (auto simp: Let_def)
  next
    case (Some or1)
    obtain op r1 where or1: "or1 = (op, r1)" by (cases or1)
    then have l: "length r1 < length r0" using Some operator_shorter operators_ok(3) by simp
    have "parsed_ok 1 (length s) no_tree st1 (pbind (parse_term pe n r1 st1) (\<lambda>right r2 st2.
        if right = Null then ret Null r2 st2 else ret (ast_expr_new (EBinary op left right)) r2 st2))"
      using l r0 s by (intro operand_bind [OF assms, where L = "length r1"]) auto
    with r0 Some or1 show ?thesis by (auto simp: Let_def)
  qed
qed auto

lemma parse_expression_good: "good_parser n (parse_expression n)"
proof (induction n)
  case (Suc n)
  let ?pe = "parse_expression n"
  have "operand_ok n (parse_unary ?pe (Suc (Suc n)))"
    unfolding operand_ok_def by (intro allI impI parse_unary_ok [OF Suc]) auto
  then have "operand_ok n (parse_factor ?pe (Suc (Suc n)))"
    unfolding parse_factor_def by (rule binary_level_ok) (auto intro: operators_ok)
  then have "operand_ok n (parse_term ?pe (Suc (Suc n)))"
    unfolding parse_term_def by (rule binary_level_ok) (auto intro: operators_ok)
  then have "operand_ok n (parse_comparison ?pe (Suc (Suc n)))" by (rule parse_comparison_ok)
  then have "operand_ok n (parse_logical_and ?pe (Suc (Suc n)))"
    unfolding parse_logical_and_def by (rule binary_level_ok) (auto intro: operators_ok)
  then have "operand_ok n (parse_logical_or ?pe (Suc (Suc n)))"
    unfolding parse_logical_or_def by (rule binary_level_ok) (auto intro: operators_ok)
  then show ?case by (simp add: good_parser_def operand_ok_def)
qed (simp add: good_parser_def)

text \<open>
  C26: parsing any text returns: the fuel is always enough, the text left is no longer than the text
  given and shorter when a tree is returned; when no tree is returned a compile-time error is on
  record, so that the compilation fails, and errors that were on record stay.
\<close>
theorem parse_expr_total:
  "parse_expression (Suc (length s)) s st = Some (parse_expr s st) \<and>
   (\<forall>e r st'. parse_expr s st = Done (e, r, st') \<longrightarrow>
      length r \<le> length s \<and> (e \<noteq> Null \<longrightarrow> length r < length s) \<and>
      (e = Null \<longrightarrow> bread_error_has_compilation_errors st') \<and>
      (bread_error_has_compilation_errors st \<longrightarrow> bread_error_has_compilation_errors st'))"
proof -
  have "parsed_ok 1 (length s) no_tree st (parse_expression (Suc (length s)) s st)"
    using parse_expression_good [of "Suc (length s)"] by (simp add: good_parser_def)
  then show ?thesis unfolding parsed_ok_def parse_expr_def by (fastforce simp del: parse_expression.simps)
qed

theorem parse_expr_total_witness:
  "\<exists>e r st'. parse_expr '')'' error_state0 = Done (e, r, st') \<and> bread_error_has_compilation_errors st'"
proof -
  have "\<exists>st'. parse_expr '')'' error_state0 = Done (Null, '')'', st')"
    by (simp add: parse_expr_def parse_logical_or_def parse_logical_and_def parse_comparison_def parse_term_def
        parse_factor_def binary_level_def parse_primary_def skip_ws.simps isspace_def keyword_at_def starts_def
        isdigit_def is_ident_start_def isalpha_def failed_def pbind_def ret_def bread_error_set_def
        bread_error_set_with_context_def Let_def fail_fast_error_def)
  with parse_expr_total [of "'')''" error_state0] show ?thesis by blast
qed

end
