(* ===== verification/BreadExprRoundtrip.thy ===== *)
theory BreadExprRoundtrip
  imports BreadExprParser
begin

text \<open>
  What the expression parser reads back: a printer of syntax trees (a specification, not part of the
  source) and the proof that parsing inverts it, by induction on the size of the tree. The printer puts
  parentheses around an operand only where its operator binds less than the place requires, so the proof
  covers precedence and associativity: \<open>level_reads p\<close> says that the parser of the level \<open>p\<close> reads back what is
  printed for a place of that level, \<open>read_chain q\<close> says of the loops of the levels that associate to the left where
  they stand after a printed operand, and \<open>expr_reads\<close> is the statement for \<^verbatim>\<open>parse_expression\<close>. The last
  section is the one case where a string literal is written past its buffer.
\<close>


section \<open>Writing expressions\<close>

text \<open>
  A printer, to state what the parser reads: an operand stands in parentheses exactly when its operator binds
  less tightly than the place it stands in, comparisons do not associate, the other operators associate to
  the left; a target of a postfix is in parentheses, a blank around operators. It prints the trees the parser can
  build (\<open>wf_expr\<close>), doubles apart.
\<close>

definition show_char :: "char \<Rightarrow> cstring" where
  "show_char c = (if c = CHR 0x22 \<or> c = CHR 0x5C then [CHR 0x5C, c] else [c])"

definition show_string :: "cstring \<Rightarrow> cstring" where
  "show_string s = CHR 0x22 # concat (map show_char s) @ [CHR 0x22]"

fun digits :: "nat \<Rightarrow> cstring" where
  "digits n = (if n < 10 then [char_of (48 + n)] else digits (n div 10) @ [char_of (48 + n mod 10)])"

declare digits.simps [simp del]

definition op_text :: "char \<Rightarrow> cstring" where
  "op_text c = (if c = CHR ''l'' then ''<='' else if c = CHR ''g'' then ''>=''
     else if c \<in> set ''|&'' then [c, c] else if c \<in> set ''=!'' then [c, CHR ''=''] else [c])"

fun commas :: "cstring list \<Rightarrow> cstring" where
  "commas [] = []"
| "commas [s] = s"
| "commas (s # t # ss) = s @ '', '' @ commas (t # ss)"

definition parens :: "cstring \<Rightarrow> cstring" where
  "parens s = ''('' @ s @ '')''"

definition op_level :: "char \<Rightarrow> nat" where
  \<comment> \<open>how tightly a binary operator binds\<close>
  "op_level c = (if c = CHR ''|'' then 1 else if c = CHR ''&'' then 2 else if c \<in> set ''=!lg<>'' then 3
     else if c \<in> set ''+-'' then 4 else 5)"

definition left_level :: "char \<Rightarrow> nat" where
  "left_level c = (if op_level c = 3 then 4 else op_level c)"

definition enclose :: "bool \<Rightarrow> cstring \<Rightarrow> cstring" where
  "enclose b s = (if b then parens s else s)"

function show_at :: "nat \<Rightarrow> ASTExpr \<Rightarrow> cstring" where
  \<comment> \<open>for a place that takes operators of the level \<open>p\<close> or above; 6 are the unary operators, 7 takes none\<close>
  "show_at p e =
     (case e of Null \<Rightarrow> []
      | Expr nt k \<Rightarrow> (case k of
          ENil \<Rightarrow> ''nil''
        | EBool b \<Rightarrow> if b then ''true'' else ''false''
        | EInt i \<Rightarrow> digits (unat i)
        | EVar x \<Rightarrow> x
        | ESelf \<Rightarrow> ''self''
        | ESuper \<Rightarrow> ''super''
        | EBinary c l r \<Rightarrow> enclose (op_level c < p)
            (show_at (left_level c) l @ '' '' @ op_text c @ '' '' @ show_at (Suc (op_level c)) r)
        | EUnary c x \<Rightarrow> enclose (6 < p) (c # show_at 6 x)
        | ECall f xs \<Rightarrow> f @ parens (commas (map (show_at 0) xs))
        | EIndex t i \<Rightarrow> parens (show_at 0 t) @ ''['' @ show_at 0 i @ '']''
        | EMember t m ch \<Rightarrow> parens (show_at 0 t) @ (if ch then ''?.'' else ''.'') @ m
        | EMethodCall t m xs ch \<Rightarrow> parens (show_at 0 t) @ (if ch then ''?.'' else ''.'') @ m @ parens (commas (map (show_at 0) xs))
        | EStringLiteral s \<Rightarrow> show_string s
        | EArrayLiteral xs ty \<Rightarrow> ''['' @ commas (map (show_at 0) xs) @ '']''
        | EDict kvs \<Rightarrow> if kvs = [] then ''[:]''
            else ''['' @ commas (map (\<lambda>(a, b). show_at 0 a @ '': '' @ show_at 0 b) kvs) @ '']''
        | EStructLiteral n fs \<Rightarrow> n @ ''{'' @ commas (map (\<lambda>(f, x). f @ '': '' @ show_at 0 x) fs) @ ''}''
        | _ \<Rightarrow> []))"
  by pat_completeness auto
termination
  by (relation "measure (size \<circ> snd)") (auto simp: less_Suc_eq_le dest: tree_sizes)

declare show_at.simps [simp del]

abbreviation show_expr :: "ASTExpr \<Rightarrow> cstring" where
  "show_expr \<equiv> show_at 0"

definition keyword_names :: "cstring list" where
  "keyword_names = [''nil'', ''true'', ''false'', ''self'', ''super'']"

definition is_ident :: "cstring \<Rightarrow> bool" where
  "is_ident x \<longleftrightarrow> starts_with is_ident_start x \<and> (\<forall>c \<in> set x. is_ident_char c)"

definition var_ident :: "cstring \<Rightarrow> bool" where
  "var_ident x \<longleftrightarrow> is_ident x \<and> x \<notin> set keyword_names"

function wf_expr :: "ASTExpr \<Rightarrow> bool" where
  "wf_expr e =
     (case e of Null \<Rightarrow> False
      | Expr nt k \<Rightarrow> (case k of
          EBool b \<Rightarrow> e = ast_expr_tagged k TYPE_BOOL
        | EInt i \<Rightarrow> e = ast_expr_tagged k TYPE_INT \<and> unat i < 2 ^ 31
        | EStringLiteral s \<Rightarrow> e = ast_expr_tagged k TYPE_STRING
        | ENil \<Rightarrow> e = ast_expr_new k | ESelf \<Rightarrow> e = ast_expr_new k | ESuper \<Rightarrow> e = ast_expr_new k
        | EVar x \<Rightarrow> e = ast_expr_new k \<and> var_ident x
        | EBinary c l r \<Rightarrow> e = ast_expr_new k \<and> c \<in> set ''|&=!lg<>+-*/%'' \<and> wf_expr l \<and> wf_expr r
        | EUnary c x \<Rightarrow> e = ast_expr_new k \<and> c \<in> set ''!-'' \<and> wf_expr x
        | ECall f xs \<Rightarrow> e = ast_expr_new k \<and> var_ident f \<and> (\<forall>x \<in> set xs. wf_expr x)
        | EIndex t i \<Rightarrow> e = ast_expr_new k \<and> wf_expr t \<and> wf_expr i
        | EMember t m ch \<Rightarrow> e = ast_expr_new k \<and> wf_expr t \<and> is_ident m
        | EMethodCall t m xs ch \<Rightarrow> e = ast_expr_new k \<and> wf_expr t \<and> is_ident m \<and> (\<forall>x \<in> set xs. wf_expr x)
        | EArrayLiteral xs ty \<Rightarrow> e = ast_expr_new k \<and> ty = TYPE_NIL \<and> (\<forall>x \<in> set xs. wf_expr x)
        | EDict kvs \<Rightarrow> e = ast_expr_new k \<and> (\<forall>(a, b) \<in> set kvs. wf_expr a \<and> wf_expr b)
        | EStructLiteral n fs \<Rightarrow> e = ast_expr_new k \<and> var_ident n \<and> (\<forall>(f, x) \<in> set fs. is_ident f \<and> wf_expr x)
        | _ \<Rightarrow> False))"
  by pat_completeness auto
termination
  by (relation "measure size") (auto simp: less_Suc_eq_le dest: tree_sizes)

declare wf_expr.simps [simp del]

section \<open>Reading back\<close>

definition stop :: "cstring \<Rightarrow> bool" where
  \<comment> \<open>what may follow a primary expression with its postfixes\<close>
  "stop r \<longleftrightarrow> \<not> starts_with is_ident_char r \<and> \<not> at_char CHR ''.'' r \<and>
     \<not> starts_with (\<lambda>c. c \<in> set ''[.({?'') (skip_ws r)"

definition closing :: "cstring \<Rightarrow> bool" where
  "closing r \<longleftrightarrow> r = [] \<or> starts_with (\<lambda>c. c \<in> set '')],:}'') r"

lemma skip_ws_Nil [simp]: "skip_ws [] = []"
  by (simp add: skip_ws.simps)

lemma skip_ws_Cons: "skip_ws (c # s) = (if isspace c then skip_ws s
    else if c = CHR ''/'' \<and> at_char CHR ''/'' s then skip_ws (skip_line s) else c # s)"
  by (simp add: skip_ws.simps)

lemma isspace_simps [simp]: "isspace CHR '' ''" "\<not> isspace CHR '')''" "\<not> isspace CHR ''(''" "\<not> isspace CHR ''[''"
  "\<not> isspace CHR '']''" "\<not> isspace CHR '',''" "\<not> isspace CHR '':''" "\<not> isspace CHR ''{''" "\<not> isspace CHR ''}''"
  "\<not> isspace CHR 0x22" "\<not> isspace CHR ''.''" "\<not> isspace CHR ''?''" "\<not> isspace CHR ''!''" "\<not> isspace CHR ''-''"
  "\<not> isspace CHR ''|''" "\<not> isspace CHR ''&''" "\<not> isspace CHR ''=''" "\<not> isspace CHR ''<''" "\<not> isspace CHR ''>''"
  "\<not> isspace CHR ''+''" "\<not> isspace CHR ''*''" "\<not> isspace CHR ''/''" "\<not> isspace CHR ''%''"
  by (simp_all add: isspace_def)

lemma closing_cases: "closing r \<Longrightarrow> r = [] \<or> (\<exists>c s. r = c # s \<and> c \<in> set '')],:}'')"
  by (cases r) (auto simp: closing_def)

lemma closing_skip [simp]: "closing r \<Longrightarrow> skip_ws r = r"
  by (drule closing_cases) (auto simp: skip_ws_Cons)

lemma closing_stop: "closing r \<Longrightarrow> stop r"
  by (drule closing_cases) (auto simp: stop_def skip_ws_Cons is_ident_char_def isalpha_def isdigit_def)

lemma pbind_ret [simp]: "pbind (ret x r st) f = f x r st"
  by (simp add: pbind_def ret_def)

lemma closing_Cons [simp]: "closing (c # s) \<longleftrightarrow> c \<in> set '')],:}''"
  by (simp add: closing_def)

definition reads :: "ASTExpr parser \<Rightarrow> ASTExpr \<Rightarrow> cstring \<Rightarrow> cstring \<Rightarrow> bool" where
  "reads p e s r \<longleftrightarrow> (\<forall>st. p s st = ret e (skip_ws r) st)"

lemma level_pass:
  assumes "reads p e s r" "f (skip_ws r) = None" "e \<noteq> Null" "0 < n"
  shows "reads (binary_level f p n) e s r"
  using assms by (cases n) (auto simp: reads_def binary_level_def)

lemma level_op:
  assumes "reads p l s r1" "f (skip_ws r1) = Some (c, s2)" "reads p x s2 r" "f (skip_ws r) = None"
    "l \<noteq> Null" "x \<noteq> Null" "Suc 0 < n"
  shows "reads (binary_level f p n) (ast_expr_new (EBinary c l x)) s r"
proof -
  obtain k where "n = Suc (Suc k)" using assms(7) by (metis less_imp_Suc_add add_Suc)
  then show ?thesis using assms by (auto simp: reads_def binary_level_def)
qed

definition level_ops :: "cstring \<Rightarrow> (char \<times> cstring) option list" where
  \<comment> \<open>the operators of the five levels at the cursor, innermost first\<close>
  "level_ops r = [op_in ''*/%'' r, op_in ''+-'' r, comparison_op r, doubled CHR ''&'' r, doubled CHR ''|'' r]"

lemma closing_no_ops: "closing r \<Longrightarrow> level_ops (skip_ws r) = [None, None, None, None, None]"
proof -
  assume r: "closing r"
  have "\<forall>c \<in> set '')],:}''. level_ops (c # s) = [None, None, None, None, None]" for s
    by (simp add: level_ops_def op_in_def comparison_op_def doubled_def)
  moreover have "level_ops [] = [None, None, None, None, None]"
    by (simp add: level_ops_def op_in_def comparison_op_def doubled_def)
  ultimately show "level_ops (skip_ws r) = [None, None, None, None, None]"
    using closing_cases [OF r] closing_skip [OF r] by metis
qed

lemma reads_factor:
  "reads (parse_unary pe n) e s r \<Longrightarrow> level_ops (skip_ws r) ! 0 = None \<Longrightarrow> e \<noteq> Null \<Longrightarrow> 0 < n \<Longrightarrow> reads (parse_factor pe n) e s r"
  unfolding parse_factor_def by (rule level_pass) (simp_all add: level_ops_def)

lemma reads_term:
  "reads (parse_factor pe n) e s r \<Longrightarrow> level_ops (skip_ws r) ! 1 = None \<Longrightarrow> e \<noteq> Null \<Longrightarrow> 0 < n \<Longrightarrow> reads (parse_term pe n) e s r"
  unfolding parse_term_def by (rule level_pass) (simp_all add: level_ops_def)

lemma reads_comparison:
  "reads (parse_term pe n) e s r \<Longrightarrow> level_ops (skip_ws r) ! 2 = None \<Longrightarrow> e \<noteq> Null \<Longrightarrow> 0 < n \<Longrightarrow> reads (parse_comparison pe n) e s r"
  unfolding parse_comparison_def reads_def by (simp add: level_ops_def Let_def)

lemma reads_and:
  "reads (parse_comparison pe n) e s r \<Longrightarrow> level_ops (skip_ws r) ! 3 = None \<Longrightarrow> e \<noteq> Null \<Longrightarrow> 0 < n \<Longrightarrow> reads (parse_logical_and pe n) e s r"
  unfolding parse_logical_and_def by (rule level_pass) (simp_all add: level_ops_def)

lemma reads_or:
  "reads (parse_logical_and pe n) e s r \<Longrightarrow> level_ops (skip_ws r) ! 4 = None \<Longrightarrow> e \<noteq> Null \<Longrightarrow> 0 < n \<Longrightarrow> reads (parse_logical_or pe n) e s r"
  unfolding parse_logical_or_def by (rule level_pass) (simp_all add: level_ops_def)

lemma op_text_ops:
  assumes "c \<in> set ''|&=!lg<>+-*/%''"
  shows "level_ops (op_text c @ CHR '' '' # s) =
    map (\<lambda>cs. if c \<in> set cs then Some (c, CHR '' '' # s) else None) [''*/%'', ''+-'', ''=!lg<>'', ''&'', ''|'']"
  using assms by (auto simp: level_ops_def op_text_def op_in_def comparison_op_def doubled_def)

lemma op_text_skip:
  assumes "c \<in> set ''|&=!lg<>+-*/%''"
  shows "skip_ws (CHR '' '' # op_text c @ CHR '' '' # s) = op_text c @ CHR '' '' # s"
proof -
  have "\<forall>c \<in> set ''|&=!lg<>+-*/%''. skip_ws (op_text c @ CHR '' '' # s) = op_text c @ CHR '' '' # s"
    by (simp add: op_text_def skip_ws_Cons)
  from bspec [OF this assms] show ?thesis by (subst skip_ws_Cons) simp
qed

text \<open>The levels of the grammar, and what may follow an expression of a level.\<close>

definition level_parser :: "nat \<Rightarrow> ASTExpr parser \<Rightarrow> nat \<Rightarrow> ASTExpr parser" where
  "level_parser p = (if p \<le> 1 then parse_logical_or else if p = 2 then parse_logical_and
     else if p = 3 then parse_comparison else if p = 4 then parse_term else if p = 5 then parse_factor else parse_unary)"

definition ends_level :: "nat \<Rightarrow> cstring \<Rightarrow> bool" where
  \<comment> \<open>no operator of the level \<open>p\<close> or above follows\<close>
  "ends_level p r \<longleftrightarrow> stop r \<and> (\<forall>i < 5. p \<le> 5 - i \<longrightarrow> level_ops (skip_ws r) ! i = None)"

lemma ends_mono: "ends_level p r \<Longrightarrow> p \<le> q \<Longrightarrow> ends_level q r"
  by (auto simp: ends_level_def)

lemma ends_stop: "ends_level p r \<Longrightarrow> stop r"
  by (simp add: ends_level_def)

lemma ends_high: "5 < p \<Longrightarrow> ends_level p r = stop r"
  by (auto simp: ends_level_def)

lemma closing_ends: "closing r \<Longrightarrow> ends_level p r"
proof -
  assume r: "closing r"
  have "[None, None, None, None, None] ! i = None" if "i < 5" for i using that by (auto simp: nth_Cons')
  with closing_stop [OF r] show ?thesis unfolding ends_level_def closing_no_ops [OF r] by blast
qed

lemma pass_one:
  assumes "reads (level_parser (Suc p) pe n) e s r" "ends_level p r" "1 \<le> p" "e \<noteq> Null" "0 < n"
  shows "reads (level_parser p pe n) e s r"
proof -
  have no: "level_ops (skip_ws r) ! i = None" if "i < 5" "p \<le> 5 - i" for i using assms(2) that by (simp add: ends_level_def)
  consider "p = 1" | "p = 2" | "p = 3" | "p = 4" | "p = 5" | "5 < p" using assms(3) by linarith
  then show ?thesis
  proof cases
    case 1
    then show ?thesis using assms(1,4,5) no [of 4] by (simp add: level_parser_def reads_or)
  next
    case 2
    then show ?thesis using assms(1,4,5) no [of 3] by (simp add: level_parser_def reads_and)
  next
    case 3
    then show ?thesis using assms(1,4,5) no [of 2] by (simp add: level_parser_def reads_comparison)
  next
    case 4
    then show ?thesis using assms(1,4,5) no [of 1] by (simp add: level_parser_def reads_term)
  next
    case 5
    then show ?thesis using assms(1,4,5) no [of 0] by (simp add: level_parser_def reads_factor)
  qed (use assms(1) in \<open>simp add: level_parser_def\<close>)
qed

lemma pass_down:
  assumes "p \<le> q" "reads (level_parser q pe n) e s r" "ends_level p r" "1 \<le> p" "e \<noteq> Null" "0 < n"
  shows "reads (level_parser p pe n) e s r"
  using assms(1)
proof (rule inc_induct)
  fix i assume i: "p \<le> i" "reads (level_parser (Suc i) pe n) e s r"
  then show "reads (level_parser i pe n) e s r" using pass_one ends_mono [OF assms(3) i(1)] assms(4-6) by simp
qed (rule assms(2))

lemma level_space: "level_parser p pe n (CHR '' '' # s) st = level_parser p pe n s st"
proof -
  have u: "parse_unary pe n (CHR '' '' # s) st = parse_unary pe n s st" for st
    by (cases n) (simp_all add: skip_ws_Cons [of "CHR '' ''"])
  have f: "parse_factor pe n (CHR '' '' # s) st = parse_factor pe n s st" for st by (simp add: parse_factor_def binary_level_def u)
  have t: "parse_term pe n (CHR '' '' # s) st = parse_term pe n s st" for st by (simp add: parse_term_def binary_level_def f)
  have c: "parse_comparison pe n (CHR '' '' # s) st = parse_comparison pe n s st" for st by (simp add: parse_comparison_def t)
  have a: "parse_logical_and pe n (CHR '' '' # s) st = parse_logical_and pe n s st" for st
    by (simp add: parse_logical_and_def binary_level_def c)
  have o: "parse_logical_or pe n (CHR '' '' # s) st = parse_logical_or pe n s st" for st
    by (simp add: parse_logical_or_def binary_level_def a)
  show ?thesis by (simp add: level_parser_def u f t c a o)
qed

lemma reads_space: "reads (level_parser p pe n) e s r \<Longrightarrow> reads (level_parser p pe n) e (CHR '' '' # s) r"
  by (simp add: reads_def level_space)

lemma loop_level:
  assumes "q \<in> {1, 2, 4, 5}"
  shows "level_parser q pe n = binary_level (\<lambda>r. level_ops r ! (5 - q)) (level_parser (Suc q) pe n) n"
  using assms
  by (auto simp: level_parser_def level_ops_def parse_factor_def parse_term_def parse_logical_and_def parse_logical_or_def)

text \<open>An operator that follows an operand.\<close>

lemma op_level_range: "1 \<le> op_level c" "op_level c \<le> 5"
  by (auto simp: op_level_def)

lemma op_at:
  assumes "c \<in> set ''|&=!lg<>+-*/%''"
  shows "level_ops (skip_ws (CHR '' '' # op_text c @ CHR '' '' # t)) ! (5 - op_level c) = Some (c, CHR '' '' # t)"
proof -
  have "\<forall>c \<in> set ''|&=!lg<>+-*/%''. map (\<lambda>cs. if c \<in> set cs then Some (c, CHR '' '' # t) else None)
      [''*/%'', ''+-'', ''=!lg<>'', ''&'', ''|''] ! (5 - op_level c) = Some (c, CHR '' '' # t)"
    by (simp add: op_level_def)
  from bspec [OF this assms] show ?thesis unfolding op_text_skip [OF assms] op_text_ops [OF assms] .
qed

lemma stop_op: "c \<in> set ''|&=!lg<>+-*/%'' \<Longrightarrow> stop (CHR '' '' # op_text c @ CHR '' '' # s)"
proof -
  assume c: "c \<in> set ''|&=!lg<>+-*/%''"
  have "\<forall>c \<in> set ''|&=!lg<>+-*/%''. \<not> starts_with (\<lambda>d. d \<in> set ''[.({?'') (op_text c @ CHR '' '' # s)"
    by (simp add: op_text_def)
  from bspec [OF this c] op_text_skip [OF c, of s] show ?thesis
    by (simp add: stop_def is_ident_char_def isalpha_def isdigit_def)
qed

lemma ends_op:
  assumes "c \<in> set ''|&=!lg<>+-*/%''"
  shows "ends_level (Suc (op_level c)) (CHR '' '' # op_text c @ CHR '' '' # t)"
proof -
  have "\<forall>c \<in> set ''|&=!lg<>+-*/%''. \<forall>i \<in> {0, 1, 2, 3, 4}. Suc (op_level c) \<le> 5 - i \<longrightarrow>
      map (\<lambda>cs. if c \<in> set cs then Some (c, CHR '' '' # t) else None) [''*/%'', ''+-'', ''=!lg<>'', ''&'', ''|''] ! i = None"
    by (simp add: op_level_def)
  note none = bspec [OF bspec [OF this assms]]
  have few: "i \<in> {0, 1, 2, 3, 4}" if "i < 5" for i :: nat using that by auto
  have "Suc (op_level c) \<le> 5 - i \<longrightarrow> level_ops (skip_ws (CHR '' '' # op_text c @ CHR '' '' # t)) ! i = None" if "i < 5" for i
    unfolding op_text_skip [OF assms] op_text_ops [OF assms] by (rule none [OF few [OF that]])
  with stop_op [OF assms] show ?thesis unfolding ends_level_def by blast
qed

section \<open>The first character, names, numbers and strings\<close>

definition head_char :: "char \<Rightarrow> bool" where
  "head_char c \<longleftrightarrow> is_ident_start c \<or> isdigit c \<or> c \<in> set [CHR ''('', CHR ''['', CHR 0x22]"

lemma head_char_not: "head_char c \<Longrightarrow> \<not> isspace c \<and> c \<notin> set ''/)],:}!-{.?''"
  by (auto simp: head_char_def is_ident_start_def isdigit_def isalpha_def isspace_def)

definition expr_head :: "char \<Rightarrow> bool" where
  \<comment> \<open>what an expression can begin with\<close>
  "expr_head c \<longleftrightarrow> head_char c \<or> c \<in> set ''!-''"

lemma expr_head_not: "expr_head c \<Longrightarrow> \<not> isspace c \<and> c \<notin> set ''/)],:}''"
  using head_char_not [of c] by (auto simp: expr_head_def)

lemma head_expr: "starts_with head_char s \<Longrightarrow> starts_with expr_head s"
  by (cases s) (auto simp: expr_head_def)

lemma head_skip: "starts_with head_char s \<Longrightarrow> skip_ws s = s"
  by (cases s) (auto simp: skip_ws_Cons dest: head_char_not)

lemma digits_all: "c \<in> set (digits n) \<Longrightarrow> isdigit c"
proof (induction n rule: digits.induct)
  case (1 n)
  have "isdigit (char_of (48 + k))" if "k < 10" for k :: nat
    using that by (simp add: isdigit_def)
  with 1 show ?case by (subst (asm) digits.simps) (auto split: if_splits)
qed

lemma digits_nonempty [simp]: "digits n \<noteq> []"
  by (subst digits.simps) simp

lemma decimal_snoc: "decimal (ds @ [c]) = 10 * decimal ds + (of_char c - 48)"
  by (simp add: decimal_def)

lemma decimal_digits: "decimal (digits n) = n"
proof (induction n rule: digits.induct)
  case (1 n)
  show ?case
  proof (cases "n < 10")
    case True
    then show ?thesis by (simp add: digits.simps [of n] decimal_def)
  next
    case False
    with 1 show ?thesis by (simp add: digits.simps [of n] decimal_snoc)
  qed
qed

lemma length_digits: "n < 10 ^ k \<Longrightarrow> 0 < k \<Longrightarrow> length (digits n) \<le> k"
proof (induction k arbitrary: n)
  case (Suc k)
  show ?case
  proof (cases "n < 10")
    case False
    then have "0 < k" using Suc.prems by (cases k) auto
    moreover have "n div 10 < 10 ^ k" using Suc.prems by (simp add: less_mult_imp_div_less mult.commute)
    ultimately show ?thesis using Suc.IH False by (subst digits.simps) simp
  qed (simp add: digits.simps)
qed simp

lemma atoi_small: "unat i < 2 ^ 31 \<Longrightarrow> atoi (digits (unat i)) = i"
proof -
  assume i: "unat i < 2 ^ 31"
  have "sint (of_nat (unat i) :: 32 word) = int (unat i)"
    using i by (simp add: signed_of_nat signed_take_bit_int_eq_self del: of_nat_unat)
  then show ?thesis using i by (simp add: atoi_def decimal_digits scast_eq)
qed

lemma number_scan_digits:
  "\<forall>c \<in> set ds. isdigit c \<Longrightarrow> \<not> starts_with isdigit r \<Longrightarrow> \<not> at_char CHR ''.'' r \<Longrightarrow> number_scan False (ds @ r) = ds"
proof (induction ds)
  case Nil
  then show ?case by (cases r) auto
qed simp

lemma read_number:
  assumes "unat i < 2 ^ 31" "stop r"
  shows "parse_number (digits (unat i) @ r) st = ret (ast_expr_tagged (EInt i) TYPE_INT) r st"
proof -
  have "\<not> starts_with isdigit r" "\<not> at_char CHR ''.'' r"
    using assms(2) by (auto simp: stop_def is_ident_char_def starts_with_def split: list.splits)
  then have "number_scan False (digits (unat i) @ r) = digits (unat i)"
    by (intro number_scan_digits) (auto intro: digits_all)
  moreover have "length (digits (unat i)) < EXPR_TOKEN_LEN"
    using length_digits [of "unat i" 10] assms(1) by (simp add: EXPR_TOKEN_LEN_def)
  moreover have "CHR ''.'' \<notin> set (digits (unat i))" using digits_all [of "CHR ''.''"] by (auto simp: isdigit_def)
  ultimately show ?thesis using assms(1) by (simp add: parse_number_def Let_def atoi_small)
qed

lemma ident_text_append: "is_ident x \<Longrightarrow> \<not> starts_with is_ident_char r \<Longrightarrow> ident_text (x @ r) = x"
  unfolding ident_text_def is_ident_def by (rule takeWhile_append_stop) auto

lemma keyword_ident:
  assumes "is_ident x" "is_ident w" "\<not> starts_with is_ident_char r"
  shows "keyword_at w (x @ r) \<longleftrightarrow> x = w"
proof
  assume k: "keyword_at w (x @ r)"
  then have "x @ r = w @ drop (length w) (x @ r)" by (metis append_take_drop_id keyword_at_def starts_def)
  then have "ident_text (x @ r) = w"
    using k ident_text_append [OF assms(2)] by (metis keyword_at_def)
  with ident_text_append [OF assms(1,3)] show "x = w" by simp
qed (use assms in \<open>simp add: keyword_at_def starts_def\<close>)

lemma is_ident_keywords: "w \<in> set keyword_names \<Longrightarrow> is_ident w"
proof -
  have "\<forall>w \<in> set keyword_names. is_ident w"
    by (simp add: keyword_names_def is_ident_def is_ident_start_def is_ident_char_def isalpha_def)
  then show "w \<in> set keyword_names \<Longrightarrow> is_ident w" by blast
qed

lemma show_string_loop:
  "length (chars b) + 1 \<le> capacity b \<Longrightarrow> 64 \<le> capacity b \<Longrightarrow> length (concat (map show_char s)) < n \<Longrightarrow>
   string_loop pe n b Null (concat (map show_char s) @ CHR 0x22 # r) st = ret (string_node (chars b @ s)) r st"
proof (induction s arbitrary: b n)
  case Nil
  then show ?case by (cases n) (auto simp: flush_text_def buf_text_def joined_def)
next
  case (Cons c s)
  obtain m where n: "n = Suc m" using Cons.prems(3) by (cases n) auto
  let ?b = "(buf_room b)\<lparr>chars := chars b @ [c]\<rparr>"
  have add: "buf_add [c] (buf_room b) = Some ?b" "length (chars ?b) + 1 \<le> capacity ?b" "64 \<le> capacity ?b"
    using Cons.prems(1,2) by (auto simp: buf_add_def buf_room_def)
  have "string_loop pe m ?b Null (concat (map show_char s) @ CHR 0x22 # r) st = ret (string_node (chars b @ c # s)) r st"
  proof -
    have "0 < length (show_char c)" by (simp add: show_char_def)
    then have "length (concat (map show_char s)) < m" using Cons.prems(3) n by (simp del: length_greater_0_conv)
    then show ?thesis using Cons.IH [OF add(2,3), of m] by simp
  qed
  then show ?case
  proof (cases "c = CHR 0x22 \<or> c = CHR 0x5C")
    case True
    then have "show_char c = [CHR 0x5C, c]" "unescape c = [c]" by (auto simp: show_char_def unescape_def)
    with True add(1) n show "string_loop pe n b Null (concat (map show_char (c # s)) @ CHR 0x22 # r) st = ret (string_node (chars b @ c # s)) r st"
      using \<open>string_loop pe m ?b Null _ st = _\<close> by (auto simp: Let_def)
  next
    case False
    then have "show_char c = [c]" by (auto simp: show_char_def)
    with False add(1) n show "string_loop pe n b Null (concat (map show_char (c # s)) @ CHR 0x22 # r) st = ret (string_node (chars b @ c # s)) r st"
      using \<open>string_loop pe m ?b Null _ st = _\<close> by (auto simp: Let_def)
  qed
qed

section \<open>Lists of expressions\<close>

definition expr_reads :: "ASTExpr \<Rightarrow> bool" where
  "expr_reads e \<longleftrightarrow> e \<noteq> Null \<and> starts_with expr_head (show_expr e) \<and>
     (\<forall>k r st. closing r \<longrightarrow> Suc (length (show_expr e @ r)) < k \<longrightarrow>
        parse_expression k (show_expr e @ r) st = ret e r st \<and>
        parse_expression k (CHR '' '' # show_expr e @ r) st = ret e r st)"

lemma commas_Cons: "commas (s # ss) = s @ (if ss = [] then [] else '', '' @ commas ss)"
  by (cases ss) auto

lemma expr_readsD:
  assumes "expr_reads e"
  shows "e \<noteq> Null" "skip_ws (show_expr e @ r) = show_expr e @ r" "show_expr e @ r \<noteq> []"
    "c \<in> set '')],:}'' \<Longrightarrow> \<not> at_char c (show_expr e @ r)" "0 < length (show_expr e)"
    "closing r \<Longrightarrow> Suc (length (show_expr e @ r)) < k \<Longrightarrow> parse_expression k (show_expr e @ r) st = ret e r st"
    "closing r \<Longrightarrow> Suc (length (show_expr e @ r)) < k \<Longrightarrow> parse_expression k (CHR '' '' # show_expr e @ r) st = ret e r st"
proof -
  obtain d s where d: "show_expr e = d # s" "expr_head d" using assms by (cases "show_expr e") (auto simp: expr_reads_def)
  then show "skip_ws (show_expr e @ r) = show_expr e @ r" using expr_head_not [of d] by (auto simp: skip_ws_Cons)
  show "\<not> at_char c (show_expr e @ r)" if "c \<in> set '')],:}''"
    using d expr_head_not [of d] that by auto
qed (use assms in \<open>auto simp: expr_reads_def\<close>)

lemma args_read:
  assumes "xs \<noteq> []" "\<forall>x \<in> set xs. expr_reads x" "Suc (length (commas (map show_expr xs) @ CHR '')'' # r)) < k"
    "length (commas (map show_expr xs)) < n"
  shows "args_loop (parse_expression k) n acc (commas (map show_expr xs) @ CHR '')'' # r) st =
    ret (Some (acc @ xs)) (CHR '')'' # r) st"
  using assms
proof (induction xs arbitrary: n acc st)
  case (Cons x xs)
  then have x: "expr_reads x" by simp
  obtain m where n: "n = Suc m" using Cons.prems(4) by (cases n) auto
  show ?case
  proof (cases "xs = []")
    case True
    with n Cons.prems(3) show ?thesis
      by (simp add: commas_Cons expr_readsD [OF x])
  next
    case False
    let ?t = "commas (map show_expr xs) @ CHR '')'' # r"
    have t: "commas (map show_expr (x # xs)) @ CHR '')'' # r = show_expr x @ CHR '','' # CHR '' '' # ?t"
      using False by (simp add: commas_Cons)
    obtain y ys where xs: "xs = y # ys" using False by (cases xs) auto
    with Cons.prems(2) have y: "expr_reads y" by simp
    then have sk: "skip_ws (CHR '' '' # ?t) = ?t" using xs by (simp add: skip_ws_Cons commas_Cons expr_readsD)
    have "args_loop (parse_expression k) m (acc @ [x]) ?t st = ret (Some ((acc @ [x]) @ xs)) (CHR '')'' # r) st"
      using Cons.prems(2,3,4) n t False by (intro Cons.IH) auto
    then show ?thesis unfolding t n
      using Cons.prems(3) t sk by (simp add: expr_readsD [OF x])
  qed
qed simp

lemma argument_list_reads:
  assumes "\<forall>x \<in> set xs. expr_reads x" "Suc (length (commas (map show_expr xs) @ CHR '')'' # r)) < k"
    "length (commas (map show_expr xs)) < n"
  shows "parse_argument_list (parse_expression k) n (commas (map show_expr xs) @ CHR '')'' # r) st = ret (Some xs) r st"
proof (cases xs)
  case Nil
  then show ?thesis by (simp add: parse_argument_list_def Let_def skip_ws_Cons)
next
  case (Cons x ys)
  then have x: "expr_reads x" using assms(1) by simp
  have "skip_ws (commas (map show_expr xs) @ CHR '')'' # r) = commas (map show_expr xs) @ CHR '')'' # r"
    "\<not> at_char CHR '')'' (commas (map show_expr xs) @ CHR '')'' # r)"
    using Cons expr_readsD [OF x] by (auto simp: commas_Cons)
  then show ?thesis
    using args_read [of xs r k n "[]" st] assms Cons by (simp add: parse_argument_list_def Let_def skip_ws_Cons)
qed

definition show_field :: "cstring \<times> ASTExpr \<Rightarrow> cstring" where
  "show_field = (\<lambda>(f, x). f @ '': '' @ show_expr x)"

lemma fields_read:
  assumes "\<forall>(f, x) \<in> set fs. is_ident f \<and> expr_reads x" "Suc (length (commas (map show_field fs) @ CHR ''}'' # r)) < k"
    "length (commas (map show_field fs)) < n"
  shows "fields_loop (parse_expression k) n acc (commas (map show_field fs) @ CHR ''}'' # r) st =
    ret (Some (acc @ fs)) (CHR ''}'' # r) st"
  using assms
proof (induction fs arbitrary: n acc st)
  case Nil
  then show ?case by (cases n) auto
next
  case (Cons fx fs)
  obtain f x where fx: "fx = (f, x)" by (cases fx)
  then have x: "expr_reads x" and f: "is_ident f" using Cons.prems(1) by auto
  obtain m where n: "n = Suc m" using Cons.prems(3) by (cases n) auto
  define t where "t = (if fs = [] then CHR ''}'' # r else CHR '','' # CHR '' '' # commas (map show_field fs) @ CHR ''}'' # r)"
  have all: "commas (map show_field (fx # fs)) @ CHR ''}'' # r = f @ CHR '':'' # CHR '' '' # show_expr x @ t"
    by (simp add: commas_Cons fx show_field_def t_def)
  have closing: "closing t" by (simp add: t_def)
  obtain c f' where c: "f = c # f'" "is_ident_start c" using f by (cases f) (auto simp: is_ident_def)
  have id: "ident_text (f @ CHR '':'' # q) = f" for q
    by (rule ident_text_append [OF f]) (simp add: is_ident_char_def isalpha_def isdigit_def)
  have pe: "parse_expression k (CHR '' '' # show_expr x @ t) st = ret x t st"
    using Cons.prems(2) [unfolded all] closing c by (intro expr_readsD(7) [OF x]) auto
  have sk: "skip_ws (CHR '' '' # commas (map show_field fs) @ q) = commas (map show_field fs) @ q" if ne: "fs \<noteq> []" for q
  proof -
    obtain g y gs where "fs = (g, y) # gs" using ne by (cases fs) auto
    moreover from this Cons.prems(1) have "starts_with is_ident_start g" by (simp add: is_ident_def)
    ultimately have "starts_with is_ident_start (commas (map show_field fs) @ q)"
      by (cases g) (auto simp: commas_Cons show_field_def)
    then show ?thesis by (simp add: skip_ws_Cons skip_ws_ident)
  qed
  have "fields_loop (parse_expression k) m (acc @ [fx]) (commas (map show_field fs) @ CHR ''}'' # r) st =
      ret (Some ((acc @ [fx]) @ fs)) (CHR ''}'' # r) st" if "fs \<noteq> []"
    using Cons.prems n that by (intro Cons.IH) (auto simp: commas_Cons)
  moreover have "c \<noteq> CHR ''}''" using c(2) by (auto simp: is_ident_start_def isalpha_def)
  then have "fields_loop (parse_expression k) (Suc m) acc (f @ CHR '':'' # CHR '' '' # show_expr x @ t) st =
      (if at_char CHR '','' t then fields_loop (parse_expression k) m (acc @ [fx]) (skip_ws (tl t)) st
       else ret (Some (acc @ [fx])) t st)"
    using c id [of "CHR '' '' # show_expr x @ t"]
    by (simp add: Let_def pe fx closing skip_ws_Cons [of "CHR '':''"] expr_readsD(1) [OF x])
  ultimately show ?case
    unfolding all n using sk by (simp add: t_def)
qed

definition show_pair :: "ASTExpr \<times> ASTExpr \<Rightarrow> cstring" where
  "show_pair = (\<lambda>(a, b). show_expr a @ '': '' @ show_expr b)"

lemma elems_read:
  assumes "xs \<noteq> []" "\<forall>x \<in> set xs. expr_reads x" "Suc (length (commas (map show_expr xs) @ CHR '']'' # r)) < k"
    "length (commas (map show_expr xs)) < n"
  shows "items_loop (parse_expression k) n (Items False [] acc) (commas (map show_expr xs) @ CHR '']'' # r) st =
    ret (Some (Items False [] (acc @ xs))) (CHR '']'' # r) st"
  using assms
proof (induction xs arbitrary: n acc st)
  case (Cons x xs)
  then have x: "expr_reads x" by simp
  obtain m where n: "n = Suc m" using Cons.prems(4) by (cases n) auto
  show ?case
  proof (cases "xs = []")
    case True
    with n Cons.prems(3) show ?thesis
      by (simp add: commas_Cons expr_readsD [OF x] Let_def)
  next
    case False
    let ?t = "commas (map show_expr xs) @ CHR '']'' # r"
    have t: "commas (map show_expr (x # xs)) @ CHR '']'' # r = show_expr x @ CHR '','' # CHR '' '' # ?t"
      using False by (simp add: commas_Cons)
    obtain y ys where xs: "xs = y # ys" using False by (cases xs) auto
    with Cons.prems(2) have y: "expr_reads y" by simp
    then have sk: "skip_ws (CHR '' '' # ?t) = ?t" using xs by (simp add: skip_ws_Cons commas_Cons expr_readsD)
    have "items_loop (parse_expression k) m (Items False [] (acc @ [x])) ?t st =
        ret (Some (Items False [] ((acc @ [x]) @ xs))) (CHR '']'' # r) st"
      using Cons.prems(2,3,4) n t False by (intro Cons.IH) auto
    then show ?thesis unfolding t n
      using Cons.prems(3) t sk by (simp add: expr_readsD [OF x] Let_def)
  qed
qed simp

lemma pairs_read:
  assumes "ps \<noteq> []" "\<forall>(a, b) \<in> set ps. expr_reads a \<and> expr_reads b" "Suc (length (commas (map show_pair ps) @ CHR '']'' # r)) < k"
    "length (commas (map show_pair ps)) < n"
  shows "items_loop (parse_expression k) n (Items d acc []) (commas (map show_pair ps) @ CHR '']'' # r) st =
    ret (Some (Items True (acc @ ps) [])) (CHR '']'' # r) st"
  using assms
proof (induction ps arbitrary: n d acc st)
  case (Cons p ps)
  obtain a b where p: "p = (a, b)" by (cases p)
  then have a: "expr_reads a" and b: "expr_reads b" using Cons.prems(2) by auto
  obtain m where n: "n = Suc m" using Cons.prems(4) by (cases n) auto
  define t where "t = (if ps = [] then CHR '']'' # r else CHR '','' # CHR '' '' # commas (map show_pair ps) @ CHR '']'' # r)"
  have all: "commas (map show_pair (p # ps)) @ CHR '']'' # r = show_expr a @ CHR '':'' # CHR '' '' # show_expr b @ t"
    by (simp add: commas_Cons p show_pair_def t_def)
  have closing: "closing t" by (simp add: t_def)
  have len: "Suc (length (show_expr a @ CHR '':'' # CHR '' '' # show_expr b @ t)) < k" using Cons.prems(3) [unfolded all] .
  have pa: "parse_expression k (show_expr a @ CHR '':'' # CHR '' '' # show_expr b @ t) st = ret a (CHR '':'' # CHR '' '' # show_expr b @ t) st" for st
    using len by (intro expr_readsD(6) [OF a]) auto
  have pb: "parse_expression k (CHR '' '' # show_expr b @ t) st = ret b t st" for st
    using len closing by (intro expr_readsD(7) [OF b]) auto
  have sk: "skip_ws (CHR '' '' # commas (map show_pair ps) @ q) = commas (map show_pair ps) @ q" if ne: "ps \<noteq> []" for q
  proof -
    obtain a' b' ps' where ps: "ps = (a', b') # ps'" using ne by (cases ps) auto
    with Cons.prems(2) have "expr_reads a'" by simp
    with ps show ?thesis by (simp add: skip_ws_Cons commas_Cons show_pair_def expr_readsD)
  qed
  have rec: "items_loop (parse_expression k) m (Items True (acc @ [p]) []) (commas (map show_pair ps) @ CHR '']'' # r) st =
      ret (Some (Items True ((acc @ [p]) @ ps) [])) (CHR '']'' # r) st" if "ps \<noteq> []"
    using Cons.prems n that by (intro Cons.IH) (auto simp: commas_Cons)
  have "items_loop (parse_expression k) (Suc m) (Items d acc []) (show_expr a @ CHR '':'' # CHR '' '' # show_expr b @ t) st =
      (if at_char CHR '','' t then items_loop (parse_expression k) m (Items True (acc @ [p]) []) (skip_ws (tl t)) st
       else ret (Some (Items True (acc @ [p]) [])) t st)"
    by (simp add: Let_def pa pb p closing skip_ws_Cons [of "CHR '':''"] expr_readsD [OF a] expr_readsD(1) [OF b])
  then show ?case
    unfolding all n using rec sk by (simp add: t_def)
qed simp

section \<open>Every kind of expression\<close>

definition unary_reads :: "ASTExpr \<Rightarrow> bool" where
  "unary_reads e \<longleftrightarrow> e \<noteq> Null \<and> starts_with head_char (show_at 7 e) \<and>
     (\<forall>k n r. stop r \<longrightarrow> length (show_at 7 e @ r) < k \<longrightarrow> Suc (length (show_at 7 e @ r)) < n \<longrightarrow>
        reads (parse_unary (parse_expression k) n) e (show_at 7 e @ r) r)"

lemma unary_of_primary:
  assumes "starts_with head_char s" "parse_primary pe m s st = ret b q st" "postfix_loop pe m b q st = ret e (skip_ws r) st"
  shows "parse_unary pe (Suc m) s st = ret e (skip_ws r) st"
proof -
  have "\<not> at_char CHR ''!'' s \<and> \<not> at_char CHR ''-'' s" using assms(1) head_char_not by (cases s) auto
  with assms head_skip [OF assms(1)] show ?thesis by (simp add: Let_def)
qed

lemma postfix_stop: "stop r \<Longrightarrow> skip_ws q = skip_ws r \<Longrightarrow> postfix_loop pe (Suc m) e q st = ret e (skip_ws r) st"
  by (cases "skip_ws r") (auto simp: Let_def stop_def)

lemma keyword_at_other: "\<not> is_ident_start c \<Longrightarrow> w \<in> set keyword_names \<Longrightarrow> \<not> keyword_at w (c # s)"
proof -
  assume c: "\<not> is_ident_start c" and w: "w \<in> set keyword_names"
  from is_ident_keywords [OF w] obtain d w' where "w = d # w'" "is_ident_start d" by (cases w) (auto simp: is_ident_def)
  with c show ?thesis by (auto simp: keyword_at_def starts_def)
qed

lemma not_keywords: "\<not> is_ident_start c \<Longrightarrow> \<not> keyword_at ''nil'' (c # s) \<and> \<not> keyword_at ''true'' (c # s) \<and> \<not> keyword_at ''false'' (c # s)"
  by (simp add: keyword_at_other keyword_names_def)

lemma not_ident_starts [simp]: "\<not> is_ident_start CHR ''(''" "\<not> is_ident_start CHR ''[''" "\<not> is_ident_start CHR 0x22"
  "\<not> isdigit CHR ''(''" "\<not> isdigit CHR ''[''" "\<not> isdigit CHR 0x22"
  by (simp_all add: is_ident_start_def isalpha_def isdigit_def)

lemma primary_paren:
  assumes "pe s st = ret t (CHR '')'' # r) st" "t \<noteq> Null"
  shows "parse_primary pe m (CHR ''('' # s) st = ret t r st"
  using assms not_keywords [of "CHR ''(''"] by (simp add: parse_primary_def Let_def skip_ws_Cons)

lemma primary_string:
  assumes "length (show_string s) \<le> m"
  shows "parse_primary pe m (show_string s @ r) st = ret (string_node s) r st"
proof -
  have "string_loop pe m \<lparr>chars = [], capacity = 64\<rparr> Null (concat (map show_char s) @ CHR 0x22 # r) st = ret (string_node s) r st"
    using assms by (subst show_string_loop) (auto simp: show_string_def)
  then show ?thesis using not_keywords [of "CHR 0x22"]
    by (simp add: parse_primary_def Let_def show_string_def skip_ws_Cons parse_string_literal_def INITIAL_STRING_CAPACITY_def)
qed

lemma primary_number:
  assumes "unat i < 2 ^ 31" "stop r"
  shows "parse_primary pe m (digits (unat i) @ r) st = ret (ast_expr_tagged (EInt i) TYPE_INT) r st"
proof -
  obtain d ds where d: "digits (unat i) = d # ds" by (cases "digits (unat i)") auto
  then have dd: "isdigit d" using digits_all [of d "unat i"] by simp
  then have "\<not> is_ident_start d" "\<not> isspace d" "d \<notin> set [CHR ''('', CHR 0x22, CHR ''/'']"
    by (auto simp: isdigit_def is_ident_start_def isalpha_def isspace_def)
  then show ?thesis using dd not_keywords [of d] read_number [OF assms, of st] d
    by (simp add: parse_primary_def Let_def skip_ws_Cons)
qed

lemma primary_ident:
  assumes "is_ident x" "x \<notin> set [''nil'', ''true'', ''false'']" "\<not> starts_with is_ident_char r"
  shows "parse_primary pe m (x @ r) st = parse_identifier_expr pe m (x @ r) st"
proof -
  obtain d ds where d: "x = d # ds" "is_ident_start d" using assms(1) by (cases x) (auto simp: is_ident_def)
  have kw: "\<not> keyword_at w (x @ r)" if "w \<in> set [''nil'', ''true'', ''false'']" for w
    using keyword_ident [OF assms(1) _ assms(3)] is_ident_keywords [of w] that assms(2) by (auto simp: keyword_names_def)
  have dn: "\<not> isdigit d \<and> d \<notin> set [CHR ''('', CHR 0x22, CHR ''.'', CHR ''['']"
    using d(2) by (auto simp: is_ident_start_def isalpha_def isdigit_def)
  show ?thesis
    using d dn kw [of "''nil''"] kw [of "''true''"] kw [of "''false''"] skip_ws_ident [of "x @ r"]
    by (simp add: parse_primary_def Let_def)
qed

lemma identifier_reads:
  assumes "var_ident x" "\<not> starts_with is_ident_char r"
  shows "parse_primary pe m (x @ r) st =
    (if at_char CHR ''{'' (skip_ws r) then
       pbind (fields_loop pe m [] (skip_ws (tl (skip_ws r))) st) (\<lambda>fs r1 st1.
         case fs of None \<Rightarrow> ret Null r1 st1
         | Some fvs \<Rightarrow> (let r2 = skip_ws r1 in
             if \<not> at_char CHR ''}'' r2 then syntax_error ''Missing closing '}' in literal'' Null r2 st1
             else ret (ast_expr_new (EStructLiteral x fvs)) (tl r2) st1))
     else if at_char CHR ''('' (skip_ws r) then
       pbind (parse_argument_list pe m (tl (skip_ws r)) st) (\<lambda>args r1 st1.
         case args of None \<Rightarrow> ret Null r1 st1
         | Some xs \<Rightarrow> ret (ast_expr_new (ECall x xs)) r1 st1)
     else ret (ast_expr_new (EVar x)) (skip_ws r) st)"
proof -
  have x: "is_ident x" "x \<notin> set keyword_names" using assms(1) by (auto simp: var_ident_def)
  have s: "starts_with is_ident_start (x @ r)" using x(1) by (cases x) (auto simp: is_ident_def)
  have "parse_primary pe m (x @ r) st = parse_identifier_expr pe m (x @ r) st"
    using x by (intro primary_ident [OF x(1) _ assms(2)]) (auto simp: keyword_names_def)
  then show ?thesis
    using x(2) s
    unfolding parse_identifier_expr_def Let_def skip_ws_ident [OF s] ident_text_append [OF x(1) assms(2)]
    by (simp add: keyword_names_def)
qed

lemma primary_self:
  assumes "\<not> starts_with is_ident_char r"
  shows "parse_primary pe m (''self'' @ r) st = ret (ast_expr_new ESelf) r st"
    and "parse_primary pe m (''super'' @ r) st = ret (ast_expr_new ESuper) r st"
proof -
  have i: "is_ident ''self''" "is_ident ''super''"
    by (rule is_ident_keywords; simp add: keyword_names_def)+
  have s: "starts_with is_ident_start (''self'' @ r)" "starts_with is_ident_start (''super'' @ r)"
    using i by (simp_all add: is_ident_def)
  show "parse_primary pe m (''self'' @ r) st = ret (ast_expr_new ESelf) r st"
    using ident_text_append [OF i(1) assms] skip_ws_ident [OF s(1)] s(1)
    by (subst primary_ident [OF i(1) _ assms]) (simp_all add: parse_identifier_expr_def Let_def)
  show "parse_primary pe m (''super'' @ r) st = ret (ast_expr_new ESuper) r st"
    using ident_text_append [OF i(2) assms] skip_ws_ident [OF s(2)] s(2)
    by (subst primary_ident [OF i(2) _ assms]) (simp_all add: parse_identifier_expr_def Let_def)
qed

lemma primary_keyword:
  assumes "\<not> starts_with is_ident_char r"
  shows "parse_primary pe m (''nil'' @ r) st = ret (ast_expr_new ENil) r st"
    and "parse_primary pe m (''true'' @ r) st = ret (ast_expr_tagged (EBool True) TYPE_BOOL) r st"
    and "parse_primary pe m (''false'' @ r) st = ret (ast_expr_tagged (EBool False) TYPE_BOOL) r st"
  using assms
  by (simp_all add: parse_primary_def Let_def keyword_at_def starts_def skip_ws_Cons isspace_def)

lemma unary_readsI:
  assumes "e \<noteq> Null" "starts_with head_char (show_at 7 e)"
    and "\<And>k m r st. stop r \<Longrightarrow> length (show_at 7 e @ r) < k \<Longrightarrow> length (show_at 7 e @ r) < m \<Longrightarrow>
      \<exists>b q. parse_primary (parse_expression k) m (show_at 7 e @ r) st = ret b q st \<and>
        postfix_loop (parse_expression k) m b q st = ret e (skip_ws r) st"
  shows "unary_reads e"
  unfolding unary_reads_def reads_def
proof (intro conjI allI impI)
  fix k n r st
  assume h: "stop r" "length (show_at 7 e @ r) < k" "Suc (length (show_at 7 e @ r)) < n"
  then obtain m where n: "n = Suc m" by (cases n) auto
  have "length (show_at 7 e @ r) < m" using h(3) n by simp
  from assms(3) [OF h(1,2) this] obtain b q where
    "parse_primary (parse_expression k) m (show_at 7 e @ r) st = ret b q st"
    "postfix_loop (parse_expression k) m b q st = ret e (skip_ws r) st" by blast
  moreover have "starts_with head_char (show_at 7 e @ r)" using assms(2) by (cases "show_at 7 e") auto
  ultimately show "parse_unary (parse_expression k) n (show_at 7 e @ r) st = ret e (skip_ws r) st"
    unfolding n by (intro unary_of_primary) auto
qed (use assms in auto)

lemma unary_simple:
  assumes "e \<noteq> Null" "starts_with head_char (show_at 7 e)"
    and "\<And>k m r st. stop r \<Longrightarrow> length (show_at 7 e @ r) < k \<Longrightarrow> length (show_at 7 e @ r) < m \<Longrightarrow>
      \<exists>q. skip_ws q = skip_ws r \<and> parse_primary (parse_expression k) m (show_at 7 e @ r) st = ret e q st"
  shows "unary_reads e"
proof (rule unary_readsI [OF assms(1,2)])
  fix k m r st
  assume h: "stop r" "length (show_at 7 e @ r) < k" "length (show_at 7 e @ r) < m"
  then obtain m' where m: "m = Suc m'" by (cases m) auto
  from assms(3) [OF h] postfix_stop [OF h(1)] show "\<exists>b q. parse_primary (parse_expression k) m (show_at 7 e @ r) st = ret b q st \<and>
      postfix_loop (parse_expression k) m b q st = ret e (skip_ws r) st"
    unfolding m by blast
qed

lemma stop_ident: "stop r \<Longrightarrow> \<not> starts_with is_ident_char r"
  by (simp add: stop_def)

lemma head_ident: "is_ident x \<Longrightarrow> starts_with head_char x" "is_ident x \<Longrightarrow> starts_with head_char (x @ s)"
  by (cases x; auto simp: is_ident_def head_char_def)+

lemma head_char_simps [simp]: "head_char CHR ''(''" "head_char CHR ''[''" "head_char CHR 0x22"
  by (simp_all add: head_char_def)

definition dot :: "bool \<Rightarrow> cstring" where "dot ch = (if ch then ''?.'' else ''.'')"

lemma show_new:
  "show_at p (ast_expr_new ENil) = ''nil''" "show_at p (ast_expr_new ESelf) = ''self''" "show_at p (ast_expr_new ESuper) = ''super''"
  "show_at p (ast_expr_tagged (EBool b) ty) = (if b then ''true'' else ''false'')"
  "show_at p (ast_expr_tagged (EInt j) ty) = digits (unat j)" "show_at p (ast_expr_tagged (EStringLiteral s) ty) = show_string s"
  "show_at p (ast_expr_new (EVar x)) = x"
  "show_at p (ast_expr_new (EBinary c l r)) = enclose (op_level c < p)
     (show_at (left_level c) l @ CHR '' '' # op_text c @ CHR '' '' # show_at (Suc (op_level c)) r)"
  "show_at p (ast_expr_new (EUnary c e)) = enclose (6 < p) (c # show_at 6 e)"
  "show_at p (ast_expr_new (ECall f xs)) = f @ parens (commas (map show_expr xs))"
  "show_at p (ast_expr_new (EIndex t i)) = parens (show_expr t) @ CHR ''['' # show_expr i @ '']''"
  "show_at p (ast_expr_new (EMember t x ch)) = parens (show_expr t) @ dot ch @ x"
  "show_at p (ast_expr_new (EMethodCall t x xs ch)) = parens (show_expr t) @ dot ch @ x @ parens (commas (map show_expr xs))"
  "show_at p (ast_expr_new (EArrayLiteral xs ty)) = CHR ''['' # commas (map show_expr xs) @ '']''"
  "show_at p (ast_expr_new (EDict kvs)) = (if kvs = [] then ''[:]'' else CHR ''['' # commas (map show_pair kvs) @ '']'')"
  "show_at p (ast_expr_new (EStructLiteral x fs)) = x @ CHR ''{'' # commas (map show_field fs) @ ''}''"
  by (subst show_at.simps; simp add: ast_expr_new_def ast_expr_tagged_def dot_def show_pair_def show_field_def)+

text \<open>A parenthesised expression with something after it.\<close>

lemma primary_target:
  assumes "expr_reads t" "length (parens (show_expr t) @ q) < k"
  shows "parse_primary (parse_expression k) m (parens (show_expr t) @ q) st = ret t q st"
  unfolding parens_def
  using assms(2) expr_readsD(6) [OF assms(1), of "CHR '')'' # q" k st]
  by (simp add: parens_def) (rule primary_paren, simp_all add: expr_readsD(1) [OF assms(1)])

lemma unary_postfix:
  assumes t: "expr_reads t" and e: "e \<noteq> Null" "show_at 7 e = parens (show_expr t) @ s"
    and post: "\<And>k m r st. stop r \<Longrightarrow> length (show_at 7 e @ r) < k \<Longrightarrow> length (show_at 7 e @ r) < Suc m \<Longrightarrow>
      postfix_loop (parse_expression k) (Suc m) t (s @ r) st = postfix_loop (parse_expression k) m e r st \<or>
      postfix_loop (parse_expression k) (Suc m) t (s @ r) st = postfix_loop (parse_expression k) m e (skip_ws r) st"
  shows "unary_reads e"
proof (rule unary_readsI [OF e(1)])
  show "starts_with head_char (show_at 7 e)" unfolding e(2) by (simp add: parens_def)
  fix k m r st
  assume h: "stop r" "length (show_at 7 e @ r) < k" "length (show_at 7 e @ r) < m"
  then obtain m' where m: "m = Suc (Suc m')" using e(2) by (cases m; cases "m - 1") (auto simp: parens_def)
  have "parse_primary (parse_expression k) m (show_at 7 e @ r) st = ret t (s @ r) st"
    using primary_target [OF t, of "s @ r" k m st] h(2) e(2) by simp
  moreover have "postfix_loop (parse_expression k) m t (s @ r) st = ret e (skip_ws r) st"
  proof -
    have "length (show_at 7 e @ r) < Suc (Suc m')" using h(3) m by simp
    from post [OF h(1,2) this, of st] show ?thesis
      unfolding m by (elim disjE) (simp_all only: postfix_stop [OF h(1)] skip_ws_idem)
  qed
  ultimately show "\<exists>b q. parse_primary (parse_expression k) m (show_at 7 e @ r) st = ret b q st \<and>
      postfix_loop (parse_expression k) m b q st = ret e (skip_ws r) st" by blast
qed

lemma index_reads:
  assumes t: "expr_reads t" and i: "expr_reads i"
  shows "unary_reads (ast_expr_new (EIndex t i))"
proof -
  let ?e = "ast_expr_new (EIndex t i)"
  have sh: "show_at 7 ?e = parens (show_expr t) @ CHR ''['' # show_expr i @ '']''"
    by (rule show_new)
  show ?thesis
  proof (rule unary_postfix [OF t _ sh])
    fix k m r st assume "length (show_at 7 ?e @ r) < k"
    then have "Suc (length (show_expr i @ CHR '']'' # r)) < k" unfolding sh by (simp add: parens_def)
    from expr_readsD(6) [OF i _ this, of st]
    show "postfix_loop (parse_expression k) (Suc m) t ((CHR ''['' # show_expr i @ '']'') @ r) st = postfix_loop (parse_expression k) m ?e r st \<or>
      postfix_loop (parse_expression k) (Suc m) t ((CHR ''['' # show_expr i @ '']'') @ r) st = postfix_loop (parse_expression k) m ?e (skip_ws r) st"
      by (simp add: Let_def skip_ws_Cons expr_readsD(1) [OF i])
  qed simp
qed

lemma member_step:
  assumes "is_ident x" "\<not> starts_with is_ident_char q"
  shows "postfix_loop pe (Suc m) t (dot ch @ x @ q) st =
    (if at_char CHR ''('' (skip_ws q) then
       pbind (parse_argument_list pe m (tl (skip_ws q)) st) (\<lambda>args r3 st3.
         case args of None \<Rightarrow> ret Null r3 st3
         | Some xs \<Rightarrow> postfix_loop pe m (ast_expr_new (EMethodCall t x xs ch)) r3 st3)
     else postfix_loop pe m (ast_expr_new (EMember t x ch)) (skip_ws q) st)"
proof -
  have s: "starts_with is_ident_start (x @ q)" using assms(1) by (cases x) (auto simp: is_ident_def)
  have read_chain: "at_char CHR ''?'' (dot ch @ x @ q) \<and> at_char CHR ''.'' (tl (dot ch @ x @ q)) \<longleftrightarrow> ch"
    "skip_ws (dot ch @ x @ q) = dot ch @ x @ q" "\<not> at_char CHR ''['' (dot ch @ x @ q)"
    "skip_ws (if ch then tl (tl (dot ch @ x @ q)) else tl (dot ch @ x @ q)) = x @ q"
    "\<not> ch \<Longrightarrow> at_char CHR ''.'' (dot ch @ x @ q)"
    using skip_ws_ident [OF s] by (cases ch; simp add: dot_def skip_ws_Cons)+
  show ?thesis
    unfolding postfix_loop.simps Let_def read_chain(1,2,4) ident_text_append [OF assms]
    using s read_chain(3,5) by (cases ch) simp_all
qed

lemma member_reads:
  assumes t: "expr_reads t" and x: "is_ident x"
  shows "unary_reads (ast_expr_new (EMember t x ch))"
proof -
  let ?e = "ast_expr_new (EMember t x ch)"
  have sh: "show_at 7 ?e = parens (show_expr t) @ dot ch @ x"
    by (rule show_new)
  show ?thesis
  proof (rule unary_postfix [OF t _ sh])
    fix k m r st assume "stop r"
    then have "\<not> starts_with is_ident_char r" "\<not> at_char CHR ''('' (skip_ws r)"
      by (auto simp: stop_def at_char_def starts_with_def split: list.splits)
    then show "postfix_loop (parse_expression k) (Suc m) t ((dot ch @ x) @ r) st = postfix_loop (parse_expression k) m ?e r st \<or>
      postfix_loop (parse_expression k) (Suc m) t ((dot ch @ x) @ r) st = postfix_loop (parse_expression k) m ?e (skip_ws r) st"
      using member_step [OF x, of r] by simp
  qed simp
qed

lemma method_reads:
  assumes t: "expr_reads t" and x: "is_ident x" and xs: "\<forall>y \<in> set xs. expr_reads y"
  shows "unary_reads (ast_expr_new (EMethodCall t x xs ch))"
proof -
  let ?e = "ast_expr_new (EMethodCall t x xs ch)"
  have sh: "show_at 7 ?e = parens (show_expr t) @ dot ch @ x @ parens (commas (map show_expr xs))"
    by (rule show_new)
  show ?thesis
  proof (rule unary_postfix [OF t _ sh])
    fix k m r st assume h: "length (show_at 7 ?e @ r) < k" "length (show_at 7 ?e @ r) < Suc m"
    let ?q = "parens (commas (map show_expr xs)) @ r"
    have q: "?q = CHR ''('' # commas (map show_expr xs) @ CHR '')'' # r" by (simp add: parens_def)
    have "parse_argument_list (parse_expression k) m (commas (map show_expr xs) @ CHR '')'' # r) st = ret (Some xs) r st"
      using h xs unfolding sh by (intro argument_list_reads) (auto simp: parens_def)
    moreover have "\<not> starts_with is_ident_char ?q" unfolding q by (simp add: is_ident_char_def isalpha_def isdigit_def)
    ultimately show "postfix_loop (parse_expression k) (Suc m) t ((dot ch @ x @ parens (commas (map show_expr xs))) @ r) st = postfix_loop (parse_expression k) m ?e r st \<or>
      postfix_loop (parse_expression k) (Suc m) t ((dot ch @ x @ parens (commas (map show_expr xs))) @ r) st = postfix_loop (parse_expression k) m ?e (skip_ws r) st"
      using member_step [OF x, of ?q] q by (simp add: skip_ws_Cons)
  qed simp
qed
lemma ident_expr_reads:
  assumes x: "var_ident x"
  shows "unary_reads (ast_expr_new (EVar x))"
    and "\<forall>y \<in> set xs. expr_reads y \<Longrightarrow> unary_reads (ast_expr_new (ECall x xs))"
    and "\<forall>(f, y) \<in> set fs. is_ident f \<and> expr_reads y \<Longrightarrow> unary_reads (ast_expr_new (EStructLiteral x fs))"
proof -
  have i: "is_ident x" using x by (simp add: var_ident_def)
  show "unary_reads (ast_expr_new (EVar x))"
  proof (rule unary_simple)
    fix k m r st assume r: "stop r"
    then have "\<not> at_char CHR ''{'' (skip_ws r)" "\<not> at_char CHR ''('' (skip_ws r)"
      by (auto simp: stop_def at_char_def starts_with_def split: list.splits)
    then show "\<exists>q. skip_ws q = skip_ws r \<and>
        parse_primary (parse_expression k) m (show_at 7 (ast_expr_new (EVar x)) @ r) st = ret (ast_expr_new (EVar x)) q st"
      using identifier_reads [OF x stop_ident [OF r]] by (intro exI [of _ "skip_ws r"]) (simp add: show_new)
  qed (simp_all add: show_new head_ident i)
  show "unary_reads (ast_expr_new (ECall x xs))" if xs: "\<forall>y \<in> set xs. expr_reads y"
  proof (rule unary_simple)
    fix k m r st
    let ?q = "parens (commas (map show_expr xs)) @ r"
    have q: "?q = CHR ''('' # commas (map show_expr xs) @ CHR '')'' # r" by (simp add: parens_def)
    assume "length (show_at 7 (ast_expr_new (ECall x xs)) @ r) < k" "length (show_at 7 (ast_expr_new (ECall x xs)) @ r) < m"
    then have "parse_argument_list (parse_expression k) m (commas (map show_expr xs) @ CHR '')'' # r) st = ret (Some xs) r st"
      using xs i by (intro argument_list_reads) (auto simp: parens_def show_new is_ident_def starts_with_def split: list.splits)
    moreover have "\<not> starts_with is_ident_char ?q" unfolding q by (simp add: is_ident_char_def isalpha_def isdigit_def)
    ultimately show "\<exists>q. skip_ws q = skip_ws r \<and>
        parse_primary (parse_expression k) m (show_at 7 (ast_expr_new (ECall x xs)) @ r) st = ret (ast_expr_new (ECall x xs)) q st"
      using identifier_reads [OF x, of ?q] q by (intro exI [of _ r]) (simp add: show_new skip_ws_Cons)
  qed (simp_all add: show_new head_ident i)
  show "unary_reads (ast_expr_new (EStructLiteral x fs))" if fs: "\<forall>(f, y) \<in> set fs. is_ident f \<and> expr_reads y"
  proof (rule unary_simple)
    fix k m r st
    let ?t = "commas (map show_field fs) @ CHR ''}'' # r"
    assume h: "length (show_at 7 (ast_expr_new (EStructLiteral x fs)) @ r) < k" "length (show_at 7 (ast_expr_new (EStructLiteral x fs)) @ r) < m"
    have "x \<noteq> []" using i by (auto simp: is_ident_def)
    then have "fields_loop (parse_expression k) m [] ?t st = ret (Some ([] @ fs)) (CHR ''}'' # r) st"
      using h fs by (intro fields_read) (auto simp: show_new neq_Nil_conv)
    moreover have "skip_ws ?t = ?t"
    proof (cases fs)
      case (Cons gy gs)
      obtain g y where gy: "gy = (g, y)" by (cases gy)
      then have "starts_with is_ident_start ?t" using fs Cons by (cases g) (auto simp: is_ident_def commas_Cons show_field_def)
      then show ?thesis by (rule skip_ws_ident)
    qed (simp add: skip_ws_Cons)
    moreover have "\<not> starts_with is_ident_char (CHR ''{'' # ?t)" by (simp add: is_ident_char_def isalpha_def isdigit_def)
    ultimately show "\<exists>q. skip_ws q = skip_ws r \<and>
        parse_primary (parse_expression k) m (show_at 7 (ast_expr_new (EStructLiteral x fs)) @ r) st = ret (ast_expr_new (EStructLiteral x fs)) q st"
      using identifier_reads [OF x, of "CHR ''{'' # ?t"] by (intro exI [of _ r]) (simp add: show_new skip_ws_Cons)
  qed (simp_all add: show_new head_ident i)
qed

lemma bracket_primary:
  assumes "parse_array_or_dict pe m (CHR ''['' # s) st = ret e r st"
  shows "parse_primary pe m (CHR ''['' # s) st = ret e r st"
  using assms not_keywords [of "CHR ''[''"] by (simp add: parse_primary_def Let_def skip_ws_Cons)

lemma array_reads:
  assumes "\<forall>y \<in> set xs. expr_reads y"
  shows "unary_reads (ast_expr_new (EArrayLiteral xs TYPE_NIL))"
proof (rule unary_simple)
  fix k m r st
  let ?t = "commas (map show_expr xs) @ CHR '']'' # r"
  assume h: "length (show_at 7 (ast_expr_new (EArrayLiteral xs TYPE_NIL)) @ r) < k" "length (show_at 7 (ast_expr_new (EArrayLiteral xs TYPE_NIL)) @ r) < m"
  have "parse_array_or_dict (parse_expression k) m (CHR ''['' # ?t) st = ret (ast_expr_new (EArrayLiteral xs TYPE_NIL)) r st"
  proof (cases xs)
    case Nil
    then show ?thesis by (simp add: parse_array_or_dict_def Let_def skip_ws_Cons)
  next
    case (Cons x ys)
    then have x: "expr_reads x" using assms by simp
    have "skip_ws ?t = ?t" "\<not> at_char CHR '':'' ?t" "\<not> at_char CHR '']'' ?t"
      using Cons expr_readsD [OF x] by (auto simp: commas_Cons)
    moreover have "items_loop (parse_expression k) m (Items False [] []) ?t st = ret (Some (Items False [] ([] @ xs))) (CHR '']'' # r) st"
      using h assms Cons by (intro elems_read) (auto simp: show_new)
    ultimately show ?thesis
      unfolding parse_array_or_dict_def by (simp add: Let_def skip_ws_Cons [of "CHR ''[''"] skip_ws_Cons [of "CHR '']''"])
  qed
  from bracket_primary [OF this] show "\<exists>q. skip_ws q = skip_ws r \<and>
      parse_primary (parse_expression k) m (show_at 7 (ast_expr_new (EArrayLiteral xs TYPE_NIL)) @ r) st = ret (ast_expr_new (EArrayLiteral xs TYPE_NIL)) q st"
    by (intro exI [of _ r]) (simp add: show_new)
qed (simp_all add: show_new)

lemma dict_reads:
  assumes "\<forall>(a, b) \<in> set ps. expr_reads a \<and> expr_reads b"
  shows "unary_reads (ast_expr_new (EDict ps))"
proof (rule unary_simple)
  fix k m r st
  let ?t = "commas (map show_pair ps) @ CHR '']'' # r"
  assume h: "length (show_at 7 (ast_expr_new (EDict ps)) @ r) < k" "length (show_at 7 (ast_expr_new (EDict ps)) @ r) < m"
  have "parse_primary (parse_expression k) m (show_at 7 (ast_expr_new (EDict ps)) @ r) st = ret (ast_expr_new (EDict ps)) r st"
  proof (cases ps)
    case Nil
    have "parse_array_or_dict (parse_expression k) m (CHR ''['' # CHR '':'' # CHR '']'' # r) st = ret (ast_expr_new (EDict [])) r st"
      by (simp add: parse_array_or_dict_def Let_def skip_ws_Cons)
    with Nil show ?thesis using bracket_primary by (simp add: show_new)
  next
    case (Cons p qs)
    obtain a b where p: "p = (a, b)" by (cases p)
    then have a: "expr_reads a" using assms Cons by simp
    have "skip_ws ?t = ?t" "\<not> at_char CHR '':'' ?t" "\<not> at_char CHR '']'' ?t"
      using Cons p expr_readsD [OF a] by (auto simp: commas_Cons show_pair_def)
    moreover have "items_loop (parse_expression k) m (Items False [] []) ?t st = ret (Some (Items True ([] @ ps) [])) (CHR '']'' # r) st"
      using h assms Cons by (intro pairs_read) (auto simp: show_new)
    ultimately have "parse_array_or_dict (parse_expression k) m (CHR ''['' # ?t) st = ret (ast_expr_new (EDict ps)) r st"
      unfolding parse_array_or_dict_def by (simp add: Let_def skip_ws_Cons [of "CHR ''[''"] skip_ws_Cons [of "CHR '']''"])
    with Cons show ?thesis using bracket_primary by (simp add: show_new)
  qed
  then show "\<exists>q. skip_ws q = skip_ws r \<and>
      parse_primary (parse_expression k) m (show_at 7 (ast_expr_new (EDict ps)) @ r) st = ret (ast_expr_new (EDict ps)) q st" by blast
qed (simp_all add: show_new)

lemma paren_reads:
  assumes "e \<noteq> Null" "show_at 7 e = parens s"
    and "\<And>k r st. Suc (length (s @ CHR '')'' # r)) < k \<Longrightarrow> parse_expression k (s @ CHR '')'' # r) st = ret e (CHR '')'' # r) st"
  shows "unary_reads e"
proof (rule unary_simple [OF assms(1)])
  show "starts_with head_char (show_at 7 e)" by (simp add: assms(2) parens_def)
  fix k m r st assume "length (show_at 7 e @ r) < k"
  then have "Suc (length (s @ CHR '')'' # r)) < k" by (simp add: assms(2) parens_def)
  from primary_paren [where pe = "parse_expression k", OF assms(3) [OF this] assms(1)]
  show "\<exists>q. skip_ws q = skip_ws r \<and> parse_primary (parse_expression k) m (show_at 7 e @ r) st = ret e q st"
    by (auto simp: assms(2) parens_def)
qed

lemma unary_exact:
  assumes "e \<noteq> Null" "starts_with head_char (show_at 7 e)"
    and "\<And>k m r st. stop r \<Longrightarrow> parse_primary (parse_expression k) m (show_at 7 e @ r) st = ret e r st"
  shows "unary_reads e"
  by (rule unary_simple [OF assms(1,2)]) (use assms(3) in blast)

lemma simple_reads:
  "unary_reads (ast_expr_new ENil)" "unary_reads (ast_expr_new ESelf)" "unary_reads (ast_expr_new ESuper)"
  "unary_reads (ast_expr_tagged (EBool b) TYPE_BOOL)" "unat i < 2 ^ 31 \<Longrightarrow> unary_reads (ast_expr_tagged (EInt i) TYPE_INT)"
  "unary_reads (ast_expr_tagged (EStringLiteral s) TYPE_STRING)"
proof -
  have h: "starts_with head_char ''nil''" "starts_with head_char ''self''" "starts_with head_char ''super''"
    "starts_with head_char ''true''" "starts_with head_char ''false''"
    by (simp_all add: head_char_def is_ident_start_def isalpha_def)
  show "unary_reads (ast_expr_new ENil)" "unary_reads (ast_expr_new ESelf)" "unary_reads (ast_expr_new ESuper)"
    by (rule unary_exact; simp add: show_new h [simplified] stop_ident primary_keyword [simplified] primary_self [simplified])+
  show "unary_reads (ast_expr_tagged (EBool b) TYPE_BOOL)"
    by (cases b; rule unary_exact; simp add: show_new h [simplified] stop_ident primary_keyword [simplified])
  show "unary_reads (ast_expr_tagged (EInt i) TYPE_INT)" if "unat i < 2 ^ 31"
  proof (rule unary_exact)
    show "starts_with head_char (show_at 7 (ast_expr_tagged (EInt i) TYPE_INT))"
      using digits_all [of _ "unat i"] by (cases "digits (unat i)") (auto simp: show_new head_char_def)
  qed (simp_all add: show_new primary_number [OF that])
  show "unary_reads (ast_expr_tagged (EStringLiteral s) TYPE_STRING)"
  proof (rule unary_simple)
    fix k m r st assume "length (show_at 7 (ast_expr_tagged (EStringLiteral s) TYPE_STRING) @ r) < m"
    then have "length (show_string s) \<le> m" by (simp add: show_new)
    from primary_string [OF this] show "\<exists>q. skip_ws q = skip_ws r \<and>
        parse_primary (parse_expression k) m (show_at 7 (ast_expr_tagged (EStringLiteral s) TYPE_STRING) @ r) st =
          ret (ast_expr_tagged (EStringLiteral s) TYPE_STRING) q st"
      by (auto simp: show_new string_node_def)
  qed (simp_all add: show_new show_string_def)
qed

section \<open>Levels\<close>

definition level_reads :: "nat \<Rightarrow> ASTExpr \<Rightarrow> bool" where
  "level_reads p e \<longleftrightarrow> (\<forall>k n r. ends_level p r \<longrightarrow> length (show_at p e @ r) < k \<longrightarrow> Suc (length (show_at p e @ r)) < n \<longrightarrow>
     reads (level_parser p (parse_expression k) n) e (show_at p e @ r) r)"

lemma level_readsD:
  "level_reads p e \<Longrightarrow> ends_level p r \<Longrightarrow> length (show_at p e @ r) < k \<Longrightarrow> Suc (length (show_at p e @ r)) < n \<Longrightarrow>
   reads (level_parser p (parse_expression k) n) e (show_at p e @ r) r"
  by (simp add: level_reads_def)

fun spine :: "nat \<Rightarrow> ASTExpr \<Rightarrow> nat" where
  \<comment> \<open>the operators of the level \<open>q\<close> that are read by one loop\<close>
  "spine q (Expr nt (EBinary c l r)) = (if op_level c = q then Suc (spine q l) else 0)"
| "spine q e = 0"

definition read_chain :: "nat \<Rightarrow> ASTExpr \<Rightarrow> bool" where
  \<comment> \<open>the loop of the level goes on behind the printed operand\<close>
  "read_chain q e \<longleftrightarrow> (\<forall>k n r st. ends_level (Suc q) r \<longrightarrow> length (show_at q e @ r) < k \<longrightarrow> Suc (length (show_at q e @ r)) < n \<longrightarrow>
     level_parser q (parse_expression k) n (show_at q e @ r) st =
       binary_loop (\<lambda>r. level_ops r ! (5 - q)) (level_parser (Suc q) (parse_expression k) n) (n - spine q e) e (skip_ws r) st)"

lemma spine_length: "q \<noteq> 3 \<Longrightarrow> spine q e \<le> length (show_at q e)"
proof (induction q e rule: spine.induct)
  case (1 q nt c l r)
  show ?case
  proof (cases "op_level c = q")
    case True
    have "show_at q (Expr nt (EBinary c l r)) = show_at q l @ '' '' @ op_text c @ '' '' @ show_at (Suc (op_level c)) r"
      using 1(2) True by (subst show_at.simps) (simp add: enclose_def left_level_def)
    then show ?thesis using 1 True by simp
  qed simp
qed auto

lemma chain_level:
  assumes "q \<in> {1, 2, 4, 5}" "read_chain q e"
  shows "level_reads q e"
  unfolding level_reads_def reads_def
proof (intro allI impI)
  fix k n r st
  assume h: "ends_level q r" "length (show_at q e @ r) < k" "Suc (length (show_at q e @ r)) < n"
  have "q \<noteq> 3" using assms(1) by auto
  then have "0 < n - spine q e" using spine_length [of q e] h(3) by simp
  then obtain m where m: "n - spine q e = Suc m" by (cases "n - spine q e") auto
  have none: "level_ops (skip_ws r) ! (5 - q) = None" using h(1) assms(1) by (auto simp: ends_level_def)
  show "level_parser q (parse_expression k) n (show_at q e @ r) st = ret e (skip_ws r) st"
    using assms(2) ends_mono [OF h(1), of "Suc q"] h(2,3) m none by (simp add: read_chain_def)
qed

lemma operand_chain:
  assumes q: "q \<in> {1, 2, 4, 5}" and e: "level_reads (Suc q) e" "show_at q e = show_at (Suc q) e" "spine q e = 0" "e \<noteq> Null"
  shows "read_chain q e"
  unfolding read_chain_def
proof (intro allI impI)
  fix k n r st
  assume h: "ends_level (Suc q) r" "length (show_at q e @ r) < k" "Suc (length (show_at q e @ r)) < n"
  from level_readsD [OF e(1) h [unfolded e(2)]]
  show "level_parser q (parse_expression k) n (show_at q e @ r) st =
      binary_loop (\<lambda>r. level_ops r ! (5 - q)) (level_parser (Suc q) (parse_expression k) n) (n - spine q e) e (skip_ws r) st"
    unfolding loop_level [OF q] binary_level_def e(2,3) using e(4) by (simp add: reads_def)
qed

lemma binary_chain:
  assumes c: "c \<in> set ''|&=!lg<>+-*/%''" "op_level c \<noteq> 3" and l: "read_chain (op_level c) l"
    and x: "level_reads (Suc (op_level c)) x" "x \<noteq> Null"
  shows "read_chain (op_level c) (ast_expr_new (EBinary c l x))"
  unfolding read_chain_def
proof (intro allI impI)
  fix k n r st
  let ?q = "op_level c" and ?e = "ast_expr_new (EBinary c l x)"
  let ?f = "\<lambda>r. level_ops r ! (5 - ?q)" and ?P = "level_parser (Suc ?q) (parse_expression k) n"
  let ?t = "show_at (Suc ?q) x @ r" and ?r = "CHR '' '' # op_text c @ CHR '' '' # show_at (Suc ?q) x @ r"
  have shown: "show_at ?q ?e @ r = show_at ?q l @ ?r" using c(2) by (simp add: show_new enclose_def left_level_def)
  assume h: "ends_level (Suc ?q) r" "length (show_at ?q ?e @ r) < k" "Suc (length (show_at ?q ?e @ r)) < n"
  have "spine ?q l < n" using spine_length [OF c(2), of l] h(3) shown by simp
  then obtain m where m: "n - spine ?q l = Suc m" "n - spine ?q ?e = m" by (cases "n - spine ?q l") (auto simp: ast_expr_new_def)
  have L: "level_parser ?q (parse_expression k) n (show_at ?q l @ ?r) st = binary_loop ?f ?P (n - spine ?q l) l (skip_ws ?r) st"
    using l ends_op [OF c(1)] h(2,3) shown unfolding read_chain_def by simp
  have X: "reads ?P x (CHR '' '' # ?t) r"
    using h shown by (intro reads_space level_readsD [OF x(1)]) auto
  show "level_parser ?q (parse_expression k) n (show_at ?q ?e @ r) st =
      binary_loop ?f ?P (n - spine ?q ?e) ?e (skip_ws r) st"
    unfolding shown L m using op_at [OF c(1), of ?t] X x(2) by (simp add: reads_def)
qed

lemma comparison_level:
  assumes c: "c \<in> set ''|&=!lg<>+-*/%''" "op_level c = 3" and l: "level_reads 4 l" "l \<noteq> Null" and x: "level_reads 4 x" "x \<noteq> Null"
  shows "level_reads 3 (ast_expr_new (EBinary c l x))"
  unfolding level_reads_def reads_def
proof (intro allI impI)
  fix k n r st
  let ?e = "ast_expr_new (EBinary c l x)" and ?P = "level_parser 4 (parse_expression k) n"
  let ?t = "show_at 4 x @ r" and ?r = "CHR '' '' # op_text c @ CHR '' '' # show_at 4 x @ r"
  have shown: "show_at 3 ?e @ r = show_at 4 l @ ?r" using c(2) by (simp add: show_new enclose_def left_level_def)
  assume h: "ends_level 3 r" "length (show_at 3 ?e @ r) < k" "Suc (length (show_at 3 ?e @ r)) < n"
  have L: "reads ?P l (show_at 4 l @ ?r) ?r"
    using h ends_op [OF c(1)] c(2) shown by (intro level_readsD [OF l(1)]) auto
  have X: "reads ?P x (CHR '' '' # ?t) r"
    using h shown ends_mono [OF h(1), of 4] by (intro reads_space level_readsD [OF x(1)]) auto
  show "level_parser 3 (parse_expression k) n (show_at 3 ?e @ r) st = ret ?e (skip_ws r) st"
    unfolding shown using L X op_at [OF c(1), of ?t] c(2) l(2) x(2)
    by (simp add: reads_def level_parser_def parse_comparison_def level_ops_def Let_def)
qed

lemma unary_level:
  assumes c: "c \<in> set ''!-''" and x: "level_reads 6 x" "x \<noteq> Null"
  shows "level_reads 6 (ast_expr_new (EUnary c x))"
  unfolding level_reads_def reads_def
proof (intro allI impI)
  fix k n r st
  let ?e = "ast_expr_new (EUnary c x)"
  have shown: "show_at 6 ?e @ r = c # show_at 6 x @ r" by (simp add: show_new enclose_def)
  assume h: "ends_level 6 r" "length (show_at 6 ?e @ r) < k" "Suc (length (show_at 6 ?e @ r)) < n"
  then obtain m where m: "n = Suc m" by (cases n) auto
  have "reads (level_parser 6 (parse_expression k) m) x (show_at 6 x @ r) r"
    using h shown m by (intro level_readsD [OF x(1)]) auto
  then show "level_parser 6 (parse_expression k) n (show_at 6 ?e @ r) st = ret ?e (skip_ws r) st"
    unfolding shown m using c x(2) by (auto simp: level_parser_def reads_def Let_def skip_ws_Cons)
qed

lemma unary_level_reads: "unary_reads e \<Longrightarrow> level_reads 7 e"
  by (simp add: unary_reads_def level_reads_def level_parser_def ends_high)

lemma levels_below:
  assumes "level_reads q e" "e \<noteq> Null" "show_at p e = show_at q e" "1 \<le> p" "p \<le> q"
  shows "level_reads p e"
  unfolding level_reads_def assms(3)
proof (intro allI impI)
  fix k n r
  assume h: "ends_level p r" "length (show_at q e @ r) < k" "Suc (length (show_at q e @ r)) < n"
  from level_readsD [OF assms(1) ends_mono [OF h(1) assms(5)] h(2,3)]
  show "reads (level_parser p (parse_expression k) n) e (show_at q e @ r) r"
    using pass_down [OF assms(5) _ h(1) assms(4,2)] h(3) by simp
qed

text \<open>In parentheses when the place takes only operators that bind more tightly.\<close>

lemma operator_levels:
  assumes q: "level_reads q e" "1 \<le> q" "q \<le> 6" and e: "e \<noteq> Null" "\<And>p. show_at p e = enclose (q < p) s" and p: "1 \<le> p"
  shows "level_reads p e"
proof -
  have low: "level_reads p e" if "1 \<le> p" "p \<le> q" for p
    using that e(2) [of p] e(2) [of q] by (intro levels_below [OF q(1) e(1)]) (simp_all add: enclose_def)
  have one: "level_reads 1 e" using low q(2) by simp
  have "unary_reads e"
  proof (rule paren_reads [OF e(1)])
    show "show_at 7 e = parens s" using e(2) [of 7] q(3) by (simp add: enclose_def)
    fix k r st assume h: "Suc (length (s @ CHR '')'' # r)) < k"
    then obtain k' where k: "k = Suc k'" by (cases k) auto
    have s: "show_at 1 e = s" using e(2) [of 1] q(2) by (simp add: enclose_def)
    have "reads (level_parser 1 (parse_expression k') (Suc (Suc k'))) e (show_at 1 e @ CHR '')'' # r) (CHR '')'' # r)"
      using h k s closing_ends [of "CHR '')'' # r" 1] by (intro level_readsD [OF one]) auto
    then show "parse_expression k (s @ CHR '')'' # r) st = ret e (CHR '')'' # r) st"
      unfolding k s by (simp add: reads_def level_parser_def)
  qed
  note seven = unary_level_reads [OF this]
  show ?thesis
  proof (cases "p \<le> q")
    case False
    show ?thesis
    proof (cases "p \<le> 7")
      case True
      then show ?thesis using False p q(3) e(2) [of p] e(2) [of 7]
        by (intro levels_below [OF seven e(1)]) (simp_all add: enclose_def)
    next
      case high: False
      have "show_at p e = show_at 7 e" using high q(3) e(2) [of p] e(2) [of 7] by (simp add: enclose_def)
      with seven high show ?thesis by (simp add: level_reads_def level_parser_def ends_high)
    qed
  qed (use low p in simp)
qed

lemma atom_levels:
  assumes "unary_reads e" "\<And>p. show_at p e = show_at 7 e" "1 \<le> p"
  shows "level_reads p e"
proof (cases "p \<le> 7")
  case True
  then show ?thesis using assms(1,3) assms(2) [of p]
    by (intro levels_below [OF unary_level_reads [OF assms(1)]]) (auto simp: unary_reads_def)
next
  case False
  with unary_level_reads [OF assms(1)] assms(2) [of p] show ?thesis by (simp add: level_reads_def level_parser_def ends_high)
qed

section \<open>All expressions\<close>

definition all_reads :: "ASTExpr \<Rightarrow> bool" where
  "all_reads e \<longleftrightarrow> e \<noteq> Null \<and> (\<forall>p. starts_with expr_head (show_at p e)) \<and> (\<forall>p \<ge> 1. level_reads p e) \<and>
     (\<forall>q \<in> {1, 2, 4, 5}. read_chain q e) \<and> show_at 0 e = show_at 1 e"

lemma atom_all:
  assumes "unary_reads e" "\<And>p. show_at p e = show_at 7 e" "\<And>q. spine q e = 0"
  shows "all_reads e"
proof -
  have u: "e \<noteq> Null" "starts_with expr_head (show_at 7 e)" using assms(1) head_expr by (auto simp: unary_reads_def)
  have "read_chain q e" if "q \<in> {1, 2, 4, 5}" for q
    using assms(3) u(1) assms(2) [of q] assms(2) [of "Suc q"]
    by (intro operand_chain [OF that atom_levels [OF assms(1,2)]]) simp_all
  moreover have "starts_with expr_head (show_at p e)" for p using u(2) assms(2) [of p] by simp
  moreover have "show_at 0 e = show_at 1 e" using assms(2) [of 0] assms(2) [of 1] by simp
  ultimately show ?thesis using u(1) atom_levels [OF assms(1,2)] by (simp add: all_reads_def)
qed

lemma enclose_head: "starts_with expr_head s \<Longrightarrow> starts_with expr_head (enclose b s)"
  by (simp add: enclose_def parens_def expr_head_def)

lemma binary_all:
  assumes c: "c \<in> set ''|&=!lg<>+-*/%''" and l: "all_reads l" and x: "all_reads x"
  shows "all_reads (ast_expr_new (EBinary c l x))"
proof -
  let ?e = "ast_expr_new (EBinary c l x)" and ?q = "op_level c"
  have nn: "l \<noteq> Null" "x \<noteq> Null" "?e \<noteq> Null" using l x by (auto simp: all_reads_def ast_expr_new_def)
  have lv: "level_reads p l" "level_reads p x" if "1 \<le> p" for p using l x that by (auto simp: all_reads_def)
  have own_chain: "read_chain ?q ?e" if "?q \<noteq> 3"
  proof -
    have "?q \<in> {1, 2, 4, 5}" using that by (auto simp: op_level_def)
    then show ?thesis using l lv(2) nn(2) that by (intro binary_chain [OF c]) (auto simp: all_reads_def)
  qed
  have own: "level_reads ?q ?e"
  proof (cases "?q = 3")
    case True
    then show ?thesis using comparison_level [OF c True lv(1) nn(1) lv(2) nn(2)] by simp
  next
    case False
    then have "?q \<in> {1, 2, 4, 5}" by (auto simp: op_level_def)
    from chain_level [OF this own_chain [OF False]] show ?thesis .
  qed
  have shown: "show_at p ?e = enclose (?q < p) (show_at (left_level c) l @ CHR '' '' # op_text c @ CHR '' '' # show_at (Suc ?q) x)" for p
    by (rule show_new)
  have levels: "level_reads p ?e" if "1 \<le> p" for p
    using op_level_range [of c] by (intro operator_levels [OF own _ _ nn(3) shown that]) simp_all
  have "read_chain q ?e" if q: "q \<in> {1, 2, 4, 5}" for q
  proof (cases "?q = q")
    case True
    with own_chain q show ?thesis by auto
  next
    case False
    then have "?q < q \<longleftrightarrow> ?q < Suc q" by linarith
    then show ?thesis using levels False nn(3) shown by (intro operand_chain [OF q]) (simp_all add: ast_expr_new_def)
  qed
  moreover have "starts_with expr_head (show_at p ?e)" for p
  proof -
    have "starts_with expr_head (show_at (left_level c) l)" using l by (simp add: all_reads_def)
    then show ?thesis unfolding shown by (intro enclose_head) (cases "show_at (left_level c) l"; simp)
  qed
  moreover have "show_at 0 ?e = show_at 1 ?e" using op_level_range [of c] by (simp add: shown)
  ultimately show ?thesis using nn(3) levels by (simp add: all_reads_def)
qed

lemma unary_all:
  assumes c: "c \<in> set ''!-''" and x: "all_reads x"
  shows "all_reads (ast_expr_new (EUnary c x))"
proof -
  let ?e = "ast_expr_new (EUnary c x)"
  have nn: "x \<noteq> Null" "?e \<noteq> Null" using x by (auto simp: all_reads_def ast_expr_new_def)
  have own: "level_reads 6 ?e" using x nn(1) by (intro unary_level [OF c]) (auto simp: all_reads_def)
  have shown: "show_at p ?e = enclose (6 < p) (c # show_at 6 x)" for p by (rule show_new)
  have levels: "level_reads p ?e" if "1 \<le> p" for p
    by (rule operator_levels [OF own _ _ nn(2) shown that]) simp_all
  have "read_chain q ?e" if q: "q \<in> {1, 2, 4, 5}" for q
    using levels nn(2) shown q by (intro operand_chain [OF q]) (auto simp: ast_expr_new_def)
  moreover have "starts_with expr_head (show_at p ?e)" for p
    unfolding shown using c by (intro enclose_head) (auto simp: expr_head_def)
  ultimately show ?thesis using nn(2) levels by (simp add: all_reads_def shown)
qed

lemma all_expr_reads:
  assumes "all_reads e"
  shows "expr_reads e"
proof -
  have e: "e \<noteq> Null" "starts_with expr_head (show_expr e)" "level_reads 1 e" "show_expr e = show_at 1 e"
    using assms by (auto simp: all_reads_def)
  have "parse_expression k (sp @ show_expr e @ r) st = ret e r st"
    if sp: "sp \<in> {[], '' ''}" and r: "closing r" "Suc (length (show_expr e @ r)) < k" for k r st sp
  proof -
    obtain k' where k: "k = Suc k'" using r(2) by (cases k) auto
    have "reads (level_parser 1 (parse_expression k') (Suc (Suc k'))) e (show_at 1 e @ r) r"
      using r k e(4) closing_ends [OF r(1), of 1] by (intro level_readsD [OF e(3)]) auto
    then have "reads (level_parser 1 (parse_expression k') (Suc (Suc k'))) e (sp @ show_at 1 e @ r) r"
      using sp reads_space by auto
    then show ?thesis unfolding k e(4) using r(1) by (simp add: reads_def level_parser_def)
  qed
  from this [of "[]"] this [of "'' ''"] e show ?thesis by (simp add: expr_reads_def)
qed

lemma size_new [simp]: "size (ast_expr_new k) = Suc (size k)"
  by (simp add: ast_expr_new_def)

fun is_operator :: "ASTExpr \<Rightarrow> bool" where
  "is_operator (Expr nt (EBinary c l r)) = True"
| "is_operator (Expr nt (EUnary c x)) = True"
| "is_operator e = False"

lemma operand_all:
  assumes "unary_reads e" "\<not> is_operator e"
  shows "all_reads e"
proof (rule atom_all [OF assms(1)])
  obtain nt k where e: "e = Expr nt k" using assms(1) by (cases e) (auto simp: unary_reads_def)
  show "show_at p e = show_at 7 e" for p
    unfolding e show_at.simps [of p] show_at.simps [of 7] using assms(2) by (cases k) (simp_all add: e)
  show "spine q e = 0" for q unfolding e using assms(2) by (cases k) (simp_all add: e)
qed

lemma operand_reads:
  assumes "wf_expr e" and sub: "\<And>x. wf_expr x \<Longrightarrow> size x < size e \<Longrightarrow> expr_reads x" and "\<not> is_operator e"
  shows "unary_reads e"
proof -
  obtain nt k where e: "e = Expr nt k" using assms(1) by (cases e) (auto simp: wf_expr.simps [of Null])
  note wf = assms(1) [unfolded wf_expr.simps [of e], unfolded e, simplified]
  show ?thesis
  proof (cases k)
    case (ECall f xs)
    with wf have w: "e = ast_expr_new k" "var_ident f" "\<forall>x \<in> set xs. wf_expr x" by (simp_all add: e)
    moreover have "\<forall>x \<in> set xs. expr_reads x"
      using w(3) ECall by (auto simp: e less_Suc_eq_le intro!: sub le_SucI tree_sizes)
    ultimately show ?thesis using ECall ident_expr_reads(2) by simp
  next
    case (EStructLiteral n fs)
    with wf have w: "e = ast_expr_new k" "var_ident n" "\<forall>(f, x) \<in> set fs. is_ident f \<and> wf_expr x" by (simp_all add: e)
    moreover have "\<forall>(f, x) \<in> set fs. is_ident f \<and> expr_reads x"
      using w(3) EStructLiteral by (fastforce simp: e less_Suc_eq_le intro!: sub le_SucI intro: tree_sizes)
    ultimately show ?thesis using EStructLiteral ident_expr_reads(3) by simp
  next
    case (EMethodCall t m xs ch)
    with wf have w: "e = ast_expr_new k" "is_ident m" "wf_expr t" "\<forall>x \<in> set xs. wf_expr x" by (simp_all add: e)
    moreover have "\<forall>x \<in> set xs. expr_reads x"
      using w(4) EMethodCall by (fastforce simp: e less_Suc_eq_le intro!: sub dest: tree_sizes(1))
    moreover have "expr_reads t" using w(3) sub EMethodCall by (simp add: e)
    ultimately show ?thesis using EMethodCall method_reads by simp
  next
    case (EArrayLiteral xs ty)
    with wf have w: "e = ast_expr_new k" "ty = TYPE_NIL" "\<forall>x \<in> set xs. wf_expr x" by (auto simp: e)
    moreover have "\<forall>x \<in> set xs. expr_reads x"
      using w(3) EArrayLiteral by (auto simp: e less_Suc_eq_le intro!: sub le_SucI tree_sizes)
    ultimately show ?thesis using EArrayLiteral array_reads by simp
  next
    case (EDict ps)
    with wf have w: "e = ast_expr_new k" "\<forall>(a, b) \<in> set ps. wf_expr a \<and> wf_expr b" by (simp_all add: e)
    moreover have "\<forall>(a, b) \<in> set ps. expr_reads a \<and> expr_reads b"
      using w(2) EDict by (fastforce simp: e less_Suc_eq_le intro!: sub le_SucI intro: tree_sizes)
    ultimately show ?thesis using EDict dict_reads by simp
  next
    case (EIndex t i)
    with wf have w: "e = ast_expr_new k" "wf_expr t" "wf_expr i" by (simp_all add: e)
    then have "expr_reads t" "expr_reads i" using sub EIndex by (simp_all add: e)
    then show ?thesis unfolding w(1) EIndex by (rule index_reads)
  next
    case (EMember t m ch)
    with wf have w: "e = ast_expr_new k" "wf_expr t" "is_ident m" by (simp_all add: e)
    then have "expr_reads t" using sub EMember by (simp add: e)
    then show ?thesis unfolding w(1) EMember by (rule member_reads) (rule w(3))
  next
    case (EVar x)
    with wf have "e = ast_expr_new k" "var_ident x" by (simp_all add: e)
    with EVar show ?thesis using ident_expr_reads(1) by simp
  next
    case (EInt i)
    with wf have "e = ast_expr_tagged k TYPE_INT" "unat i < 2 ^ 31" by (simp_all add: e)
    with EInt show ?thesis using simple_reads(5) by simp
  next
    case (EBinary c l r)
    with assms(3) show ?thesis by (simp add: e)
  next
    case (EUnary c x)
    with assms(3) show ?thesis by (simp add: e)
  qed (use wf in \<open>simp_all add: e simple_reads\<close>)
qed


lemma wf_all_reads: "wf_expr e \<Longrightarrow> all_reads e"
proof (induction e rule: measure_induct_rule [of size])
  case (less e)
  have sub: "expr_reads x" if "wf_expr x" "size x < size e" for x using less.IH that all_expr_reads by blast
  show ?case
  proof (cases "is_operator e")
    case False
    then show ?thesis using operand_all [OF operand_reads [OF less.prems sub]] by blast
  next
    case True
    then consider nt c l r where "e = Expr nt (EBinary c l r)" | nt c x where "e = Expr nt (EUnary c x)"
      by (cases e rule: is_operator.cases) auto
    then show ?thesis
    proof cases
      case (1 nt c l r)
      with less.prems [unfolded wf_expr.simps [of e]] have "e = ast_expr_new (EBinary c l r)" "c \<in> set ''|&=!lg<>+-*/%''"
        "all_reads l" "all_reads r" using less.IH by simp_all
      with binary_all show ?thesis by simp
    next
      case (2 nt c x)
      with less.prems [unfolded wf_expr.simps [of e]] have "e = ast_expr_new (EUnary c x)" "c \<in> set ''!-''"
        "all_reads x" using less.IH by simp_all
      with unary_all show ?thesis by simp
    qed
  qed
qed

text \<open>
  C21: what the printer writes, the parser reads. The printer writes an operand in parentheses only where
  precedence and associativity require it: when its operator binds less tightly than the one around it, or as
  tightly on the right of an operator and on both sides of a comparison; the target of an index, member or
  method access is always in parentheses. A printed expression, of any size and nesting, of names, strings with
  quotes and backslashes, nil, booleans, integer literals below \<open>2^31\<close> (no double literals), all unary and
  binary operators, calls, indexing, member and method access with and without optional chaining, array,
  dictionary and struct literals, followed by the end of the text or a closing bracket, comma or colon, is read
  back as the same tree, tags included; no error is reported and the cursor is right behind it.
\<close>
theorem parse_show_expr:
  assumes "wf_expr e" and "closing r" and "Suc (length (show_expr e @ r)) < n"
  shows "parse_expression n (show_expr e @ r) st = Some (Done (e, r, st))"
  using expr_readsD(6) [OF all_expr_reads [OF wf_all_reads [OF assms(1)]] assms(2,3)] by (simp add: ret_def)

definition sample_tree :: ASTExpr where
  \<comment> \<open>\<^verbatim>\<open>a - (b - 12) * -c < (d + a)["k"] && !b\<close>\<close>
  "sample_tree = (let v = (\<lambda>x. ast_expr_new (EVar x)); bin = (\<lambda>c l r. ast_expr_new (EBinary c l r)) in
     bin CHR ''&''
       (bin CHR ''<''
          (bin CHR ''-'' (v ''a'') (bin CHR ''*'' (bin CHR ''-'' (v ''b'') (ast_expr_tagged (EInt 12) TYPE_INT)) (ast_expr_new (EUnary CHR ''-'' (v ''c'')))))
          (ast_expr_new (EIndex (bin CHR ''+'' (v ''d'') (v ''a'')) (ast_expr_tagged (EStringLiteral ''k'') TYPE_STRING))))
       (ast_expr_new (EUnary CHR ''!'' (v ''b''))))"

lemma sample_tree_text: "show_expr sample_tree = ''a - (b - 12) * -c < (d + a)['' @ [CHR 0x22] @ ''k'' @ [CHR 0x22] @ ''] && !b''"
proof -
  have "digits 12 = ''12''" by code_simp
  then show ?thesis
    by (simp add: sample_tree_def Let_def show_new parens_def op_text_def op_level_def left_level_def enclose_def show_string_def show_char_def)
qed

theorem parse_show_expr_witness:
  "parse_expression 50 (''a - (b - 12) * -c < (d + a)['' @ [CHR 0x22] @ ''k'' @ [CHR 0x22] @ ''] && !b'') error_state0 =
     Some (Done (sample_tree, [], error_state0))"
proof -
  have "wf_expr sample_tree"
    unfolding sample_tree_def
    by (simp add: wf_expr.simps Let_def ast_expr_new_def ast_expr_tagged_def var_ident_def is_ident_def is_ident_start_def
        is_ident_char_def isalpha_def keyword_names_def)
  from parse_show_expr [OF this, of "[]" 50 error_state0] show ?thesis
    by (simp add: sample_tree_text closing_def)
qed

section \<open>The buffer of a string literal\<close>

lemma string_loop_plain:
  "\<forall>c \<in> set s. c \<noteq> CHR 0x22 \<and> c \<noteq> CHR 0x5C \<Longrightarrow> length (chars b) + length s + 1 \<le> capacity b \<Longrightarrow>
   string_loop pe (length s + n) b e (s @ t) st = string_loop pe n (b\<lparr>chars := chars b @ s\<rparr>) e t st"
proof (induction s arbitrary: b)
  case (Cons c s)
  have "buf_add [c] (buf_room b) = Some (b\<lparr>chars := chars b @ [c]\<rparr>)"
    using Cons.prems(2) by (simp add: buf_add_def buf_room_def)
  with Cons show ?case by (simp add: Let_def)
qed simp

text \<open>
  The buffer is made longer when two more characters would not fit, but an unknown escape stores two
  characters and leaves no room for the NUL: with 62 plain characters before it and the closing quote
  behind it the NUL is written past the 64 bytes.
\<close>

lemma string_escape_overflow:
  assumes "length s = 62" and "\<forall>c \<in> set s. c \<noteq> CHR 0x22 \<and> c \<noteq> CHR 0x5C"
  shows "parse_string_literal pe (length s + 2) (CHR 0x22 # s @ [CHR 0x5C, CHR ''q'', CHR 0x22]) st = Some Undefined"
  using string_loop_plain [OF assms(2), of "\<lparr>chars = [], capacity = 64\<rparr>" pe 2 Null "[CHR 0x5C, CHR ''q'', CHR 0x22]" st] assms(1)
  by (simp add: parse_string_literal_def INITIAL_STRING_CAPACITY_def eval_nat_numeral Let_def buf_room_def unescape_def
      buf_add_def flush_text_def buf_text_def)

end
