(* ===== verification/BreadEscape.thy ===== *)
theory BreadEscape
  imports BreadAST
begin

text \<open>
  The escape analysis of \<^verbatim>\<open>src/src/compiler/analysis/escape_analysis.c\<close>. The pass writes a
  record into every expression node it visits; here it returns the tree with the records in the
  notes. The statement counter is threaded through; allocation is taken to succeed. The C code reads
  the record of a child without a test for NULL, so trees with a \<open>Null\<close> child (which the
  parser makes only of malformed text) are outside of what the model says of the code.
\<close>

section \<open>What is recorded of a node\<close>

fun escape_rank :: "EscapeKind \<Rightarrow> nat" where
  \<comment> \<open>the value of the C enumeration, which the comparisons use\<close>
  "escape_rank ESCAPE_UNKNOWN = 0"
| "escape_rank ESCAPE_NONE = 1"
| "escape_rank ESCAPE_RETURN = 2"
| "escape_rank ESCAPE_GLOBAL = 3"
| "escape_rank ESCAPE_PARAMETER = 4"
| "escape_rank ESCAPE_HEAP = 5"

definition alloc_escape_info :: EscapeInfo where
  "alloc_escape_info = \<lparr>escape_kind = ESCAPE_UNKNOWN, can_stack_allocate = True, lifetime_end = -1, ref_count = 0\<rparr>"

definition mark_escape :: "EscapeKind \<Rightarrow> EscapeInfo \<Rightarrow> EscapeInfo" where
  "mark_escape kind info =
     (let info1 = (if escape_rank kind > escape_rank (escape_kind info) then info\<lparr>escape_kind := kind\<rparr> else info)
      in case kind of
        ESCAPE_NONE \<Rightarrow> info1\<lparr>can_stack_allocate := True\<rparr>
      | ESCAPE_RETURN \<Rightarrow> info1\<lparr>can_stack_allocate := False\<rparr>
      | ESCAPE_PARAMETER \<Rightarrow> info1\<lparr>can_stack_allocate := False\<rparr>
      | ESCAPE_GLOBAL \<Rightarrow> info1\<lparr>can_stack_allocate := False\<rparr>
      | ESCAPE_HEAP \<Rightarrow> info1\<lparr>can_stack_allocate := False\<rparr>
      | ESCAPE_UNKNOWN \<Rightarrow> info1)"

fun get_escape_info :: "ASTExpr \<Rightarrow> EscapeInfo option" where
  "get_escape_info Null = None"
| "get_escape_info (Expr nt k) = escape_info nt"

definition can_stack :: "ASTExpr \<Rightarrow> bool" where
  "can_stack e = (case get_escape_info e of None \<Rightarrow> False | Some info \<Rightarrow> can_stack_allocate info)"

definition get_value_lifetime :: "ASTExpr \<Rightarrow> int" where
  "get_value_lifetime e = (case get_escape_info e of None \<Rightarrow> -1 | Some info \<Rightarrow> lifetime_end info)"

fun on_info :: "(EscapeInfo \<Rightarrow> EscapeInfo) \<Rightarrow> ASTExpr \<Rightarrow> ASTExpr" where
  \<comment> \<open>a change of the record that \<^verbatim>\<open>expr->escape_info\<close> points to\<close>
  "on_info f Null = Null"
| "on_info f (Expr nt k) = Expr (nt\<lparr>escape_info := map_option f (escape_info nt)\<rparr>) k"

section \<open>Expressions\<close>

definition with_info :: "ast_note \<Rightarrow> EscapeInfo \<Rightarrow> ast_node \<Rightarrow> ASTExpr" where
  "with_info nt info k = Expr (nt\<lparr>escape_info := Some info\<rparr>) k"

definition used_once :: EscapeInfo where
  "used_once = alloc_escape_info\<lparr>ref_count := 1\<rparr>"

definition local_at :: "int \<Rightarrow> EscapeInfo" where
  \<comment> \<open>a temporary of the statement with this index\<close>
  "local_at i = (mark_escape ESCAPE_NONE used_once)\<lparr>lifetime_end := i\<rparr>"

definition part_of :: "ASTExpr \<Rightarrow> EscapeInfo" where
  \<comment> \<open>an element or member: on the heap when what it is taken out of is\<close>
  "part_of target = (case get_escape_info target of
       Some obj_info \<Rightarrow> if escape_rank (escape_kind obj_info) \<ge> escape_rank ESCAPE_HEAP
         then mark_escape ESCAPE_HEAP used_once else mark_escape ESCAPE_NONE used_once
     | None \<Rightarrow> mark_escape ESCAPE_NONE used_once)"

function (sequential) analyze_expr_escape :: "int \<Rightarrow> ASTExpr \<Rightarrow> ASTExpr" where
  "analyze_expr_escape i Null = Null"
| "analyze_expr_escape i (Expr nt (EVar x)) = with_info nt (mark_escape ESCAPE_NONE used_once) (EVar x)"
| "analyze_expr_escape i (Expr nt ESelf) = with_info nt (mark_escape ESCAPE_NONE used_once) ESelf"
| "analyze_expr_escape i (Expr nt ESuper) = with_info nt (mark_escape ESCAPE_NONE used_once) ESuper"
| "analyze_expr_escape i (Expr nt (EBinary op l r)) =
     with_info nt (local_at i) (EBinary op (analyze_expr_escape i l) (analyze_expr_escape i r))"
| "analyze_expr_escape i (Expr nt (EUnary op e)) = with_info nt (local_at i) (EUnary op (analyze_expr_escape i e))"
| "analyze_expr_escape i (Expr nt (ECall f args)) =
     with_info nt (mark_escape ESCAPE_RETURN used_once)
       (ECall f (map (\<lambda>a. on_info (mark_escape ESCAPE_PARAMETER) (analyze_expr_escape i a)) args))"
| "analyze_expr_escape i (Expr nt (EIndex t x)) =
     (let t1 = analyze_expr_escape i t in with_info nt (part_of t1) (EIndex t1 (analyze_expr_escape i x)))"
| "analyze_expr_escape i (Expr nt (EMember t m c)) =
     (let t1 = analyze_expr_escape i t in with_info nt (part_of t1) (EMember t1 m c))"
| "analyze_expr_escape i (Expr nt (EArray es)) =
     with_info nt (mark_escape ESCAPE_HEAP used_once)
       (EArray (map (\<lambda>e. on_info (mark_escape ESCAPE_HEAP) (analyze_expr_escape i e)) es))"
| "analyze_expr_escape i (Expr nt (EDict kvs)) =
     with_info nt (mark_escape ESCAPE_HEAP used_once)
       (EDict (map (\<lambda>(k, v). (on_info (mark_escape ESCAPE_HEAP) (analyze_expr_escape i k),
                              on_info (mark_escape ESCAPE_HEAP) (analyze_expr_escape i v))) kvs))"
| "analyze_expr_escape i (Expr nt (EMethodCall t m args c)) =
     with_info nt (mark_escape ESCAPE_RETURN used_once)
       (EMethodCall (analyze_expr_escape i t) m
          (map (\<lambda>a. on_info (mark_escape ESCAPE_PARAMETER) (analyze_expr_escape i a)) args) c)"
| "analyze_expr_escape i (Expr nt (EStringLiteral s)) = with_info nt used_once (EStringLiteral s)"
| "analyze_expr_escape i (Expr nt (EArrayLiteral es t)) =
     with_info nt (mark_escape ESCAPE_HEAP used_once) (EArrayLiteral (map (analyze_expr_escape i) es) t)"
| "analyze_expr_escape i (Expr nt (EStructLiteral s fs)) =
     with_info nt (mark_escape ESCAPE_HEAP used_once)
       (EStructLiteral s (map (\<lambda>(f, e). (f, analyze_expr_escape i e)) fs))"
| "analyze_expr_escape i (Expr nt (EClassLiteral s fs)) =
     with_info nt (mark_escape ESCAPE_HEAP used_once)
       (EClassLiteral s (map (\<lambda>(f, e). (f, analyze_expr_escape i e)) fs))"
| "analyze_expr_escape i (Expr nt atom) = with_info nt (local_at i) atom"
  by pat_completeness auto
termination
  by (relation "measure (size \<circ> snd)") (auto dest: tree_sizes)

section \<open>Statements\<close>

definition forget_lifetime :: "EscapeInfo \<Rightarrow> EscapeInfo" where
  "forget_lifetime info = (if escape_kind info = ESCAPE_NONE then info\<lparr>lifetime_end := -1\<rparr> else info)"

definition one_more_use :: "EscapeInfo \<Rightarrow> EscapeInfo" where
  "one_more_use info = info\<lparr>ref_count := ref_count info + 1\<rparr>"

function (sequential)
  analyze_stmt_escape :: "ASTStmt \<Rightarrow> int \<Rightarrow> ASTStmt \<times> int" and
  analyze_stmts_escape :: "ASTStmt list \<Rightarrow> int \<Rightarrow> ASTStmt list \<times> int"
where
  "analyze_stmt_escape (Stmt h k) i0 =
     (let i = i0 + 1 in case k of
        SVarDecl x t td e c \<Rightarrow> (Stmt h (SVarDecl x t td (on_info forget_lifetime (analyze_expr_escape i e)) c), i)
      | SPrint e \<Rightarrow> (Stmt h (SPrint (on_info one_more_use (analyze_expr_escape i e))), i)
      | SIf e t f \<Rightarrow>
          (let (t1, i1) = analyze_stmts_escape (stmts_of t) i; (f1, i2) = analyze_stmts_escape (stmts_of f) i1
           in (Stmt h (SIf (analyze_expr_escape i e) (branch t t1) (branch f f1)), i2))
      | SWhile e b \<Rightarrow>
          (let (b1, i1) = analyze_stmts_escape (stmts_of b) i in (Stmt h (SWhile (analyze_expr_escape i e) (branch b b1)), i1))
      | SFor x e b \<Rightarrow>
          (let (b1, i1) = analyze_stmts_escape (stmts_of b) i in (Stmt h (SFor x (analyze_expr_escape i e) (branch b b1)), i1))
      | SForIn x e b \<Rightarrow>
          (let (b1, i1) = analyze_stmts_escape (stmts_of b) i in (Stmt h (SForIn x (analyze_expr_escape i e) (branch b b1)), i1))
      | SFuncDecl f \<Rightarrow>
          (let (b1, i1) = analyze_stmts_escape (func_stmts f) i
           in (Stmt h (SFuncDecl (FuncDecl (func_sig f) (branch (func_body f) b1) (opt_info f))), i1))
      | SReturn e \<Rightarrow> (Stmt h (SReturn (on_info (mark_escape ESCAPE_RETURN) (analyze_expr_escape i e))), i)
      | SVarAssign x e op \<Rightarrow> (Stmt h (SVarAssign x (analyze_expr_escape i e) op), i)
      | SIndexAssign t x e op \<Rightarrow>
          (Stmt h (SIndexAssign (analyze_expr_escape i t) (analyze_expr_escape i x) (analyze_expr_escape i e) op), i)
      | SMemberAssign t m e op \<Rightarrow> (Stmt h (SMemberAssign (analyze_expr_escape i t) m (analyze_expr_escape i e) op), i)
      | SExpr e \<Rightarrow> (Stmt h (SExpr (analyze_expr_escape i e)), i)
      | other \<Rightarrow> (Stmt h other, i))"
| "analyze_stmts_escape [] i = ([], i)"
| "analyze_stmts_escape (s # ss) i =
     (let (s1, i1) = analyze_stmt_escape s i; (ss1, i2) = analyze_stmts_escape ss i1 in (s1 # ss1, i2))"
  by pat_completeness auto
termination
  by (relation "measure (\<lambda>x. case x of Inl (s, i) \<Rightarrow> size s | Inr (ss, i) \<Rightarrow> size_list size ss)")
    (auto intro!: stmts_of_bound func_stmts_bound)

definition escape_analysis_run :: "ASTStmt list \<Rightarrow> ASTStmt list" where
  "escape_analysis_run program = fst (analyze_stmts_escape program 0)"

section \<open>The program is the same\<close>

definition no_escape :: "ast_note \<Rightarrow> ast_note" where
  "no_escape nt = nt\<lparr>escape_info := None\<rparr>"

abbreviation erased :: "ASTExpr \<Rightarrow> ASTExpr" where
  "erased \<equiv> map_notes no_escape"

lemma erased_on_info [simp]: "erased (on_info f e) = erased e"
  by (cases e) (simp_all add: no_escape_def)

lemma erased_with_info [simp]: "erased (with_info nt info k) = Expr (no_escape nt) (map_children erased k)"
  by (simp add: with_info_def no_escape_def)

lemma erased_analyze_expr [simp]: "erased (analyze_expr_escape i e) = erased e"
  by (induction i e rule: analyze_expr_escape.induct) (auto simp: Let_def)

lemma map_branch: "branch b (map_stmts_exprs g (if b = None then x else ss)) = branch b (map_stmts_exprs g ss)"
  by (cases b) (simp_all add: branch_def)

lemma erased_analyze_stmts:
  "map_stmt_exprs erased (fst (analyze_stmt_escape s i)) = map_stmt_exprs erased s"
  "map_stmts_exprs erased (fst (analyze_stmts_escape ss i)) = map_stmts_exprs erased ss"
proof (induction s i and ss i rule: analyze_stmt_escape_analyze_stmts_escape.induct)
  case (1 h k i)
  then show ?case
    by (cases k) (simp_all add: split_def Let_def func_stmts_def' map_branch, metis prod.collapse)
qed (simp_all add: split_def Let_def, metis prod.collapse)

section \<open>What stays on the stack\<close>

definition info_ok :: "EscapeInfo \<Rightarrow> bool" where
  "info_ok info = (can_stack_allocate info = (escape_kind info = ESCAPE_UNKNOWN \<or> escape_kind info = ESCAPE_NONE))"

fun made_on_heap :: "ast_node \<Rightarrow> bool" where
  \<comment> \<open>results of calls, and the containers and instances that literals make\<close>
  "made_on_heap (ECall f args) = True"
| "made_on_heap (EMethodCall t m args c) = True"
| "made_on_heap (EArray es) = True"
| "made_on_heap (EDict kvs) = True"
| "made_on_heap (EArrayLiteral es t) = True"
| "made_on_heap (EStructLiteral s fs) = True"
| "made_on_heap (EClassLiteral s fs) = True"
| "made_on_heap _ = False"

fun passed_on :: "ast_node \<Rightarrow> ASTExpr list" where
  \<comment> \<open>the operands the pass means to keep off the stack: arguments, and the items of \<^verbatim>\<open>AST_EXPR_ARRAY\<close> and
    \<^verbatim>\<open>AST_EXPR_DICT\<close>; the elements of array literals are not among them\<close>
  "passed_on (ECall f args) = args"
| "passed_on (EMethodCall t m args c) = args"
| "passed_on (EArray es) = es"
| "passed_on (EDict kvs) = concat (map (\<lambda>(k, v). [k, v]) kvs)"
| "passed_on _ = []"

fun node_ok :: "ASTExpr \<Rightarrow> bool" where
  "node_ok Null = True"
| "node_ok (Expr nt k) = (case escape_info nt of None \<Rightarrow> False
     | Some info \<Rightarrow> info_ok info \<and> (made_on_heap k \<longrightarrow> \<not> can_stack_allocate info) \<and>
         list_all (\<lambda>c. \<not> can_stack c) (passed_on k))"

definition nodes_ok :: "ASTExpr \<Rightarrow> bool" where
  "nodes_ok e = list_all node_ok (subexprs e)"

fun mark_keeps :: "(EscapeInfo \<Rightarrow> EscapeInfo) \<Rightarrow> bool" where
  "mark_keeps f = (\<forall>info. info_ok info \<longrightarrow> info_ok (f info) \<and> (can_stack_allocate (f info) \<longrightarrow> can_stack_allocate info))"

lemma marks_keep [simp]:
  "info_ok info \<Longrightarrow> info_ok (mark_escape ESCAPE_RETURN info)"
  "info_ok info \<Longrightarrow> info_ok (mark_escape ESCAPE_PARAMETER info)"
  "info_ok info \<Longrightarrow> info_ok (mark_escape ESCAPE_HEAP info)"
  "info_ok info \<Longrightarrow> info_ok (forget_lifetime info)"
  "info_ok info \<Longrightarrow> info_ok (one_more_use info)"
  by (cases "escape_kind info"; simp add: info_ok_def mark_escape_def forget_lifetime_def one_more_use_def)+

lemma mark_stack [simp]:
  "can_stack_allocate (mark_escape ESCAPE_RETURN info) = False"
  "can_stack_allocate (mark_escape ESCAPE_PARAMETER info) = False"
  "can_stack_allocate (mark_escape ESCAPE_HEAP info) = False"
  "can_stack_allocate (forget_lifetime info) = can_stack_allocate info"
  "can_stack_allocate (one_more_use info) = can_stack_allocate info"
  by (simp_all add: mark_escape_def forget_lifetime_def one_more_use_def)

lemma nodes_ok_Null [simp]: "nodes_ok Null"
  by (simp add: nodes_ok_def)

lemma nodes_ok_Expr: "nodes_ok (Expr nt k) = (node_ok (Expr nt k) \<and> list_all nodes_ok (children k))"
  unfolding nodes_ok_def by (auto simp: list_all_iff)

lemma nodes_ok_on_info:
  "nodes_ok e \<Longrightarrow> mark_keeps f \<Longrightarrow> nodes_ok (on_info f e)"
  by (cases e) (auto simp: nodes_ok_Expr split: option.splits)

lemma can_stack_on_info [simp]:
  "\<not> can_stack (on_info (mark_escape ESCAPE_RETURN) e)"
  "\<not> can_stack (on_info (mark_escape ESCAPE_PARAMETER) e)"
  "\<not> can_stack (on_info (mark_escape ESCAPE_HEAP) e)"
  by (cases e; simp add: can_stack_def split: option.splits)+

lemma fresh_infos [simp]:
  "info_ok used_once" "info_ok (mark_escape ESCAPE_NONE used_once)" "info_ok (local_at i)" "info_ok (part_of e)"
  by (auto simp: info_ok_def used_once_def alloc_escape_info_def mark_escape_def local_at_def part_of_def
      split: option.splits)

lemma nodes_ok_with_info:
  "nodes_ok (with_info nt info k) =
     (info_ok info \<and> (made_on_heap k \<longrightarrow> \<not> can_stack_allocate info) \<and>
      list_all (\<lambda>c. \<not> can_stack c) (passed_on k) \<and> list_all nodes_ok (children k))"
  by (auto simp: with_info_def nodes_ok_Expr)

lemma analyze_expr_nodes_ok: "nodes_ok (analyze_expr_escape i e)"
  by (induction i e rule: analyze_expr_escape.induct)
    (auto simp: nodes_ok_with_info list_all_iff Let_def intro!: nodes_ok_on_info)


fun returned :: "ASTStmt \<Rightarrow> ASTExpr" where
  "returned (Stmt h (SReturn e)) = e"
| "returned (Stmt h _) = Null"

definition stmt_ok :: "ASTStmt \<Rightarrow> bool" where
  "stmt_ok s = (list_all nodes_ok (stmt_exprs s) \<and> \<not> can_stack (returned s))"

definition stmts_ok :: "ASTStmt list \<Rightarrow> bool" where
  "stmts_ok ss = list_all stmt_ok (concat (map all_stmts ss))"

lemma stmts_ok_simps [simp]:
  "stmts_ok []" "stmts_ok (s # ss) = (stmt_ok s \<and> stmts_ok (bodies s) \<and> stmts_ok ss)"
  "stmts_ok (ss @ ss') = (stmts_ok ss \<and> stmts_ok ss')"
  "stmts_ok (if P then [] else ss) = (P \<or> stmts_ok ss)"
  unfolding stmts_ok_def by (auto simp: all_stmts.simps [of s])

lemma can_stack_Null [simp]: "\<not> can_stack Null"
  by (simp add: can_stack_def)

lemma analyze_stmts_ok:
  "stmts_ok [fst (analyze_stmt_escape s i)]"
  "stmts_ok (fst (analyze_stmts_escape ss i))"
proof (induction s i and ss i rule: analyze_stmt_escape_analyze_stmts_escape.induct)
  case (1 h k i)
  then show ?case
    by (cases k) (auto simp: split_def Let_def bodies_def func_stmts_def' stmt_ok_def
        intro!: nodes_ok_on_info analyze_expr_nodes_ok, metis prod.collapse)
qed (simp_all add: split_def Let_def, metis prod.collapse)

text \<open>
  C34: after the escape analysis of a program every node of every expression of its statements (in
  branches, loops and function bodies; the pass skips class bodies) carries a record, and the record allows the stack exactly for the kinds unknown and none. It never allows it for
  the result of a call or a container or instance that a literal makes, for an argument of a call,
  for the items of the nodes \<^verbatim>\<open>AST_EXPR_ARRAY\<close> and \<^verbatim>\<open>AST_EXPR_DICT\<close>, and for the value of a return statement,
  at any nesting depth. The elements of \<^verbatim>\<open>AST_EXPR_ARRAY_LITERAL\<close>, the node the parser makes for a written
  array, and the fields of struct and class literals are not among them: the pass does not mark them (see
  \<open>array_literal_elements_unmarked\<close> below).
\<close>
theorem escape_analysis_sound:
  "list_all (\<lambda>s. list_all (\<lambda>e. list_all node_ok (subexprs e)) (stmt_exprs s) \<and> \<not> can_stack (returned s))
     (concat (map all_stmts (escape_analysis_run program)))"
  using analyze_stmts_ok(2) [of program 0]
  by (simp add: stmts_ok_def stmt_ok_def [abs_def] nodes_ok_def [abs_def] escape_analysis_run_def)

text \<open>The escape analysis changes nothing of a program but the records it attaches.\<close>
theorem escape_analysis_attaches:
  "map_stmts_exprs (map_notes no_escape) (escape_analysis_run program) = map_stmts_exprs (map_notes no_escape) program"
  by (simp add: escape_analysis_run_def erased_analyze_stmts)

section \<open>What the marks miss\<close>

text \<open>
  The elements of an array literal are stored in the array on the heap, but unlike the items of
  \<^verbatim>\<open>AST_EXPR_ARRAY\<close> and like the fields of struct and class literals they are not marked.
\<close>

lemma array_literal_elements_unmarked:
  "can_stack (analyze_expr_escape i (ast_expr_new (EVar x)))"
  "analyze_expr_escape i (ast_expr_new (EArrayLiteral es t)) =
     with_info new_note (mark_escape ESCAPE_HEAP used_once) (EArrayLiteral (map (analyze_expr_escape i) es) t)"
  by (simp_all add: ast_expr_new_def can_stack_def with_info_def mark_escape_def used_once_def alloc_escape_info_def)

end
