(* ===== verification/BreadStability.thy ===== *)
theory BreadStability
  imports BreadAST
begin

text \<open>
  The type stability analysis of \<^verbatim>\<open>src/src/compiler/analysis/type_stability.c\<close>: the tracker of
  declared variables (\<^verbatim>\<open>g_vars\<close>, an array of 256 that grows at its end, here a list with the newest
  first) together with the loop and function counters of \<^verbatim>\<open>g_ctx\<close> is the state; the pass returns
  the tree with the records it attaches. Only the statements the C code handles are visited: not
  the else branch, not the bodies of \<^verbatim>\<open>for\<close> loops, and no operand of a call, an index or a
  literal. Allocation is taken to succeed. The C code follows the branches of a condition, the bodies of
  loops and functions and the operands of operators without a test for NULL, so the model speaks of
  trees that have them.
\<close>

section \<open>The tracked variables\<close>

definition MAX_TRACKED_VARS :: nat where
  "MAX_TRACKED_VARS = 256"

record TrackedVar =
  tv_name :: cstring
  tv_depth :: nat
  tv_const :: bool
  tv_local :: bool
  mutations :: nat
  usages :: nat
  declared_in_loop :: bool

record StabilityCtx =
  vars :: "TrackedVar list" \<comment> \<open>the newest first\<close>
  scope_depth :: nat
  in_loop :: nat
  current_function_depth :: nat

fun find_var :: "TrackedVar list \<Rightarrow> cstring \<Rightarrow> TrackedVar option" where
  "find_var [] name = None"
| "find_var (v # vs) name = (if tv_name v = name then Some v else find_var vs name)"

fun update_var :: "(TrackedVar \<Rightarrow> TrackedVar) \<Rightarrow> TrackedVar list \<Rightarrow> cstring \<Rightarrow> TrackedVar list" where
  \<comment> \<open>a change of the variable that \<open>find_var\<close> points to\<close>
  "update_var f [] name = []"
| "update_var f (v # vs) name = (if tv_name v = name then f v # vs else v # update_var f vs name)"

definition declare_var :: "cstring \<Rightarrow> bool \<Rightarrow> bool \<Rightarrow> StabilityCtx \<Rightarrow> StabilityCtx" where
  "declare_var name const local c =
     (if length (vars c) \<ge> MAX_TRACKED_VARS then c
      else c\<lparr>vars := \<lparr>tv_name = name, tv_depth = scope_depth c, tv_const = const, tv_local = local,
               mutations = 0, usages = 0, declared_in_loop = (in_loop c > 0)\<rparr> # vars c\<rparr>)"

definition mark_mutation :: "cstring \<Rightarrow> StabilityCtx \<Rightarrow> StabilityCtx" where
  "mark_mutation name c = c\<lparr>vars := update_var (\<lambda>v. v\<lparr>mutations := mutations v + 1\<rparr>) (vars c) name\<rparr>"

definition mark_usage :: "cstring \<Rightarrow> StabilityCtx \<Rightarrow> StabilityCtx" where
  "mark_usage name c = c\<lparr>vars := update_var (\<lambda>v. v\<lparr>usages := usages v + 1\<rparr>) (vars c) name\<rparr>"

definition enter_scope :: "StabilityCtx \<Rightarrow> StabilityCtx" where
  "enter_scope c = c\<lparr>scope_depth := scope_depth c + 1\<rparr>"

definition leave_scope :: "StabilityCtx \<Rightarrow> StabilityCtx" where
  "leave_scope c = c\<lparr>vars := dropWhile (\<lambda>v. tv_depth v \<ge> scope_depth c) (vars c), scope_depth := scope_depth c - 1\<rparr>"

section \<open>Expressions\<close>

fun stability_rank :: "TypeStability \<Rightarrow> nat" where
  \<comment> \<open>the value of the C enumeration, which the comparisons use\<close>
  "stability_rank STABILITY_UNKNOWN = 0"
| "stability_rank STABILITY_STABLE = 1"
| "stability_rank STABILITY_UNSTABLE = 2"
| "stability_rank STABILITY_CONDITIONAL = 3"

definition alloc_info :: TypeStabilityInfo where
  "alloc_info = \<lparr>stab_type = TYPE_NIL, stability = STABILITY_UNKNOWN, is_constant = False, is_local = False,
     mutation_count = 0, usage_count = 0\<rparr>"

fun get_expr_stability_info :: "ASTExpr \<Rightarrow> TypeStabilityInfo option" where
  "get_expr_stability_info Null = None"
| "get_expr_stability_info (Expr nt k) = stability_info nt"

definition is_type_stable :: "ASTExpr \<Rightarrow> bool" where
  "is_type_stable e = (case get_expr_stability_info e of None \<Rightarrow> False
     | Some info \<Rightarrow> stability_rank (stability info) \<ge> stability_rank STABILITY_CONDITIONAL)"

definition can_unbox_integer :: "ASTExpr \<Rightarrow> bool" where
  "can_unbox_integer e = (case get_expr_stability_info e of None \<Rightarrow> False
     | Some info \<Rightarrow> stab_type info = TYPE_INT \<and> stability_rank (stability info) \<ge> stability_rank STABILITY_CONDITIONAL)"

definition known_type :: "ASTTypeTag \<Rightarrow> TypeStabilityInfo \<Rightarrow> TypeStabilityInfo" where
  "known_type t info = (if is_known t then info\<lparr>stab_type := tag_type t\<rparr> else info)"

definition literal_info :: "ASTTypeTag \<Rightarrow> TypeStabilityInfo" where
  "literal_info t = known_type t (alloc_info\<lparr>stability := STABILITY_STABLE, is_constant := True\<rparr>)"

definition opaque_info :: TypeStabilityInfo where
  "opaque_info = alloc_info\<lparr>stability := STABILITY_UNSTABLE\<rparr>"

definition tracked_stability :: "TrackedVar \<Rightarrow> nat \<Rightarrow> TypeStability" where
  "tracked_stability v loops =
     (if tv_const v then STABILITY_STABLE
      else if mutations v = 0 \<and> tv_local v then STABILITY_STABLE
      else if mutations v \<le> 1 \<and> \<not> declared_in_loop v \<and> loops = 0 then STABILITY_CONDITIONAL
      else STABILITY_UNSTABLE)"

definition var_info :: "StabilityCtx \<Rightarrow> cstring \<Rightarrow> ASTTypeTag \<Rightarrow> TypeStabilityInfo" where
  "var_info c name t =
     (let info = (case find_var (vars c) name of None \<Rightarrow> opaque_info
        | Some v \<Rightarrow> opaque_info\<lparr>is_local := tv_local v, mutation_count := mutations v, usage_count := usages v,
                     stability := tracked_stability v (in_loop c)\<rparr>)
      in if is_known t
         then info\<lparr>stab_type := tag_type t,
                stability := (if stability info = STABILITY_UNSTABLE then STABILITY_CONDITIONAL else stability info)\<rparr>
         else info)"

definition binary_stability :: "TypeStabilityInfo \<Rightarrow> TypeStabilityInfo \<Rightarrow> TypeStabilityInfo" where
  "binary_stability l r =
     (let info = (if stability l = STABILITY_STABLE \<and> stability r = STABILITY_STABLE
          then alloc_info\<lparr>stability := STABILITY_STABLE, is_constant := is_constant l \<and> is_constant r\<rparr>
        else if stability_rank (stability l) \<ge> stability_rank STABILITY_CONDITIONAL \<and>
            stability_rank (stability r) \<ge> stability_rank STABILITY_CONDITIONAL
          then alloc_info\<lparr>stability := STABILITY_CONDITIONAL\<rparr>
        else alloc_info\<lparr>stability := STABILITY_UNSTABLE\<rparr>)
      in if stab_type l = TYPE_INT \<and> stab_type r = TYPE_INT then info\<lparr>stab_type := TYPE_INT\<rparr>
         else if (stab_type l = TYPE_DOUBLE \<or> stab_type l = TYPE_FLOAT) \<and>
             (stab_type r = TYPE_DOUBLE \<or> stab_type r = TYPE_FLOAT) then info\<lparr>stab_type := TYPE_DOUBLE\<rparr>
         else info)"

definition with_stability :: "ast_note \<Rightarrow> TypeStabilityInfo \<Rightarrow> ast_node \<Rightarrow> ASTExpr" where
  "with_stability nt info k = Expr (nt\<lparr>stability_info := Some info\<rparr>) k"

function (sequential) analyze_expr :: "ASTExpr \<Rightarrow> StabilityCtx \<Rightarrow> ASTExpr \<times> StabilityCtx" where
  "analyze_expr Null c = (Null, c)"
| "analyze_expr (Expr nt ENil) c = (with_stability nt (literal_info (tag nt)) ENil, c)"
| "analyze_expr (Expr nt (EBool b)) c = (with_stability nt (literal_info (tag nt)) (EBool b), c)"
| "analyze_expr (Expr nt (EInt i)) c = (with_stability nt (literal_info (tag nt)) (EInt i), c)"
| "analyze_expr (Expr nt (EDouble x)) c = (with_stability nt (literal_info (tag nt)) (EDouble x), c)"
| "analyze_expr (Expr nt (EString s)) c = (with_stability nt (literal_info (tag nt)) (EString s), c)"
| "analyze_expr (Expr nt (EStringLiteral s)) c = (with_stability nt (literal_info (tag nt)) (EStringLiteral s), c)"
| "analyze_expr (Expr nt (EVar x)) c =
     (let c1 = mark_usage x c in (with_stability nt (var_info c1 x (tag nt)) (EVar x), c1))"
| "analyze_expr (Expr nt (EUnary op e)) c =
     (let (e1, c1) = analyze_expr e c
      in (with_stability nt (case get_expr_stability_info e1 of Some info \<Rightarrow> info | None \<Rightarrow> alloc_info) (EUnary op e1), c1))"
| "analyze_expr (Expr nt (EBinary op l r)) c =
     (let (l1, c1) = analyze_expr l c; (r1, c2) = analyze_expr r c1
      in (with_stability nt (case (get_expr_stability_info l1, get_expr_stability_info r1) of
            (Some li, Some ri) \<Rightarrow> binary_stability li ri | _ \<Rightarrow> alloc_info) (EBinary op l1 r1), c2))"
| "analyze_expr (Expr nt k) c = (with_stability nt opaque_info k, c)"
  by pat_completeness auto
termination
  by (relation "measure (size \<circ> fst)") auto

section \<open>Statements\<close>

function (sequential)
  analyze_stmt :: "ASTStmt \<Rightarrow> StabilityCtx \<Rightarrow> ASTStmt \<times> StabilityCtx" and
  analyze_stmts :: "ASTStmt list \<Rightarrow> StabilityCtx \<Rightarrow> ASTStmt list \<times> StabilityCtx"
where
  "analyze_stmt (Stmt h k) c = (case k of
       SVarDecl x t td e const \<Rightarrow>
         (let (e1, c1) = analyze_expr e c
          in (Stmt h (SVarDecl x t td e1 const), declare_var x const (current_function_depth c1 > 0) c1))
     | SVarAssign x e op \<Rightarrow>
         (let (e1, c1) = analyze_expr e c in (Stmt h (SVarAssign x e1 op), mark_mutation x c1))
     | SExpr e \<Rightarrow> (let (e1, c1) = analyze_expr e c in (Stmt h (SExpr e1), c1))
     | SReturn e \<Rightarrow> (let (e1, c1) = analyze_expr e c in (Stmt h (SReturn e1), c1))
     | SIf e t f \<Rightarrow>
         (let (e1, c1) = analyze_expr e c; (t1, c2) = analyze_stmts (stmts_of t) (enter_scope c1)
          in (Stmt h (SIf e1 (branch t t1) f), leave_scope c2))
     | SWhile e b \<Rightarrow>
         (let (e1, c1) = analyze_expr e (c\<lparr>in_loop := in_loop c + 1\<rparr>);
              (b1, c2) = analyze_stmts (stmts_of b) (enter_scope c1);
              c3 = leave_scope c2
          in (Stmt h (SWhile e1 (branch b b1)), c3\<lparr>in_loop := in_loop c3 - 1\<rparr>))
     | SFuncDecl f \<Rightarrow>
         (let c1 = enter_scope (c\<lparr>current_function_depth := current_function_depth c + 1\<rparr>);
              c2 = fold (\<lambda>(p, _). declare_var p True True) (func_params (func_sig f)) c1;
              (b1, c3) = analyze_stmts (func_stmts f) c2;
              c4 = leave_scope c3
          in (Stmt h (SFuncDecl (FuncDecl (func_sig f) (branch (func_body f) b1) (opt_info f))),
              c4\<lparr>current_function_depth := current_function_depth c4 - 1\<rparr>))
     | other \<Rightarrow> (Stmt h other, c))"
| "analyze_stmts [] c = ([], c)"
| "analyze_stmts (s # ss) c =
     (let (s1, c1) = analyze_stmt s c; (ss1, c2) = analyze_stmts ss c1 in (s1 # ss1, c2))"
  by pat_completeness auto
termination
  by (relation "measure (\<lambda>x. case x of Inl (s, c) \<Rightarrow> size s | Inr (ss, c) \<Rightarrow> size_list size ss)")
    (auto intro!: stmts_of_bound func_stmts_bound)

definition ctx0 :: StabilityCtx where
  "ctx0 = \<lparr>vars = [], scope_depth = 0, in_loop = 0, current_function_depth = 0\<rparr>"

definition type_stability_analyze :: "ASTStmt list \<Rightarrow> ASTStmt list" where
  "type_stability_analyze program = fst (analyze_stmts program ctx0)"

section \<open>Scopes\<close>

definition outline :: "TrackedVar \<Rightarrow> cstring \<times> nat \<times> bool \<times> bool \<times> bool" where
  \<comment> \<open>what a declaration fixes of a variable\<close>
  "outline v = (tv_name v, tv_depth v, tv_const v, tv_local v, declared_in_loop v)"

definition well_scoped :: "StabilityCtx \<Rightarrow> bool" where
  "well_scoped c = (length (vars c) \<le> MAX_TRACKED_VARS \<and> list_all (\<lambda>v. tv_depth v \<le> scope_depth c) (vars c))"

definition outlines :: "StabilityCtx \<Rightarrow> (cstring \<times> nat \<times> bool \<times> bool \<times> bool) list" where
  "outlines c = map outline (vars c)"

definition extends :: "StabilityCtx \<Rightarrow> StabilityCtx \<Rightarrow> bool" where
  \<comment> \<open>the same place in the program, the same outer variables, and new ones of the current scope in front of them\<close>
  "extends c c' = (scope_depth c' = scope_depth c \<and> in_loop c' = in_loop c \<and>
     current_function_depth c' = current_function_depth c \<and> length (vars c') \<le> MAX_TRACKED_VARS \<and>
     (\<exists>new. outlines c' = new @ outlines c \<and> (\<forall>o1 \<in> set new. fst (snd o1) = scope_depth c)))"

lemma well_scoped_alt:
  "well_scoped c = (length (vars c) \<le> MAX_TRACKED_VARS \<and> (\<forall>o1 \<in> set (outlines c). fst (snd o1) \<le> scope_depth c))"
  by (auto simp: well_scoped_def list_all_iff outlines_def outline_def)

lemma extends_well_scoped: "extends c c' \<Longrightarrow> well_scoped c \<Longrightarrow> well_scoped c'"
  unfolding extends_def well_scoped_alt by fastforce

lemma extends_refl: "well_scoped c \<Longrightarrow> extends c c"
  by (simp add: extends_def well_scoped_def)

lemma extends_trans: "extends c c1 \<Longrightarrow> extends c1 c2 \<Longrightarrow> extends c c2"
  by (force simp: extends_def)

lemma update_var_outline:
  "(\<And>v. outline (f v) = outline v) \<Longrightarrow> map outline (update_var f vs x) = map outline vs"
  by (induction vs) auto

lemma marks_outlines [simp]:
  "outlines (mark_usage x c) = outlines c" "outlines (mark_mutation x c) = outlines c"
  unfolding outlines_def mark_usage_def mark_mutation_def by (simp_all add: update_var_outline outline_def)

lemma marks_same [simp]:
  "scope_depth (mark_usage x c) = scope_depth c" "in_loop (mark_usage x c) = in_loop c"
  "current_function_depth (mark_usage x c) = current_function_depth c"
  "scope_depth (mark_mutation x c) = scope_depth c" "in_loop (mark_mutation x c) = in_loop c"
  "current_function_depth (mark_mutation x c) = current_function_depth c"
  by (simp_all add: mark_usage_def mark_mutation_def)

lemma outlines_length: "outlines c' = outlines c \<Longrightarrow> length (vars c') = length (vars c)"
  unfolding outlines_def by (metis length_map)

definition same_scope :: "StabilityCtx \<Rightarrow> StabilityCtx \<Rightarrow> bool" where
  "same_scope c c' = (outlines c' = outlines c \<and> scope_depth c' = scope_depth c \<and> in_loop c' = in_loop c \<and>
     current_function_depth c' = current_function_depth c)"

lemma same_scope_extends: "same_scope c c' \<Longrightarrow> well_scoped c \<Longrightarrow> extends c c'"
  unfolding same_scope_def extends_def well_scoped_def by (auto dest: outlines_length)

lemma same_scope_trans: "same_scope c c1 \<Longrightarrow> same_scope c1 c2 \<Longrightarrow> same_scope c c2"
  by (simp add: same_scope_def)

lemma same_scope_simps [simp]: "same_scope c c" "same_scope c (mark_usage x c)" "same_scope c (mark_mutation x c)"
  by (simp_all add: same_scope_def)

lemma analyze_expr_scope: "same_scope c (snd (analyze_expr e c))"
proof (induction e c rule: analyze_expr.induct)
  case (10 nt op l r c)
  then have "same_scope (snd (analyze_expr l c)) (snd (analyze_expr r (snd (analyze_expr l c))))"
    by (metis prod.collapse)
  with 10 show ?case by (auto simp: split_def Let_def intro: same_scope_trans)
qed (simp_all add: split_def Let_def)

lemma declare_extends: "well_scoped c \<Longrightarrow> extends c (declare_var x const loc c)"
  by (auto simp: declare_var_def extends_def well_scoped_def outlines_def outline_def)

lemma leave_outlines:
  assumes "extends (enter_scope c) c'" and "well_scoped c"
  shows "outlines (leave_scope c') = outlines c"
proof -
  obtain new where new: "outlines c' = new @ outlines c" "\<forall>o1 \<in> set new. fst (snd o1) = Suc (scope_depth c)"
    using assms(1) by (auto simp: extends_def enter_scope_def outlines_def)
  have "outlines (leave_scope c') = dropWhile (\<lambda>o1. fst (snd o1) \<ge> scope_depth c') (outlines c')"
    by (simp add: leave_scope_def outlines_def dropWhile_map comp_def outline_def)
  also have "\<dots> = dropWhile (\<lambda>o1. fst (snd o1) \<ge> Suc (scope_depth c)) (outlines c)"
    using new assms(1) by (simp add: extends_def enter_scope_def dropWhile_append2)
  also have "\<dots> = outlines c"
    using assms(2) unfolding well_scoped_alt by (cases "outlines c") auto
  finally show ?thesis .
qed

lemma leave_same_scope:
  assumes "extends (enter_scope c) c'" and "well_scoped c"
  shows "same_scope c (leave_scope c')"
proof -
  have "scope_depth (leave_scope c') = scope_depth c" "in_loop (leave_scope c') = in_loop c"
    "current_function_depth (leave_scope c') = current_function_depth c"
    using assms(1) by (simp_all add: extends_def leave_scope_def enter_scope_def)
  then show ?thesis using leave_outlines [OF assms] by (simp add: same_scope_def)
qed

lemma same_scope_well_scoped: "same_scope c c' \<Longrightarrow> well_scoped c \<Longrightarrow> well_scoped c'"
  using extends_well_scoped same_scope_extends by blast

lemma enter_well_scoped: "well_scoped c \<Longrightarrow> well_scoped (enter_scope c)"
  by (auto simp: well_scoped_alt enter_scope_def outlines_def)

lemma params_extend: "well_scoped c \<Longrightarrow> extends c (fold (\<lambda>(p, _). declare_var p True True) ps c)"
proof (induction ps arbitrary: c)
  case (Cons p ps)
  then show ?case
    using declare_extends [of c "fst p" True True] by (simp add: split_def) (meson extends_trans extends_well_scoped)
qed (simp add: extends_refl)

fun opens_block :: "ASTStmt \<Rightarrow> bool" where
  \<comment> \<open>the statements whose inner statements are analysed in a scope of their own\<close>
  "opens_block (Stmt h (SIf e t f)) = True"
| "opens_block (Stmt h (SWhile e b)) = True"
| "opens_block (Stmt h (SFuncDecl f)) = True"
| "opens_block (Stmt h _) = False"

lemma expr_block_same_scope:
  assumes ws: "well_scoped c" and ext: "\<And>c. well_scoped c \<Longrightarrow> extends c (f c)"
  shows "same_scope c (leave_scope (f (enter_scope (snd (analyze_expr e c)))))"
proof -
  have 1: "same_scope c (snd (analyze_expr e c))" by (rule analyze_expr_scope)
  then have "well_scoped (snd (analyze_expr e c))" using ws by (rule same_scope_well_scoped)
  then show ?thesis using leave_same_scope [OF ext [OF enter_well_scoped]] same_scope_trans [OF 1] by blast
qed

lemma decl_extends:
  assumes "well_scoped c"
  shows "extends c (declare_var x b l (snd (analyze_expr e c)))"
proof -
  have "extends c (snd (analyze_expr e c))" by (rule same_scope_extends [OF analyze_expr_scope assms])
  then show ?thesis using declare_extends extends_well_scoped extends_trans assms by blast
qed

lemma assign_same_scope: "same_scope c (mark_mutation x (snd (analyze_expr e c)))"
  using analyze_expr_scope [of c e] by (simp add: same_scope_def)

lemma loop_same_scope:
  assumes "same_scope (c\<lparr>in_loop := in_loop c + 1\<rparr>) c'"
  shows "same_scope c (c'\<lparr>in_loop := in_loop c' - 1\<rparr>)"
  using assms by (simp add: same_scope_def outlines_def)

lemma function_same_scope:
  assumes "same_scope (c\<lparr>current_function_depth := current_function_depth c + 1\<rparr>) c'"
  shows "same_scope c (c'\<lparr>current_function_depth := current_function_depth c' - 1\<rparr>)"
  using assms by (simp add: same_scope_def outlines_def)

lemma well_scoped_update [simp]:
  "well_scoped (c\<lparr>in_loop := n\<rparr>) = well_scoped c" "well_scoped (c\<lparr>current_function_depth := n\<rparr>) = well_scoped c"
  by (simp_all add: well_scoped_def)

lemma branch_block:
  assumes "well_scoped c" and "\<And>c. well_scoped c \<Longrightarrow> extends c (snd (analyze_stmts ss c))"
  shows "same_scope c (leave_scope (snd (analyze_stmts ss (enter_scope (snd (analyze_expr e c))))))"
  by (rule expr_block_same_scope [OF assms])

lemma function_block:
  assumes ws: "well_scoped c" and ext: "\<And>c. well_scoped c \<Longrightarrow> extends c (snd (analyze_stmts ss c))"
  shows "same_scope c (leave_scope (snd (analyze_stmts ss (fold (\<lambda>(p, _). declare_var p True True) ps (enter_scope c)))))"
proof (rule leave_same_scope)
  show "extends (enter_scope c) (snd (analyze_stmts ss (fold (\<lambda>(p, _). declare_var p True True) ps (enter_scope c))))"
    using params_extend [OF enter_well_scoped [OF ws], of ps] ext extends_trans extends_well_scoped enter_well_scoped ws
    by blast
qed (rule ws)

lemma analyze_stmt_scopes:
  assumes ws: "well_scoped c"
    and ext: "\<And>ss c. ss \<in> set (branches s) \<Longrightarrow> well_scoped c \<Longrightarrow> extends c (snd (analyze_stmts ss c))"
  shows "extends c (snd (analyze_stmt s c)) \<and> (opens_block s \<longrightarrow> same_scope c (snd (analyze_stmt s c)))"
proof -
  obtain h k where s: "s = Stmt h k" by (cases s)
  have *: ?thesis if "same_scope c (snd (analyze_stmt s c))" using that same_scope_extends ws by blast
  show ?thesis
  proof (cases k)
    case (SIf e t f)
    show ?thesis using branch_block [OF ws ext, of "stmts_of t" e] by (intro *) (simp add: s SIf split_def Let_def)
  next
    case (SWhile e b)
    let ?c = "c\<lparr>in_loop := in_loop c + 1\<rparr>"
    have "same_scope ?c (leave_scope (snd (analyze_stmts (stmts_of b) (enter_scope (snd (analyze_expr e ?c))))))"
      using ext ws by (intro branch_block) (simp_all add: s SWhile)
    from loop_same_scope [OF this] show ?thesis by (intro *) (simp add: s SWhile split_def Let_def)
  next
    case (SFuncDecl f)
    let ?c = "c\<lparr>current_function_depth := current_function_depth c + 1\<rparr>"
    have "same_scope ?c (leave_scope (snd (analyze_stmts (func_stmts f)
        (fold (\<lambda>(p, _). declare_var p True True) (func_params (func_sig f)) (enter_scope ?c)))))"
      using ext ws by (intro function_block) (simp_all add: s SFuncDecl)
    from function_same_scope [OF this] show ?thesis by (intro *) (simp add: s SFuncDecl split_def Let_def)
  qed (use decl_extends [OF ws] in \<open>simp_all add: s split_def Let_def extends_refl [OF ws] same_scope_extends [OF _ ws]
      analyze_expr_scope assign_same_scope\<close>)
qed

lemma analyze_scopes:
  "well_scoped c \<Longrightarrow> extends c (snd (analyze_stmt s c)) \<and> (opens_block s \<longrightarrow> same_scope c (snd (analyze_stmt s c)))"
  "well_scoped c \<Longrightarrow> extends c (snd (analyze_stmts ss c))"
proof (induction s and ss arbitrary: c and c rule: stmt_induct)
  case (1 s)
  then show ?case by (intro analyze_stmt_scopes)
next
  case (3 s ss)
  have 1: "extends c (snd (analyze_stmt s c))" using 3 by blast
  have "extends (snd (analyze_stmt s c)) (snd (analyze_stmts ss (snd (analyze_stmt s c))))"
    using 3(2) [OF extends_well_scoped [OF 1 3(3)]] .
  with extends_trans [OF 1] show ?case by (simp add: split_def Let_def)
qed (simp add: extends_refl)


lemma analysis_erases:
  "map_notes (\<lambda>nt. nt\<lparr>stability_info := None\<rparr>) (fst (analyze_expr e c)) = map_notes (\<lambda>nt. nt\<lparr>stability_info := None\<rparr>) e"
proof (induction e c rule: analyze_expr.induct)
  case (10 nt op l r c)
  then show ?case by (simp add: split_def Let_def with_stability_def) (metis prod.collapse)
qed (auto simp: split_def Let_def with_stability_def)

text \<open>
  The scopes of the stability analysis are balanced: analysing any statement leaves the depth, the loop
  and function counters and the outer variables as they were, the variables it declares being of the
  current scope; after a condition, a while loop or a function exactly the variables of before are
  left. The tracker never holds more than 256 variables.
\<close>
theorem stability_scopes_balanced:
  assumes "well_scoped c"
  shows "extends c (snd (analyze_stmt s c)) \<and> (opens_block s \<longrightarrow> same_scope c (snd (analyze_stmt s c)))"
  by (rule analyze_scopes(1) [OF assms])

theorem stability_scopes_balanced_witness:
  "well_scoped ctx0 \<and>
   same_scope ctx0 (snd (analyze_stmt (ast_stmt_new (SWhile (ast_expr_new (EVar ''x''))
     (Some [ast_stmt_new (SVarDecl ''y'' TYPE_INT None (ast_expr_new (EInt 1)) False)]))) ctx0))"
proof -
  have ws: "well_scoped ctx0" by (simp add: well_scoped_def ctx0_def)
  from stability_scopes_balanced [OF ws, of "ast_stmt_new (SWhile (ast_expr_new (EVar ''x''))
     (Some [ast_stmt_new (SVarDecl ''y'' TYPE_INT None (ast_expr_new (EInt 1)) False)]))"] ws
  show ?thesis by (simp add: ast_stmt_new_def)
qed

section \<open>What is stable\<close>

function (sequential) operands :: "ASTExpr \<Rightarrow> ASTExpr list" where
  \<comment> \<open>what is left of an expression when its operators are taken off\<close>
  "operands (Expr nt (EUnary op e)) = operands e"
| "operands (Expr nt (EBinary op l r)) = operands l @ operands r"
| "operands e = [e]"
  by pat_completeness auto
termination
  by (relation "measure size") auto

lemma rank_conditional: "stability_rank s \<ge> 3 \<longleftrightarrow> s = STABILITY_CONDITIONAL"
  by (cases s) auto

lemma is_type_stable_iff:
  "is_type_stable e = (\<exists>info. get_expr_stability_info e = Some info \<and> stability info = STABILITY_CONDITIONAL)"
  by (auto simp: is_type_stable_def rank_conditional split: option.splits)

lemma info_with_stability [simp]: "get_expr_stability_info (with_stability nt info k) = Some info"
  by (simp add: with_stability_def)

lemma binary_conditional:
  "stability (binary_stability l r) = STABILITY_CONDITIONAL \<longleftrightarrow>
   stability l = STABILITY_CONDITIONAL \<and> stability r = STABILITY_CONDITIONAL"
  by (auto simp: binary_stability_def rank_conditional Let_def)

lemma analyzed_Null [simp]: "fst (analyze_expr e c) = Null \<longleftrightarrow> e = Null"
  by (induction e c rule: analyze_expr.induct) (auto simp: split_def Let_def with_stability_def)

lemma stable_operands: "is_type_stable (fst (analyze_expr e c)) = list_all is_type_stable (operands (fst (analyze_expr e c)))"
proof (induction e c rule: analyze_expr.induct)
  case (9 nt op e c)
  then show ?case
    by (simp add: split_def Let_def with_stability_def is_type_stable_iff [of "Expr _ _"])
      (auto simp: is_type_stable_iff alloc_info_def split: option.splits)
next
  case (10 nt op l r c)
  have "is_type_stable (fst (analyze_expr r (snd (analyze_expr l c)))) =
      list_all is_type_stable (operands (fst (analyze_expr r (snd (analyze_expr l c)))))"
    using 10(2) by (metis prod.collapse)
  moreover have "is_type_stable (fst (analyze_expr (Expr nt (EBinary op l r)) c)) =
      (is_type_stable (fst (analyze_expr l c)) \<and> is_type_stable (fst (analyze_expr r (snd (analyze_expr l c)))))"
    by (auto simp: is_type_stable_iff split_def Let_def alloc_info_def binary_conditional split: option.splits)
  ultimately show ?case using 10(1) by (simp add: split_def Let_def with_stability_def)
qed (simp_all add: with_stability_def Let_def)

fun is_variable :: "ASTExpr \<Rightarrow> bool" where
  "is_variable (Expr nt (EVar x)) = True"
| "is_variable e = False"

lemma stable_variables: "list_all (\<lambda>x. is_type_stable x \<longrightarrow> is_variable x) (operands (fst (analyze_expr e c)))"
proof (induction e c rule: analyze_expr.induct)
  case (10 nt op l r c)
  have "list_all (\<lambda>x. is_type_stable x \<longrightarrow> is_variable x) (operands (fst (analyze_expr r (snd (analyze_expr l c)))))"
    using 10(2) by (metis prod.collapse)
  with 10(1) show ?case by (simp add: split_def Let_def with_stability_def)
qed (auto simp: with_stability_def split_def Let_def is_type_stable_iff literal_info_def known_type_def opaque_info_def
    alloc_info_def split: if_splits)

text \<open>
  An expression counts as type stable exactly when each of its operands (behind the unary and
  binary operators) is a variable that does, at any nesting depth. In particular no literal does: literals
  are marked stable, and the test \<^verbatim>\<open>>= STABILITY_CONDITIONAL\<close> excludes that value; so an
  expression with a literal operand is never unboxed.
\<close>
theorem type_stable_operands:
  "is_type_stable (fst (analyze_expr e c)) =
     list_all (\<lambda>x. is_variable x \<and> is_type_stable x) (operands (fst (analyze_expr e c)))"
  using stable_operands [of e c] stable_variables [of e c] by (auto simp: list_all_iff)

text \<open>
  An integer variable is unboxed exactly when its type is known and it is not one of the variables
  known to keep their value (constants, and locals that nothing has assigned so far).
\<close>
theorem unboxed_variables:
  "can_unbox_integer (fst (analyze_expr (Expr nt (EVar x)) c)) \<longleftrightarrow>
     is_known (tag nt) \<and> tag_type (tag nt) = TYPE_INT \<and>
     \<not> (case find_var (vars c) x of None \<Rightarrow> False | Some v \<Rightarrow> tv_const v \<or> mutations v = 0 \<and> tv_local v)"
proof -
  have f': "find_var (update_var (\<lambda>v. v\<lparr>usages := usages v + 1\<rparr>) vs x) x =
      map_option (\<lambda>v. v\<lparr>usages := usages v + 1\<rparr>) (find_var vs x)" for vs
    by (induction vs) auto
  have f: "find_var (vars (mark_usage x c)) x = map_option (\<lambda>v. v\<lparr>usages := usages v + 1\<rparr>) (find_var (vars c) x)"
    using f' [of "vars c"] by (simp add: mark_usage_def)
  show ?thesis
    by (auto simp: can_unbox_integer_def var_info_def f rank_conditional opaque_info_def alloc_info_def
        tracked_stability_def Let_def split: option.splits if_splits)
qed

section \<open>Conditions are analysed before the bodies that change them\<close>

text \<open>
  In a function whose body is \<^verbatim>\<open>let x: Int = 0\<close>, \<^verbatim>\<open>while x { x = 1 }\<close> the condition
  is analysed before the assignment is seen: its variable is marked stable although the loop changes it.
\<close>

definition stale_loop :: "ASTStmt list" where
  "stale_loop = [ast_stmt_new (SVarDecl ''x'' TYPE_INT None (ast_expr_new (EInt 0)) False),
     ast_stmt_new (SWhile (ast_expr_new (EVar ''x'')) (Some [ast_stmt_new (SVarAssign ''x'' (ast_expr_new (EInt 1)) CHR ''='')]))]"

lemma loop_condition_stale:
  "(case fst (analyze_stmts stale_loop (ctx0\<lparr>current_function_depth := 1\<rparr>)) of
      [d, Stmt h (SWhile e b)] \<Rightarrow> map_option stability (get_expr_stability_info e) | _ \<Rightarrow> None) = Some STABILITY_STABLE"
  by code_simp

end
