(* ===== verification/BreadInline.thy ===== *)
theory BreadInline
  imports BreadAST
begin

text \<open>
  The optimisation analysis of \<^verbatim>\<open>src/src/compiler/optimization/optimization.c\<close>: size and call
  estimates, the search for recursive calls, the inlining hint of a function and the hints of statements.
  The pass returns the tree with the hints in it; its tables of 64 functions and 1024 statements are
  counted in the state. The estimates are unbounded here, an \<^verbatim>\<open>int\<close> in the code: doubling for
  each enclosing loop, they leave it only with about thirty nested loops. The functions that attach
  metadata to LLVM values are not modelled.
\<close>

section \<open>Size of a statement\<close>

function estimate_instruction_count :: "ASTStmt \<Rightarrow> nat" where
  "estimate_instruction_count (Stmt h k) = 1 + (case k of
       SVarDecl x t td e c \<Rightarrow> 2 + (if e \<noteq> Null then 3 else 0)
     | SVarAssign x e op \<Rightarrow> 2
     | SPrint e \<Rightarrow> 5
     | SIf e t f \<Rightarrow> 2 + sum_list (map estimate_instruction_count (stmts_of t)) +
         sum_list (map estimate_instruction_count (stmts_of f))
     | SWhile e b \<Rightarrow> 3 + sum_list (map (\<lambda>s. estimate_instruction_count s * 2) (stmts_of b))
     | SFor x e b \<Rightarrow> 4 + sum_list (map (\<lambda>s. estimate_instruction_count s * 2) (stmts_of b))
     | SReturn e \<Rightarrow> 1
     | SExpr e \<Rightarrow> 2
     | other \<Rightarrow> 1)"
  by pat_completeness auto
termination
  by (relation "measure size") (auto dest!: stmt_in_size)

section \<open>Calls\<close>

function (sequential) count_expr_function_calls :: "ASTExpr \<Rightarrow> nat" where
  "count_expr_function_calls (Expr nt (ECall f args)) = 1 + sum_list (map count_expr_function_calls args)"
| "count_expr_function_calls (Expr nt (EMethodCall t m args c)) =
     1 + count_expr_function_calls t + sum_list (map count_expr_function_calls args)"
| "count_expr_function_calls (Expr nt (EBinary op l r)) = count_expr_function_calls l + count_expr_function_calls r"
| "count_expr_function_calls (Expr nt (EUnary op e)) = count_expr_function_calls e"
| "count_expr_function_calls (Expr nt (EIndex t i)) = count_expr_function_calls t + count_expr_function_calls i"
| "count_expr_function_calls (Expr nt (EMember t m c)) = count_expr_function_calls t"
| "count_expr_function_calls (Expr nt (EArray es)) = sum_list (map count_expr_function_calls es)"
| "count_expr_function_calls (Expr nt (EDict kvs)) =
     sum_list (map (\<lambda>(k, v). count_expr_function_calls k + count_expr_function_calls v) kvs)"
| "count_expr_function_calls e = 0"
  by pat_completeness auto
termination
  by (relation "measure size") (auto dest: tree_sizes)

function count_function_calls :: "ASTStmt \<Rightarrow> nat" where
  "count_function_calls (Stmt h k) = (case k of
       SPrint e \<Rightarrow> 1
     | SIf e t f \<Rightarrow> sum_list (map count_function_calls (stmts_of t)) + sum_list (map count_function_calls (stmts_of f))
     | SWhile e b \<Rightarrow> sum_list (map count_function_calls (stmts_of b))
     | SFor x e b \<Rightarrow> sum_list (map count_function_calls (stmts_of b))
     | SExpr e \<Rightarrow> count_expr_function_calls e
     | other \<Rightarrow> 0)"
  by pat_completeness auto
termination
  by (relation "measure size") (auto dest!: stmt_in_size)

function (sequential) check_expr_for_recursive_call :: "cstring \<Rightarrow> ASTExpr \<Rightarrow> bool" where
  "check_expr_for_recursive_call g (Expr nt (ECall f args)) = (f = g \<or> list_ex (check_expr_for_recursive_call g) args)"
| "check_expr_for_recursive_call g (Expr nt (EBinary op l r)) =
     (check_expr_for_recursive_call g l \<or> check_expr_for_recursive_call g r)"
| "check_expr_for_recursive_call g (Expr nt (EUnary op e)) = check_expr_for_recursive_call g e"
| "check_expr_for_recursive_call g (Expr nt (EIndex t i)) =
     (check_expr_for_recursive_call g t \<or> check_expr_for_recursive_call g i)"
| "check_expr_for_recursive_call g (Expr nt (EMember t m c)) = check_expr_for_recursive_call g t"
| "check_expr_for_recursive_call g (Expr nt (EMethodCall t m args c)) =
     (check_expr_for_recursive_call g t \<or> list_ex (check_expr_for_recursive_call g) args)"
| "check_expr_for_recursive_call g (Expr nt (EArray es)) = list_ex (check_expr_for_recursive_call g) es"
| "check_expr_for_recursive_call g (Expr nt (EDict kvs)) =
     list_ex (\<lambda>(k, v). check_expr_for_recursive_call g k \<or> check_expr_for_recursive_call g v) kvs"
| "check_expr_for_recursive_call g e = False"
  by pat_completeness auto
termination
  by (relation "measure (size \<circ> snd)") (auto dest: tree_sizes)

function check_stmt_for_recursive_call :: "cstring \<Rightarrow> ASTStmt \<Rightarrow> bool" where
  "check_stmt_for_recursive_call g (Stmt h k) = (case k of
       SVarDecl x t td e c \<Rightarrow> check_expr_for_recursive_call g e
     | SVarAssign x e op \<Rightarrow> check_expr_for_recursive_call g e
     | SPrint e \<Rightarrow> check_expr_for_recursive_call g e
     | SExpr e \<Rightarrow> check_expr_for_recursive_call g e
     | SIf e t f \<Rightarrow> check_expr_for_recursive_call g e \<or> list_ex (check_stmt_for_recursive_call g) (stmts_of t) \<or>
         list_ex (check_stmt_for_recursive_call g) (stmts_of f)
     | SWhile e b \<Rightarrow> check_expr_for_recursive_call g e \<or> list_ex (check_stmt_for_recursive_call g) (stmts_of b)
     | SFor x e b \<Rightarrow> check_expr_for_recursive_call g e \<or> list_ex (check_stmt_for_recursive_call g) (stmts_of b)
     | SReturn e \<Rightarrow> check_expr_for_recursive_call g e
     | other \<Rightarrow> False)"
  by pat_completeness auto
termination
  by (relation "measure (size \<circ> snd)") (auto dest!: stmt_in_size)

definition is_recursive_function :: "func_decl \<Rightarrow> bool" where
  "is_recursive_function f = list_ex (check_stmt_for_recursive_call (func_name (func_sig f))) (func_stmts f)"

section \<open>Functions\<close>

fun inline_rank :: "InlineHeuristic \<Rightarrow> nat" where
  \<comment> \<open>the value of the C enumeration\<close>
  "inline_rank INLINE_NEVER = 0"
| "inline_rank INLINE_COLD = 1"
| "inline_rank INLINE_NORMAL = 2"
| "inline_rank INLINE_HOT = 3"
| "inline_rank INLINE_ALWAYS = 4"

fun one_lower :: "InlineHeuristic \<Rightarrow> InlineHeuristic" where
  \<comment> \<open>\<^verbatim>\<open>inline_hint--\<close>, which the code does to values above cold\<close>
  "one_lower INLINE_ALWAYS = INLINE_HOT"
| "one_lower INLINE_HOT = INLINE_NORMAL"
| "one_lower INLINE_NORMAL = INLINE_COLD"
| "one_lower h = INLINE_NEVER"

definition choose_hint :: "nat \<Rightarrow> bool \<Rightarrow> bool \<Rightarrow> nat \<Rightarrow> InlineHeuristic" where
  "choose_hint instructions recursive leaf params =
     (let hint = (if recursive then INLINE_NEVER
        else if instructions \<le> 3 \<and> leaf then INLINE_ALWAYS
        else if instructions \<le> 10 \<and> leaf then INLINE_HOT
        else if instructions \<le> 25 then INLINE_NORMAL
        else if instructions \<le> 50 then INLINE_COLD
        else INLINE_NEVER)
      in if params > 4 \<and> inline_rank hint > inline_rank INLINE_COLD then one_lower hint else hint)"

record OptimizationCtx =
  function_count :: nat
  stmt_count :: nat

definition function_info :: "func_decl \<Rightarrow> FunctionOptInfo" where
  "function_info f =
     (let instructions = sum_list (map estimate_instruction_count (func_stmts f));
          calls = sum_list (map count_function_calls (func_stmts f));
          recursive = is_recursive_function f;
          params = length (func_params (func_sig f))
      in \<lparr>inline_hint = choose_hint instructions recursive (calls = 0) params, instruction_count = instructions,
          call_count = calls, is_recursive = recursive, is_leaf = (calls = 0), parameter_count = params\<rparr>)"

definition analyze_function_optimization :: "func_decl \<Rightarrow> OptimizationCtx \<Rightarrow> func_decl \<times> OptimizationCtx" where
  "analyze_function_optimization f c =
     (if function_count c \<ge> 64 then (f, c)
      else (FuncDecl (func_sig f) (func_body f) (Some (function_info f)), c\<lparr>function_count := function_count c + 1\<rparr>))"

section \<open>Statements\<close>

definition no_hints :: OptimizationHints where
  "no_hints = \<lparr>is_hot_path = False, is_cold_path = False, branch_probability = 0, can_speculate = False, is_pure = False\<rparr>"

function (sequential)
  analyze_stmt_optimization :: "ASTStmt \<Rightarrow> OptimizationCtx \<Rightarrow> ASTStmt \<times> OptimizationCtx" and
  analyze_stmts_optimization :: "ASTStmt list \<Rightarrow> OptimizationCtx \<Rightarrow> ASTStmt list \<times> OptimizationCtx"
where
  "analyze_stmt_optimization (Stmt h k) c0 =
     (if stmt_count c0 \<ge> 1024 then (Stmt h k, c0)
      else let c = c0\<lparr>stmt_count := stmt_count c0 + 1\<rparr> in case k of
        SIf e t f \<Rightarrow>
          (let (t1, c1) = analyze_stmts_optimization (stmts_of t) c; (f1, c2) = analyze_stmts_optimization (stmts_of f) c1
           in (Stmt (Some (no_hints\<lparr>branch_probability := 70, can_speculate := True\<rparr>)) (SIf e (branch t t1) (branch f f1)), c2))
      | SWhile e b \<Rightarrow>
          (let (b1, c1) = analyze_stmts_optimization (stmts_of b) c
           in (Stmt (Some (no_hints\<lparr>is_hot_path := True\<rparr>)) (SWhile e (branch b b1)), c1))
      | SFor x e b \<Rightarrow>
          (let (b1, c1) = analyze_stmts_optimization (stmts_of b) c
           in (Stmt (Some (no_hints\<lparr>is_hot_path := True\<rparr>)) (SFor x e (branch b b1)), c1))
      | SFuncDecl f \<Rightarrow>
          (let (f1, c1) = analyze_function_optimization f c; (b1, c2) = analyze_stmts_optimization (func_stmts f) c1
           in (Stmt (Some no_hints) (SFuncDecl (FuncDecl (func_sig f) (branch (func_body f) b1) (opt_info f1))), c2))
      | SPrint e \<Rightarrow> (Stmt (Some no_hints) (SPrint e), c)
      | SVarDecl x t td e const \<Rightarrow>
          (Stmt (Some (no_hints\<lparr>is_pure := True, can_speculate := True\<rparr>)) (SVarDecl x t td e const), c)
      | SVarAssign x e op \<Rightarrow> (Stmt (Some (no_hints\<lparr>is_pure := True, can_speculate := True\<rparr>)) (SVarAssign x e op), c)
      | SReturn e \<Rightarrow> (Stmt (Some (no_hints\<lparr>is_cold_path := True\<rparr>)) (SReturn e), c)
      | SBreak \<Rightarrow> (Stmt (Some (no_hints\<lparr>is_cold_path := True\<rparr>)) SBreak, c)
      | SContinue \<Rightarrow> (Stmt (Some (no_hints\<lparr>is_cold_path := True\<rparr>)) SContinue, c)
      | other \<Rightarrow> (Stmt (Some (no_hints\<lparr>is_pure := True\<rparr>)) other, c))"
| "analyze_stmts_optimization [] c = ([], c)"
| "analyze_stmts_optimization (s # ss) c =
     (let (s1, c1) = analyze_stmt_optimization s c; (ss1, c2) = analyze_stmts_optimization ss c1 in (s1 # ss1, c2))"
  by pat_completeness auto
termination
  by (relation "measure (\<lambda>x. case x of Inl (s, c) \<Rightarrow> size s | Inr (ss, c) \<Rightarrow> size_list size ss)")
    (auto intro!: stmts_of_bound func_stmts_bound)

definition optimization_analyze :: "ASTStmt list \<Rightarrow> ASTStmt list" where
  "optimization_analyze program = fst (analyze_stmts_optimization program \<lparr>function_count = 0, stmt_count = 0\<rparr>)"

section \<open>Calls that are seen\<close>

fun searched_children :: "ast_node \<Rightarrow> ASTExpr list" where
  \<comment> \<open>the children that the searches for calls follow: not those of array, struct and class literals\<close>
  "searched_children (EArrayLiteral es t) = []"
| "searched_children (EStructLiteral s fs) = []"
| "searched_children (EClassLiteral s fs) = []"
| "searched_children k = children k"

function searched :: "ASTExpr \<Rightarrow> ASTExpr list" where
  "searched Null = []"
| "searched (Expr nt k) = Expr nt k # concat (map searched (searched_children k))"
  by pat_completeness auto

lemma searched_children_size: "x \<in> set (searched_children k) \<Longrightarrow> size x < size k"
proof -
  have "set (searched_children k) \<subseteq> set (children k)" by (cases k) auto
  then show "x \<in> set (searched_children k) \<Longrightarrow> size x < size k" using children_size by blast
qed

termination searched
  by (relation "measure size") (auto dest: searched_children_size)

fun makes_call :: "ASTExpr \<Rightarrow> bool" where
  "makes_call (Expr nt (ECall f args)) = True"
| "makes_call (Expr nt (EMethodCall t m args c)) = True"
| "makes_call e = False"

fun calls_function :: "cstring \<Rightarrow> ASTExpr \<Rightarrow> bool" where
  "calls_function g (Expr nt (ECall f args)) = (f = g)"
| "calls_function g e = False"

lemma pairs_count:
  assumes "\<And>k v. (k, v) \<in> set kvs \<Longrightarrow> f k = length (filter P (g k)) \<and> f v = length (filter P (g v))"
  shows "(\<Sum>(k, v)\<leftarrow>kvs. f k + f v) = length (filter P (concat (map g (concat (map (\<lambda>(k, v). [k, v]) kvs)))))"
  using assms
proof (induction kvs)
  case (Cons p kvs)
  obtain k v where p: "p = (k, v)" by (cases p)
  have "f k = length (filter P (g k))" "f v = length (filter P (g v))" using Cons.prems [of k v] p by auto
  moreover note Cons.IH [OF Cons.prems [OF list.set_intros(2)]]
  ultimately show ?case using p by simp
qed simp

lemma pairs_ex:
  assumes "\<And>k v. (k, v) \<in> set kvs \<Longrightarrow> f k = list_ex P (g k) \<and> f v = list_ex P (g v)"
  shows "list_ex (\<lambda>(k, v). f k \<or> f v) kvs = list_ex P (concat (map g (concat (map (\<lambda>(k, v). [k, v]) kvs))))"
  using assms
proof (induction kvs)
  case (Cons p kvs)
  obtain k v where p: "p = (k, v)" by (cases p)
  have "f k = list_ex P (g k)" "f v = list_ex P (g v)" using Cons.prems [of k v] p by auto
  moreover note Cons.IH [OF Cons.prems [OF list.set_intros(2)]]
  ultimately show ?case using p by simp
qed simp

lemma count_calls_searched: "count_expr_function_calls e = length (filter makes_call (searched e))"
proof (induction e rule: count_expr_function_calls.induct)
  case (8 nt kvs)
  then show ?case using pairs_count [of kvs count_expr_function_calls makes_call searched] by simp
qed (auto simp: filter_concat length_concat comp_def intro!: arg_cong [where f = sum_list] map_cong)

lemma check_call_searched: "check_expr_for_recursive_call g e = list_ex (calls_function g) (searched e)"
proof (induction g e rule: check_expr_for_recursive_call.induct)
  case (8 g nt kvs)
  then show ?case using pairs_ex [of kvs "check_expr_for_recursive_call g" "calls_function g" searched] by simp
qed (auto simp: list_ex_iff)


fun searched_bodies :: "ASTStmt \<Rightarrow> ASTStmt list" where
  \<comment> \<open>the inner statements that the search for recursion follows\<close>
  "searched_bodies (Stmt h (SIf e t f)) = stmts_of t @ stmts_of f"
| "searched_bodies (Stmt h (SWhile e b)) = stmts_of b"
| "searched_bodies (Stmt h (SFor x e b)) = stmts_of b"
| "searched_bodies (Stmt h _) = []"

fun searched_exprs :: "ASTStmt \<Rightarrow> ASTExpr list" where
  "searched_exprs (Stmt h (SIndexAssign t i e op)) = []"
| "searched_exprs (Stmt h (SMemberAssign t m e op)) = []"
| "searched_exprs (Stmt h (SForIn x e b)) = []"
| "searched_exprs s = concat (map searched (stmt_exprs s))"

lemma searched_bodies_size: "s \<in> set (searched_bodies t) \<Longrightarrow> size s < size t"
  by (cases t rule: searched_bodies.cases) (auto dest!: stmt_in_size)

function searched_stmts :: "ASTStmt \<Rightarrow> ASTStmt list" where
  "searched_stmts s = s # concat (map searched_stmts (searched_bodies s))"
  by pat_completeness auto
termination
  by (relation "measure size") (auto dest: searched_bodies_size)

declare searched_stmts.simps [simp del]

lemma check_stmt_searched:
  "check_stmt_for_recursive_call g s = list_ex (calls_function g) (concat (map searched_exprs (searched_stmts s)))"
proof (induction s rule: searched_stmts.induct)
  case (1 s)
  obtain h k where s: "s = Stmt h k" by (cases s)
  have "check_stmt_for_recursive_call g s =
      (list_ex (calls_function g) (searched_exprs s) \<or> list_ex (check_stmt_for_recursive_call g) (searched_bodies s))"
    unfolding s by (cases k) (auto simp: check_call_searched)
  then show ?case using 1 by (auto simp: searched_stmts.simps [of s] list_ex_iff)
qed

text \<open>
  Calls of itself, wherever they stand: in any expression of any statement of the body, at any depth.
\<close>

definition calls_itself :: "func_decl \<Rightarrow> bool" where
  "calls_itself f \<longleftrightarrow> (\<exists>s e x. s \<in> set (concat (map all_stmts (func_stmts f))) \<and> e \<in> set (stmt_exprs s) \<and>
     x \<in> set (subexprs e) \<and> calls_function (func_name (func_sig f)) x)"

fun skipped_node :: "ASTExpr \<Rightarrow> bool" where
  "skipped_node (Expr nt (EArrayLiteral es t)) = True"
| "skipped_node (Expr nt (EStructLiteral s fs)) = True"
| "skipped_node (Expr nt (EClassLiteral s fs)) = True"
| "skipped_node e = False"

fun skipped_stmt :: "ASTStmt \<Rightarrow> bool" where
  "skipped_stmt (Stmt h (SForIn x e b)) = True"
| "skipped_stmt (Stmt h (SIndexAssign t i e op)) = True"
| "skipped_stmt (Stmt h (SMemberAssign t m e op)) = True"
| "skipped_stmt (Stmt h (SFuncDecl f)) = True"
| "skipped_stmt s = False"

definition without_gaps :: "func_decl \<Rightarrow> bool" where
  \<comment> \<open>no for-in loop, no assignment to an element or member, no inner function, and no array, struct or class literal\<close>
  "without_gaps f \<longleftrightarrow> (\<forall>s \<in> set (concat (map all_stmts (func_stmts f))).
     \<not> skipped_stmt s \<and> (\<forall>e \<in> set (stmt_exprs s). \<forall>x \<in> set (subexprs e). \<not> skipped_node x))"

lemma searched_within: "set (searched e) \<subseteq> set (subexprs e)"
proof (induction e rule: searched.induct)
  case (2 nt k)
  have "set (searched_children k) \<subseteq> set (children k)" by (cases k) auto
  with 2 show ?case by auto
qed simp

lemma searched_everything: "\<forall>x \<in> set (subexprs e). \<not> skipped_node x \<Longrightarrow> set (subexprs e) \<subseteq> set (searched e)"
proof (induction e rule: searched.induct)
  case (2 nt k)
  have "\<not> skipped_node (Expr nt k)" using "2.prems" by simp
  then have "searched_children k = children k" by (cases k) auto
  with 2 show ?case by fastforce
qed simp

lemma searched_exprs_within: "x \<in> set (searched_exprs s) \<Longrightarrow> \<exists>e \<in> set (stmt_exprs s). x \<in> set (subexprs e)"
  using searched_within by (cases s rule: searched_exprs.cases) auto

lemma searched_exprs_everything:
  "\<not> skipped_stmt s \<Longrightarrow> e \<in> set (stmt_exprs s) \<Longrightarrow> \<forall>x \<in> set (subexprs e). \<not> skipped_node x \<Longrightarrow> x \<in> set (subexprs e) \<Longrightarrow>
   x \<in> set (searched_exprs s)"
  using searched_everything [of e] by (cases s rule: searched_exprs.cases) auto

lemma searched_stmts_within: "set (searched_stmts s) \<subseteq> set (all_stmts s)"
proof (induction s rule: searched_stmts.induct)
  case (1 s)
  have "set (searched_bodies s) \<subseteq> set (bodies s)" by (cases s rule: searched_bodies.cases) (auto simp: bodies_def)
  with 1 show ?case by (auto simp: searched_stmts.simps [of s] all_stmts.simps [of s])
qed

lemma searched_stmts_everything: "\<forall>t \<in> set (all_stmts s). \<not> skipped_stmt t \<Longrightarrow> set (all_stmts s) \<subseteq> set (searched_stmts s)"
proof (induction s rule: searched_stmts.induct)
  case (1 s)
  have "\<not> skipped_stmt s" using "1.prems" by (simp add: all_stmts.simps [of s])
  then have b: "bodies s = searched_bodies s" by (cases s rule: searched_bodies.cases) (auto simp: bodies_def)
  have "set (all_stmts t) \<subseteq> set (searched_stmts t)" if "t \<in> set (searched_bodies s)" for t
    using "1.IH" [OF that] "1.prems" that by (auto simp: all_stmts.simps [of s] b)
  then show ?case by (auto simp: searched_stmts.simps [of s] all_stmts.simps [of s] b)
qed

lemma recursion_searched:
  "is_recursive_function f =
     (\<exists>s x. s \<in> set (concat (map searched_stmts (func_stmts f))) \<and> x \<in> set (searched_exprs s) \<and>
        calls_function (func_name (func_sig f)) x)"
  by (auto simp: is_recursive_function_def check_stmt_searched list_ex_iff)

lemma recursive_calls_itself: "is_recursive_function f \<Longrightarrow> calls_itself f"
  unfolding recursion_searched calls_itself_def using searched_stmts_within searched_exprs_within by fastforce

lemma calls_itself_recursive:
  assumes "without_gaps f" "calls_itself f"
  shows "is_recursive_function f"
proof -
  obtain b s e x where x: "b \<in> set (func_stmts f)" "s \<in> set (all_stmts b)" "e \<in> set (stmt_exprs s)" "x \<in> set (subexprs e)"
      "calls_function (func_name (func_sig f)) x"
    using assms(2) by (auto simp: calls_itself_def)
  have plain: "\<not> skipped_stmt t \<and> (\<forall>e \<in> set (stmt_exprs t). \<forall>x \<in> set (subexprs e). \<not> skipped_node x)"
    if "t \<in> set (all_stmts b)" for t
    using assms(1) x(1) that by (auto simp: without_gaps_def)
  have "s \<in> set (searched_stmts b)" using searched_stmts_everything [of b] plain x(2) by blast
  moreover have "x \<in> set (searched_exprs s)" using searched_exprs_everything plain x(2-4) by blast
  ultimately show ?thesis unfolding recursion_searched using x(1,5) by auto
qed

text \<open>
  C37: recursion and inlining. A function that counts as recursive has a call of its own name somewhere in its
  body; and a function with such a call, at any depth of its statements and expressions, counts as recursive and
  is never inlined, when its body has no for-in loop, no assignment to an element or a member, no inner function
  and no array, struct or class literal (the search does not enter these, see \<open>recursion_missed\<close>).
\<close>
theorem recursion_found:
  "(is_recursive (function_info f) \<longrightarrow> calls_itself f) \<and>
   (without_gaps f \<and> calls_itself f \<longrightarrow>
      is_recursive (function_info f) \<and> inline_hint (function_info f) = INLINE_NEVER)"
  using recursive_calls_itself calls_itself_recursive
  by (auto simp: function_info_def choose_hint_def Let_def)

definition factorial :: func_decl where
  \<comment> \<open>\<^verbatim>\<open>def fac(n: Int) -> Int { if n > 0 { return n * fac(n - 1) }  return 1 }\<close>\<close>
  "factorial = FuncDecl \<lparr>func_name = ''fac'', func_params = [(''n'', Some (TPrim TYPE_INT), Null)], return_type = TYPE_INT,
       return_type_desc = Some (TPrim TYPE_INT)\<rparr>
     (Some [ast_stmt_new (SIf (ast_expr_new (EBinary CHR ''>'' (ast_expr_new (EVar ''n'')) (ast_expr_new (EInt 0))))
         (Some [ast_stmt_new (SReturn (ast_expr_new (EBinary CHR ''*'' (ast_expr_new (EVar ''n''))
            (ast_expr_new (ECall ''fac'' [ast_expr_new (EBinary CHR ''-'' (ast_expr_new (EVar ''n'')) (ast_expr_new (EInt 1)))])))))]) None),
       ast_stmt_new (SReturn (ast_expr_new (EInt 1)))]) None"

theorem recursion_found_witness:
  "calls_itself factorial \<and> is_recursive (function_info factorial) \<and> inline_hint (function_info factorial) = INLINE_NEVER"
proof -
  have "is_recursive (function_info factorial)" by code_simp
  then have calls: "calls_itself factorial" using recursion_found [of factorial] by blast
  have "without_gaps factorial"
    by (simp add: without_gaps_def factorial_def ast_stmt_new_def ast_expr_new_def all_stmts.simps bodies_def)
  with recursion_found [of factorial] calls show ?thesis by blast
qed

section \<open>The tables are long enough\<close>

fun hinted_bodies :: "ASTStmt \<Rightarrow> ASTStmt list" where
  \<comment> \<open>the inner statements that get hints\<close>
  "hinted_bodies (Stmt h (SIf e t f)) = stmts_of t @ stmts_of f"
| "hinted_bodies (Stmt h (SWhile e b)) = stmts_of b"
| "hinted_bodies (Stmt h (SFor x e b)) = stmts_of b"
| "hinted_bodies (Stmt h (SFuncDecl f)) = func_stmts f"
| "hinted_bodies (Stmt h _) = []"

lemma hinted_bodies_size: "s \<in> set (hinted_bodies t) \<Longrightarrow> size s < size t"
proof -
  have "set (hinted_bodies t) \<subseteq> set (bodies t)"
    by (cases t rule: hinted_bodies.cases) (auto simp: bodies_def)
  then show "s \<in> set (hinted_bodies t) \<Longrightarrow> size s < size t" using bodies_size by blast
qed

function visits :: "ASTStmt \<Rightarrow> nat" where
  \<comment> \<open>the number of statements that get hints when there is room\<close>
  "visits s = 1 + sum_list (map visits (hinted_bodies s))"
  by pat_completeness auto
termination
  by (relation "measure size") (auto dest: hinted_bodies_size)

declare visits.simps [simp del]

definition within :: "OptimizationCtx \<Rightarrow> bool" where
  "within c = (stmt_count c \<le> 1024 \<and> function_count c \<le> 64)"

definition counted :: "nat \<Rightarrow> OptimizationCtx \<Rightarrow> OptimizationCtx \<Rightarrow> bool" where
  "counted n c c' = (stmt_count c' = min 1024 (stmt_count c + n) \<and> within c')"

lemma counted_trans: "counted n c c1 \<Longrightarrow> counted m c1 c2 \<Longrightarrow> counted (n + m) c c2"
  by (auto simp: counted_def)

lemma counted_step:
  "within c \<Longrightarrow> stmt_count c < 1024 \<Longrightarrow> counted n (c\<lparr>stmt_count := Suc (stmt_count c)\<rparr>) c' \<Longrightarrow> counted (Suc n) c c'"
  by (auto simp: counted_def)

lemma counted_function:
  "within c \<Longrightarrow> counted 0 c (snd (analyze_function_optimization f c))"
  by (auto simp: counted_def within_def analyze_function_optimization_def)

lemma counted_refl: "within c \<Longrightarrow> counted 0 c c"
  by (simp add: counted_def within_def)


lemma analyze_stmt_counted:
  assumes ih: "\<And>ss c. ss \<in> set (branches s) \<Longrightarrow> within c \<Longrightarrow>
      counted (sum_list (map visits ss)) c (snd (analyze_stmts_optimization ss c))"
    and c: "within c"
  shows "counted (visits s) c (snd (analyze_stmt_optimization s c))"
proof (cases "stmt_count c < 1024")
  case False
  then show ?thesis using c by (cases s) (auto simp: counted_def within_def)
next
  case True
  obtain h k where s: "s = Stmt h k" by (cases s)
  let ?c = "c\<lparr>stmt_count := Suc (stmt_count c)\<rparr>"
  have c1: "within ?c" using c True by (simp add: within_def)
  have step: "counted (sum_list (map visits (hinted_bodies s))) ?c c' \<Longrightarrow> counted (visits s) c c'" for c'
    using counted_step [OF c True] by (simp add: visits.simps [of s])
  have within: "counted n a b \<Longrightarrow> within b" for n a b by (simp add: counted_def)
  show ?thesis
  proof (cases k)
    case (SIf e t f)
    have t: "counted (sum_list (map visits (stmts_of t))) ?c (snd (analyze_stmts_optimization (stmts_of t) ?c))"
      by (rule ih) (simp_all add: s SIf c1)
    have f: "counted (sum_list (map visits (stmts_of f))) (snd (analyze_stmts_optimization (stmts_of t) ?c))
        (snd (analyze_stmts_optimization (stmts_of f) (snd (analyze_stmts_optimization (stmts_of t) ?c))))"
      by (rule ih) (simp_all add: s SIf within [OF t])
    show ?thesis using True step counted_trans [OF t f] by (simp add: s SIf split_def Let_def)
  next
    case (SWhile e b)
    show ?thesis using True step ih [of "stmts_of b" ?c] c1 by (simp add: s SWhile split_def Let_def)
  next
    case (SFor x e b)
    show ?thesis using True step ih [of "stmts_of b" ?c] c1 by (simp add: s SFor split_def Let_def)
  next
    case (SFuncDecl f)
    note f = counted_function [OF c1, of f]
    show ?thesis using True step counted_trans [OF f ih [OF _ within [OF f]], of "func_stmts f"]
      by (simp add: s SFuncDecl split_def Let_def)
  qed (use True step counted_refl [OF c1] in \<open>simp_all add: s\<close>)
qed

lemma analyze_counted:
  "within c \<Longrightarrow> counted (visits s) c (snd (analyze_stmt_optimization s c))"
  "within c \<Longrightarrow> counted (sum_list (map visits ss)) c (snd (analyze_stmts_optimization ss c))"
proof (induction s and ss arbitrary: c and c rule: stmt_induct)
  case (1 s)
  then show ?case by (intro analyze_stmt_counted)
next
  case (3 s ss)
  have 1: "counted (visits s) c (snd (analyze_stmt_optimization s c))" by (rule 3(1) [OF 3(3)])
  then have "within (snd (analyze_stmt_optimization s c))" by (simp add: counted_def)
  from counted_trans [OF 1 3(2) [OF this]] show ?case by (simp add: split_def Let_def)
qed (simp add: counted_refl)

text \<open>
  The tables of the optimiser are never overrun: hints go to as many of the visited statements as fit
  into the table of 1024, and no more than 64 functions get a record, whatever the program.
\<close>
theorem optimization_tables:
  "(let c = snd (analyze_stmts_optimization program \<lparr>function_count = 0, stmt_count = 0\<rparr>)
    in stmt_count c = min 1024 (sum_list (map visits program)) \<and> function_count c \<le> 64)"
  using analyze_counted(2) [of "\<lparr>function_count = 0, stmt_count = 0\<rparr>" program]
  by (simp add: counted_def within_def Let_def)

section \<open>Hints\<close>

text \<open>
  The inlining hint of a function. A function with a call of itself where the search looks is never
  inlined; a function marked hot or always has at most 10 estimated instructions, no calls in expression
  statements and no print; always means at most 3 of them and 4 parameters; and every function of at most
  25 instructions without such a call is at least cold.
\<close>
theorem inline_hint_correct:
  "(let hint = inline_hint (function_info f); n = sum_list (map estimate_instruction_count (func_stmts f));
        calls = sum_list (map count_function_calls (func_stmts f))
    in (hint = INLINE_NEVER \<longleftrightarrow> is_recursive_function f \<or> n > 50) \<and>
       (inline_rank hint \<ge> inline_rank INLINE_HOT \<longrightarrow> calls = 0 \<and> n \<le> 10 \<and> \<not> is_recursive_function f) \<and>
       (hint = INLINE_ALWAYS \<longleftrightarrow> calls = 0 \<and> n \<le> 3 \<and> \<not> is_recursive_function f \<and> length (func_params (func_sig f)) \<le> 4) \<and>
       (hint = INLINE_COLD \<longrightarrow> n > 10 \<or> calls > 0))"
  by (auto simp: function_info_def choose_hint_def Let_def)

section \<open>What the count of calls misses\<close>

definition calls_in_return :: func_decl where
  \<comment> \<open>\<^verbatim>\<open>def f() -> Int { return g() }\<close>\<close>
  "calls_in_return = FuncDecl \<lparr>func_name = ''f'', func_params = [], return_type = TYPE_INT, return_type_desc = None\<rparr>
     (Some [ast_stmt_new (SReturn (ast_expr_new (ECall ''g'' [])))]) None"

text \<open>Only expression statements and prints are counted: a function that returns a call is a leaf.\<close>

lemma leaf_that_calls: "is_leaf (function_info calls_in_return) \<and> inline_hint (function_info calls_in_return) = INLINE_ALWAYS"
  by code_simp

definition recursive_literal :: func_decl where
  \<comment> \<open>\<^verbatim>\<open>def f() -> Int { return P{x: f()} }\<close>\<close>
  "recursive_literal = FuncDecl \<lparr>func_name = ''f'', func_params = [], return_type = TYPE_INT, return_type_desc = None\<rparr>
     (Some [ast_stmt_new (SReturn (ast_expr_new (EStructLiteral ''P'' [(''x'', ast_expr_new (ECall ''f'' []))])))]) None"

text \<open>The search does not enter the literals of arrays, structs and classes, nor for-in loops: such a recursion is not seen.\<close>

lemma recursion_missed: "\<not> is_recursive (function_info recursive_literal)"
  by code_simp

end
