(* ===== verification/BreadStmtParser.thy ===== *)
theory BreadStmtParser
  imports BreadExprParser BreadTypeParser
begin

text \<open>
  The statement parser, \<^verbatim>\<open>src/compiler/ast/ast_stmt_parser.c\<close>, with the search for the end of an
  expression (\<^verbatim>\<open>parse_expression_str_as_ast\<close>) and the loop over a program
  (\<^verbatim>\<open>ast_parse_program\<close>). The conventions are those of the expression parser. The one
  C function \<^verbatim>\<open>parse_stmt\<close> is cut into one parser for each kind of statement; the parameter lists
  and typed names, which the C code repeats for functions, constructors, methods and fields, are shared.
  Statements and blocks call each other: they take fuel, and \<open>parse_program_total\<close> shows that what
  \<open>ast_parse_program\<close> gives them is enough. What the C code frees on its error paths has no
  counterpart here.
\<close>

section \<open>The extent of an expression\<close>

fun skip_blanks :: "cstring \<Rightarrow> cstring" where
  "skip_blanks s = dropWhile (\<lambda>c. c = CHR '' '' \<or> c = CHR 0x09 \<or> c = CHR 0x0D) s"

fun skip_quoted :: "cstring \<Rightarrow> cstring" where
  \<comment> \<open>to the closing quote\<close>
  "skip_quoted [] = []"
| "skip_quoted [c] = (if c = CHR 0x22 then [c] else [])"
| "skip_quoted (c # d # s) =
     (if c = CHR 0x22 then c # d # s else if c = CHR 0x5C then skip_quoted s else skip_quoted (d # s))"

definition is_expression_brace :: "cstring \<Rightarrow> bool" where
  "is_expression_brace look0 =
     (let look = skip_blanks look0 in
      if at_char CHR ''}'' look then True
      else if starts_with is_ident_start look then at_char CHR '':'' (skip_blanks (dropWhile is_ident_char (tl look)))
      else if at_char CHR 0x22 look then
        (let r = skip_quoted (tl look) in at_char CHR 0x22 r \<and> at_char CHR '':'' (skip_blanks (tl r)))
      else False)"

record nesting =
  parens :: nat
  braces :: nat
  brackets :: nat
  in_string :: bool
  escaped :: bool

definition no_nesting :: nesting where
  "no_nesting = \<lparr>parens = 0, braces = 0, brackets = 0, in_string = False, escaped = False\<rparr>"

definition outside :: "nesting \<Rightarrow> bool" where
  "outside d = (parens d = 0 \<and> braces d = 0 \<and> brackets d = 0)"

definition string_step :: "char \<Rightarrow> nesting \<Rightarrow> nesting" where
  "string_step c d =
     (if escaped d then d\<lparr>escaped := False\<rparr>
      else if c = CHR 0x5C then d\<lparr>escaped := True\<rparr>
      else if c = CHR 0x22 then d\<lparr>in_string := False\<rparr>
      else d)"

definition expr_step :: "char \<Rightarrow> cstring \<Rightarrow> nesting \<Rightarrow> nesting option" where
  \<comment> \<open>one character of the scan; none when the expression ends before it\<close>
  "expr_step c s d =
     (if in_string d then Some (string_step c d)
      else if c = CHR 0x22 then Some (d\<lparr>in_string := True\<rparr>)
      else if outside d \<and> c = CHR ''{'' then (if \<not> is_expression_brace s then None else Some (d\<lparr>braces := braces d + 1\<rparr>))
      else if c = CHR ''('' then Some (d\<lparr>parens := parens d + 1\<rparr>)
      else if c = CHR '')'' then (if parens d = 0 then None else Some (d\<lparr>parens := parens d - 1\<rparr>))
      else if c = CHR ''{'' then Some (d\<lparr>braces := braces d + 1\<rparr>)
      else if c = CHR ''}'' then (if braces d = 0 then None else Some (d\<lparr>braces := braces d - 1\<rparr>))
      else if c = CHR ''['' then Some (d\<lparr>brackets := brackets d + 1\<rparr>)
      else if c = CHR '']'' then Some (d\<lparr>brackets := brackets d - 1\<rparr>)
      else if outside d \<and> (c = CHR 0x0A \<or> c = CHR '';'' \<or> c = CHR '','') then None
      else Some d)"

fun expr_extent :: "nesting \<Rightarrow> cstring \<Rightarrow> cstring \<times> cstring" where
  \<comment> \<open>the text of the expression, and the text left\<close>
  "expr_extent d [] = ([], [])"
| "expr_extent d (c # s) =
     (case expr_step c s d of None \<Rightarrow> ([], c # s)
      | Some d1 \<Rightarrow> (let (t, r) = expr_extent d1 s in (c # t, r)))"

definition trim :: "cstring \<Rightarrow> cstring" where
  "trim s = dropWhile isspace (rev (dropWhile isspace (rev s)))"

definition parse_expression_str_as_ast :: "ASTExpr parser" where
  "parse_expression_str_as_ast code st =
     (let (t, r) = expr_extent no_nesting code in
      pbind (Some (parse_expr (trim t) st)) (\<lambda>e p0 st1.
        if e = Null then ret Null r st1
        else let p = skip_ws p0 in
          if p \<noteq> []
          then failed BREAD_ERROR_PARSE_ERROR
                 (snprintf_s 256 (''Unexpected characters in expression: '' @ [CHR 0x27] @ p @ [CHR 0x27])) Null r st1
          else ret e r st1))"

section \<open>Imports and exports\<close>

definition rest_of_ident :: "cstring \<Rightarrow> cstring" where
  "rest_of_ident s = drop (length (ident_text s)) s"

definition symbol_item :: "cstring \<Rightarrow> (cstring \<times> cstring option) option \<times> cstring" where
  \<comment> \<open>a name, with its alias behind \<^verbatim>\<open>as\<close>\<close>
  "symbol_item r =
     (if ident_text r = [] then (None, r)
      else let r1 = skip_ws (rest_of_ident r) in
        if starts ''as '' r1 then
          (let r2 = skip_ws (drop 3 r1) in
           if ident_text r2 = [] then (None, r2) else (Some (ident_text r, Some (ident_text r2)), rest_of_ident r2))
        else (Some (ident_text r, None), r1))"

definition skip_comma :: "cstring \<Rightarrow> cstring" where
  "skip_comma r = (let q = skip_ws r in if at_char CHR '','' q then skip_ws (tl q) else q)"

lemma rest_of_ident_less: "ident_text s \<noteq> [] \<Longrightarrow> length (rest_of_ident s) < length s"
  by (cases s) (auto simp: rest_of_ident_def ident_text_def)

lemma rest_of_ident_le: "length (rest_of_ident s) \<le> length s"
  by (simp add: rest_of_ident_def)

lemma skip_comma_le: "length (skip_comma r) \<le> length r"
  using skip_ws_length [of r] skip_ws_length [of "tl (skip_ws r)"] by (auto simp: skip_comma_def Let_def length_tl)

lemma skip_ws_tl_le: "length (skip_ws (tl r)) \<le> length r"
  using skip_ws_length [of "tl r"] by (simp add: length_tl)

lemma symbol_item_less: "symbol_item r = (Some x, q) \<Longrightarrow> length q < length r"
  using rest_of_ident_less [of r] skip_ws_length [of "rest_of_ident r"]
    skip_ws_length [of "drop 3 (skip_ws (rest_of_ident r))"]
    rest_of_ident_le [of "skip_ws (drop 3 (skip_ws (rest_of_ident r)))"]
  by (auto simp: symbol_item_def Let_def split: if_splits)

lemma symbol_item_le: "length (snd (symbol_item r)) \<le> length r"
  using rest_of_ident_le [of r] skip_ws_length [of "rest_of_ident r"]
    skip_ws_length [of "drop 3 (skip_ws (rest_of_ident r))"]
    rest_of_ident_le [of "skip_ws (drop 3 (skip_ws (rest_of_ident r)))"]
  by (auto simp: symbol_item_def Let_def)

function symbol_list :: "(cstring \<times> cstring option) list \<Rightarrow> cstring \<Rightarrow> (cstring \<times> cstring option) list option \<times> cstring" where
  "symbol_list acc r =
     (if r = [] \<or> at_char CHR ''}'' r then (Some acc, r)
      else let r1 = skip_ws r in
        if at_char CHR ''}'' r1 then (Some acc, r1)
        else case symbol_item r1 of (None, q) \<Rightarrow> (None, q)
          | (Some x, q) \<Rightarrow> symbol_list (acc @ [x]) (skip_comma q))"
  by pat_completeness auto
termination
proof (relation "measure (\<lambda>(acc, r). length r)")
  show "wf (measure (\<lambda>(acc :: (cstring \<times> cstring option) list, r :: cstring). length r))" by simp
next
  fix acc :: "(cstring \<times> cstring option) list" and r r1 o1 q x
  assume "r1 = skip_ws r" "(o1, q) = symbol_item r1" "o1 = Some x"
  then have "length q < length r" using symbol_item_less [of r1 x q] skip_ws_length [of r] by simp
  then show "((acc @ [x], skip_comma q), acc, r) \<in> measure (\<lambda>(acc, r). length r)"
    using skip_comma_le [of q] by simp
qed

declare symbol_list.simps [simp del]

definition quoted_path :: "cstring \<Rightarrow> cstring option \<times> cstring" where
  \<comment> \<open>a path in quotes; the cursor behind it\<close>
  "quoted_path r =
     (if \<not> at_char CHR 0x22 r then (None, r)
      else let path = takeWhile (\<lambda>c. c \<noteq> CHR 0x22) (tl r); q = drop (length path) (tl r) in
        if q = [] then (None, q) else (Some path, tl q))"

definition import_path :: "bool \<Rightarrow> (cstring \<times> cstring option) list \<Rightarrow> ASTStmt option parser" where
  \<comment> \<open>the path, with an alias when the import is not selective\<close>
  "import_path selective names r st =
     (case quoted_path r of (None, q) \<Rightarrow> ret None q st
      | (Some path, q0) \<Rightarrow>
          (let q = skip_ws q0 in
           if \<not> selective \<and> starts ''as '' q then
             (let q1 = skip_ws (drop 3 q) in
              if ident_text q1 = [] then ret None q1 st
              else ret (Some (ast_stmt_new (SImport path (Some (ident_text q1)) selective names))) (rest_of_ident q1) st)
           else ret (Some (ast_stmt_new (SImport path None selective names))) q st))"

definition parse_import :: "ASTStmt option parser" where
  "parse_import r0 st =
     (let r = skip_ws r0 in
      if at_char CHR ''{'' r then
        (case symbol_list [] (skip_ws (tl r)) of (None, q) \<Rightarrow> ret None q st
         | (Some names, q) \<Rightarrow>
             if \<not> at_char CHR ''}'' q then ret None q st
             else let q1 = skip_ws (tl q) in
               if \<not> starts ''from '' q1 then ret None q1 st
               else import_path True names (skip_ws (drop 5 q1)) st)
      else import_path False [] r st)"

definition parse_export :: "ASTStmt option parser" where
  "parse_export r0 st =
     (let r = skip_ws r0 in
      if starts ''default '' r then
        (let q = skip_ws (drop 8 r) in
         if ident_text q = [] then ret None q st
         else ret (Some (ast_stmt_new (SExport True [(ident_text q, None)]))) (rest_of_ident q) st)
      else if \<not> at_char CHR ''{'' r then ret None r st
      else case symbol_list [] (skip_ws (tl r)) of (None, q) \<Rightarrow> ret None q st
        | (Some names, q) \<Rightarrow>
            if \<not> at_char CHR ''}'' q then ret None q st
            else ret (Some (ast_stmt_new (SExport False names))) (tl q) st)"

section \<open>Parameters and typed fields\<close>

definition typed_name :: "cstring \<Rightarrow> (cstring \<times> TypeDescriptor) option \<times> cstring" where
  \<comment> \<open>a name, a colon and a type\<close>
  "typed_name r =
     (if ident_text r = [] then (None, r)
      else let q = skip_ws (rest_of_ident r) in
        if \<not> at_char CHR '':'' q then (None, q)
        else case parse_type (tl q) of (None, q1) \<Rightarrow> (None, q1) | (Some t, q1) \<Rightarrow> (Some (ident_text r, t), q1))"

type_synonym param = "cstring \<times> TypeDescriptor option \<times> ASTExpr"

definition parse_param :: "(param option) parser" where
  "parse_param r st =
     (case typed_name r of (None, q) \<Rightarrow> ret None q st
      | (Some (name, t), q0) \<Rightarrow>
          (let q = skip_ws q0 in
           if at_char CHR ''='' q then
             pbind (parse_expression_str_as_ast (skip_ws (tl q)) st) (\<lambda>e q1 st1.
               if e = Null then ret None q1 st1 else ret (Some (name, Some t, e)) q1 st1)
           else ret (Some (name, Some t, Null)) q st))"

fun param_list :: "nat \<Rightarrow> param list \<Rightarrow> (param list option) parser" where
  "param_list 0 acc r st = None"
| "param_list (Suc n) acc r st =
     (if r = [] then ret (Some acc) r st
      else pbind (parse_param (skip_ws r) st) (\<lambda>p q0 st1.
        case p of None \<Rightarrow> ret None q0 st1
        | Some x \<Rightarrow> (let q = skip_ws q0 in
            if at_char CHR '','' q then param_list n (acc @ [x]) (tl q) st1 else ret (Some (acc @ [x])) q st1)))"

definition parse_params :: "(param list option) parser" where
  \<comment> \<open>from the opening to behind the closing parenthesis\<close>
  "parse_params r st =
     (if \<not> at_char CHR ''('' r then ret None r st
      else let r1 = skip_ws (tl r);
               close = (\<lambda>ps q st1. let q1 = skip_ws q in
                 if \<not> at_char CHR '')'' q1 then ret None q1 st1 else ret (Some ps) (tl q1) st1)
        in if at_char CHR '')'' r1 then close [] r1 st
           else pbind (param_list (Suc (length r1)) [] r1 st) (\<lambda>ps q st1.
             case ps of None \<Rightarrow> ret None q st1 | Some xs \<Rightarrow> close xs q st1))"

definition return_spec :: "cstring \<Rightarrow> TypeDescriptor option \<times> cstring" where
  \<comment> \<open>the type behind an arrow; without an arrow the type is Nil\<close>
  "return_spec r0 =
     (let r = skip_ws r0 in
      if at_char CHR ''-'' r \<and> at_char CHR ''>'' (tl r) then parse_type (drop 2 r)
      else (type_descriptor_create_primitive TYPE_NIL, r))"

definition base_type_of :: "TypeDescriptor option \<Rightarrow> VarType" where
  "base_type_of t = (case t of None \<Rightarrow> TYPE_NIL | Some d \<Rightarrow> base_type d)"

definition braced :: "(ASTStmt list option) parser \<Rightarrow> (ASTStmt list option) parser" where
  \<comment> \<open>a block in braces that has to parse\<close>
  "braced pb r st =
     (if \<not> at_char CHR ''{'' r then ret None r st
      else pbind (pb (tl r) st) (\<lambda>b q st1.
        if b = None \<or> \<not> at_char CHR ''}'' q then ret None q st1 else ret b (tl q) st1))"

definition braced_loose :: "(ASTStmt list option) parser \<Rightarrow> (ASTStmt list option option) parser" where
  \<comment> \<open>the block of a condition or loop: only the closing brace is tested, not the block\<close>
  "braced_loose pb r st =
     (if \<not> at_char CHR ''{'' r then ret None r st
      else pbind (pb (tl r) st) (\<lambda>b q st1.
        if \<not> at_char CHR ''}'' q then ret None q st1 else ret (Some b) (tl q) st1))"

section \<open>Functions, structs and classes\<close>

definition make_func :: "cstring \<Rightarrow> param list \<Rightarrow> TypeDescriptor option \<Rightarrow> ASTStmt list option \<Rightarrow> func_decl" where
  "make_func name ps ret_type_desc body =
     FuncDecl \<lparr>func_name = name, func_params = ps, return_type = base_type_of ret_type_desc, return_type_desc = ret_type_desc\<rparr> body None"

definition parse_def :: "(ASTStmt list option) parser \<Rightarrow> ASTStmt option parser" where
  "parse_def pb r0 st =
     (let r = skip_ws r0 in
      if ident_text r = [] then ret None r st
      else pbind (parse_params (skip_ws (rest_of_ident r)) st) (\<lambda>params q st1.
        case params of None \<Rightarrow> ret None q st1
        | Some ps \<Rightarrow> (case return_spec q of (None, q1) \<Rightarrow> ret None q1 st1
          | (Some t, q1) \<Rightarrow>
              if at_char CHR ''-'' q1 \<and> at_char CHR ''>'' (tl q1) then ret None q1 st1
              else pbind (braced pb (skip_ws q1) st1) (\<lambda>body q2 st2.
                if body = None then ret None q2 st2
                else ret (Some (ast_stmt_new (SFuncDecl (make_func (ident_text r) ps (Some t) body)))) q2 st2))))"

function struct_fields :: "(cstring \<times> TypeDescriptor option) list \<Rightarrow> cstring \<Rightarrow> (cstring \<times> TypeDescriptor option) list option \<times> cstring" where
  "struct_fields acc r =
     (if r = [] \<or> at_char CHR ''}'' r then (Some acc, r)
      else let r1 = skip_ws r in
        if at_char CHR ''}'' r1 then (Some acc, r1)
        else case typed_name r1 of (None, q) \<Rightarrow> (None, q)
          | (Some (name, t), q) \<Rightarrow> struct_fields (acc @ [(name, Some t)]) (skip_ws q))"
  by pat_completeness auto

lemma parse_type_length: "length (snd (parse_type s)) \<le> length s"
  using parse_type_total [of s] by blast

lemma typed_name_le: "length (snd (typed_name r)) \<le> length r"
  using rest_of_ident_le [of r] skip_ws_length [of "rest_of_ident r"] parse_type_length [of "tl (skip_ws (rest_of_ident r))"]
  by (auto simp: typed_name_def Let_def length_tl split: prod.split option.split)

lemma typed_name_less: "typed_name r = (Some x, q) \<Longrightarrow> length q < length r"
  using rest_of_ident_less [of r] skip_ws_length [of "rest_of_ident r"] parse_type_length [of "tl (skip_ws (rest_of_ident r))"]
  by (auto simp: typed_name_def Let_def length_tl split: if_splits prod.splits option.splits)

termination struct_fields
proof (relation "measure (\<lambda>(acc, r). length r)")
  show "wf (measure (\<lambda>(acc :: (cstring \<times> TypeDescriptor option) list, r :: cstring). length r))" by simp
next
  fix acc :: "(cstring \<times> TypeDescriptor option) list" and r r1 o1 q x name t
  assume "r1 = skip_ws r" "(o1, q) = typed_name r1" "o1 = Some x" "(name, t) = x"
  then have "length q < length r" using typed_name_less [of r1 x q] skip_ws_length [of r] by simp
  then show "((acc @ [(name, Some t)], skip_ws q), acc, r) \<in> measure (\<lambda>(acc, r). length r)"
    using skip_ws_length [of q] by simp
qed

declare struct_fields.simps [simp del]


definition parse_struct :: "ASTStmt option parser" where
  "parse_struct r0 st =
     (let r = skip_ws r0 in
      if ident_text r = [] then ret None r st
      else let q = skip_ws (rest_of_ident r) in
        if \<not> at_char CHR ''{'' q then ret None q st
        else case struct_fields [] (skip_ws (tl q)) of (None, q1) \<Rightarrow> ret None q1 st
          | (Some fs, q1) \<Rightarrow>
              if \<not> at_char CHR ''}'' q1 then ret None q1 st
              else ret (Some (ast_stmt_new (SStructDecl (ident_text r) fs))) (tl q1) st)"

record class_parts =
  cp_fields :: "(cstring \<times> TypeDescriptor option) list"
  cp_methods :: "func_decl list"
  cp_constructor :: "func_decl option"

definition class_constructor :: "(ASTStmt list option) parser \<Rightarrow> class_parts \<Rightarrow> (class_parts option) parser" where
  \<comment> \<open>\<^verbatim>\<open>init(\<close>: it replaces a constructor read before\<close>
  "class_constructor pb cp r st =
     pbind (parse_params (skip_ws (drop 4 r)) st) (\<lambda>params q st1.
       case params of None \<Rightarrow> ret None q st1
       | Some ps \<Rightarrow> pbind (braced pb (skip_ws q) st1) (\<lambda>body q2 st2.
           if body = None then ret None q2 st2
           else ret (Some (cp\<lparr>cp_constructor := Some (make_func ''init'' ps (type_descriptor_create_primitive TYPE_NIL) body)\<rparr>)) q2 st2))"

definition class_method :: "(ASTStmt list option) parser \<Rightarrow> class_parts \<Rightarrow> (class_parts option) parser" where
  "class_method pb cp r0 st =
     (let r = skip_ws (drop 4 r0); name = ident_text r in
      if name = [] then ret None r st
      else pbind (parse_params (skip_ws (rest_of_ident r)) st) (\<lambda>params q st1.
        case params of None \<Rightarrow> ret None q st1
        | Some ps \<Rightarrow> (case return_spec q of (None, q1) \<Rightarrow> ret None q1 st1
          | (Some t, q1) \<Rightarrow>
              pbind (braced pb (skip_ws q1) st1) (\<lambda>body q2 st2.
                if body = None then ret None q2 st2
                else let m = make_func name ps (Some t) body in
                  if name = ''init'' then
                    (if cp_constructor cp \<noteq> None then ret None q2 st2
                     else ret (Some (cp\<lparr>cp_constructor := Some m\<rparr>)) q2 st2)
                  else ret (Some (cp\<lparr>cp_methods := cp_methods cp @ [m]\<rparr>)) q2 st2))))"

definition class_field :: "class_parts \<Rightarrow> (class_parts option) parser" where
  "class_field cp r st =
     (case typed_name r of (None, q) \<Rightarrow> ret None q st
      | (Some (name, t), q) \<Rightarrow> ret (Some (cp\<lparr>cp_fields := cp_fields cp @ [(name, Some t)]\<rparr>)) q st)"

fun class_members :: "(ASTStmt list option) parser \<Rightarrow> nat \<Rightarrow> class_parts \<Rightarrow> (class_parts option) parser" where
  "class_members pb 0 cp r st = None"
| "class_members pb (Suc n) cp r st =
     (if r = [] \<or> at_char CHR ''}'' r then ret (Some cp) r st
      else let r1 = skip_ws r in
        if at_char CHR ''}'' r1 then ret (Some cp) r1 st
        else pbind (if starts ''init('' r1 then class_constructor pb cp r1 st
                    else if starts ''def '' r1 then class_method pb cp r1 st
                    else class_field cp r1 st) (\<lambda>cp1 q st1.
          case cp1 of None \<Rightarrow> ret None q st1 | Some c \<Rightarrow> class_members pb n c (skip_ws q) st1))"

definition parse_class :: "(ASTStmt list option) parser \<Rightarrow> ASTStmt option parser" where
  "parse_class pb r0 st =
     (let r = skip_ws r0; name = ident_text r;
          body = (\<lambda>parent q. if \<not> at_char CHR ''{'' q then ret None q st
            else let q1 = skip_ws (tl q) in
              pbind (class_members pb (Suc (length q1)) \<lparr>cp_fields = [], cp_methods = [], cp_constructor = None\<rparr> q1 st) (\<lambda>cp q2 st2.
                case cp of None \<Rightarrow> ret None q2 st2
                | Some c \<Rightarrow>
                    if \<not> at_char CHR ''}'' q2 then ret None q2 st2
                    else if cp_constructor c = None then ret None (tl q2) st2
                    else ret (Some (ast_stmt_new (SClassDecl name parent (cp_fields c) (cp_methods c) (cp_constructor c)))) (tl q2) st2))
      in if name = [] then ret None r st
         else let q = skip_ws (rest_of_ident r) in
           if starts ''extends '' q then
             (let q1 = skip_ws (drop 8 q) in
              if ident_text q1 = [] then ret None q1 st
              else body (Some (ident_text q1)) (skip_ws (rest_of_ident q1)))
           else body None q)"

section \<open>Simple statements\<close>

definition line_end :: "cstring \<Rightarrow> cstring option" where
  \<comment> \<open>the cursor behind the end of the line, if only blanks are before it\<close>
  "line_end r =
     (let look = skip_blanks r in
      if at_char CHR 0x0A look \<or> at_char CHR '';'' look then Some (tl look)
      else if look = [] \<or> at_char CHR ''}'' look then Some look
      else None)"

definition parse_return :: "ASTStmt option parser" where
  "parse_return r st =
     pbind (parse_expression_str_as_ast (skip_ws r) st) (\<lambda>e q st1.
       if e = Null then ret None q st1
       else ret (Some (ast_stmt_new (SReturn e))) (case line_end q of None \<Rightarrow> q | Some q1 \<Rightarrow> q1) st1)"

definition parse_decl :: "bool \<Rightarrow> ASTStmt option parser" where
  "parse_decl const r0 st =
     (let r = skip_ws r0;
          init = (\<lambda>desc q0. let q = skip_ws q0 in
            if \<not> at_char CHR ''='' q then ret None q st
            else pbind (parse_expression_str_as_ast (skip_ws (tl q)) st) (\<lambda>e q1 st1.
              if e = Null then ret None q1 st1
              else ret (Some (ast_stmt_new (SVarDecl (ident_text r) (base_type_of desc) desc e const))) q1 st1))
      in if ident_text r = [] then ret None r st
         else let q = skip_ws (rest_of_ident r) in
           if at_char CHR '':'' q then
             (case parse_type (tl q) of (None, q1) \<Rightarrow> ret None q1 st | (Some t, q1) \<Rightarrow> init (Some t) q1)
           else init None q)"

definition parse_print :: "ASTStmt option parser" where
  \<comment> \<open>the tree is made even when the expression did not parse\<close>
  "parse_print r st =
     pbind (parse_expression_str_as_ast r st) (\<lambda>e q0 st1.
       let q = (if at_char CHR '')'' q0 then tl q0 else q0) in
       case line_end q of None \<Rightarrow> ret None q st1 | Some q1 \<Rightarrow> ret (Some (ast_stmt_new (SPrint e))) q1 st1)"

section \<open>Conditions and loops\<close>

definition parse_if :: "ASTStmt option parser \<Rightarrow> (ASTStmt list option) parser \<Rightarrow> ASTStmt option parser" where
  "parse_if ps pb r st =
     pbind (parse_expression_str_as_ast (skip_ws r) st) (\<lambda>cond q st1.
       if cond = Null then ret None q st1
       else pbind (braced_loose pb (skip_ws q) st1) (\<lambda>b q0 st2.
         case b of None \<Rightarrow> ret None q0 st2
         | Some then_branch \<Rightarrow>
             let q1 = skip_ws q0;
                 done = (\<lambda>else_branch. ret (Some (ast_stmt_new (SIf cond then_branch else_branch))))
             in if \<not> starts ''else '' q1 then done None q1 st2
                else let q2 = skip_ws (drop 5 q1) in
                  if starts ''if '' q2 then
                    pbind (ps q2 st2) (\<lambda>nested q3 st3.
                      case nested of None \<Rightarrow> ret None q3 st3 | Some s \<Rightarrow> done (Some [s]) q3 st3)
                  else pbind (braced_loose pb q2 st2) (\<lambda>b q3 st3.
                    case b of None \<Rightarrow> ret None q3 st3 | Some else_branch \<Rightarrow> done else_branch q3 st3)))"

definition parse_while :: "(ASTStmt list option) parser \<Rightarrow> ASTStmt option parser" where
  "parse_while pb r st =
     pbind (parse_expression_str_as_ast (skip_ws r) st) (\<lambda>cond q st1.
       if cond = Null then ret None q st1
       else pbind (braced_loose pb (skip_ws q) st1) (\<lambda>b q0 st2.
         case b of None \<Rightarrow> ret None q0 st2 | Some body \<Rightarrow> ret (Some (ast_stmt_new (SWhile cond body))) q0 st2))"

definition parse_for :: "(ASTStmt list option) parser \<Rightarrow> ASTStmt option parser" where
  \<comment> \<open>always a loop over the elements of an iterable: no statement of the kind \<^verbatim>\<open>AST_STMT_FOR\<close> is made\<close>
  "parse_for pb r0 st =
     (let r = skip_ws r0; name = takeWhile (\<lambda>c. c \<noteq> CHR '' '' \<and> c \<noteq> CHR 0x09) r in
      if name = [] then ret None r st
      else let q = skip_ws (drop (length name) r) in
        if \<not> starts ''in '' q then ret None q st
        else pbind (parse_expression_str_as_ast (skip_ws (drop 3 q)) st) (\<lambda>range_expr q1 st1.
          if range_expr = Null then ret None q1 st1
          else pbind (braced_loose pb (skip_ws q1) st1) (\<lambda>b q2 st2.
            case b of None \<Rightarrow> ret None q2 st2 | Some body \<Rightarrow> ret (Some (ast_stmt_new (SForIn name range_expr body))) q2 st2)))"

section \<open>Assignments\<close>

definition assign_step :: "char \<Rightarrow> nesting \<Rightarrow> nesting option" where
  \<comment> \<open>the brackets of one character outside of strings; none at a closing brace of the block around\<close>
  "assign_step c d =
     (if c = CHR ''('' then Some (d\<lparr>parens := parens d + 1\<rparr>)
      else if c = CHR '')'' then Some (d\<lparr>parens := parens d - 1\<rparr>)
      else if c = CHR ''['' then Some (d\<lparr>brackets := brackets d + 1\<rparr>)
      else if c = CHR '']'' then Some (d\<lparr>brackets := brackets d - 1\<rparr>)
      else if c = CHR ''{'' then Some (d\<lparr>braces := braces d + 1\<rparr>)
      else if c = CHR ''}'' then (if braces d = 0 then None else Some (d\<lparr>braces := braces d - 1\<rparr>))
      else Some d)"

definition compound_char :: "char \<Rightarrow> bool" where
  "compound_char c = (c = CHR ''+'' \<or> c = CHR ''-'' \<or> c = CHR ''*'' \<or> c = CHR ''/'' \<or> c = CHR ''%'')"

fun find_assign :: "nesting \<Rightarrow> cstring \<Rightarrow> (cstring \<times> char option) option" where
  \<comment> \<open>the text before an assignment operator outside of brackets and strings, and the operator before the sign\<close>
  "find_assign d [] = None"
| "find_assign d (c # s) =
     (let on = (\<lambda>d1. map_option (\<lambda>(t, op). (c # t, op)) (find_assign d1 s)) in
      if in_string d then on (string_step c d)
      else if c = CHR 0x22 then on (d\<lparr>in_string := True\<rparr>)
      else case assign_step c d of None \<Rightarrow> None
        | Some d1 \<Rightarrow>
            if outside d1 \<and> c = CHR ''='' \<and> \<not> at_char CHR ''='' s then Some ([], None)
            else if outside d1 \<and> compound_char c \<and> at_char CHR ''='' s
              then Some ([], Some c)
            else if outside d1 \<and> (c = CHR 0x0A \<or> c = CHR '';'') then None
            else on d1)"

definition no_op :: char where "no_op = CHR 0x00"

datatype assign_target = ToVar | ToIndex ASTExpr ASTExpr | ToMember ASTExpr cstring

definition index_target :: "ASTExpr \<Rightarrow> assign_target" where
  "index_target e = (case e of Expr nt (EIndex t i) \<Rightarrow> if t \<noteq> Null \<and> i \<noteq> Null then ToIndex t i else ToVar | _ \<Rightarrow> ToVar)"

definition member_target :: "ASTExpr \<Rightarrow> assign_target" where
  "member_target e = (case e of Expr nt (EMember t m c) \<Rightarrow> if t \<noteq> Null then ToMember t m else ToVar | _ \<Rightarrow> ToVar)"

definition parse_target :: "cstring \<Rightarrow> error_state \<Rightarrow> (assign_target \<times> error_state) outcome" where
  \<comment> \<open>the left side, read as an expression when it holds a bracket or a point; a failure stays on record\<close>
  "parse_target name st =
     (if CHR ''['' \<in> set name then
        (case parse_expression_str_as_ast name st of
           Some (Done (e, r, st1)) \<Rightarrow> Done (index_target e, st1)
         | Some (Aborted x) \<Rightarrow> Aborted x | _ \<Rightarrow> Undefined)
      else if CHR ''.'' \<in> set name then
        (case parse_expression_str_as_ast name st of
           Some (Done (e, r, st1)) \<Rightarrow> Done (member_target e, st1)
         | Some (Aborted x) \<Rightarrow> Aborted x | _ \<Rightarrow> Undefined)
      else Done (ToVar, st))"

definition parse_assign :: "cstring \<Rightarrow> char option \<Rightarrow> ASTStmt option parser" where
  \<comment> \<open>the cursor is at the operator; the text before it is given\<close>
  "parse_assign lhs op r st =
     (let name = trim lhs; r1 = skip_ws (if op = None then tl r else drop 2 r); opc = (case op of None \<Rightarrow> no_op | Some c \<Rightarrow> c) in
      case parse_target name st of
        Aborted e \<Rightarrow> Some (Aborted e) | Undefined \<Rightarrow> Some Undefined
      | Done (target, st1) \<Rightarrow>
          pbind (parse_expression_str_as_ast r1 st1) (\<lambda>rhs q st2.
            if rhs = Null then ret None q st2
            else ret (Some (ast_stmt_new (case target of
                ToIndex t i \<Rightarrow> SIndexAssign t i rhs opc
              | ToMember t m \<Rightarrow> SMemberAssign t m rhs opc
              | ToVar \<Rightarrow> SVarAssign name rhs opc))) q st2))"

definition parse_expr_or_assign :: "ASTStmt option parser" where
  "parse_expr_or_assign r st =
     (case find_assign no_nesting r of
        Some (lhs, op) \<Rightarrow> parse_assign lhs op (drop (length lhs) r) st
      | None \<Rightarrow>
          pbind (parse_expression_str_as_ast r st) (\<lambda>e q st1.
            if e = Null then ret None q st1 else ret (Some (ast_stmt_new (SExpr e))) q st1))"

section \<open>Statements, blocks and programs\<close>

definition word_at :: "cstring \<Rightarrow> cstring \<Rightarrow> bool" where
  \<comment> \<open>the word, and no letter or digit behind it\<close>
  "word_at w s = (starts w s \<and> \<not> starts_with (\<lambda>c. isalpha c \<or> isdigit c) (drop (length w) s))"

definition stmt_at :: "ASTStmt option parser \<Rightarrow> (ASTStmt list option) parser \<Rightarrow> ASTStmt option parser" where
  "stmt_at ps pb s0 st =
     (let s = skip_ws s0 in
      if starts ''import '' s then parse_import (drop 7 s) st
      else if starts ''export '' s then parse_export (drop 7 s) st
      else if starts ''def '' s then parse_def pb (drop 4 s) st
      else if word_at ''return'' s then parse_return (drop 6 s) st
      else if starts ''struct '' s then parse_struct (drop 7 s) st
      else if starts ''class '' s then parse_class pb (drop 6 s) st
      else if starts ''const '' s then parse_decl True (drop 6 s) st
      else if starts ''let '' s \<or> starts ''var '' s then parse_decl False (drop 4 s) st
      else if starts ''print('' s then parse_print (drop 6 s) st
      else if starts ''if '' s then parse_if ps pb (drop 3 s) st
      else if starts ''while '' s then parse_while pb (drop 6 s) st
      else if starts ''for '' s then parse_for pb (drop 4 s) st
      else if word_at ''break'' s then ret (Some (ast_stmt_new SBreak)) (drop 5 s) st
      else if word_at ''continue'' s then ret (Some (ast_stmt_new SContinue)) (drop 8 s) st
      else parse_expr_or_assign s st)"

fun parse_stmt :: "nat \<Rightarrow> ASTStmt option parser" and
  parse_block :: "nat \<Rightarrow> ASTStmt list \<Rightarrow> (ASTStmt list option) parser"
where
  "parse_stmt 0 s st = None"
| "parse_stmt (Suc n) s st = stmt_at (parse_stmt n) (parse_block n []) s st"
| "parse_block 0 acc s st = None"
| "parse_block (Suc n) acc s st =
     (if s = [] \<or> at_char CHR ''}'' s then ret (Some acc) s st
      else let r = skip_ws s in
        if at_char CHR ''}'' r then ret (Some acc) r st
        else pbind (parse_stmt n r st) (\<lambda>x q st1.
          case x of None \<Rightarrow> ret None q st1 | Some stmt \<Rightarrow> parse_block n (acc @ [stmt]) q st1))"

fun program_loop :: "nat \<Rightarrow> ASTStmt list \<Rightarrow> (ASTStmt list option) parser" where
  "program_loop 0 acc s st = None"
| "program_loop (Suc n) acc s st =
     (if s = [] then ret (Some acc) s st
      else let r = skip_ws s in
        if r = [] then ret (Some acc) r st
        else if at_char CHR '';'' r then program_loop n acc (tl r) st
        else pbind (parse_stmt (2 * length r + 1) r st) (\<lambda>x q0 st1.
          case x of
            None \<Rightarrow> if bread_error_has_error st1 then ret None q0 st1
                     else failed BREAD_ERROR_PARSE_ERROR ''Failed to parse statement'' None q0 st1
          | Some stmt \<Rightarrow>
              let q = skip_ws q0; q1 = (if at_char CHR '';'' q then tl q else q) in
              if bread_error_has_compilation_errors st1 then ret None q1 st1
              else program_loop n (acc @ [stmt]) q1 st1))"

definition ast_parse_program :: "cstring \<Rightarrow> error_state \<Rightarrow> (ASTStmt list option \<times> cstring \<times> error_state) outcome" where
  "ast_parse_program code st = the (program_loop (Suc (length code)) [] code (bread_error_reset_compilation_state st))"

section \<open>Every parse returns\<close>

declare length_tl [simp del]

definition advances :: "nat \<Rightarrow> nat \<Rightarrow> ('a \<Rightarrow> bool) \<Rightarrow> error_state \<Rightarrow> 'a parsed \<Rightarrow> bool" where
  \<comment> \<open>the parse returns; the text left is no longer than \<open>n\<close>, and \<open>d\<close> shorter when it succeeds; a record of an
    error is never lost. Unlike for expressions a failure need not be on record\<close>
  "advances d n fails st p \<longleftrightarrow> (\<exists>q. p = Some q \<and>
     (\<forall>x r st'. q = Done (x, r, st') \<longrightarrow> length r \<le> n \<and> (\<not> fails x \<longrightarrow> length r + d \<le> n) \<and> (erred st \<longrightarrow> erred st')))"

abbreviation none :: "'a option \<Rightarrow> bool" where
  "none x \<equiv> x = None"

lemma parsed_advances: "parsed_ok d n F st p \<Longrightarrow> advances d n F st p"
  by (fastforce simp: parsed_ok_def advances_def split: if_splits)

lemma advances_ret [simp]:
  "advances d n F st (ret x r st') \<longleftrightarrow> length r \<le> n \<and> (\<not> F x \<longrightarrow> length r + d \<le> n) \<and> (erred st \<longrightarrow> erred st')"
  by (auto simp: advances_def ret_def)

lemma advances_undefined [simp]: "advances d n F st (Some Undefined)" "advances d n F st (Some (Aborted e))"
  by (simp_all add: advances_def)

lemma advances_mono: "advances d m F st p \<Longrightarrow> m \<le> n \<Longrightarrow> k + m \<le> d + n \<Longrightarrow> advances k n F st p"
  by (fastforce simp: advances_def)

lemma parse_failed_ok:
  "F x \<Longrightarrow> length r \<le> n \<Longrightarrow> parsed_ok d n F st (failed BREAD_ERROR_PARSE_ERROR msg x r st')"
  by (auto simp: parsed_ok_def failed_def bread_error_set_def bread_error_set_with_context_def Let_def
      bread_error_init_def fail_fast_error_def compile_time_error_def bread_error_has_compilation_errors_def)

lemma advances_bind:
  assumes "advances d n F st p"
    and "\<And>x r st1. length r \<le> n \<Longrightarrow> (\<not> F x \<Longrightarrow> length r + d \<le> n) \<Longrightarrow> (erred st \<Longrightarrow> erred st1) \<Longrightarrow>
           advances k m G st1 (f x r st1)"
  shows "advances k m G st (pbind p f)"
proof -
  obtain q where q: "p = Some q" and
    d: "\<And>x r st'. q = Done (x, r, st') \<Longrightarrow> length r \<le> n \<and> (\<not> F x \<longrightarrow> length r + d \<le> n) \<and> (erred st \<longrightarrow> erred st')"
    using assms(1) by (auto simp: advances_def)
  show ?thesis
  proof (cases q)
    case (Done t)
    obtain x r st1 where t: "t = (x, r, st1)" by (cases t) auto
    from d [of x r st1] Done t have "advances k m G st1 (f x r st1)" "erred st \<longrightarrow> erred st1"
      by (auto intro!: assms(2))
    with q Done t show ?thesis by (auto simp: pbind_def advances_def)
  qed (simp_all add: q pbind_def)
qed

subsection \<open>The extent of an expression\<close>

lemma expr_extent_length: "expr_extent d s = (t, r) \<Longrightarrow> length t + length r = length s"
  by (induction d s arbitrary: t r rule: expr_extent.induct) (auto split: option.splits prod.splits)

lemma trim_length: "length (trim t) \<le> length t"
  unfolding trim_def by (metis length_dropWhile_le length_rev le_trans)

lemma expr_str_ok: "parsed_ok 1 (length code) no_tree st (parse_expression_str_as_ast code st)"
proof -
  obtain t r where x: "expr_extent no_nesting code = (t, r)" by fastforce
  have l: "length t + length r = length code" by (rule expr_extent_length [OF x])
  have p: "parsed_ok 1 (length (trim t)) no_tree st (Some (parse_expr (trim t) st))"
  proof -
    have "parsed_ok 1 (length (trim t)) no_tree st (parse_expression (Suc (length (trim t))) (trim t) st)"
      using parse_expression_good [of "Suc (length (trim t))"] by (simp add: good_parser_def)
    then show ?thesis unfolding parse_expr_def by (metis option.sel parsed_ok_def)
  qed
  have "parsed_ok 1 (length code) no_tree st (pbind (Some (parse_expr (trim t) st)) (\<lambda>e p0 st1.
      if e = Null then ret Null r st1
      else let p = skip_ws p0 in if p \<noteq> [] then failed BREAD_ERROR_PARSE_ERROR (m p) Null r st1 else ret e r st1))" for m
    using l trim_length [of t]
    by (intro parsed_bind [OF p]) (auto simp: Let_def intro!: parse_failed_ok split: if_splits)
  then show ?thesis unfolding parse_expression_str_as_ast_def x by (simp add: Let_def)
qed

lemma expr_str_advances: "length code \<le> m \<Longrightarrow> advances 1 m no_tree st (parse_expression_str_as_ast code st)"
  by (rule advances_mono [OF parsed_advances [OF expr_str_ok]]) auto

lemma expr_str_bind:
  assumes "length s \<le> L"
    and "\<And>x r st1. length r \<le> L \<Longrightarrow> (x \<noteq> Null \<Longrightarrow> Suc (length r) \<le> L) \<Longrightarrow> (erred st \<Longrightarrow> erred st1) \<Longrightarrow>
           advances k m G st1 (f x r st1)"
  shows "advances k m G st (pbind (parse_expression_str_as_ast s st) f)"
  using assms by (intro advances_bind [OF expr_str_advances [OF assms(1)]]) auto

subsection \<open>Imports, exports, parameters\<close>

lemma symbol_list_length: "length (snd (symbol_list acc r)) \<le> length r"
proof (induction acc r rule: symbol_list.induct)
  case (1 acc r)
  obtain o1 q where i: "symbol_item (skip_ws r) = (o1, q)" by fastforce
  have q: "length q \<le> length r" using symbol_item_le [of "skip_ws r"] skip_ws_length [of r] by (simp add: i)
  show ?case
  proof (cases o1)
    case None
    then show ?thesis using q i skip_ws_length [of r] by (simp add: symbol_list.simps [of acc r] Let_def)
  next
    case (Some x)
    then show ?thesis
      using 1 [of "skip_ws r" o1 q x] q i skip_ws_length [of r] skip_comma_le [of q]
      by (auto simp: symbol_list.simps [of acc r] Let_def)
  qed
qed

lemma struct_fields_length: "length (snd (struct_fields acc r)) \<le> length r"
proof (induction acc r rule: struct_fields.induct)
  case (1 acc r)
  obtain o1 q where i: "typed_name (skip_ws r) = (o1, q)" by fastforce
  have q: "length q \<le> length r" using typed_name_le [of "skip_ws r"] skip_ws_length [of r] by (simp add: i)
  show ?case
  proof (cases o1)
    case None
    then show ?thesis using q i skip_ws_length [of r] by (simp add: struct_fields.simps [of acc r] Let_def)
  next
    case (Some x)
    obtain nm t where x: "x = (nm, t)" by fastforce
    have "length (snd (struct_fields (acc @ [(nm, Some t)]) (skip_ws q))) \<le> length (skip_ws q)"
      if "r \<noteq> []" "\<not> at_char CHR ''}'' r" "\<not> at_char CHR ''}'' (skip_ws r)"
      by (rule 1 [of "skip_ws r" o1 q x nm t]) (use that Some x i in auto)
    then show ?thesis
      using Some x q i skip_ws_length [of r] skip_ws_length [of q]
      by (simp add: struct_fields.simps [of acc r] Let_def) (meson le_trans)
  qed
qed

lemma ws_trans: "length q \<le> m \<Longrightarrow> length (skip_ws q) \<le> m" "length q \<le> m \<Longrightarrow> length (tl q) \<le> m"
    "length q \<le> m \<Longrightarrow> length (drop k q) \<le> m" "length q \<le> m \<Longrightarrow> length (rest_of_ident q) \<le> m"
  using skip_ws_length [of q] rest_of_ident_le [of q] by (simp_all add: length_tl)

lemma quoted_path_length: "length (snd (quoted_path r)) \<le> length r"
  by (auto simp: quoted_path_def Let_def length_tl)

lemma import_path_ok:
  assumes "length r \<le> m"
  shows "advances 0 m none st (import_path b names r st)"
proof -
  obtain path q0 where p: "quoted_path r = (path, q0)" by fastforce
  then have q0: "length q0 \<le> m" using quoted_path_length [of r] assms by simp
  have q: "length q0 \<le> m" "length (skip_ws q0) \<le> m" "length (skip_ws (drop 3 (skip_ws q0))) \<le> m"
    "length (rest_of_ident (skip_ws (drop 3 (skip_ws q0)))) \<le> m"
    by (intro ws_trans q0)+
  show ?thesis unfolding import_path_def p by (cases path) (simp_all add: Let_def q del: length_drop)
qed

lemma parse_import_ok: "advances 0 (length r) none st (parse_import r st)"
proof -
  obtain names q where n: "symbol_list [] (skip_ws (tl (skip_ws r))) = (names, q)" by fastforce
  have "length (skip_ws (tl (skip_ws r))) \<le> length r" by (intro ws_trans order_refl)
  then have q: "length q \<le> length r" using symbol_list_length [of "[]" "skip_ws (tl (skip_ws r))"] n by simp
  have q': "length (skip_ws (tl q)) \<le> length r" "length (skip_ws (drop 5 (skip_ws (tl q)))) \<le> length r"
    by (intro ws_trans q)+
  show ?thesis unfolding parse_import_def Let_def n
    by (cases names) (auto simp: Let_def q q' skip_ws_length intro!: import_path_ok)
qed

lemma parse_export_ok: "advances 0 (length r) none st (parse_export r st)"
proof -
  obtain names q where n: "symbol_list [] (skip_ws (tl (skip_ws r))) = (names, q)" by fastforce
  have "length (skip_ws (tl (skip_ws r))) \<le> length r" by (intro ws_trans order_refl)
  then have q: "length q \<le> length r" using symbol_list_length [of "[]" "skip_ws (tl (skip_ws r))"] n by simp
  have q': "length (tl q) \<le> length r" "length (skip_ws (drop 8 (skip_ws r))) \<le> length r"
    "length (rest_of_ident (skip_ws (drop 8 (skip_ws r)))) \<le> length r"
    by (intro ws_trans q order_refl)+
  show ?thesis unfolding parse_export_def Let_def n
    by (cases names) (auto simp: Let_def q q' skip_ws_length)
qed

lemma parse_param_ok: "advances 1 (length r) none st (parse_param r st)"
proof -
  obtain o1 q where t: "typed_name r = (o1, q)" by fastforce
  have le: "length q \<le> length r" using typed_name_le [of r] t by simp
  show ?thesis
  proof (cases o1)
    case None
    then show ?thesis using t le by (simp add: parse_param_def)
  next
    case (Some x)
    obtain nm ty where x: "x = (nm, ty)" by fastforce
    have less: "length q < length r" using typed_name_less t Some by blast
    have dflt: "length (skip_ws (tl (skip_ws q))) \<le> length q" by (intro ws_trans order_refl)
    show ?thesis
      using less skip_ws_length [of q] unfolding parse_param_def t Some x
      by (auto simp: Let_def intro!: expr_str_bind [OF dflt])
  qed
qed

lemma param_list_ok:
  "length r < n \<Longrightarrow> length r \<le> m \<Longrightarrow> advances 0 m none st (param_list n acc r st)"
proof (induction n arbitrary: r st acc)
  case (Suc n)
  have step: "advances 0 m none st2 (param_list n acc2 (tl (skip_ws q)) st2)" if "Suc (length q) \<le> length r" for q acc2 st2
    using that skip_ws_length [of q] Suc.prems by (intro Suc.IH) (auto simp: length_tl)
  have "advances 1 (length r) none st (parse_param (skip_ws r) st)"
    by (rule advances_mono [OF parse_param_ok]) (use skip_ws_length [of r] in auto)
  then show ?case using Suc.prems
    by (auto simp: Let_def intro!: advances_bind [where d = 1 and n = "length r"] step ws_trans split: option.split)
qed simp

lemma parse_params_ok: "advances 1 (length r) none st (parse_params r st)"
proof (cases "at_char CHR ''('' r")
  case True
  let ?r = "skip_ws (tl r)"
  have r: "length ?r < length r" using True skip_ws_length [of "tl r"] by (cases r) auto
  have r': "length (tl ?r) < length r" using r by (simp add: length_tl)
  have "advances 1 (length r) none st (pbind (param_list (Suc (length ?r)) [] ?r st) (\<lambda>ps q st1.
      case ps of None \<Rightarrow> ret None q st1
      | Some xs \<Rightarrow> if \<not> at_char CHR '')'' (skip_ws q) then ret None (skip_ws q) st1 else ret (Some xs) (tl (skip_ws q)) st1))"
  proof (rule advances_bind)
    show "advances 0 (length ?r) none st (param_list (Suc (length ?r)) [] ?r st)" by (rule param_list_ok) auto
    fix x :: "param list option" and q :: cstring and st1 :: error_state
    assume q: "length q \<le> length ?r"
    show "advances 1 (length r) none st1 (case x of None \<Rightarrow> ret None q st1
      | Some xs \<Rightarrow> if \<not> at_char CHR '')'' (skip_ws q) then ret None (skip_ws q) st1 else ret (Some xs) (tl (skip_ws q)) st1)"
      using q r ws_trans(1) [OF q] ws_trans(2) [OF ws_trans(1) [OF q]] by (cases x) auto
  qed
  then show ?thesis using True r' unfolding parse_params_def Let_def by (simp del: param_list.simps)
qed (simp add: parse_params_def)

definition good_block :: "nat \<Rightarrow> (ASTStmt list option) parser \<Rightarrow> bool" where
  "good_block n pb \<longleftrightarrow> (\<forall>s st. length s < n \<longrightarrow> advances 0 (length s) none st (pb s st))"

definition good_stmt :: "nat \<Rightarrow> ASTStmt option parser \<Rightarrow> bool" where
  "good_stmt n ps \<longleftrightarrow> (\<forall>s st. length s < n \<longrightarrow> advances 1 (length s) none st (ps s st))"

lemma good_blockD: "good_block n pb \<Longrightarrow> length s < n \<Longrightarrow> length s \<le> m \<Longrightarrow> advances 0 m none st (pb s st)"
  unfolding good_block_def by (meson advances_mono add_le_mono1 order_refl add_mono)

lemma braced_ok:
  assumes "good_block n pb" "length r \<le> n" "length r \<le> m"
  shows "advances 0 m none st (braced pb r st)" "advances 0 m none st (braced_loose pb r st)"
proof -
  have "length (tl r) < n" "length (tl r) \<le> m" if "at_char c r" for c using that assms(2,3) by (cases r; simp)+
  then have "advances 0 m none st (pb (tl r) st)" if "at_char c r" for c
    using that by (intro good_blockD [OF assms(1)]) blast+
  then show "advances 0 m none st (braced pb r st)" "advances 0 m none st (braced_loose pb r st)"
    using assms(3) unfolding braced_def braced_loose_def
    by (auto simp: length_tl intro!: advances_bind [where d = 0 and n = m] split: if_splits)
qed

lemma return_spec_length: "length (snd (return_spec r)) \<le> length r"
  using skip_ws_length [of r] parse_type_length [of "drop 2 (skip_ws r)"]
  by (auto simp: return_spec_def Let_def)

lemma params_bind:
  assumes "length s \<le> L"
    and "\<And>ps r st1. length r \<le> L \<Longrightarrow> (erred st \<Longrightarrow> erred st1) \<Longrightarrow> advances k m G st1 (f ps r st1)"
  shows "advances k m G st (pbind (parse_params s st) f)"
  using assms by (intro advances_bind [OF advances_mono [OF parse_params_ok, of s L 0]]) auto

lemma braced_bind:
  assumes "good_block n pb" "length s \<le> n" "length s \<le> L"
    and "\<And>b r st1. length r \<le> L \<Longrightarrow> (erred st \<Longrightarrow> erred st1) \<Longrightarrow> advances k m G st1 (f b r st1)"
  shows "advances k m G st (pbind (braced pb s st) f)"
  using assms by (intro advances_bind [OF braced_ok(1) [OF assms(1-3)]]) auto

lemma braced_loose_bind:
  assumes "good_block n pb" "length s \<le> n" "length s \<le> L"
    and "\<And>b r st1. length r \<le> L \<Longrightarrow> (erred st \<Longrightarrow> erred st1) \<Longrightarrow> advances k m G st1 (f b r st1)"
  shows "advances k m G st (pbind (braced_loose pb s st) f)"
  using assms by (intro advances_bind [OF braced_ok(2) [OF assms(1-3)]]) auto

lemma func_tail_ok:
  \<comment> \<open>the return type and the body, for functions and methods\<close>
  assumes pb: "good_block n pb" and q: "length q \<le> n" "length q \<le> m"
    and f: "\<And>t body q2 st2. length q2 \<le> m \<Longrightarrow> (erred st \<Longrightarrow> erred st2) \<Longrightarrow> advances 0 m none st2 (f t body q2 st2)"
  shows "advances 0 m none st (case return_spec q of (None, q1) \<Rightarrow> ret None q1 st
    | (Some t, q1) \<Rightarrow> if b q1 then ret None q1 st
        else pbind (braced pb (skip_ws q1) st) (\<lambda>body q2 st2. if body = None then ret None q2 st2 else f t body q2 st2))"
proof -
  obtain t q1 where t: "return_spec q = (t, q1)" by fastforce
  then have q1: "length q1 \<le> length q" using return_spec_length [of q] by simp
  then have "length (skip_ws q1) \<le> n" "length (skip_ws q1) \<le> m" using q skip_ws_length [of q1] by linarith+
  then show ?thesis unfolding t using q q1
    by (cases t) (auto intro!: braced_bind [OF pb, where L = m] f)
qed

lemma parse_def_ok:
  assumes "good_block n pb" "length r \<le> n"
  shows "advances 0 (length r) none st (parse_def pb r st)"
proof -
  have l: "length (skip_ws (rest_of_ident (skip_ws r))) \<le> length r" by (intro ws_trans order_refl)
  have "advances 0 (length r) none st (pbind (parse_params (skip_ws (rest_of_ident (skip_ws r))) st) (\<lambda>params q st1.
      case params of None \<Rightarrow> ret None q st1
      | Some ps \<Rightarrow> (case return_spec q of (None, q1) \<Rightarrow> ret None q1 st1
        | (Some t, q1) \<Rightarrow>
            if at_char CHR ''-'' q1 \<and> at_char CHR ''>'' (tl q1) then ret None q1 st1
            else pbind (braced pb (skip_ws q1) st1) (\<lambda>body q2 st2.
              if body = None then ret None q2 st2 else ret (Some (mk ps t body)) q2 st2))))" for mk
    using assms by (intro params_bind [OF l]) (auto intro!: func_tail_ok [OF assms(1)] split: option.split)
  from this [of "\<lambda>ps t body. ast_stmt_new (SFuncDecl (make_func (ident_text (skip_ws r)) ps (Some t) body))"]
  show ?thesis unfolding parse_def_def Let_def by (simp add: skip_ws_length)
qed

lemma parse_struct_ok: "advances 0 (length r) none st (parse_struct r st)"
proof -
  let ?q = "skip_ws (rest_of_ident (skip_ws r))"
  obtain fs q1 where f: "struct_fields [] (skip_ws (tl ?q)) = (fs, q1)" by fastforce
  have "length (skip_ws (tl ?q)) \<le> length r" "length ?q \<le> length r" by (intro ws_trans order_refl)+
  moreover from this have "length q1 \<le> length r" using struct_fields_length [of "[]" "skip_ws (tl ?q)"] f by simp
  moreover from this have "length (tl q1) \<le> length r" by (intro ws_trans)
  ultimately show ?thesis unfolding parse_struct_def Let_def f by (cases fs) (simp_all add: skip_ws_length)
qed

lemma class_constructor_ok:
  assumes "good_block n pb" "length r \<le> n" "starts ''init('' r"
  shows "advances 1 (length r) none st (class_constructor pb cp r st)"
proof -
  have r: "length (drop 4 r) < length r" using assms(3) by (cases r) (auto simp: starts_def)
  have l: "length (skip_ws (drop 4 r)) \<le> length (drop 4 r)" by (rule skip_ws_length)
  have "advances 0 (length (drop 4 r)) none st (class_constructor pb cp r st)"
    unfolding class_constructor_def using r assms(2) skip_ws_length
    by (intro params_bind [OF l])
      (auto intro!: braced_bind [OF assms(1), where L = "length (drop 4 r)"] ws_trans simp del: length_drop split: option.split)
  then show ?thesis by (rule advances_mono) (use r in auto)
qed

lemma class_method_ok:
  assumes "good_block n pb" "length r \<le> n" "starts ''def '' r"
  shows "advances 1 (length r) none st (class_method pb cp r st)"
proof -
  have r: "length (drop 4 r) < length r" using assms(3) by (cases r) (auto simp: starts_def)
  have l: "length (skip_ws (rest_of_ident (skip_ws (drop 4 r)))) \<le> length (drop 4 r)" "length (skip_ws (drop 4 r)) \<le> length (drop 4 r)"
    by (intro ws_trans order_refl)+
  have tail: "advances 0 (length (drop 4 r)) none st1 (case return_spec q of (None, q1) \<Rightarrow> ret None q1 st1
    | (Some t, q1) \<Rightarrow> pbind (braced pb (skip_ws q1) st1) (\<lambda>body q2 st2. if body = None then ret None q2 st2 else
        let m = mk t body in
          if name = ''init'' then (if b then ret None q2 st2 else ret (Some (c1 m)) q2 st2) else ret (Some (c2 m)) q2 st2))"
    if "length q \<le> length (drop 4 r)" for q st1 mk b c1 c2 name
    by (rule func_tail_ok [OF assms(1), where b = "\<lambda>_. False", unfolded if_False])
      (use that r assms(2) in \<open>auto simp: Let_def simp del: length_drop\<close>)
  have "advances 0 (length (drop 4 r)) none st (class_method pb cp r st)"
    unfolding class_method_def Let_def using l
    by (auto intro!: params_bind [OF l(1)] tail [unfolded Let_def] simp del: length_drop split: option.split)
  then show ?thesis by (rule advances_mono) (use r in auto)
qed

lemma class_field_ok: "advances 1 (length r) none st (class_field cp r st)"
  using typed_name_le [of r] typed_name_less [of r] unfolding class_field_def
  by (auto simp: Suc_le_eq less_imp_le split: prod.split option.split)

lemma class_members_ok:
  assumes "good_block N pb"
  shows "length r < n \<Longrightarrow> length r \<le> N \<Longrightarrow> length r \<le> m \<Longrightarrow> advances 0 m none st (class_members pb n cp r st)"
proof (induction n arbitrary: r st cp)
  case (Suc n)
  let ?r = "skip_ws r"
  have r: "length ?r \<le> length r" by (rule skip_ws_length)
  have item: "advances 1 (length r) none st (if starts ''init('' ?r then class_constructor pb cp ?r st
      else if starts ''def '' ?r then class_method pb cp ?r st else class_field cp ?r st)"
    using r Suc.prems(2)
    by (auto intro!: advances_mono [OF class_constructor_ok [OF assms]] advances_mono [OF class_method_ok [OF assms]]
        advances_mono [OF class_field_ok])
  have "advances 0 m none st1 (class_members pb n c (skip_ws q) st1)" if "Suc (length q) \<le> length r" for q c st1
    using that skip_ws_length [of q] Suc.prems by (intro Suc.IH) auto
  then have "advances 0 m none st (pbind (if starts ''init('' ?r then class_constructor pb cp ?r st
      else if starts ''def '' ?r then class_method pb cp ?r st else class_field cp ?r st)
      (\<lambda>cp1 q st1. case cp1 of None \<Rightarrow> ret None q st1 | Some c \<Rightarrow> class_members pb n c (skip_ws q) st1))"
    using Suc.prems(3) by (intro advances_bind [OF item]) (auto split: option.split)
  then show ?case using Suc.prems(3) r by (simp add: Let_def)
qed simp

lemma parse_class_ok:
  assumes "good_block n pb" "length r0 \<le> n"
  shows "advances 0 (length r0) none st (parse_class pb r0 st)"
proof -
  let ?r = "skip_ws r0"
  let ?body = "\<lambda>parent q. if \<not> at_char CHR ''{'' q then ret None q st
    else pbind (class_members pb (Suc (length (skip_ws (tl q)))) \<lparr>cp_fields = [], cp_methods = [], cp_constructor = None\<rparr> (skip_ws (tl q)) st) (\<lambda>cp q2 st2.
      case cp of None \<Rightarrow> ret None q2 st2
      | Some c \<Rightarrow>
          if \<not> at_char CHR ''}'' q2 then ret None q2 st2
          else if cp_constructor c = None then ret None (tl q2) st2
          else ret (Some (ast_stmt_new (SClassDecl (ident_text ?r) parent (cp_fields c) (cp_methods c) (cp_constructor c)))) (tl q2) st2)"
  have body: "advances 0 (length r0) none st (?body parent q)" if q: "length q \<le> length r0" for parent q
  proof -
    let ?q = "skip_ws (tl q)"
    have l: "length ?q \<le> length r0" by (intro ws_trans q)
    have "advances 0 (length r0) none st (class_members pb (Suc (length ?q)) cp ?q st)" for cp
      using l assms(2) by (intro class_members_ok [OF assms(1)]) auto
    then show ?thesis using q
      by (auto simp: length_tl intro!: advances_bind [where d = 0 and n = "length r0"] split: option.split simp del: class_members.simps)
  qed
  have l: "length (skip_ws (rest_of_ident ?r)) \<le> length r0"
    "length (skip_ws (drop 8 (skip_ws (rest_of_ident ?r)))) \<le> length r0"
    "length (skip_ws (rest_of_ident (skip_ws (drop 8 (skip_ws (rest_of_ident ?r)))))) \<le> length r0"
    by (intro ws_trans order_refl)+
  show ?thesis using body [OF l(1), of None] body [OF l(3), of "Some (ident_text (skip_ws (drop 8 (skip_ws (rest_of_ident ?r)))))"] l
    unfolding parse_class_def Let_def by (simp add: skip_ws_length del: class_members.simps length_drop)
qed

subsection \<open>Statements that hold expressions\<close>

lemma skip_blanks_length: "length (skip_blanks s) \<le> length s"
  by (simp add: length_dropWhile_le)

lemma line_end_length: "line_end q = Some q1 \<Longrightarrow> length q1 \<le> length q"
  using skip_blanks_length [of q] by (auto simp: line_end_def Let_def length_tl split: if_splits)

lemma parse_return_ok: "advances 0 (length r) none st (parse_return r st)"
proof -
  have l: "length (skip_ws r) \<le> length r" by (rule skip_ws_length)
  have *: "length (case line_end q of None \<Rightarrow> q | Some q1 \<Rightarrow> q1) \<le> length r" if "length q \<le> length r" for q
    using that by (cases "line_end q") (auto dest: line_end_length)
  show ?thesis unfolding parse_return_def
    by (rule expr_str_bind [OF l]) (simp add: *)
qed

lemma parse_print_ok: "advances 0 (length r) none st (parse_print r st)"
proof -
  have c: "length (if at_char CHR '')'' q then tl q else q) \<le> length q" for q by (simp add: length_tl)
  have *: "advances 0 (length r) none st1 (case line_end (if at_char CHR '')'' q then tl q else q) of
      None \<Rightarrow> ret None (if at_char CHR '')'' q then tl q else q) st1 | Some q1 \<Rightarrow> ret (Some (mk q1)) q1 st1)"
    if "length q \<le> length r" for q st1 mk
    using c [of q] that
    by (cases "line_end (if at_char CHR '')'' q then tl q else q)") (auto dest: line_end_length)
  show ?thesis unfolding parse_print_def Let_def by (intro expr_str_bind [OF order_refl] *)
qed

lemma parse_decl_ok: "advances 0 (length r0) none st (parse_decl b r0 st)"
proof -
  let ?r = "skip_ws r0"
  let ?q = "skip_ws (rest_of_ident ?r)"
  let ?init = "\<lambda>desc q0. if \<not> at_char CHR ''='' (skip_ws q0) then ret None (skip_ws q0) st
    else pbind (parse_expression_str_as_ast (skip_ws (tl (skip_ws q0))) st) (\<lambda>e q1 st1.
      if e = Null then ret None q1 st1
      else ret (Some (ast_stmt_new (SVarDecl (ident_text ?r) (base_type_of desc) desc e b))) q1 st1)"
  have init: "advances 0 (length r0) none st (?init desc q0)" if q0: "length q0 \<le> length r0" for desc q0
  proof -
    have l: "length (skip_ws (tl (skip_ws q0))) \<le> length r0" "length (skip_ws q0) \<le> length r0" by (intro ws_trans q0)+
    then show ?thesis by (auto intro!: expr_str_bind [OF l(1)])
  qed
  obtain t q1 where t: "parse_type (tl ?q) = (t, q1)" by fastforce
  have l: "length ?q \<le> length r0" "length (tl ?q) \<le> length r0" by (intro ws_trans order_refl)+
  then have "length q1 \<le> length r0" using parse_type_length [of "tl ?q"] t by simp
  with l show ?thesis using init [of q1] init [of ?q]
    unfolding parse_decl_def Let_def t by (cases t) (simp_all add: skip_ws_length)
qed

lemma good_stmtD: "good_stmt n ps \<Longrightarrow> length s < n \<Longrightarrow> length s \<le> m \<Longrightarrow> advances 0 m none st (ps s st)"
  unfolding good_stmt_def by (rule advances_mono [of 1 "length s"]) auto

lemma parse_if_ok:
  assumes pb: "good_block n pb" and ps: "good_stmt n ps" and r: "length r < n"
  shows "advances 0 (length r) none st (parse_if ps pb r st)"
proof -
  have l: "length (skip_ws r) \<le> length r" by (rule skip_ws_length)
  have else': "advances 0 (length r) none st2
      (if \<not> starts ''else '' q1 then ret (Some (mk None)) q1 st2
       else if starts ''if '' (skip_ws (drop 5 q1)) then
           pbind (ps (skip_ws (drop 5 q1)) st2) (\<lambda>nested q3 st3.
             case nested of None \<Rightarrow> ret None q3 st3 | Some s \<Rightarrow> ret (Some (mk (Some [s]))) q3 st3)
       else pbind (braced_loose pb (skip_ws (drop 5 q1)) st2) (\<lambda>b q3 st3.
             case b of None \<Rightarrow> ret None q3 st3 | Some else_branch \<Rightarrow> ret (Some (mk else_branch)) q3 st3))"
    if q1: "length q1 \<le> length r" for q1 mk st2
  proof -
    have l: "length (skip_ws (drop 5 q1)) \<le> length r" by (intro ws_trans q1)
    show ?thesis using l r q1
      by (auto intro!: advances_bind [OF good_stmtD [OF ps]] braced_loose_bind [OF pb, where L = "length r"]
          split: option.splits)
  qed
  show ?thesis unfolding parse_if_def Let_def
  proof (rule expr_str_bind [OF l])
    fix cond and q :: cstring and st1
    assume q: "length q \<le> length r"
    have ws: "length (skip_ws q0) \<le> length r" if "length q0 \<le> length r" for q0 using that by (intro ws_trans)
    have "advances 0 (length r) none st1 (pbind (braced_loose pb (skip_ws q) st1) (\<lambda>b q0 st2. case b of None \<Rightarrow> ret None q0 st2
      | Some t \<Rightarrow> if \<not> starts ''else '' (skip_ws q0) then ret (Some (ast_stmt_new (SIf cond t None))) (skip_ws q0) st2
          else if starts ''if '' (skip_ws (drop 5 (skip_ws q0))) then
             pbind (ps (skip_ws (drop 5 (skip_ws q0))) st2) (\<lambda>nested q3 st3.
               case nested of None \<Rightarrow> ret None q3 st3 | Some s \<Rightarrow> ret (Some (ast_stmt_new (SIf cond t (Some [s])))) q3 st3)
          else pbind (braced_loose pb (skip_ws (drop 5 (skip_ws q0))) st2) (\<lambda>b q3 st3.
             case b of None \<Rightarrow> ret None q3 st3 | Some e \<Rightarrow> ret (Some (ast_stmt_new (SIf cond t e))) q3 st3)))"
      (is "advances _ _ _ _ (pbind _ ?f)")
    proof (rule braced_loose_bind [OF pb, where L = "length r"])
      show "advances 0 (length r) none st2 (?f b q0 st2)" if "length q0 \<le> length r" for b q0 st2
      proof (cases b)
        case None
        then show ?thesis using that by simp
      next
        case (Some t)
        show ?thesis unfolding Some option.case by (rule else' [OF ws [OF that]])
      qed
    qed (use ws [OF q] r in auto)
    with q show "advances 0 (length r) none st1 (if cond = Null then ret None q st1 else pbind (braced_loose pb (skip_ws q) st1) ?f)"
      by simp
  qed
qed

lemma parse_while_ok:
  assumes pb: "good_block n pb" and r: "length r < n"
  shows "advances 0 (length r) none st (parse_while pb r st)"
proof -
  have l: "length (skip_ws r) \<le> length r" by (rule skip_ws_length)
  have ws: "length (skip_ws q) \<le> length r" "length (skip_ws q) \<le> n" if "length q \<le> length r" for q
    using that r skip_ws_length [of q] by linarith+
  show ?thesis unfolding parse_while_def
    by (auto intro!: expr_str_bind [OF l] braced_loose_bind [OF pb, where L = "length r"] ws split: option.splits)
qed

lemma parse_for_ok:
  assumes pb: "good_block n pb" and r: "length r0 < n"
  shows "advances 0 (length r0) none st (parse_for pb r0 st)"
proof -
  have l: "length (skip_ws (drop k (skip_ws r0))) \<le> length r0"
    "length (skip_ws (drop 3 (skip_ws (drop k (skip_ws r0))))) \<le> length r0" for k by (intro ws_trans order_refl)+
  have ws: "length (skip_ws q) \<le> length r0" "length (skip_ws q) \<le> n" if "length q \<le> length r0" for q
    using that r skip_ws_length [of q] by linarith+
  show ?thesis unfolding parse_for_def Let_def
    by (auto simp: l skip_ws_length intro!: expr_str_bind [OF l(2)] braced_loose_bind [OF pb, where L = "length r0"] ws
        split: option.splits simp del: length_drop)
qed

subsection \<open>Assignments and expressions\<close>

lemma find_assign_step:
  assumes "find_assign d (c # s) = Some (lhs, op)"
  shows "(\<exists>d1 t. find_assign d1 s = Some (t, op) \<and> lhs = c # t) \<or> (lhs = [] \<and> (op \<noteq> None \<longrightarrow> at_char CHR ''='' s))"
  using assms unfolding find_assign.simps Let_def by (simp split: if_split_asm option.split_asm) blast+

lemma find_assign_length: "find_assign d s = Some (lhs, op) \<Longrightarrow> length lhs < length s \<and> (op \<noteq> None \<longrightarrow> length lhs + 2 \<le> length s)"
proof (induction s arbitrary: d lhs)
  case (Cons c s)
  from find_assign_step [OF Cons.prems] show ?case
  proof
    assume "\<exists>d1 t. find_assign d1 s = Some (t, op) \<and> lhs = c # t"
    with Cons.IH show ?thesis by fastforce
  next
    assume "lhs = [] \<and> (op \<noteq> None \<longrightarrow> at_char CHR ''='' s)"
    then show ?thesis by (cases s) auto
  qed
qed simp

lemma advances_st: "advances d n F st1 p \<Longrightarrow> (erred st \<Longrightarrow> erred st1) \<Longrightarrow> advances d n F st p"
  by (auto simp: advances_def)

lemma advances_if:
  "(c \<Longrightarrow> advances d n F st p) \<Longrightarrow> (\<not> c \<Longrightarrow> advances d n F st q) \<Longrightarrow> advances d n F st (if c then p else q)"
  by simp

lemma parse_target_erred: "parse_target name st = Done (t, st1) \<Longrightarrow> erred st \<Longrightarrow> erred st1"
  using expr_str_ok [of name st]
  by (auto simp: parse_target_def parsed_ok_def split: if_splits option.splits outcome.splits)

lemma parse_assign_ok:
  assumes "r \<noteq> []"
  shows "advances 1 (length r) none st (parse_assign lhs op r st)"
proof (cases "parse_target (trim lhs) st")
  case (Done t)
  obtain tg st1 where t: "t = (tg, st1)" by (cases t)
  let ?r1 = "skip_ws (if op = None then tl r else drop 2 r)"
  have "length (if op = None then tl r else drop 2 r) < length r" using assms by (cases r) auto
  then have l: "length ?r1 < length r" using skip_ws_length le_less_trans by blast
  show ?thesis unfolding parse_assign_def Let_def Done t outcome.case prod.case
  proof (rule advances_st)
    show "erred st \<Longrightarrow> erred st1" using parse_target_erred Done t by blast
  qed (use l in \<open>auto intro!: expr_str_bind [OF order_refl]\<close>)
qed (simp_all add: parse_assign_def Let_def)

lemma parse_expr_or_assign_ok: "advances 1 (length r) none st (parse_expr_or_assign r st)"
proof (cases "find_assign no_nesting r")
  case None
  then show ?thesis by (auto simp: parse_expr_or_assign_def intro!: expr_str_bind [OF order_refl])
next
  case (Some a)
  obtain lhs op where a: "a = (lhs, op)" by (cases a)
  with Some have "drop (length lhs) r \<noteq> []" using find_assign_length [of no_nesting r lhs op] by auto
  then have "advances 1 (length (drop (length lhs) r)) none st (parse_assign lhs op (drop (length lhs) r) st)"
    by (rule parse_assign_ok)
  then show ?thesis unfolding parse_expr_or_assign_def Some a by (simp add: advances_mono)
qed

subsection \<open>The knot\<close>

lemma starts_drop: "starts w s \<Longrightarrow> w \<noteq> [] \<Longrightarrow> length (drop (length w) s) < length s"
  by (cases s) (auto simp: starts_def)

lemma kw_drop:
  "starts ''import '' s \<Longrightarrow> length (drop 7 s) < length s" "starts ''export '' s \<Longrightarrow> length (drop 7 s) < length s"
  "starts ''def '' s \<Longrightarrow> length (drop 4 s) < length s" "word_at ''return'' s \<Longrightarrow> length (drop 6 s) < length s"
  "starts ''struct '' s \<Longrightarrow> length (drop 7 s) < length s" "starts ''class '' s \<Longrightarrow> length (drop 6 s) < length s"
  "starts ''const '' s \<Longrightarrow> length (drop 6 s) < length s"
  "starts ''let '' s \<Longrightarrow> length (drop 4 s) < length s" "starts ''var '' s \<Longrightarrow> length (drop 4 s) < length s"
  "starts ''print('' s \<Longrightarrow> length (drop 6 s) < length s" "starts ''if '' s \<Longrightarrow> length (drop 3 s) < length s"
  "starts ''while '' s \<Longrightarrow> length (drop 6 s) < length s" "starts ''for '' s \<Longrightarrow> length (drop 4 s) < length s"
  "word_at ''break'' s \<Longrightarrow> length (drop 5 s) < length s" "word_at ''continue'' s \<Longrightarrow> length (drop 8 s) < length s"
  using starts_drop [of "''import ''" s] starts_drop [of "''export ''" s] starts_drop [of "''def ''" s]
    starts_drop [of "''return''" s] starts_drop [of "''struct ''" s] starts_drop [of "''class ''" s]
    starts_drop [of "''const ''" s] starts_drop [of "''let ''" s] starts_drop [of "''var ''" s]
    starts_drop [of "''print(''" s] starts_drop [of "''if ''" s] starts_drop [of "''while ''" s]
    starts_drop [of "''for ''" s] starts_drop [of "''break''" s] starts_drop [of "''continue''" s]
  by (simp_all add: word_at_def)

lemma kw_ok: "length (drop k s) < length s \<Longrightarrow> length s \<le> m \<Longrightarrow> advances 0 (length (drop k s)) none st p \<Longrightarrow> advances 1 m none st p"
  by (erule advances_mono) auto

lemma stmt_at_ok:
  assumes pb: "good_block n pb" and ps: "good_stmt n ps" and s: "length s0 \<le> n"
  shows "advances 1 (length s0) none st (stmt_at ps pb s0 st)"
proof -
  let ?s = "skip_ws s0"
  have l: "length ?s \<le> length s0" by (rule skip_ws_length)
  have n: "length (drop k ?s) \<le> n" for k using l s by simp
  have n': "length (drop k ?s) < n" if "length (drop k ?s) < length ?s" for k using l s that by simp
  have brk: "advances 1 (length s0) none st (ret (Some x) (drop k ?s) st)" if "length (drop k ?s) < length ?s" for k x
    using that l by auto
  have e: "advances 1 (length s0) none st (parse_expr_or_assign ?s st)"
    by (rule advances_mono [OF parse_expr_or_assign_ok]) (use l in auto)
  have K: "advances 1 (length s0) none st (parse_import (drop k ?s) st)"
    "advances 1 (length s0) none st (parse_export (drop k ?s) st)"
    "advances 1 (length s0) none st (parse_def pb (drop k ?s) st)"
    "advances 1 (length s0) none st (parse_return (drop k ?s) st)"
    "advances 1 (length s0) none st (parse_struct (drop k ?s) st)"
    "advances 1 (length s0) none st (parse_class pb (drop k ?s) st)"
    "advances 1 (length s0) none st (parse_decl b (drop k ?s) st)"
    "advances 1 (length s0) none st (parse_print (drop k ?s) st)"
    "advances 1 (length s0) none st (parse_if ps pb (drop k ?s) st)"
    "advances 1 (length s0) none st (parse_while pb (drop k ?s) st)"
    "advances 1 (length s0) none st (parse_for pb (drop k ?s) st)"
    if "length (drop k ?s) < length ?s" for k b
    by (rule kw_ok [OF that l], rule parse_import_ok parse_export_ok parse_def_ok [OF pb n] parse_return_ok
        parse_struct_ok parse_class_ok [OF pb n] parse_decl_ok parse_print_ok parse_if_ok [OF pb ps n' [OF that]]
        parse_while_ok [OF pb n' [OF that]] parse_for_ok [OF pb n' [OF that]])+
  note kw = kw_drop [of ?s]
  show ?thesis unfolding stmt_at_def Let_def
    by (intro advances_if; (elim disjE)?; (rule e | (rule K brk, erule kw)))
qed

lemma parse_stmt_block_good:
  "(2 * n \<le> f + 1 \<longrightarrow> good_stmt n (parse_stmt f)) \<and> (2 * n \<le> f \<longrightarrow> good_block n (parse_block f acc))"
proof (induction f arbitrary: n acc)
  case 0
  then show ?case by (auto simp: good_stmt_def good_block_def)
next
  case (Suc f)
  have stmt: "good_stmt n (parse_stmt (Suc f))" if "2 * n \<le> Suc f + 1"
  proof -
    have "good_block (n - 1) (parse_block f [])" "good_stmt (n - 1) (parse_stmt f)" using that Suc.IH [of "n - 1"] by auto
    from stmt_at_ok [OF this] show ?thesis unfolding good_stmt_def by auto
  qed
  have block: "good_block n (parse_block (Suc f) acc)" if n: "2 * n \<le> Suc f"
    unfolding good_block_def
  proof (intro allI impI)
    fix s :: cstring and st
    assume s: "length s < n"
    have r: "length (skip_ws s) \<le> length s" by (rule skip_ws_length)
    have st: "advances 1 (length s) none st (parse_stmt f (skip_ws s) st)"
    proof -
      have "advances 1 (length (skip_ws s)) none st (parse_stmt f (skip_ws s) st)"
        using Suc.IH [of n acc] n s r unfolding good_stmt_def by auto
      then show ?thesis by (rule advances_mono) (use r in auto)
    qed
    have rest: "advances 0 (length s) none st1 (parse_block f acc1 q st1)" if "length q + 1 \<le> length s" for q acc1 st1
      using Suc.IH [of "n - 1" acc1] n s that by (intro good_blockD [of "n - 1"]) auto
    have "advances 0 (length s) none st (pbind (parse_stmt f (skip_ws s) st) (\<lambda>x q st1.
        case x of None \<Rightarrow> ret None q st1 | Some y \<Rightarrow> parse_block f (acc @ [y]) q st1))"
      by (intro advances_bind [OF st]) (auto intro!: rest split: option.split)
    with r show "advances 0 (length s) none st (parse_block (Suc f) acc s st)" by (simp add: Let_def)
  qed
  from stmt block show ?case by blast
qed

section \<open>Programs\<close>

lemma failed_has_error:
  "failed BREAD_ERROR_PARSE_ERROR msg x r st = Some (Done (y, q, st')) \<Longrightarrow> bread_error_has_error st' \<and> q = r \<and> y = x"
  by (auto simp: failed_def bread_error_set_def bread_error_set_with_context_def Let_def fail_fast_error_def
      compile_time_error_def bread_error_has_error_def bread_error_init_def)

lemma failed_returns: "\<exists>q. failed t msg x r st = Some q"
  by (simp add: failed_def)

definition program_result :: "(ASTStmt list option \<times> cstring \<times> error_state) outcome \<Rightarrow> bool" where
  "program_result q = (\<forall>x r st'. q = Done (x, r, st') \<longrightarrow>
     (case x of None \<Rightarrow> bread_error_has_error st' \<or> erred st' | Some ss \<Rightarrow> r = [] \<and> \<not> erred st'))"

lemma program_result_simps [simp]:
  "program_result (Aborted e)" "program_result Undefined"
  "program_result (Done (None, r, st)) = (bread_error_has_error st \<or> erred st)"
  "program_result (Done (Some ss, r, st)) = (r = [] \<and> \<not> erred st)"
  by (simp_all add: program_result_def)

lemma program_loop_ok: "length s < n \<Longrightarrow> \<not> erred st \<Longrightarrow> \<exists>q. program_loop n acc s st = Some q \<and> program_result q"
proof (induction n arbitrary: s st acc)
  case (Suc n)
  let ?r = "skip_ws s"
  have r: "length ?r \<le> length s" by (rule skip_ws_length)
  have "good_stmt (length ?r + 1) (parse_stmt (2 * length ?r + 1))"
    using parse_stmt_block_good [of "length ?r + 1" "2 * length ?r + 1"] by simp
  then have "advances 1 (length ?r) none st (parse_stmt (2 * length ?r + 1) ?r st)"
    by (simp add: good_stmt_def)
  then obtain q where q: "parse_stmt (2 * length ?r + 1) ?r st = Some q"
    "\<And>x r' st'. q = Done (x, r', st') \<Longrightarrow> length r' \<le> length ?r \<and> (x \<noteq> None \<longrightarrow> length r' + 1 \<le> length ?r)"
    unfolding advances_def by auto
  have step: "\<exists>q. program_loop n acc1 s1 st1 = Some q \<and> program_result q" if "length s1 < length s" "\<not> erred st1" for acc1 s1 st1
    using that Suc.prems by (intro Suc.IH) auto
  have tl: "length (tl ?r) < length s" if "?r \<noteq> []" using that r by (cases ?r) auto
  show ?case
  proof (cases "s = [] \<or> ?r = [] \<or> at_char CHR '';'' ?r")
    case True
    then show ?thesis using step [OF tl] Suc.prems by (auto simp: Let_def ret_def)
  next
    case False
    show ?thesis
    proof (cases q)
      case (Done t)
      obtain x q0 st1 where t: "t = (x, q0, st1)" by (cases t)
      show ?thesis
      proof (cases x)
        case None
        with False q(1) Done t show ?thesis
          using failed_returns [of BREAD_ERROR_PARSE_ERROR "''Failed to parse statement''" "None :: ASTStmt list option" q0 st1]
          by (auto simp: Let_def pbind_def ret_def program_result_def dest!: failed_has_error)
      next
        case (Some stmt)
        have "length q0 < length s" using q(2) Done t Some r by fastforce
        then have "length (if at_char CHR '';'' (skip_ws q0) then tl (skip_ws q0) else skip_ws q0) < length s"
          using skip_ws_length [of q0] by (auto simp: length_tl)
        from step [OF this] False q(1) Done t Some show ?thesis by (simp add: Let_def pbind_def ret_def)
      qed
    qed (use False q(1) in \<open>simp_all add: Let_def pbind_def\<close>)
  qed
qed simp

lemma reset_not_erred: "\<not> erred (bread_error_reset_compilation_state st)"
  by (simp add: bread_error_reset_compilation_state_def bread_error_has_compilation_errors_def)

text \<open>
  C24: parsing a program returns on every text: the recursion of statements and blocks and all loops come
  to an end (each statement takes at least one character). When it gives a tree, the whole text was
  read and no compile-time error is on record; when it gives none, an error is on record.
\<close>
theorem parse_program_total:
  "program_loop (Suc (length code)) [] code (bread_error_reset_compilation_state st) = Some (ast_parse_program code st) \<and>
   (\<forall>x r st'. ast_parse_program code st = Done (x, r, st') \<longrightarrow>
      (case x of None \<Rightarrow> bread_error_has_error st' \<or> bread_error_has_compilation_errors st'
       | Some ss \<Rightarrow> r = [] \<and> \<not> bread_error_has_compilation_errors st'))"
proof -
  obtain q where "program_loop (Suc (length code)) [] code (bread_error_reset_compilation_state st) = Some q" "program_result q"
    using program_loop_ok [of code "Suc (length code)" "bread_error_reset_compilation_state st" "[]"] reset_not_erred by auto
  then show ?thesis by (simp add: ast_parse_program_def program_result_def)
qed

theorem parse_program_total_witness:
  "\<exists>ss st'. ast_parse_program ''x = y'' error_state0 = Done (Some ss, [], st') \<and> \<not> bread_error_has_compilation_errors st'"
proof -
  have "case ast_parse_program ''x = y'' error_state0 of Done (Some ss, r, st') \<Rightarrow> True | _ \<Rightarrow> False" by code_simp
  then obtain ss r st' where "ast_parse_program ''x = y'' error_state0 = Done (Some ss, r, st')"
    by (auto split: outcome.splits option.splits prod.splits)
  with parse_program_total [of "''x = y''" error_state0] show ?thesis by auto
qed

section \<open>Texts that are not read as they look\<close>

text \<open>The then branch is lost: the block fails at the closing brace without a record, and only the brace is tested.\<close>

lemma branch_lost:
  "parse_stmt 22 ''if c{let x}'' error_state0 =
     Some (Done (Some (ast_stmt_new (SIf (ast_expr_new (EVar ''c'')) None None)), [], error_state0))"
  by code_simp

text \<open>Comparisons and comments in expression statements are taken for assignments, and so is a member of an element.\<close>

lemma comparison_is_assignment:
  "parse_stmt 20 ''a == b'' error_state0 =
     Some (Done (Some (ast_stmt_new (SVarAssign ''a ='' (ast_expr_new (EVar ''b'')) no_op)), [], error_state0))"
  by code_simp

lemma comment_is_assignment:
  "parse_stmt 20 ''f() // x = y'' error_state0 =
     Some (Done (Some (ast_stmt_new (SVarAssign ''f() // x'' (ast_expr_new (EVar ''y'')) no_op)), [], error_state0))"
  by code_simp

lemma element_member_is_variable:
  "parse_stmt 20 ''a[i].x = y'' error_state0 =
     Some (Done (Some (ast_stmt_new (SVarAssign ''a[i].x'' (ast_expr_new (EVar ''y'')) no_op)), [], error_state0))"
  by code_simp

text \<open>A name that begins with \<^verbatim>\<open>return_\<close> cannot be assigned to.\<close>

lemma return_name_fails: "(case parse_stmt 20 ''return_x = y'' error_state0 of Some (Done (None, r, st)) \<Rightarrow> erred st | _ \<Rightarrow> False)"
  by code_simp

end
