(* ===== verification/BreadBuiltins.thy ===== *)
theory BreadBuiltins
  imports BreadOperators BreadExprParser
begin

text \<open>
  The built-in functions of \<^verbatim>\<open>src/runtime/builtins.c\<close>: the table they are registered in, the
  call with its checks, and the seven functions. An implementation pointer of the table is a
  constructor of \<open>implementation\<close>; what the functions print and the rest of the standard input
  are part of the state. An array of arguments with its length is a list. The conversions
  \<^verbatim>\<open>strtol\<close> and \<^verbatim>\<open>strtod\<close> of the C library are written out (in the C locale).
\<close>

section \<open>Reading numbers\<close>

definition take_sign :: "cstring \<Rightarrow> bool \<times> cstring" where
  "take_sign s = (if at_char CHR ''-'' s then (True, tl s) else if at_char CHR ''+'' s then (False, tl s) else (False, s))"

definition strtol :: "cstring \<Rightarrow> int \<times> cstring" where
  \<comment> \<open>base 10: the value, held to the range of \<^verbatim>\<open>long\<close>, and the text from \<^verbatim>\<open>endptr\<close>\<close>
  "strtol s =
     (let (neg, t) = take_sign (dropWhile isspace s); ds = takeWhile isdigit t; n = int (decimal ds)
      in if ds = [] then (0, s)
         else (if neg then max (- n) (- (2 ^ 63)) else min n (2 ^ 63 - 1), dropWhile isdigit t))"

definition lower :: "char \<Rightarrow> char" where
  "lower c = (let n = of_char c :: nat in if 65 \<le> n \<and> n \<le> 90 then char_of (n + 32) else c)"

definition word_at :: "cstring \<Rightarrow> cstring \<Rightarrow> bool" where
  \<comment> \<open>the text starts with the word, upper or lower case\<close>
  "word_at w s \<longleftrightarrow> map lower (take (length w) s) = w"

definition hex_digit :: "char \<Rightarrow> nat option" where
  "hex_digit c = (let n = of_char (lower c) in
     if 48 \<le> n \<and> n \<le> 57 then Some (n - 48) else if 97 \<le> n \<and> n \<le> 102 then Some (n - 87) else None)"

definition is_hex :: "char \<Rightarrow> bool" where "is_hex c \<longleftrightarrow> hex_digit c \<noteq> None"

definition take_point :: "(char \<Rightarrow> bool) \<Rightarrow> cstring \<Rightarrow> cstring \<times> cstring \<times> cstring" where
  \<comment> \<open>digits, digits after a point, the rest\<close>
  "take_point P s =
     (let ds = takeWhile P s; r = dropWhile P s
      in if at_char CHR ''.'' r then (ds, takeWhile P (tl r), dropWhile P (tl r)) else (ds, [], r))"

definition take_exponent :: "char \<Rightarrow> cstring \<Rightarrow> int \<times> cstring" where
  \<comment> \<open>the letter, a sign and digits; nothing is taken when there are no digits\<close>
  "take_exponent x s =
     (if s \<noteq> [] \<and> lower (hd s) = x
      then (let (neg, t) = take_sign (tl s); ds = takeWhile isdigit t; n = int (decimal ds)
            in if ds = [] then (0, s) else (if neg then - n else n, dropWhile isdigit t))
      else (0, s))"

definition scaled :: "bool \<Rightarrow> nat \<Rightarrow> nat \<Rightarrow> int \<Rightarrow> nat \<Rightarrow> 64 word" where
  \<comment> \<open>the double nearest to \<open>m * b ^ e / d\<close>\<close>
  "scaled neg m b e d = f64_pack neg (ieee_round 52 11 (m * b ^ nat e * 2 ^ f64_unit) (d * b ^ nat (- e)))"

definition strtod_end :: "cstring \<Rightarrow> 64 word \<times> cstring" where
  \<comment> \<open>the value and the text from \<^verbatim>\<open>endptr\<close>\<close>
  "strtod_end s =
     (let (neg, t) = take_sign (dropWhile isspace s) in
      if word_at ''infinity'' t then (f64_infinity neg, drop 8 t)
      else if word_at ''inf'' t then (f64_infinity neg, drop 3 t)
      else if word_at ''nan'' t
      then (let r = drop 3 t; r' = dropWhile is_ident_char (tl r); q = f64_qnan OR (if neg then 2 ^ 63 else 0)
            in (q, if at_char CHR ''('' r \<and> at_char CHR '')'' r' then tl r' else r))
      else let (hs, hf, hr) = take_point is_hex (drop 2 t) in
      if word_at ''0x'' t \<and> hs @ hf \<noteq> []
      then (let (e, r) = take_exponent CHR ''p'' hr; m = foldl (\<lambda>n c. 16 * n + the (hex_digit c)) 0 (hs @ hf)
            in (scaled neg m 2 e (16 ^ length hf), r))
      else let (ds, df, dr) = take_point isdigit t in
      if ds @ df \<noteq> []
      then (let (e, r) = take_exponent CHR ''e'' dr in (scaled neg (decimal (ds @ df)) 10 e (10 ^ length df), r))
      else (0, s))"

section \<open>The table\<close>

datatype implementation = bread_builtin_len | bread_builtin_type | bread_builtin_str | bread_builtin_int
  | bread_builtin_float | bread_builtin_double | bread_builtin_input

record BuiltinFunction =
  bname :: cstring
  param_count :: nat
  param_types :: "VarType list option"
  breturn_type :: VarType
  bimplementation :: implementation

definition MAX_BUILTINS :: nat where "MAX_BUILTINS = 64"

definition bread_builtin_lookup :: "BuiltinFunction list \<Rightarrow> cstring option \<Rightarrow> BuiltinFunction option" where
  "bread_builtin_lookup builtins name =
     (case name of None \<Rightarrow> None | Some n \<Rightarrow> List.find (\<lambda>b. bname b = n) builtins)"

definition bread_builtin_register ::
  "BuiltinFunction \<Rightarrow> BuiltinFunction list \<Rightarrow> mem \<Rightarrow> (bool \<times> BuiltinFunction list \<times> mem) outcome" where
  "bread_builtin_register b builtins m =
     (if length builtins \<ge> MAX_BUILTINS
      then bnd (raise_error BREAD_ERROR_RUNTIME_ERROR ''Too many built-in functions'' m) (\<lambda>m1. Done (False, builtins, m1))
      else if \<exists>x \<in> set builtins. bname x = bname b
      then bnd (raise_error BREAD_ERROR_RUNTIME_ERROR
              (snprintf_s 256 (''Built-in function '' @ [CHR 0x27] @ bname b @ [CHR 0x27] @ '' already registered'')) m)
            (\<lambda>m1. Done (False, builtins, m1))
      else Done (True, builtins @ [b\<lparr>param_types := (if param_count b > 0 then param_types b else None)\<rparr>], m))"

definition builtin :: "cstring \<Rightarrow> VarType \<Rightarrow> VarType \<Rightarrow> implementation \<Rightarrow> BuiltinFunction" where
  "builtin n p r f = \<lparr>bname = n, param_count = 1, param_types = Some [p], breturn_type = r, bimplementation = f\<rparr>"

definition builtin_functions :: "BuiltinFunction list" where
  \<comment> \<open>in the order they are registered\<close>
  "builtin_functions =
     [builtin ''len'' TYPE_NIL TYPE_INT bread_builtin_len,
      builtin ''type'' TYPE_NIL TYPE_STRING bread_builtin_type,
      builtin ''str'' TYPE_NIL TYPE_STRING bread_builtin_str,
      builtin ''int'' TYPE_NIL TYPE_INT bread_builtin_int,
      builtin ''float'' TYPE_NIL TYPE_FLOAT bread_builtin_float,
      builtin ''double'' TYPE_NIL TYPE_DOUBLE bread_builtin_double,
      builtin ''input'' TYPE_STRING TYPE_STRING bread_builtin_input]"

fun register_all :: "BuiltinFunction list \<Rightarrow> BuiltinFunction list \<Rightarrow> mem \<Rightarrow> (BuiltinFunction list \<times> mem) outcome" where
  "register_all [] bs m = Done (bs, m)"
| "register_all (f # fs) bs m = bnd (bread_builtin_register f bs m) (\<lambda>(ok, bs1, m1). register_all fs bs1 m1)"

definition bread_builtin_init :: "mem \<Rightarrow> (BuiltinFunction list \<times> mem) outcome" where
  "bread_builtin_init m = register_all builtin_functions [] m"

section \<open>The functions\<close>

record io =
  input_text :: cstring      \<comment> \<open>what is left of the standard input\<close>
  output_text :: cstring     \<comment> \<open>what has been printed\<close>
  heap :: mem

definition io_error :: "BreadErrorType \<Rightarrow> cstring \<Rightarrow> io \<Rightarrow> (val \<times> io) outcome" where
  \<comment> \<open>an error report, then the nil result\<close>
  "io_error t msg w = bnd (raise_error t msg (heap w)) (\<lambda>m. Done (VNil, w\<lparr>heap := m\<rparr>))"

definition io_string :: "cstring \<Rightarrow> io \<Rightarrow> (val \<times> io) outcome" where
  "io_string s w = (let (v, m) = bread_value_set_string (Some s) (heap w) in Done (v, w\<lparr>heap := m\<rparr>))"

definition runtime_io_error :: "cstring \<Rightarrow> io \<Rightarrow> (val \<times> io) outcome" where
  "runtime_io_error = io_error BREAD_ERROR_RUNTIME_ERROR"

definition as_int :: "nat \<Rightarrow> 64 word" where
  \<comment> \<open>a count taken to \<^verbatim>\<open>int\<close>\<close>
  "as_int n = scast (of_nat n :: 32 word)"

definition value_len :: "val \<Rightarrow> io \<Rightarrow> (val \<times> io) outcome" where
  "value_len v w =
     (case v of
        VString r \<Rightarrow> Done (VInt (as_int (bread_string_len (heap w) r)), w)
      | VArray r \<Rightarrow> bnd (bread_array_length r (heap w)) (\<lambda>n. Done (VInt (as_int n), w))
      | VDict r \<Rightarrow> (case r of None \<Rightarrow> Done (VInt 0, w)
          | Some a \<Rightarrow> bnd (dict_at (heap w) a) (\<lambda>d. Done (VInt (as_int (dcount d)), w)))
      | _ \<Rightarrow> runtime_io_error ''len() not supported for this type'' w)"

definition type_word :: "VarType \<Rightarrow> cstring" where
  "type_word t = (case t of TYPE_NIL \<Rightarrow> ''Nil'' | TYPE_BOOL \<Rightarrow> ''Bool'' | TYPE_INT \<Rightarrow> ''Int'' | TYPE_FLOAT \<Rightarrow> ''Float''
     | TYPE_DOUBLE \<Rightarrow> ''Double'' | TYPE_STRING \<Rightarrow> ''String'' | TYPE_ARRAY \<Rightarrow> ''Array'' | TYPE_DICT \<Rightarrow> ''Dict''
     | TYPE_OPTIONAL \<Rightarrow> ''Optional'' | TYPE_STRUCT \<Rightarrow> ''Struct'' | TYPE_CLASS \<Rightarrow> ''Class'')"

definition int_of_f64 :: "64 word \<Rightarrow> 64 word option" where
  \<comment> \<open>\<^verbatim>\<open>(int)d\<close>, undefined when the result does not fit 32 bits\<close>
  "int_of_f64 x = (case f64_to_int x of None \<Rightarrow> None
     | Some i \<Rightarrow> if - (2 ^ 31) \<le> sint i \<and> sint i < 2 ^ 31 then Some i else None)"

definition double_text :: "64 word \<Rightarrow> cstring outcome" where
  \<comment> \<open>the cast comes before the range check\<close>
  "double_text x = (case int_of_f64 x of None \<Rightarrow> Undefined
     | Some i \<Rightarrow> Done (if f64_eq x (f64_of_int i) then show_int (sint i) else format_g 6 x))"

definition value_str :: "val \<Rightarrow> io \<Rightarrow> (val \<times> io) outcome" where
  "value_str v w =
     (case v of
        VNil \<Rightarrow> io_string ''nil'' w
      | VBool b \<Rightarrow> io_string (if b then ''true'' else ''false'') w
      | VInt i \<Rightarrow> io_string (show_int (sint i)) w
      | VFloat x \<Rightarrow> io_string (format_g 6 (f64_of_f32 x)) w
      | VDouble x \<Rightarrow> bnd (double_text x) (\<lambda>s. io_string s w)
      | VString r \<Rightarrow> io_string (bread_string_cstr (heap w) r) w
      | VArray r \<Rightarrow> io_string ''[array]'' w
      | VDict r \<Rightarrow> io_string ''{dict}'' w
      | VOptional r \<Rightarrow> io_string ''optional'' w
      | VStruct r \<Rightarrow> (case r of None \<Rightarrow> io_string ''struct'' w
          | Some a \<Rightarrow> bnd (struct_at (heap w) a) (\<lambda>s. io_string (snprintf_s 256 (type_name s @ ''{}'')) w))
      | VClass r \<Rightarrow> (case r of None \<Rightarrow> io_string ''class'' w
          | Some a \<Rightarrow> bnd (class_at (heap w) a) (\<lambda>c. io_string (snprintf_s 256 (class_name c @ ''{}'')) w)))"

definition cannot_convert :: "cstring \<Rightarrow> cstring \<Rightarrow> io \<Rightarrow> (val \<times> io) outcome" where
  "cannot_convert s t w = runtime_io_error
     (snprintf_s 256 (''Cannot convert string '' @ [CHR 0x27] @ s @ [CHR 0x27] @ '' to '' @ t)) w"

definition value_int :: "val \<Rightarrow> io \<Rightarrow> (val \<times> io) outcome" where
  "value_int v w =
     (case v of
        VInt i \<Rightarrow> Done (VInt i, w)
      | VFloat x \<Rightarrow> (case int_of_f64 (f64_of_f32 x) of None \<Rightarrow> Undefined | Some i \<Rightarrow> Done (VInt i, w))
      | VDouble x \<Rightarrow> (case int_of_f64 x of None \<Rightarrow> Undefined | Some i \<Rightarrow> Done (VInt i, w))
      | VBool b \<Rightarrow> Done (VInt (if b then 1 else 0), w)
      | VString r \<Rightarrow> (let s = bread_string_cstr (heap w) r; (n, rest) = strtol s in
          if rest = [] \<and> - (2 ^ 31) \<le> n \<and> n \<le> 2 ^ 31 - 1 then Done (VInt (word_of_int n), w)
          else cannot_convert s ''int'' w)
      | _ \<Rightarrow> runtime_io_error ''Cannot convert this type to int'' w)"

definition value_float :: "val \<Rightarrow> io \<Rightarrow> (val \<times> io) outcome" where
  "value_float v w =
     (case v of
        VInt i \<Rightarrow> Done (VFloat (f32_of_int i), w)
      | VFloat x \<Rightarrow> Done (VFloat x, w)
      | VDouble x \<Rightarrow> Done (VFloat (f32_of_f64 x), w)
      | VBool b \<Rightarrow> Done (VFloat (if b then f32_of_int 1 else 0), w)
      | VString r \<Rightarrow> (let s = bread_string_cstr (heap w) r; (x, rest) = strtod_end s in
          if rest = [] then Done (VFloat (f32_of_f64 x), w) else cannot_convert s ''float'' w)
      | _ \<Rightarrow> runtime_io_error ''Cannot convert this type to float'' w)"

definition value_double :: "val \<Rightarrow> io \<Rightarrow> (val \<times> io) outcome" where
  "value_double v w =
     (case v of
        VInt i \<Rightarrow> Done (VDouble (f64_of_int i), w)
      | VFloat x \<Rightarrow> Done (VDouble (f64_of_f32 x), w)
      | VDouble x \<Rightarrow> Done (VDouble x, w)
      | VBool b \<Rightarrow> Done (VDouble (if b then f64_of_int 1 else 0), w)
      | VString r \<Rightarrow> (let s = bread_string_cstr (heap w) r; (x, rest) = strtod_end s in
          if rest = [] then Done (VDouble x, w) else cannot_convert s ''double'' w)
      | _ \<Rightarrow> runtime_io_error ''Cannot convert this type to double'' w)"

definition line_end :: "char \<Rightarrow> bool" where "line_end c \<longleftrightarrow> c = CHR 10"

definition fgets :: "nat \<Rightarrow> cstring \<Rightarrow> cstring \<times> cstring" where
  \<comment> \<open>at most \<open>n - 1\<close> characters, up to and with the end of the line; and what is left\<close>
  "fgets n s =
     (let l = length (takeWhile (Not \<circ> line_end) s); k = min (n - 1) (if l < length s then Suc l else l)
      in (take k s, drop k s))"

definition value_input :: "val \<Rightarrow> io \<Rightarrow> (val \<times> io) outcome" where
  "value_input v w =
     (case v of
        VString r \<Rightarrow>
          (let w1 = w\<lparr>output_text := output_text w @ bread_string_cstr (heap w) r\<rparr>;
               (buffer, rest) = fgets 1024 (input_text w);
               line = cstr buffer;
               line' = (if line \<noteq> [] \<and> last line = CHR 10 then butlast line else line)
           in io_string line' (w1\<lparr>input_text := rest\<rparr>))
      | _ \<Rightarrow> io_error BREAD_ERROR_TYPE_MISMATCH ''input() argument must be a string'' w)"

fun run_builtin :: "implementation \<Rightarrow> val list \<Rightarrow> io \<Rightarrow> (val \<times> io) outcome" where
  "run_builtin bread_builtin_len args w =
     (case args of [v] \<Rightarrow> value_len v w | _ \<Rightarrow> runtime_io_error ''len() expects 1 argument'' w)"
| "run_builtin bread_builtin_type args w =
     (case args of [v] \<Rightarrow> io_string (type_word (vtype v)) w | _ \<Rightarrow> runtime_io_error ''type() expects 1 argument'' w)"
| "run_builtin bread_builtin_str args w =
     (case args of [v] \<Rightarrow> value_str v w | _ \<Rightarrow> runtime_io_error ''str() expects 1 argument'' w)"
| "run_builtin bread_builtin_int args w =
     (case args of [v] \<Rightarrow> value_int v w | _ \<Rightarrow> runtime_io_error ''int() expects 1 argument'' w)"
| "run_builtin bread_builtin_float args w =
     (case args of [v] \<Rightarrow> value_float v w | _ \<Rightarrow> runtime_io_error ''float() expects 1 argument'' w)"
| "run_builtin bread_builtin_double args w =
     (case args of [v] \<Rightarrow> value_double v w | _ \<Rightarrow> runtime_io_error ''double() expects 1 argument'' w)"
| "run_builtin bread_builtin_input args w =
     (case args of [v] \<Rightarrow> value_input v w | _ \<Rightarrow> runtime_io_error ''input() expects 1 argument'' w)"

section \<open>The call\<close>

definition argument_fits :: "VarType \<Rightarrow> VarType \<Rightarrow> bool" where
  \<comment> \<open>a parameter of type nil takes anything\<close>
  "argument_fits p a \<longleftrightarrow> p = TYPE_NIL \<or> a = p \<or> (p = TYPE_DOUBLE \<and> (a = TYPE_INT \<or> a = TYPE_FLOAT))"

fun first_misfit :: "nat \<Rightarrow> VarType list \<Rightarrow> val list \<Rightarrow> (nat \<times> VarType \<times> val) option" where
  "first_misfit i (p # ps) (v # vs) =
     (if argument_fits p (vtype v) then first_misfit (Suc i) ps vs else Some (i, p, v))"
| "first_misfit i _ _ = None"

fun type_code :: "VarType \<Rightarrow> nat" where
  \<comment> \<open>the number of an enumerator of \<^verbatim>\<open>VarType\<close>\<close>
  "type_code TYPE_STRING = 0" | "type_code TYPE_INT = 1" | "type_code TYPE_BOOL = 2" | "type_code TYPE_FLOAT = 3"
| "type_code TYPE_DOUBLE = 4" | "type_code TYPE_ARRAY = 5" | "type_code TYPE_DICT = 6" | "type_code TYPE_OPTIONAL = 7"
| "type_code TYPE_STRUCT = 8" | "type_code TYPE_CLASS = 9" | "type_code TYPE_NIL = 10"

definition quoted :: "cstring \<Rightarrow> cstring" where
  "quoted s = [CHR 0x27] @ s @ [CHR 0x27]"

definition bread_builtin_call :: "BuiltinFunction list \<Rightarrow> cstring option \<Rightarrow> val list \<Rightarrow> io \<Rightarrow> (val \<times> io) outcome" where
  "bread_builtin_call builtins name args w =
     (case bread_builtin_lookup builtins name of
        None \<Rightarrow> runtime_io_error (snprintf_s 256 (''Unknown built-in function '' @ quoted (case name of None \<Rightarrow> [] | Some n \<Rightarrow> n))) w
      | Some b \<Rightarrow>
          if param_count b \<noteq> length args
          then runtime_io_error (snprintf_s 256 (''Built-in function '' @ quoted (bname b) @ '' expects '' @
                 show_nat (param_count b) @ '' arguments, got '' @ show_nat (length args))) w
          else (case first_misfit 0 (case param_types b of None \<Rightarrow> [] | Some ts \<Rightarrow> ts) args of
              Some (i, p, v) \<Rightarrow> io_error BREAD_ERROR_TYPE_MISMATCH (snprintf_s 256 (''Built-in function '' @ quoted (bname b) @
                 '' parameter '' @ show_nat i @ '' expects type '' @ show_nat (type_code p) @ '', got '' @ show_nat (type_code (vtype v)))) w
            | None \<Rightarrow> run_builtin (bimplementation b) args w))"

definition bread_builtin_call_out ::
  "BuiltinFunction list \<Rightarrow> cstring option \<Rightarrow> val list \<Rightarrow> val \<Rightarrow> io \<Rightarrow> (val \<times> io) outcome" where
  "bread_builtin_call_out builtins name args out w =
     bnd (bread_builtin_call builtins name args w) (\<lambda>(result, w1).
     bnd (bread_value_copy result out (heap w1)) (\<lambda>(v, m2).
     bnd (bread_value_release result m2) (\<lambda>m3. Done (v, w1\<lparr>heap := m3\<rparr>))))"

section \<open>The table after the start\<close>

lemma builtin_init [simp]: "bread_builtin_init m = Done (builtin_functions, m)"
  by (simp add: bread_builtin_init_def builtin_functions_def builtin_def bread_builtin_register_def MAX_BUILTINS_def)

lemma builtin_shapes:
  "\<forall>b \<in> set builtin_functions. param_count b = 1 \<and> (\<exists>p. param_types b = Some [p])"
  by (simp add: builtin_functions_def builtin_def)

lemma lookup_member: "bread_builtin_lookup bs name = Some b \<Longrightarrow> b \<in> set bs \<and> name = Some (bname b)"
  by (auto simp: bread_builtin_lookup_def find_Some_iff split: option.splits)

section \<open>What a call gives back\<close>

definition gives :: "VarType \<Rightarrow> io \<Rightarrow> (val \<times> io) outcome \<Rightarrow> bool" where
  \<comment> \<open>if the call returns: a value of the type that the caller owns, objects that were there untouched; or
    nil after a type error\<close>
  "gives t w res \<longleftrightarrow> (\<forall>v w'. res = Done (v, w') \<longrightarrow>
     (vtype v = t \<or> (v = VNil \<and> bread_error_get_type (errs (heap w')) = BREAD_ERROR_TYPE_MISMATCH)) \<and>
     (\<forall>R. heap_ok (heap w) R \<longrightarrow> heap_ok (heap w') (add_mset v R)) \<and>
     (\<forall>x. get_obj (heap w) x \<noteq> None \<longrightarrow> get_obj (heap w') x = get_obj (heap w) x))"

named_theorems call_results \<open>what the parts of a built-in function give\<close>

lemma gives_fatal [call_results]: "gives t w (runtime_io_error msg w')"
  by (simp add: gives_def runtime_io_error_def io_error_def raise_fatal)

lemma gives_undefined [call_results]: "gives t w Undefined"
  by (simp add: gives_def)

lemma gives_scalar [call_results]: "vtype v = t \<Longrightarrow> ref_of v = None \<Longrightarrow> gives t w (Done (v, w))"
  by (simp add: gives_def)

lemma noted_type: "bread_error_get_type (errs (noted t msg m)) = t"
  by (simp add: noted_def bread_error_get_type_def bread_error_init_def error_report_def Let_def)

lemma gives_mismatch [call_results]: "gives t w (io_error BREAD_ERROR_TYPE_MISMATCH msg w)"
  by (auto simp: gives_def io_error_def noted_type heap_ok_null)

lemma gives_bnd [call_results]: "(\<And>x. r = Done x \<Longrightarrow> gives t w (f x)) \<Longrightarrow> gives t w (bnd r f)"
  by (cases r) (simp_all add: gives_def)

lemma gives_string [call_results]:
  assumes "heap w' = heap w"
  shows "gives TYPE_STRING w (io_string s w')"
proof -
  obtain a m where al: "bread_memory_alloc (BString \<lparr>sdata = s, interned = False\<rparr>) (heap w) = (a, m)" by fastforce
  then have new: "bread_string_new_len s (heap w) = (Some a, m)" by (simp add: bread_string_new_len_def)
  have "heap_ok m (add_mset (VString (Some a)) R)" if "heap_ok (heap w) R" for R
    by (rule alloc_ok [OF _ al]) (use that in simp_all)
  then show ?thesis using new new_len_keeps [OF new] assms
    by (auto simp: gives_def io_string_def bread_value_set_string_def bread_string_new_def)
qed

lemma gives_len: "gives TYPE_INT w (value_len v w)"
  by (auto simp: value_len_def split: val.split option.split intro!: call_results)

lemma gives_str: "gives TYPE_STRING w (value_str v w)"
  by (auto simp: value_str_def split: val.split option.split intro!: call_results)

lemma gives_int: "gives TYPE_INT w (value_int v w)"
  by (auto simp: value_int_def cannot_convert_def Let_def split: val.split option.split prod.split intro!: call_results)

lemma gives_float: "gives TYPE_FLOAT w (value_float v w)"
  by (auto simp: value_float_def cannot_convert_def Let_def split: val.split prod.split intro!: call_results)

lemma gives_double: "gives TYPE_DOUBLE w (value_double v w)"
  by (auto simp: value_double_def cannot_convert_def Let_def split: val.split prod.split intro!: call_results)

lemma gives_input: "gives TYPE_STRING w (value_input v w)"
  by (auto simp: value_input_def Let_def split: val.split prod.split intro!: call_results)

lemma gives_builtin:
  "b \<in> set builtin_functions \<Longrightarrow> gives (breturn_type b) w (run_builtin (bimplementation b) args w)"
  by (auto simp: builtin_functions_def builtin_def split: list.split
      intro!: call_results gives_len gives_str gives_int gives_float gives_double gives_input)

text \<open>
  C5: a call of a built-in function that returns gives a value of the type declared in the
  table, or nil after a type error has been recorded; the caller owns the value, the
  reference-counting discipline is kept, and no object that was there is touched.
\<close>
theorem builtin_call_correct:
  assumes "heap_ok (heap w) R" and "bread_builtin_lookup builtin_functions name = Some b"
    and "bread_builtin_call builtin_functions name args w = Done (v, w')"
  shows "(vtype v = breturn_type b \<or> (v = VNil \<and> bread_error_get_type (errs (heap w')) = BREAD_ERROR_TYPE_MISMATCH)) \<and>
    heap_ok (heap w') (add_mset v R) \<and>
    (\<forall>x. get_obj (heap w) x \<noteq> None \<longrightarrow> get_obj (heap w') x = get_obj (heap w) x)"
proof -
  have "b \<in> set builtin_functions" using lookup_member assms(2) by blast
  then have "gives (breturn_type b) w (bread_builtin_call builtin_functions name args w)"
    by (auto simp: bread_builtin_call_def assms(2) split: option.split intro!: call_results gives_builtin)
  with assms show ?thesis by (simp add: gives_def)
qed

section \<open>Numbers to text and back\<close>

lemma show_nat_digits: "list_all isdigit (show_nat n) \<and> show_nat n \<noteq> []"
proof (induction n rule: show_nat.induct)
  case (1 n)
  have d: "isdigit (char_of (48 + k :: nat))" if "k < 10" for k :: nat
    using that by (simp add: isdigit_def of_char_of)
  show ?case by (subst (1 2) show_nat.simps) (use 1 d in \<open>auto simp: list_all_iff\<close>)
qed

lemma decimal_append: "decimal (ds @ [c]) = 10 * decimal ds + (of_char c - 48)"
  by (simp add: decimal_def)

lemma decimal_show: "decimal (show_nat n) = n"
proof (induction n rule: show_nat.induct)
  case (1 n)
  show ?case
  proof (cases "n < 10")
    case True
    then show ?thesis by (subst show_nat.simps) (simp add: decimal_def of_char_of)
  next
    case False
    have "decimal (show_nat n) = decimal (show_nat (n div 10) @ [char_of (48 + n mod 10)])"
      by (subst show_nat.simps) (simp add: False)
    also have "\<dots> = 10 * (n div 10) + n mod 10" using 1 False by (simp add: decimal_append of_char_of)
    finally show ?thesis by simp
  qed
qed

lemma digit_not: "isdigit c \<Longrightarrow> \<not> isspace c \<and> c \<noteq> CHR ''-'' \<and> c \<noteq> CHR ''+''"
  by (auto simp: isdigit_def isspace_def)

lemma all_digits:
  assumes "list_all isdigit s" "s \<noteq> []"
  shows "dropWhile isspace s = s" "\<not> at_char CHR ''-'' s" "\<not> at_char CHR ''+'' s"
    "takeWhile isdigit s = s" "dropWhile isdigit s = []"
  using assms by (cases s; auto simp: list_all_iff dest: digit_not)+

lemma strtol_show:
  assumes "- (2 ^ 63) \<le> i" "i < 2 ^ 63"
  shows "strtol (show_int i) = (i, [])"
proof (cases "i < 0")
  case True
  have "\<not> isspace CHR ''-''" by (simp add: isspace_def)
  then show ?thesis using True assms show_nat_digits [of "nat (- i)"]
    by (simp add: strtol_def show_int_def take_sign_def decimal_show all_digits)
next
  case False
  then show ?thesis using assms show_nat_digits [of "nat i"]
    by (simp add: strtol_def show_int_def take_sign_def decimal_show all_digits)
qed

lemma show_int_no_nul: "cstr (show_int i) = show_int i"
proof -
  have "c \<noteq> NUL" if "isdigit c" for c using that by (auto simp: isdigit_def NUL_def)
  then have "\<forall>c \<in> set (show_nat n). c \<noteq> NUL" for n using show_nat_digits [of n] by (auto simp: list_all_iff)
  then show ?thesis by (auto simp: cstr_def show_int_def NUL_def takeWhile_eq_all_conv)
qed

text \<open>
  C6: \<open>int\<close> reads back what \<open>str\<close> writes: an integer of 32 bits survives the way through its text.
\<close>
theorem builtin_int_str_roundtrip:
  assumes "- (2 ^ 31) \<le> sint i" "sint i < 2 ^ 31"
  shows "\<exists>r w1. bread_builtin_call builtin_functions (Some ''str'') [VInt i] w = Done (VString r, w1) \<and>
    bread_builtin_call builtin_functions (Some ''int'') [VString r] w1 = Done (VInt i, w1)"
proof -
  let ?s = "show_int (sint i)"
  obtain a m where al: "bread_memory_alloc (BString \<lparr>sdata = ?s, interned = False\<rparr>) (heap w) = (a, m)" by fastforce
  let ?w = "w\<lparr>heap := m\<rparr>"
  have str: "bread_builtin_call builtin_functions (Some ''str'') [VInt i] w = Done (VString (Some a), ?w)"
    using al by (simp add: bread_builtin_call_def bread_builtin_lookup_def builtin_functions_def builtin_def argument_fits_def
        value_str_def io_string_def bread_value_set_string_def bread_string_new_def bread_string_new_len_def)
  have "bread_string_cstr m (Some a) = ?s"
    using alloc_string_data [OF al] by (simp add: bread_string_cstr_def show_int_no_nul)
  moreover have "strtol ?s = (sint i, [])" using assms by (intro strtol_show) auto
  ultimately have "bread_builtin_call builtin_functions (Some ''int'') [VString (Some a)] ?w = Done (VInt i, ?w)"
    using assms by (simp add: bread_builtin_call_def bread_builtin_lookup_def builtin_functions_def builtin_def argument_fits_def
        value_int_def Let_def)
  with str show ?thesis by blast
qed

lemma str_of_large_double: "value_str (VDouble (f64_of_int (10 ^ 10))) w = Undefined"
proof -
  have "f64_to_int (f64_of_int (10 ^ 10)) = Some (10 ^ 10)"
    by (rule f64_int_roundtrip) simp
  then show ?thesis by (simp add: value_str_def double_text_def int_of_f64_def)
qed

lemma int_of_empty_text: "value_int (VString None) w = Done (VInt 0, w)"
  by (simp add: value_int_def bread_string_cstr_def string_data_def cstr_def strtol_def take_sign_def)

theorem builtin_call_correct_witness:
  "\<exists>v w'. bread_builtin_call builtin_functions (Some ''type'') [VString (Some 0)] \<lparr>input_text = [], output_text = [], heap = sample_string\<rparr> =
       Done (v, w') \<and> vtype v = TYPE_STRING \<and> heap_ok (heap w') {#v, VString (Some 0)#}"
proof -
  let ?w = "\<lparr>input_text = [], output_text = [], heap = sample_string\<rparr>"
  have l: "bread_builtin_lookup builtin_functions (Some ''type'') = Some (builtin ''type'' TYPE_NIL TYPE_STRING bread_builtin_type)"
    by (simp add: bread_builtin_lookup_def builtin_functions_def builtin_def)
  obtain v m where "bread_value_set_string (Some ''String'') sample_string = (v, m)" by fastforce
  then have run: "bread_builtin_call builtin_functions (Some ''type'') [VString (Some 0)] ?w = Done (v, ?w\<lparr>heap := m\<rparr>)" "vtype v = TYPE_STRING"
    by (auto simp: bread_builtin_call_def l builtin_def argument_fits_def io_string_def type_word_def bread_value_set_string_def
        split: prod.splits)
  from builtin_call_correct [OF _ l run(1), of "{#VString (Some 0)#}"] sample_string_ok run show ?thesis by auto
qed

theorem builtin_int_str_roundtrip_witness:
  "\<exists>r w1. bread_builtin_call builtin_functions (Some ''str'') [VInt (- 42)] \<lparr>input_text = [], output_text = [], heap = bread_memory_init\<rparr> =
       Done (VString r, w1) \<and> bread_builtin_call builtin_functions (Some ''int'') [VString r] w1 = Done (VInt (- 42), w1)"
  using builtin_int_str_roundtrip [of "- 42" "\<lparr>input_text = [], output_text = [], heap = bread_memory_init\<rparr>"] by simp

end
