(* ===== verification/BreadSemantics.thy ===== *)
theory BreadSemantics
  imports BreadAST BreadBuiltins
begin

text \<open>
  The semantic analysis of \<^verbatim>\<open>src/src/codegen/codegen_semantic.c\<close>: what the compiler knows of a
  program (\<open>Cg\<close>: declared variables, functions, structs and classes), the inference of types, and
  the checks of expressions, statements and programs.
  A pass ends in a verdict: it accepts, with its result; it rejects (the return value 0 or NULL), as a
  rule after an error report; or it never returns. The last is the fate of a walk up a class
  hierarchy that has a cycle, and of a read through a NULL pointer. Errors carry their message;
  their position in the source is left out. Memory is always found. A tree is returned with the
  tags the pass writes into it; a rejected tree is not used again and is dropped.
\<close>

section \<open>What the compiler knows\<close>

record CgVar =
  cv_name :: cstring
  cv_type :: VarType
  cv_desc :: TypeDescriptor
  cv_const :: bool
  cv_depth :: nat         \<comment> \<open>the scope the variable belongs to, kept in \<^verbatim>\<open>is_initialized\<close>\<close>

type_synonym typed_names = "(cstring \<times> TypeDescriptor option) list"

record CgStruct =
  cs_name :: cstring
  cs_fields :: typed_names

record CgFunction =
  cf_name :: cstring
  cf_params :: "(cstring \<times> TypeDescriptor option) list"
  cf_required :: nat
  cf_return_type :: VarType
  cf_return_desc :: "TypeDescriptor option"

record CgClass =
  cc_name :: cstring
  cc_parent :: "cstring option"
  cc_fields :: typed_names
  cc_methods :: "func_decl list"
  cc_constructor :: "func_decl option"

record Cg =
  had_error :: bool
  cg_errors :: error_state        \<comment> \<open>the state of \<^verbatim>\<open>src/runtime/error.c\<close>\<close>
  scope_depth :: nat
  cg_vars :: "CgVar list"         \<comment> \<open>\<^verbatim>\<open>global_scope->vars\<close>: newest first\<close>
  cg_structs :: "CgStruct list"
  cg_functions :: "CgFunction list"
  cg_classes :: "CgClass list"
  cg_builtins :: "BuiltinFunction list"  \<comment> \<open>the table of \<^verbatim>\<open>src/runtime/builtins.c\<close>\<close>

datatype 'a verdict = Accept 'a Cg | Reject Cg | Never

fun vbind :: "'a verdict \<Rightarrow> ('a \<Rightarrow> Cg \<Rightarrow> 'b verdict) \<Rightarrow> 'b verdict" where
  "vbind (Accept x cg) f = f x cg"
| "vbind (Reject cg) f = Reject cg"
| "vbind Never f = Never"

definition both :: "'a verdict \<Rightarrow> (Cg \<Rightarrow> 'b verdict) \<Rightarrow> ('a \<Rightarrow> 'b \<Rightarrow> Cg \<Rightarrow> 'c verdict) \<Rightarrow> 'c verdict" where
  \<comment> \<open>two calls of which the second is made even when the first rejects\<close>
  "both l r f = (case l of
       Accept x c1 \<Rightarrow> vbind (r c1) (\<lambda>y c2. f x y c2)
     | Reject c1 \<Rightarrow> vbind (r c1) (\<lambda>_ c2. Reject c2)
     | Never \<Rightarrow> Never)"

definition out_of :: "'a option \<Rightarrow> Cg \<Rightarrow> 'a verdict" where
  \<comment> \<open>a pointer that is returned: NULL rejects\<close>
  "out_of x cg = (case x of None \<Rightarrow> Reject cg | Some t \<Rightarrow> Accept t cg)"

section \<open>Loops\<close>

fun each :: "('a \<Rightarrow> Cg \<Rightarrow> 'b verdict) \<Rightarrow> 'a list \<Rightarrow> Cg \<Rightarrow> 'b list verdict" where
  \<comment> \<open>a loop that ends at the first element that does not pass\<close>
  "each f [] cg = Accept [] cg"
| "each f (x # xs) cg = vbind (f x cg) (\<lambda>y c1. vbind (each f xs c1) (\<lambda>ys c2. Accept (y # ys) c2))"

lemma each_cong [fundef_cong]:
  "xs = ys \<Longrightarrow> cg = cg' \<Longrightarrow> (\<And>x c. x \<in> set ys \<Longrightarrow> f x c = g x c) \<Longrightarrow> each f xs cg = each g ys cg'"
proof (induction xs arbitrary: ys cg cg')
  case (Cons x xs)
  then have "each f xs c = each g xs c" for c by auto
  with Cons.prems show ?case by auto
qed simp

definition every :: "('a \<Rightarrow> Cg \<Rightarrow> unit verdict) \<Rightarrow> 'a list \<Rightarrow> Cg \<Rightarrow> unit verdict" where
  \<comment> \<open>such a loop for the checks alone\<close>
  "every f xs cg = vbind (each f xs cg) (\<lambda>_ c1. Accept () c1)"

lemma every_cong [fundef_cong]:
  "xs = ys \<Longrightarrow> cg = cg' \<Longrightarrow> (\<And>x c. x \<in> set ys \<Longrightarrow> f x c = g x c) \<Longrightarrow> every f xs cg = every g ys cg'"
  unfolding every_def by (metis each_cong)

fun chain :: "('a \<Rightarrow> Cg \<Rightarrow> 'b verdict) \<Rightarrow> ('s \<Rightarrow> 'b \<Rightarrow> Cg \<Rightarrow> 's verdict) \<Rightarrow> 's \<Rightarrow> 'a list \<Rightarrow> Cg \<Rightarrow> 's verdict" where
  \<comment> \<open>a loop that keeps what it has found so far\<close>
  "chain f g s [] cg = Accept s cg"
| "chain f g s (x # xs) cg = vbind (f x cg) (\<lambda>y c1. vbind (g s y c1) (\<lambda>t c2. chain f g t xs c2))"

lemma chain_cong [fundef_cong]:
  "xs = ys \<Longrightarrow> s = t \<Longrightarrow> cg = cg' \<Longrightarrow> g = h \<Longrightarrow> (\<And>x c. x \<in> set ys \<Longrightarrow> f x c = f' x c) \<Longrightarrow>
   chain f g s xs cg = chain f' h t ys cg'"
proof (induction xs arbitrary: ys s t cg cg')
  case (Cons x xs)
  then have "chain f g s xs = chain f' h s xs" for s by (intro ext) auto
  with Cons.prems show ?case by auto
qed simp

section \<open>Errors\<close>

definition report :: "cstring \<Rightarrow> Cg \<Rightarrow> Cg" where
  \<comment> \<open>a compile error never ends the process\<close>
  "report text cg =
     (case bread_error_set BREAD_ERROR_COMPILE_ERROR text (cg_errors cg) of
        Done st \<Rightarrow> cg\<lparr>cg_errors := st, had_error := True\<rparr> | _ \<Rightarrow> cg)"

definition cg_error :: "cstring \<Rightarrow> cstring option \<Rightarrow> Cg \<Rightarrow> Cg" where
  "cg_error msg name = report (case name of None \<Rightarrow> msg | Some n \<Rightarrow> snprintf_s 512 (msg @ '' '' @ quoted n))"

definition cg_error_at :: "cstring \<Rightarrow> cstring option \<Rightarrow> Cg \<Rightarrow> Cg" where
  "cg_error_at msg name = report (snprintf_s 512 (case name of None \<Rightarrow> msg | Some n \<Rightarrow> msg @ '' '' @ quoted n))"

definition cg_type_error :: "cstring \<Rightarrow> TypeDescriptor \<Rightarrow> TypeDescriptor \<Rightarrow> Cg \<Rightarrow> Cg" where
  "cg_type_error msg expected actual = report (snprintf_s 512 (msg @ '': expected '' @
     type_descriptor_to_string expected 256 @ '', got '' @ type_descriptor_to_string actual 256))"

definition cg_type_error_at :: "cstring \<Rightarrow> TypeDescriptor \<Rightarrow> TypeDescriptor \<Rightarrow> Cg \<Rightarrow> Cg" where
  "cg_type_error_at = cg_type_error"

section \<open>Scopes and declarations\<close>

definition cg_enter_scope :: "Cg \<Rightarrow> Cg" where
  "cg_enter_scope cg = cg\<lparr>scope_depth := scope_depth cg + 1\<rparr>"

definition cg_leave_scope :: "Cg \<Rightarrow> Cg" where
  "cg_leave_scope cg =
     cg\<lparr>cg_vars := filter (\<lambda>v. \<not> cv_depth v \<ge> scope_depth cg) (cg_vars cg),
        scope_depth := (if scope_depth cg > 0 then scope_depth cg - 1 else 0)\<rparr>"

definition cg_declare_var :: "cstring \<Rightarrow> TypeDescriptor option \<Rightarrow> bool \<Rightarrow> Cg \<Rightarrow> unit verdict" where
  "cg_declare_var name desc const cg =
     (if \<exists>v \<in> set (cg_vars cg). cv_depth v = scope_depth cg \<and> cv_name v = name
      then Reject (cg_error ''Variable already declared'' (Some name) cg)
      else (case type_descriptor_clone desc of
          None \<Rightarrow> Reject cg
        | Some t \<Rightarrow> Accept () (cg\<lparr>cg_vars := \<lparr>cv_name = name, cv_type = base_type t, cv_desc = t, cv_const = const,
              cv_depth = scope_depth cg\<rparr> # cg_vars cg\<rparr>)))"

definition cg_find_var :: "cstring \<Rightarrow> Cg \<Rightarrow> CgVar option" where
  "cg_find_var name cg = List.find (\<lambda>v. cv_name v = name) (cg_vars cg)"

definition cg_find_var_in_scope :: "cstring \<Rightarrow> Cg \<Rightarrow> CgVar option" where
  "cg_find_var_in_scope name cg =
     List.find (\<lambda>v. cv_name v = name \<and> cv_depth v \<le> scope_depth cg) (cg_vars cg)"

definition cg_find_struct :: "cstring \<Rightarrow> Cg \<Rightarrow> CgStruct option" where
  "cg_find_struct name cg = List.find (\<lambda>s. cs_name s = name) (cg_structs cg)"

definition cg_find_function :: "cstring \<Rightarrow> Cg \<Rightarrow> CgFunction option" where
  "cg_find_function name cg = List.find (\<lambda>f. cf_name f = name) (cg_functions cg)"

definition cg_find_class :: "cstring \<Rightarrow> Cg \<Rightarrow> CgClass option" where
  "cg_find_class name cg = List.find (\<lambda>c. cc_name c = name) (cg_classes cg)"

definition cg_declare_struct_from_ast :: "cstring \<Rightarrow> typed_names \<Rightarrow> Cg \<Rightarrow> unit verdict" where
  "cg_declare_struct_from_ast name fs cg =
     (if cg_find_struct name cg \<noteq> None then Reject (cg_error_at ''Struct already declared'' (Some name) cg)
      else Accept () (cg\<lparr>cg_structs := \<lparr>cs_name = name, cs_fields = fs\<rparr> # cg_structs cg\<rparr>))"

definition leading_required :: "func_sig \<Rightarrow> nat" where
  \<comment> \<open>the parameters before the first one with a default\<close>
  "leading_required sig = length (takeWhile (\<lambda>(n, t, d). d = Null) (func_params sig))"

definition cg_declare_function_from_ast :: "func_sig \<Rightarrow> Cg \<Rightarrow> unit verdict" where
  "cg_declare_function_from_ast sig cg =
     (if \<exists>f \<in> set (cg_functions cg). cf_name f = func_name sig
      then Reject (cg_error_at ''Function already declared'' (Some (func_name sig)) cg)
      else Accept () (cg\<lparr>cg_functions :=
        \<lparr>cf_name = func_name sig, cf_params = map (\<lambda>(n, t, d). (n, type_descriptor_clone t)) (func_params sig),
         cf_required = leading_required sig, cf_return_type = return_type sig,
         cf_return_desc = type_descriptor_clone (return_type_desc sig)\<rparr> # cg_functions cg\<rparr>))"

definition cg_declare_class_from_ast ::
  "cstring \<Rightarrow> cstring option \<Rightarrow> typed_names \<Rightarrow> func_decl list \<Rightarrow> func_decl option \<Rightarrow> Cg \<Rightarrow> unit verdict" where
  "cg_declare_class_from_ast name parent fs ms ctor cg =
     (if cg_find_class name cg \<noteq> None then Reject (cg_error_at ''Class already declared'' (Some name) cg)
      else Accept () (cg\<lparr>cg_classes :=
        \<lparr>cc_name = name, cc_parent = parent, cc_fields = map (\<lambda>(n, t). (n, type_descriptor_clone t)) fs,
         cc_methods = ms, cc_constructor = ctor\<rparr> # cg_classes cg\<rparr>))"

section \<open>Class hierarchies\<close>

definition parent_of :: "Cg \<Rightarrow> CgClass \<Rightarrow> CgClass option" where
  "parent_of cg c = (case cc_parent c of None \<Rightarrow> None | Some p \<Rightarrow> cg_find_class p cg)"

fun class_walk :: "nat \<Rightarrow> (CgClass \<Rightarrow> 'a option option) \<Rightarrow> Cg \<Rightarrow> CgClass \<Rightarrow> 'a option option" where
  \<comment> \<open>the loop \<^verbatim>\<open>while (current)\<close> up the parents: what \<open>f\<close> finds at the first class where it finds
    something, \<open>Some None\<close> past the last one; \<open>None\<close> when \<open>f\<close> does not return or the walk has not
    ended after the given number of classes (more than there are: it never ends)\<close>
  "class_walk 0 f cg c = None"
| "class_walk (Suc n) f cg c =
     (case f c of
        None \<Rightarrow> None
      | Some (Some x) \<Rightarrow> Some (Some x)
      | Some None \<Rightarrow> (case parent_of cg c of None \<Rightarrow> Some None | Some p \<Rightarrow> class_walk n f cg p))"

definition walk :: "(CgClass \<Rightarrow> 'a option option) \<Rightarrow> Cg \<Rightarrow> CgClass \<Rightarrow> 'a option option" where
  "walk f cg c = class_walk (Suc (length (cg_classes cg))) f cg c"

definition method_name :: "func_decl \<Rightarrow> cstring" where
  "method_name f = func_name (func_sig f)"

definition cg_find_class_method_decl :: "Cg \<Rightarrow> CgClass \<Rightarrow> cstring \<Rightarrow> func_decl option option" where
  "cg_find_class_method_decl cg c name = walk (\<lambda>k. Some (List.find (\<lambda>m. method_name m = name) (cc_methods k))) cg c"

definition class_desc :: "CgClass \<Rightarrow> TypeDescriptor" where
  \<comment> \<open>\<^verbatim>\<open>type_descriptor_create_class\<close> of a declared class\<close>
  "class_desc c = type_descriptor_create_class (cc_name c) (cc_parent c) (cc_fields c)"

definition cg_common_superclass_desc :: "Cg \<Rightarrow> TypeDescriptor \<Rightarrow> TypeDescriptor \<Rightarrow> TypeDescriptor option option" where
  "cg_common_superclass_desc cg a b =
     (case (nominal_name a, nominal_name b) of
        (Some an, Some bn) \<Rightarrow>
          (case (cg_find_class an cg, cg_find_class bn cg) of
             (Some ac, Some bc) \<Rightarrow>
               walk (\<lambda>k. map_option (map_option (\<lambda>_. class_desc k))
                 (walk (\<lambda>l. Some (if cc_name k = cc_name l then Some () else None)) cg bc)) cg ac
           | _ \<Rightarrow> Some None)
      | _ \<Rightarrow> Some None)"

fun collect_fields :: "nat \<Rightarrow> Cg \<Rightarrow> CgClass \<Rightarrow> cstring list option" where
  "collect_fields 0 cg c = None"
| "collect_fields (Suc n) cg c =
     (case parent_of cg c of
        None \<Rightarrow> Some (map fst (cc_fields c))
      | Some p \<Rightarrow> map_option (\<lambda>fs. fs @ map fst (cc_fields c)) (collect_fields n cg p))"

definition cg_collect_all_fields :: "Cg \<Rightarrow> CgClass \<Rightarrow> cstring list option" where
  \<comment> \<open>the fields of the parents first; \<open>None\<close> when the count of the fields never ends\<close>
  "cg_collect_all_fields cg c = collect_fields (Suc (length (cg_classes cg))) cg c"

definition add_new :: "cstring list \<Rightarrow> cstring list \<Rightarrow> cstring list" where
  "add_new seen names = foldl (\<lambda>ms m. if m \<in> set ms then ms else ms @ [m]) seen names"

fun collect_methods :: "nat \<Rightarrow> Cg \<Rightarrow> CgClass \<Rightarrow> cstring list \<Rightarrow> cstring list option" where
  "collect_methods 0 cg c ms = None"
| "collect_methods (Suc n) cg c ms =
     (case parent_of cg c of
        None \<Rightarrow> Some ms
      | Some p \<Rightarrow> collect_methods n cg p (add_new ms (map method_name (cc_methods p))))"

definition cg_collect_all_methods :: "Cg \<Rightarrow> CgClass \<Rightarrow> cstring list option" where
  \<comment> \<open>the own methods first, then those of the parents that are not there yet\<close>
  "cg_collect_all_methods cg c = collect_methods (Suc (length (cg_classes cg))) cg c (map method_name (cc_methods c))"

section \<open>The type of an operator\<close>

definition numeric :: "VarType \<Rightarrow> bool" where
  "numeric t \<longleftrightarrow> t = TYPE_INT \<or> t = TYPE_DOUBLE \<or> t = TYPE_FLOAT"

definition primitive :: "VarType \<Rightarrow> Cg \<Rightarrow> TypeDescriptor verdict" where
  "primitive t = out_of (type_descriptor_create_primitive t)"

definition arithmetic_ops :: "char set" where
  "arithmetic_ops = {CHR ''+'', CHR ''-'', CHR ''*'', CHR ''/'', CHR ''%''}"

definition comparison_ops :: "char set" where
  "comparison_ops = {CHR ''<'', CHR ''>'', CHR ''l'', CHR ''g'', CHR ''='', CHR ''!''}"

definition logical_ops :: "char set" where
  "logical_ops = {CHR ''&'', CHR ''|''}"

definition binary_type :: "char \<Rightarrow> TypeDescriptor \<Rightarrow> TypeDescriptor \<Rightarrow> Cg \<Rightarrow> TypeDescriptor verdict" where
  "binary_type op l r cg =
     (if op \<in> arithmetic_ops
      then (if op = CHR ''+'' \<and> base_type l = TYPE_STRING \<and> base_type r = TYPE_STRING then Accept l cg
            else if \<not> type_descriptor_equals (Some l) (Some r)
            then Reject (cg_type_error_at ''Type mismatch in binary operation - no implicit coercion allowed'' l r cg)
            else if \<not> numeric (base_type l)
            then Reject (cg_error ''Arithmetic operations require numeric types'' None cg)
            else if base_type l = TYPE_INT then Accept l cg
            else primitive TYPE_DOUBLE cg)
      else if op \<in> comparison_ops then primitive TYPE_BOOL cg
      else if op \<in> logical_ops
      then (if base_type l \<noteq> TYPE_BOOL \<or> base_type r \<noteq> TYPE_BOOL
            then Reject (cg_error ''Logical operations require Bool operands'' None cg)
            else primitive TYPE_BOOL cg)
      else Reject cg)"

definition unary_type :: "char \<Rightarrow> TypeDescriptor \<Rightarrow> Cg \<Rightarrow> TypeDescriptor verdict" where
  "unary_type op t cg =
     (if op = CHR ''-''
      then (if \<not> numeric (base_type t) then Reject (cg_error ''Numeric negation requires numeric type'' None cg)
            else if base_type t = TYPE_INT then Accept t cg
            else primitive TYPE_DOUBLE cg)
      else if op = CHR ''!''
      then (if base_type t \<noteq> TYPE_BOOL then Reject (cg_error ''Logical negation requires Bool type'' None cg)
            else primitive TYPE_BOOL cg)
      else Reject cg)"

section \<open>The types of calls, elements and members\<close>

definition call_type :: "cstring \<Rightarrow> Cg \<Rightarrow> TypeDescriptor verdict" where
  \<comment> \<open>built-in functions come before declared functions, and those before classes\<close>
  "call_type f cg =
     (if f = ''range'' then out_of (type_descriptor_create_array (type_descriptor_create_primitive TYPE_INT)) cg
      else case bread_builtin_lookup (cg_builtins cg) (Some f) of
        Some b \<Rightarrow> primitive (breturn_type b) cg
      | None \<Rightarrow> (case cg_find_function f cg of
          Some g \<Rightarrow> (case cf_return_desc g of Some t \<Rightarrow> out_of (type_descriptor_clone (Some t)) cg
                    | None \<Rightarrow> primitive (cf_return_type g) cg)
        | None \<Rightarrow> (case cg_find_class f cg of
            Some c \<Rightarrow> Accept (class_desc c) cg
          | None \<Rightarrow> Reject (cg_error_at ''Unknown function or class'' (Some f) cg))))"

definition method_type :: "TypeDescriptor \<Rightarrow> cstring \<Rightarrow> Cg \<Rightarrow> TypeDescriptor verdict" where
  \<comment> \<open>a type or method that is not known is left to the runtime: Nil\<close>
  "method_type t m cg =
     (case nominal_name t of
        None \<Rightarrow> primitive TYPE_NIL cg
      | Some n \<Rightarrow> (case cg_find_class n cg of
          None \<Rightarrow> primitive TYPE_NIL cg
        | Some c \<Rightarrow>
            if m = ''init'' then primitive TYPE_NIL cg
            else (case cg_find_class_method_decl cg c m of
                None \<Rightarrow> Never
              | Some None \<Rightarrow> primitive TYPE_NIL cg
              | Some (Some f) \<Rightarrow> (case return_type_desc (func_sig f) of
                    Some r \<Rightarrow> out_of (type_descriptor_clone (Some r)) cg
                  | None \<Rightarrow> primitive (return_type (func_sig f)) cg))))"

definition index_type :: "TypeDescriptor \<Rightarrow> TypeDescriptor \<Rightarrow> Cg \<Rightarrow> TypeDescriptor verdict" where
  "index_type target i cg =
     (case target of
        TArray e \<Rightarrow>
          if \<not> type_descriptor_compatible (Some i) (Some (TPrim TYPE_INT))
          then Reject (cg_type_error_at ''Array index must be Int'' (TPrim TYPE_INT) i cg)
          else out_of (type_descriptor_clone (Some e)) cg
      | TDict k v \<Rightarrow>
          if \<not> type_descriptor_compatible (Some i) (Some k)
          then Reject (cg_type_error_at ''Dictionary index type mismatch'' k i cg)
          else out_of (type_descriptor_clone (Some v)) cg
      | _ \<Rightarrow>
          if base_type target = TYPE_STRING
          then (if \<not> type_descriptor_compatible (Some i) (Some (TPrim TYPE_INT))
                then Reject (cg_type_error_at ''String index must be Int'' (TPrim TYPE_INT) i cg)
                else primitive TYPE_STRING cg)
          else Reject (cg_error_at ''Indexing is only valid on Array, Dict, or String'' None cg))"

definition field_of :: "cstring \<Rightarrow> typed_names \<Rightarrow> TypeDescriptor option option" where
  "field_of f fs = map_option snd (List.find (\<lambda>x. fst x = f) fs)"

definition field_desc :: "TypeDescriptor option \<Rightarrow> Cg \<Rightarrow> TypeDescriptor verdict" where
  "field_desc t cg = (case type_descriptor_clone t of Some d \<Rightarrow> Accept d cg | None \<Rightarrow> primitive TYPE_NIL cg)"

definition member_type :: "TypeDescriptor \<Rightarrow> cstring \<Rightarrow> Cg \<Rightarrow> TypeDescriptor verdict" where
  "member_type target m cg =
     (if m = ''length'' then primitive TYPE_INT cg
      else case target of
        TDict k v \<Rightarrow>
          (case type_descriptor_clone (Some v) of
             None \<Rightarrow> Reject (cg_error_at ''Dictionary member access requires a known value type'' None cg)
           | Some t \<Rightarrow> Accept t cg)
      | TStruct n _ \<Rightarrow>
          (case cg_find_struct n cg of
             None \<Rightarrow> primitive TYPE_NIL cg
           | Some s \<Rightarrow> (case field_of m (cs_fields s) of None \<Rightarrow> primitive TYPE_NIL cg | Some t \<Rightarrow> field_desc t cg))
      | TClass n _ _ \<Rightarrow>
          (case cg_find_class n cg of
             None \<Rightarrow> Reject (cg_error_at ''Unknown class field'' (Some m) cg)
           | Some c \<Rightarrow> (case walk (\<lambda>k. Some (field_of m (cc_fields k))) cg c of
               None \<Rightarrow> Never
             | Some None \<Rightarrow> Reject (cg_error_at ''Unknown class field'' (Some m) cg)
             | Some (Some t) \<Rightarrow> field_desc t cg))
      | _ \<Rightarrow> Reject (cg_error_at ''Member access is only valid on Dict, Struct, or Class'' None cg))"

definition var_desc :: "cstring \<Rightarrow> Cg \<Rightarrow> TypeDescriptor verdict" where
  "var_desc x cg = (case cg_find_var_in_scope x cg of
     None \<Rightarrow> Reject cg | Some v \<Rightarrow> out_of (type_descriptor_clone (Some (cv_desc v))) cg)"

definition next_element :: "TypeDescriptor \<Rightarrow> TypeDescriptor \<Rightarrow> Cg \<Rightarrow> TypeDescriptor verdict" where
  \<comment> \<open>the element type so far and the type of the next element\<close>
  "next_element e t cg =
     (if type_descriptor_equals (Some e) (Some t) then Accept e cg
      else case cg_common_superclass_desc cg e t of
        None \<Rightarrow> Never
      | Some (Some c) \<Rightarrow> Accept c cg
      | Some None \<Rightarrow> Reject (cg_type_error_at ''Array literal elements must have same type'' e t cg))"

definition next_entry :: "TypeDescriptor \<Rightarrow> TypeDescriptor \<Rightarrow> unit \<Rightarrow> TypeDescriptor \<times> TypeDescriptor \<Rightarrow> Cg \<Rightarrow> unit verdict" where
  \<comment> \<open>the types of the first entry and those of another\<close>
  "next_entry k v u kv cg =
     (if \<not> type_descriptor_equals (Some k) (Some (fst kv)) \<or> \<not> type_descriptor_equals (Some v) (Some (snd kv))
      then Reject (cg_error ''Dict literal entries must have consistent key/value types'' None cg)
      else Accept () cg)"

section \<open>The inference of types\<close>

function cg_infer_expr_type_desc_simple :: "ASTExpr \<Rightarrow> Cg \<Rightarrow> TypeDescriptor verdict" where
  "cg_infer_expr_type_desc_simple Null cg = Reject cg"
| "cg_infer_expr_type_desc_simple (Expr nt k) cg =
     (case k of
        EInt i \<Rightarrow> primitive TYPE_INT cg
      | EDouble d \<Rightarrow> primitive TYPE_DOUBLE cg
      | EBool b \<Rightarrow> primitive TYPE_BOOL cg
      | EString s \<Rightarrow> primitive TYPE_STRING cg
      | EStringLiteral s \<Rightarrow> primitive TYPE_STRING cg
      | ENil \<Rightarrow> primitive TYPE_NIL cg
      | EVar x \<Rightarrow> var_desc x cg
      | ECall f args \<Rightarrow> call_type f cg
      | EMethodCall t m args c \<Rightarrow> vbind (cg_infer_expr_type_desc_simple t cg) (\<lambda>tt. method_type tt m)
      | EBinary op l r \<Rightarrow>
          both (cg_infer_expr_type_desc_simple l cg) (\<lambda>c1. cg_infer_expr_type_desc_simple r c1) (binary_type op)
      | EUnary op e \<Rightarrow> vbind (cg_infer_expr_type_desc_simple e cg) (unary_type op)
      | EArrayLiteral es _ \<Rightarrow>
          if es = [] then out_of (type_descriptor_create_array (type_descriptor_create_primitive TYPE_NIL)) cg
          else vbind (cg_infer_expr_type_desc_simple (hd es) cg) (\<lambda>t c1.
               vbind (chain cg_infer_expr_type_desc_simple next_element t (tl es) c1) (\<lambda>u c2. Accept (TArray u) c2))
      | EDict kvs \<Rightarrow>
          if kvs = [] then out_of (type_descriptor_create_dict (type_descriptor_create_primitive TYPE_NIL)
            (type_descriptor_create_primitive TYPE_NIL)) cg
          else both (cg_infer_expr_type_desc_simple (fst (hd kvs)) cg) (\<lambda>c1. cg_infer_expr_type_desc_simple (snd (hd kvs)) c1)
            (\<lambda>kt vt c2. vbind (chain (\<lambda>kv c. both (cg_infer_expr_type_desc_simple (fst kv) c)
                 (\<lambda>c1. cg_infer_expr_type_desc_simple (snd kv) c1) (\<lambda>k' v' c3. Accept (k', v') c3))
               (next_entry kt vt) () (tl kvs) c2) (\<lambda>_ c3. Accept (TDict kt vt) c3))
      | EIndex t i \<Rightarrow>
          vbind (cg_infer_expr_type_desc_simple t cg) (\<lambda>tt c1.
          vbind (cg_infer_expr_type_desc_simple i c1) (\<lambda>it. index_type tt it))
      | EMember t m c \<Rightarrow> vbind (cg_infer_expr_type_desc_simple t cg) (\<lambda>tt. member_type tt m)
      | EStructLiteral s fs \<Rightarrow>
          vbind (each (\<lambda>fe c. vbind (cg_infer_expr_type_desc_simple (snd fe) c) (\<lambda>t c1. Accept (fst fe, Some t) c1)) fs cg)
            (\<lambda>ts c1. Accept (type_descriptor_create_struct s ts) c1)
      | EClassLiteral s fs \<Rightarrow>
          vbind (each (\<lambda>fe c. vbind (cg_infer_expr_type_desc_simple (snd fe) c) (\<lambda>t c1. Accept (fst fe, Some t) c1)) fs cg)
            (\<lambda>ts c1. Accept (type_descriptor_create_class s None ts) c1)
      | _ \<Rightarrow> Reject cg)"
  by pat_completeness auto
termination
  by (relation "measure (size \<circ> fst)")
    (auto simp: less_Suc_eq_le neq_Nil_conv dest: tree_sizes list.set_sel(2) intro: le_SucI le_trans)

definition cg_check_condition_type_desc_simple :: "ASTExpr \<Rightarrow> Cg \<Rightarrow> unit verdict" where
  "cg_check_condition_type_desc_simple e cg =
     vbind (cg_infer_expr_type_desc_simple e cg) (\<lambda>t c1.
       if base_type t \<noteq> TYPE_BOOL then Reject (cg_error ''Condition must be Bool type'' None c1) else Accept () c1)"

section \<open>The inference of the base type\<close>

text \<open>
  \<^verbatim>\<open>cg_infer_expr_type_simple\<close> gives a \<^verbatim>\<open>VarType\<close> and goes on after an error, with Nil.
\<close>

definition nil_after :: "Cg \<Rightarrow> VarType \<times> Cg" where
  "nil_after cg = (TYPE_NIL, cg)"

definition simple_binary :: "char \<Rightarrow> VarType \<Rightarrow> VarType \<Rightarrow> Cg \<Rightarrow> VarType \<times> Cg" where
  "simple_binary op l r cg =
     (if op \<in> arithmetic_ops
      then (if op = CHR ''+'' \<and> l = TYPE_STRING \<and> r = TYPE_STRING then (TYPE_STRING, cg)
            else if l \<noteq> r then nil_after (cg_error ''Type mismatch in binary operation'' None cg)
            else if \<not> numeric l then nil_after (cg_error ''Arithmetic operations require numeric types'' None cg)
            else if l = TYPE_FLOAT \<or> l = TYPE_DOUBLE then (TYPE_DOUBLE, cg)
            else (TYPE_INT, cg))
      else if op \<in> comparison_ops then (TYPE_BOOL, cg)
      else if op \<in> logical_ops
      then (if l \<noteq> TYPE_BOOL \<or> r \<noteq> TYPE_BOOL then nil_after (cg_error ''Logical operations require Bool operands'' None cg)
            else (TYPE_BOOL, cg))
      else nil_after cg)"

definition simple_unary :: "char \<Rightarrow> VarType \<Rightarrow> Cg \<Rightarrow> VarType \<times> Cg" where
  "simple_unary op t cg =
     (if op = CHR ''-''
      then (if \<not> numeric t then nil_after (cg_error ''Numeric negation requires numeric type'' None cg)
            else (if t = TYPE_FLOAT \<or> t = TYPE_DOUBLE then TYPE_DOUBLE else TYPE_INT, cg))
      else if op = CHR ''!''
      then (if t \<noteq> TYPE_BOOL then nil_after (cg_error ''Logical negation requires Bool type'' None cg) else (TYPE_BOOL, cg))
      else nil_after cg)"

definition simple_call :: "cstring \<Rightarrow> Cg \<Rightarrow> VarType" where
  \<comment> \<open>here a class comes before a function, and that before a built-in function\<close>
  "simple_call f cg =
     (if cg_find_class f cg \<noteq> None then TYPE_CLASS
      else case cg_find_function f cg of Some g \<Rightarrow> cf_return_type g
      | None \<Rightarrow> (case bread_builtin_lookup (cg_builtins cg) (Some f) of Some b \<Rightarrow> breturn_type b | None \<Rightarrow> TYPE_NIL))"

definition known_desc :: "ASTExpr \<Rightarrow> TypeDescriptor option" where
  "known_desc e = (case e of Null \<Rightarrow> None | Expr nt k \<Rightarrow> if is_known (tag nt) then type_desc (tag nt) else None)"

definition element_base :: "TypeDescriptor option \<Rightarrow> VarType" where
  "element_base t = (case t of Some (TArray e) \<Rightarrow> base_type e | Some (TDict k v) \<Rightarrow> base_type v | _ \<Rightarrow> TYPE_NIL)"

fun named_desc :: "ASTExpr \<Rightarrow> Cg \<Rightarrow> TypeDescriptor option" where
  \<comment> \<open>of a variable\<close>
  "named_desc (Expr nt (EVar x)) cg = map_option cv_desc (cg_find_var_in_scope x cg)"
| "named_desc e cg = None"

fun literal_element :: "ASTExpr \<Rightarrow> ASTExpr option" where
  \<comment> \<open>the first element or value of a literal\<close>
  "literal_element (Expr nt (EArrayLiteral (e # es) t)) = Some e"
| "literal_element (Expr nt (EDict ((x, y) # kvs))) = Some y"
| "literal_element e = None"

lemma literal_element_size [termination_simp]: "literal_element e = Some x \<Longrightarrow> size x < size e"
  by (induction e rule: literal_element.induct) auto

definition simple_index :: "VarType \<Rightarrow> TypeDescriptor option \<Rightarrow> Cg \<Rightarrow> VarType \<times> Cg" where
  \<comment> \<open>from the base type of the target and the descriptor found for it\<close>
  "simple_index t desc cg =
     (if element_base desc \<noteq> TYPE_NIL then (element_base desc, cg)
      else if t = TYPE_ARRAY \<or> t = TYPE_DICT then (TYPE_INT, cg)
      else nil_after (cg_error_at ''Cannot index this type (only arrays, dictionaries, and strings can be indexed)'' None cg))"

function (sequential)
  cg_infer_expr_type_simple :: "ASTExpr \<Rightarrow> Cg \<Rightarrow> VarType \<times> Cg" and
  same_elements :: "VarType \<Rightarrow> ASTExpr list \<Rightarrow> Cg \<Rightarrow> VarType \<times> Cg" and
  same_entries :: "VarType \<Rightarrow> VarType \<Rightarrow> (ASTExpr \<times> ASTExpr) list \<Rightarrow> Cg \<Rightarrow> VarType \<times> Cg"
where
  "cg_infer_expr_type_simple Null cg = (TYPE_NIL, cg)"
| "cg_infer_expr_type_simple (Expr nt k) cg =
     (case k of
        EInt i \<Rightarrow> (TYPE_INT, cg)
      | EDouble d \<Rightarrow> (TYPE_DOUBLE, cg)
      | EBool b \<Rightarrow> (TYPE_BOOL, cg)
      | EString s \<Rightarrow> (TYPE_STRING, cg)
      | EStringLiteral s \<Rightarrow> (TYPE_STRING, cg)
      | ENil \<Rightarrow> (TYPE_NIL, cg)
      | EVar x \<Rightarrow> (case cg_find_var_in_scope x cg of None \<Rightarrow> (TYPE_NIL, cg) | Some v \<Rightarrow> (cv_type v, cg))
      | EBinary op l r \<Rightarrow>
          (case cg_infer_expr_type_simple l cg of (lt, c1) \<Rightarrow>
           case cg_infer_expr_type_simple r c1 of (rt, c2) \<Rightarrow> simple_binary op lt rt c2)
      | EMethodCall t m args c \<Rightarrow> (case cg_infer_expr_type_simple t cg of (tt, c1) \<Rightarrow> (TYPE_NIL, c1))
      | EUnary op e \<Rightarrow> (case cg_infer_expr_type_simple e cg of (t, c1) \<Rightarrow> simple_unary op t c1)
      | EArrayLiteral [] _ \<Rightarrow> (TYPE_ARRAY, cg)
      | EArrayLiteral (e # es) _ \<Rightarrow> (case cg_infer_expr_type_simple e cg of (t, c1) \<Rightarrow> same_elements t es c1)
      | EDict [] \<Rightarrow> (TYPE_DICT, cg)
      | EDict ((x, y) # kvs) \<Rightarrow>
          (case cg_infer_expr_type_simple x cg of (kt, c1) \<Rightarrow>
           case cg_infer_expr_type_simple y c1 of (vt, c2) \<Rightarrow> same_entries kt vt kvs c2)
      | EIndex t i \<Rightarrow>
          (case cg_infer_expr_type_simple t cg of (tt, c1) \<Rightarrow>
             if tt = TYPE_STRING then (TYPE_STRING, c1)
             else (case known_desc t of
                 Some d \<Rightarrow> simple_index tt (Some d) c1
               | None \<Rightarrow> (case literal_element t of
                   Some e \<Rightarrow> cg_infer_expr_type_simple e c1
                 | None \<Rightarrow> simple_index tt (named_desc t c1) c1)))
      | EMember t m c \<Rightarrow> (TYPE_INT, cg)
      | ECall f args \<Rightarrow> (simple_call f cg, cg)
      | EStructLiteral s fs \<Rightarrow> (TYPE_STRUCT, cg)
      | EClassLiteral s fs \<Rightarrow> (TYPE_CLASS, cg)
      | _ \<Rightarrow> (TYPE_NIL, cg))"
| "same_elements t [] cg = (TYPE_ARRAY, cg)"
| "same_elements t (e # es) cg =
     (case cg_infer_expr_type_simple e cg of (u, c1) \<Rightarrow>
        if u \<noteq> t then nil_after (cg_error ''Array literal elements must have same type'' None c1)
        else same_elements t es c1)"
| "same_entries kt vt [] cg = (TYPE_DICT, cg)"
| "same_entries kt vt ((x, y) # kvs) cg =
     (case cg_infer_expr_type_simple x cg of (k, c1) \<Rightarrow>
      case cg_infer_expr_type_simple y c1 of (v, c2) \<Rightarrow>
        if k \<noteq> kt \<or> v \<noteq> vt
        then nil_after (cg_error ''Dict literal entries must have consistent key and value types'' None c2)
        else same_entries kt vt kvs c2)"
  by pat_completeness auto
termination
  by (relation "measure (\<lambda>x. case x of Inl (e, c) \<Rightarrow> size e | Inr (Inl (t, es, c)) \<Rightarrow> size_list size es
      | Inr (Inr (k, v, kvs, c)) \<Rightarrow> size_list (size_prod size size) kvs)")
    (auto dest!: literal_element_size)

definition cg_check_condition_type_simple :: "ASTExpr \<Rightarrow> Cg \<Rightarrow> bool \<times> Cg" where
  "cg_check_condition_type_simple e cg =
     (case cg_infer_expr_type_simple e cg of (t, c1) \<Rightarrow>
        if t \<noteq> TYPE_BOOL then (False, cg_error ''Condition must be Bool type'' None c1) else (True, c1))"

section \<open>The inference inside a function\<close>

text \<open>
  \<^verbatim>\<open>cg_infer_expr_type_desc_with_function\<close> is used while code is generated. The scopes of the
  function are lists of names with their descriptors, the innermost scope first; a descriptor may be NULL.
\<close>

record function_context =
  fc_scopes :: "typed_names list"
  fc_params :: typed_names

definition cg_scope_find_var :: "typed_names list \<Rightarrow> cstring \<Rightarrow> TypeDescriptor option option" where
  "cg_scope_find_var scopes x = field_of x (concat scopes)"

definition context_var :: "function_context option \<Rightarrow> cstring \<Rightarrow> Cg \<Rightarrow> TypeDescriptor verdict" where
  \<comment> \<open>a variable of the scopes with a descriptor, then a parameter, then a global variable\<close>
  "context_var fn x cg =
     (let local = (case fn of None \<Rightarrow> None | Some c \<Rightarrow> cg_scope_find_var (fc_scopes c) x);
          param = (case fn of None \<Rightarrow> None | Some c \<Rightarrow> field_of x (fc_params c))
      in case local of
           Some (Some t) \<Rightarrow> out_of (type_descriptor_clone (Some t)) cg
         | _ \<Rightarrow> (case param of
             Some (Some t) \<Rightarrow> out_of (type_descriptor_clone (Some t)) cg
           | _ \<Rightarrow> (case local of
               Some None \<Rightarrow> Reject cg
             | _ \<Rightarrow> (case cg_find_var x cg of None \<Rightarrow> Reject cg
                 | Some v \<Rightarrow> out_of (type_descriptor_clone (Some (cv_desc v))) cg))))"

definition context_call :: "cstring \<Rightarrow> Cg \<Rightarrow> TypeDescriptor verdict" where
  "context_call f cg =
     (if f = ''range'' then out_of (type_descriptor_create_array (type_descriptor_create_primitive TYPE_INT)) cg
      else case bread_builtin_lookup (cg_builtins cg) (Some f) of
        Some b \<Rightarrow> primitive (breturn_type b) cg
      | None \<Rightarrow> (case cg_find_function f cg of
          Some g \<Rightarrow> (case cf_return_desc g of Some t \<Rightarrow> out_of (type_descriptor_clone (Some t)) cg
                    | None \<Rightarrow> primitive (cf_return_type g) cg)
        | None \<Rightarrow> Reject cg))"

definition context_method :: "TypeDescriptor \<Rightarrow> cstring \<Rightarrow> Cg \<Rightarrow> TypeDescriptor verdict" where
  "context_method t m cg =
     (if base_type t = TYPE_ARRAY \<and> m = ''append'' \<or> base_type t = TYPE_DICT \<and> m = ''set'' \<or> base_type t = TYPE_CLASS
      then primitive TYPE_NIL cg else Reject cg)"

definition context_binary :: "char \<Rightarrow> TypeDescriptor \<Rightarrow> TypeDescriptor \<Rightarrow> Cg \<Rightarrow> TypeDescriptor verdict" where
  "context_binary op l r cg =
     (let lt = base_type l; rt = base_type r in
      if op \<in> arithmetic_ops
      then (if lt = TYPE_INT \<and> rt = TYPE_INT then primitive TYPE_INT cg
            else if numeric lt \<and> numeric rt then primitive TYPE_DOUBLE cg
            else if op = CHR ''+'' \<and> lt = TYPE_STRING \<and> rt = TYPE_STRING then primitive TYPE_STRING cg
            else Reject cg)
      else if op \<in> {CHR ''<'', CHR ''>'', CHR ''L'', CHR ''G'', CHR ''E'', CHR ''N''} then primitive TYPE_BOOL cg
      else if op \<in> logical_ops \<and> lt = TYPE_BOOL \<and> rt = TYPE_BOOL then primitive TYPE_BOOL cg
      else Reject cg)"

definition context_unary :: "char \<Rightarrow> TypeDescriptor \<Rightarrow> Cg \<Rightarrow> TypeDescriptor verdict" where
  "context_unary op t cg =
     (if op = CHR ''-'' \<and> (base_type t = TYPE_INT \<or> base_type t = TYPE_DOUBLE) then out_of (type_descriptor_clone (Some t)) cg
      else if op = CHR ''!'' \<and> base_type t = TYPE_BOOL then primitive TYPE_BOOL cg
      else Reject cg)"

fun cg_infer_expr_type_desc_with_function :: "function_context option \<Rightarrow> ASTExpr \<Rightarrow> Cg \<Rightarrow> TypeDescriptor verdict" where
  "cg_infer_expr_type_desc_with_function fn (Expr nt (EVar x)) cg = context_var fn x cg"
| "cg_infer_expr_type_desc_with_function fn (Expr nt (ECall f args)) cg = context_call f cg"
| "cg_infer_expr_type_desc_with_function fn (Expr nt (EMethodCall t m args c)) cg =
     vbind (cg_infer_expr_type_desc_with_function fn t cg) (\<lambda>tt. context_method tt m)"
| "cg_infer_expr_type_desc_with_function fn (Expr nt (EBinary op l r)) cg =
     both (cg_infer_expr_type_desc_with_function fn l cg) (\<lambda>c1. cg_infer_expr_type_desc_with_function fn r c1)
       (context_binary op)"
| "cg_infer_expr_type_desc_with_function fn (Expr nt (EUnary op e)) cg =
     vbind (cg_infer_expr_type_desc_with_function fn e cg) (context_unary op)"
| "cg_infer_expr_type_desc_with_function fn e cg = cg_infer_expr_type_desc_simple e cg"

section \<open>Expressions\<close>

fun analyzed :: "ast_node \<Rightarrow> ASTExpr list" where
  \<comment> \<open>the operands \<^verbatim>\<open>cg_analyze_expr\<close> enters, in its order; it does not know \<^verbatim>\<open>AST_EXPR_ARRAY\<close>\<close>
  "analyzed (EArray es) = []"
| "analyzed k = children k"

fun pairs_of :: "'a list \<Rightarrow> ('a \<times> 'a) list" where
  "pairs_of (x # y # es) = (x, y) # pairs_of es"
| "pairs_of _ = []"

fun with_operands :: "ast_node \<Rightarrow> ASTExpr list \<Rightarrow> ast_node" where
  \<comment> \<open>the node with the operands that have been analysed\<close>
  "with_operands (EBinary op l r) es = EBinary op (es ! 0) (es ! 1)"
| "with_operands (EUnary op e) es = EUnary op (es ! 0)"
| "with_operands (ECall f args) es = ECall f es"
| "with_operands (EDict kvs) es = EDict (pairs_of es)"
| "with_operands (EIndex t i) es = EIndex (es ! 0) (es ! 1)"
| "with_operands (EMember t m c) es = EMember (es ! 0) m c"
| "with_operands (EMethodCall t m args c) es = EMethodCall (es ! 0) m (tl es) c"
| "with_operands (EArrayLiteral xs t) es = EArrayLiteral es t"
| "with_operands (EStructLiteral s fs) es = EStructLiteral s (zip (map fst fs) es)"
| "with_operands (EClassLiteral s fs) es = EClassLiteral s (zip (map fst fs) es)"
| "with_operands k es = k"

definition argument_count :: "nat \<Rightarrow> nat \<Rightarrow> nat \<Rightarrow> cstring \<Rightarrow> cstring \<Rightarrow> Cg \<Rightarrow> unit verdict" where
  \<comment> \<open>at least \<open>lo\<close> and at most \<open>hi\<close> arguments\<close>
  "argument_count lo hi n what f cg =
     (if n < lo \<or> n > hi
      then Reject (cg_error_at (snprintf_s 256 (what @ '' expects '' @ show_nat lo @ '' to '' @ show_nat hi @
             '' argument(s), got '' @ show_nat n)) (Some f) cg)
      else Accept () cg)"

definition check_call :: "cstring \<Rightarrow> nat \<Rightarrow> Cg \<Rightarrow> unit verdict" where
  "check_call f n cg =
     (if f = ''range''
      then (if n < 1 \<or> n > 3
            then Reject (cg_error_at (''Built-in function '' @ quoted ''range'' @ '' expects 1 to 3 arguments'') (Some f) cg)
            else Accept () cg)
      else case bread_builtin_lookup (cg_builtins cg) (Some f) of
        Some b \<Rightarrow>
          if param_count b \<noteq> n
          then Reject (cg_error_at (snprintf_s 256 (''Built-in function expects '' @ show_nat (param_count b) @
                 '' argument(s), got '' @ show_nat n)) (Some f) cg)
          else Accept () cg
      | None \<Rightarrow> (case cg_find_function f cg of
          Some g \<Rightarrow> argument_count (cf_required g) (length (cf_params g)) n ''Function'' f cg
        | None \<Rightarrow> (case cg_find_class f cg of
            Some c \<Rightarrow> (case cc_constructor c of
                None \<Rightarrow> Reject (cg_error_at ''Class has no constructor'' (Some f) cg)
              | Some ctor \<Rightarrow> argument_count (leading_required (func_sig ctor)) (length (func_params (func_sig ctor))) n
                    ''Constructor'' f cg)
          | None \<Rightarrow> Reject (cg_error_at ''Undefined function or class'' (Some f) cg))))"

definition check_node :: "ast_node \<Rightarrow> Cg \<Rightarrow> unit verdict" where
  \<comment> \<open>what is checked before the operands\<close>
  "check_node k cg =
     (case k of
        EVar x \<Rightarrow> (case cg_find_var_in_scope x cg of
            None \<Rightarrow> Reject (cg_error ''Undefined variable'' (Some x) cg) | Some v \<Rightarrow> Accept () cg)
      | ECall f args \<Rightarrow> check_call f (length args) cg
      | _ \<Rightarrow> Accept () cg)"

fun expr_kind :: "ast_node \<Rightarrow> nat" where
  \<comment> \<open>the number of an enumerator of \<^verbatim>\<open>ASTExprKind\<close>\<close>
  "expr_kind ENil = 0" | "expr_kind (EBool _) = 1" | "expr_kind (EInt _) = 2" | "expr_kind (EDouble _) = 3"
| "expr_kind (EString _) = 4" | "expr_kind (EVar _) = 5" | "expr_kind ESelf = 6" | "expr_kind ESuper = 7"
| "expr_kind (EBinary _ _ _) = 8" | "expr_kind (EUnary _ _) = 9" | "expr_kind (ECall _ _) = 10"
| "expr_kind (EArray _) = 11" | "expr_kind (EDict _) = 12" | "expr_kind (EIndex _ _) = 13"
| "expr_kind (EMember _ _ _) = 14" | "expr_kind (EMethodCall _ _ _ _) = 15" | "expr_kind (EStringLiteral _) = 16"
| "expr_kind (EArrayLiteral _ _) = 17" | "expr_kind (EStructLiteral _ _) = 18" | "expr_kind (EClassLiteral _ _) = 19"

definition tag_with :: "TypeDescriptor \<Rightarrow> ast_note \<Rightarrow> ast_note" where
  "tag_with t nt = nt\<lparr>tag := \<lparr>is_known = True, tag_type = base_type t, type_desc = Some t\<rparr>\<rparr>"

definition infer_and_tag :: "ast_note \<Rightarrow> ast_node \<Rightarrow> Cg \<Rightarrow> ASTExpr verdict" where
  \<comment> \<open>no further report when there has been one\<close>
  "infer_and_tag nt k cg =
     (case cg_infer_expr_type_desc_simple (Expr nt k) cg of
        Accept t c1 \<Rightarrow> Accept (Expr (tag_with t nt) k) c1
      | Reject c1 \<Rightarrow> Reject (if had_error c1 then c1
          else cg_error (''Could not infer expression type (expr kind '' @ show_nat (expr_kind k) @ '')'') None c1)
      | Never \<Rightarrow> Never)"

lemma analyzed_size: "x \<in> set (analyzed k) \<Longrightarrow> size x < size k"
proof -
  assume "x \<in> set (analyzed k)"
  then have "x \<in> set (children k)" by (cases k) auto
  then show ?thesis by (rule children_size)
qed

function cg_analyze_expr :: "ASTExpr \<Rightarrow> Cg \<Rightarrow> ASTExpr verdict" where
  "cg_analyze_expr Null cg = Accept Null cg"
| "cg_analyze_expr (Expr nt k) cg =
     vbind (check_node k cg) (\<lambda>_ c1.
     vbind (each cg_analyze_expr (analyzed k) c1) (\<lambda>es c2. infer_and_tag nt (with_operands k es) c2))"
  by pat_completeness auto
termination
  by (relation "measure (size \<circ> fst)") (auto dest: analyzed_size)

section \<open>Returns\<close>

function (sequential)
  cg_stmt_guarantees_return :: "ASTStmt \<Rightarrow> bool" and
  list_guarantees_return :: "ASTStmt list \<Rightarrow> bool"
where
  "cg_stmt_guarantees_return (Stmt h k) =
     (case k of
        SReturn e \<Rightarrow> True
      | SIf e t f \<Rightarrow> f \<noteq> None \<and> list_guarantees_return (stmts_of t) \<and> list_guarantees_return (stmts_of f)
      | _ \<Rightarrow> False)"
| "list_guarantees_return [] = False"
| "list_guarantees_return (s # ss) = (cg_stmt_guarantees_return s \<or> list_guarantees_return ss)"
  by pat_completeness auto
termination
  by (relation "measure (\<lambda>x. case x of Inl s \<Rightarrow> size s | Inr ss \<Rightarrow> size_list size ss)") (auto intro!: stmts_of_bound)

definition cg_stmt_list_guarantees_return :: "ASTStmt list option \<Rightarrow> bool" where
  "cg_stmt_list_guarantees_return b = list_guarantees_return (stmts_of b)"

definition cg_check_return_stmt :: "func_sig \<Rightarrow> ASTExpr \<Rightarrow> Cg \<Rightarrow> unit verdict" where
  \<comment> \<open>of the expression of a return statement, which has been analysed\<close>
  "cg_check_return_stmt sig e cg =
     (if e \<noteq> Null
      then (case (known_desc e, return_type_desc sig) of
          (Some t, Some expected) \<Rightarrow>
            if \<not> type_descriptor_compatible (Some t) (Some expected)
            then Reject (cg_type_error ''Return type mismatch'' expected t cg) else Accept () cg
        | _ \<Rightarrow> Accept () cg)
      else if return_type sig \<noteq> TYPE_NIL then Reject (cg_error ''Missing return value'' None cg)
      else Accept () cg)"

function cg_check_returns_in_stmt :: "func_sig \<Rightarrow> ASTStmt \<Rightarrow> Cg \<Rightarrow> unit verdict" where
  "cg_check_returns_in_stmt sig (Stmt h k) cg =
     (case k of
        SReturn e \<Rightarrow> cg_check_return_stmt sig e cg
      | SIf e t f \<Rightarrow>
          every (cg_check_returns_in_stmt sig) (stmts_of t @ stmts_of f) cg \<comment> \<open>one loop after the other\<close>
      | SWhile e b \<Rightarrow> every (cg_check_returns_in_stmt sig) (stmts_of b) cg
      | SFor x e b \<Rightarrow> every (cg_check_returns_in_stmt sig) (stmts_of b) cg
      | SForIn x e b \<Rightarrow> every (cg_check_returns_in_stmt sig) (stmts_of b) cg
      | _ \<Rightarrow> Accept () cg)"
  by pat_completeness auto
termination
  by (relation "measure (\<lambda>(sig, s, cg). size s)") (auto dest!: stmt_in_size)

section \<open>Statements\<close>

definition fits :: "cstring \<Rightarrow> ASTExpr \<Rightarrow> TypeDescriptor \<Rightarrow> Cg \<Rightarrow> unit verdict" where
  \<comment> \<open>the tag of an analysed expression, where it has one, is compatible with the type\<close>
  "fits msg e expected cg =
     (case known_desc e of
        Some t \<Rightarrow> if \<not> type_descriptor_compatible (Some t) (Some expected)
          then Reject (cg_type_error msg expected t cg) else Accept () cg
      | None \<Rightarrow> Accept () cg)"

definition resolve_type :: "TypeDescriptor \<Rightarrow> Cg \<Rightarrow> TypeDescriptor" where
  \<comment> \<open>the parser makes a struct type of every name; the name of a class stands for the class\<close>
  "resolve_type t cg = (case t of
     TStruct n fs \<Rightarrow> (case cg_find_class n cg of Some c \<Rightarrow> class_desc c | None \<Rightarrow> t) | _ \<Rightarrow> t)"

definition analyze_decl :: "cstring \<Rightarrow> TypeDescriptor option \<Rightarrow> ASTExpr \<Rightarrow> bool \<Rightarrow> Cg \<Rightarrow> TypeDescriptor verdict" where
  \<comment> \<open>the rest of a declaration, once its expression has been analysed: the type it is given\<close>
  "analyze_decl x td e const cg =
     (case td of
        None \<Rightarrow> Reject (cg_error_at ''Type must be explicitly defined'' (Some x) cg)
      | Some d \<Rightarrow> (let t = resolve_type d cg in
          vbind (cg_declare_var x (Some t) const cg) (\<lambda>_ c1.
          vbind (fits ''Type mismatch in variable initialization'' e t c1) (\<lambda>_ c2. Accept t c2))))"

definition assignable :: "cstring \<Rightarrow> Cg \<Rightarrow> CgVar verdict" where
  "assignable x cg =
     (case cg_find_var_in_scope x cg of
        None \<Rightarrow> Reject (cg_error_at ''Undefined variable'' (Some x) cg)
      | Some v \<Rightarrow> if cv_const v then Reject (cg_error_at ''Cannot assign to const variable'' (Some x) cg)
          else Accept v cg)"

definition analyze_assign :: "cstring \<Rightarrow> ASTExpr \<Rightarrow> Cg \<Rightarrow> ASTExpr verdict" where
  \<comment> \<open>the tag of the value is read without a test for NULL\<close>
  "analyze_assign x e cg =
     vbind (assignable x cg) (\<lambda>v c1. vbind (cg_analyze_expr e c1) (\<lambda>e' c2.
       if e' = Null then Never
       else vbind (fits ''Type mismatch in assignment'' e' (cv_desc v) c2) (\<lambda>_ c3. Accept e' c3)))"

definition analyze_condition :: "ASTExpr \<Rightarrow> Cg \<Rightarrow> ASTExpr verdict" where
  "analyze_condition e cg =
     vbind (cg_analyze_expr e cg) (\<lambda>e' c1.
     vbind (cg_check_condition_type_desc_simple e' c1) (\<lambda>_ c2. Accept e' c2))"

fun element_desc :: "TypeDescriptor \<Rightarrow> TypeDescriptor option" where
  \<comment> \<open>a loop over a dictionary runs over its keys\<close>
  "element_desc (TArray e) = type_descriptor_clone (Some e)"
| "element_desc (TDict k v) = type_descriptor_clone (Some k)"
| "element_desc _ = None"

definition iterated :: "ASTExpr \<Rightarrow> Cg \<Rightarrow> TypeDescriptor verdict" where
  "iterated e cg =
     (let unknown = (\<lambda>c. Reject (cg_error_at
            (''Cannot infer element type for '' @ quoted ''for-in'' @ '' (expected Array or Dict with known element/key type)'') None c))
      in case cg_infer_expr_type_desc_simple e cg of
           Accept t c1 \<Rightarrow> (case element_desc t of None \<Rightarrow> unknown c1 | Some d \<Rightarrow> Accept d c1)
         | Reject c1 \<Rightarrow> unknown c1
         | Never \<Rightarrow> Never)"

function cg_analyze_stmt :: "ASTStmt \<Rightarrow> Cg \<Rightarrow> ASTStmt verdict" where
  "cg_analyze_stmt (Stmt h k) cg =
     (case k of
        SVarDecl x t td e const \<Rightarrow>
          vbind (cg_analyze_expr e cg) (\<lambda>e' c1. vbind (analyze_decl x td e' const c1) (\<lambda>d c2.
            Accept (Stmt h (SVarDecl x t (Some d) e' const)) c2))
      | SVarAssign x e op \<Rightarrow> vbind (analyze_assign x e cg) (\<lambda>e' c1. Accept (Stmt h (SVarAssign x e' op)) c1)
      | SIndexAssign t i e op \<Rightarrow>
          vbind (cg_analyze_expr t cg) (\<lambda>t' c1. vbind (cg_analyze_expr i c1) (\<lambda>i' c2. vbind (cg_analyze_expr e c2) (\<lambda>e' c3.
            Accept (Stmt h (SIndexAssign t' i' e' op)) c3)))
      | SMemberAssign t m e op \<Rightarrow>
          vbind (cg_analyze_expr t cg) (\<lambda>t' c1. vbind (cg_analyze_expr e c1) (\<lambda>e' c2.
            Accept (Stmt h (SMemberAssign t' m e' op)) c2))
      | SPrint e \<Rightarrow> vbind (cg_analyze_expr e cg) (\<lambda>e' c1. Accept (Stmt h (SPrint e')) c1)
      | SExpr e \<Rightarrow> vbind (cg_analyze_expr e cg) (\<lambda>e' c1. Accept (Stmt h (SExpr e')) c1)
      | SIf e t f \<Rightarrow>
          vbind (analyze_condition e cg) (\<lambda>e' c1.
          vbind (each cg_analyze_stmt (stmts_of t) (cg_enter_scope c1)) (\<lambda>t' c2.
            if f = None then Accept (Stmt h (SIf e' (branch t t') f)) (cg_leave_scope c2)
            else vbind (each cg_analyze_stmt (stmts_of f) (cg_enter_scope (cg_leave_scope c2))) (\<lambda>f' c3.
              Accept (Stmt h (SIf e' (branch t t') (branch f f'))) (cg_leave_scope c3))))
      | SWhile e b \<Rightarrow>
          vbind (analyze_condition e cg) (\<lambda>e' c1.
          vbind (each cg_analyze_stmt (stmts_of b) (cg_enter_scope c1)) (\<lambda>b' c2.
            Accept (Stmt h (SWhile e' (branch b b'))) (cg_leave_scope c2)))
      | SFor x e b \<Rightarrow>
          vbind (cg_analyze_expr e cg) (\<lambda>e' c1.
          vbind (cg_declare_var x (type_descriptor_create_primitive TYPE_INT) False (cg_enter_scope c1)) (\<lambda>_ c2.
          vbind (each cg_analyze_stmt (stmts_of b) c2) (\<lambda>b' c3.
            Accept (Stmt h (SFor x e' (branch b b'))) (cg_leave_scope c3))))
      | SForIn x e b \<Rightarrow>
          vbind (cg_analyze_expr e cg) (\<lambda>e' c1.
          vbind (iterated e' (cg_enter_scope c1)) (\<lambda>d c2.
          vbind (cg_declare_var x (Some d) False c2) (\<lambda>_ c3.
          vbind (each cg_analyze_stmt (stmts_of b) c3) (\<lambda>b' c4.
            Accept (Stmt h (SForIn x e' (branch b b'))) (cg_leave_scope c4)))))
      | SFuncDecl f \<Rightarrow>
          Reject (cg_error ''Internal error: function declaration in second pass'' (Some (method_name f)) cg)
      | SStructDecl n fs \<Rightarrow> vbind (cg_declare_struct_from_ast n fs cg) (\<lambda>_ c1. Accept (Stmt h k) c1)
      | SClassDecl n p fs ms ctor \<Rightarrow> vbind (cg_declare_class_from_ast n p fs ms ctor cg) (\<lambda>_ c1. Accept (Stmt h k) c1)
      | SReturn e \<Rightarrow> vbind (cg_analyze_expr e cg) (\<lambda>e' c1. Accept (Stmt h (SReturn e')) c1)
      | _ \<Rightarrow> Accept (Stmt h k) cg)"
  by pat_completeness auto
termination
  by (relation "measure (size \<circ> fst)") (auto dest!: stmt_in_size)

section \<open>Programs\<close>

definition declare_function_stmt :: "ASTStmt \<Rightarrow> Cg \<Rightarrow> unit verdict" where
  \<comment> \<open>the first pass\<close>
  "declare_function_stmt s cg =
     (case stmt_node s of SFuncDecl f \<Rightarrow> cg_declare_function_from_ast (func_sig f) cg | _ \<Rightarrow> Accept () cg)"

definition body_stmt :: "func_sig \<Rightarrow> ASTStmt \<Rightarrow> Cg \<Rightarrow> ASTStmt verdict" where
  "body_stmt sig s cg =
     vbind (cg_analyze_stmt s cg) (\<lambda>s' c1. vbind (cg_check_returns_in_stmt sig s' c1) (\<lambda>_ c2. Accept s' c2))"

definition returns_optional :: "func_sig \<Rightarrow> bool" where
  "returns_optional sig = (case return_type_desc sig of None \<Rightarrow> False | Some t \<Rightarrow> base_type t = TYPE_OPTIONAL)"

definition must_return :: "func_sig \<Rightarrow> ASTStmt list option \<Rightarrow> Cg \<Rightarrow> unit verdict" where
  "must_return sig b cg =
     (if return_type sig \<noteq> TYPE_NIL \<and> \<not> cg_stmt_list_guarantees_return b \<and> \<not> returns_optional sig
      then Reject (cg_error ''Function must return a value'' (Some (func_name sig)) cg)
      else Accept () cg)"

definition analyze_function :: "func_decl \<Rightarrow> Cg \<Rightarrow> func_decl verdict" where
  "analyze_function f cg =
     (let sig = func_sig f in
      vbind (every (\<lambda>(n, t, d). cg_declare_var n t False) (func_params sig) (cg_enter_scope cg)) (\<lambda>_ c1.
      vbind (each (body_stmt sig) (func_stmts f) c1) (\<lambda>b' c2.
      vbind (must_return sig (branch (func_body f) b') c2) (\<lambda>_ c3.
        Accept (FuncDecl sig (branch (func_body f) b') (opt_info f)) (cg_leave_scope c3)))))"

definition analyze_top :: "ASTStmt \<Rightarrow> Cg \<Rightarrow> ASTStmt verdict" where
  \<comment> \<open>the second pass\<close>
  "analyze_top s cg =
     (case stmt_node s of
        SFuncDecl f \<Rightarrow> vbind (analyze_function f cg) (\<lambda>f' c1. Accept (Stmt (stmt_hints s) (SFuncDecl f')) c1)
      | _ \<Rightarrow> cg_analyze_stmt s cg)"

definition start_analysis :: "Cg \<Rightarrow> Cg" where
  "start_analysis cg = cg\<lparr>had_error := False, scope_depth := 0, cg_vars := []\<rparr>"

definition cg_semantic_analyze :: "ASTStmt list \<Rightarrow> Cg \<Rightarrow> ASTStmt list verdict" where
  "cg_semantic_analyze program cg =
     vbind (every declare_function_stmt program (start_analysis cg)) (\<lambda>_ c1.
     vbind (each analyze_top program c1) (\<lambda>program' c2.
       if had_error c2 then Reject c2 else Accept program' c2))"

definition cg_new :: "BuiltinFunction list \<Rightarrow> Cg" where
  \<comment> \<open>the zeroed \<^verbatim>\<open>Cg\<close> the code generator starts with\<close>
  "cg_new builtins = \<lparr>had_error = False, cg_errors = bread_error_init error_state0, scope_depth = 0, cg_vars = [],
     cg_structs = [], cg_functions = [], cg_classes = [], cg_builtins = builtins\<rparr>"

end
