(* ===== verification/BreadTyping.thy ===== *)
theory BreadTyping
  imports BreadSemantics
begin

text \<open>
  What acceptance by the semantic analysis means: a static semantics of programs, with lexical scopes, and
  the proof that every accepted program has it; functions that must return a value never run
  past their end; the inferred types of operators are the types of what the runtime computes; the
  analysis always ends when no class names a later class, or itself, as its parent.
\<close>

section \<open>Acceptance changes nothing\<close>

named_theorems accepted \<open>what follows from an accepting verdict\<close>

lemma vbind_Accept [accepted]: "vbind v f = Accept y c \<longleftrightarrow> (\<exists>x c1. v = Accept x c1 \<and> f x c1 = Accept y c)"
  by (cases v) auto

lemma both_Accept [accepted]:
  "both l r f = Accept z c \<longleftrightarrow> (\<exists>x c1 y c2. l = Accept x c1 \<and> r c1 = Accept y c2 \<and> f x y c2 = Accept z c)"
  by (cases l) (auto simp: both_def vbind_Accept)

lemma out_of_Accept [accepted]: "out_of t cg = Accept x c \<longleftrightarrow> t = Some x \<and> c = cg"
  by (auto simp: out_of_def split: option.splits)

lemma primitive_Accept [accepted]:
  "primitive t cg = Accept x c \<longleftrightarrow> type_descriptor_create_primitive t = Some x \<and> c = cg"
  by (simp add: primitive_def out_of_Accept)

text \<open>A check is quiet if, when it accepts, it leaves what the compiler knows as it was.\<close>

definition quiet :: "'a verdict \<Rightarrow> Cg \<Rightarrow> bool" where
  "quiet v cg \<longleftrightarrow> (\<forall>x c. v = Accept x c \<longrightarrow> c = cg)"

lemma quietD: "quiet v cg \<Longrightarrow> v = Accept x c \<Longrightarrow> c = cg"
  by (simp add: quiet_def)

named_theorems quiet_intros \<open>quiet checks\<close>

lemma quiet_verdict [quiet_intros, simp]: "quiet (Accept x cg) cg" "quiet (Reject c) cg" "quiet Never cg"
  by (simp_all add: quiet_def)

lemma quiet_vbind [quiet_intros]: "quiet v cg \<Longrightarrow> (\<And>x. quiet (f x cg) cg) \<Longrightarrow> quiet (vbind v f) cg"
  by (cases v) (auto simp: quiet_def)

lemma quiet_both [quiet_intros]:
  "quiet l cg \<Longrightarrow> quiet (r cg) cg \<Longrightarrow> (\<And>x y. quiet (f x y cg) cg) \<Longrightarrow> quiet (both l r f) cg"
  unfolding both_def by (cases l) (auto simp: quiet_def accepted)

lemma quiet_each [quiet_intros]: "(\<And>x. x \<in> set xs \<Longrightarrow> quiet (f x cg) cg) \<Longrightarrow> quiet (each f xs cg) cg"
  by (induction xs) (auto intro!: quiet_intros)

lemma quiet_chain [quiet_intros]:
  "(\<And>x. x \<in> set xs \<Longrightarrow> quiet (f x cg) cg) \<Longrightarrow> (\<And>s y. quiet (g s y cg) cg) \<Longrightarrow> quiet (chain f g s xs cg) cg"
  by (induction xs arbitrary: s) (auto intro!: quiet_intros)

lemma quiet_parts [quiet_intros]:
  "quiet (out_of t cg) cg" "quiet (primitive p cg) cg" "quiet (binary_type op l r cg) cg"
  "quiet (unary_type op t' cg) cg" "quiet (call_type f cg) cg" "quiet (method_type d m cg) cg"
  "quiet (index_type d i cg) cg" "quiet (member_type d m cg) cg" "quiet (var_desc x cg) cg"
  "quiet (next_element d i cg) cg" "quiet (next_entry d i u kv cg) cg"
proof -
  show out: "quiet (out_of t cg) cg" for t :: "'z option" by (simp add: out_of_def split: option.split)
  show prim: "quiet (primitive p cg) cg" for p by (simp add: primitive_def out)
  show "quiet (binary_type op l r cg) cg" by (auto simp: binary_type_def prim)
  show "quiet (unary_type op t' cg) cg" by (auto simp: unary_type_def prim)
  show "quiet (call_type f cg) cg" by (auto simp: call_type_def prim out split: option.split)
  show "quiet (method_type d m cg) cg" by (auto simp: method_type_def prim out split: option.split)
  show "quiet (index_type d i cg) cg" by (auto simp: index_type_def prim out split: TypeDescriptor.split)
  show "quiet (member_type d m cg) cg"
    by (auto simp: member_type_def field_desc_def prim split: TypeDescriptor.split option.split)
  show "quiet (var_desc x cg) cg" by (auto simp: var_desc_def out split: option.split)
  show "quiet (next_element d i cg) cg" by (auto simp: next_element_def split: option.split)
  show "quiet (next_entry d i u kv cg) cg" by (auto simp: next_entry_def)
qed

lemma operands:
  "kv \<in> set kvs \<Longrightarrow> fst kv \<in> set (children (EDict kvs))" "kv \<in> set kvs \<Longrightarrow> snd kv \<in> set (children (EDict kvs))"
  "fe \<in> set fs \<Longrightarrow> snd fe \<in> set (children (EStructLiteral s fs))"
  "fe \<in> set fs \<Longrightarrow> snd fe \<in> set (children (EClassLiteral s fs))"
  by (force simp: split_def)+

lemma infer_note: "cg_infer_expr_type_desc_simple (Expr nt k) cg = cg_infer_expr_type_desc_simple (Expr nt' k) cg"
  by simp

lemma infer_quiet [quiet_intros]: "quiet (cg_infer_expr_type_desc_simple e cg) cg"
proof (induction e rule: measure_induct_rule [of size])
  case (less e)
  show ?case
  proof (cases e)
    case (Expr nt k)
    have IH: "quiet (cg_infer_expr_type_desc_simple x cg) cg" if "x \<in> set (children k)" for x
      using less [of x] children_size [OF that] Expr by simp
    show ?thesis unfolding Expr
      by (cases k; simp split del: if_split)
        (auto intro!: quiet_intros IH operands intro: list.set_sel simp del: children.simps(5,10,11))
  qed simp
qed


lemma argument_count_quiet [quiet_intros]: "quiet (argument_count lo hi n w f cg) cg"
  by (simp add: argument_count_def)

lemma check_node_quiet [quiet_intros]: "quiet (check_node k cg) cg"
  by (auto simp: check_node_def check_call_def intro: quiet_intros split: ast_node.split option.split)

lemma infer_and_tag_quiet [quiet_intros]: "quiet (infer_and_tag nt k cg) cg"
  using infer_quiet [of "Expr nt k" cg] unfolding infer_and_tag_def
  by (auto simp: quiet_def split: verdict.splits)

lemma analyzed_child: "x \<in> set (analyzed k) \<Longrightarrow> x \<in> set (children k)"
  by (cases k) auto

lemma analyze_expr_quiet [quiet_intros]: "quiet (cg_analyze_expr e cg) cg"
proof (induction e rule: measure_induct_rule [of size])
  case (less e)
  then show ?case by (cases e) (auto intro!: quiet_intros dest: analyzed_size)
qed

declare cg_infer_expr_type_desc_simple.simps(2) [simp del]

section \<open>What the analysis writes into a tree\<close>

definition untagged :: "ast_note \<Rightarrow> ast_note" where
  "untagged nt = nt\<lparr>tag := no_tag\<rparr>"

abbreviation plain :: "ASTExpr \<Rightarrow> ASTExpr" where
  "plain \<equiv> map_notes untagged"

definition tagged_ok :: "Cg \<Rightarrow> ASTExpr \<Rightarrow> bool" where
  \<comment> \<open>the tag of the node is the type that is inferred for it\<close>
  "tagged_ok cg e \<longleftrightarrow> (\<exists>t. known_desc e = Some t \<and> tag_type (tag (expr_note e)) = base_type t \<and>
     cg_infer_expr_type_desc_simple e cg = Accept t cg)"

lemma pairs_of_pairs: "pairs_of (concat (map (\<lambda>(k, v). [f k, f v]) kvs)) = map (\<lambda>(k, v). (f k, f v)) kvs"
  by (induction kvs) auto

lemma pairs_of_length: "length es = 2 * n \<Longrightarrow> length (pairs_of es) = n \<and> concat (map (\<lambda>(k, v). [k, v]) (pairs_of es)) = es"
proof (induction n arbitrary: es)
  case (Suc n)
  then obtain x y ys where "es = x # y # ys" "length ys = 2 * n"
    by (cases es; cases "tl es") auto
  with Suc.IH show ?case by simp
qed simp

lemma entries_length: "length (concat (map (\<lambda>(k, v). [k, v]) kvs)) = 2 * length kvs"
  by (induction kvs) auto

lemma map_pairs_of: "map (\<lambda>(x, y). (f x, f y)) (pairs_of es) = pairs_of (map f es)"
  by (induction es rule: pairs_of.induct) auto

lemma operands_simps:
  "length es = Suc (Suc 0) \<longleftrightarrow> (\<exists>x y. es = [x, y])" "length es = Suc 0 \<longleftrightarrow> (\<exists>x. es = [x])"
  "length es = Suc n \<longleftrightarrow> (\<exists>x xs. es = x # xs \<and> length xs = n)"
  by (auto simp: length_Suc_conv)

lemma children_with_operands:
  assumes "length es = length (analyzed k)" "\<not> (\<exists>xs. k = EArray xs)"
  shows "children (with_operands k es) = es"
  using assms by (cases k) (auto simp: operands_simps entries_length dest!: pairs_of_length)

lemma map_with_operands:
  assumes "length es = length (analyzed k)" "map f es = map f (analyzed k)" "\<not> (\<exists>xs. k = EArray xs)"
  shows "map_children f (with_operands k es) = map_children f k"
proof (cases k)
  case (EDict kvs)
  have "map_children f (with_operands k es) = EDict (pairs_of (map f es))" by (simp add: EDict map_pairs_of)
  also have "map f es = concat (map (\<lambda>(k, v). [f k, f v]) kvs)" 
    using assms(2) by (simp add: EDict map_concat split_def comp_def)
  finally show ?thesis by (simp add: EDict pairs_of_pairs)
next
  case (EStructLiteral s fs)
  then have "map f es = map (f \<circ> snd) fs" "length es = length fs" using assms by simp_all
  then show ?thesis by (auto simp: EStructLiteral list_eq_iff_nth_eq split_def)
next
  case (EClassLiteral s fs)
  then have "map f es = map (f \<circ> snd) fs" "length es = length fs" using assms by simp_all
  then show ?thesis by (auto simp: EClassLiteral list_eq_iff_nth_eq split_def)
qed (use assms in \<open>auto simp: operands_simps\<close>)

lemma each_Accept:
  "each f xs cg = Accept ys c \<Longrightarrow> (\<And>x. x \<in> set xs \<Longrightarrow> quiet (f x cg) cg) \<Longrightarrow>
   c = cg \<and> list_all2 (\<lambda>x y. f x cg = Accept y cg) xs ys"
proof (induction xs arbitrary: ys)
  case (Cons x xs)
  then obtain y c1 ys' where run: "f x cg = Accept y c1" "each f xs c1 = Accept ys' c" "ys = y # ys'"
    by (auto simp: accepted)
  then have "c1 = cg" using Cons.prems(2) [of x] by (auto simp: quiet_def)
  then show ?case using Cons.IH [of ys'] Cons.prems(2) run by auto
qed (simp add: accepted)

lemma analyze_node_Accept:
  assumes "cg_analyze_expr (Expr nt k) cg = Accept e' c"
  obtains es t where "check_node k cg = Accept () cg" "c = cg" "list_all2 (\<lambda>x y. cg_analyze_expr x cg = Accept y cg) (analyzed k) es"
    "e' = Expr (tag_with t nt) (with_operands k es)" "cg_infer_expr_type_desc_simple e' cg = Accept t cg"
proof -
  obtain c1 es c2 where run: "check_node k cg = Accept () c1" "each cg_analyze_expr (analyzed k) c1 = Accept es c2"
      "infer_and_tag nt (with_operands k es) c2 = Accept e' c"
    using assms by (auto simp: accepted)
  have c1: "c1 = cg" using check_node_quiet run(1) by (auto simp: quiet_def)
  have es: "c2 = cg \<and> list_all2 (\<lambda>x y. cg_analyze_expr x cg = Accept y cg) (analyzed k) es"
    by (rule each_Accept [of cg_analyze_expr]) (use run(2) c1 in \<open>auto intro: quiet_intros\<close>)
  obtain t c3 where inf: "cg_infer_expr_type_desc_simple (Expr nt (with_operands k es)) cg = Accept t c3"
      "e' = Expr (tag_with t nt) (with_operands k es)" "c = c3"
    using run(3) es by (auto simp: infer_and_tag_def split: verdict.splits)
  then have "c3 = cg" using quietD [OF infer_quiet inf(1)] by simp
  with inf have "cg_infer_expr_type_desc_simple e' cg = Accept t cg" by (metis infer_note)
  with that run(1) c1 es inf \<open>c3 = cg\<close> show thesis by blast
qed


definition names_known :: "Cg \<Rightarrow> ASTExpr \<Rightarrow> bool" where
  \<comment> \<open>the node is not a variable that has not been declared\<close>
  "names_known cg e = (case e of Expr nt (EVar x) \<Rightarrow> cg_find_var_in_scope x cg \<noteq> None | _ \<Rightarrow> True)"

lemma in_set_nth: "x \<in> set xs \<Longrightarrow> (\<And>i. i < length xs \<Longrightarrow> x = xs ! i \<Longrightarrow> P) \<Longrightarrow> P"
  by (auto simp: in_set_conv_nth)

lemma analyze_expr_tree:
  "cg_analyze_expr e cg = Accept e' c \<Longrightarrow>
   plain e' = plain e \<and> list_all (tagged_ok cg) (subexprs e') \<and> list_all (names_known cg) (subexprs e)"
proof (induction e arbitrary: e' c rule: measure_induct_rule [of size])
  case (less e)
  show ?case
  proof (cases e)
    case Null
    with less.prems show ?thesis by simp
  next
    case (Expr nt k)
    obtain es t where run: "check_node k cg = Accept () cg" "list_all2 (\<lambda>x y. cg_analyze_expr x cg = Accept y cg) (analyzed k) es"
        "e' = Expr (tag_with t nt) (with_operands k es)" "cg_infer_expr_type_desc_simple e' cg = Accept t cg"
      using analyze_node_Accept less.prems unfolding Expr by metis
    have len: "length es = length (analyzed k)" using run(2) by (simp add: list_all2_lengthD)
    have arr: "\<not> (\<exists>xs. k = EArray xs)" using run(3,4) by (auto simp: cg_infer_expr_type_desc_simple.simps(2))
    then have ch: "analyzed k = children k" by (cases k) auto
    have IH: "plain (es ! i) = plain (analyzed k ! i) \<and> list_all (tagged_ok cg) (subexprs (es ! i)) \<and>
        list_all (names_known cg) (subexprs (analyzed k ! i))" if "i < length es" for i
    proof -
      have "cg_analyze_expr (analyzed k ! i) cg = Accept (es ! i) cg" using run(2) that by (simp add: list_all2_conv_all_nth)
      moreover have "size (analyzed k ! i) < size e" using analyzed_size [of "analyzed k ! i" k] that len Expr by simp
      ultimately show ?thesis using less.IH by blast
    qed
    have "map plain es = map plain (analyzed k)" by (rule nth_equalityI) (use IH len in auto)
    then have "plain e' = plain e"
      using map_with_operands [OF len _ arr] run(3) by (simp add: Expr untagged_def tag_with_def)
    moreover have "tagged_ok cg e'"
      using run(3,4) by (simp add: tagged_ok_def known_desc_def tag_with_def)
    then have "list_all (tagged_ok cg) (subexprs e')"
      using IH by (auto simp: run(3) children_with_operands [OF len arr] list_all_iff elim!: in_set_nth)
    moreover have "names_known cg e" using run(1) by (auto simp: Expr names_known_def check_node_def split: ast_node.splits option.splits)
    then have "list_all (names_known cg) (subexprs e)"
      using IH len by (auto simp: Expr ch [symmetric] list_all_iff elim!: in_set_nth)
    ultimately show ?thesis by blast
  qed
qed

section \<open>Static semantics\<close>

text \<open>
  Names are looked up in frames, the innermost scope first; a name has a type and may be constant. The
  rules are about programs with the tags and declared types the analysis has written.
\<close>

type_synonym frames = "(cstring \<times> TypeDescriptor \<times> bool) list list"

fun lookup_name :: "frames \<Rightarrow> cstring \<Rightarrow> (TypeDescriptor \<times> bool) option" where
  "lookup_name [] x = None"
| "lookup_name (f # fs) x = (case map_of f x of Some d \<Rightarrow> Some d | None \<Rightarrow> lookup_name fs x)"

fun declare_name :: "cstring \<Rightarrow> TypeDescriptor \<Rightarrow> bool \<Rightarrow> frames \<Rightarrow> frames option" where
  \<comment> \<open>a scope has a name once\<close>
  "declare_name x d c [] = None"
| "declare_name x d c (f # fs) = (if x \<in> fst ` set f then None else Some (((x, d, c) # f) # fs))"

definition node_typed :: "frames \<Rightarrow> ASTExpr \<Rightarrow> bool" where
  \<comment> \<open>a node has a type; a variable is in scope and has the type it was declared with\<close>
  "node_typed fs n \<longleftrightarrow> known_desc n \<noteq> None \<and>
     (case n of Expr nt (EVar x) \<Rightarrow> map_option fst (lookup_name fs x) = known_desc n | _ \<Rightarrow> True)"

definition typed :: "frames \<Rightarrow> ASTExpr \<Rightarrow> bool" where
  "typed fs e \<longleftrightarrow> list_all (node_typed fs) (subexprs e)"

definition condition_ok :: "frames \<Rightarrow> ASTExpr \<Rightarrow> bool" where
  "condition_ok fs e \<longleftrightarrow> typed fs e \<and> map_option base_type (known_desc e) = Some TYPE_BOOL"

definition element_type_of :: "ASTExpr \<Rightarrow> TypeDescriptor option" where
  \<comment> \<open>what a loop over the value gives\<close>
  "element_type_of e = (case known_desc e of Some (TArray d) \<Rightarrow> Some d | Some (TDict k v) \<Rightarrow> Some k | _ \<Rightarrow> None)"

fun all_typed :: "('a \<Rightarrow> frames \<Rightarrow> frames option) \<Rightarrow> 'a list \<Rightarrow> frames \<Rightarrow> frames option" where
  "all_typed f [] fs = Some fs"
| "all_typed f (s # ss) fs = (case f s fs of None \<Rightarrow> None | Some gs \<Rightarrow> all_typed f ss gs)"

lemma all_typed_cong [fundef_cong]:
  "ss = ts \<Longrightarrow> fs = gs \<Longrightarrow> (\<And>s hs. s \<in> set ts \<Longrightarrow> f s hs = g s hs) \<Longrightarrow> all_typed f ss fs = all_typed g ts gs"
proof (induction ss arbitrary: ts fs gs)
  case (Cons s ss)
  then have "all_typed f ss hs = all_typed g ss hs" for hs by auto
  with Cons.prems show ?case by (auto split: option.split)
qed simp

definition guarded :: "bool \<Rightarrow> frames \<Rightarrow> frames option" where
  "guarded b fs = (if b then Some fs else None)"

function stmt_typed :: "ASTStmt \<Rightarrow> frames \<Rightarrow> frames option" where
  \<comment> \<open>the frames after the statement, when it is well typed\<close>
  "stmt_typed (Stmt h k) fs =
     (case k of
        SVarDecl x t td e c \<Rightarrow>
          (case td of None \<Rightarrow> None
           | Some d \<Rightarrow> if typed fs e \<and> (e \<noteq> Null \<longrightarrow> type_descriptor_compatible (known_desc e) (Some d))
               then declare_name x d c fs else None)
      | SVarAssign x e op \<Rightarrow>
          (case lookup_name fs x of
             Some (d, False) \<Rightarrow> guarded (typed fs e \<and> type_descriptor_compatible (known_desc e) (Some d)) fs
           | _ \<Rightarrow> None)
      | SIndexAssign t i e op \<Rightarrow> guarded (typed fs t \<and> typed fs i \<and> typed fs e) fs
      | SMemberAssign t m e op \<Rightarrow> guarded (typed fs t \<and> typed fs e) fs
      | SPrint e \<Rightarrow> guarded (typed fs e) fs
      | SExpr e \<Rightarrow> guarded (typed fs e) fs
      | SReturn e \<Rightarrow> guarded (typed fs e) fs
      | SIf e t f \<Rightarrow> guarded (condition_ok fs e \<and> all_typed stmt_typed (stmts_of t) ([] # fs) \<noteq> None \<and>
            all_typed stmt_typed (stmts_of f) ([] # fs) \<noteq> None) fs
      | SWhile e b \<Rightarrow> guarded (condition_ok fs e \<and> all_typed stmt_typed (stmts_of b) ([] # fs) \<noteq> None) fs
      | SFor x e b \<Rightarrow> guarded (typed fs e \<and> all_typed stmt_typed (stmts_of b) ([(x, TPrim TYPE_INT, False)] # fs) \<noteq> None) fs
      | SForIn x e b \<Rightarrow>
          (case element_type_of e of None \<Rightarrow> None
           | Some d \<Rightarrow> guarded (typed fs e \<and> all_typed stmt_typed (stmts_of b) ([(x, d, False)] # fs) \<noteq> None) fs)
      | SFuncDecl f \<Rightarrow> None
      | _ \<Rightarrow> Some fs)"
  by pat_completeness auto
termination
  by (relation "measure (size \<circ> fst)") (auto dest!: stmt_in_size)

definition return_ok :: "func_sig \<Rightarrow> ASTStmt \<Rightarrow> bool" where
  \<comment> \<open>a returned value has the return type; a return without value is for functions without one\<close>
  "return_ok sig s = (case stmt_node s of
     SReturn e \<Rightarrow> if e = Null then return_type sig = TYPE_NIL
       else (case return_type_desc sig of None \<Rightarrow> True | Some r \<Rightarrow> type_descriptor_compatible (known_desc e) (Some r))
   | _ \<Rightarrow> True)"

definition param_typed :: "cstring \<times> TypeDescriptor option \<times> ASTExpr \<Rightarrow> frames \<Rightarrow> frames option" where
  "param_typed p fs = (case p of (x, t, e) \<Rightarrow> (case t of None \<Rightarrow> None | Some d \<Rightarrow> declare_name x d False fs))"

definition function_typed :: "func_decl \<Rightarrow> frames \<Rightarrow> bool" where
  "function_typed f fs \<longleftrightarrow>
     (case all_typed param_typed (func_params (func_sig f)) ([] # fs) of None \<Rightarrow> False
      | Some gs \<Rightarrow> all_typed stmt_typed (func_stmts f) gs \<noteq> None) \<and>
     list_all (return_ok (func_sig f)) (concat (map all_stmts (func_stmts f))) \<and>
     (return_type (func_sig f) = TYPE_NIL \<or> returns_optional (func_sig f) \<or> list_guarantees_return (func_stmts f))"

definition top_typed :: "ASTStmt \<Rightarrow> frames \<Rightarrow> frames option" where
  "top_typed s fs = (case stmt_node s of SFuncDecl f \<Rightarrow> guarded (function_typed f fs) fs | _ \<Rightarrow> stmt_typed s fs)"

definition program_typed :: "ASTStmt list \<Rightarrow> bool" where
  "program_typed program \<longleftrightarrow> all_typed top_typed program [[]] \<noteq> None"

section \<open>The frames the compiler keeps\<close>

definition frame_at :: "Cg \<Rightarrow> nat \<Rightarrow> (cstring \<times> TypeDescriptor \<times> bool) list" where
  "frame_at cg d = map (\<lambda>v. (cv_name v, cv_desc v, cv_const v)) (filter (\<lambda>v. cv_depth v = d) (cg_vars cg))"

definition frames_of :: "Cg \<Rightarrow> frames" where
  "frames_of cg = map (frame_at cg) (rev [0..<Suc (scope_depth cg)])"

definition scopes_ok :: "Cg \<Rightarrow> bool" where
  \<comment> \<open>inner variables are newer, none is deeper than the scope, and types can be copied\<close>
  "scopes_ok cg \<longleftrightarrow> sorted_wrt (\<ge>) (map cv_depth (cg_vars cg)) \<and>
     (\<forall>v \<in> set (cg_vars cg). cv_depth v \<le> scope_depth cg \<and> type_descriptor_clone (Some (cv_desc v)) = Some (cv_desc v))"

lemma clone_same: "type_descriptor_clone (Some t) = Some u \<Longrightarrow> u = t \<and> type_descriptor_clone (Some u) = Some u"
  using clone_defined_iff [of t] clone_id [of t] by auto

lemma depth_parts:
  assumes "sorted_wrt (\<ge>) (map d xs)" "\<forall>x \<in> set xs. d x \<le> n"
  shows "concat (map (\<lambda>k. filter (\<lambda>x. d x = k) xs) (rev [0..<Suc n])) = xs"
  using assms
proof (induction n arbitrary: xs)
  case 0
  then show ?case by simp
next
  case (Suc n)
  let ?top = "takeWhile (\<lambda>x. d x = Suc n) xs" and ?rest = "dropWhile (\<lambda>x. d x = Suc n) xs"
  have rest: "d x \<le> n" if "x \<in> set ?rest" for x
  proof -
    have ne: "?rest \<noteq> []" using that by (metis list.set(1) empty_iff)
    have "d (hd ?rest) \<le> n" using hd_dropWhile [OF ne] Suc.prems(2) set_dropWhileD [OF hd_in_set [OF ne]]
      by (metis le_Suc_eq)
    moreover have "sorted_wrt (\<ge>) (map d ?rest)"
      using Suc.prems(1) by (metis dropWhile_eq_drop drop_map sorted_wrt_drop)
    then have "d x \<le> d (hd ?rest)" using that ne by (cases ?rest) auto
    ultimately show ?thesis by simp
  qed
  have parts: "filter (\<lambda>x. d x = k) xs = filter (\<lambda>x. d x = k) ?top @ filter (\<lambda>x. d x = k) ?rest" for k
    by (metis filter_append takeWhile_dropWhile_id)
  have low: "filter (\<lambda>x. d x = k) xs = filter (\<lambda>x. d x = k) ?rest" if "k \<le> n" for k
    using that unfolding parts by (auto simp: filter_empty_conv dest: set_takeWhileD)
  have top: "filter (\<lambda>x. d x = Suc n) xs = ?top"
  proof -
    have "filter (\<lambda>x. d x = Suc n) ?top = ?top" by (auto simp: filter_id_conv dest: set_takeWhileD)
    moreover have "filter (\<lambda>x. d x = Suc n) ?rest = []" using rest by (force simp: filter_empty_conv)
    ultimately show ?thesis unfolding parts by simp
  qed
  have "sorted_wrt (\<ge>) (map d ?rest)"
    using Suc.prems(1) by (metis dropWhile_eq_drop drop_map sorted_wrt_drop)
  then have "concat (map (\<lambda>k. filter (\<lambda>x. d x = k) ?rest) (rev [0..<Suc n])) = ?rest"
    using Suc.IH rest by blast
  moreover have "map (\<lambda>k. filter (\<lambda>x. d x = k) xs) (rev [0..<Suc n]) = map (\<lambda>k. filter (\<lambda>x. d x = k) ?rest) (rev [0..<Suc n])"
    by (rule map_cong) (auto simp: low)
  moreover have "rev [0..<Suc (Suc n)] = Suc n # rev [0..<Suc n]" by simp
  ultimately show ?case by (simp only: list.map concat.simps top takeWhile_dropWhile_id)
qed

lemma lookup_concat: "lookup_name fs x = map_of (concat fs) x"
  by (induction fs) (auto simp: map_add_def split: option.split)

lemma lookup_frames:
  assumes "scopes_ok cg"
  shows "lookup_name (frames_of cg) x = map_option (\<lambda>v. (cv_desc v, cv_const v)) (cg_find_var_in_scope x cg)"
proof -
  let ?f = "\<lambda>v. (cv_name v, cv_desc v, cv_const v)"
  have ok: "sorted_wrt (\<ge>) (map cv_depth (cg_vars cg))" "\<forall>v \<in> set (cg_vars cg). cv_depth v \<le> scope_depth cg"
    using assms by (auto simp: scopes_ok_def)
  have "concat (frames_of cg) = map ?f (concat (map (\<lambda>k. filter (\<lambda>v. cv_depth v = k) (cg_vars cg)) (rev [0..<Suc (scope_depth cg)])))"
    by (simp add: frames_of_def frame_at_def [abs_def] map_concat comp_def)
  also have "\<dots> = map ?f (cg_vars cg)"
    by (simp only: depth_parts [OF ok])
  finally have eq: "lookup_name (frames_of cg) x = map_of (map ?f (cg_vars cg)) x" by (simp add: lookup_concat)
  have find: "\<forall>v \<in> set vs. cv_depth v \<le> n \<Longrightarrow> map_of (map ?f vs) x =
      map_option (\<lambda>v. (cv_desc v, cv_const v)) (List.find (\<lambda>v. cv_name v = x \<and> cv_depth v \<le> n) vs)" for vs n
    by (induction vs) auto
  show ?thesis using eq find [OF ok(2)] by (simp add: cg_find_var_in_scope_def)
qed


lemma frames_of_Cons: "frames_of cg = frame_at cg (scope_depth cg) # map (frame_at cg) (rev [0..<scope_depth cg])"
  by (simp add: frames_of_def)

lemma enter_frames:
  assumes "scopes_ok cg"
  shows "scopes_ok (cg_enter_scope cg)" "frames_of (cg_enter_scope cg) = [] # frames_of cg"
proof -
  show "scopes_ok (cg_enter_scope cg)" using assms by (auto simp: scopes_ok_def cg_enter_scope_def)
  have "frame_at (cg_enter_scope cg) (Suc (scope_depth cg)) = []"
    using assms by (force simp: frame_at_def scopes_ok_def cg_enter_scope_def filter_empty_conv)
  moreover have "frame_at (cg_enter_scope cg) = frame_at cg" by (simp add: fun_eq_iff frame_at_def cg_enter_scope_def)
  ultimately show "frames_of (cg_enter_scope cg) = [] # frames_of cg"
    by (simp add: frames_of_def cg_enter_scope_def)
qed

lemma leave_frames:
  assumes "scopes_ok cg" "0 < scope_depth cg"
  shows "scopes_ok (cg_leave_scope cg)" "frames_of (cg_leave_scope cg) = tl (frames_of cg)"
proof -
  obtain n where n: "scope_depth cg = Suc n" using assms(2) by (cases "scope_depth cg") auto
  show "scopes_ok (cg_leave_scope cg)"
    using assms by (auto simp: scopes_ok_def cg_leave_scope_def sorted_wrt_map intro: sorted_wrt_filter)
  have "frame_at (cg_leave_scope cg) d = frame_at cg d" if "d \<le> n" for d
    using that n by (auto simp: frame_at_def cg_leave_scope_def intro!: arg_cong2 [where f = map] filter_cong)
  then show "frames_of (cg_leave_scope cg) = tl (frames_of cg)"
    by (simp add: frames_of_def cg_leave_scope_def n)
qed

lemma declare_frames:
  assumes ok: "scopes_ok cg" and run: "cg_declare_var x t c cg = Accept u cg'"
  shows "\<exists>d. t = Some d \<and> scopes_ok cg' \<and> scope_depth cg' = scope_depth cg \<and>
    declare_name x d c (frames_of cg) = Some (frames_of cg')"
proof -
  obtain d where d: "t = Some d" "type_descriptor_clone (Some d) = Some d"
      and fresh: "\<not> (\<exists>v \<in> set (cg_vars cg). cv_depth v = scope_depth cg \<and> cv_name v = x)"
      and cg': "cg' = cg\<lparr>cg_vars := \<lparr>cv_name = x, cv_type = base_type d, cv_desc = d, cv_const = c,
              cv_depth = scope_depth cg\<rparr> # cg_vars cg\<rparr>"
    using run clone_same by (cases t) (fastforce simp: cg_declare_var_def split: if_splits option.splits)+
  have old: "frame_at cg' k = frame_at cg k" if "k < scope_depth cg" for k
    using that by (simp add: frame_at_def cg')
  have "frame_at cg' (scope_depth cg) = (x, d, c) # frame_at cg (scope_depth cg)" by (simp add: frame_at_def cg')
  moreover have "x \<notin> fst ` set (frame_at cg (scope_depth cg))" using fresh by (auto simp: frame_at_def)
  moreover have "map (frame_at cg') (rev [0..<scope_depth cg]) = map (frame_at cg) (rev [0..<scope_depth cg])"
    by (rule map_cong) (auto simp: old)
  moreover have "scopes_ok cg'" using ok d(2) by (auto simp: scopes_ok_def cg')
  ultimately show ?thesis using d(1) by (simp add: frames_of_Cons cg')
qed

lemma same_vars_frames:
  "cg_vars cg' = cg_vars cg \<Longrightarrow> scope_depth cg' = scope_depth cg \<Longrightarrow>
   frames_of cg' = frames_of cg \<and> scopes_ok cg' = scopes_ok cg"
  by (simp add: frames_of_def frame_at_def [abs_def] scopes_ok_def)


section \<open>Accepted statements are well typed\<close>

lemma analyze_typed:
  assumes "cg_analyze_expr e cg = Accept e' c" "scopes_ok cg"
  shows "c = cg \<and> typed (frames_of cg) e' \<and> (e' \<noteq> Null \<longrightarrow>
    (\<exists>t. known_desc e' = Some t \<and> cg_infer_expr_type_desc_simple e' cg = Accept t cg))"
proof -
  have c: "c = cg" by (rule quietD [OF analyze_expr_quiet assms(1)])
  have tags: "list_all (tagged_ok cg) (subexprs e')" using analyze_expr_tree [OF assms(1)] by simp
  have "node_typed (frames_of cg) n" if tag: "tagged_ok cg n" for n
  proof -
    obtain t where t: "known_desc n = Some t" "cg_infer_expr_type_desc_simple n cg = Accept t cg"
      using tag by (auto simp: tagged_ok_def)
    have "map_option fst (lookup_name (frames_of cg) x) = Some t" if n: "n = Expr nt (EVar x)" for nt x
    proof -
      obtain v where v: "cg_find_var_in_scope x cg = Some v" "type_descriptor_clone (Some (cv_desc v)) = Some t"
        using t(2) by (auto simp: n var_desc_def accepted cg_infer_expr_type_desc_simple.simps(2) split: option.splits)
      then show ?thesis using lookup_frames [OF assms(2)] clone_same by auto
    qed
    then show ?thesis using t(1) by (auto simp: node_typed_def split: ASTExpr.split ast_node.split)
  qed
  then have "typed (frames_of cg) e'" using tags by (auto simp: typed_def list_all_iff)
  moreover have "tagged_ok cg e'" if "e' \<noteq> Null" using tags that by (cases e') auto
  ultimately show ?thesis using c by (auto simp: tagged_ok_def)
qed

lemma fits_Accept [accepted]:
  "fits msg e d cg = Accept u c \<longleftrightarrow> c = cg \<and> (known_desc e \<noteq> None \<longrightarrow> type_descriptor_compatible (known_desc e) (Some d))"
  by (auto simp: fits_def split: option.splits)

lemma declare_name_tl: "declare_name x d c fs = Some gs \<Longrightarrow> tl gs = tl fs \<and> gs \<noteq> []"
  by (cases fs) (auto split: if_splits)

lemma stmt_typed_tl: "stmt_typed s fs = Some gs \<Longrightarrow> tl gs = tl fs \<and> (gs = [] \<longleftrightarrow> fs = [])"
proof (cases s)
  case (Stmt h k)
  assume "stmt_typed s fs = Some gs"
  then show ?thesis unfolding Stmt
    by (cases k) (auto simp: guarded_def dest: declare_name_tl split: option.splits if_splits bool.splits)
qed

lemma all_typed_tl: "all_typed stmt_typed ss fs = Some gs \<Longrightarrow> tl gs = tl fs \<and> (gs = [] \<longleftrightarrow> fs = [])"
  by (induction ss arbitrary: fs) (auto dest: stmt_typed_tl split: option.splits)

definition keeps_typing :: "(ASTStmt \<Rightarrow> Cg \<Rightarrow> ASTStmt verdict) \<Rightarrow> ASTStmt \<Rightarrow> bool" where
  "keeps_typing f s \<longleftrightarrow> (\<forall>cg s' c. f s cg = Accept s' c \<longrightarrow> scopes_ok cg \<longrightarrow>
     scopes_ok c \<and> scope_depth c = scope_depth cg \<and> stmt_typed s' (frames_of cg) = Some (frames_of c))"

lemma each_typed:
  assumes "\<And>s. s \<in> set ss \<Longrightarrow> keeps_typing f s" "each f ss cg = Accept ss' c" "scopes_ok cg"
  shows "scopes_ok c \<and> scope_depth c = scope_depth cg \<and> all_typed stmt_typed ss' (frames_of cg) = Some (frames_of c)"
  using assms
proof (induction ss arbitrary: cg ss')
  case (Cons s ss)
  then obtain s' c1 ss1 where run: "f s cg = Accept s' c1" "each f ss c1 = Accept ss1 c" "ss' = s' # ss1"
    by (auto simp: accepted)
  have "scopes_ok c1 \<and> scope_depth c1 = scope_depth cg \<and> stmt_typed s' (frames_of cg) = Some (frames_of c1)"
    using Cons.prems(1) [of s] Cons.prems(3) run(1) by (simp add: keeps_typing_def)
  with Cons.IH [OF _ run(2)] Cons.prems(1) run(3) show ?case by simp
qed simp

lemma block_typed:
  assumes "\<And>s. s \<in> set ss \<Longrightarrow> keeps_typing f s" "each f ss cg = Accept ss' c" "scopes_ok cg"
    and fs: "frames_of cg = fr # fs" and d: "0 < scope_depth cg"
  shows "scopes_ok (cg_leave_scope c) \<and> scope_depth (cg_leave_scope c) = scope_depth cg - 1 \<and>
    frames_of (cg_leave_scope c) = fs \<and> all_typed stmt_typed ss' (fr # fs) \<noteq> None"
proof -
  have run: "scopes_ok c" "scope_depth c = scope_depth cg" "all_typed stmt_typed ss' (fr # fs) = Some (frames_of c)"
    using each_typed [OF assms(1-3)] fs by simp_all
  have "tl (frames_of c) = fs" using all_typed_tl [OF run(3)] by simp
  with leave_frames [OF run(1)] run d show ?thesis by (simp add: cg_leave_scope_def)
qed


section \<open>Inference in an inner scope\<close>

definition same_names :: "Cg \<Rightarrow> Cg \<Rightarrow> bool" where
  \<comment> \<open>names mean the same\<close>
  "same_names cg cg' \<longleftrightarrow> (\<forall>x. cg_find_var_in_scope x cg' = cg_find_var_in_scope x cg) \<and> cg_structs cg' = cg_structs cg \<and>
     cg_functions cg' = cg_functions cg \<and> cg_classes cg' = cg_classes cg \<and> cg_builtins cg' = cg_builtins cg"

definition carries :: "Cg \<Rightarrow> Cg \<Rightarrow> 'a verdict \<Rightarrow> 'a verdict \<Rightarrow> bool" where
  "carries cg cg' v v' \<longleftrightarrow> (\<forall>x. v = Accept x cg \<longrightarrow> v' = Accept x cg')"

named_theorems carry_intros \<open>verdicts that are the same for the same names\<close>

lemma carries_verdict [carry_intros]: "carries cg cg' (Accept x cg) (Accept x cg')" "carries cg cg' (Reject c) v" "carries cg cg' Never v"
  by (simp_all add: carries_def)

lemma carries_vbind [carry_intros]:
  "carries cg cg' v v' \<Longrightarrow> quiet v cg \<Longrightarrow> (\<And>x. carries cg cg' (f x cg) (f' x cg')) \<Longrightarrow> carries cg cg' (vbind v f) (vbind v' f')"
  by (cases v) (auto simp: carries_def quiet_def)

lemma carries_both [carry_intros]:
  "carries cg cg' l l' \<Longrightarrow> quiet l cg \<Longrightarrow> carries cg cg' (r cg) (r' cg') \<Longrightarrow> quiet (r cg) cg \<Longrightarrow>
   (\<And>x y. carries cg cg' (f x y cg) (f' x y cg')) \<Longrightarrow> carries cg cg' (both l r f) (both l' r' f')"
  unfolding carries_def quiet_def by (auto simp: accepted)

lemma carries_each [carry_intros]:
  "(\<And>x. x \<in> set xs \<Longrightarrow> carries cg cg' (f x cg) (f x cg')) \<Longrightarrow> (\<And>x. x \<in> set xs \<Longrightarrow> quiet (f x cg) cg) \<Longrightarrow>
   carries cg cg' (each f xs cg) (each f xs cg')"
  by (induction xs) (auto intro!: carry_intros quiet_each)

lemma carries_chain [carry_intros]:
  "(\<And>x. x \<in> set xs \<Longrightarrow> carries cg cg' (f x cg) (f x cg')) \<Longrightarrow> (\<And>x. x \<in> set xs \<Longrightarrow> quiet (f x cg) cg) \<Longrightarrow>
   (\<And>s y. carries cg cg' (g s y cg) (g s y cg')) \<Longrightarrow> (\<And>s y. quiet (g s y cg) cg) \<Longrightarrow>
   carries cg cg' (chain f g s xs cg) (chain f g s xs cg')"
  by (induction xs arbitrary: s) (auto intro!: carry_intros quiet_chain)

lemma same_class: "same_names cg cg' \<Longrightarrow> cg_find_class n cg' = cg_find_class n cg"
  by (simp add: same_names_def cg_find_class_def)

lemma same_walk: "same_names cg cg' \<Longrightarrow> walk g cg' c = walk g cg c"
proof -
  assume same: "same_names cg cg'"
  have "class_walk k g cg' c = class_walk k g cg c" for k c
    by (induction k arbitrary: c) (auto simp: parent_of_def same_class [OF same] split: option.split)
  then show ?thesis using same unfolding walk_def same_names_def by metis
qed

lemma same_tables:
  assumes "same_names cg cg'"
  shows "cg_find_struct n cg' = cg_find_struct n cg" "cg_find_function n cg' = cg_find_function n cg"
    "cg_find_class n cg' = cg_find_class n cg" "cg_builtins cg' = cg_builtins cg"
    "cg_find_var_in_scope n cg' = cg_find_var_in_scope n cg"
    "walk g cg' c = walk g cg c" "cg_common_superclass_desc cg' d e = cg_common_superclass_desc cg d e"
proof -
  show "cg_common_superclass_desc cg' d e = cg_common_superclass_desc cg d e"
    unfolding cg_common_superclass_desc_def same_class [OF assms] same_walk [OF assms] ..
qed (use assms in \<open>simp_all add: same_class same_walk\<close>,
    use assms in \<open>simp_all add: same_names_def cg_find_struct_def cg_find_function_def\<close>)

lemma carries_parts:
  assumes "same_names cg cg'"
  shows "carries cg cg' (primitive p cg) (primitive p cg')" "carries cg cg' (out_of t cg) (out_of t cg')"
    "carries cg cg' (binary_type op l r cg) (binary_type op l r cg')" "carries cg cg' (unary_type op d cg) (unary_type op d cg')"
    "carries cg cg' (call_type f cg) (call_type f cg')" "carries cg cg' (method_type d m cg) (method_type d m cg')"
    "carries cg cg' (index_type d i cg) (index_type d i cg')" "carries cg cg' (member_type d m cg) (member_type d m cg')"
    "carries cg cg' (var_desc x cg) (var_desc x cg')" "carries cg cg' (next_element d i cg) (next_element d i cg')"
    "carries cg cg' (next_entry d i u kv cg) (next_entry d i u kv cg')"
  using assms
  by (auto simp: carries_def accepted binary_type_def unary_type_def call_type_def method_type_def index_type_def
      member_type_def var_desc_def next_element_def next_entry_def field_desc_def same_tables cg_find_class_method_decl_def
      split: if_splits option.splits TypeDescriptor.splits)

lemma infer_carries:
  assumes "same_names cg cg'"
  shows "carries cg cg' (cg_infer_expr_type_desc_simple e cg) (cg_infer_expr_type_desc_simple e cg')"
proof (induction e rule: measure_induct_rule [of size])
  case (less e)
  show ?case
  proof (cases e)
    case (Expr nt k)
    have IH: "carries cg cg' (cg_infer_expr_type_desc_simple x cg) (cg_infer_expr_type_desc_simple x cg')" if "x \<in> set (children k)" for x
      using less [of x] children_size [OF that] Expr by simp
    show ?thesis unfolding Expr
      by (cases k; simp split del: if_split add: cg_infer_expr_type_desc_simple.simps(2))
        (auto intro!: carry_intros carries_parts [OF assms] quiet_intros IH operands intro: list.set_sel simp del: children.simps(5,10,11))
  qed (simp add: carry_intros)
qed

lemma enter_same_names: "scopes_ok cg \<Longrightarrow> same_names cg (cg_enter_scope cg)"
  by (auto simp: same_names_def cg_enter_scope_def cg_find_var_in_scope_def scopes_ok_def intro!: find_cong)

lemma decl_Accept:
  assumes "analyze_decl x td e c cg = Accept d cg'" "scopes_ok cg"
  shows "scopes_ok cg' \<and> scope_depth cg' = scope_depth cg \<and> declare_name x d c (frames_of cg) = Some (frames_of cg') \<and>
    (known_desc e \<noteq> None \<longrightarrow> type_descriptor_compatible (known_desc e) (Some d))"
proof -
  obtain t c1 where run: "cg_declare_var x (Some d) c cg = Accept () c1" "cg' = c1"
      "known_desc e \<noteq> None \<longrightarrow> type_descriptor_compatible (known_desc e) (Some d)"
    using assms(1) by (auto simp: analyze_decl_def accepted Let_def split: option.splits)
  with declare_frames [OF assms(2) run(1)] show ?thesis by auto
qed

lemma assign_Accept:
  assumes "analyze_assign x e cg = Accept e' c" "scopes_ok cg"
  shows "c = cg \<and> (\<exists>d. lookup_name (frames_of cg) x = Some (d, False) \<and> typed (frames_of cg) e' \<and>
    type_descriptor_compatible (known_desc e') (Some d))"
proof -
  obtain v c1 c2 where run: "assignable x cg = Accept v c1" "cg_analyze_expr e c1 = Accept e' c2" "e' \<noteq> Null" "c = c2"
      "known_desc e' \<noteq> None \<longrightarrow> type_descriptor_compatible (known_desc e') (Some (cv_desc v))"
    using assms(1) by (auto simp: analyze_assign_def accepted split: if_splits)
  have v: "cg_find_var_in_scope x cg = Some v" "\<not> cv_const v" "c1 = cg"
    using run(1) by (auto simp: assignable_def split: option.splits if_splits)
  have "c2 = cg \<and> typed (frames_of cg) e' \<and> known_desc e' \<noteq> None"
    using analyze_typed [OF run(2)] assms(2) v(3) run(3) by auto
  with run v lookup_frames [OF assms(2)] show ?thesis by auto
qed

lemma condition_Accept:
  assumes "analyze_condition e cg = Accept e' c" "scopes_ok cg"
  shows "c = cg \<and> condition_ok (frames_of cg) e'"
proof -
  obtain c1 c2 t where run: "cg_analyze_expr e cg = Accept e' c1" "cg_infer_expr_type_desc_simple e' c1 = Accept t c2"
      "base_type t = TYPE_BOOL" "c = c2"
    using assms(1) by (auto simp: analyze_condition_def cg_check_condition_type_desc_simple_def accepted split: if_splits)
  have e': "c1 = cg" "typed (frames_of cg) e'" "e' \<noteq> Null \<longrightarrow>
      (\<exists>t. known_desc e' = Some t \<and> cg_infer_expr_type_desc_simple e' cg = Accept t cg)"
    using analyze_typed [OF run(1) assms(2)] by auto
  moreover have "e' \<noteq> Null" using run(2) by auto
  ultimately show ?thesis using run by (auto simp: condition_ok_def)
qed

lemma iterated_Accept:
  assumes "cg_analyze_expr e cg = Accept e' c1" "iterated e' (cg_enter_scope cg) = Accept d c" "scopes_ok cg"
  shows "c = cg_enter_scope cg \<and> element_type_of e' = Some d"
proof -
  obtain t where inf: "cg_infer_expr_type_desc_simple e' (cg_enter_scope cg) = Accept t c" "element_desc t = Some d"
    using assms(2) by (auto simp: iterated_def Let_def split: verdict.splits option.splits)
  have "e' \<noteq> Null" using inf by auto
  then obtain u where u: "known_desc e' = Some u" "cg_infer_expr_type_desc_simple e' cg = Accept u cg"
    using analyze_typed [OF assms(1,3)] by auto
  have "t = u" "c = cg_enter_scope cg"
    using infer_carries [OF enter_same_names [OF assms(3)], of e'] u(2) inf(1) by (auto simp: carries_def)
  then show ?thesis using inf(2) u(1) clone_same by (cases u) (auto simp: element_type_of_def)
qed

lemma struct_frames:
  "cg_declare_struct_from_ast n fs cg = Accept u c \<Longrightarrow>
   scope_depth c = scope_depth cg \<and> frames_of c = frames_of cg \<and> scopes_ok c = scopes_ok cg"
  using same_vars_frames [of c cg] by (auto simp: cg_declare_struct_from_ast_def split: if_splits)

lemma class_frames:
  "cg_declare_class_from_ast n p fs ms k cg = Accept u c \<Longrightarrow>
   scope_depth c = scope_depth cg \<and> frames_of c = frames_of cg \<and> scopes_ok c = scopes_ok cg"
  using same_vars_frames [of c cg] by (auto simp: cg_declare_class_from_ast_def split: if_splits)

lemma enter_depth [simp]: "scope_depth (cg_enter_scope cg) = Suc (scope_depth cg)"
  by (simp add: cg_enter_scope_def)

lemma typed_Null: "typed fs e \<Longrightarrow> e \<noteq> Null \<Longrightarrow> known_desc e \<noteq> None"
  by (cases e) (auto simp: typed_def node_typed_def)

lemma each_branch: "each f (stmts_of b) cg = Accept b' c \<Longrightarrow> stmts_of (branch b b') = b'"
  by (cases b) auto

lemma inner_typed:
  assumes "\<And>s. s \<in> set (stmts_of b) \<Longrightarrow> keeps_typing f s" "each f (stmts_of b) (cg_enter_scope cg) = Accept b' c" "scopes_ok cg"
  shows "scopes_ok (cg_leave_scope c) \<and> scope_depth (cg_leave_scope c) = scope_depth cg \<and>
    frames_of (cg_leave_scope c) = frames_of cg \<and> all_typed stmt_typed (stmts_of (branch b b')) ([] # frames_of cg) \<noteq> None"
  using block_typed [OF assms(1,2) enter_frames [OF assms(3)]] each_branch [OF assms(2)] by simp

lemma loop_typed:
  assumes "\<And>s. s \<in> set (stmts_of b) \<Longrightarrow> keeps_typing f s" "cg_declare_var x (Some d) False (cg_enter_scope cg) = Accept u c1"
    and "each f (stmts_of b) c1 = Accept b' c" "scopes_ok cg"
  shows "scopes_ok (cg_leave_scope c) \<and> scope_depth (cg_leave_scope c) = scope_depth cg \<and>
    frames_of (cg_leave_scope c) = frames_of cg \<and> all_typed stmt_typed (stmts_of (branch b b')) ([(x, d, False)] # frames_of cg) \<noteq> None"
proof -
  have c1: "scopes_ok c1" "scope_depth c1 = Suc (scope_depth cg)" "frames_of c1 = [(x, d, False)] # frames_of cg"
    using declare_frames [OF enter_frames(1) assms(2)] enter_frames(2) assms(4) by auto
  with block_typed [OF assms(1,3) c1(1,3)] each_branch [OF assms(3)] show ?thesis by simp
qed

lemma analyze_stmt_typed: "keeps_typing cg_analyze_stmt s"
proof (induction s rule: measure_induct_rule [of size])
  case (less s)
  obtain h k where s: "s = Stmt h k" by (cases s)
  have IH: "keeps_typing cg_analyze_stmt t" if "t \<in> set (stmts_of b)" "size_option (size_list size) b \<le> size k" for t b
    using less stmt_in_size [OF that(1)] that(2) s by auto
  show ?case unfolding keeps_typing_def
  proof (intro allI impI)
    fix cg s' c
    assume run: "cg_analyze_stmt s cg = Accept s' c" and ok: "scopes_ok cg"
    note A = analyze_typed [OF _ ok]
    show "scopes_ok c \<and> scope_depth c = scope_depth cg \<and> stmt_typed s' (frames_of cg) = Some (frames_of c)"
    proof (cases k)
      case (SVarDecl x t td e const)
      then show ?thesis using run s ok 
        by (auto simp: accepted dest!: A decl_Accept dest: typed_Null)
    next
      case (SVarAssign x e op)
      then show ?thesis using run s ok by (auto simp: accepted guarded_def dest!: assign_Accept)
    next
      case (SIf e t f)
      obtain e' c1 where c: "analyze_condition e cg = Accept e' c1" and run':
          "vbind (each cg_analyze_stmt (stmts_of t) (cg_enter_scope c1)) (\<lambda>t' c2.
            if f = None then Accept (Stmt h (SIf e' (branch t t') f)) (cg_leave_scope c2)
            else vbind (each cg_analyze_stmt (stmts_of f) (cg_enter_scope (cg_leave_scope c2))) (\<lambda>f' c3.
              Accept (Stmt h (SIf e' (branch t t') (branch f f'))) (cg_leave_scope c3))) = Accept s' c"
        using run unfolding s SIf by (auto simp: vbind_Accept)
      have c1: "c1 = cg" and cond: "condition_ok (frames_of cg) e'" using condition_Accept [OF c ok] by auto
      obtain t' c2 where r: "each cg_analyze_stmt (stmts_of t) (cg_enter_scope cg) = Accept t' c2"
          and rest: "(if f = None then Accept (Stmt h (SIf e' (branch t t') f)) (cg_leave_scope c2)
            else vbind (each cg_analyze_stmt (stmts_of f) (cg_enter_scope (cg_leave_scope c2))) (\<lambda>f' c3.
              Accept (Stmt h (SIf e' (branch t t') (branch f f'))) (cg_leave_scope c3))) = Accept s' c"
        using run' unfolding c1 by (auto simp: vbind_Accept)
      have t: "scopes_ok (cg_leave_scope c2)" "scope_depth (cg_leave_scope c2) = scope_depth cg"
          "frames_of (cg_leave_scope c2) = frames_of cg" "all_typed stmt_typed (stmts_of (branch t t')) ([] # frames_of cg) \<noteq> None"
        using inner_typed [OF IH r ok] SIf by simp_all
      show ?thesis
      proof (cases f)
        case None
        then show ?thesis using rest t cond by (auto simp: guarded_def)
      next
        case (Some ss)
        obtain f' c3 where f: "each cg_analyze_stmt (stmts_of f) (cg_enter_scope (cg_leave_scope c2)) = Accept f' c3"
            "s' = Stmt h (SIf e' (branch t t') (branch f f'))" "c = cg_leave_scope c3"
          using rest Some by (auto simp: accepted)
        have "scopes_ok c \<and> scope_depth c = scope_depth cg \<and> frames_of c = frames_of cg \<and>
            all_typed stmt_typed (stmts_of (branch f f')) ([] # frames_of cg) \<noteq> None"
          using inner_typed [OF IH f(1) t(1)] SIf t f(3) by simp
        then show ?thesis using t(4) cond f(2) by (simp add: guarded_def)
      qed
    next
      case (SWhile e b)
      obtain e' b' c2 where r: "analyze_condition e cg = Accept e' cg" "each cg_analyze_stmt (stmts_of b) (cg_enter_scope cg) = Accept b' c2"
          "s' = Stmt h (SWhile e' (branch b b'))" "c = cg_leave_scope c2"
        using run condition_Accept [OF _ ok] unfolding s SWhile by (simp add: vbind_Accept) blast
      then show ?thesis
        using condition_Accept [OF r(1) ok] inner_typed [OF IH r(2) ok] SWhile by (simp add: guarded_def)
    next
      case (SFor x e b)
      obtain e' b' c2 c3 where r: "cg_analyze_expr e cg = Accept e' cg"
          "cg_declare_var x (Some (TPrim TYPE_INT)) False (cg_enter_scope cg) = Accept () c2"
          "each cg_analyze_stmt (stmts_of b) c2 = Accept b' c3" "s' = Stmt h (SFor x e' (branch b b'))" "c = cg_leave_scope c3"
        using run A unfolding s SFor by (simp add: vbind_Accept type_descriptor_create_primitive_def) blast
      then show ?thesis using A [OF r(1)] loop_typed [OF IH r(2,3) ok] SFor by (simp add: guarded_def)
    next
      case (SForIn x e b)
      obtain e' d b' c1 c2 c3 where r: "cg_analyze_expr e cg = Accept e' cg" "iterated e' (cg_enter_scope cg) = Accept d c1"
          "cg_declare_var x (Some d) False c1 = Accept () c2"
          "each cg_analyze_stmt (stmts_of b) c2 = Accept b' c3" "s' = Stmt h (SForIn x e' (branch b b'))" "c = cg_leave_scope c3"
        using run A unfolding s SForIn by (simp add: vbind_Accept) blast
      have it: "c1 = cg_enter_scope cg" "element_type_of e' = Some d" using iterated_Accept [OF r(1,2) ok] by auto
      then show ?thesis using A [OF r(1)] loop_typed [OF IH r(3) [unfolded it(1)] r(4) ok] r(5,6) SForIn by (simp add: guarded_def)
    next
      case (SStructDecl n fs)
      then show ?thesis using run s ok by (auto simp: accepted dest!: struct_frames)
    next
      case (SClassDecl n p fs ms ctor)
      then show ?thesis using run s ok by (auto simp: accepted dest!: class_frames)
    qed (use run s ok in \<open>auto simp: accepted guarded_def dest!: A\<close>)
  qed
qed

section \<open>Accepted programs are well typed\<close>

lemma every_Accept [accepted]: "every f xs cg = Accept u c \<longleftrightarrow> (\<exists>ys. each f xs cg = Accept ys c)"
  by (auto simp: every_def accepted)

lemma return_stmt_Accept: "cg_check_return_stmt sig e cg = Accept u c \<Longrightarrow> c = cg \<and>
    (if e = Null then return_type sig = TYPE_NIL
     else known_desc e \<noteq> None \<longrightarrow> (\<forall>r. return_type_desc sig = Some r \<longrightarrow> type_descriptor_compatible (known_desc e) (Some r)))"
  by (auto simp: cg_check_return_stmt_def split: if_splits option.splits)

definition tagged_return :: "ASTStmt \<Rightarrow> bool" where
  \<comment> \<open>a returned expression has a type\<close>
  "tagged_return s = (case stmt_node s of SReturn e \<Rightarrow> e = Null \<or> known_desc e \<noteq> None | _ \<Rightarrow> True)"

definition no_functions :: "ASTStmt \<Rightarrow> bool" where
  "no_functions s = (case stmt_node s of SFuncDecl f \<Rightarrow> False | _ \<Rightarrow> True)"

lemma all_stmts_bodies: "P s \<and> list_all P (concat (map all_stmts (bodies s))) \<longleftrightarrow> list_all P (all_stmts s)"
  by (simp add: all_stmts.simps [of s])

lemma check_returns_quiet: "quiet (cg_check_returns_in_stmt sig s cg) cg"
proof (induction s rule: measure_induct_rule [of size])
  case (less s)
  obtain h k where s: "s = Stmt h k" by (cases s)
  have every_quiet: "quiet (every f xs cg) cg" if "\<And>x. x \<in> set xs \<Longrightarrow> quiet (f x cg) cg" for f and xs :: "ASTStmt list"
    unfolding every_def by (intro quiet_intros that)
  have IH: "quiet (cg_check_returns_in_stmt sig t cg) cg" if "t \<in> set (bodies s)" for t
    using less bodies_size that by blast
  have "quiet (cg_check_return_stmt sig e cg) cg" for e using return_stmt_Accept by (auto simp: quiet_def)
  then show ?case using IH unfolding s
    by (cases k) (auto simp: bodies_def intro!: every_quiet)
qed

lemma check_returns_Accept:
  "cg_check_returns_in_stmt sig s cg = Accept u c \<Longrightarrow> list_all tagged_return (all_stmts s) \<Longrightarrow>
   list_all no_functions (all_stmts s) \<Longrightarrow> list_all (return_ok sig) (all_stmts s)"
proof (induction s arbitrary: u c rule: measure_induct_rule [of size])
  case (less s)
  obtain h k where s: "s = Stmt h k" by (cases s)
  have inner: "list_all (return_ok sig) (concat (map all_stmts ss))"
    if run: "each (cg_check_returns_in_stmt sig) ss cg = Accept ys c" and ss: "set ss \<subseteq> set (bodies s)" for ss ys
  proof -
    have "list_all2 (\<lambda>x y. cg_check_returns_in_stmt sig x cg = Accept y cg) ss ys"
      using each_Accept [OF run check_returns_quiet] by simp
    then have each: "\<exists>y. cg_check_returns_in_stmt sig t cg = Accept y cg" if "t \<in> set ss" for t
      using that by (auto simp: list_all2_conv_all_nth in_set_conv_nth)
    have "list_all (return_ok sig) (all_stmts t)" if t: "t \<in> set ss" for t
    proof -
      obtain y where y: "cg_check_returns_in_stmt sig t cg = Accept y cg" using each [OF t] by blast
      have b: "t \<in> set (bodies s)" using t ss by blast
      then have "list_all tagged_return (all_stmts t)" "list_all no_functions (all_stmts t)"
        using less.prems(2,3) by (auto simp: list_all_iff all_stmts.simps [of s])
      then show ?thesis using less.IH [OF bodies_size [OF b] y] by simp
    qed
    then show ?thesis by (auto simp: list_all_iff)
  qed
  have tagged: "tagged_return s" "no_functions s" using less.prems(2,3) by (auto simp: all_stmts.simps [of s])
  have root: "return_ok sig s"
  proof (cases k)
    case (SReturn e)
    with return_stmt_Accept [of sig e cg u c] less.prems(1) tagged(1) show ?thesis
      by (auto simp: s return_ok_def tagged_return_def split: option.split)
  qed (simp_all add: s return_ok_def)
  have "list_all (return_ok sig) (concat (map all_stmts (bodies s)))"
  proof (cases "\<exists>ys. each (cg_check_returns_in_stmt sig) (bodies s) cg = Accept ys c")
    case True
    then show ?thesis using inner by blast
  next
    case False
    then have "bodies s = []" using less.prems(1) tagged(2) unfolding s
      by (cases k) (auto simp: bodies_def every_Accept no_functions_def)
    then show ?thesis by simp
  qed
  with root all_stmts_bodies show ?case by blast
qed

lemma stmt_typed_tagged: "stmt_typed s fs = Some gs \<Longrightarrow> tagged_return s \<and> no_functions s"
  using typed_Null by (cases s; cases "stmt_node s") (auto simp: tagged_return_def no_functions_def guarded_def split: if_splits)

lemma all_typed_member: "all_typed f ss fs = Some gs \<Longrightarrow> s \<in> set ss \<Longrightarrow> \<exists>hs hs'. f s hs = Some hs'"
  by (induction ss arbitrary: fs) (auto split: option.splits)

lemma typed_inner: "stmt_typed s fs = Some gs \<Longrightarrow> t \<in> set (bodies s) \<Longrightarrow> \<exists>hs hs'. stmt_typed t hs = Some hs'"
proof (cases s)
  case (Stmt h k)
  assume "stmt_typed s fs = Some gs" "t \<in> set (bodies s)"
  then show ?thesis unfolding Stmt
    by (cases k) (auto simp: guarded_def bodies_def split: if_splits option.splits dest: all_typed_member)
qed

lemma typed_all: "stmt_typed s fs = Some gs \<Longrightarrow> list_all (\<lambda>t. tagged_return t \<and> no_functions t) (all_stmts s)"
proof (induction s arbitrary: fs gs rule: measure_induct_rule [of size])
  case (less s)
  have "list_all (\<lambda>t. tagged_return t \<and> no_functions t) (all_stmts t)" if "t \<in> set (bodies s)" for t
    using less typed_inner [OF less.prems that] bodies_size [OF that] by blast
  then show ?case using stmt_typed_tagged [OF less.prems] all_stmts_bodies by (auto simp: list_all_iff all_stmts.simps [of s])
qed


lemma params_typed:
  assumes "each (\<lambda>(n, t, d). cg_declare_var n t False) ps cg = Accept us c" "scopes_ok cg"
  shows "scopes_ok c \<and> scope_depth c = scope_depth cg \<and> all_typed param_typed ps (frames_of cg) = Some (frames_of c)"
  using assms
proof (induction ps arbitrary: cg us)
  case (Cons p ps)
  obtain n t d where p: "p = (n, t, d)" by (cases p)
  obtain u c1 us1 where run: "cg_declare_var n t False cg = Accept u c1"
      "each (\<lambda>(n, t, d). cg_declare_var n t False) ps c1 = Accept us1 c"
    using Cons.prems(1) by (auto simp: accepted p)
  with declare_frames [OF Cons.prems(2) run(1)] Cons.IH [OF run(2)] show ?case
    by (auto simp: p param_typed_def)
qed simp

lemma body_stmt_Accept:
  assumes "body_stmt sig s cg = Accept s' c"
  shows "cg_analyze_stmt s cg = Accept s' c" "cg_check_returns_in_stmt sig s' c = Accept () c"
  using assms quietD [OF check_returns_quiet] by (auto simp: body_stmt_def accepted)

lemma body_keeps_typing: "keeps_typing (body_stmt sig) s"
  using analyze_stmt_typed body_stmt_Accept(1) unfolding keeps_typing_def by blast

lemma body_returns:
  assumes "each (body_stmt sig) ss cg = Accept ss' c" "scopes_ok cg"
  shows "list_all (return_ok sig) (concat (map all_stmts ss'))"
  using assms
proof (induction ss arbitrary: cg ss')
  case (Cons s ss)
  obtain s' c1 ss1 where run: "body_stmt sig s cg = Accept s' c1" "each (body_stmt sig) ss c1 = Accept ss1 c" "ss' = s' # ss1"
    using Cons.prems(1) by (auto simp: accepted)
  have ty: "scopes_ok c1" "stmt_typed s' (frames_of cg) = Some (frames_of c1)"
    using body_keeps_typing Cons.prems(2) run(1) unfolding keeps_typing_def by blast+
  have "list_all tagged_return (all_stmts s')" "list_all no_functions (all_stmts s')"
    using typed_all [OF ty(2)] by (auto simp: list_all_iff)
  then have "list_all (return_ok sig) (all_stmts s')"
    using check_returns_Accept [OF body_stmt_Accept(2) [OF run(1)]] by simp
  then show ?case using Cons.IH [OF run(2) ty(1)] run(3) by simp
qed (simp add: accepted)

lemma function_Accept:
  assumes "analyze_function f cg = Accept f' c" "scopes_ok cg"
  shows "scopes_ok c \<and> scope_depth c = scope_depth cg \<and> frames_of c = frames_of cg \<and> function_typed f' (frames_of cg)"
proof -
  let ?sig = "func_sig f"
  obtain us c1 b' c2 where run: "each (\<lambda>(n, t, d). cg_declare_var n t False) (func_params ?sig) (cg_enter_scope cg) = Accept us c1"
      "each (body_stmt ?sig) (func_stmts f) c1 = Accept b' c2" "must_return ?sig (branch (func_body f) b') c2 = Accept () c2"
      "f' = FuncDecl ?sig (branch (func_body f) b') (opt_info f)" "c = cg_leave_scope c2"
    using assms(1) by (auto simp: analyze_function_def accepted Let_def must_return_def split: if_splits)
  have enter: "scopes_ok (cg_enter_scope cg)" "frames_of (cg_enter_scope cg) = [] # frames_of cg"
    using enter_frames [OF assms(2)] by auto
  have ps: "scopes_ok c1" "scope_depth c1 = Suc (scope_depth cg)"
      "all_typed param_typed (func_params ?sig) ([] # frames_of cg) = Some (frames_of c1)"
    using params_typed [OF run(1) enter(1)] enter(2) by simp_all
  have params_tl: "all_typed param_typed qs gs = Some hs \<Longrightarrow> tl hs = tl gs \<and> (hs = [] \<longleftrightarrow> gs = [])" for qs gs hs
    by (induction qs arbitrary: gs) (auto simp: param_typed_def dest: declare_name_tl split: option.splits prod.splits)
  obtain fr where fr: "frames_of c1 = fr # frames_of cg"
    using params_tl [OF ps(3)] by (cases "frames_of c1") auto
  have stmts: "func_stmts f' = b'"
    using run(2,4) by (cases "func_body f") (auto simp: func_stmts_def' branch_def)
  have blk: "scopes_ok c" "scope_depth c = scope_depth cg" "frames_of c = frames_of cg" "all_typed stmt_typed b' (frames_of c1) \<noteq> None"
    using block_typed [OF body_keeps_typing run(2) ps(1) fr] ps(2) run(5) fr by simp_all
  moreover have "list_all (return_ok ?sig) (concat (map all_stmts b'))" by (rule body_returns [OF run(2) ps(1)])
  moreover have "return_type ?sig = TYPE_NIL \<or> returns_optional ?sig \<or> list_guarantees_return b'"
    using run(3) stmts run(4) by (auto simp: must_return_def cg_stmt_list_guarantees_return_def func_stmts_def' split: if_splits)
  ultimately show ?thesis using ps(3) stmts by (simp add: function_typed_def run(4))
qed

lemma top_Accept:
  assumes "analyze_top s cg = Accept s' c" "scopes_ok cg"
  shows "scopes_ok c \<and> top_typed s' (frames_of cg) = Some (frames_of c)"
proof (cases "\<exists>f. stmt_node s = SFuncDecl f")
  case True
  then show ?thesis using assms function_Accept by (auto simp: analyze_top_def accepted top_typed_def guarded_def)
next
  case False
  then have "cg_analyze_stmt s cg = Accept s' c" using assms(1) by (auto simp: analyze_top_def split: stmt_node.splits)
  then have ty: "scopes_ok c" "stmt_typed s' (frames_of cg) = Some (frames_of c)"
    using analyze_stmt_typed assms(2) unfolding keeps_typing_def by blast+
  then show ?thesis using stmt_typed_tagged [OF ty(2)] by (auto simp: top_typed_def no_functions_def split: stmt_node.splits)
qed

lemma declare_functions_vars:
  "each declare_function_stmt ss cg = Accept us c \<Longrightarrow> cg_vars c = cg_vars cg \<and> scope_depth c = scope_depth cg"
proof (induction ss arbitrary: cg us)
  case (Cons s ss)
  have "cg_vars c1 = cg_vars cg \<and> scope_depth c1 = scope_depth cg" if "declare_function_stmt s cg = Accept u c1" for u c1
    using that by (auto simp: declare_function_stmt_def cg_declare_function_from_ast_def split: stmt_node.splits if_splits)
  then show ?case using Cons by (fastforce simp: accepted)
qed simp

lemma each_top_typed:
  "each analyze_top ss cg = Accept ss' c \<Longrightarrow> scopes_ok cg \<Longrightarrow> all_typed top_typed ss' (frames_of cg) = Some (frames_of c)"
proof (induction ss arbitrary: cg ss')
  case (Cons s ss)
  obtain s' c1 ss1 where run: "analyze_top s cg = Accept s' c1" "each analyze_top ss c1 = Accept ss1 c" "ss' = s' # ss1"
    using Cons.prems(1) by (auto simp: accepted)
  with top_Accept [OF run(1) Cons.prems(2)] Cons.IH [OF run(2)] show ?case by simp
qed simp

lemma accepted_typed:
  assumes "cg_semantic_analyze program cg = Accept program' c"
  shows "program_typed program' \<and> \<not> had_error c"
proof -
  obtain us c1 where run: "each declare_function_stmt program (start_analysis cg) = Accept us c1"
      "each analyze_top program c1 = Accept program' c" "\<not> had_error c"
    using assms by (auto simp: cg_semantic_analyze_def accepted split: if_splits)
  have "cg_vars c1 = []" "scope_depth c1 = 0"
    using declare_functions_vars [OF run(1)] by (simp_all add: start_analysis_def)
  then have "scopes_ok c1" "frames_of c1 = [[]]" by (simp_all add: scopes_ok_def frames_of_def frame_at_def)
  with each_top_typed [OF run(2)] run(3) show ?thesis by (simp add: program_typed_def)
qed

text \<open>
  C1: every program the semantic analysis accepts is well typed: each name is declared once in its scope and
  before it is used, every expression has a type and a variable the type it was declared with,
  conditions are truth values, constants are not assigned to, the values of declarations, assignments and
  returns fit, and a function that must return a value has a return on every path; and no error has been recorded.
\<close>
theorem accepted_program_typed:
  "cg_semantic_analyze program cg = Accept program' c \<Longrightarrow> program_typed program' \<and> \<not> had_error c"
  by (rule accepted_typed)

section \<open>Functions that must return\<close>

text \<open>
  How the execution of a statement can end, whatever its conditions turn out to be.
\<close>

datatype ending = Falls | Returns | Breaks | Continues

fun ends_plainly :: "stmt_node \<Rightarrow> bool" where
  "ends_plainly (SIf e t f) = False"
| "ends_plainly (SWhile e b) = False"
| "ends_plainly (SFor x e b) = False"
| "ends_plainly (SForIn x e b) = False"
| "ends_plainly (SReturn e) = False"
| "ends_plainly SBreak = False"
| "ends_plainly SContinue = False"
| "ends_plainly k = True"

fun loop_body :: "stmt_node \<Rightarrow> ASTStmt list option" where
  "loop_body (SWhile e b) = Some (stmts_of b)"
| "loop_body (SFor x e b) = Some (stmts_of b)"
| "loop_body (SForIn x e b) = Some (stmts_of b)"
| "loop_body k = None"

inductive ends :: "ASTStmt \<Rightarrow> ending \<Rightarrow> bool" and list_ends :: "ASTStmt list \<Rightarrow> ending \<Rightarrow> bool" where
  plain: "ends_plainly k \<Longrightarrow> ends (Stmt h k) Falls"
| return: "ends (Stmt h (SReturn e)) Returns"
| "break": "ends (Stmt h SBreak) Breaks"
| "continue": "ends (Stmt h SContinue) Continues"
| if_then: "list_ends (stmts_of t) r \<Longrightarrow> ends (Stmt h (SIf e t f)) r"
| if_else: "list_ends (stmts_of f) r \<Longrightarrow> ends (Stmt h (SIf e t f)) r"
| loop_done: "loop_body k = Some ss \<Longrightarrow> ends (Stmt h k) Falls"
| loop_break: "loop_body k = Some ss \<Longrightarrow> list_ends ss Breaks \<Longrightarrow> ends (Stmt h k) Falls"
| loop_return: "loop_body k = Some ss \<Longrightarrow> list_ends ss Returns \<Longrightarrow> ends (Stmt h k) Returns"
| loop_again: "loop_body k = Some ss \<Longrightarrow> list_ends ss r \<Longrightarrow> r = Falls \<or> r = Continues \<Longrightarrow> ends (Stmt h k) r' \<Longrightarrow> ends (Stmt h k) r'"
| empty: "list_ends [] Falls"
| skip: "ends s Falls \<Longrightarrow> list_ends ss r \<Longrightarrow> list_ends (s # ss) r"
| stop: "ends s r \<Longrightarrow> r \<noteq> Falls \<Longrightarrow> list_ends (s # ss) r"

inductive_cases ends_elim: "ends s r"
inductive_cases list_ends_Nil [elim!]: "list_ends [] r"
inductive_cases list_ends_Cons [elim]: "list_ends (s # ss) r"

lemma guaranteed:
  "ends s r \<Longrightarrow> cg_stmt_guarantees_return s \<Longrightarrow> r \<noteq> Falls"
  "list_ends ss r \<Longrightarrow> list_guarantees_return ss \<Longrightarrow> r \<noteq> Falls"
proof (induction rule: ends_list_ends.inducts)
  case (plain k h) then show ?case by (cases k) auto
next
  case (loop_done k ss h) then show ?case by (cases k) auto
next
  case (loop_break k ss h) then show ?case by (cases k) auto
qed auto

lemma typed_functions:
  "all_typed top_typed ss fs = Some gs \<Longrightarrow> Stmt h (SFuncDecl f) \<in> set ss \<Longrightarrow> \<exists>hs. function_typed f hs"
  by (induction ss arbitrary: fs) (auto simp: top_typed_def guarded_def split: option.splits if_splits)

text \<open>
  C2: in an accepted program a function with a return type that is neither Nil nor optional never runs past its
  end: whichever way its conditions and loops go, its body does not fall through.
\<close>
theorem accepted_functions_return:
  assumes "cg_semantic_analyze program cg = Accept program' c" and "Stmt h (SFuncDecl f) \<in> set program'"
    and "return_type (func_sig f) \<noteq> TYPE_NIL" and "\<not> returns_optional (func_sig f)"
    and "list_ends (func_stmts f) r"
  shows "r \<noteq> Falls"
proof -
  obtain gs where "all_typed top_typed program' [[]] = Some gs"
    using accepted_typed [OF assms(1)] by (auto simp: program_typed_def)
  then obtain hs where "function_typed f hs" using typed_functions assms(2) by blast
  then show ?thesis using guaranteed(2) assms(3-5) by (auto simp: function_typed_def)
qed

section \<open>Types at compile time and at run time\<close>

lemma equals_base: "type_descriptor_equals (Some a) (Some b) \<Longrightarrow> base_type a = base_type b"
  by (cases a) (auto split: TypeDescriptor.splits)

lemma typed_checked_int: "bnd (checked_int i) (\<lambda>v. Done (Some v, m)) = Done (res, m') \<Longrightarrow> \<exists>w. res = Some (VInt w)"
  by (auto simp: checked_int_def bread_value_set_int_def split: if_splits)

lemma int_arith_result:
  "int_arith op a b m = Done (res, m') \<Longrightarrow> op \<in> {CHR ''-'', CHR ''*'', CHR ''/'', CHR ''%''} \<Longrightarrow> \<exists>i. res = Some (VInt i)"
  by (auto simp: int_arith_def raise_fatal bnd_Done_iff dest: typed_checked_int split: if_splits)
    (auto simp: checked_int_def bread_value_set_int_def split: if_splits)

lemma double_arith_result:
  "double_arith op a b m = Done (res, m') \<Longrightarrow> op \<in> {CHR ''-'', CHR ''*'', CHR ''/''} \<Longrightarrow> \<exists>x. res = Some (VDouble x)"
  by (auto simp: double_arith_def raise_fatal split: if_splits)

lemma numeric_result:
  assumes "op \<in> arithmetic_ops" "vtype v = vtype w" "numeric (vtype v)" "op = CHR ''%'' \<longrightarrow> vtype v = TYPE_INT"
    and "bread_binary_op op v w m = Done (res, m')"
  shows "\<exists>u. res = Some u \<and> vtype u = (if vtype v = TYPE_INT then TYPE_INT else TYPE_DOUBLE)"
proof (cases "op = CHR ''+''")
  case True
  then have "bread_add v w m = Done (res, m')" using assms(5) by (simp add: bread_binary_op_def)
  then show ?thesis using assms(2,3)
    by (cases v; cases w) (auto simp: numeric_def bread_add_def bread_value_is_number_def dest!: typed_checked_int)
next
  case False
  then have op: "op \<in> {CHR ''-'', CHR ''*'', CHR ''/'', CHR ''%''}" using assms(1) by (auto simp: arithmetic_ops_def)
  then have run: "bread_arithmetic_op op v w m = Done (res, m')"
    using assms(5) False unfolding bread_binary_op_def by (simp only: if_True if_False)
  show ?thesis
  proof (cases "vtype v = TYPE_INT")
    case True
    then obtain a b where "v = VInt a" "w = VInt b" using assms(2) by (cases v; cases w) auto
    then show ?thesis using run by (auto simp: bread_arithmetic_op_def bread_value_is_number_def dest!: int_arith_result [OF _ op])
  next
    case False
    then have "op \<in> {CHR ''-'', CHR ''*'', CHR ''/''}" using op assms(4) by auto
    moreover have "double_arith op (bread_value_as_double v) (bread_value_as_double w) m = Done (res, m')"
      using run False assms(2,3) by (cases v; cases w) (auto simp: numeric_def bread_arithmetic_op_def bread_value_is_number_def)
    ultimately show ?thesis using double_arith_result False by fastforce
  qed
qed

lemma comparison_result:
  assumes "op \<in> comparison_ops" "vtype v = vtype w" "vtype v \<in> {TYPE_INT, TYPE_DOUBLE, TYPE_FLOAT, TYPE_BOOL, TYPE_STRING}"
    and "bread_binary_op op v w m = Done (res, m')"
  shows "\<exists>b. res = Some (VBool b)"
proof -
  have op: "op \<noteq> CHR ''+''" "op \<notin> {CHR ''-'', CHR ''*'', CHR ''/'', CHR ''%''}"
      "op \<in> {CHR ''='', CHR ''!'', CHR ''<'', CHR ''>'', CHR ''l'', CHR ''g''}"
    using assms(1) by (auto simp: comparison_ops_def)
  then have run: "bnd (bread_compare_values op v w m) (\<lambda>(r, m1). Done (map_option bread_value_set_bool r, m1)) = Done (res, m')"
    using assms(4) unfolding bread_binary_op_def by (simp only: if_True if_False)
  have "by_op op e l g \<noteq> None" for e l g using op(3) by (auto simp: by_op_def)
  then show ?thesis using run assms(2,3)
    by (cases v; cases w) (auto simp: bread_compare_values_def bnd_Done_iff Let_def bread_value_set_bool_def)
qed

text \<open>
  C3: what the analysis infers for an operator is what the runtime computes: on operands of the inferred types
  an accepted operator, if it returns, has a result, of the inferred type. Two things are left to the
  programmer: remainders of floating-point numbers, and comparisons of different types or of compound ones.
\<close>
theorem operator_types_agree:
  assumes "cg_infer_expr_type_desc_simple (Expr nt (EBinary op l r)) cg = Accept t c"
    and "cg_infer_expr_type_desc_simple l cg = Accept lt cg" "vtype v = base_type lt"
    and "cg_infer_expr_type_desc_simple r cg = Accept rt cg" "vtype w = base_type rt"
    and "op = CHR ''%'' \<longrightarrow> vtype v = TYPE_INT"
    and "op \<in> comparison_ops \<longrightarrow> vtype v = vtype w \<and> vtype v \<in> {TYPE_INT, TYPE_DOUBLE, TYPE_FLOAT, TYPE_BOOL, TYPE_STRING}"
    and "bread_binary_op op v w m = Done (res, m')"
  shows "\<exists>u. res = Some u \<and> vtype u = base_type t"
proof -
  have ty: "binary_type op lt rt cg = Accept t c"
    using assms(1,2,4) by (simp add: cg_infer_expr_type_desc_simple.simps(2) both_def)
  consider (arith) "op \<in> arithmetic_ops" | (cmp) "op \<in> comparison_ops" "op \<notin> arithmetic_ops"
    | (logic) "op \<in> logical_ops" "op \<notin> arithmetic_ops" "op \<notin> comparison_ops"
    using ty by (auto simp: binary_type_def split: if_splits)
  then show ?thesis
  proof cases
    case arith
    show ?thesis
    proof (cases "op = CHR ''+'' \<and> base_type lt = TYPE_STRING \<and> base_type rt = TYPE_STRING")
      case True
      then have "t = lt" using ty arith by (simp add: binary_type_def)
      then show ?thesis using True assms(3,5,8) by (auto simp: bread_binary_op_def bread_add_def split: prod.splits)
    next
      case False
      then have eq: "base_type lt = base_type rt" "numeric (base_type lt)"
          "base_type t = (if base_type lt = TYPE_INT then TYPE_INT else TYPE_DOUBLE)"
        using ty arith equals_base
        by (auto simp: binary_type_def accepted type_descriptor_create_primitive_def split: if_splits)
      then show ?thesis using numeric_result [OF arith _ _ assms(6,8)] assms(3,5) by auto
    qed
  next
    case cmp
    then have "base_type t = TYPE_BOOL"
      using ty by (auto simp: binary_type_def accepted type_descriptor_create_primitive_def)
    then show ?thesis using comparison_result [OF cmp(1) _ _ assms(8)] assms(7) cmp(1) by auto
  next
    case logic
    then have ty': "base_type t = TYPE_BOOL" "base_type lt = TYPE_BOOL" "base_type rt = TYPE_BOOL"
      using ty by (auto simp: binary_type_def accepted type_descriptor_create_primitive_def split: if_splits)
    then obtain a b where "v = VBool a" "w = VBool b" using assms(3,5) by (cases v; cases w) auto
    moreover have "op = CHR ''&'' \<or> op = CHR ''|''" using logic by (auto simp: logical_ops_def)
    ultimately show ?thesis using assms(8) ty'(1) by (auto simp: bread_binary_op_def bread_value_set_bool_def)
  qed
qed

lemma remainder_of_doubles:
  \<comment> \<open>accepted, with type Double, and refused at run time\<close>
  "binary_type CHR ''%'' (TPrim TYPE_DOUBLE) (TPrim TYPE_DOUBLE) cg = Accept (TPrim TYPE_DOUBLE) cg"
  "bread_binary_op CHR ''%'' (VDouble x) (VDouble y) m =
     Done (None, noted BREAD_ERROR_TYPE_MISMATCH ''Modulo operation not supported for floating point numbers'' m)"
  by (simp_all add: binary_type_def arithmetic_ops_def numeric_def primitive_def out_of_def type_descriptor_create_primitive_def
      bread_binary_op_def bread_arithmetic_op_def bread_value_is_number_def double_arith_def type_error_def)

lemma comparison_of_types:
  \<comment> \<open>accepted, and refused at run time\<close>
  "binary_type CHR ''='' (TPrim TYPE_INT) (TPrim TYPE_STRING) cg = Accept (TPrim TYPE_BOOL) cg"
  "bread_binary_op CHR ''='' (VInt i) (VString s) m =
     Done (None, noted BREAD_ERROR_TYPE_MISMATCH ''Cannot compare different types'' m)"
  by (simp_all add: binary_type_def arithmetic_ops_def comparison_ops_def primitive_def out_of_def type_descriptor_create_primitive_def
      bread_binary_op_def bread_compare_values_def type_error_def)

lemma comparison_without_type:
  \<comment> \<open>the inference inside a function has other letters for four of the operators than the parser\<close>
  assumes "op \<in> {CHR ''l'', CHR ''g'', CHR ''='', CHR ''!''}"
  shows "context_binary op l r cg = Reject cg" "binary_type op l r cg = Accept (TPrim TYPE_BOOL) cg"
  using assms
  by (auto simp: context_binary_def binary_type_def arithmetic_ops_def comparison_ops_def logical_ops_def primitive_def
      out_of_def type_descriptor_create_primitive_def)

section \<open>The analysis ends\<close>

text \<open>
  A hierarchy is in order if no class has itself or a newer class as its parent; the list of
  classes is newest first. A walk up the parents then only meets older classes.
\<close>

fun in_order :: "CgClass list \<Rightarrow> bool" where
  "in_order [] = True"
| "in_order (c # cs) = ((\<forall>d \<in> set (c # cs). cc_parent d \<noteq> Some (cc_name c)) \<and> in_order cs)"

lemma in_order_drop: "in_order cs \<Longrightarrow> in_order (drop n cs)"
  by (induction cs arbitrary: n) (auto simp: drop_Cons split: nat.split)

lemma older_parent:
  assumes "in_order K" "i < length K" "cg_classes cg = K" "parent_of cg (K ! i) = Some p"
  shows "\<exists>j. i < j \<and> j < length K \<and> p = K ! j"
proof -
  obtain n where n: "cc_parent (K ! i) = Some n" "List.find (\<lambda>c. cc_name c = n) K = Some p"
    using assms(3,4) by (auto simp: parent_of_def cg_find_class_def split: option.splits)
  then obtain j where j: "j < length K" "cc_name (K ! j) = n" "p = K ! j" by (auto simp: find_Some_iff)
  have "\<not> j \<le> i"
  proof
    assume "j \<le> i"
    then have "K ! i = drop j K ! (i - j)" "i - j < length (drop j K)" using assms(2) by auto
    then have "K ! i \<in> set (drop j K)" by (metis nth_mem)
    moreover have "drop j K = K ! j # drop (Suc j) K" using j(1) by (simp add: Cons_nth_drop_Suc)
    ultimately show False using in_order_drop [OF assms(1), of j] n(1) j(2) by auto
  qed
  with j show ?thesis by (intro exI [of _ j]) simp
qed

lemma class_walk_ends:
  assumes "in_order K" "cg_classes cg = K" "\<And>c. f c \<noteq> None"
  shows "i < length K \<Longrightarrow> length K \<le> n + i \<Longrightarrow> class_walk n f cg (K ! i) \<noteq> None"
proof (induction n arbitrary: i)
  case (Suc n)
  have "class_walk n f cg p \<noteq> None" if "parent_of cg (K ! i) = Some p" for p
    using older_parent [OF assms(1) Suc.prems(1) assms(2) that] Suc by auto
  then show ?case using assms(3) [of "K ! i"] by (auto split: option.split)
qed auto

lemma find_class_member: "cg_find_class n cg = Some c \<Longrightarrow> c \<in> set (cg_classes cg)"
  by (auto simp: cg_find_class_def find_Some_iff)

lemma walk_ends:
  assumes "in_order (cg_classes cg)" "c \<in> set (cg_classes cg)" "\<And>c. f c \<noteq> None"
  shows "walk f cg c \<noteq> None"
proof -
  obtain i where "i < length (cg_classes cg)" "c = cg_classes cg ! i" using assms(2) by (auto simp: in_set_conv_nth)
  then show ?thesis using class_walk_ends [OF assms(1) refl assms(3), of i "Suc (length (cg_classes cg))"] by (simp add: walk_def)
qed

definition has_classes :: "CgClass list \<Rightarrow> Cg \<Rightarrow> bool" where
  "has_classes K cg \<longleftrightarrow> cg_classes cg = K"

definition answers :: "'a verdict \<Rightarrow> CgClass list \<Rightarrow> bool" where
  \<comment> \<open>the check returns and leaves the classes as they were\<close>
  "answers v K \<longleftrightarrow> (case v of Accept x c \<Rightarrow> has_classes K c | Reject c \<Rightarrow> has_classes K c | Never \<Rightarrow> False)"

named_theorems answer_intros \<open>checks that return\<close>

lemma answers_verdict [simp]:
  "answers (Accept x c) K \<longleftrightarrow> has_classes K c" "answers (Reject c) K \<longleftrightarrow> has_classes K c" "\<not> answers Never K"
  by (simp_all add: answers_def)

lemma report_classes [simp]:
  "has_classes K (report t cg) = has_classes K cg" "has_classes K (cg_error m n cg) = has_classes K cg"
  "has_classes K (cg_error_at m n cg) = has_classes K cg" "has_classes K (cg_type_error m a b cg) = has_classes K cg"
  "has_classes K (cg_type_error_at m a b cg) = has_classes K cg"
  by (simp_all add: has_classes_def cg_error_def cg_error_at_def cg_type_error_def cg_type_error_at_def report_def split: outcome.split)

lemma answers_vbind [answer_intros]:
  "answers v K \<Longrightarrow> (\<And>x c. has_classes K c \<Longrightarrow> answers (f x c) K) \<Longrightarrow> answers (vbind v f) K"
  by (cases v) auto

lemma answers_both [answer_intros]:
  "answers l K \<Longrightarrow> (\<And>c. has_classes K c \<Longrightarrow> answers (r c) K) \<Longrightarrow> (\<And>x y c. has_classes K c \<Longrightarrow> answers (f x y c) K) \<Longrightarrow>
   answers (both l r f) K"
  unfolding both_def by (cases l) (auto intro!: answers_vbind)

lemma answers_each [answer_intros]:
  "(\<And>x c. x \<in> set xs \<Longrightarrow> has_classes K c \<Longrightarrow> answers (f x c) K) \<Longrightarrow> has_classes K cg \<Longrightarrow> answers (each f xs cg) K"
  by (induction xs arbitrary: cg) (auto intro!: answer_intros)

lemma answers_chain [answer_intros]:
  "(\<And>x c. x \<in> set xs \<Longrightarrow> has_classes K c \<Longrightarrow> answers (f x c) K) \<Longrightarrow> (\<And>s y c. has_classes K c \<Longrightarrow> answers (g s y c) K) \<Longrightarrow>
   has_classes K cg \<Longrightarrow> answers (chain f g s xs cg) K"
  by (induction xs arbitrary: s cg) (auto intro!: answer_intros)

lemma answers_parts [answer_intros]:
  assumes K: "in_order K" and cg: "has_classes K cg"
  shows "answers (out_of t cg) K" "answers (primitive p cg) K" "answers (binary_type op l r cg) K"
    "answers (unary_type op d cg) K" "answers (call_type f cg) K" "answers (method_type d m cg) K"
    "answers (index_type d i cg) K" "answers (member_type d m cg) K" "answers (var_desc x cg) K"
    "answers (next_element d i cg) K" "answers (next_entry d i u kv cg) K"
proof -
  have ends: "walk f cg c \<noteq> None" if "cg_find_class n cg = Some c" "\<And>c. f c \<noteq> None" for n c and f :: "CgClass \<Rightarrow> TypeDescriptor option option option"
    using walk_ends [OF _ find_class_member [OF that(1)] that(2)] K cg by (simp add: has_classes_def)
  have found_method: "cg_find_class_method_decl cg c m \<noteq> None" if "cg_find_class n cg = Some c" for n c
    unfolding cg_find_class_method_decl_def
    by (rule walk_ends [OF _ find_class_member [OF that]]) (use K cg in \<open>simp_all add: has_classes_def\<close>)
  show out: "answers (out_of t cg) K" for t :: "'y option" by (simp add: out_of_def cg split: option.split)
  show prim: "answers (primitive p cg) K" for p by (simp add: primitive_def out_of_def cg split: option.split)
  have out': "answers (out_of t cg) K" for t :: "TypeDescriptor option" by (simp add: out_of_def cg split: option.split)
  show "answers (binary_type op l r cg) K" by (auto simp: binary_type_def prim cg)
  show "answers (unary_type op d cg) K" by (auto simp: unary_type_def prim cg)
  show "answers (call_type f cg) K" by (auto simp: call_type_def prim out' cg split: option.split)
  show "answers (index_type d i cg) K" by (auto simp: index_type_def prim out' cg split: TypeDescriptor.split)
  show "answers (var_desc x cg) K" by (auto simp: var_desc_def out' cg split: option.split)
  show "answers (next_entry d i u kv cg) K" by (auto simp: next_entry_def cg)
  show "answers (method_type d m cg) K"
    by (auto simp: method_type_def prim out' cg split: option.split dest: found_method)
  have field: "answers (field_desc t cg) K" for t by (auto simp: field_desc_def prim cg split: option.split)
  show "answers (member_type d m cg) K"
  proof (cases d)
    case (TClass n p fs)
    have "walk (\<lambda>k. Some (field_of m (cc_fields k))) cg c \<noteq> None" if "cg_find_class n cg = Some c" for c
      by (rule ends [OF that]) simp
    then show ?thesis by (auto simp: TClass member_type_def prim field cg split: option.split)
  qed (auto simp: member_type_def prim field cg split: option.split)
  have "cg_common_superclass_desc cg d i \<noteq> None"
  proof -
    have "walk (\<lambda>l. Some (if cc_name k = cc_name l then Some () else None)) cg c \<noteq> None" if "cg_find_class n cg = Some c" for k n c
      by (rule walk_ends [OF _ find_class_member [OF that]]) (use K cg in \<open>simp_all add: has_classes_def\<close>)
    note inner = this
    have "walk (\<lambda>k. map_option (map_option (\<lambda>_. class_desc k))
        (walk (\<lambda>l. Some (if cc_name k = cc_name l then Some () else None)) cg c)) cg b \<noteq> None"
      if "cg_find_class n cg = Some c" "cg_find_class n' cg = Some b" for n c n' b
      by (rule walk_ends [OF _ find_class_member [OF that(2)]]) (use K cg inner [OF that(1)] in \<open>simp_all add: has_classes_def\<close>)
    then show ?thesis by (auto simp: cg_common_superclass_desc_def split: option.splits)
  qed
  then show "answers (next_element d i cg) K" by (auto simp: next_element_def cg split: option.split)
qed

lemma infer_answers [answer_intros]:
  assumes "in_order K"
  shows "has_classes K cg \<Longrightarrow> answers (cg_infer_expr_type_desc_simple e cg) K"
proof (induction e arbitrary: cg rule: measure_induct_rule [of size])
  case (less e)
  show ?case
  proof (cases e)
    case (Expr nt k)
    have IH: "answers (cg_infer_expr_type_desc_simple x c) K" if "x \<in> set (children k)" "has_classes K c" for x c
      using less.IH [of x c] children_size [OF that(1)] that(2) Expr by simp
    show ?thesis using less.prems unfolding Expr
      by (cases k; simp split del: if_split add: cg_infer_expr_type_desc_simple.simps(2))
        (auto intro!: answer_intros assms IH operands intro: list.set_sel simp del: children.simps(5,10,11))
  qed (use less.prems in simp)
qed

lemma analyze_expr_answers [answer_intros]:
  assumes "in_order K"
  shows "has_classes K cg \<Longrightarrow> answers (cg_analyze_expr e cg) K"
proof (induction e arbitrary: cg rule: measure_induct_rule [of size])
  case (less e)
  have node: "answers (check_node k c) K" if "has_classes K c" for k c
    using that by (auto simp: check_node_def check_call_def argument_count_def split: ast_node.split option.split)
  have tag: "answers (infer_and_tag nt k c) K" if "has_classes K c" for nt k c
    using infer_answers [OF assms that, of "Expr nt k"] by (auto simp: infer_and_tag_def answers_def split: verdict.splits)
  show ?case
    using less by (cases e) (auto intro!: answer_intros node tag dest: analyzed_size)
qed


text \<open>The classes a program declares, in the order in which the analysis meets them.\<close>

fun declared_class :: "ASTStmt \<Rightarrow> (cstring \<times> cstring option) list" where
  "declared_class (Stmt h (SClassDecl n p fs ms ctor)) = [(n, p)]"
| "declared_class s = []"

definition class_decls :: "ASTStmt list \<Rightarrow> (cstring \<times> cstring option) list" where
  "class_decls ss = concat (map declared_class (concat (map all_stmts ss)))"

fun parents_first :: "(cstring \<times> cstring option) list \<Rightarrow> bool" where
  \<comment> \<open>no class names itself or a later class as its parent\<close>
  "parents_first [] = True"
| "parents_first ((n, p) # ds) = ((\<forall>m \<in> fst ` set ((n, p) # ds). p \<noteq> Some m) \<and> parents_first ds)"

definition values_present :: "ASTStmt \<Rightarrow> bool" where
  \<comment> \<open>an assignment has a value\<close>
  "values_present s = (case stmt_node s of SVarAssign x e op \<Rightarrow> e \<noteq> Null | _ \<Rightarrow> True)"

definition ready :: "(cstring \<times> cstring option) list \<Rightarrow> Cg \<Rightarrow> bool" where
  \<comment> \<open>for the declarations that are still to come\<close>
  "ready ds cg \<longleftrightarrow> in_order (cg_classes cg) \<and> parents_first ds \<and>
     (\<forall>c \<in> set (cg_classes cg). \<forall>m \<in> fst ` set ds. cc_parent c \<noteq> Some m)"

definition proceeds :: "'a verdict \<Rightarrow> (cstring \<times> cstring option) list \<Rightarrow> bool" where
  \<comment> \<open>the check returns, and if it accepts, the rest can follow\<close>
  "proceeds v ds \<longleftrightarrow> (case v of Accept x c \<Rightarrow> ready ds c | Reject c \<Rightarrow> True | Never \<Rightarrow> False)"

lemma proceeds_verdict [simp]:
  "proceeds (Accept x c) ds = ready ds c" "proceeds (Reject c) ds" "\<not> proceeds Never ds"
  by (simp_all add: proceeds_def)

lemma proceeds_vbind: "proceeds v ds \<Longrightarrow> (\<And>x c. ready ds c \<Longrightarrow> proceeds (f x c) es) \<Longrightarrow> proceeds (vbind v f) es"
  by (cases v) auto

lemma answers_proceeds: "answers v (cg_classes cg) \<Longrightarrow> ready ds cg \<Longrightarrow> proceeds v ds"
  by (cases v) (auto simp: ready_def has_classes_def)

lemma parents_first_append: "parents_first (ds @ es) \<Longrightarrow> parents_first es"
  by (induction ds) auto

lemma ready_later: "ready (ds @ es) cg \<Longrightarrow> ready es cg"
  by (auto simp: ready_def dest: parents_first_append)

lemma ready_scopes [simp]:
  "ready ds (cg_enter_scope cg) = ready ds cg" "ready ds (cg_leave_scope cg) = ready ds cg"
  by (simp_all add: ready_def cg_enter_scope_def cg_leave_scope_def)

lemma declare_var_proceeds: "ready ds cg \<Longrightarrow> proceeds (cg_declare_var x t c cg) ds"
  by (auto simp: cg_declare_var_def ready_def split: option.split)

lemma declare_struct_proceeds: "ready ds cg \<Longrightarrow> proceeds (cg_declare_struct_from_ast n fs cg) ds"
  by (auto simp: cg_declare_struct_from_ast_def ready_def)

lemma declare_class_proceeds: "ready ((n, p) # ds) cg \<Longrightarrow> proceeds (cg_declare_class_from_ast n p fs ms k cg) ds"
  by (auto simp: cg_declare_class_from_ast_def ready_def)

lemma analyze_expr_proceeds: "ready ds cg \<Longrightarrow> proceeds (cg_analyze_expr e cg) ds"
  by (rule answers_proceeds) (auto simp: ready_def has_classes_def intro: analyze_expr_answers)

lemma infer_proceeds: "ready ds cg \<Longrightarrow> proceeds (cg_infer_expr_type_desc_simple e cg) ds"
  by (rule answers_proceeds) (auto simp: ready_def has_classes_def intro: infer_answers)

lemma fits_proceeds: "ready ds cg \<Longrightarrow> proceeds (fits msg e t cg) ds"
  by (auto simp: fits_def split: option.split)

lemma condition_proceeds: "ready ds cg \<Longrightarrow> proceeds (analyze_condition e cg) ds"
  unfolding analyze_condition_def cg_check_condition_type_desc_simple_def
  by (rule proceeds_vbind [OF analyze_expr_proceeds], assumption, rule proceeds_vbind [where ds = ds])
    (auto intro!: proceeds_vbind [OF infer_proceeds])

lemma decl_proceeds: "ready ds cg \<Longrightarrow> proceeds (analyze_decl x td e c cg) ds"
  by (auto simp: analyze_decl_def Let_def split: option.split
      intro!: proceeds_vbind [OF declare_var_proceeds] proceeds_vbind [OF fits_proceeds])

lemma assign_proceeds:
  assumes "ready ds cg" "e \<noteq> Null"
  shows "proceeds (analyze_assign x e cg) ds"
proof -
  have var: "proceeds (assignable x cg) ds" using assms(1) by (auto simp: assignable_def split: option.split)
  have "e' \<noteq> Null" if "cg_analyze_expr e c = Accept e' c'" for e' c c'
    using that assms(2) by (cases e) (auto elim!: analyze_node_Accept simp del: cg_analyze_expr.simps(2))
  then have "proceeds (vbind (cg_analyze_expr e c1) (\<lambda>e' c2. if e' = Null then Never
       else vbind (fits ''Type mismatch in assignment'' e' (cv_desc v) c2) (\<lambda>_ c3. Accept e' c3))) ds" if "ready ds c1" for v c1
    using analyze_expr_proceeds [OF that, of e]
    by (cases "cg_analyze_expr e c1") (auto intro!: proceeds_vbind [OF fits_proceeds])
  then show ?thesis unfolding analyze_assign_def by (rule proceeds_vbind [OF var])
qed

lemma iterated_proceeds: "ready ds cg \<Longrightarrow> proceeds (iterated e cg) ds"
  using infer_proceeds [of ds cg e] by (auto simp: iterated_def Let_def split: verdict.split option.split)


lemma each_proceeds:
  assumes "\<And>s cg es. s \<in> set ss \<Longrightarrow> ready (d s @ es) cg \<Longrightarrow> proceeds (f s cg) es"
  shows "ready (concat (map d ss) @ es) cg \<Longrightarrow> proceeds (each f ss cg) es"
  using assms
proof (induction ss arbitrary: cg)
  case (Cons s ss)
  then have "proceeds (f s cg) (concat (map d ss) @ es)" by simp
  moreover have "proceeds (each f ss c) es" if "ready (concat (map d ss) @ es) c" for c using Cons that by simp
  ultimately show ?case by (auto intro!: proceeds_vbind)
qed simp

definition inner_classes :: "ASTStmt \<Rightarrow> (cstring \<times> cstring option) list" where
  "inner_classes s = concat (map declared_class (all_stmts s))"

lemma class_decls_alt: "class_decls ss = concat (map inner_classes ss)"
  unfolding class_decls_def by (induction ss) (simp_all add: inner_classes_def)

lemma inner_classes_bodies: "inner_classes s = declared_class s @ concat (map inner_classes (bodies s))"
  unfolding class_decls_alt [symmetric] class_decls_def inner_classes_def all_stmts.simps [of s] by simp

lemma analyze_stmt_proceeds:
  "list_all values_present (all_stmts s) \<Longrightarrow> ready (inner_classes s @ ds) cg \<Longrightarrow> proceeds (cg_analyze_stmt s cg) ds"
proof (induction s arbitrary: ds cg rule: measure_induct_rule [of size])
  case (less s)
  obtain h k where s: "s = Stmt h k" by (cases s)
  have vals: "list_all values_present (all_stmts t)" if "t \<in> set (bodies s)" for t
    using less.prems(1) that by (auto simp: list_all_iff all_stmts.simps [of s])
  have block: "proceeds (each cg_analyze_stmt ss c) es"
    if "ready (concat (map inner_classes ss) @ es) c" "set ss \<subseteq> set (bodies s)" for ss c es
    by (rule each_proceeds [OF _ that(1)]) (use less.IH vals bodies_size that(2) in blast)
  have rd: "ready (declared_class s @ concat (map inner_classes (bodies s)) @ ds) cg"
    using less.prems(2) by (simp add: inner_classes_bodies)
  show ?case
  proof (cases k)
    case (SVarAssign x e op)
    have "values_present s" using less.prems(1) by (simp add: all_stmts.simps [of s])
    then have "e \<noteq> Null" using SVarAssign s by (simp add: values_present_def)
    then show ?thesis using rd s SVarAssign by (auto simp: bodies_def intro!: proceeds_vbind [OF assign_proceeds])
  next
    case (SIf e t f)
    have then_part: "proceeds (each cg_analyze_stmt (stmts_of t) c) (concat (map inner_classes (stmts_of f)) @ ds)"
      if "ready (concat (map inner_classes (stmts_of t)) @ concat (map inner_classes (stmts_of f)) @ ds) c" for c
      using block [OF that] SIf s by (simp add: bodies_def)
    have else_part: "proceeds (each cg_analyze_stmt y c) ds" if "ready (concat (map inner_classes y) @ ds) c" "f = Some y" for c y
      using block [OF that(1)] that(2) SIf s by (simp add: bodies_def)
    show ?thesis using rd s SIf
      by (auto simp: bodies_def intro!: proceeds_vbind [OF condition_proceeds] proceeds_vbind [OF then_part] proceeds_vbind [OF else_part]
          dest: ready_later)
  next
    case (SWhile e b)
    have body: "proceeds (each cg_analyze_stmt (stmts_of b) c) ds" if "ready (concat (map inner_classes (stmts_of b)) @ ds) c" for c
      using block [OF that] SWhile s by (simp add: bodies_def)
    show ?thesis using rd s SWhile
      by (auto simp: bodies_def intro!: proceeds_vbind [OF condition_proceeds] proceeds_vbind [OF body])
  next
    case (SFor x e b)
    have body: "proceeds (each cg_analyze_stmt (stmts_of b) c) ds" if "ready (concat (map inner_classes (stmts_of b)) @ ds) c" for c
      using block [OF that] SFor s by (simp add: bodies_def)
    show ?thesis using rd s SFor
      by (auto simp: bodies_def intro!: proceeds_vbind [OF analyze_expr_proceeds] proceeds_vbind [OF declare_var_proceeds] proceeds_vbind [OF body])
  next
    case (SForIn x e b)
    have body: "proceeds (each cg_analyze_stmt (stmts_of b) c) ds" if "ready (concat (map inner_classes (stmts_of b)) @ ds) c" for c
      using block [OF that] SForIn s by (simp add: bodies_def)
    show ?thesis using rd s SForIn
      by (auto simp: bodies_def intro!: proceeds_vbind [OF analyze_expr_proceeds] proceeds_vbind [OF iterated_proceeds]
          proceeds_vbind [OF declare_var_proceeds] proceeds_vbind [OF body])
  next
    case (SClassDecl n p fs ms ctor)
    then show ?thesis using rd s by (auto simp: bodies_def intro!: proceeds_vbind [OF declare_class_proceeds])
  qed (use rd s in \<open>auto simp: bodies_def intro!: proceeds_vbind [OF decl_proceeds] proceeds_vbind [OF analyze_expr_proceeds]
      proceeds_vbind [OF declare_struct_proceeds] dest: ready_later\<close>)
qed


lemma every_proceeds:
  assumes "\<And>s c. s \<in> set ss \<Longrightarrow> ready ds c \<Longrightarrow> proceeds (f s c) ds"
  shows "ready ds cg \<Longrightarrow> proceeds (every f ss cg) ds"
proof -
  have "ready ds cg \<Longrightarrow> proceeds (each f ss cg) ds"
    using assms
  proof (induction ss arbitrary: cg)
    case (Cons s ss)
    then show ?case by (auto intro!: proceeds_vbind [where ds = ds])
  qed simp
  then show "ready ds cg \<Longrightarrow> proceeds (every f ss cg) ds"
    unfolding every_def by (auto intro!: proceeds_vbind [where ds = ds])
qed

lemma check_returns_proceeds: "ready ds cg \<Longrightarrow> proceeds (cg_check_returns_in_stmt sig s cg) ds"
proof (induction s arbitrary: cg rule: measure_induct_rule [of size])
  case (less s)
  obtain h k where s: "s = Stmt h k" by (cases s)
  have IH: "proceeds (cg_check_returns_in_stmt sig t c) ds" if "t \<in> set (bodies s)" "ready ds c" for t c
    using less.IH bodies_size that by blast
  show ?case using less.prems IH unfolding s
    by (cases k) (auto simp: bodies_def cg_check_return_stmt_def split: option.split intro!: every_proceeds)
qed

lemma function_proceeds:
  assumes "ready (concat (map inner_classes (func_stmts f)) @ ds) cg" "list_all values_present (concat (map all_stmts (func_stmts f)))"
  shows "proceeds (analyze_function f cg) ds"
proof -
  let ?es = "concat (map inner_classes (func_stmts f)) @ ds"
  have stmt: "proceeds (body_stmt (func_sig f) s c) es" if "s \<in> set (func_stmts f)" "ready (inner_classes s @ es) c" for s c es
    unfolding body_stmt_def
    by (rule proceeds_vbind [OF analyze_stmt_proceeds [OF _ that(2)]], use that(1) assms(2) in \<open>auto simp: list_all_iff\<close>)
      (auto intro!: proceeds_vbind [OF check_returns_proceeds])
  have body: "proceeds (each (body_stmt (func_sig f)) (func_stmts f) c) ds" if "ready ?es c" for c
    by (rule each_proceeds [OF stmt that])
  have params: "proceeds (every (\<lambda>(n, t, d). cg_declare_var n t False) (func_params (func_sig f)) (cg_enter_scope cg)) ?es"
    by (rule every_proceeds) (use assms(1) declare_var_proceeds in auto)
  show ?thesis unfolding analyze_function_def Let_def
    by (rule proceeds_vbind [OF params], rule proceeds_vbind [OF body])
      (auto simp: must_return_def)
qed

lemma top_proceeds:
  assumes "list_all values_present (all_stmts s)" "ready (inner_classes s @ ds) cg"
  shows "proceeds (analyze_top s cg) ds"
proof (cases "\<exists>h f. s = Stmt h (SFuncDecl f)")
  case True
  then obtain h f where s: "s = Stmt h (SFuncDecl f)" by blast
  have "list_all values_present (concat (map all_stmts (func_stmts f)))"
    using assms(1) by (auto simp: s all_stmts.simps [of "Stmt h (SFuncDecl f)"] bodies_def list_all_iff)
  moreover have "inner_classes s = concat (map inner_classes (func_stmts f))" by (simp add: s inner_classes_bodies bodies_def)
  ultimately show ?thesis using assms(2)
    by (auto simp: s analyze_top_def intro!: proceeds_vbind [OF function_proceeds])
next
  case False
  then have "analyze_top s cg = cg_analyze_stmt s cg" by (cases s) (auto simp: analyze_top_def split: stmt_node.split)
  then show ?thesis using analyze_stmt_proceeds [OF assms] by simp
qed

lemma declare_function_proceeds: "ready ds cg \<Longrightarrow> proceeds (declare_function_stmt s cg) ds"
  by (auto simp: declare_function_stmt_def cg_declare_function_from_ast_def ready_def split: stmt_node.split)

text \<open>
  C4: the analysis of a program always ends when no class names itself or a later class as its parent and every
  assignment to a variable has a value (its expression is no NULL pointer): no walk up a hierarchy and no NULL
  pointer keeps it from returning a verdict.
\<close>
theorem analysis_returns:
  assumes "cg_classes cg = []" and "parents_first (class_decls program)"
    and "list_all values_present (concat (map all_stmts program))"
  shows "cg_semantic_analyze program cg \<noteq> Never"
proof -
  let ?ds = "concat (map inner_classes program)"
  have ready: "ready (?ds @ []) (start_analysis cg)"
    using assms(1,2) by (simp add: ready_def start_analysis_def class_decls_alt)
  have first: "proceeds (every declare_function_stmt program (start_analysis cg)) (?ds @ [])"
    by (rule every_proceeds [OF declare_function_proceeds ready])
  have "proceeds (each analyze_top program c) []" if "ready (?ds @ []) c" for c
    by (rule each_proceeds [OF top_proceeds that]) (use assms(3) in \<open>auto simp: list_all_iff\<close>)
  then have "proceeds (cg_semantic_analyze program cg) []" unfolding cg_semantic_analyze_def
    by (intro proceeds_vbind [OF first]) (auto intro!: proceeds_vbind [where ds = "[]"])
  then show ?thesis by auto
qed

section \<open>Examples\<close>

definition sample_program :: "ASTStmt list" where
  \<comment> \<open>\<^verbatim>\<open>var x: Int = 1  def f() -> Int { return x }  print(x + f())\<close>\<close>
  "sample_program =
     [ast_stmt_new (SVarDecl ''x'' TYPE_INT (Some (TPrim TYPE_INT)) (ast_expr_new (EInt 1)) False),
      ast_stmt_new (SFuncDecl (FuncDecl \<lparr>func_name = ''f'', func_params = [], return_type = TYPE_INT,
        return_type_desc = Some (TPrim TYPE_INT)\<rparr> (Some [ast_stmt_new (SReturn (ast_expr_new (EVar ''x'')))]) None)),
      ast_stmt_new (SPrint (ast_expr_new (EBinary CHR ''+'' (ast_expr_new (EVar ''x'')) (ast_expr_new (ECall ''f'' [])))))]"

definition cyclic_program :: "ASTStmt list" where
  \<comment> \<open>\<^verbatim>\<open>class A extends A { init() {} }  A().y\<close>\<close>
  "cyclic_program =
     [ast_stmt_new (SClassDecl ''A'' (Some ''A'') [] []
        (Some (FuncDecl \<lparr>func_name = ''init'', func_params = [], return_type = TYPE_NIL, return_type_desc = None\<rparr> (Some []) None))),
      ast_stmt_new (SExpr (ast_expr_new (EMember (ast_expr_new (ECall ''A'' [])) ''y'' False)))]"

fun accepted_with :: "('a \<Rightarrow> bool) \<Rightarrow> 'a verdict \<Rightarrow> bool option" where
  "accepted_with P (Accept x c) = Some (P x)" | "accepted_with P (Reject c) = Some False" | "accepted_with P Never = None"

lemma accepted_withD: "accepted_with P v = Some True \<Longrightarrow> \<exists>x c. v = Accept x c \<and> P x"
  by (cases v) auto

fun single_return :: "ASTStmt \<Rightarrow> bool" where
  "single_return (Stmt h k) = (case k of SFuncDecl f \<Rightarrow> return_type (func_sig f) \<noteq> TYPE_NIL \<and> \<not> returns_optional (func_sig f) \<and>
     (case func_stmts f of [Stmt h' (SReturn e)] \<Rightarrow> True | _ \<Rightarrow> False) | _ \<Rightarrow> False)"

lemma cyclic_hierarchy: "accepted_with (\<lambda>p. True) (cg_semantic_analyze cyclic_program (cg_new builtin_functions)) = None"
  by code_simp

lemma sample_accepted: "accepted_with (list_ex single_return) (cg_semantic_analyze sample_program (cg_new builtin_functions)) = Some True"
  by code_simp

theorem accepted_program_typed_witness:
  "\<exists>program' c. cg_semantic_analyze sample_program (cg_new builtin_functions) = Accept program' c \<and> program_typed program' \<and> \<not> had_error c"
proof -
  obtain p c where "cg_semantic_analyze sample_program (cg_new builtin_functions) = Accept p c"
    using accepted_withD [OF sample_accepted] by blast
  then show ?thesis using accepted_program_typed by blast
qed

lemma single_returnE:
  assumes "single_return s"
  obtains h f h' e where "s = Stmt h (SFuncDecl f)" "return_type (func_sig f) \<noteq> TYPE_NIL" "\<not> returns_optional (func_sig f)"
    "func_stmts f = [Stmt h' (SReturn e)]"
  using assms by (cases s) (auto split: stmt_node.splits list.splits ASTStmt.splits)

theorem accepted_functions_return_witness:
  "\<exists>program' c h f. cg_semantic_analyze sample_program (cg_new builtin_functions) = Accept program' c \<and>
     Stmt h (SFuncDecl f) \<in> set program' \<and> list_ends (func_stmts f) Returns \<and> \<not> list_ends (func_stmts f) Falls"
proof -
  obtain p c s where run: "cg_semantic_analyze sample_program (cg_new builtin_functions) = Accept p c"
    and s: "s \<in> set p" "single_return s"
    using accepted_withD [OF sample_accepted] by (auto simp: list_ex_iff)
  from s(2) obtain h f h' e where f: "s = Stmt h (SFuncDecl f)" "return_type (func_sig f) \<noteq> TYPE_NIL"
    "\<not> returns_optional (func_sig f)" "func_stmts f = [Stmt h' (SReturn e)]" by (rule single_returnE)
  have falls: "\<not> list_ends (func_stmts f) Falls"
    using accepted_functions_return [OF run _ f(2,3)] s(1) f(1) by blast
  have "list_ends (func_stmts f) Returns" by (simp add: f(4)) (rule stop [OF return], simp)
  with run s(1) f(1) falls show ?thesis by blast
qed

definition one_plus_two :: ASTExpr where
  "one_plus_two = ast_expr_new (EBinary CHR ''+'' (ast_expr_new (EInt 1)) (ast_expr_new (EInt 2)))"

lemma sum_type: "cg_infer_expr_type_desc_simple one_plus_two cg = Accept (TPrim TYPE_INT) cg"
  "cg_infer_expr_type_desc_simple (ast_expr_new (EInt i)) cg = Accept (TPrim TYPE_INT) cg"
  by (simp_all add: one_plus_two_def ast_expr_new_def cg_infer_expr_type_desc_simple.simps(2) both_def binary_type_def primitive_def out_of_def type_descriptor_create_primitive_def arithmetic_ops_def numeric_def)

theorem operator_types_agree_witness:
  "\<exists>res m'. bread_binary_op CHR ''+'' (VInt 1) (VInt 2) bread_memory_init = Done (res, m') \<and> (\<exists>u. res = Some u \<and> vtype u = TYPE_INT)"
proof -
  obtain res m' where run: "bread_binary_op CHR ''+'' (VInt 1) (VInt 2) bread_memory_init = Done (res, m')"
    by (simp add: bread_binary_op_def bread_add_def bread_value_is_number_def checked_int_fits fits64_def)
  show ?thesis
    using operator_types_agree [OF sum_type(1) [unfolded one_plus_two_def ast_expr_new_def] sum_type(2) [of 1, unfolded ast_expr_new_def] _
        sum_type(2) [of 2, unfolded ast_expr_new_def] _ _ _ run] run
    by simp
qed

definition hierarchy_program :: "ASTStmt list" where
  \<comment> \<open>\<^verbatim>\<open>class A { init() {} }  class B extends A { init() {} }
    let x: Int = 1  x += 2  print(B().y)\<close>: the field is looked for in both classes\<close>
  "hierarchy_program =
     (let ctor = Some (FuncDecl \<lparr>func_name = ''init'', func_params = [], return_type = TYPE_NIL, return_type_desc = None\<rparr> (Some []) None) in
     [ast_stmt_new (SClassDecl ''A'' None [(''y'', Some (TPrim TYPE_INT))] [] ctor),
      ast_stmt_new (SClassDecl ''B'' (Some ''A'') [] [] ctor),
      ast_stmt_new (SVarDecl ''x'' TYPE_INT (Some (TPrim TYPE_INT)) (ast_expr_new (EInt 1)) False),
      ast_stmt_new (SVarAssign ''x'' (ast_expr_new (EInt 2)) CHR ''+''),
      ast_stmt_new (SPrint (ast_expr_new (EMember (ast_expr_new (ECall ''B'' [])) ''y'' False)))])"

lemma hierarchy_accepted:
  "accepted_with (\<lambda>p. True) (cg_semantic_analyze hierarchy_program (cg_new builtin_functions)) = Some True"
  by code_simp

theorem analysis_returns_witness:
  "length (class_decls hierarchy_program) = 2 \<and> cg_semantic_analyze hierarchy_program (cg_new builtin_functions) \<noteq> Never"
proof -
  have "cg_classes (cg_new builtin_functions) = []" "parents_first (class_decls hierarchy_program)"
    "list_all values_present (concat (map all_stmts hierarchy_program))" by code_simp+
  from analysis_returns [OF this] show ?thesis by (simp, code_simp)
qed

end
