(* ===== verification/BreadFunctions.thy ===== *)
theory BreadFunctions
  imports BreadBuiltins BreadAST
begin

text \<open>
  The table of functions of \<^verbatim>\<open>src/core/function.c\<close>: registration, look-up, the conversion of
  arguments and the default values of parameters. A parameter's \<^verbatim>\<open>has_default\<close> and
  \<^verbatim>\<open>default_value\<close> are one optional value; a pointer to a function is its index in the table.
  Lines printed on stdout and the fields of the JIT compiler are not modelled.
\<close>

section \<open>The table\<close>

record FunctionParameter =
  fp_name :: cstring
  fp_default :: "val option"

record Function =
  fn_name :: cstring
  fn_params :: "(cstring \<times> VarType) list"      \<comment> \<open>\<^verbatim>\<open>param_names\<close> and \<^verbatim>\<open>param_types\<close>\<close>
  fn_parameters :: "FunctionParameter list option"
  fn_return_type :: VarType
  fn_body :: "ASTStmt list option"
  fn_body_is_ast :: bool

definition MAX_FUNCTIONS :: nat where "MAX_FUNCTIONS = 256"

definition init_functions :: "Function list" where "init_functions = []"

fun clone_parameters :: "FunctionParameter list \<Rightarrow> mem \<Rightarrow> (FunctionParameter list \<times> mem) outcome" where
  "clone_parameters [] m = Done ([], m)"
| "clone_parameters (p # ps) m =
     (case fp_default p of
        None \<Rightarrow> bnd (clone_parameters ps m) (\<lambda>(qs, m1). Done (p # qs, m1))
      | Some v \<Rightarrow> bnd (bread_value_clone v m) (\<lambda>(w, m1).
          bnd (clone_parameters ps m1) (\<lambda>(qs, m2). Done (p\<lparr>fp_default := Some w\<rparr> # qs, m2))))"

definition given_parameters :: "Function \<Rightarrow> FunctionParameter list" where
  \<comment> \<open>as many as there are names\<close>
  "given_parameters fn = (case fn_parameters fn of
      None \<Rightarrow> map (\<lambda>(n, t). \<lparr>fp_name = n, fp_default = None\<rparr>) (fn_params fn)
    | Some ps \<Rightarrow> take (length (fn_params fn)) ps)"

definition register_function :: "Function \<Rightarrow> Function list \<Rightarrow> mem \<Rightarrow> (bool \<times> Function list \<times> mem) outcome" where
  "register_function fn fs m =
     (if length fs \<ge> MAX_FUNCTIONS then Done (False, fs, m)
      else if \<exists>f \<in> set fs. fn_name f = fn_name fn then Done (False, fs, m)
      else if fn_params fn = [] then Done (True, fs @ [fn\<lparr>fn_parameters := None\<rparr>], m)
      else if length (given_parameters fn) < length (fn_params fn) then Undefined
      else bnd (clone_parameters (given_parameters fn) m) (\<lambda>(ps, m1).
        Done (True, fs @ [fn\<lparr>fn_parameters := Some ps\<rparr>], m1)))"

fun function_index :: "cstring \<Rightarrow> Function list \<Rightarrow> nat \<Rightarrow> nat option" where
  "function_index n [] i = None"
| "function_index n (f # fs) i = (if fn_name f = n then Some i else function_index n fs (Suc i))"

definition get_function :: "cstring \<Rightarrow> Function list \<Rightarrow> nat option" where
  "get_function n fs = function_index n fs 0"

definition get_function_count :: "Function list \<Rightarrow> nat" where "get_function_count fs = length fs"

definition get_function_at :: "int \<Rightarrow> Function list \<Rightarrow> Function option" where
  "get_function_at i fs = (if i < 0 \<or> i \<ge> int (length fs) then None else Some (fs ! nat i))"

fun free_parameters :: "FunctionParameter list \<Rightarrow> mem \<Rightarrow> mem outcome" where
  "free_parameters [] m = Done m"
| "free_parameters (p # ps) m =
     (case fp_default p of None \<Rightarrow> free_parameters ps m
      | Some v \<Rightarrow> bnd (bread_value_release v m) (free_parameters ps))"

definition free_function :: "Function \<Rightarrow> mem \<Rightarrow> mem outcome" where
  "free_function fn m = (case fn_parameters fn of None \<Rightarrow> Done m | Some ps \<Rightarrow> free_parameters ps m)"

fun cleanup_functions :: "Function list \<Rightarrow> mem \<Rightarrow> (Function list \<times> mem) outcome" where
  "cleanup_functions [] m = Done ([], m)"
| "cleanup_functions (f # fs) m = bnd (free_function f m) (cleanup_functions fs)"

section \<open>Arguments\<close>

definition type_compatible :: "VarType \<Rightarrow> VarType \<Rightarrow> bool" where
  "type_compatible expected actual \<longleftrightarrow>
     expected = actual \<or>
     expected = TYPE_OPTIONAL \<and> actual = TYPE_NIL \<or>
     expected = TYPE_OPTIONAL \<and> actual \<noteq> TYPE_OPTIONAL \<or>
     expected = TYPE_DOUBLE \<and> (actual = TYPE_INT \<or> actual = TYPE_FLOAT) \<or>
     expected = TYPE_FLOAT \<and> actual = TYPE_INT \<or>
     expected = TYPE_INT \<and> (actual = TYPE_FLOAT \<or> actual = TYPE_DOUBLE)"

fun cast_number :: "VarType \<Rightarrow> val \<Rightarrow> val outcome" where
  "cast_number TYPE_DOUBLE (VInt i) = Done (VDouble (f64_of_int i))"
| "cast_number TYPE_DOUBLE (VFloat x) = Done (VDouble (f64_of_f32 x))"
| "cast_number TYPE_FLOAT (VInt i) = Done (VFloat (f32_of_int i))"
| "cast_number TYPE_INT (VDouble x) = (case int_of_f64 x of None \<Rightarrow> Undefined | Some i \<Rightarrow> Done (VInt i))"
| "cast_number TYPE_INT (VFloat x) = (case int_of_f64 (f64_of_f32 x) of None \<Rightarrow> Undefined | Some i \<Rightarrow> Done (VInt i))"
| "cast_number t v = Done v"

definition coerce_value :: "VarType \<Rightarrow> val \<Rightarrow> mem \<Rightarrow> (val \<times> mem) outcome" where
  \<comment> \<open>the member of the union that is written, as a value of its type\<close>
  "coerce_value target v m =
     (if target = TYPE_OPTIONAL \<and> vtype v = TYPE_NIL then (let (r, m1) = bread_optional_new_none m in Done (VOptional r, m1))
      else if target = TYPE_OPTIONAL \<and> vtype v \<noteq> TYPE_OPTIONAL
      then bnd (bread_optional_new_some v m) (\<lambda>(r, m1). Done (VOptional r, m1))
      else if target = vtype v then Done (v, m)
      else bnd (cast_number target v) (\<lambda>w. Done (w, m)))"

definition function_get_required_params :: "Function option \<Rightarrow> nat" where
  "function_get_required_params fn =
     (case fn of None \<Rightarrow> 0
      | Some f \<Rightarrow> (case fn_parameters f of None \<Rightarrow> length (fn_params f)
          | Some ps \<Rightarrow> length (takeWhile (\<lambda>p. fp_default p = None) (take (length (fn_params f)) ps))))"

fun fill_defaults :: "FunctionParameter list \<Rightarrow> val list option" where
  \<comment> \<open>the parameters behind the last argument: a value for each\<close>
  "fill_defaults [] = Some []"
| "fill_defaults (p # ps) =
     (case fp_default p of None \<Rightarrow> None | Some v \<Rightarrow> map_option (Cons v) (fill_defaults ps))"

definition function_apply_defaults :: "Function \<Rightarrow> val list \<Rightarrow> val list option" where
  "function_apply_defaults fn args =
     (if length args < function_get_required_params (Some fn) then None
      else if length args > length (fn_params fn) then None
      else map_option (append args)
        (fill_defaults (drop (length args) (case fn_parameters fn of
            None \<Rightarrow> map (\<lambda>(n, t). \<lparr>fp_name = n, fp_default = None\<rparr>) (fn_params fn)
          | Some ps \<Rightarrow> take (length (fn_params fn)) ps))))"

section \<open>What the table promises\<close>

definition defaults :: "FunctionParameter list \<Rightarrow> val list" where
  "defaults ps = concat (map (\<lambda>p. case fp_default p of None \<Rightarrow> [] | Some v \<Rightarrow> [v]) ps)"

definition function_values :: "Function \<Rightarrow> val multiset" where
  "function_values fn = (case fn_parameters fn of None \<Rightarrow> {#} | Some ps \<Rightarrow> mset (defaults ps))"

definition table_values :: "Function list \<Rightarrow> val multiset" where
  \<comment> \<open>the values the table owns\<close>
  "table_values fs = sum_list (map function_values fs)"

definition table_ok :: "Function list \<Rightarrow> bool" where
  "table_ok fs \<longleftrightarrow> length fs \<le> MAX_FUNCTIONS \<and> distinct (map fn_name fs)"

lemma defaults_simps [simp]:
  "defaults [] = []"
  "defaults (p # ps) = (case fp_default p of None \<Rightarrow> [] | Some v \<Rightarrow> [v]) @ defaults ps"
  by (simp_all add: defaults_def)

lemma table_values_simps [simp]:
  "table_values [] = {#}" "table_values (f # fs) = function_values f + table_values fs"
  "table_values (fs @ gs) = table_values fs + table_values gs"
  by (simp_all add: table_values_def)

lemma clone_parameters_ok:
  "heap_ok m R \<Longrightarrow> set (defaults ps) \<subseteq> set_mset R \<Longrightarrow> room_for (length (defaults ps) + n) m \<Longrightarrow>
   \<exists>m'. clone_parameters ps m = Done (ps, m') \<and> heap_ok m' (mset (defaults ps) + R) \<and> survives m m' \<and> room_for n m'"
proof (induction ps arbitrary: m R)
  case Nil
  then show ?case by (simp add: survives_refl)
next
  case (Cons p ps)
  show ?case
  proof (cases "fp_default p")
    case None
    with Cons show ?thesis by fastforce
  next
    case (Some v)
    obtain m1 where m1: "bread_value_clone v m = Done (v, m1)" "heap_ok m1 (add_mset v R)" "survives m m1"
      "room_for (length (defaults ps) + n) m1"
      using rt.acquire_ok [OF Cons.prems(1) rt.root_owned, of v "length (defaults ps) + n"] Cons.prems(2,3) Some by auto
    obtain m2 where "clone_parameters ps m1 = Done (ps, m2)" "heap_ok m2 (mset (defaults ps) + add_mset v R)"
      "survives m1 m2" "room_for n m2"
      using Cons.IH [OF m1(2) _ m1(4)] Cons.prems(2) Some by auto
    moreover have "p\<lparr>fp_default := Some v\<rparr> = p" using Some by (cases p) simp
    ultimately show ?thesis using m1 Some rt.frame_trans [of m m1 m2] by (auto simp: union_mset_add_mset_right)
  qed
qed

lemma free_parameters_ok:
  "heap_ok m (mset (defaults ps) + R) \<Longrightarrow> \<exists>m'. free_parameters ps m = Done m' \<and> heap_ok m' R"
proof (induction ps arbitrary: m)
  case (Cons p ps)
  show ?case
  proof (cases "fp_default p")
    case (Some v)
    then have "heap_ok m (add_mset v (mset (defaults ps) + R))" using Cons.prems by simp
    then obtain m1 where "bread_value_release v m = Done m1" "heap_ok m1 (mset (defaults ps) + R)"
      using rt.drop_ok by blast
    with Cons.IH show ?thesis using Some by auto
  qed (use Cons in simp)
qed simp

lemma cleanup_functions_ok:
  "heap_ok m (table_values fs + R) \<Longrightarrow> \<exists>m'. cleanup_functions fs m = Done ([], m') \<and> heap_ok m' R"
proof (induction fs arbitrary: m)
  case (Cons f fs)
  have "\<exists>m1. free_function f m = Done m1 \<and> heap_ok m1 (table_values fs + R)"
    using Cons.prems free_parameters_ok [of m _ "table_values fs + R"]
    by (auto simp: free_function_def function_values_def union_assoc split: option.splits)
  with Cons.IH show ?case by auto
qed simp

lemma function_index_append:
  "function_index n (fs @ [f]) i =
     (case function_index n fs i of Some j \<Rightarrow> Some j | None \<Rightarrow> if fn_name f = n then Some (i + length fs) else None)"
  by (induction fs arbitrary: i) (auto split: option.split)

lemma function_index_none: "function_index n fs i = None \<longleftrightarrow> n \<notin> fn_name ` set fs"
  by (induction fs arbitrary: i) auto

lemma function_index_at: "function_index n fs i = Some j \<Longrightarrow> i \<le> j \<and> j < i + length fs \<and> fn_name (fs ! (j - i)) = n"
proof (induction fs arbitrary: i)
  case (Cons f fs)
  show ?case
  proof (cases "fn_name f = n")
    case False
    then have "function_index n fs (Suc i) = Some j" using Cons.prems by simp
    from Cons.IH [OF this] show ?thesis by (auto simp: nth_Cons' Suc_diff_Suc)
  qed (use Cons.prems in auto)
qed simp

text \<open>
  C25: registering a function adds it under its name when the name is new and the table is not full, and changes nothing
  otherwise; every other name leads where it did, names stay distinct, the table owns the default
  values of its functions, and giving the table up gives back every reference it took.
\<close>
theorem register_function_correct:
  assumes "heap_ok m (table_values fs + R)" and "table_ok fs" and "room_for (length (defaults (given_parameters fn))) m"
    and "set (defaults (given_parameters fn)) \<subseteq> set_mset R"
    and "fn_parameters fn = None \<or> length (fn_params fn) \<le> length (the (fn_parameters fn))"
  shows "\<exists>ok fs' m' m''. register_function fn fs m = Done (ok, fs', m') \<and> table_ok fs' \<and>
    heap_ok m' (table_values fs' + R) \<and> (ok \<longleftrightarrow> length fs < MAX_FUNCTIONS \<and> get_function (fn_name fn) fs = None) \<and>
    (\<not> ok \<longrightarrow> fs' = fs \<and> m' = m) \<and>
    (\<forall>n. get_function n fs' = (if ok \<and> n = fn_name fn then Some (length fs) else get_function n fs)) \<and>
    cleanup_functions fs' m' = Done ([], m'') \<and> heap_ok m'' R"
proof -
  have clean: "\<exists>m''. cleanup_functions gs m' = Done ([], m'') \<and> heap_ok m'' R"
    if "heap_ok m' (table_values gs + R)" for gs m' using cleanup_functions_ok [OF that] .
  have new: "table_ok (fs @ [f]) \<and> (\<forall>n. get_function n (fs @ [f]) = (if n = fn_name fn then Some (length fs) else get_function n fs))"
    if "fn_name f = fn_name fn" "length fs < MAX_FUNCTIONS" "get_function (fn_name fn) fs = None" for f
  proof
    from that(3) have "fn_name fn \<notin> fn_name ` set fs" by (simp add: get_function_def function_index_none)
    then show "table_ok (fs @ [f])" using assms(2) that(1,2) by (simp add: table_ok_def)
    show "\<forall>n. get_function n (fs @ [f]) = (if n = fn_name fn then Some (length fs) else get_function n fs)"
      using that(1,3) by (auto simp: get_function_def function_index_append split: option.split)
  qed
  show ?thesis
  proof (cases "length fs < MAX_FUNCTIONS \<and> get_function (fn_name fn) fs = None")
    case False
    then have "register_function fn fs m = Done (False, fs, m)"
      by (auto simp: register_function_def get_function_def function_index_none)
    with clean [OF assms(1)] assms(1,2) False show ?thesis by auto
  next
    case True
    then have fresh: "\<not> length fs \<ge> MAX_FUNCTIONS" "\<not> (\<exists>f \<in> set fs. fn_name f = fn_name fn)"
      by (auto simp: get_function_def function_index_none image_iff)
    show ?thesis
    proof (cases "fn_params fn = []")
      case none: True
      let ?fs = "fs @ [fn\<lparr>fn_parameters := None\<rparr>]"
      have "register_function fn fs m = Done (True, ?fs, m)" using fresh none by (simp add: register_function_def)
      moreover have "heap_ok m (table_values ?fs + R)" using assms(1) by (simp add: function_values_def)
      ultimately show ?thesis using clean new [of "fn\<lparr>fn_parameters := None\<rparr>"] True by fastforce
    next
      case False
      let ?ps = "given_parameters fn"
      have len: "\<not> length ?ps < length (fn_params fn)"
        using assms(5) by (auto simp: given_parameters_def split: option.splits)
      obtain m' where m': "clone_parameters ?ps m = Done (?ps, m')" "heap_ok m' (mset (defaults ?ps) + (table_values fs + R))"
        using clone_parameters_ok [OF assms(1), of ?ps 0] assms(3,4) by auto
      let ?f = "fn\<lparr>fn_parameters := Some ?ps\<rparr>" let ?fs = "fs @ [?f]"
      have "register_function fn fs m = Done (True, ?fs, m')" using fresh False len m'(1) by (simp add: register_function_def)
      moreover have "heap_ok m' (table_values ?fs + R)" using m'(2) by (simp add: function_values_def ac_simps)
      ultimately show ?thesis using clean new [of ?f] True by fastforce
    qed
  qed
qed

section \<open>What arguments are completed to\<close>

lemma fill_defaults_some: "fill_defaults ps = Some vs \<longleftrightarrow> map fp_default ps = map Some vs"
  by (induction ps arbitrary: vs) (auto split: option.splits simp: Cons_eq_map_conv)

lemma fill_defaults_none: "fill_defaults ps = None \<longleftrightarrow> (\<exists>p \<in> set ps. fp_default p = None)"
  by (induction ps) (auto split: option.splits)

lemma all_shift: "(\<forall>j < n - k. Q (k + j) j) \<longleftrightarrow> (\<forall>i. k \<le> i \<and> i < n \<longrightarrow> Q i (i - (k :: nat)))"
proof safe
  fix i assume all: "\<forall>j < n - k. Q (k + j) j" and i: "k \<le> i" "i < n"
  from all have "i - k < n - k \<longrightarrow> Q (k + (i - k)) (i - k)" by blast
  with i show "Q i (i - k)" by simp
next
  fix j assume all: "\<forall>i. k \<le> i \<and> i < n \<longrightarrow> Q i (i - k)" and j: "j < n - k"
  from all have "k \<le> k + j \<and> k + j < n \<longrightarrow> Q (k + j) (k + j - k)" by blast
  with j show "Q (k + j) j" by simp
qed

text \<open>
  C32: arguments that are completed with default values fill the parameter list: the arguments come first and
  every further parameter gets its own default. A call with too few or too many arguments is refused, and
  one that gives at least the required arguments is accepted when every parameter behind them has a default.
\<close>
theorem apply_defaults_correct:
  assumes "fn_parameters fn = Some ps" and "length ps = length (fn_params fn)"
  shows "function_apply_defaults fn args = Some vs \<longleftrightarrow>
    length args \<le> length ps \<and> length vs = length ps \<and> take (length args) vs = args \<and>
    (\<forall>i. length args \<le> i \<and> i < length ps \<longrightarrow> fp_default (ps ! i) = Some (vs ! i))"
proof -
  let ?req = "takeWhile (\<lambda>p. fp_default p = None) ps"
  have applied: "function_apply_defaults fn args =
      (if length args < length ?req \<or> length args > length ps then None
       else map_option (append args) (fill_defaults (drop (length args) ps)))"
    using assms by (simp add: function_apply_defaults_def function_get_required_params_def)
  have short: "\<not> (\<forall>i. length args \<le> i \<and> i < length ps \<longrightarrow> fp_default (ps ! i) = Some (vs ! i))"
    if "length args < length ?req"
  proof -
    have "?req ! length args = ps ! length args" using that by (rule takeWhile_nth)
    then have "fp_default (ps ! length args) = None" using nth_mem [OF that] set_takeWhileD by metis
    moreover have "length args < length ps" using that length_takeWhile_le [of _ ps] by (metis less_le_trans)
    ultimately show ?thesis by auto
  qed
  have filled: "map fp_default (drop k ps) = map Some ws \<longleftrightarrow>
      length ws = length ps - k \<and> (\<forall>i. k \<le> i \<and> i < length ps \<longrightarrow> fp_default (ps ! i) = Some (ws ! (i - k)))" for k ws
  proof -
    have "map fp_default (drop k ps) = map Some ws \<longleftrightarrow>
        length ws = length ps - k \<and> (\<forall>j < length ps - k. fp_default (ps ! (k + j)) = Some (ws ! j))"
      by (auto simp: list_eq_iff_nth_eq)
    also have "(\<forall>j < length ps - k. fp_default (ps ! (k + j)) = Some (ws ! j)) \<longleftrightarrow>
        (\<forall>i. k \<le> i \<and> i < length ps \<longrightarrow> fp_default (ps ! i) = Some (ws ! (i - k)))"
      by (rule all_shift)
    finally show ?thesis .
  qed
  have split: "(\<exists>ws. vs = args @ ws \<and> P ws) \<longleftrightarrow> take (length args) vs = args \<and> P (drop (length args) vs)" for P
    by (metis append_eq_conv_conj append_take_drop_id)
  show ?thesis
  proof (cases "length args < length ?req \<or> length args > length ps")
    case True
    then show ?thesis using short by (auto simp: applied)
  next
    case False
    then have "function_apply_defaults fn args = Some vs \<longleftrightarrow>
        (\<exists>ws. vs = args @ ws \<and> map fp_default (drop (length args) ps) = map Some ws)"
      by (auto simp: applied fill_defaults_some)
    also have "\<dots> \<longleftrightarrow> take (length args) vs = args \<and> length (drop (length args) vs) = length ps - length args \<and>
        (\<forall>i. length args \<le> i \<and> i < length ps \<longrightarrow> fp_default (ps ! i) = Some (drop (length args) vs ! (i - length args)))"
      unfolding split filled by simp
    also have "\<dots> \<longleftrightarrow> take (length args) vs = args \<and> length vs = length ps \<and>
        (\<forall>i. length args \<le> i \<and> i < length ps \<longrightarrow> fp_default (ps ! i) = Some (vs ! i))"
    proof (cases "take (length args) vs = args")
      case True
      then have "length args \<le> length vs" by (metis length_take min.cobounded1)
      then show ?thesis using False by auto
    qed simp
    finally show ?thesis using False by auto
  qed
qed

section \<open>What arguments are converted to\<close>

lemma cast_number_type:
  "cast_number t v = Done w \<Longrightarrow> type_compatible t (vtype v) \<Longrightarrow> t \<noteq> TYPE_OPTIONAL \<Longrightarrow> vtype w = t"
  by (induction t v rule: cast_number.induct) (auto simp: type_compatible_def split: option.splits)

lemma coerced_type:
  assumes "type_compatible t (vtype v)" and run: "coerce_value t v m = Done (w, m')"
  shows "vtype w = t"
proof (cases "t = TYPE_OPTIONAL \<or> t = vtype v")
  case True
  then show ?thesis using run
    by (cases "bread_optional_new_some v m") (auto simp: coerce_value_def split: if_splits prod.splits)
next
  case False
  then obtain u where "cast_number t v = Done u" "w = u"
    using run by (cases "cast_number t v") (simp_all add: coerce_value_def)
  with cast_number_type assms(1) False show ?thesis by blast
qed

section \<open>A sample function\<close>

definition sample_function :: Function where
  "sample_function = \<lparr>fn_name = ''f'', fn_params = [(''a'', TYPE_INT), (''b'', TYPE_INT)],
     fn_parameters = Some [\<lparr>fp_name = ''a'', fp_default = None\<rparr>, \<lparr>fp_name = ''b'', fp_default = Some (VInt 7)\<rparr>],
     fn_return_type = TYPE_INT, fn_body = Some [], fn_body_is_ast = True\<rparr>"

theorem register_function_correct_witness:
  "\<exists>fs' m'. register_function sample_function [] bread_memory_init = Done (True, fs', m') \<and> table_ok fs' \<and>
     get_function ''f'' fs' = Some 0 \<and> heap_ok m' (table_values fs' + {#VInt 7#})"
proof -
  have "heap_ok bread_memory_init (table_values [] + {#VInt 7#})" using heap_ok_init by simp
  moreover have "room_for n bread_memory_init" if "n < 2 ^ 32" for n
    using that by (simp add: room_for_def rc_of_def get_obj_def bread_memory_init_def)
  ultimately obtain ok fs' m' where run: "register_function sample_function [] bread_memory_init = Done (ok, fs', m')" "table_ok fs'"
      "heap_ok m' (table_values fs' + {#VInt 7#})" "ok \<longleftrightarrow> length ([] :: Function list) < MAX_FUNCTIONS \<and> get_function (fn_name sample_function) [] = None"
    and found: "\<forall>n. get_function n fs' = (if ok \<and> n = fn_name sample_function then Some (length ([] :: Function list)) else get_function n [])"
    using register_function_correct [of bread_memory_init "[]" "{#VInt 7#}" sample_function]
    by (auto simp: table_ok_def sample_function_def given_parameters_def)
  have ok: "ok" using run(4) by (simp add: MAX_FUNCTIONS_def get_function_def)
  then have "get_function ''f'' fs' = Some 0" using found by (simp add: sample_function_def)
  with run(1-3) ok show ?thesis by auto
qed

theorem apply_defaults_correct_witness:
  "function_apply_defaults sample_function [VInt 1] = Some [VInt 1, VInt 7]"
  using apply_defaults_correct [of sample_function "[\<lparr>fp_name = ''a'', fp_default = None\<rparr>, \<lparr>fp_name = ''b'', fp_default = Some (VInt 7)\<rparr>]" "[VInt 1]" "[VInt 1, VInt 7]"]
  by (auto simp: sample_function_def less_Suc_eq)

end
