(* ===== verification/BreadModules.thy ===== *)
theory BreadModules
  imports BreadFunctions BreadScopes BreadStmtParser BreadClasses
begin

text \<open>
  Modules: \<^verbatim>\<open>src/core/module.c\<close>. A module is found by its path, read and parsed once, and
  its imports and exports are processed before its statements are put into the program. The
  registry keeps the newest module first; here the list is the other way round, so that the index
  of a module, which stands for the pointer to it, does not change. Files are a parameter of the
  model: which paths are regular files, and what reading one gives. A preprocessing
  call that imports itself again never returns; the recursion takes the depth up to which it is followed.
\<close>

section \<open>Files and paths\<close>

datatype file_read = OpenFails | SeekFails | SizeFails | ReadFails | Content "char list"

record file_system =
  is_regular :: "cstring \<Rightarrow> bool"
  read_file :: "cstring \<Rightarrow> file_read"

definition MODULE_MAX_SEARCH_PATHS :: nat where "MODULE_MAX_SEARCH_PATHS = 32"
definition MODULE_MAX_PATH_LENGTH :: nat where "MODULE_MAX_PATH_LENGTH = 4096"
definition MODULE_EXTENSION :: cstring where "MODULE_EXTENSION = ''.bread''"

definition slash :: "char \<Rightarrow> bool" where "slash c \<longleftrightarrow> c = CHR ''/''"

definition strip_slashes :: "cstring \<Rightarrow> cstring" where
  \<comment> \<open>without the slashes at the end\<close>
  "strip_slashes p = rev (dropWhile slash (rev p))"

definition dirname :: "cstring \<Rightarrow> cstring" where
  \<comment> \<open>of POSIX, as is \<^verbatim>\<open>basename\<close>\<close>
  "dirname p =
     (let d = rev (dropWhile (Not \<circ> slash) (rev (strip_slashes p))) in
      if p = [] then ''.''
      else if strip_slashes p = [] then ''/''
      else if d = [] then ''.''
      else if strip_slashes d = [] then ''/''
      else strip_slashes d)"

definition basename :: "cstring \<Rightarrow> cstring" where
  "basename p =
     (if p = [] then ''.''
      else if strip_slashes p = [] then ''/''
      else rev (takeWhile (Not \<circ> slash) (rev (strip_slashes p))))"

definition module_get_dir_from_path :: "cstring \<Rightarrow> cstring" where
  "module_get_dir_from_path path = dirname path"

definition module_get_name_from_path :: "cstring \<Rightarrow> cstring" where
  "module_get_name_from_path path =
     (let b = basename path; behind = rev (takeWhile (\<lambda>c. c \<noteq> CHR ''.'') (rev b)) in
      if CHR ''.'' \<in> set b \<and> CHR ''.'' # behind = MODULE_EXTENSION
      then take (length b - length MODULE_EXTENSION) b else b)"

definition module_is_valid_identifier :: "cstring \<Rightarrow> bool" where
  "module_is_valid_identifier n = (case n of [] \<Rightarrow> False | c # s \<Rightarrow> is_ident_start c \<and> list_all is_ident_char s)"

definition try_path_with_extension :: "file_system \<Rightarrow> cstring \<Rightarrow> cstring option" where
  "try_path_with_extension fs p =
     (if is_regular fs p then Some p
      else if is_regular fs (p @ MODULE_EXTENSION) then Some (p @ MODULE_EXTENSION)
      else None)"

section \<open>State\<close>

datatype ModuleSymbolType = MODULE_SYMBOL_FUNCTION | MODULE_SYMBOL_CLASS | MODULE_SYMBOL_STRUCT | MODULE_SYMBOL_VARIABLE

datatype symbol_ptr = FunctionAt nat | VariableAt "nat \<times> nat" | ClassAt addr

record ModuleSymbol =
  sym_name :: cstring
  sym_alias :: "cstring option"
  sym_type :: ModuleSymbolType
  sym_ptr :: symbol_ptr
  sym_default :: bool

record Module =
  mod_name :: cstring
  file_path :: cstring
  resolved_path :: cstring
  mod_ast :: "ASTStmt list option"
  exports :: "ModuleSymbol list"      \<comment> \<open>newest first\<close>
  is_compiled :: bool
  is_loading :: bool
  is_preprocessed :: bool
  is_included :: bool
  default_export_name :: "cstring option"
  default_export_type :: VarType
  default_export_type_desc :: "TypeDescriptor option"

record mstate =
  up :: bool                          \<comment> \<open>\<^verbatim>\<open>g_module_registry\<close> is there\<close>
  modules :: "Module list"            \<comment> \<open>oldest first\<close>
  search_paths :: "cstring list"
  qualified_symbols :: "(cstring \<times> ModuleSymbolType \<times> symbol_ptr) list"
  last_error :: "cstring option"
  known_functions :: "Function list"
  class_defs :: registry
  vars :: vars_state

definition module_set_error :: "cstring \<Rightarrow> mstate \<Rightarrow> mstate" where
  "module_set_error msg st = st\<lparr>last_error := Some msg\<rparr>"

definition module_get_error :: "mstate \<Rightarrow> cstring" where
  "module_get_error st = (case last_error st of None \<Rightarrow> ''Unknown error'' | Some e \<Rightarrow> e)"

definition fails :: "cstring \<Rightarrow> mstate \<Rightarrow> bool \<times> mstate" where
  "fails msg st = (False, module_set_error msg st)"

definition module_at :: "mstate \<Rightarrow> nat \<Rightarrow> Module" where
  "module_at st i = modules st ! i"

definition put_module :: "nat \<Rightarrow> Module \<Rightarrow> mstate \<Rightarrow> mstate" where
  "put_module i d st = st\<lparr>modules := (modules st)[i := d]\<rparr>"

section \<open>Qualified names\<close>

definition module_register_qualified_symbol ::
  "cstring \<Rightarrow> cstring \<Rightarrow> ModuleSymbolType \<Rightarrow> symbol_ptr \<Rightarrow> mstate \<Rightarrow> bool \<times> mstate" where
  "module_register_qualified_symbol mn sn t p st =
     (let q = mn @ ''.'' @ sn in
      if mn = [] \<or> sn = [] then fails ''Invalid parameters for module_register_qualified_symbol'' st
      else if \<not> module_is_valid_identifier mn \<or> \<not> module_is_valid_identifier sn
      then fails (''Invalid module or symbol name: '' @ quoted q) st
      else if \<exists>s \<in> set (qualified_symbols st). fst s = q then fails (''Qualified symbol already registered: '' @ q) st
      else (True, st\<lparr>qualified_symbols := (q, t, p) # qualified_symbols st\<rparr>))"

definition module_lookup_symbol :: "cstring \<Rightarrow> mstate \<Rightarrow> (ModuleSymbolType \<times> symbol_ptr) option \<times> mstate" where
  "module_lookup_symbol q st =
     (if q = [] then (None, module_set_error ''Invalid qualified name'' st)
      else (case List.find (\<lambda>s. fst s = q) (qualified_symbols st) of
          Some s \<Rightarrow> (Some (snd s), st)
        | None \<Rightarrow> (None, module_set_error (''Qualified symbol not found: '' @ q) st)))"

section \<open>The registry\<close>

definition module_add_search_path :: "cstring \<Rightarrow> mstate \<Rightarrow> mstate" where
  "module_add_search_path p st =
     (if \<not> up st then st
      else if length (search_paths st) \<ge> MODULE_MAX_SEARCH_PATHS
      then module_set_error (''Maximum search paths ('' @ show_nat MODULE_MAX_SEARCH_PATHS @ '') exceeded'') st
      else if p \<in> set (search_paths st) then st
      else st\<lparr>search_paths := search_paths st @ [p]\<rparr>)"

definition module_system_init :: "mstate \<Rightarrow> mstate" where
  "module_system_init st =
     (if up st then st
      else module_add_search_path ''./modules'' (module_add_search_path ''./lib'' (module_add_search_path ''.''
        (st\<lparr>up := True, modules := [], search_paths := []\<rparr>))))"

definition module_system_cleanup :: "mstate \<Rightarrow> mstate" where
  "module_system_cleanup st =
     (if \<not> up st then st
      else st\<lparr>up := False, modules := [], search_paths := [], qualified_symbols := [], last_error := None\<rparr>)"

fun search_in :: "file_system \<Rightarrow> cstring \<Rightarrow> cstring list \<Rightarrow> cstring option" where
  "search_in fs mp [] = None"
| "search_in fs mp (p # ps) =
     (let path = p @ ''/'' @ mp in
      if length path \<ge> MODULE_MAX_PATH_LENGTH then search_in fs mp ps
      else case try_path_with_extension fs path of Some r \<Rightarrow> Some r | None \<Rightarrow> search_in fs mp ps)"

definition module_resolve_path :: "file_system \<Rightarrow> cstring \<Rightarrow> cstring option \<Rightarrow> mstate \<Rightarrow> cstring option \<times> mstate" where
  "module_resolve_path fs mp dir st =
     (let missing = (None, module_set_error (''Module file not found: '' @ mp) st);
          search = (case if up st then search_in fs mp (search_paths st) else None of Some r \<Rightarrow> (Some r, st) | None \<Rightarrow> missing) in
      if at_char CHR ''/'' mp
      then (case try_path_with_extension fs mp of Some r \<Rightarrow> (Some r, st) | None \<Rightarrow> missing)
      else (case dir of
          None \<Rightarrow> search
        | Some d \<Rightarrow>
            if length (d @ ''/'' @ mp) \<ge> MODULE_MAX_PATH_LENGTH then (None, module_set_error ''Path too long'' st)
            else (case try_path_with_extension fs (d @ ''/'' @ mp) of Some r \<Rightarrow> (Some r, st) | None \<Rightarrow> search)))"

definition module_find_loaded :: "cstring \<Rightarrow> mstate \<Rightarrow> nat option" where
  "module_find_loaded p st =
     (if \<not> up st then None
      else List.find (\<lambda>i. resolved_path (modules st ! i) = p) (rev [0..<length (modules st)]))"

definition new_module :: "cstring \<Rightarrow> cstring \<Rightarrow> Module" where
  "new_module path resolved =
     \<lparr>mod_name = module_get_name_from_path resolved, file_path = path, resolved_path = resolved, mod_ast = None,
      exports = [], is_compiled = False, is_loading = False, is_preprocessed = False, is_included = False,
      default_export_name = None, default_export_type = TYPE_NIL, default_export_type_desc = None\<rparr>"

definition module_load :: "file_system \<Rightarrow> cstring \<Rightarrow> cstring option \<Rightarrow> mstate \<Rightarrow> nat option \<times> mstate" where
  "module_load fs mp dir st =
     (if \<not> up st then (None, module_set_error ''Module system not initialized'' st)
      else (case module_resolve_path fs mp dir st of
          (None, st1) \<Rightarrow> (None, st1)
        | (Some r, st1) \<Rightarrow> (case module_find_loaded r st1 of
              Some i \<Rightarrow> (Some i, st1)
            | None \<Rightarrow> (Some (length (modules st1)), st1\<lparr>modules := modules st1 @ [new_module mp r]\<rparr>))))"

definition module_compile :: "file_system \<Rightarrow> nat \<Rightarrow> mstate \<Rightarrow> (bool \<times> mstate) outcome" where
  "module_compile fs i st =
     (let d = module_at st i; path = resolved_path d;
          failed = (\<lambda>msg st1. Done (fails msg (put_module i ((module_at st1 i)\<lparr>is_loading := False\<rparr>) st1))) in
      if is_compiled d then Done (True, st)
      else if is_loading d
      then Done (fails (''Circular dependency detected for module '' @ quoted (mod_name d)) st)
      else let st1 = put_module i (d\<lparr>is_loading := True\<rparr>) st in
        case read_file fs path of
          OpenFails \<Rightarrow> failed (''Failed to open module file: '' @ path) st1
        | SeekFails \<Rightarrow> failed (''Failed to seek in file: '' @ path) st1
        | SizeFails \<Rightarrow> failed (''Failed to get file size: '' @ path) st1
        | ReadFails \<Rightarrow> failed (''Failed to read module file: '' @ path) st1
        | Content bytes \<Rightarrow>
            bnd (ast_parse_program (cstr bytes) (errs (vars_state.heap (vars st)))) (\<lambda>(ast, rest, e).
              let h = (vars_state.heap (vars st))\<lparr>errs := e\<rparr>;
                  st2 = put_module i (d\<lparr>is_loading := True, mod_ast := ast\<rparr>) (st\<lparr>vars := (vars st)\<lparr>vars_state.heap := h\<rparr>\<rparr>) in
              if ast = None then failed (''Failed to parse module: '' @ path) st2
              else Done (True, put_module i ((module_at st2 i)\<lparr>is_compiled := True, is_loading := False\<rparr>) st2)))"

section \<open>Exports\<close>

definition module_find_export :: "Module \<Rightarrow> cstring \<Rightarrow> ModuleSymbol option" where
  "module_find_export d n = List.find (\<lambda>s. sym_name s = n) (exports d)"

definition module_get_default_export :: "Module \<Rightarrow> ModuleSymbol option" where
  "module_get_default_export d = List.find sym_default (exports d)"

definition module_add_export ::
  "nat \<Rightarrow> cstring \<Rightarrow> cstring option \<Rightarrow> ModuleSymbolType \<Rightarrow> symbol_ptr \<Rightarrow> bool \<Rightarrow> mstate \<Rightarrow> bool \<times> mstate" where
  "module_add_export i n a t p dflt st =
     (let d = module_at st i in
      if module_find_export d n \<noteq> None then fails (''Symbol '' @ quoted n @ '' is already exported'') st
      else if dflt \<and> module_get_default_export d \<noteq> None then fails ''Module already has a default export'' st
      else (True, put_module i (d\<lparr>exports := \<lparr>sym_name = n, sym_alias = a, sym_type = t, sym_ptr = p, sym_default = dflt\<rparr>
                # exports d\<rparr>) st))"

definition find_symbol :: "cstring \<Rightarrow> mstate \<Rightarrow> (ModuleSymbolType \<times> symbol_ptr) option outcome" where
  "find_symbol n st =
     (case get_function n (known_functions st) of
        Some k \<Rightarrow> Done (Some (MODULE_SYMBOL_FUNCTION, FunctionAt k))
      | None \<Rightarrow> (case get_variable n (vars st) of
          Some p \<Rightarrow> Done (Some (MODULE_SYMBOL_VARIABLE, VariableAt p))
        | None \<Rightarrow> bnd (bread_class_find_definition n (class_defs st) (vars_state.heap (vars st))) (\<lambda>r.
            Done (map_option (\<lambda>a. (MODULE_SYMBOL_CLASS, ClassAt a)) r))))"

fun export_symbols :: "bool \<Rightarrow> (cstring \<times> cstring option) list \<Rightarrow> nat \<Rightarrow> mstate \<Rightarrow> (bool \<times> mstate) outcome" where
  "export_symbols dflt [] i st = Done (True, st)"
| "export_symbols dflt ((n, a) # ns) i st =
     (if \<not> module_is_valid_identifier n then Done (fails (''Invalid symbol name for export: '' @ quoted n) st)
      else bnd (find_symbol n st) (\<lambda>found. case found of
          None \<Rightarrow> Done (fails (''Cannot export unknown symbol '' @ quoted n) st)
        | Some (t, p) \<Rightarrow> (case module_add_export i n a t p dflt st of
              (False, st1) \<Rightarrow> Done (False, st1)
            | (True, st1) \<Rightarrow> export_symbols dflt ns i st1)))"

definition process_export_statement :: "bool \<Rightarrow> (cstring \<times> cstring option) list \<Rightarrow> nat \<Rightarrow> mstate \<Rightarrow> (bool \<times> mstate) outcome" where
  "process_export_statement dflt ns i st =
     (if dflt \<and> length ns \<noteq> 1 then Done (fails ''Default export must specify exactly one symbol'' st)
      else export_symbols dflt ns i st)"

section \<open>Imports\<close>

fun import_symbols :: "(cstring \<times> cstring option) list \<Rightarrow> Module \<Rightarrow> mstate \<Rightarrow> bool \<times> mstate" where
  "import_symbols [] d st = (True, st)"
| "import_symbols ((n, a) # ns) d st =
     (case module_find_export d n of
        None \<Rightarrow> fails (''Symbol '' @ quoted n @ '' is not exported by module '' @ quoted (mod_name d)) st
      | Some s \<Rightarrow> (case module_register_qualified_symbol (mod_name d) (case a of None \<Rightarrow> n | Some x \<Rightarrow> x)
                     (sym_type s) (sym_ptr s) st of
            (False, st1) \<Rightarrow> (False, st1)
          | (True, st1) \<Rightarrow> import_symbols ns d st1))"

fun import_exports :: "ModuleSymbol list \<Rightarrow> cstring \<Rightarrow> mstate \<Rightarrow> bool \<times> mstate" where
  "import_exports [] mn st = (True, st)"
| "import_exports (s # ss) mn st =
     (case module_register_qualified_symbol mn (sym_name s) (sym_type s) (sym_ptr s) st of
        (False, st1) \<Rightarrow> (False, st1)
      | (True, st1) \<Rightarrow> import_exports ss mn st1)"

definition process_import_statement ::
  "file_system \<Rightarrow> cstring \<Rightarrow> cstring option \<Rightarrow> bool \<Rightarrow> (cstring \<times> cstring option) list \<Rightarrow> cstring option \<Rightarrow> mstate \<Rightarrow>
   (bool \<times> mstate) outcome" where
  "process_import_statement fs path alias selective names dir st =
     (case module_load fs path dir st of
        (None, st1) \<Rightarrow> Done (False, st1)
      | (Some i, st1) \<Rightarrow> bnd (module_compile fs i st1) (\<lambda>(ok, st2).
          if \<not> ok then Done (False, st2)
          else let d = module_at st2 i in
            Done (if selective then import_symbols names d st2
                  else import_exports (exports d) (case alias of None \<Rightarrow> mod_name d | Some a \<Rightarrow> a) st2)))"

section \<open>Preprocessing a module\<close>

definition andthen :: "(bool \<times> mstate) outcome option \<Rightarrow> (mstate \<Rightarrow> (bool \<times> mstate) outcome option) \<Rightarrow> (bool \<times> mstate) outcome option" where
  \<comment> \<open>go on after a call that returned true\<close>
  "andthen r f = (case r of Some (Done (True, st)) \<Rightarrow> f st | _ \<Rightarrow> r)"

definition note_default_export :: "cstring \<Rightarrow> nat \<Rightarrow> mstate \<Rightarrow> bool \<times> mstate" where
  "note_default_export n i st =
     (let d = module_at st i in
      if default_export_name d \<noteq> None
      then fails (''Module '' @ quoted (mod_name d) @ '' already has a default export'') st
      else let d1 = d\<lparr>default_export_name := Some n\<rparr> in
        case get_variable n (vars st) of
          None \<Rightarrow> fails (''Default export '' @ quoted n @ '' must be a global variable'') (put_module i d1 st)
        | Some p \<Rightarrow>
            let t = vtype (vval (var_at (vars st) p)); td = type_descriptor_create_primitive t;
                st1 = put_module i (d1\<lparr>default_export_type := t, default_export_type_desc := td\<rparr>) st in
            if td = None then fails ''Failed to create type descriptor for default export'' st1 else (True, st1))"

definition ast_function :: "func_decl \<Rightarrow> Function" where
  "ast_function f =
     (let sig = func_sig f in
      \<lparr>fn_name = func_name sig,
       fn_params = map (\<lambda>(n, t, e). (n, case t of None \<Rightarrow> TYPE_NIL | Some d \<Rightarrow> base_type d)) (func_params sig),
       fn_parameters = None, fn_return_type = return_type sig, fn_body = func_body f, fn_body_is_ast = True\<rparr>)"

definition register_ast_function :: "func_decl \<Rightarrow> mstate \<Rightarrow> (bool \<times> mstate) outcome" where
  "register_ast_function f st =
     bnd (register_function (ast_function f) (known_functions st) (vars_state.heap (vars st))) (\<lambda>(ok, gs, m).
       let st1 = st\<lparr>known_functions := gs, vars := (vars st)\<lparr>vars_state.heap := m\<rparr>\<rparr> in
       Done (if ok then (True, st1) else fails (''Failed to register function '' @ quoted (func_name (func_sig f))) st1))"

definition declare_global :: "cstring \<Rightarrow> VarType \<Rightarrow> bool \<Rightarrow> mstate \<Rightarrow> (bool \<times> mstate) outcome" where
  "declare_global x t const st =
     bnd (bread_var_decl_if_missing x t const None (vars st)) (\<lambda>(ok, vs).
       let st1 = st\<lparr>vars := vs\<rparr> in
       Done (if ok then (True, st1) else fails (''Failed to declare variable '' @ quoted x) st1))"

definition preprocess_import ::
  "(nat \<Rightarrow> mstate \<Rightarrow> (bool \<times> mstate) outcome option) \<Rightarrow> file_system \<Rightarrow> cstring \<Rightarrow> cstring option \<Rightarrow> bool \<Rightarrow>
   (cstring \<times> cstring option) list \<Rightarrow> nat \<Rightarrow> mstate \<Rightarrow> (bool \<times> mstate) outcome option" where
  "preprocess_import module fs path alias selective names i st =
     (let dir = Some (module_get_dir_from_path (resolved_path (module_at st i))) in
      andthen (Some (process_import_statement fs path alias selective names dir st)) (\<lambda>st1.
        case module_load fs path dir st1 of
          (None, st2) \<Rightarrow> Some (Done (False, st2))
        | (Some j, st2) \<Rightarrow> module j st2))"

definition preprocess_export :: "bool \<Rightarrow> (cstring \<times> cstring option) list \<Rightarrow> nat \<Rightarrow> mstate \<Rightarrow> (bool \<times> mstate) outcome option" where
  "preprocess_export dflt ns i st =
     andthen (Some (process_export_statement dflt ns i st)) (\<lambda>st1.
       Some (Done (if dflt then note_default_export (fst (hd ns)) i st1 else (True, st1))))"

definition preprocess_stmt ::
  "(nat \<Rightarrow> mstate \<Rightarrow> (bool \<times> mstate) outcome option) \<Rightarrow> file_system \<Rightarrow> nat \<Rightarrow> ASTStmt \<Rightarrow> mstate \<Rightarrow> (bool \<times> mstate) outcome option" where
  "preprocess_stmt module fs i s st =
     (case stmt_node s of
        SImport path alias selective names \<Rightarrow> preprocess_import module fs path alias selective names i st
      | SExport dflt ns \<Rightarrow> preprocess_export dflt ns i st
      | SFuncDecl f \<Rightarrow> Some (register_ast_function f st)
      | SVarDecl x t td init const \<Rightarrow> Some (declare_global x t const st)
      | _ \<Rightarrow> Some (Done (True, st)))"

fun module_preprocess_stmt_list ::
  "(nat \<Rightarrow> mstate \<Rightarrow> (bool \<times> mstate) outcome option) \<Rightarrow> file_system \<Rightarrow> nat \<Rightarrow> ASTStmt list \<Rightarrow> mstate \<Rightarrow> (bool \<times> mstate) outcome option" where
  "module_preprocess_stmt_list module fs i [] st = Some (Done (True, st))"
| "module_preprocess_stmt_list module fs i (s # ss) st =
     andthen (preprocess_stmt module fs i s st) (module_preprocess_stmt_list module fs i ss)"

fun module_preprocess_module :: "nat \<Rightarrow> file_system \<Rightarrow> nat \<Rightarrow> mstate \<Rightarrow> (bool \<times> mstate) outcome option" where
  "module_preprocess_module 0 fs i st = None"
| "module_preprocess_module (Suc n) fs i st =
     (if is_preprocessed (module_at st i) then Some (Done (True, st))
      else andthen (Some (module_compile fs i st)) (\<lambda>st1.
        case mod_ast (module_at st1 i) of
          None \<Rightarrow> Some (Done (fails (''Module has no AST: '' @ mod_name (module_at st1 i)) st1))
        | Some ss \<Rightarrow> andthen (module_preprocess_stmt_list (module_preprocess_module n fs) fs i ss st1) (\<lambda>st2.
            Some (Done (True, put_module i ((module_at st2 i)\<lparr>is_preprocessed := True\<rparr>) st2)))))"

section \<open>Preprocessing the program\<close>

fun plain :: "ASTStmt \<Rightarrow> bool" where
  "plain (Stmt h (SImport p a b n)) = False"
| "plain (Stmt h (SExport b n)) = False"
| "plain s = True"

definition splice_module_into_program :: "nat \<Rightarrow> ASTStmt list \<Rightarrow> mstate \<Rightarrow> ASTStmt list \<times> mstate" where
  "splice_module_into_program i out st =
     (let d = module_at st i in
      (out @ filter plain (case mod_ast d of None \<Rightarrow> [] | Some ss \<Rightarrow> ss),
       put_module i (d\<lparr>mod_ast := Some [], is_included := True\<rparr>) st))"

definition alias_decl :: "cstring option \<Rightarrow> Module \<Rightarrow> ASTStmt list" where
  \<comment> \<open>the constant an alias of the import stands for\<close>
  "alias_decl alias d = (case (alias, default_export_name d) of
      (Some a, Some n) \<Rightarrow> [ast_stmt_new (SVarDecl a (default_export_type d)
           (type_descriptor_clone (default_export_type_desc d)) (ast_expr_new (EVar n)) True)]
    | _ \<Rightarrow> [])"

definition include_module :: "cstring option \<Rightarrow> nat \<Rightarrow> ASTStmt list \<Rightarrow> mstate \<Rightarrow> ASTStmt list option \<times> mstate" where
  \<comment> \<open>what an import of the program adds, once the module has been preprocessed\<close>
  "include_module alias i out st =
     (let d = module_at st i in
      if default_export_name d = None \<or> default_export_type_desc d = None
      then (None, module_set_error (''Module '' @ quoted (mod_name d) @ '' has no default export'') st)
      else let (out1, st1) = (if is_included d then (out, st) else splice_module_into_program i out st) in
        (Some (out1 @ alias_decl alias d), st1))"

fun preprocess_program :: "nat \<Rightarrow> file_system \<Rightarrow> ASTStmt list \<Rightarrow> ASTStmt list \<Rightarrow> mstate \<Rightarrow> (ASTStmt list option \<times> mstate) outcome option" where
  "preprocess_program n fs [] out st = Some (Done (Some out, st))"
| "preprocess_program n fs (s # ss) out st =
     (case stmt_node s of
        SImport path alias selective names \<Rightarrow>
          (case module_load fs path None st of
             (None, st1) \<Rightarrow> Some (Done (None, st1))
           | (Some i, st1) \<Rightarrow> (case module_preprocess_module n fs i st1 of
                 None \<Rightarrow> None
               | Some (Done (False, st2)) \<Rightarrow> Some (Done (None, st2))
               | Some (Done (True, st2)) \<Rightarrow> (case include_module alias i out st2 of
                     (None, st3) \<Rightarrow> Some (Done (None, st3))
                   | (Some out1, st3) \<Rightarrow> preprocess_program n fs ss out1 st3)
               | Some (Aborted e) \<Rightarrow> Some (Aborted e)
               | Some Undefined \<Rightarrow> Some Undefined))
      | SExport dflt ns \<Rightarrow> preprocess_program n fs ss out st
      | _ \<Rightarrow> preprocess_program n fs ss (out @ [s]) st)"

definition module_preprocess_program :: "nat \<Rightarrow> file_system \<Rightarrow> ASTStmt list \<Rightarrow> mstate \<Rightarrow> (ASTStmt list option \<times> mstate) outcome option" where
  "module_preprocess_program n fs program st = preprocess_program n fs program [] st"

end
