(* ===== verification/BreadModuleLaws.thy ===== *)
theory BreadModuleLaws
  imports BreadModules
begin

text \<open>
  What modules promise: where a module is found, that preprocessing keeps the tables consistent, that it
  returns when the imports have no cycle, and that the program it makes is the program with every
  imported module in the place of its first import.
\<close>


section \<open>Where a module is found\<close>

definition with_extension :: "cstring \<Rightarrow> cstring list" where
  "with_extension p = [p, p @ MODULE_EXTENSION]"

definition candidates :: "cstring \<Rightarrow> cstring option \<Rightarrow> cstring list \<Rightarrow> cstring list" where
  \<comment> \<open>the paths a module can have, in the order of preference\<close>
  "candidates mp dir paths =
     (if at_char CHR ''/'' mp then with_extension mp
      else (case dir of None \<Rightarrow> [] | Some d \<Rightarrow> with_extension (d @ ''/'' @ mp)) @
        concat (map with_extension (filter (\<lambda>p. length p < MODULE_MAX_PATH_LENGTH) (map (\<lambda>p. p @ ''/'' @ mp) paths))))"

lemma find_append: "List.find P (xs @ ys) = (case List.find P xs of None \<Rightarrow> List.find P ys | Some x \<Rightarrow> Some x)"
  by (induction xs) auto

lemma try_path_find: "try_path_with_extension fs p = List.find (is_regular fs) (with_extension p)"
  by (simp add: try_path_with_extension_def with_extension_def)

lemma search_in_find:
  "search_in fs mp paths = List.find (is_regular fs)
     (concat (map with_extension (filter (\<lambda>p. length p < MODULE_MAX_PATH_LENGTH) (map (\<lambda>p. p @ ''/'' @ mp) paths))))"
  by (induction paths) (simp_all add: Let_def try_path_find find_append not_le split: option.split)

text \<open>
  A module's path is resolved to the first regular file among the candidates: the path itself when it is
  absolute; else in the directory of the importing file and then in the search paths, each without and
  with the extension. A path too long for the buffer ends the search in the directory and is skipped in the search paths.
\<close>
theorem resolve_path_first:
  assumes "up st"
  shows "fst (module_resolve_path fs mp dir st) =
    (if \<not> at_char CHR ''/'' mp \<and> (\<exists>d. dir = Some d \<and> length (d @ ''/'' @ mp) \<ge> MODULE_MAX_PATH_LENGTH) then None
     else List.find (is_regular fs) (candidates mp dir (search_paths st)))"
  using assms
  by (auto simp: module_resolve_path_def candidates_def try_path_find search_in_find find_append Let_def split: option.splits)

section \<open>What stays\<close>

definition parses :: "file_system \<Rightarrow> cstring \<Rightarrow> ASTStmt list \<Rightarrow> bool" where
  "parses fs p ss \<longleftrightarrow> (\<exists>bytes e r e'. read_file fs p = Content bytes \<and> ast_parse_program (cstr bytes) e = Done (Some ss, r, e'))"

definition module_ok :: "file_system \<Rightarrow> Module \<Rightarrow> bool" where
  "module_ok fs d \<longleftrightarrow>
     distinct (map sym_name (exports d)) \<and> length (filter sym_default (exports d)) \<le> 1 \<and> \<not> is_loading d \<and>
     (is_included d \<longrightarrow> is_preprocessed d) \<and> (is_preprocessed d \<longrightarrow> is_compiled d) \<and>
     (is_compiled d \<longrightarrow> (\<exists>ss. mod_ast d = Some ss \<and> (is_included d \<or> parses fs (resolved_path d) ss)))"

definition modules_ok :: "file_system \<Rightarrow> mstate \<Rightarrow> bool" where
  "modules_ok fs st \<longleftrightarrow> distinct (map resolved_path (modules st)) \<and> (\<forall>d \<in> set (modules st). module_ok fs d) \<and>
     distinct (map fst (qualified_symbols st)) \<and> table_ok (known_functions st)"

definition default_exports :: "ASTStmt list \<Rightarrow> cstring list" where
  \<comment> \<open>the names that the source of a module exports by default\<close>
  "default_exports ss = concat (map (\<lambda>s. case stmt_node s of SExport True ((n, a) # ns) \<Rightarrow> [n] | _ \<Rightarrow> []) ss)"

definition export_ok :: "Module \<Rightarrow> bool" where
  \<comment> \<open>a default export that has been noted is one of the source, which has no other once it has been preprocessed\<close>
  "export_ok d \<longleftrightarrow>
     (default_export_type_desc d = None \<or> default_export_type_desc d = type_descriptor_create_primitive (default_export_type d)) \<and>
     (default_export_name d \<noteq> None \<longrightarrow> is_compiled d) \<and>
     (\<not> is_included d \<longrightarrow>
        (\<forall>n. default_export_name d = Some n \<longrightarrow> (\<exists>ss. mod_ast d = Some ss \<and> n \<in> set (default_exports ss))) \<and>
        (is_preprocessed d \<longrightarrow> (\<exists>ss. mod_ast d = Some ss \<and> length (default_exports ss) \<le> 1)))"

definition exports_ok :: "mstate \<Rightarrow> bool" where
  "exports_ok st \<longleftrightarrow> (\<forall>d \<in> set (modules st). export_ok d)"

definition module_keeps :: "bool \<Rightarrow> Module \<Rightarrow> Module \<Rightarrow> bool" where
  "module_keeps current d d' \<longleftrightarrow> resolved_path d' = resolved_path d \<and> is_included d' = is_included d \<and>
     (is_compiled d \<longrightarrow> is_compiled d' \<and> mod_ast d' = mod_ast d) \<and> (is_preprocessed d \<and> \<not> current \<longrightarrow> d' = d) \<and>
     (default_export_name d \<noteq> None \<longrightarrow> default_export_name d' = default_export_name d)"

definition keeps :: "nat \<Rightarrow> mstate \<Rightarrow> mstate \<Rightarrow> bool" where
  \<comment> \<open>while the module \<open>k\<close> is being preprocessed\<close>
  "keeps k st st' \<longleftrightarrow> up st' = up st \<and> search_paths st' = search_paths st \<and> length (modules st) \<le> length (modules st') \<and>
     (\<forall>i < length (modules st). module_keeps (i = k) (modules st ! i) (modules st' ! i)) \<and>
     (\<forall>i < length (modules st'). length (modules st) \<le> i \<longrightarrow> \<not> is_included (modules st' ! i))"

definition leads :: "file_system \<Rightarrow> nat \<Rightarrow> mstate \<Rightarrow> mstate \<Rightarrow> bool" where
  "leads fs k st st' \<longleftrightarrow>
     (modules_ok fs st \<longrightarrow> modules_ok fs st' \<and> keeps k st st' \<and> (exports_ok st \<longrightarrow> exports_ok st'))"

definition run_leads :: "file_system \<Rightarrow> nat \<Rightarrow> mstate \<Rightarrow> (bool \<times> mstate) outcome option \<Rightarrow> bool" where
  "run_leads fs k st r \<longleftrightarrow> (\<forall>b st'. r = Some (Done (b, st')) \<longrightarrow> leads fs k st st')"

named_theorems leads_intros \<open>the operations keep the invariant and what has been settled\<close>

lemma module_keeps_refl [simp]: "module_keeps c d d"
  by (simp add: module_keeps_def)

lemma module_keeps_trans: "module_keeps c d d' \<Longrightarrow> module_keeps c d' d'' \<Longrightarrow> module_keeps c d d''"
  by (auto simp: module_keeps_def)

lemma keeps_refl [simp]: "keeps k st st"
  by (simp add: keeps_def)

lemma keeps_trans:
  assumes "keeps k st st'" and "keeps k st' st''"
  shows "keeps k st st''"
proof -
  have "\<not> is_included (modules st'' ! i)" if "i < length (modules st'')" "length (modules st) \<le> i" for i
    using assms that by (cases "i < length (modules st')") (auto simp: keeps_def module_keeps_def)
  then show ?thesis using assms by (auto simp: keeps_def intro: module_keeps_trans)
qed

lemma leads_refl [leads_intros, simp]: "leads fs k st st"
  by (simp add: leads_def)

lemma leads_trans: "leads fs k st st' \<Longrightarrow> leads fs k st' st'' \<Longrightarrow> leads fs k st st''"
  by (auto simp: leads_def intro: keeps_trans)

lemma leads_same_modules:
  assumes "modules st' = modules st" "up st' = up st" "search_paths st' = search_paths st"
    and "distinct (map fst (qualified_symbols st)) \<Longrightarrow> distinct (map fst (qualified_symbols st'))"
    and "table_ok (known_functions st) \<Longrightarrow> table_ok (known_functions st')"
  shows "leads fs k st st'"
  using assms by (auto simp: leads_def modules_ok_def keeps_def exports_ok_def)

lemma set_error_simps [simp]:
  "modules (module_set_error msg st) = modules st" "up (module_set_error msg st) = up st"
  "search_paths (module_set_error msg st) = search_paths st" "qualified_symbols (module_set_error msg st) = qualified_symbols st"
  "known_functions (module_set_error msg st) = known_functions st"
  by (simp_all add: module_set_error_def)

lemma leads_error [leads_intros]: "leads fs k st (module_set_error msg st)"
  by (rule leads_same_modules) simp_all

lemma leads_set_error: "leads fs k st st' \<Longrightarrow> leads fs k st (module_set_error msg st')"
  using leads_error leads_trans by blast

lemma leads_fails [leads_intros]: "leads fs k st st' \<Longrightarrow> fails msg st' = (b, st'') \<Longrightarrow> leads fs k st st''"
  using leads_error leads_trans by (fastforce simp: fails_def)

lemma leads_put:
  assumes "i < length (modules st) \<Longrightarrow> module_ok fs (modules st ! i) \<Longrightarrow> module_ok fs d"
    and "i < length (modules st) \<Longrightarrow> module_ok fs (modules st ! i) \<Longrightarrow> module_keeps (i = k) (modules st ! i) d"
    and "i < length (modules st) \<Longrightarrow> module_ok fs (modules st ! i) \<Longrightarrow> export_ok (modules st ! i) \<Longrightarrow> export_ok d"
  shows "leads fs k st (put_module i d st)"
proof (cases "i < length (modules st)")
  case True
  show ?thesis
    unfolding leads_def
  proof
    assume ok: "modules_ok fs st"
    then have old: "module_ok fs (modules st ! i)" using True by (simp add: modules_ok_def)
    have "resolved_path d = resolved_path (modules st ! i)" using assms(2) [OF True old] by (simp add: module_keeps_def)
    then have "map resolved_path ((modules st)[i := d]) = map resolved_path (modules st)"
      by (metis list_update_id map_update)
    moreover have "\<forall>x \<in> set ((modules st)[i := d]). module_ok fs x"
      using ok assms(1) [OF True old] set_update_subset_insert [of "modules st" i d] by (auto simp: modules_ok_def)
    ultimately have "modules_ok fs (put_module i d st)" using ok by (simp add: modules_ok_def put_module_def)
    moreover have "keeps k st (put_module i d st)"
      using assms(2) [OF True old] True by (auto simp: keeps_def put_module_def nth_list_update)
    moreover have "exports_ok st \<longrightarrow> exports_ok (put_module i d st)"
      using assms(3) [OF True old] True set_update_subset_insert [of "modules st" i d]
      by (auto simp: exports_ok_def put_module_def)
    ultimately show "modules_ok fs (put_module i d st) \<and> keeps k st (put_module i d st) \<and>
      (exports_ok st \<longrightarrow> exports_ok (put_module i d st))" by simp
  qed
next
  case False
  then have "put_module i d st = st" by (simp add: put_module_def not_less list_update_beyond)
  then show ?thesis by simp
qed

lemma leads_register [leads_intros]:
  "module_register_qualified_symbol mn sn t p st = (b, st') \<Longrightarrow> leads fs k st st'"
  by (rule leads_same_modules) (auto simp: module_register_qualified_symbol_def fails_def Let_def split: if_splits, force)

lemma leads_resolve [leads_intros]: "module_resolve_path fs' mp dir st = (r, st') \<Longrightarrow> leads fs k st st'"
  by (auto simp: module_resolve_path_def Let_def leads_error split: if_splits option.splits)

lemma leads_import_symbols [leads_intros]: "import_symbols ns d st = (b, st') \<Longrightarrow> leads fs k st st'"
proof (induction ns d st rule: import_symbols.induct)
  case (2 n a ns d st)
  then show ?case
    by (auto split: option.splits prod.splits bool.splits intro: leads_fails [OF leads_refl] leads_register
        leads_trans [OF leads_register])
qed simp

lemma leads_import_exports [leads_intros]: "import_exports ss mn st = (b, st') \<Longrightarrow> leads fs k st st'"
proof (induction ss mn st rule: import_exports.induct)
  case (2 s ss mn st)
  then show ?case
    by (auto split: prod.splits bool.splits intro: leads_register leads_trans [OF leads_register])
qed simp

lemma find_SomeD: "List.find P xs = Some x \<Longrightarrow> x \<in> set xs \<and> P x"
  by (auto simp: find_Some_iff)

lemma find_loaded:
  "module_find_loaded p st = Some i \<Longrightarrow> i < length (modules st) \<and> resolved_path (modules st ! i) = p"
  "up st \<Longrightarrow> module_find_loaded p st = None \<Longrightarrow> p \<notin> resolved_path ` set (modules st)"
  by (auto simp: module_find_loaded_def find_None_iff in_set_conv_nth dest!: find_SomeD split: if_splits)

lemma resolve_keeps_modules:
  "module_resolve_path fs mp dir st = (r, st') \<Longrightarrow>
   modules st' = modules st \<and> up st' = up st \<and> search_paths st' = search_paths st"
  by (auto simp: module_resolve_path_def Let_def module_set_error_def split: if_splits option.splits)

lemma module_load_at:
  assumes "module_load fs mp dir st = (Some i, st')"
  shows "i < length (modules st') \<and> fst (module_resolve_path fs mp dir st) = Some (resolved_path (module_at st' i))"
proof -
  obtain r st1 where r: "module_resolve_path fs mp dir st = (Some r, st1)"
    using assms by (auto simp: module_load_def split: if_splits option.splits prod.splits)
  show ?thesis using assms find_loaded(1) [of r st1 i]
    by (auto simp: module_load_def r module_at_def new_module_def split: if_splits option.splits)
qed

lemma leads_load [leads_intros]:
  assumes "module_load fs' mp dir st = (r, st')"
  shows "leads fs k st st'"
proof (cases "up st")
  case False
  then show ?thesis using assms by (auto simp: module_load_def leads_error)
next
  case True
  obtain p st1 where p: "module_resolve_path fs' mp dir st = (p, st1)" by fastforce
  have st1: "leads fs k st st1" using leads_resolve [OF p] .
  have up: "up st1" using resolve_keeps_modules [OF p] True by simp
  show ?thesis
  proof (cases "\<exists>q. p = Some q \<and> module_find_loaded q st1 = None")
    case False
    then show ?thesis using assms p st1 True by (auto simp: module_load_def split: option.splits)
  next
    case new: True
    then obtain q where q: "p = Some q" "module_find_loaded q st1 = None" by blast
    let ?st = "st1\<lparr>modules := modules st1 @ [new_module mp q]\<rparr>"
    have "modules_ok fs st1 \<longrightarrow> modules_ok fs ?st"
      using find_loaded(2) [OF up q(2)] by (auto simp: modules_ok_def new_module_def module_ok_def)
    moreover have "keeps k st1 ?st" by (auto simp: keeps_def nth_append new_module_def)
    moreover have "exports_ok st1 \<longrightarrow> exports_ok ?st" by (auto simp: exports_ok_def export_ok_def new_module_def)
    ultimately have "leads fs k st1 ?st" by (simp add: leads_def)
    moreover have "st' = ?st" using assms p q True by (simp add: module_load_def)
    ultimately show ?thesis using leads_trans [OF st1] by blast
  qed
qed


lemma module_at_put [simp]:
  "i < length (modules st) \<Longrightarrow> module_at (put_module i d st) i = d" "length (modules (put_module i d st)) = length (modules st)"
  by (simp_all add: module_at_def put_module_def)

lemma module_at_vars [simp]: "module_at (st\<lparr>vars := vs\<rparr>) i = module_at st i"
  by (simp add: module_at_def)

lemma put_put [simp]: "put_module i d (put_module i e st) = put_module i d st"
  by (simp add: put_module_def)

text \<open>Compiling a module reads it at most once.\<close>


lemma compile_cases:
  assumes "module_compile fs i st = Done (b, st')" and "i < length (modules st)"
    and "\<not> is_compiled (module_at st i)" "\<not> is_loading (module_at st i)"
  shows "\<exists>d'. modules st' = (modules st)[i := d'] \<and> up st' = up st \<and> search_paths st' = search_paths st \<and>
    qualified_symbols st' = qualified_symbols st \<and> known_functions st' = known_functions st \<and>
    (if b then \<exists>ss. parses fs (resolved_path (module_at st i)) ss \<and>
        d' = (module_at st i)\<lparr>mod_ast := Some ss, is_compiled := True, is_loading := False\<rparr>
     else \<exists>a. d' = (module_at st i)\<lparr>mod_ast := a, is_loading := False\<rparr>)"
proof -
  let ?d = "module_at st i"
  note unfold = module_compile_def [of fs i st] Let_def assms(3,4)
  have bad: ?thesis if "module_compile fs i st = Done (fails msg (put_module i ((module_at (put_module i (?d\<lparr>is_loading := True\<rparr>) st) i)\<lparr>is_loading := False\<rparr>)
      (put_module i (?d\<lparr>is_loading := True\<rparr>) st)))" for msg
  proof -
    have b: "\<not> b" and st': "st' = module_set_error msg (put_module i (?d\<lparr>is_loading := False\<rparr>) st)"
      using that assms(1,2) by (auto simp: fails_def)
    have "?d\<lparr>is_loading := False\<rparr> = ?d\<lparr>mod_ast := mod_ast ?d, is_loading := False\<rparr>" by simp
    then show ?thesis using b st' by (auto simp: put_module_def intro!: exI [of _ "?d\<lparr>is_loading := False\<rparr>"] exI [of _ "mod_ast ?d"])
  qed
  show ?thesis
  proof (cases "read_file fs (resolved_path ?d)")
    case (Content bytes)
    obtain ast rest e where p: "ast_parse_program (cstr bytes) (errs (vars_state.heap (vars st))) = Done (ast, rest, e)"
      using assms(1) by (cases "ast_parse_program (cstr bytes) (errs (vars_state.heap (vars st)))")
        (auto simp: unfold Content)
    show ?thesis
    proof (cases ast)
      case None
      then have "\<not> b" "\<exists>msg vs. st' = module_set_error msg (put_module i (?d\<lparr>mod_ast := None, is_loading := False\<rparr>) (st\<lparr>vars := vs\<rparr>))"
        using assms(1,2) by (auto simp: unfold Content p fails_def)
      then show ?thesis by (auto simp: put_module_def)
    next
      case (Some ss)
      then have "b" "\<exists>vs. st' = put_module i (?d\<lparr>mod_ast := Some ss, is_compiled := True, is_loading := False\<rparr>) (st\<lparr>vars := vs\<rparr>)"
        using assms(1,2) by (auto simp: unfold Content p)
      moreover have "parses fs (resolved_path ?d) ss" using Content p Some by (auto simp: parses_def)
      ultimately show ?thesis by (auto simp: put_module_def)
    qed
  qed (rule bad; simp add: unfold)+
qed

lemma compile_leads [leads_intros]:
  assumes "module_compile fs i st = Done (b, st')" and "i < length (modules st)"
  shows "leads fs k st st'"
proof (cases "is_compiled (module_at st i) \<or> is_loading (module_at st i)")
  case True
  then show ?thesis using assms(1) leads_fails [OF leads_refl] by (auto simp: module_compile_def Let_def split: if_splits)
next
  case False
  then obtain d' where d': "modules st' = (modules st)[i := d']" and same: "up st' = up st" "search_paths st' = search_paths st"
      "qualified_symbols st' = qualified_symbols st" "known_functions st' = known_functions st"
    and how: "if b then \<exists>ss. parses fs (resolved_path (module_at st i)) ss \<and>
        d' = (module_at st i)\<lparr>mod_ast := Some ss, is_compiled := True, is_loading := False\<rparr>
     else \<exists>a. d' = (module_at st i)\<lparr>mod_ast := a, is_loading := False\<rparr>"
    using compile_cases [OF assms] by blast
  have "leads fs k st (put_module i d' st)"
    by (rule leads_put) (use how False in \<open>auto simp: module_ok_def module_keeps_def module_at_def export_ok_def split: if_splits\<close>)
  moreover have "leads fs k (put_module i d' st) st'"
    by (rule leads_same_modules) (use d' same in \<open>simp_all add: put_module_def\<close>)
  ultimately show ?thesis by (rule leads_trans)
qed

lemma compile_done:
  assumes "module_compile fs i st = Done (True, st')" and "i < length (modules st)" and "modules_ok fs st"
  shows "i < length (modules st') \<and> is_compiled (module_at st' i) \<and> resolved_path (module_at st' i) = resolved_path (module_at st i)
    \<and> is_preprocessed (module_at st' i) = is_preprocessed (module_at st i)"
proof (cases "is_compiled (module_at st i)")
  case True
  then show ?thesis using assms(1,2) by (simp add: module_compile_def)
next
  case False
  have "\<not> is_loading (module_at st i)" using assms(2,3) by (simp add: modules_ok_def module_ok_def module_at_def)
  from compile_cases [OF assms(1,2) False this] show ?thesis using assms(2) by (auto simp: module_at_def)
qed

lemma add_export_leads [leads_intros]:
  assumes "module_add_export i n a t p dflt st = (b, st')"
  shows "leads fs i st st'"
proof -
  let ?d = "module_at st i"
  have other: "n \<notin> sym_name ` set (exports ?d)" if "module_find_export ?d n = None"
    using that by (auto simp: module_find_export_def find_None_iff)
  have single: "filter sym_default (exports ?d) = []" if "module_get_default_export ?d = None"
    using that by (auto simp: module_get_default_export_def find_None_iff filter_empty_conv)
  show ?thesis
  proof (cases "module_find_export ?d n = None \<and> (dflt \<longrightarrow> module_get_default_export ?d = None)")
    case True
    let ?e = "?d\<lparr>exports := \<lparr>sym_name = n, sym_alias = a, sym_type = t, sym_ptr = p, sym_default = dflt\<rparr> # exports ?d\<rparr>"
    have "st' = put_module i ?e st" using assms True by (auto simp: module_add_export_def Let_def split: if_splits)
    moreover have "leads fs i st (put_module i ?e st)"
      by (rule leads_put) (use True other single in \<open>auto simp: module_ok_def module_keeps_def module_at_def export_ok_def\<close>)
    ultimately show ?thesis by simp
  next
    case False
    then show ?thesis using assms leads_fails [OF leads_refl] by (auto simp: module_add_export_def Let_def split: if_splits)
  qed
qed

lemma export_symbols_leads [leads_intros]:
  "export_symbols dflt ns i st = Done (b, st') \<Longrightarrow> leads fs i st st'"
proof (induction dflt ns i st rule: export_symbols.induct)
  case (2 dflt n a ns i st)
  show ?case
  proof (cases "module_is_valid_identifier n")
    case False
    with 2 show ?thesis by (auto intro: leads_fails [OF leads_refl])
  next
    case True
    then obtain found where f: "find_symbol n st = Done found"
      using "2.prems" by (cases "find_symbol n st") auto
    show ?thesis
    proof (cases found)
      case None
      with f True "2.prems" show ?thesis by (auto intro: leads_fails [OF leads_refl])
    next
      case (Some tp)
      obtain t p where tp: "tp = (t, p)" by fastforce
      obtain ok st1 where ae: "module_add_export i n a t p dflt st = (ok, st1)" by fastforce
      show ?thesis
      proof (cases ok)
        case False
        then show ?thesis using ae f True Some tp "2.prems" add_export_leads by auto
      next
        case okt: True
        with "2.prems" f True Some tp ae have "export_symbols dflt ns i st1 = Done (b, st')" by simp
        with "2.IH" [OF _ ae [symmetric]] True okt have "leads fs i st1 st'" by auto
        then show ?thesis using leads_trans [OF add_export_leads [OF ae]] by blast
      qed
    qed
  qed
qed simp

lemma keeps_length: "keeps k st st' \<Longrightarrow> i < length (modules st) \<Longrightarrow> i < length (modules st')"
  by (simp add: keeps_def)

lemma import_statement_leads [leads_intros]:
  assumes "process_import_statement fs path alias selective names dir st = Done (b, st')"
  shows "leads fs k st st'"
proof (cases "module_load fs path dir st")
  case (Pair r st1)
  have load: "leads fs k st st1" using leads_load [OF Pair] .
  show ?thesis
  proof (cases r)
    case None
    then show ?thesis using assms Pair load by (simp add: process_import_statement_def)
  next
    case (Some i)
    have i: "i < length (modules st1)" using module_load_at Pair Some by blast
    obtain ok st2 where c: "module_compile fs i st1 = Done (ok, st2)"
      using assms Pair Some by (cases "module_compile fs i st1") (auto simp: process_import_statement_def)
    have "leads fs k st2 st'"
      using assms Pair Some c leads_import_symbols leads_import_exports
      by (auto simp: process_import_statement_def Let_def split: if_splits)
    with load compile_leads [OF c i] leads_trans show ?thesis by blast
  qed
qed

definition reading :: "nat \<Rightarrow> ASTStmt list \<Rightarrow> mstate \<Rightarrow> bool" where
  \<comment> \<open>the source of the module \<open>i\<close> has been read and is \<open>all\<close>\<close>
  "reading i all st \<longleftrightarrow> i < length (modules st) \<and> is_compiled (module_at st i) \<and> mod_ast (module_at st i) = Some all"

lemma reading_stays:
  "leads fs k st st' \<Longrightarrow> modules_ok fs st \<Longrightarrow> reading i all st \<Longrightarrow> reading i all st'"
  by (auto simp: leads_def keeps_def module_keeps_def module_at_def reading_def)

lemma note_default_leads:
  assumes "note_default_export n i st = (b, st')" "reading i all st" "n \<in> set (default_exports all)"
  shows "leads fs i st st'"
proof -
  let ?d = "module_at st i"
  have put: "leads fs i st (put_module i (?d\<lparr>default_export_name := Some n, default_export_type := t,
      default_export_type_desc := td\<rparr>) st)"
    if "default_export_name ?d = None" "td = None \<or> td = type_descriptor_create_primitive t" for t td
    by (rule leads_put) (use that assms(2,3) in \<open>auto simp: reading_def module_ok_def module_keeps_def module_at_def export_ok_def\<close>)
  have name: "leads fs i st (put_module i (?d\<lparr>default_export_name := Some n\<rparr>) st)" if "default_export_name ?d = None"
    by (rule leads_put) (use that assms(2,3) in \<open>auto simp: reading_def module_ok_def module_keeps_def module_at_def export_ok_def\<close>)
  show ?thesis using assms(1) put name
    by (auto simp: note_default_export_def fails_def Let_def split: if_splits option.splits intro!: leads_set_error)
qed

lemma export_statement_leads:
  "process_export_statement dflt ns i st = Done (b, st') \<Longrightarrow> leads fs i st st'"
  unfolding process_export_statement_def
  using export_symbols_leads leads_fails [OF leads_refl] by (auto split: if_splits simp del: export_symbols.simps)

lemma export_leads:
  assumes "reading i all st" "dflt \<Longrightarrow> ns \<noteq> [] \<Longrightarrow> fst (hd ns) \<in> set (default_exports all)"
  shows "run_leads fs i st (preprocess_export dflt ns i st)"
proof (cases "process_export_statement dflt ns i st")
  case (Done r)
  obtain ok st1 where r: "r = (ok, st1)" by fastforce
  have lead: "leads fs i st st1" using Done r export_statement_leads by simp
  have "leads fs i st st'"
    if nd: "note_default_export (fst (hd ns)) i st1 = (b, st')" and "ok" "dflt" for b st'
  proof (cases "modules_ok fs st")
    case True
    have "ns \<noteq> []" using Done r that(2,3) by (auto simp: process_export_statement_def fails_def)
    then have "leads fs i st1 st'"
      using note_default_leads [OF nd reading_stays [OF lead True assms(1)]] assms(2) that(3) by blast
    then show ?thesis using leads_trans [OF lead] by blast
  qed (simp add: leads_def)
  then show ?thesis using lead
    by (cases ok) (auto simp: run_leads_def preprocess_export_def andthen_def Done r split: if_splits)
qed (simp_all add: run_leads_def preprocess_export_def andthen_def)

lemma register_table_ok: "register_function f fs m = Done (ok, fs', m') \<Longrightarrow> table_ok fs \<Longrightarrow> table_ok fs'"
  by (cases "clone_parameters (given_parameters f) m")
    (auto simp: register_function_def table_ok_def split: if_splits prod.splits, blast+)

lemma function_leads [leads_intros]: "run_leads fs i st (Some (register_ast_function f st))"
proof (cases "register_function (ast_function f) (known_functions st) (vars_state.heap (vars st))")
  case (Done r)
  obtain ok gs m where r: "r = (ok, gs, m)" by (cases r)
  have "leads fs i st (st\<lparr>known_functions := gs, vars := vs\<rparr>)" for vs
    by (rule leads_same_modules) (use register_table_ok Done r in auto)
  then show ?thesis
    by (auto simp: run_leads_def register_ast_function_def Done r fails_def Let_def split: if_splits intro: leads_set_error)
qed (simp_all add: run_leads_def register_ast_function_def)

lemma global_leads [leads_intros]: "run_leads fs i st (Some (declare_global x t const st))"
proof (cases "bread_var_decl_if_missing x t const None (vars st)")
  case (Done r)
  obtain ok vs where r: "r = (ok, vs)" by fastforce
  have "leads fs i st (st\<lparr>vars := vs\<rparr>)" by (rule leads_same_modules) auto
  then show ?thesis
    by (auto simp: run_leads_def declare_global_def Done r fails_def Let_def split: if_splits intro: leads_set_error)
qed (simp_all add: run_leads_def declare_global_def)

lemma andthen_leads:
  assumes "run_leads fs k st r"
    and "\<And>st1. r = Some (Done (True, st1)) \<Longrightarrow> leads fs k st st1 \<Longrightarrow> modules_ok fs st \<Longrightarrow> run_leads fs k st1 (f st1)"
  shows "run_leads fs k st (andthen r f)"
proof (cases "modules_ok fs st")
  case True
  with assms leads_trans show ?thesis
    by (fastforce simp: run_leads_def andthen_def split: option.splits outcome.splits bool.splits prod.splits)
qed (simp add: run_leads_def leads_def)

lemma run_leads_trans: "leads fs k st st1 \<Longrightarrow> run_leads fs k st1 r \<Longrightarrow> run_leads fs k st r"
  using leads_trans by (auto simp: run_leads_def)

text \<open>A whole module is preprocessed: nothing settled before changes.\<close>

definition settles :: "file_system \<Rightarrow> mstate \<Rightarrow> (bool \<times> mstate) outcome option \<Rightarrow> bool" where
  \<comment> \<open>whatever module is being preprocessed at the time\<close>
  "settles fs st r \<longleftrightarrow> (\<forall>k. run_leads fs k st r)"

lemma import_leads:
  assumes "\<And>j st. j < length (modules st) \<Longrightarrow> settles fs st (module j st)"
  shows "run_leads fs i st (preprocess_import module fs path alias selective names i st)"
  unfolding preprocess_import_def Let_def
proof (rule andthen_leads)
  let ?dir = "Some (module_get_dir_from_path (resolved_path (module_at st i)))"
  show "run_leads fs i st (Some (process_import_statement fs path alias selective names ?dir st))"
    using import_statement_leads by (auto simp: run_leads_def)
  fix st1
  show "run_leads fs i st1 (case module_load fs path ?dir st1 of (None, st2) \<Rightarrow> Some (Done (False, st2)) | (Some j, st2) \<Rightarrow> module j st2)"
  proof (cases "module_load fs path ?dir st1")
    case (Pair r st2)
    note load = leads_load [OF Pair, of fs i]
    show ?thesis
    proof (cases r)
      case None
      then show ?thesis using Pair load by (simp add: run_leads_def)
    next
      case (Some j)
      then have "run_leads fs i st2 (module j st2)" using assms module_load_at Pair by (simp add: settles_def)
      then show ?thesis using Pair Some run_leads_trans [OF load] by simp
    qed
  qed
qed

lemma default_exports_simps [simp]:
  "default_exports [] = []"
  "default_exports (s # ss) = (case stmt_node s of SExport True ((n, a) # ns) \<Rightarrow> [n] | _ \<Rightarrow> []) @ default_exports ss"
  by (simp_all add: default_exports_def)

lemma default_exported: "s \<in> set all \<Longrightarrow> stmt_node s = SExport True ((n, a) # ns) \<Longrightarrow> n \<in> set (default_exports all)"
  by (force simp: default_exports_def)

lemma stmt_leads:
  assumes "\<And>j st. j < length (modules st) \<Longrightarrow> settles fs st (module j st)" and "reading i all st" "s \<in> set all"
  shows "run_leads fs i st (preprocess_stmt module fs i s st)"
proof -
  have "run_leads fs i st (preprocess_export dflt ns i st)" if "stmt_node s = SExport dflt ns" for dflt ns
  proof (rule export_leads [OF assms(2)])
    assume "dflt" "ns \<noteq> []"
    with that default_exported [OF assms(3)] show "fst (hd ns) \<in> set (default_exports all)"
      by (cases ns) auto
  qed
  then show ?thesis using import_leads [OF assms(1)] function_leads global_leads
    by (auto simp: preprocess_stmt_def split: stmt_node.split) (simp_all add: run_leads_def)
qed

lemma stmt_list_leads:
  assumes "\<And>j st. j < length (modules st) \<Longrightarrow> settles fs st (module j st)" and "reading i all st" "set ss \<subseteq> set all"
  shows "run_leads fs i st (module_preprocess_stmt_list module fs i ss st)"
  using assms(2,3)
proof (induction ss arbitrary: st)
  case (Cons s ss)
  have s: "run_leads fs i st (preprocess_stmt module fs i s st)"
    using stmt_leads [where module = module, OF assms(1) Cons.prems(1)] Cons.prems(2) by simp
  show ?case unfolding module_preprocess_stmt_list.simps
    by (rule andthen_leads [OF s]) (use Cons.IH Cons.prems reading_stays in auto)
qed (simp add: run_leads_def)

text \<open>A second default export is refused.\<close>

lemma stmt_default:
  assumes "\<And>j st. j < length (modules st) \<Longrightarrow> settles fs st (module j st)" and "reading i all st" "s \<in> set all"
    and "modules_ok fs st" and "preprocess_stmt module fs i s st = Some (Done (True, st1))"
  shows "default_exports [s] = [] \<or>
    length (default_exports [s]) = 1 \<and> default_export_name (module_at st i) = None \<and> default_export_name (module_at st1 i) \<noteq> None"
proof (cases "\<exists>n a ns. stmt_node s = SExport True ((n, a) # ns)")
  case True
  then obtain n a ns where s: "stmt_node s = SExport True ((n, a) # ns)" by blast
  then obtain st2 where p: "process_export_statement True ((n, a) # ns) i st = Done (True, st2)"
    and nd: "note_default_export n i st2 = (True, st1)"
    using assms(5) by (auto simp: preprocess_stmt_def preprocess_export_def andthen_def split: outcome.splits bool.splits)
  have lead: "leads fs i st st2" by (rule export_statement_leads [OF p])
  have keep: "keeps i st st2" using lead assms(4) by (simp add: leads_def)
  have "default_export_name (module_at st2 i) = None"
    using nd by (auto simp: note_default_export_def fails_def Let_def split: if_splits)
  then have "default_export_name (module_at st i) = None"
    using keep assms(2) by (auto simp: keeps_def module_keeps_def module_at_def reading_def)
  moreover have "i < length (modules st2)" using keep assms(2) by (simp add: keeps_def reading_def)
  then have "default_export_name (module_at st1 i) \<noteq> None"
    using nd by (auto simp: note_default_export_def fails_def Let_def split: if_splits option.splits)
  ultimately show ?thesis by (simp add: s)
next
  case False
  then have "default_exports [s] = []" by (auto split: stmt_node.split list.split bool.split)
  then show ?thesis ..
qed

lemma list_default:
  assumes "\<And>j st. j < length (modules st) \<Longrightarrow> settles fs st (module j st)" and "reading i all st" "set ss \<subseteq> set all"
    and "modules_ok fs st" and "module_preprocess_stmt_list module fs i ss st = Some (Done (True, st'))"
  shows "length (default_exports ss) \<le> (if default_export_name (module_at st i) = None then 1 else 0)"
  using assms(2-)
proof (induction ss arbitrary: st)
  case (Cons s ss)
  then obtain st1 where s: "preprocess_stmt module fs i s st = Some (Done (True, st1))"
    and ss: "module_preprocess_stmt_list module fs i ss st1 = Some (Done (True, st'))"
    by (auto simp: andthen_def split: option.splits outcome.splits prod.splits bool.splits)
  have in_all: "s \<in> set all" using Cons.prems(2) by simp
  have lead: "leads fs i st st1"
    using stmt_leads [where module = module, OF assms(1) Cons.prems(1) in_all] s unfolding run_leads_def by blast
  then have st1: "modules_ok fs st1" "keeps i st st1" using Cons.prems(3) by (simp_all add: leads_def)
  have rest: "length (default_exports ss) \<le> (if default_export_name (module_at st1 i) = None then 1 else 0)"
    using Cons.IH [OF reading_stays [OF lead Cons.prems(3,1)] _ st1(1) ss] Cons.prems(2) by simp
  have kept: "default_export_name (module_at st i) \<noteq> None \<Longrightarrow> default_export_name (module_at st1 i) \<noteq> None"
    using st1(2) Cons.prems(1) by (auto simp: keeps_def module_keeps_def module_at_def reading_def)
  have split: "length (default_exports (s # ss)) = length (default_exports [s]) + length (default_exports ss)" by simp
  have "default_exports [s] = [] \<or>
    length (default_exports [s]) = 1 \<and> default_export_name (module_at st i) = None \<and> default_export_name (module_at st1 i) \<noteq> None"
    using stmt_default [OF assms(1) Cons.prems(1) _ Cons.prems(3) s] Cons.prems(2) by simp
  then show ?case unfolding split using rest kept by (auto split: if_splits)
qed simp

lemma keeps_other: "keeps i st st' \<Longrightarrow> \<not> is_preprocessed (module_at st i) \<Longrightarrow> keeps k st st'"
  by (auto simp: keeps_def module_keeps_def module_at_def)

lemma module_leads:
  assumes inner: "\<And>j st. j < length (modules st) \<Longrightarrow> settles fs st (module_preprocess_module n fs j st)"
    and i: "i < length (modules st)" and fresh: "\<not> is_preprocessed (module_at st i)"
    and run: "module_preprocess_module (Suc n) fs i st = Some (Done (b, st'))"
  shows "leads fs i st st'"
  unfolding leads_def
proof
  assume ok: "modules_ok fs st"
  obtain okc st1 where c: "module_compile fs i st = Done (okc, st1)"
    using run fresh by (cases "module_compile fs i st") (auto simp: andthen_def)
  have lead1: "leads fs i st st1" by (rule compile_leads [OF c i])
  show "modules_ok fs st' \<and> keeps i st st' \<and> (exports_ok st \<longrightarrow> exports_ok st')"
  proof (cases okc)
    case False
    then show ?thesis using run fresh c lead1 ok by (simp add: andthen_def leads_def)
  next
    case True
    have c': "module_compile fs i st = Done (True, st1)" using c True by simp
    note compiled = compile_done [OF c' i ok]
    have ok1: "modules_ok fs st1" "keeps i st st1" "exports_ok st \<longrightarrow> exports_ok st1" using lead1 ok by (simp_all add: leads_def)
    then obtain ss where ss: "mod_ast (module_at st1 i) = Some ss"
      using compiled by (auto simp: modules_ok_def module_ok_def module_at_def)
    let ?list = "module_preprocess_stmt_list (module_preprocess_module n fs) fs i ss st1"
    have rd: "reading i ss st1" using compiled ss by (simp add: reading_def)
    have list: "run_leads fs i st1 ?list" by (rule stmt_list_leads [OF inner rd]) simp_all
    have r: "andthen ?list (\<lambda>st2. Some (Done (True, put_module i ((module_at st2 i)\<lparr>is_preprocessed := True\<rparr>) st2))) = Some (Done (b, st'))"
      using run fresh c True ss by (simp add: andthen_def)
    then obtain okl st2 where l: "?list = Some (Done (okl, st2))"
      by (cases ?list) (auto simp: andthen_def split: outcome.splits)
    then have "leads fs i st1 st2" using list by (simp add: run_leads_def)
    then have lead2: "leads fs i st1 st2" .
    then have ok2: "modules_ok fs st2" "keeps i st1 st2" "exports_ok st1 \<longrightarrow> exports_ok st2"
      using ok1 by (simp_all add: leads_def)
    show ?thesis
    proof (cases okl)
      case False
      then show ?thesis using r l ok1 ok2 keeps_trans by (auto simp: andthen_def)
    next
      case True
      have "reading i ss st2" by (rule reading_stays [OF lead2 ok1(1) rd])
      moreover have "length (default_exports ss) \<le> 1"
        using list_default [where module = "module_preprocess_module n fs", OF inner rd subset_refl ok1(1)] l True
        by (auto split: if_splits)
      ultimately have "leads fs i st2 (put_module i ((module_at st2 i)\<lparr>is_preprocessed := True\<rparr>) st2)"
        by (intro leads_put) (auto simp: module_ok_def module_keeps_def module_at_def reading_def export_ok_def)
      moreover have "st' = put_module i ((module_at st2 i)\<lparr>is_preprocessed := True\<rparr>) st2"
        using r l True by (simp add: andthen_def)
      ultimately show ?thesis using ok1 ok2 keeps_trans by (auto simp: leads_def)
    qed
  qed
qed

lemma module_settles: "i < length (modules st) \<Longrightarrow> settles fs st (module_preprocess_module n fs i st)"
proof (induction n arbitrary: i st)
  case (Suc n)
  show ?case
  proof (cases "is_preprocessed (module_at st i)")
    case True
    then show ?thesis by (simp add: settles_def run_leads_def)
  next
    case False
    have "leads fs k st st'" if "module_preprocess_module (Suc n) fs i st = Some (Done (b, st'))" for k b st'
      using module_leads [OF Suc.IH Suc.prems False that] keeps_other [OF _ False] by (simp add: leads_def)
    then show ?thesis by (simp add: settles_def run_leads_def)
  qed
qed (simp add: settles_def run_leads_def)

section \<open>Preprocessing returns\<close>

definition imports_of :: "ASTStmt list \<Rightarrow> cstring set" where
  "imports_of ss = {path. \<exists>h alias selective names. Stmt h (SImport path alias selective names) \<in> set ss}"

definition ranked :: "file_system \<Rightarrow> (cstring \<Rightarrow> nat) \<Rightarrow> mstate \<Rightarrow> bool" where
  \<comment> \<open>every import of a module leads to a module of a lower rank: there is no cycle\<close>
  "ranked fs rank st \<longleftrightarrow> (\<forall>p ss path r. parses fs p ss \<and> path \<in> imports_of ss \<and>
     fst (module_resolve_path fs path (Some (module_get_dir_from_path p)) st) = Some r \<longrightarrow> rank r < rank p)"

lemma resolve_cong:
  "up st' = up st \<Longrightarrow> search_paths st' = search_paths st \<Longrightarrow>
   fst (module_resolve_path fs mp dir st') = fst (module_resolve_path fs mp dir st)"
  by (auto simp: module_resolve_path_def Let_def split: option.split)

lemma ranked_cong: "up st' = up st \<Longrightarrow> search_paths st' = search_paths st \<Longrightarrow> ranked fs rank st' = ranked fs rank st"
  using resolve_cong [of st' st fs] by (simp add: ranked_def)

lemma andthen_returns: "r \<noteq> None \<Longrightarrow> (\<And>st. r = Some (Done (True, st)) \<Longrightarrow> f st \<noteq> None) \<Longrightarrow> andthen r f \<noteq> None"
  by (auto simp: andthen_def split: option.split outcome.split prod.split bool.split)

lemma leads_context:
  "leads fs k st st' \<Longrightarrow> modules_ok fs st \<Longrightarrow> modules_ok fs st' \<and> up st' = up st \<and> search_paths st' = search_paths st"
  by (simp add: leads_def keeps_def)

lemma leads_path:
  "leads fs k st st' \<Longrightarrow> modules_ok fs st \<Longrightarrow> i < length (modules st) \<Longrightarrow>
   i < length (modules st') \<and> resolved_path (module_at st' i) = resolved_path (module_at st i)"
  by (auto simp: leads_def keeps_def module_keeps_def module_at_def)

lemma import_returns:
  assumes inner: "\<And>j st. j < length (modules st) \<Longrightarrow> modules_ok fs st \<Longrightarrow> ranked fs rank st \<Longrightarrow>
      rank (resolved_path (module_at st j)) < n \<Longrightarrow> module j st \<noteq> None"
    and ok: "modules_ok fs st" "ranked fs rank st"
    and target: "\<And>r. fst (module_resolve_path fs path (Some (module_get_dir_from_path (resolved_path (module_at st i)))) st) = Some r \<Longrightarrow> rank r < n"
  shows "preprocess_import module fs path alias selective names i st \<noteq> None"
  unfolding preprocess_import_def Let_def
proof (rule andthen_returns)
  let ?dir = "Some (module_get_dir_from_path (resolved_path (module_at st i)))"
  fix st1 assume "Some (process_import_statement fs path alias selective names ?dir st) = Some (Done (True, st1))"
  then have "leads fs i st st1" using import_statement_leads by simp
  note st1 = leads_context [OF this ok(1)]
  show "(case module_load fs path ?dir st1 of (None, st2) \<Rightarrow> Some (Done (False, st2)) | (Some j, st2) \<Rightarrow> module j st2) \<noteq> None"
  proof (cases "module_load fs path ?dir st1")
    case (Pair r st2)
    note st2 = leads_context [OF leads_load [OF Pair, of fs i]]
    show ?thesis
    proof (cases r)
      case (Some j)
      have j: "j < length (modules st2)" "fst (module_resolve_path fs path ?dir st1) = Some (resolved_path (module_at st2 j))"
        using module_load_at Pair Some by blast+
      then have "rank (resolved_path (module_at st2 j)) < n" using target resolve_cong [of st1 st] st1 by metis
      then have "module j st2 \<noteq> None"
        using inner [OF j(1)] st1 st2 ranked_cong [of st2 st] ok(2) by auto
      then show ?thesis using Pair Some by simp
    qed (use Pair in simp)
  qed
qed simp

lemma stmt_list_returns:
  assumes inner: "\<And>j st. j < length (modules st) \<Longrightarrow> modules_ok fs st \<Longrightarrow> ranked fs rank st \<Longrightarrow>
      rank (resolved_path (module_at st j)) < n \<Longrightarrow> module j st \<noteq> None"
    and keep: "\<And>j st. j < length (modules st) \<Longrightarrow> settles fs st (module j st)"
    and "modules_ok fs st" "ranked fs rank st" "reading i all st" "resolved_path (module_at st i) = p"
    and "set ss \<subseteq> set all"
    and "\<And>path r. path \<in> imports_of ss \<Longrightarrow> fst (module_resolve_path fs path (Some (module_get_dir_from_path p)) st) = Some r \<Longrightarrow> rank r < n"
  shows "module_preprocess_stmt_list module fs i ss st \<noteq> None"
  using assms(3-)
proof (induction ss arbitrary: st)
  case (Cons s ss)
  have "preprocess_stmt module fs i s st \<noteq> None"
  proof (cases "\<exists>h path alias selective names. s = Stmt h (SImport path alias selective names)")
    case True
    then obtain h path al sel names where s: "s = Stmt h (SImport path al sel names)" by blast
    then have "path \<in> imports_of (s # ss)" by (auto simp: imports_of_def)
    with import_returns [OF inner Cons.prems(1,2)] Cons.prems(4,6) show ?thesis by (auto simp: s preprocess_stmt_def)
  next
    case False
    then show ?thesis by (cases s) (auto simp: preprocess_stmt_def preprocess_export_def andthen_def split: stmt_node.split outcome.split bool.split prod.split)
  qed
  moreover have "module_preprocess_stmt_list module fs i ss st1 \<noteq> None" if "preprocess_stmt module fs i s st = Some (Done (True, st1))" for st1
  proof -
    have in_all: "s \<in> set all" using Cons.prems(5) by simp
    have lead: "leads fs i st st1"
      using stmt_leads [where module = module, OF keep Cons.prems(3) in_all] that unfolding run_leads_def by blast
    have i: "i < length (modules st)" using Cons.prems(3) by (simp add: reading_def)
    note st1 = leads_context [OF lead Cons.prems(1)] leads_path [OF lead Cons.prems(1) i]
    show ?thesis
    proof (rule Cons.IH)
      show "modules_ok fs st1" "ranked fs rank st1" "resolved_path (module_at st1 i) = p"
        using st1 ranked_cong [of st1 st] Cons.prems(2,4) by simp_all
      show "reading i all st1" by (rule reading_stays [OF lead Cons.prems(1,3)])
      show "set ss \<subseteq> set all" using Cons.prems(5) by simp
      fix path r assume path: "path \<in> imports_of ss"
        and r: "fst (module_resolve_path fs path (Some (module_get_dir_from_path p)) st1) = Some r"
      have "path \<in> imports_of (s # ss)" using path by (auto simp: imports_of_def)
      moreover have "fst (module_resolve_path fs path (Some (module_get_dir_from_path p)) st) = Some r"
        using r resolve_cong [of st1 st] st1 by simp
      ultimately show "rank r < n" by (rule Cons.prems(6))
    qed
  qed
  ultimately show ?case using andthen_returns by simp
qed simp

lemma module_returns:
  "i < length (modules st) \<Longrightarrow> modules_ok fs st \<Longrightarrow> ranked fs rank st \<Longrightarrow> rank (resolved_path (module_at st i)) < n \<Longrightarrow>
   module_preprocess_module n fs i st \<noteq> None"
proof (induction n arbitrary: i st)
  case (Suc n)
  show ?case
  proof (cases "is_preprocessed (module_at st i)")
    case fresh: False
    have "andthen (Some (module_compile fs i st)) (\<lambda>st1. case mod_ast (module_at st1 i) of
          None \<Rightarrow> Some (Done (fails (''Module has no AST: '' @ mod_name (module_at st1 i)) st1))
        | Some ss \<Rightarrow> andthen (module_preprocess_stmt_list (module_preprocess_module n fs) fs i ss st1) (\<lambda>st2.
            Some (Done (True, put_module i ((module_at st2 i)\<lparr>is_preprocessed := True\<rparr>) st2)))) \<noteq> None"
    proof (rule andthen_returns)
      fix st1 assume "Some (module_compile fs i st) = Some (Done (True, st1))"
      then have c: "module_compile fs i st = Done (True, st1)" by simp
      note compiled = compile_done [OF c Suc.prems(1,2)]
      have lead: "leads fs i st st1" by (rule compile_leads [OF c Suc.prems(1)])
      note st1 = leads_context [OF lead Suc.prems(2)]
      have ok: "module_ok fs (module_at st1 i)" using compiled st1 by (simp add: modules_ok_def module_at_def)
      then obtain ss where ss: "mod_ast (module_at st1 i) = Some ss" "parses fs (resolved_path (module_at st i)) ss"
        using compiled fresh by (auto simp: module_ok_def)
      have ranked1: "ranked fs rank st1" using ranked_cong st1 Suc.prems(3) by blast
      have "module_preprocess_stmt_list (module_preprocess_module n fs) fs i ss st1 \<noteq> None"
      proof (rule stmt_list_returns [where rank = rank and n = n and p = "resolved_path (module_at st i)" and all = ss])
        fix path r assume "path \<in> imports_of ss"
          "fst (module_resolve_path fs path (Some (module_get_dir_from_path (resolved_path (module_at st i)))) st1) = Some r"
        then have "rank r < rank (resolved_path (module_at st i))" using ranked1 ss(2) by (auto simp: ranked_def)
        then show "rank r < n" using Suc.prems(4) by simp
      qed (use Suc.IH module_settles st1 ranked1 compiled ss in \<open>auto simp: reading_def\<close>)
      then show "(case mod_ast (module_at st1 i) of
          None \<Rightarrow> Some (Done (fails (''Module has no AST: '' @ mod_name (module_at st1 i)) st1))
        | Some ss \<Rightarrow> andthen (module_preprocess_stmt_list (module_preprocess_module n fs) fs i ss st1) (\<lambda>st2.
            Some (Done (True, put_module i ((module_at st2 i)\<lparr>is_preprocessed := True\<rparr>) st2)))) \<noteq> None"
        using andthen_returns by (simp add: ss)
    qed simp
    then show ?thesis using fresh by simp
  qed simp
qed simp

section \<open>Preprocessing a program\<close>

definition included :: "mstate \<Rightarrow> cstring set" where
  "included st = {resolved_path d |d. d \<in> set (modules st) \<and> is_included d}"

lemma included_iff:
  "x \<in> included st \<longleftrightarrow> (\<exists>j < length (modules st). x = resolved_path (modules st ! j) \<and> is_included (modules st ! j))"
  by (auto simp: included_def in_set_conv_nth)

definition settled :: "mstate \<Rightarrow> mstate \<Rightarrow> bool" where
  "settled st st' \<longleftrightarrow> up st' = up st \<and> search_paths st' = search_paths st \<and> length (modules st) \<le> length (modules st') \<and>
     (\<forall>i < length (modules st). let d = modules st ! i; d' = modules st' ! i in
        resolved_path d' = resolved_path d)"

lemma settled_refl [simp]: "settled st st"
  by (simp add: settled_def)

lemma settled_trans: "settled st st' \<Longrightarrow> settled st' st'' \<Longrightarrow> settled st st''"
  by (auto simp: settled_def Let_def)

lemma keeps_settled:
  assumes "keeps (length (modules st)) st st'"
  shows "settled st st'" "included st' = included st"
proof -
  show "settled st st'" using assms by (auto simp: keeps_def settled_def module_keeps_def Let_def)
  have same: "resolved_path (modules st' ! i) = resolved_path (modules st ! i)" "is_included (modules st' ! i) = is_included (modules st ! i)"
    if "i < length (modules st)" for i using assms that by (auto simp: keeps_def module_keeps_def)
  have new: "\<not> is_included (modules st' ! i)" if "i < length (modules st')" "\<not> i < length (modules st)" for i
    using assms that by (auto simp: keeps_def)
  have long: "i < length (modules st')" if "i < length (modules st)" for i using assms that by (auto simp: keeps_def)
  show "included st' = included st"
    unfolding included_def in_set_conv_nth using same new long by (auto; metis)
qed

lemma find_loaded_at:
  assumes "modules_ok fs st" and "up st" and "i < length (modules st)"
  shows "module_find_loaded (resolved_path (module_at st i)) st = Some i"
proof (cases "module_find_loaded (resolved_path (module_at st i)) st")
  case None
  then show ?thesis using find_loaded(2) [OF assms(2) None] assms(3) by (simp add: module_at_def)
next
  case (Some j)
  then have "j < length (modules st)" "map resolved_path (modules st) ! j = map resolved_path (modules st) ! i"
    using find_loaded(1) [OF Some] assms(3) by (simp_all add: module_at_def)
  then have "j = i" using assms(1,3) nth_eq_iff_index_eq [of "map resolved_path (modules st)" j i] by (simp add: modules_ok_def)
  then show ?thesis using Some by simp
qed

lemma include_cases:
  assumes ok: "modules_ok fs st" and i: "i < length (modules st)" and pre: "is_preprocessed (module_at st i)"
    and run: "include_module alias i out st = (Some out1, st')"
  shows "modules_ok fs st' \<and> settled st st' \<and> length (modules st') = length (modules st) \<and>
    included st' = insert (resolved_path (module_at st i)) (included st) \<and>
    (resolved_path (module_at st i) \<in> included st \<longleftrightarrow> is_included (module_at st i)) \<and>
    (if is_included (module_at st i) then st' = st \<and> out1 = out @ alias_decl alias (module_at st i)
     else \<exists>ss. mod_ast (module_at st i) = Some ss \<and> parses fs (resolved_path (module_at st i)) ss \<and>
       st' = put_module i ((module_at st i)\<lparr>mod_ast := Some [], is_included := True\<rparr>) st \<and>
       out1 = out @ filter plain ss @ alias_decl alias (module_at st i))"
proof -
  let ?d = "module_at st i"
  have d: "?d \<in> set (modules st)" "module_ok fs ?d" using ok i by (simp_all add: modules_ok_def module_at_def)
  have same: "resolved_path ?d \<in> included st \<longleftrightarrow> is_included ?d"
  proof
    assume "resolved_path ?d \<in> included st"
    then obtain j where j: "j < length (modules st)" "resolved_path (modules st ! j) = resolved_path ?d" "is_included (modules st ! j)"
      by (auto simp: included_def in_set_conv_nth)
    then have "module_find_loaded (resolved_path ?d) (st\<lparr>up := True\<rparr>) = Some j"
      "module_find_loaded (resolved_path ?d) (st\<lparr>up := True\<rparr>) = Some i"
      using find_loaded_at [of fs "st\<lparr>up := True\<rparr>" j] find_loaded_at [of fs "st\<lparr>up := True\<rparr>" i] ok i
      by (simp_all add: modules_ok_def module_at_def)
    then show "is_included ?d" using j by (simp add: module_at_def)
  qed (use d in \<open>auto simp: included_def\<close>)
  show ?thesis
  proof (cases "is_included ?d")
    case True
    then have "st' = st" "out1 = out @ alias_decl alias ?d"
      using run by (auto simp: include_module_def Let_def split: if_splits)
    then show ?thesis using ok same True by (auto simp: insert_absorb)
  next
    case False
    let ?e = "?d\<lparr>mod_ast := Some [], is_included := True\<rparr>"
    obtain ss where ss: "mod_ast ?d = Some ss" "parses fs (resolved_path ?d) ss"
      using d(2) pre False by (auto simp: module_ok_def)
    have st': "st' = put_module i ?e st" and out1: "out1 = out @ filter plain ss @ alias_decl alias ?d"
      using run False by (auto simp: include_module_def splice_module_into_program_def Let_def ss split: if_splits)
    have paths: "map resolved_path ((modules st)[i := ?e]) = map resolved_path (modules st)"
      by (simp add: map_update module_at_def list_update_same_conv i)
    have "module_ok fs ?e" using d(2) pre by (simp add: module_ok_def)
    then have "modules_ok fs st'"
      using ok paths set_update_subset_insert [of "modules st" i ?e] by (auto simp: st' modules_ok_def put_module_def)
    moreover have "settled st st'"
      using i by (auto simp: st' settled_def put_module_def Let_def nth_list_update module_at_def)
    moreover have "included st' = insert (resolved_path ?d) (included st)"
    proof -
      have "x \<in> included st' \<longleftrightarrow> x = resolved_path ?d \<or> x \<in> included st" for x
        using i by (auto simp: included_iff st' put_module_def nth_list_update module_at_def)
      then show ?thesis by blast
    qed
    ultimately show ?thesis using ss same False out1 by (auto simp: st')
  qed
qed

text \<open>The program that is meant: the modules in the place of their first import, a constant for every alias.\<close>

fun linked :: "(cstring \<Rightarrow> cstring option) \<Rightarrow> (cstring \<Rightarrow> ASTStmt list) \<Rightarrow> (cstring option \<Rightarrow> cstring \<Rightarrow> ASTStmt list) \<Rightarrow>
  cstring set \<Rightarrow> ASTStmt list \<Rightarrow> ASTStmt list" where
  "linked resolve src decl seen [] = []"
| "linked resolve src decl seen (Stmt h (SImport path a sel names) # ss) =
     (case resolve path of
        None \<Rightarrow> []
      | Some r \<Rightarrow> (if r \<in> seen then [] else filter plain (src r)) @ decl a r @ linked resolve src decl (insert r seen) ss)"
| "linked resolve src decl seen (Stmt h (SExport d names) # ss) = linked resolve src decl seen ss"
| "linked resolve src decl seen (s # ss) = s # linked resolve src decl seen ss"

definition alias_constant :: "(cstring \<Rightarrow> ASTStmt list) \<Rightarrow> (cstring \<Rightarrow> VarType) \<Rightarrow> cstring option \<Rightarrow> cstring \<Rightarrow> ASTStmt list" where
  \<comment> \<open>the constant named by the alias, which starts as what the source of the module exports by default\<close>
  "alias_constant src ty alias r = (case alias of None \<Rightarrow> []
     | Some x \<Rightarrow> [ast_stmt_new (SVarDecl x (ty r) (type_descriptor_create_primitive (ty r))
         (ast_expr_new (EVar (hd (default_exports (src r))))) True)])"

definition export_noted :: "Module \<Rightarrow> ASTStmt list \<Rightarrow> VarType \<Rightarrow> bool" where
  \<comment> \<open>the module has noted the one default export of its source, and its type\<close>
  "export_noted d ss t \<longleftrightarrow> (\<exists>n. default_exports ss = [n] \<and> default_export_name d = Some n) \<and>
     default_export_type d = t \<and> default_export_type_desc d = type_descriptor_create_primitive t"

definition known :: "mstate \<Rightarrow> (cstring \<Rightarrow> ASTStmt list) \<Rightarrow> (cstring \<Rightarrow> VarType) \<Rightarrow> bool" where
  \<comment> \<open>the sources and export types of the modules that are included\<close>
  "known st src ty \<longleftrightarrow> (\<forall>i < length (modules st). is_included (modules st ! i) \<longrightarrow>
     export_noted (modules st ! i) (src (resolved_path (modules st ! i))) (ty (resolved_path (modules st ! i))))"

lemma clone_primitive: "type_descriptor_clone (type_descriptor_create_primitive t) = type_descriptor_create_primitive t"
  by (simp add: type_descriptor_create_primitive_def)

lemma export_noted_alias: "export_noted d (src r) (ty r) \<Longrightarrow> alias_decl a d = alias_constant src ty a r"
  by (auto simp: export_noted_def alias_decl_def alias_constant_def clone_primitive split: option.split)

lemma known_keeps:
  assumes "keeps (length (modules st)) st st'" "modules_ok fs st" "known st src ty"
  shows "known st' src ty"
  unfolding known_def
proof (intro allI impI)
  fix i assume i: "i < length (modules st')" "is_included (modules st' ! i)"
  have old: "i < length (modules st)" using assms(1) i by (auto simp: keeps_def)
  then have kept: "module_keeps False (modules st ! i) (modules st' ! i)" using assms(1) by (auto simp: keeps_def)
  then have "is_included (modules st ! i)" using i(2) by (simp add: module_keeps_def)
  moreover from this have "is_preprocessed (modules st ! i)" using assms(2) old by (simp add: modules_ok_def module_ok_def)
  then have "modules st' ! i = modules st ! i" using kept by (simp add: module_keeps_def)
  ultimately show "export_noted (modules st' ! i) (src (resolved_path (modules st' ! i))) (ty (resolved_path (modules st' ! i)))"
    using assms(3) old by (simp add: known_def)
qed

lemma include_known:
  assumes ok: "modules_ok fs st" "exports_ok st" and i: "i < length (modules st)" and pre: "is_preprocessed (module_at st i)"
    and run: "include_module alias i out st = (Some out1, st')" and known: "known st src ty"
  defines "r \<equiv> resolved_path (module_at st i)"
  shows "exports_ok st' \<and> (\<exists>src' ty'. known st' src' ty' \<and> (\<forall>q \<in> included st. src' q = src q \<and> ty' q = ty q) \<and>
    (r \<notin> included st \<longrightarrow> parses fs r (src' r)) \<and>
    out1 = out @ (if r \<in> included st then [] else filter plain (src' r)) @ alias_constant src' ty' alias r)"
proof -
  let ?d = "module_at st i"
  note inc = include_cases [OF ok(1) i pre run]
  show ?thesis
  proof (cases "is_included ?d")
    case True
    then have "export_noted ?d (src r) (ty r)" using known i by (simp add: known_def module_at_def r_def)
    then have "alias_decl alias ?d = alias_constant src ty alias r" by (rule export_noted_alias)
    with True inc ok(2) known show ?thesis by (auto simp: r_def)
  next
    case False
    then obtain ss where ss: "mod_ast ?d = Some ss" "parses fs r ss" "out1 = out @ filter plain ss @ alias_decl alias ?d"
      and st': "st' = put_module i (?d\<lparr>mod_ast := Some [], is_included := True\<rparr>) st"
      using inc by (auto simp: r_def)
    have new: "r \<notin> included st" using inc False by (simp add: r_def)
    have d: "export_ok ?d" using ok(2) i by (simp add: exports_ok_def module_at_def)
    obtain n where n: "default_export_name ?d = Some n" "default_export_type_desc ?d \<noteq> None"
      using run by (auto simp: include_module_def Let_def split: if_splits)
    then have "n \<in> set (default_exports ss)" "length (default_exports ss) \<le> 1"
      using d False pre ss(1) by (auto simp: export_ok_def)
    then have one: "default_exports ss = [n]" by (cases "default_exports ss") auto
    let ?src = "src(r := ss)" and ?ty = "ty(r := default_export_type ?d)"
    have noted: "export_noted ?d (?src r) (?ty r)" using d n one by (auto simp: export_noted_def export_ok_def)
    then have "export_noted (?d\<lparr>mod_ast := Some [], is_included := True\<rparr>) (?src r) (?ty r)" by (simp add: export_noted_def)
    moreover have "resolved_path (modules st ! j) \<noteq> r" if "j < length (modules st)" "j \<noteq> i" for j
      using ok(1) i that nth_eq_iff_index_eq [of "map resolved_path (modules st)" j i]
      by (simp add: modules_ok_def module_at_def r_def)
    ultimately have "known st' ?src ?ty"
      using known i by (auto simp: known_def st' put_module_def nth_list_update r_def [symmetric])
    moreover have "export_ok (?d\<lparr>mod_ast := Some [], is_included := True\<rparr>)" using d by (simp add: export_ok_def)
    then have "exports_ok st'" using ok(2) set_update_subset_insert [of "modules st" i]
      by (auto simp: st' exports_ok_def put_module_def)
    moreover have "alias_decl alias ?d = alias_constant ?src ?ty alias r" using noted by (rule export_noted_alias)
    ultimately show ?thesis using ss new by (intro conjI exI [of _ ?src] exI [of _ ?ty]) auto
  qed
qed

lemma linked_plain: "(\<And>a r. list_all plain (decl a r)) \<Longrightarrow> list_all plain (linked resolve src decl seen ss)"
proof (induction resolve src decl seen ss rule: linked.induct)
  case (2 resolve src decl seen h path a sel names ss)
  then show ?case by (cases "resolve path") (auto simp: list_all_iff)
qed (auto simp: list_all_iff)

lemma linked_other: "plain s \<Longrightarrow> linked resolve src decl seen (s # ss) = s # linked resolve src decl seen ss"
  by (cases s rule: plain.cases) auto

lemma program_other: "plain s \<Longrightarrow> preprocess_program n fs (s # ss) out st = preprocess_program n fs ss (out @ [s]) st"
  by (cases s rule: plain.cases) auto

lemma module_done:
  assumes "module_preprocess_module n fs i st = Some (Done (True, st'))" "modules_ok fs st" "i < length (modules st)"
  shows "is_preprocessed (module_at st' i)"
proof (cases n)
  case (Suc m)
  show ?thesis
  proof (cases "is_preprocessed (module_at st i)")
    case False
    let ?put = "\<lambda>st2. Some (Done (True, put_module i ((module_at st2 i)\<lparr>is_preprocessed := True\<rparr>) st2))"
    obtain st1 where c: "module_compile fs i st = Done (True, st1)"
      using assms(1) False Suc by (auto simp: andthen_def split: outcome.splits prod.splits bool.splits)
    then obtain ss where r: "andthen (module_preprocess_stmt_list (module_preprocess_module m fs) fs i ss st1) ?put = Some (Done (True, st'))"
      using assms(1) False Suc by (auto simp: andthen_def fails_def split: option.splits)
    then obtain st2 where l: "module_preprocess_stmt_list (module_preprocess_module m fs) fs i ss st1 = Some (Done (True, st2))"
      and st': "st' = put_module i ((module_at st2 i)\<lparr>is_preprocessed := True\<rparr>) st2"
      by (auto simp: andthen_def split: option.splits outcome.splits prod.splits bool.splits)
    have "leads fs 0 st st'" using module_settles [OF assms(3)] assms(1) unfolding settles_def run_leads_def by blast
    from leads_path [OF this assms(2,3)] have "i < length (modules st2)" by (simp add: st')
    then show ?thesis by (simp add: st')
  qed (use assms(1) Suc in simp)
qed (use assms(1) in simp)

lemma program_result:
  "preprocess_program n fs ss out st = Some (Done (Some out', st')) \<Longrightarrow> modules_ok fs st \<Longrightarrow> exports_ok st \<Longrightarrow> known st src ty \<Longrightarrow>
   included st \<subseteq> included st' \<and>
   (\<exists>src' ty'. (\<forall>r \<in> included st. src' r = src r \<and> ty' r = ty r) \<and> (\<forall>r \<in> included st' - included st. parses fs r (src' r)) \<and>
      known st' src' ty' \<and>
      out' = out @ linked (\<lambda>p. fst (module_resolve_path fs p None st)) src' (alias_constant src' ty') (included st) ss)"
proof (induction ss arbitrary: out st src ty)
  case Nil
  then show ?case by auto
next
  case (Cons s ss)
  consider (other) "plain s" | (export) h d names where "s = Stmt h (SExport d names)"
    | (import) h path a sel names where "s = Stmt h (SImport path a sel names)"
    by (cases s rule: plain.cases) auto
  then show ?case
  proof cases
    case other
    from Cons.IH [OF Cons.prems(1) [unfolded program_other [OF other]] Cons.prems(2-4)]
    show ?thesis by (simp add: linked_other [OF other])
  next
    case export
    with Cons show ?thesis by simp
  next
    case import
    obtain i st1 where load: "module_load fs path None st = (Some i, st1)"
      using Cons.prems(1) by (auto simp: import split: prod.splits option.splits)
    have i1: "i < length (modules st1)" and r: "fst (module_resolve_path fs path None st) = Some (resolved_path (module_at st1 i))"
      using module_load_at [OF load] by simp_all
    have k1: "modules_ok fs st1" "keeps (length (modules st)) st st1" "exports_ok st1"
      using leads_load [OF load] Cons.prems(2,3) by (simp_all add: leads_def)
    obtain st2 where pre: "module_preprocess_module n fs i st1 = Some (Done (True, st2))"
      using Cons.prems(1) by (auto simp: import load split: option.splits outcome.splits prod.splits bool.splits)
    have k2: "modules_ok fs st2" "keeps (length (modules st1)) st1 st2" "exports_ok st2"
      using module_settles [OF i1] k1 pre by (simp_all add: settles_def run_leads_def leads_def)
    let ?r = "resolved_path (module_at st2 i)"
    have i2: "i < length (modules st2)" "?r = resolved_path (module_at st1 i)"
      using k2(2) i1 by (auto simp: keeps_def module_keeps_def module_at_def)
    obtain out1 st3 where inc: "include_module a i out st2 = (Some out1, st3)"
      and rest: "preprocess_program n fs ss out1 st3 = Some (Done (Some out', st'))"
      using Cons.prems(1) by (auto simp: import load pre split: option.splits prod.splits)
    note pd = module_done [OF pre k1(1) i1]
    note k3 = include_cases [OF k2(1) i2(1) pd inc]
    have to2: "included st2 = included st" and to3: "settled st st3" and inc3: "included st3 = insert ?r (included st)"
      using keeps_settled [OF k1(2)] keeps_settled [OF k2(2)] k3 settled_trans by auto
    have known2: "known st2 src ty"
      using known_keeps [OF k2(2) k1(1)] known_keeps [OF k1(2) Cons.prems(2,4)] by blast
    from include_known [OF k2(1,3) i2(1) pd inc known2] obtain src1 ty1 where e3: "exports_ok st3" "known st3 src1 ty1"
      and same1: "\<forall>q \<in> included st. src1 q = src q \<and> ty1 q = ty q" and read1: "?r \<notin> included st \<longrightarrow> parses fs ?r (src1 ?r)"
      and out1: "out1 = out @ (if ?r \<in> included st then [] else filter plain (src1 ?r)) @ alias_constant src1 ty1 a ?r"
      by (auto simp: to2)
    from Cons.IH [OF rest _ e3] k3 obtain src2 ty2 where fin: "included st3 \<subseteq> included st'" "known st' src2 ty2"
      and same2: "\<forall>q \<in> included st3. src2 q = src1 q \<and> ty2 q = ty1 q"
      and read2: "\<forall>q \<in> included st' - included st3. parses fs q (src2 q)"
      and out': "out' = out1 @ linked (\<lambda>p. fst (module_resolve_path fs p None st3)) src2 (alias_constant src2 ty2) (included st3) ss"
      by blast
    have res: "(\<lambda>p. fst (module_resolve_path fs p None st3)) = (\<lambda>p. fst (module_resolve_path fs p None st))"
      using resolve_cong [of st3 st] to3 by (simp add: settled_def)
    have at_r: "src2 ?r = src1 ?r" "ty2 ?r = ty1 ?r" using same2 inc3 by auto
    then have "alias_constant src2 ty2 a ?r = alias_constant src1 ty1 a ?r" by (cases a) (simp_all add: alias_constant_def)
    then have "out' = out @ linked (\<lambda>p. fst (module_resolve_path fs p None st)) src2 (alias_constant src2 ty2) (included st) (s # ss)"
      using out' out1 res r i2(2) inc3 at_r by (simp add: import)
    moreover have "\<forall>q \<in> included st' - included st. parses fs q (src2 q)" using read1 read2 at_r inc3 by auto
    moreover have "\<forall>q \<in> included st. src2 q = src q \<and> ty2 q = ty q" using same1 same2 inc3 by auto
    ultimately show ?thesis using fin inc3 by blast
  qed
qed

text \<open>
  C7: preprocessing turns a program into the program that is meant: its own statements in their order, every
  imported module, as parsed from its file and without its own imports and exports, in the place of its first
  import and only there; and, for every alias, a constant declared by that name, of the type noted for the
  module, whose value is the variable that the source of the module exports by default. Each imported module has
  exactly one default export in its source, and no import or export is left.
\<close>
theorem preprocess_links_modules:
  assumes "module_preprocess_program n fs program st = Some (Done (Some out, st'))"
    and "modules_ok fs st" and "exports_ok st" and "included st = {}"
  shows "\<exists>src ty. (\<forall>r \<in> included st'. parses fs r (src r) \<and> length (default_exports (src r)) = 1) \<and>
    (\<forall>d \<in> set (modules st'). is_included d \<longrightarrow> default_export_type d = ty (resolved_path d)) \<and> list_all plain out \<and>
    out = linked (\<lambda>p. fst (module_resolve_path fs p None st)) src (alias_constant src ty) {} program"
proof -
  have "\<not> is_included (modules st ! i)" if "i < length (modules st)" for i using assms(4) that by (auto simp: included_def)
  then have "known st (\<lambda>r. []) (\<lambda>r. TYPE_NIL)" by (simp add: known_def)
  from program_result [OF assms(1) [unfolded module_preprocess_program_def] assms(2,3) this] assms(4)
  obtain src ty where src: "\<forall>r \<in> included st'. parses fs r (src r)" and known: "known st' src ty"
    and out: "out = linked (\<lambda>p. fst (module_resolve_path fs p None st)) src (alias_constant src ty) {} program"
    by auto
  have "length (default_exports (src r)) = 1" if "r \<in> included st'" for r
    using known that by (auto simp: known_def export_noted_def included_iff)
  moreover have "\<forall>d \<in> set (modules st'). is_included d \<longrightarrow> default_export_type d = ty (resolved_path d)"
    using known by (auto simp: known_def export_noted_def in_set_conv_nth)
  moreover have "list_all plain (alias_constant src ty a r)" for a r
    by (simp add: alias_constant_def ast_stmt_new_def split: option.split)
  then have "list_all plain out" unfolding out by (rule linked_plain)
  ultimately show ?thesis using src out by blast
qed

section \<open>The depth does not matter\<close>

lemma andthen_mono:
  assumes "andthen r f = Some x" and "\<And>y. r = Some y \<Longrightarrow> r' = Some y" and "\<And>st y. f st = Some y \<Longrightarrow> f' st = Some y"
  shows "andthen r' f' = Some x"
proof -
  obtain y where y: "r = Some y" using assms(1) by (cases r) (auto simp: andthen_def)
  have "r' = Some y" by (rule assms(2) [OF y])
  then show ?thesis using assms(1,3) y by (auto simp: andthen_def split: outcome.splits prod.splits bool.splits)
qed

lemma stmt_mono:
  assumes "\<And>j st y. m j st = Some y \<Longrightarrow> m' j st = Some y" and "preprocess_stmt m fs i s st = Some x"
  shows "preprocess_stmt m' fs i s st = Some x"
  using assms(2)
  by (auto simp: preprocess_stmt_def preprocess_import_def Let_def split: stmt_node.splits
      elim!: andthen_mono intro: assms(1) split: prod.splits option.splits)

lemma stmt_list_mono:
  assumes "\<And>j st y. m j st = Some y \<Longrightarrow> m' j st = Some y"
  shows "module_preprocess_stmt_list m fs i ss st = Some x \<Longrightarrow> module_preprocess_stmt_list m' fs i ss st = Some x"
  by (induction ss arbitrary: st x) (auto elim!: andthen_mono intro: stmt_mono [OF assms])

definition module_step ::
  "(nat \<Rightarrow> mstate \<Rightarrow> (bool \<times> mstate) outcome option) \<Rightarrow> file_system \<Rightarrow> nat \<Rightarrow> mstate \<Rightarrow> (bool \<times> mstate) outcome option" where
  \<comment> \<open>\<^verbatim>\<open>module_preprocess_module\<close> over the calls it makes of itself\<close>
  "module_step module fs i st =
     (if is_preprocessed (module_at st i) then Some (Done (True, st))
      else andthen (Some (module_compile fs i st)) (\<lambda>st1. case mod_ast (module_at st1 i) of
          None \<Rightarrow> Some (Done (fails (''Module has no AST: '' @ mod_name (module_at st1 i)) st1))
        | Some ss \<Rightarrow> andthen (module_preprocess_stmt_list module fs i ss st1) (\<lambda>st2.
            Some (Done (True, put_module i ((module_at st2 i)\<lparr>is_preprocessed := True\<rparr>) st2)))))"

lemma module_unfold: "module_preprocess_module (Suc n) fs i st = module_step (module_preprocess_module n fs) fs i st"
  by (simp add: module_step_def)

lemma module_step_mono:
  assumes "\<And>j st y. m j st = Some y \<Longrightarrow> m' j st = Some y" and "module_step m fs i st = Some x"
  shows "module_step m' fs i st = Some x"
  using assms(2) unfolding module_step_def
  by (auto split: if_splits option.splits elim!: andthen_mono intro: stmt_list_mono [OF assms(1)])

lemma module_Suc: "module_preprocess_module n fs i st = Some x \<Longrightarrow> module_preprocess_module (Suc n) fs i st = Some x"
proof (induction n arbitrary: i st x)
  case (Suc n)
  show ?case unfolding module_unfold [of "Suc n"]
    by (rule module_step_mono [OF Suc.IH Suc.prems [unfolded module_unfold [of n]]])
qed simp

lemma module_depth:
  assumes "n \<le> m" and "module_preprocess_module n fs i st = Some x"
  shows "module_preprocess_module m fs i st = Some x"
  using assms
proof (induction m rule: dec_induct)
  case (step m)
  then show ?case using module_Suc by (simp del: module_preprocess_module.simps)
qed

lemma program_depth:
  "n \<le> m \<Longrightarrow> preprocess_program n fs ss out st = Some x \<Longrightarrow> preprocess_program m fs ss out st = Some x"
proof (induction ss arbitrary: out st)
  case (Cons s ss)
  consider (other) "plain s" | (export) h d names where "s = Stmt h (SExport d names)"
    | (import) h path a sel names where "s = Stmt h (SImport path a sel names)"
    by (cases s rule: plain.cases) auto
  then show ?case
  proof cases
    case import
    show ?thesis
    proof (cases "module_load fs path None st")
      case (Pair r st1)
      show ?thesis
      proof (cases r)
        case (Some i)
        obtain y where y: "module_preprocess_module n fs i st1 = Some y"
          using Cons.prems(2) by (auto simp: import Pair Some split: option.splits)
        then have "module_preprocess_module m fs i st1 = Some y" using module_depth Cons.prems(1) by blast
        with y show ?thesis using Cons.prems Cons.IH
          by (auto simp: import Pair Some split: outcome.splits prod.splits bool.splits option.splits)
      qed (use Cons.prems in \<open>simp add: import Pair\<close>)
    qed
  next
    case other
    show ?thesis using Cons by (simp only: program_other [OF other])
  next
    case export
    with Cons show ?thesis by simp
  qed
qed simp

lemma imports_bounded: "\<exists>n. \<forall>path \<in> imports_of ss. \<forall>r. f path = Some r \<longrightarrow> rank r < (n :: nat)"
proof (induction ss)
  case (Cons s ss)
  then obtain n where n: "\<forall>path \<in> imports_of ss. \<forall>r. f path = Some r \<longrightarrow> rank r < n" by blast
  show ?case
  proof (cases "\<exists>h path a sel names. s = Stmt h (SImport path a sel names)")
    case True
    then obtain h p a sel names where s: "s = Stmt h (SImport p a sel names)" by blast
    then have "imports_of (s # ss) = insert p (imports_of ss)" by (auto simp: imports_of_def)
    then have "\<forall>path \<in> imports_of (s # ss). \<forall>r. f path = Some r \<longrightarrow> rank r < max n (Suc (rank (the (f p))))"
      using n by (auto simp: less_max_iff_disj)
    then show ?thesis by blast
  next
    case False
    then have "imports_of (s # ss) = imports_of ss" by (auto simp: imports_of_def)
    with n show ?thesis by auto
  qed
qed (simp add: imports_of_def)

lemma program_returns:
  "modules_ok fs st \<Longrightarrow> ranked fs rank st \<Longrightarrow>
   (\<And>path r. path \<in> imports_of ss \<Longrightarrow> fst (module_resolve_path fs path None st) = Some r \<Longrightarrow> rank r < n) \<Longrightarrow>
   preprocess_program n fs ss out st \<noteq> None"
proof (induction ss arbitrary: out st)
  case (Cons s ss)
  have sub: "path \<in> imports_of (s # ss)" if "path \<in> imports_of ss" for path using that by (auto simp: imports_of_def)
  consider (other) "plain s" | (export) h d names where "s = Stmt h (SExport d names)"
    | (import) h path a sel names where "s = Stmt h (SImport path a sel names)"
    by (cases s rule: plain.cases) auto
  then show ?case
  proof cases
    case import
    show ?thesis
    proof (cases "module_load fs path None st")
      case (Pair r st1)
      show ?thesis
      proof (cases r)
        case (Some i)
        note load = module_load_at [OF Pair [unfolded Some]]
        have st1: "modules_ok fs st1" "up st1 = up st" "search_paths st1 = search_paths st"
          using leads_context [OF leads_load [OF Pair] Cons.prems(1)] by simp_all
        have "path \<in> imports_of (s # ss)" by (auto simp: import imports_of_def)
        then have "rank (resolved_path (module_at st1 i)) < n" using Cons.prems(3) load by blast
        then have "module_preprocess_module n fs i st1 \<noteq> None"
          using module_returns load st1 Cons.prems(2) ranked_cong by blast
        moreover have "preprocess_program n fs ss out1 st3 \<noteq> None"
          if pre: "module_preprocess_module n fs i st1 = Some (Done (True, st2))" and inc: "include_module a i out st2 = (Some out1, st3)"
          for st2 st3 out1
        proof -
          have "settles fs st1 (module_preprocess_module n fs i st1)" by (rule module_settles) (simp add: load)
          then have st2: "leads fs 0 st1 st2" using pre unfolding settles_def run_leads_def by blast
          note ok2 = leads_context [OF st2 st1(1)] leads_path [OF st2 st1(1)]
          note k3 = include_cases [OF _ _ module_done [OF pre st1(1)] inc]
          have st3: "modules_ok fs st3" "up st3 = up st" "search_paths st3 = search_paths st"
            using k3 [of fs] ok2 load st1 by (simp_all add: settled_def)
          show ?thesis
          proof (rule Cons.IH)
            show "modules_ok fs st3" "ranked fs rank st3" using st3 Cons.prems(2) ranked_cong by blast+
            fix path r assume "path \<in> imports_of ss" "fst (module_resolve_path fs path None st3) = Some r"
            then show "rank r < n" using Cons.prems(3) sub resolve_cong [OF st3(2,3)] by metis
          qed
        qed
        ultimately show ?thesis
          by (auto simp: import Pair Some split: option.splits outcome.splits prod.splits bool.splits)
      qed (simp add: import Pair)
    qed
  next
    case other
    show ?thesis unfolding program_other [OF other] by (rule Cons.IH) (use Cons.prems sub in blast)+
  next
    case export
    then have skip: "preprocess_program n fs (s # ss) out st = preprocess_program n fs ss out st" by simp
    show ?thesis unfolding skip by (rule Cons.IH) (use Cons.prems sub in blast)+
  qed
qed simp

text \<open>
  C8: preprocessing a program returns when the imports of the modules have no cycle (each leads to a module of
  a lower rank): there is a depth of recursion that is never exceeded, and any larger one gives the same result.
\<close>
theorem preprocessing_returns:
  assumes "modules_ok fs st" and "ranked fs rank st"
  shows "\<exists>n result. \<forall>m \<ge> n. module_preprocess_program m fs program st = Some result"
proof -
  obtain n where "\<forall>path \<in> imports_of program. \<forall>r. fst (module_resolve_path fs path None st) = Some r \<longrightarrow> rank r < n"
    using imports_bounded [of program "\<lambda>path. fst (module_resolve_path fs path None st)" rank] by (elim exE)
  then have "preprocess_program n fs program [] st \<noteq> None" by (intro program_returns [OF assms]) blast
  then obtain result where "preprocess_program n fs program [] st = Some result" by auto
  then have "\<forall>m \<ge> n. module_preprocess_program m fs program st = Some result"
    unfolding module_preprocess_program_def using program_depth by (intro allI impI)
  then show ?thesis by blast
qed

section \<open>What is refused\<close>

lemma import_of_itself_never_returns:
  assumes "is_compiled (module_at st i)" "\<not> is_preprocessed (module_at st i)"
    and "mod_ast (module_at st i) = Some (Stmt h (SImport path a False names) # ss)" "exports (module_at st i) = []"
    and "module_load fs path (Some (module_get_dir_from_path (resolved_path (module_at st i)))) st = (Some i, st)"
  shows "module_preprocess_module n fs i st = None"
proof (induction n)
  case (Suc n)
  have "process_import_statement fs path a False names (Some (module_get_dir_from_path (resolved_path (module_at st i)))) st = Done (True, st)"
    using assms by (simp add: process_import_statement_def module_compile_def)
  then show ?case using assms Suc
    by (simp add: module_compile_def andthen_def preprocess_stmt_def preprocess_import_def)
qed simp

text \<open>A selective import inside a module comes before the exports of the imported module have been read.\<close>

lemma selective_import_fails:
  assumes "module_load fs path dir st = (Some i, st1)" and "exports (module_at st1 i) = []" and "names \<noteq> []"
    and "i < length (modules st1)" "\<not> is_loading (module_at st1 i)"
    and "process_import_statement fs path a True names dir st = Done (b, st')"
  shows "\<not> b"
proof -
  obtain ok st2 where c: "module_compile fs i st1 = Done (ok, st2)"
    using assms(1,6) by (cases "module_compile fs i st1") (auto simp: process_import_statement_def)
  have "exports (module_at st2 i) = []"
    using c compile_cases [OF c assms(4) _ assms(5)] assms(2,4)
    by (cases "is_compiled (module_at st1 i)") (auto simp: module_compile_def module_at_def split: if_splits)
  moreover obtain n al ns where "names = (n, al) # ns" using assms(3) by (cases names) auto
  ultimately show ?thesis using assms(1,6) c
    by (auto simp: process_import_statement_def fails_def module_find_export_def split: if_splits)
qed

section \<open>A sample\<close>

definition library :: cstring where
  "library = ''let x: Bool = true'' @ [CHR 10] @ ''export default x''"

definition sample_files :: file_system where
  "sample_files = \<lparr>is_regular = (\<lambda>p. p = ''./lib.bread''),
     read_file = (\<lambda>p. if p = ''./lib.bread'' then Content library else OpenFails)\<rparr>"

definition sample_start :: mstate where
  "sample_start = module_system_init \<lparr>up = False, modules = [], search_paths = [], qualified_symbols = [], last_error = None,
     known_functions = [], class_defs = [], vars = \<lparr>scopes = [[]], heap = bread_memory_init\<rparr>\<rparr>"

definition sample_import :: "ASTStmt list" where
  "sample_import = [ast_stmt_new (SImport ''lib'' (Some ''y'') False []), ast_stmt_new (SPrint (ast_expr_new (EVar ''y'')))]"

fun ends_with_program :: "(ASTStmt list option \<times> mstate) outcome option \<Rightarrow> ASTStmt list \<Rightarrow> bool" where
  "ends_with_program (Some (Done (Some out, st))) ss = (tl out = ss)"
| "ends_with_program _ ss = False"

definition sample_rest :: "ASTStmt list" where
  \<comment> \<open>the constant \<open>y\<close>, with what the library exports, and the use of it\<close>
  "sample_rest = [ast_stmt_new (SVarDecl ''y'' TYPE_BOOL (Some (TPrim TYPE_BOOL)) (ast_expr_new (EVar ''x'')) True),
     ast_stmt_new (SPrint (ast_expr_new (EVar ''y'')))]"

lemma sample_linked: "ends_with_program (module_preprocess_program 1 sample_files sample_import sample_start) sample_rest"
  by code_simp

lemma sample_runs:
  obtains out st' where "module_preprocess_program 1 sample_files sample_import sample_start = Some (Done (Some out, st'))"
    "tl out = sample_rest"
  using sample_linked by (cases "module_preprocess_program 1 sample_files sample_import sample_start"
    rule: ends_with_program.cases [of "(x, sample_rest)" for x]) auto

lemma sample_start_ok: "modules_ok fs sample_start" "exports_ok sample_start" "included sample_start = {}"
  by (simp_all add: sample_start_def module_system_init_def module_add_search_path_def MODULE_MAX_SEARCH_PATHS_def modules_ok_def
      exports_ok_def included_def table_ok_def)

theorem preprocess_links_modules_witness:
  "\<exists>src ty out st'. module_preprocess_program 1 sample_files sample_import sample_start = Some (Done (Some out, st')) \<and>
     tl out = sample_rest \<and> list_all plain out \<and>
     out = linked (\<lambda>p. fst (module_resolve_path sample_files p None sample_start)) src (alias_constant src ty) {} sample_import"
proof -
  obtain out st' where run: "module_preprocess_program 1 sample_files sample_import sample_start = Some (Done (Some out, st'))"
    "tl out = sample_rest" by (rule sample_runs)
  with preprocess_links_modules [OF run(1) sample_start_ok] show ?thesis by blast
qed

fun import_free :: "(ASTStmt list option \<times> cstring \<times> error_state) outcome \<Rightarrow> bool" where
  "import_free (Done (Some ss, r, st)) = list_all (\<lambda>s. case s of Stmt h (SImport p a b n) \<Rightarrow> False | _ \<Rightarrow> True) ss"
| "import_free _ = True"

definition error_state_of :: "BreadError \<Rightarrow> bool \<Rightarrow> bool \<Rightarrow> BreadErrorContext list \<Rightarrow> error_state" where
  "error_state_of c i f stack = \<lparr>g_current_error = c, g_error_initialized = i, g_compilation_failed = f, g_error_context_stack = stack\<rparr>"

lemma library_import_free: "import_free (ast_parse_program (cstr library) e)"
proof -
  obtain c i f stack where e: "e = error_state_of c i f stack"
    by (cases e) (simp add: error_state_of_def)
  have "import_free (ast_parse_program (cstr library) (error_state_of c True True stack))"
    "import_free (ast_parse_program (cstr library) (error_state_of c True False stack))"
    "import_free (ast_parse_program (cstr library) (error_state_of c False True stack))"
    "import_free (ast_parse_program (cstr library) (error_state_of c False False stack))"
    by code_simp+
  then show ?thesis unfolding e by (cases i; cases f) simp_all
qed

lemma sample_ranked: "ranked sample_files (\<lambda>p. 0) st"
proof -
  have "path \<notin> imports_of ss" if parse: "parses sample_files p ss" for p path ss
  proof -
    obtain e r e' where "ast_parse_program (cstr library) e = Done (Some ss, r, e')"
      using parse by (auto simp: parses_def sample_files_def split: if_splits)
    with library_import_free [of e] show ?thesis by (auto simp: imports_of_def list_all_iff)
  qed
  then show ?thesis by (auto simp: ranked_def)
qed

theorem preprocessing_returns_witness:
  "\<exists>n result. \<forall>m \<ge> n. module_preprocess_program m sample_files sample_import sample_start = Some result"
  by (rule preprocessing_returns [OF sample_start_ok(1) sample_ranked])

theorem resolve_path_first_witness:
  "fst (module_resolve_path sample_files ''lib'' None sample_start) = Some ''./lib.bread''"
proof -
  have "up sample_start" by (simp add: sample_start_def module_system_init_def module_add_search_path_def MODULE_MAX_SEARCH_PATHS_def)
  from resolve_path_first [OF this, of sample_files "''lib''" None] show ?thesis
    by (simp add: candidates_def with_extension_def sample_files_def sample_start_def module_system_init_def module_add_search_path_def
        MODULE_MAX_SEARCH_PATHS_def MODULE_MAX_PATH_LENGTH_def MODULE_EXTENSION_def)
qed

section \<open>The tables\<close>

lemma program_tables:
  "preprocess_program n fs ss out st = Some (Done (x, st')) \<Longrightarrow> modules_ok fs st \<Longrightarrow> modules_ok fs st'"
proof (induction ss arbitrary: out st)
  case (Cons s ss)
  consider (other) "plain s" | (export) h d names where "s = Stmt h (SExport d names)"
    | (import) h path a sel names where "s = Stmt h (SImport path a sel names)"
    by (cases s rule: plain.cases) auto
  then show ?case
  proof cases
    case other
    then show ?thesis using Cons program_other by metis
  next
    case export
    with Cons show ?thesis by simp
  next
    case import
    obtain r st1 where load: "module_load fs path None st = (r, st1)" by fastforce
    have st1: "modules_ok fs st1" using leads_load [OF load] Cons.prems(2) by (simp add: leads_def)
    show ?thesis
    proof (cases r)
      case None
      then show ?thesis using Cons.prems st1 load by (simp add: import)
    next
      case (Some i)
      have i: "i < length (modules st1)" using module_load_at load Some by blast
      obtain b st2 where pre: "module_preprocess_module n fs i st1 = Some (Done (b, st2))"
        using Cons.prems(1) by (auto simp: import load Some split: option.splits outcome.splits prod.splits bool.splits)
      have lead: "leads fs 0 st1 st2" using module_settles [OF i] pre unfolding settles_def run_leads_def by blast
      note st2 = leads_context [OF lead st1] leads_path [OF lead st1 i]
      show ?thesis
      proof (cases b)
        case False
        then show ?thesis using Cons.prems(1) st2 by (simp add: import load Some pre)
      next
        case True
        obtain o1 st3 where inc: "include_module a i out st2 = (o1, st3)" by fastforce
        show ?thesis
        proof (cases o1)
          case None
          then have "st3 = module_set_error (''Module '' @ quoted (mod_name (module_at st2 i)) @ '' has no default export'') st2"
            using inc by (auto simp: include_module_def Let_def split: if_splits prod.splits)
          then have "modules_ok fs st3" using leads_error [of fs 0 st2] st2 by (simp add: leads_def)
          then show ?thesis using Cons.prems(1) None by (simp add: import load Some pre True inc)
        next
          case out1: (Some out1)
          have "modules_ok fs st3"
            using include_cases [of fs st2 i a out out1 st3] module_done [of n fs i st1 st2] st1 st2 i pre True inc out1 by simp
          then show ?thesis using Cons.IH Cons.prems(1) by (simp add: import load Some pre True inc out1)
        qed
      qed
    qed
  qed
qed simp

text \<open>
  C19: preprocessing keeps the tables consistent, whether it succeeds or is refused: no file is loaded twice; a
  module exports no name twice and has at most one default export; what is compiled is what its file parses
  to; no qualified name and no function is registered twice; and no module is left in the state of being loaded.
\<close>
theorem module_tables_stay_ok:
  assumes "module_preprocess_program n fs program st = Some (Done (result, st'))" and "modules_ok fs st"
  shows "modules_ok fs st'"
  using assms program_tables unfolding module_preprocess_program_def by blast

theorem module_tables_stay_ok_witness:
  "\<exists>result st'. module_preprocess_program 1 sample_files sample_import sample_start = Some (Done (result, st')) \<and> modules_ok sample_files st'"
proof -
  obtain out st' where run: "module_preprocess_program 1 sample_files sample_import sample_start = Some (Done (Some out, st'))"
    by (rule sample_runs)
  with module_tables_stay_ok [OF run sample_start_ok(1)] show ?thesis by blast
qed

text \<open>The table of qualified names is a map.\<close>

lemma qualified_lookup:
  assumes "module_register_qualified_symbol mn sn t p st = (True, st')" and "q \<noteq> []"
  shows "fst (module_lookup_symbol q st') = (if q = mn @ ''.'' @ sn then Some (t, p) else fst (module_lookup_symbol q st))"
  using assms by (auto simp: module_register_qualified_symbol_def module_lookup_symbol_def fails_def Let_def split: if_splits option.split)

end
