(* ===== verification/BreadPool.thy ===== *)
theory BreadPool
  imports BreadPrelude "HOL-Library.Word"
begin

unbundle bit_operations_syntax

text \<open>
  The pool allocator of \<^verbatim>\<open>src/runtime/memory.c\<close>: chunks of 256 blocks of 64 bytes, each chunk
  with a bitmap of its free blocks in four 64-bit words and a count of them. Blocks are handed
  out from the newest chunk alone.
  An address is a natural number below \<open>2 ^ 64\<close>, NULL is no address. What \<^verbatim>\<open>calloc\<close> returns
  for a new chunk is an argument.
  The pool promises its client a set of used blocks; the locale \<open>block_allocator\<close> states that
  promise and is interpreted on the definitions below.
\<close>

section \<open>Chunks and the pool\<close>

definition BREAD_POOL_BLOCK_SIZE :: nat where
  "BREAD_POOL_BLOCK_SIZE = 64"

definition BREAD_POOL_BLOCKS_PER_CHUNK :: nat where
  "BREAD_POOL_BLOCKS_PER_CHUNK = 256"

lemmas pool_consts = BREAD_POOL_BLOCK_SIZE_def BREAD_POOL_BLOCKS_PER_CHUNK_def

record BreadMemoryChunk =
  blocks :: nat                   \<comment> \<open>the address of \<^verbatim>\<open>blocks[0][0]\<close>\<close>
  free_bitmap :: "64 word list"
  free_count :: "64 word"

record BreadMemoryPool =
  chunks :: "BreadMemoryChunk list"   \<comment> \<open>newest first\<close>
  total_chunks :: "64 word"

definition bread_pool_alloc_chunk :: "nat option \<Rightarrow> BreadMemoryChunk option" where
  "bread_pool_alloc_chunk calloc_ret =
     (case calloc_ret of None \<Rightarrow> None
      | Some b \<Rightarrow> Some \<lparr>blocks = b,
          free_bitmap = replicate (BREAD_POOL_BLOCKS_PER_CHUNK div 64) (- 1),
          free_count = of_nat BREAD_POOL_BLOCKS_PER_CHUNK\<rparr>)"

definition ctzll :: "64 word \<Rightarrow> nat" where
  \<comment> \<open>\<^verbatim>\<open>__builtin_ctzll\<close>: the index of the lowest bit set\<close>
  "ctzll w = length (takeWhile (\<lambda>i. \<not> bit w i) [0..<64])"

fun first_free :: "nat \<Rightarrow> 64 word list \<Rightarrow> (nat \<times> nat) option" where
  \<comment> \<open>the loop over the words of the bitmap\<close>
  "first_free i [] = None"
| "first_free i (w # ws) = (if w = 0 then first_free (i + 1) ws else Some (i, ctzll w))"

definition take_block :: "nat \<Rightarrow> nat \<Rightarrow> BreadMemoryChunk \<Rightarrow> BreadMemoryChunk" where
  "take_block i b k =
     k\<lparr>free_bitmap := (free_bitmap k)[i := free_bitmap k ! i AND NOT (push_bit b 1)],
       free_count := free_count k - 1\<rparr>"

definition bread_pool_alloc :: "nat option \<Rightarrow> BreadMemoryPool \<Rightarrow> nat option \<times> BreadMemoryPool" where
  "bread_pool_alloc calloc_ret pool =
     (let full = (case chunks pool of [] \<Rightarrow> True | k # _ \<Rightarrow> free_count k = 0);
          grown = (if \<not> full then Some pool
            else map_option (\<lambda>k. pool\<lparr>chunks := k # chunks pool, total_chunks := total_chunks pool + 1\<rparr>)
              (bread_pool_alloc_chunk calloc_ret))
      in case grown of None \<Rightarrow> (None, pool)
         | Some p \<Rightarrow> (case chunks p of [] \<Rightarrow> (None, p)
            | k # ks \<Rightarrow> (case first_free 0 (free_bitmap k) of None \<Rightarrow> (None, p)
               | Some (i, b) \<Rightarrow>
                   (Some (blocks k + BREAD_POOL_BLOCK_SIZE * (i * 64 + b)),
                    p\<lparr>chunks := take_block i b k # ks\<rparr>))))"

definition give_block :: "nat \<Rightarrow> BreadMemoryChunk \<Rightarrow> BreadMemoryChunk" where
  "give_block idx k =
     k\<lparr>free_bitmap := (free_bitmap k)[idx div 64 := free_bitmap k ! (idx div 64) OR push_bit (idx mod 64) 1],
       free_count := free_count k + 1\<rparr>"

definition in_blocks :: "nat \<Rightarrow> BreadMemoryChunk \<Rightarrow> bool" where
  "in_blocks p k \<longleftrightarrow>
     blocks k \<le> p \<and> p < blocks k + BREAD_POOL_BLOCKS_PER_CHUNK * BREAD_POOL_BLOCK_SIZE"

fun pool_free_in :: "nat \<Rightarrow> BreadMemoryChunk list \<Rightarrow> BreadMemoryChunk list option" where
  \<comment> \<open>the loop over the chunks; \<open>None\<close> is a return of 0\<close>
  "pool_free_in p [] = None"
| "pool_free_in p (k # ks) =
     (if in_blocks p k then
        (let idx = (p - blocks k) div BREAD_POOL_BLOCK_SIZE in
         if idx \<ge> BREAD_POOL_BLOCKS_PER_CHUNK then None else Some (give_block idx k # ks))
      else map_option (Cons k) (pool_free_in p ks))"

definition bread_pool_free :: "nat option \<Rightarrow> BreadMemoryPool \<Rightarrow> bool \<times> BreadMemoryPool" where
  "bread_pool_free ptr pool =
     (case ptr of None \<Rightarrow> (False, pool)
      | Some p \<Rightarrow> (case pool_free_in p (chunks pool) of None \<Rightarrow> (False, pool)
         | Some ks \<Rightarrow> (True, pool\<lparr>chunks := ks\<rparr>)))"

definition bread_pool_cleanup :: "BreadMemoryPool \<Rightarrow> BreadMemoryPool" where
  "bread_pool_cleanup pool = pool\<lparr>chunks := [], total_chunks := 0\<rparr>"

section \<open>The abstract pool: a set of used blocks\<close>

definition block_free :: "BreadMemoryChunk \<Rightarrow> nat \<Rightarrow> bool" where
  "block_free k j \<longleftrightarrow> bit (free_bitmap k ! (j div 64)) (j mod 64)"

definition block_addr :: "BreadMemoryChunk \<Rightarrow> nat \<Rightarrow> nat" where
  "block_addr k j = blocks k + 64 * j"

definition chunk_used :: "BreadMemoryChunk \<Rightarrow> nat set" where
  "chunk_used k = {block_addr k j | j. j < 256 \<and> \<not> block_free k j}"

definition chunk_region :: "BreadMemoryChunk \<Rightarrow> nat set" where
  "chunk_region k = {blocks k ..< blocks k + 16384}"

definition used_blocks :: "BreadMemoryPool \<Rightarrow> nat set" where
  "used_blocks pool = (\<Union>k \<in> set (chunks pool). chunk_used k)"

definition pool_region :: "BreadMemoryPool \<Rightarrow> nat set" where
  "pool_region pool = (\<Union>k \<in> set (chunks pool). chunk_region k)"

definition chunk_ok :: "BreadMemoryChunk \<Rightarrow> bool" where
  "chunk_ok k \<longleftrightarrow> length (free_bitmap k) = 4 \<and> 0 < blocks k \<and> blocks k + 16384 \<le> 2 ^ 64 \<and>
     unat (free_count k) = card {j. j < 256 \<and> block_free k j}"

definition pool_ok :: "BreadMemoryPool \<Rightarrow> bool" where
  "pool_ok pool \<longleftrightarrow> (\<forall>k \<in> set (chunks pool). chunk_ok k) \<and>
     sorted_wrt (\<lambda>k k'. chunk_region k \<inter> chunk_region k' = {}) (chunks pool)"

definition chunk_fits :: "nat option \<Rightarrow> BreadMemoryPool \<Rightarrow> bool" where
  \<comment> \<open>what \<^verbatim>\<open>calloc\<close> promises: a new block of memory, apart from the chunks there are\<close>
  "chunk_fits c pool \<longleftrightarrow> (\<forall>b. c = Some b \<longrightarrow>
     0 < b \<and> b + 16384 \<le> 2 ^ 64 \<and> {b ..< b + 16384} \<inter> pool_region pool = {})"


section \<open>Bits\<close>

lemma ctzll_bit:
  assumes "w \<noteq> 0"
  shows "bit w (ctzll w)" "ctzll w < 64"
proof -
  obtain n where n: "n < 64" "bit w n"
    using assms bit_word_eqI [of w 0] by auto
  have "ctzll w < length [0..<64]"
  proof (rule ccontr)
    assume "\<not> ctzll w < length [0..<64]"
    then have "takeWhile (\<lambda>i. \<not> bit w i) [0..<64] = [0..<64]"
      using length_takeWhile_le [of "\<lambda>i. \<not> bit w i" "[0..<64]"]
      by (metis ctzll_def le_neq_implies_less takeWhile_eq_take take_all_iff nle_le)
    with n show False by (auto simp: takeWhile_eq_all_conv)
  qed
  then show "ctzll w < 64" by simp
  then show "bit w (ctzll w)"
    using nth_length_takeWhile [of "\<lambda>i. \<not> bit w i" "[0..<64]"] by (simp add: ctzll_def)
qed

lemma first_free_Some:
  "first_free i ws = Some (j, b) \<Longrightarrow>
   i \<le> j \<and> j - i < length ws \<and> bit (ws ! (j - i)) b \<and> b < 64"
proof (induction i ws rule: first_free.induct)
  case (2 i w ws)
  show ?case
  proof (cases "w = 0")
    case True
    with 2 have *: "i + 1 \<le> j \<and> j - (i + 1) < length ws \<and> bit (ws ! (j - (i + 1))) b \<and> b < 64" by simp
    then have "j - i = Suc (j - (i + 1))" by linarith
    with * show ?thesis by simp
  next
    case False
    with 2 show ?thesis using ctzll_bit [OF False] by auto
  qed
qed simp

lemma first_free_None: "first_free i ws = None \<longleftrightarrow> (\<forall>w \<in> set ws. w = 0)"
  by (induction i ws rule: first_free.induct) auto

lemma block_free_take:
  assumes "length (free_bitmap k) = 4" "i < 4" "b < 64" "j < 256"
  shows "block_free (take_block i b k) j \<longleftrightarrow> block_free k j \<and> j \<noteq> i * 64 + b"
proof (cases "j div 64 = i")
  case True
  then have "j \<noteq> i * 64 + b \<longleftrightarrow> j mod 64 \<noteq> b"
    by (metis assms(3) div_mult_mod_eq mod_less mod_mult_self3)
  with assms True show ?thesis
    by (auto simp: block_free_def take_block_def bit_simps)
next
  case False
  then have "j \<noteq> i * 64 + b" using assms(3) by auto
  with False show ?thesis by (simp add: block_free_def take_block_def)
qed

lemma block_free_give:
  assumes "length (free_bitmap k) = 4" "i < 256" "j < 256"
  shows "block_free (give_block i k) j \<longleftrightarrow> block_free k j \<or> j = i"
proof (cases "j div 64 = i div 64")
  case True
  then have "j = i \<longleftrightarrow> j mod 64 = i mod 64" by (metis div_mult_mod_eq)
  moreover have "i div 64 < 4" using assms(2) by auto
  ultimately show ?thesis
    using assms True by (auto simp: block_free_def give_block_def bit_simps)
next
  case False
  then have "j \<noteq> i" by auto
  with False show ?thesis by (simp add: block_free_def give_block_def)
qed

section \<open>One chunk\<close>

definition free_set :: "BreadMemoryChunk \<Rightarrow> nat set" where
  "free_set k = {j. j < 256 \<and> block_free k j}"

lemma free_set_finite [simp]: "finite (free_set k)"
  by (simp add: free_set_def)

lemma free_set_card_le: "card (free_set k) \<le> 256"
  using card_mono [of "{..<256}" "free_set k"] by (auto simp: free_set_def)

lemma chunk_ok_iff:
  "chunk_ok k \<longleftrightarrow> length (free_bitmap k) = 4 \<and> 0 < blocks k \<and> blocks k + 16384 \<le> 2 ^ 64 \<and>
     unat (free_count k) = card (free_set k)"
  by (simp add: chunk_ok_def free_set_def)

lemma block_addr_inj [simp]: "block_addr k i = block_addr k j \<longleftrightarrow> i = j"
  by (simp add: block_addr_def)

lemma chunk_used_region: "chunk_used k \<subseteq> chunk_region k"
  by (auto simp: chunk_used_def chunk_region_def block_addr_def)

lemma take_give_simps [simp]:
  "blocks (take_block i b k) = blocks k" "blocks (give_block i k) = blocks k"
  "chunk_region (take_block i b k) = chunk_region k" "chunk_region (give_block i k) = chunk_region k"
  "block_addr (take_block i b k) = block_addr k" "block_addr (give_block i k) = block_addr k"
  by (auto simp: take_block_def give_block_def chunk_region_def block_addr_def)

lemma take_block_ok:
  assumes "chunk_ok k" "i < 4" "b < 64" "block_free k (i * 64 + b)"
  shows "chunk_ok (take_block i b k)"
    and "chunk_used (take_block i b k) = insert (block_addr k (i * 64 + b)) (chunk_used k)"
    and "block_addr k (i * 64 + b) \<notin> chunk_used k"
proof -
  have len: "length (free_bitmap k) = 4" and cnt: "unat (free_count k) = card (free_set k)"
    using assms(1) by (auto simp: chunk_ok_iff)
  have lt: "i * 64 + b < 256" using assms(2,3) by simp
  have fs: "free_set (take_block i b k) = free_set k - {i * 64 + b}"
    using block_free_take [OF len assms(2,3)] by (auto simp: free_set_def)
  have "i * 64 + b \<in> free_set k" using assms(4) lt by (simp add: free_set_def)
  then have pos: "0 < card (free_set k)" and c: "card (free_set (take_block i b k)) = card (free_set k) - 1"
    by (auto simp: fs card_gt_0_iff)
  have "unat (free_count k - 1) = unat (free_count k) - 1"
    using cnt pos by (metis unat_minus_one unat_eq_zero neq0_conv)
  with assms(1) c cnt show "chunk_ok (take_block i b k)"
    by (simp add: chunk_ok_iff) (simp add: take_block_def)
  show "chunk_used (take_block i b k) = insert (block_addr k (i * 64 + b)) (chunk_used k)"
    using block_free_take [OF len assms(2,3)] lt assms(4) by (auto simp: chunk_used_def)
  show "block_addr k (i * 64 + b) \<notin> chunk_used k"
    using assms(4) by (auto simp: chunk_used_def)
qed

lemma give_block_ok:
  assumes "chunk_ok k" "i < 256" "\<not> block_free k i"
  shows "chunk_ok (give_block i k)"
    and "chunk_used (give_block i k) = chunk_used k - {block_addr k i}"
proof -
  have len: "length (free_bitmap k) = 4" and cnt: "unat (free_count k) = card (free_set k)"
    using assms(1) by (auto simp: chunk_ok_iff)
  have fs: "free_set (give_block i k) = insert i (free_set k)"
    using block_free_give [OF len assms(2)] assms(2) by (auto simp: free_set_def)
  then have c: "card (free_set (give_block i k)) = card (free_set k) + 1"
    using assms(3) by (simp add: free_set_def)
  have "unat (free_count k + 1) = unat (free_count k) + 1"
    using cnt free_set_card_le [of k] by (simp add: unat_word_ariths)
  with assms(1) c cnt show "chunk_ok (give_block i k)"
    by (simp add: chunk_ok_iff) (simp add: give_block_def)
  show "chunk_used (give_block i k) = chunk_used k - {block_addr k i}"
    using block_free_give [OF len assms(2)] by (auto simp: chunk_used_def)
qed

lemma new_chunk_ok:
  assumes "0 < b" "b + 16384 \<le> 2 ^ 64" "bread_pool_alloc_chunk (Some b) = Some k"
  shows "chunk_ok k" "chunk_used k = {}" "blocks k = b" "chunk_region k = {b ..< b + 16384}"
    "free_count k = 256"
proof -
  have k: "k = \<lparr>blocks = b, free_bitmap = replicate 4 (- 1), free_count = 256\<rparr>"
    using assms(3) by (simp add: bread_pool_alloc_chunk_def pool_consts)
  have all: "j < 256 \<Longrightarrow> block_free k j" for j
    by (simp add: k block_free_def)
  then have "free_set k = {..<256}" by (auto simp: free_set_def)
  then show "chunk_ok k" using assms(1,2) by (simp add: chunk_ok_iff k)
  show "chunk_used k = {}" using all by (auto simp: chunk_used_def)
  show "blocks k = b" "chunk_region k = {b ..< b + 16384}" "free_count k = 256"
    by (auto simp: k chunk_region_def)
qed

lemma free_block_found:
  assumes "chunk_ok k" "free_count k \<noteq> 0"
  obtains i b where "first_free 0 (free_bitmap k) = Some (i, b)" "i < 4" "b < 64"
    "block_free k (i * 64 + b)"
proof -
  have len: "length (free_bitmap k) = 4" using assms(1) by (simp add: chunk_ok_iff)
  have "card (free_set k) \<noteq> 0" using assms by (metis chunk_ok_iff unat_eq_zero)
  then obtain j where j: "j < 256" "block_free k j" by (auto simp: free_set_def card_eq_0_iff)
  then have "j div 64 < length (free_bitmap k)" by (simp add: len less_mult_imp_div_less)
  moreover have "free_bitmap k ! (j div 64) \<noteq> 0" using j(2) by (auto simp: block_free_def)
  ultimately have "first_free 0 (free_bitmap k) \<noteq> None"
    unfolding first_free_None using nth_mem by blast
  then obtain i b where ib: "first_free 0 (free_bitmap k) = Some (i, b)" by fastforce
  with first_free_Some [OF ib] len have "i < 4" "b < 64" "block_free k (i * 64 + b)"
    by (auto simp: block_free_def)
  with ib show thesis by (rule that)
qed

section \<open>The whole pool\<close>

lemma pool_okD: "pool_ok pool \<Longrightarrow> k \<in> set (chunks pool) \<Longrightarrow> chunk_ok k"
  by (simp add: pool_ok_def)

lemma used_blocks_region: "used_blocks pool \<subseteq> pool_region pool"
  using chunk_used_region by (fastforce simp: used_blocks_def pool_region_def)

lemma alloc_from_head:
  assumes "pool_ok p" "chunks p = k # ks" "free_count k \<noteq> 0"
  obtains a q where "bread_pool_alloc c p = (Some a, q)" "pool_ok q" "a \<notin> used_blocks p"
    "used_blocks q = insert a (used_blocks p)" "pool_region q = pool_region p" "total_chunks q = total_chunks p"
proof -
  have ck: "chunk_ok k" and dj: "\<forall>k' \<in> set ks. chunk_region k \<inter> chunk_region k' = {}"
    using assms(1,2) by (auto simp: pool_ok_def)
  obtain i b where ib: "first_free 0 (free_bitmap k) = Some (i, b)" "i < 4" "b < 64" "block_free k (i * 64 + b)"
    using free_block_found [OF ck assms(3)] .
  let ?a = "block_addr k (i * 64 + b)"
  note tk = take_block_ok [OF ck ib(2-4)]
  have "?a \<in> chunk_region k" using ib(2,3) by (simp add: block_addr_def chunk_region_def)
  then have na: "?a \<notin> chunk_used k'" if "k' \<in> set ks" for k'
    using dj that chunk_used_region [of k'] by blast
  show thesis
  proof (rule that)
    show "bread_pool_alloc c p = (Some ?a, p\<lparr>chunks := take_block i b k # ks\<rparr>)"
      using assms(2,3) ib(1) by (simp add: bread_pool_alloc_def block_addr_def pool_consts)
    show "pool_ok (p\<lparr>chunks := take_block i b k # ks\<rparr>)"
      using assms(1,2) tk(1) by (simp add: pool_ok_def)
    show "?a \<notin> used_blocks p" using tk(3) na by (auto simp: used_blocks_def assms(2))
    show "used_blocks (p\<lparr>chunks := take_block i b k # ks\<rparr>) = insert ?a (used_blocks p)"
      by (auto simp: used_blocks_def assms(2) tk(2))
  qed (auto simp: pool_region_def assms(2))
qed

lemma alloc_grows:
  assumes "case chunks p of [] \<Rightarrow> True | k # _ \<Rightarrow> free_count k = 0"
  shows "bread_pool_alloc c p = (case bread_pool_alloc_chunk c of None \<Rightarrow> (None, p)
    | Some k \<Rightarrow> bread_pool_alloc c (p\<lparr>chunks := k # chunks p, total_chunks := total_chunks p + 1\<rparr>))"
proof (cases c)
  case None
  with assms show ?thesis by (simp add: bread_pool_alloc_def bread_pool_alloc_chunk_def)
next
  case (Some b)
  then obtain k where "bread_pool_alloc_chunk c = Some k" "free_count k = 256"
    by (auto simp: bread_pool_alloc_chunk_def pool_consts)
  with assms show ?thesis by (simp add: bread_pool_alloc_def)
qed

lemma alloc_cases:
  assumes "pool_ok p" "chunk_fits c p"
  shows "bread_pool_alloc c p = (None, p) \<and> c = None \<or>
    (\<exists>a q. bread_pool_alloc c p = (Some a, q) \<and> pool_ok q \<and> a \<notin> used_blocks p \<and>
       used_blocks q = insert a (used_blocks p) \<and> pool_region p \<subseteq> pool_region q \<and>
       pool_region q \<subseteq> pool_region p \<union> (case c of None \<Rightarrow> {} | Some b \<Rightarrow> {b ..< b + 16384}))"
proof (cases "case chunks p of [] \<Rightarrow> True | k # _ \<Rightarrow> free_count k = 0")
  case False
  then obtain k ks where "chunks p = k # ks" "free_count k \<noteq> 0" by (auto split: list.splits)
  from alloc_from_head [OF assms(1) this, of c] obtain a q where
    "bread_pool_alloc c p = (Some a, q)" "pool_ok q" "a \<notin> used_blocks p"
    "used_blocks q = insert a (used_blocks p)" "pool_region q = pool_region p" .
  then show ?thesis by auto
next
  case full: True
  show ?thesis
  proof (cases c)
    case None
    with alloc_grows [OF full] show ?thesis by (simp add: bread_pool_alloc_chunk_def)
  next
    case (Some b)
    then obtain k where k: "bread_pool_alloc_chunk (Some b) = Some k"
      by (auto simp: bread_pool_alloc_chunk_def)
    let ?p = "p\<lparr>chunks := k # chunks p, total_chunks := total_chunks p + 1\<rparr>"
    note nk = new_chunk_ok [OF _ _ k]
    have b: "0 < b" "b + 16384 \<le> 2 ^ 64" "{b ..< b + 16384} \<inter> pool_region p = {}"
      using assms(2) Some by (auto simp: chunk_fits_def)
    have ok: "pool_ok ?p" using assms(1) nk [OF b(1,2)] b(3) by (auto simp: pool_ok_def pool_region_def)
    have "chunks ?p = k # chunks p" "free_count k \<noteq> 0" using nk(5) [OF b(1,2)] by simp_all
    from alloc_from_head [OF ok this, of c] obtain a q where aq: "bread_pool_alloc c ?p = (Some a, q)"
      "pool_ok q" "a \<notin> used_blocks ?p" "used_blocks q = insert a (used_blocks ?p)"
      "pool_region q = pool_region ?p" .
    have "used_blocks ?p = used_blocks p" "pool_region ?p = pool_region p \<union> {b ..< b + 16384}"
      using nk [OF b(1,2)] by (auto simp: used_blocks_def pool_region_def)
    moreover have "bread_pool_alloc c p = bread_pool_alloc c ?p"
      using alloc_grows [OF full, of c] k Some by simp
    ultimately show ?thesis using Some aq by auto
  qed
qed

lemma free_in_used:
  assumes "\<forall>k \<in> set ks. chunk_ok k" "sorted_wrt (\<lambda>k k'. chunk_region k \<inter> chunk_region k' = {}) ks"
    "a \<in> (\<Union>k \<in> set ks. chunk_used k)"
  shows "\<exists>ks'. pool_free_in a ks = Some ks' \<and> (\<forall>k \<in> set ks'. chunk_ok k) \<and>
    map chunk_region ks' = map chunk_region ks \<and>
    (\<Union>k \<in> set ks'. chunk_used k) = (\<Union>k \<in> set ks. chunk_used k) - {a}"
  using assms
proof (induction ks)
  case (Cons k ks)
  show ?case
  proof (cases "a \<in> chunk_region k")
    case True
    then have inb: "in_blocks a k" by (simp add: in_blocks_def chunk_region_def pool_consts)
    have "a \<in> chunk_used k" and rest: "a \<notin> (\<Union>k' \<in> set ks. chunk_used k')"
      using Cons.prems(2,3) True chunk_used_region by fastforce+
    then obtain j where j: "a = block_addr k j" "j < 256" "\<not> block_free k j"
      by (auto simp: chunk_used_def)
    then have "(a - blocks k) div 64 = j" by (simp add: block_addr_def)
    with inb j(2) have "pool_free_in a (k # ks) = Some (give_block j k # ks)"
      by (simp add: pool_consts)
    with give_block_ok [OF _ j(2,3)] Cons.prems(1) rest j(1) show ?thesis by auto
  next
    case False
    then have "\<not> in_blocks a k" by (simp add: in_blocks_def chunk_region_def pool_consts)
    moreover have "a \<notin> chunk_used k" using False chunk_used_region by blast
    ultimately show ?thesis using Cons by force
  qed
qed simp

lemma free_in_outside: "a \<notin> (\<Union>k \<in> set ks. chunk_region k) \<Longrightarrow> pool_free_in a ks = None"
  by (induction ks) (auto simp: in_blocks_def chunk_region_def pool_consts)

lemma regions_only:
  "map chunk_region ks = map chunk_region ks' \<Longrightarrow>
   (\<Union>k \<in> set ks. chunk_region k) = (\<Union>k \<in> set ks'. chunk_region k) \<and>
   sorted_wrt (\<lambda>k k'. chunk_region k \<inter> chunk_region k' = {}) ks =
   sorted_wrt (\<lambda>k k'. chunk_region k \<inter> chunk_region k' = {}) ks'"
proof -
  assume eq: "map chunk_region ks = map chunk_region ks'"
  then have "set (map chunk_region ks) = set (map chunk_region ks')" by (rule arg_cong)
  then have "chunk_region ` set ks = chunk_region ` set ks'" by simp
  moreover have "sorted_wrt (\<lambda>r r'. r \<inter> r' = {}) (map chunk_region ks) =
      sorted_wrt (\<lambda>r r'. r \<inter> r' = {}) (map chunk_region ks')"
    using eq by (rule arg_cong)
  ultimately show ?thesis by (simp add: sorted_wrt_map)
qed

lemma pool_free_used:
  assumes "pool_ok p" "a \<in> used_blocks p"
  shows "\<exists>q. bread_pool_free (Some a) p = (True, q) \<and> pool_ok q \<and> used_blocks q = used_blocks p - {a} \<and>
    pool_region q = pool_region p"
proof -
  from free_in_used [of "chunks p" a] assms obtain ks' where ks': "pool_free_in a (chunks p) = Some ks'"
      "\<forall>k \<in> set ks'. chunk_ok k" "map chunk_region ks' = map chunk_region (chunks p)"
      "(\<Union>k \<in> set ks'. chunk_used k) = (\<Union>k \<in> set (chunks p). chunk_used k) - {a}"
    by (auto simp: pool_ok_def used_blocks_def)
  with regions_only [OF ks'(3)] assms(1) show ?thesis
    by (auto simp: bread_pool_free_def pool_ok_def used_blocks_def pool_region_def)
qed

lemma pool_free_outside: "a \<notin> pool_region p \<Longrightarrow> bread_pool_free (Some a) p = (False, p)"
  by (simp add: bread_pool_free_def free_in_outside pool_region_def)

section \<open>What the pool promises its client\<close>

text \<open>
  The client (the memory manager) keeps a set of live objects, some of them in the region the
  pool manages; the pool's used blocks are exactly those.
\<close>

locale block_allocator =
  fixes ok :: "'p \<Rightarrow> bool"
    and used :: "'p \<Rightarrow> nat set"
    and region :: "'p \<Rightarrow> nat set"
    and extent :: "'c \<Rightarrow> nat set"
    and fits :: "'c \<Rightarrow> 'p \<Rightarrow> bool"
    and alloc :: "'c \<Rightarrow> 'p \<Rightarrow> nat option \<times> 'p"
    and free :: "nat option \<Rightarrow> 'p \<Rightarrow> bool \<times> 'p"
  assumes used_region: "used p \<subseteq> region p"
    and alloc_block: "\<lbrakk>ok p; fits c p\<rbrakk> \<Longrightarrow>
      (\<exists>q. alloc c p = (None, q) \<and> q = p) \<or>
      (\<exists>a q. alloc c p = (Some a, q) \<and> ok q \<and> a \<notin> used p \<and> used q = insert a (used p) \<and>
         region p \<subseteq> region q \<and> region q \<subseteq> region p \<union> extent c)"
    and free_used: "\<lbrakk>ok p; a \<in> used p\<rbrakk> \<Longrightarrow>
      \<exists>q. free (Some a) p = (True, q) \<and> ok q \<and> used q = used p - {a} \<and> region q = region p"
    and free_outside: "a \<notin> region p \<Longrightarrow> free (Some a) p = (False, p)"
begin

text \<open>A block given out is none of the client's live objects.\<close>

lemma alloc_fresh:
  assumes "ok p" "fits c p" "used p = live \<inter> region p" "extent c \<inter> live = {}"
    "alloc c p = (Some a, q)"
  shows "ok q" "a \<notin> live" "used q = insert a live \<inter> region q"
    "region p \<subseteq> region q" "region q \<subseteq> region p \<union> extent c" "a \<in> region q"
proof -
  have q: "ok q" "a \<notin> used p" "used q = insert a (used p)" "region p \<subseteq> region q"
      "region q \<subseteq> region p \<union> extent c"
    using alloc_block [OF assms(1,2)] assms(5) by auto
  then show "ok q" "region p \<subseteq> region q" "region q \<subseteq> region p \<union> extent c" "a \<in> region q"
    using used_region [of q] by auto
  have ar: "a \<in> region q" using q(3) used_region [of q] by auto
  then show "a \<notin> live" using q(2,5) assms(3,4) by auto
  show "used q = insert a live \<inter> region q" using q(3-5) assms(3,4) ar by auto
qed

lemma alloc_refused:
  assumes "ok p" "fits c p" "alloc c p = (None, q)"
  shows "q = p"
  using alloc_block [OF assms(1,2)] assms(3) by auto

lemma free_live:
  assumes "ok p" "used p = live \<inter> region p" "a \<in> live" "free (Some a) p = (freed, q)"
  shows "ok q" "used q = (live - {a}) \<inter> region q" "region q = region p" "freed \<longleftrightarrow> a \<in> region p"
proof -
  have "(a \<in> region p \<and> ok q \<and> used q = used p - {a} \<and> region q = region p \<and> freed) \<or>
        (a \<notin> region p \<and> q = p \<and> \<not> freed)"
  proof (cases "a \<in> region p")
    case True
    with free_used [OF assms(1), of a] assms(2-4) show ?thesis by auto
  next
    case False
    with free_outside [OF False] assms(4) show ?thesis by auto
  qed
  then show "ok q" "used q = (live - {a}) \<inter> region q" "region q = region p" "freed \<longleftrightarrow> a \<in> region p"
    using assms(1,2) by auto
qed

lemma alloc_free_restores:
  assumes "ok p" "fits c p" "alloc c p = (Some a, q)"
  shows "\<exists>r. free (Some a) q = (True, r) \<and> ok r \<and> used r = used p"
proof -
  have "ok q" "a \<notin> used p" "used q = insert a (used p)"
    using alloc_block [OF assms(1,2)] assms(3) by auto
  with free_used [of q a] show ?thesis by auto
qed

end

definition chunk_extent :: "nat option \<Rightarrow> nat set" where
  "chunk_extent c = (case c of None \<Rightarrow> {} | Some b \<Rightarrow> {b ..< b + 16384})"

interpretation pool: block_allocator pool_ok used_blocks pool_region chunk_extent chunk_fits
    bread_pool_alloc bread_pool_free
proof (unfold_locales, goal_cases)
  case (2 p c)
  then show ?case using alloc_cases [of p c] by (auto simp: chunk_extent_def)
next
  case (3 p a)
  then show ?case by (rule pool_free_used)
next
  case (4 a p)
  then show ?case by (rule pool_free_outside)
qed (rule used_blocks_region)

section \<open>The pool against its promise\<close>

text \<open>
  C11: The pool allocator of memory.c implements a set of used blocks. From a well-formed pool
  (bitmaps and counts of the chunks agree, chunks are apart), with calloc returning NULL or
  fresh memory, bread_pool_alloc gives NULL only when a chunk was needed and calloc gave none,
  leaving the pool alone; otherwise the block was not in use, is not NULL, lies in the pool, and
  is the only one added to the used ones; freeing it again with bread_pool_free reports success
  and gives back the same used blocks. The line marked "should never happen" is never reached.
\<close>

theorem pool_alloc_correct:
  assumes "pool_ok p" "chunk_fits c p"
  shows "case bread_pool_alloc c p of
     (None, q) \<Rightarrow> q = p \<and> c = None \<and> (\<forall>k ks. chunks p = k # ks \<longrightarrow> free_count k = 0)
   | (Some a, q) \<Rightarrow> pool_ok q \<and> a \<noteq> 0 \<and> a \<in> pool_region q \<and> a \<notin> used_blocks p \<and>
       used_blocks q = insert a (used_blocks p) \<and>
       (\<exists>r. bread_pool_free (Some a) q = (True, r) \<and> pool_ok r \<and> used_blocks r = used_blocks p)"
proof (cases "bread_pool_alloc c p")
  case (Pair ret q)
  show ?thesis
  proof (cases ret)
    case None
    with Pair alloc_cases [OF assms] have "q = p" "c = None" by auto
    moreover have "free_count k = 0" if "chunks p = k # ks" for k ks
      using alloc_from_head [OF assms(1) that, of c] Pair None by (metis option.distinct(1) prod.inject)
    ultimately show ?thesis using Pair None by simp
  next
    case (Some a)
    with Pair alloc_cases [OF assms] have q: "pool_ok q" "a \<notin> used_blocks p" "used_blocks q = insert a (used_blocks p)"
      by auto
    then have "a \<in> pool_region q" using used_blocks_region [of q] by auto
    moreover from this have "a \<noteq> 0"
      using pool_okD [OF q(1)] by (fastforce simp: pool_region_def chunk_region_def chunk_ok_def)
    ultimately show ?thesis
      using pool.alloc_free_restores [OF assms] Pair Some q by simp
  qed
qed

lemma pool_alloc_correct_witness:
  "pool_ok \<lparr>chunks = [], total_chunks = 0\<rparr> \<and> chunk_fits (Some 4096) \<lparr>chunks = [], total_chunks = 0\<rparr> \<and>
   fst (bread_pool_alloc (Some 4096) \<lparr>chunks = [], total_chunks = 0\<rparr>) = Some 4096 \<and>
   4096 \<notin> used_blocks \<lparr>chunks = [], total_chunks = 0\<rparr>"
proof -
  have ok: "pool_ok \<lparr>chunks = [], total_chunks = 0\<rparr>" by (simp add: pool_ok_def)
  have fits: "chunk_fits (Some 4096) \<lparr>chunks = [], total_chunks = 0\<rparr>"
    by (simp add: chunk_fits_def pool_region_def)
  have "fst (bread_pool_alloc (Some 4096) \<lparr>chunks = [], total_chunks = 0\<rparr>) = Some 4096"
    by code_simp
  with pool_alloc_correct [OF ok fits] ok fits show ?thesis by (auto split: prod.splits option.splits)
qed

end
