(* ===== verification/BreadMemory.thy ===== *)
theory BreadMemory
  imports BreadPool BreadHeap
begin

text \<open>
  The memory manager of \<^verbatim>\<open>src/runtime/memory.c\<close> below the heap of \<open>BreadHeap\<close>: the list of
  tracked objects, the pool of small blocks, the statistics, the counts in the object headers,
  and the mark-and-sweep collector.
  The addresses are those of the machine and are used again after a free, where \<open>BreadHeap\<close>
  numbers objects once and for all. What \<^verbatim>\<open>calloc\<close> and \<^verbatim>\<open>malloc\<close> return is an argument of the
  operations that call them. Printing (warnings, reports) is left out; the collector's stack is
  allocated.
\<close>

section \<open>The state\<close>

datatype BreadObjKind = BREAD_OBJ_UNKNOWN | BREAD_OBJ_STRING | BREAD_OBJ_ARRAY | BREAD_OBJ_DICT
  | BREAD_OBJ_OPTIONAL | BREAD_OBJ_STRUCT | BREAD_OBJ_CLASS

record BreadObjectNode =
  nobject :: nat
  nsize :: "64 word"
  nkind :: BreadObjKind
  nmarked :: bool

record BreadMemoryStats =
  n_total_allocations :: "64 word"
  n_total_deallocations :: "64 word"
  n_current_objects :: "64 word"
  n_peak_objects :: "64 word"
  n_bytes_allocated :: "64 word"
  n_bytes_freed :: "64 word"

record stored =
  hdr_kind :: BreadObjKind
  hdr_refcount :: "32 word"
  contents :: "body option"   \<comment> \<open>\<open>None\<close>: all zero behind the header, as allocation leaves it\<close>

record BreadMemoryManager =
  all_objects :: "BreadObjectNode list"
  small_pool :: BreadMemoryPool
  cycle_collection_enabled :: bool
  gc_threshold :: "64 word"
  allocations_since_gc :: "64 word"
  bytes_threshold :: "64 word"
  bytes_since_gc :: "64 word"
  stats :: BreadMemoryStats
  debug_mode :: bool
  auto_gc_enabled :: bool
  gc_roots :: "nat list"               \<comment> \<open>its length is the count of roots\<close>
  gc_root_capacity :: nat
  g_mem_initialized :: bool
  storage :: "nat \<rightharpoonup> stored"      \<comment> \<open>the objects in memory\<close>
  g_errs :: error_state

record system =
  calloc_ret :: "nat option"           \<comment> \<open>what \<^verbatim>\<open>calloc\<close> returns for a chunk, when called\<close>
  malloc_ret :: "nat option"           \<comment> \<open>what \<^verbatim>\<open>malloc\<close> or \<^verbatim>\<open>realloc\<close> returns for an object\<close>
  node_ret :: bool                     \<comment> \<open>whether \<^verbatim>\<open>malloc\<close> gives a node to track it with\<close>

definition BREAD_DEFAULT_GC_THRESHOLD :: "64 word" where
  "BREAD_DEFAULT_GC_THRESHOLD = 1000"

definition BREAD_MAX_STACK_DEPTH :: nat where
  "BREAD_MAX_STACK_DEPTH = 8192"

definition empty_pool :: BreadMemoryPool where
  "empty_pool = \<lparr>chunks = [], total_chunks = 0\<rparr>"

definition zero_stats :: BreadMemoryStats where
  "zero_stats = \<lparr>n_total_allocations = 0, n_total_deallocations = 0, n_current_objects = 0,
     n_peak_objects = 0, n_bytes_allocated = 0, n_bytes_freed = 0\<rparr>"

definition memory_ensure_init :: "BreadMemoryManager \<Rightarrow> BreadMemoryManager" where
  "memory_ensure_init m = (if g_mem_initialized m then m
     else m\<lparr>all_objects := [], small_pool := empty_pool, cycle_collection_enabled := False,
       gc_threshold := BREAD_DEFAULT_GC_THRESHOLD, allocations_since_gc := 0,
       bytes_threshold := 1024 * 1024, bytes_since_gc := 0, stats := zero_stats,
       debug_mode := False, auto_gc_enabled := True, gc_roots := [], gc_root_capacity := 0,
       g_mem_initialized := True\<rparr>)"

definition memory_start :: "error_state \<Rightarrow> BreadMemoryManager" where
  \<comment> \<open>the manager of a new process, initialised\<close>
  "memory_start e = memory_ensure_init
     \<lparr>all_objects = [], small_pool = empty_pool, cycle_collection_enabled = False, gc_threshold = 0,
       allocations_since_gc = 0, bytes_threshold = 0, bytes_since_gc = 0, stats = zero_stats,
       debug_mode = False, auto_gc_enabled = False, gc_roots = [], gc_root_capacity = 0,
       g_mem_initialized = False, storage = Map.empty, g_errs = e\<rparr>"

definition memory_error :: "cstring \<Rightarrow> BreadMemoryManager \<Rightarrow> 'a outcome" where
  \<comment> \<open>\<^verbatim>\<open>BREAD_ERROR_SET_MEMORY_ALLOCATION\<close>, which ends the process\<close>
  "memory_error msg m =
     bnd (bread_error_set BREAD_ERROR_MEMORY_ALLOCATION msg (g_errs m)) (\<lambda>_. Undefined)"

lemma memory_error_aborts [simp]:
  "memory_error msg m = Aborted (error_report BREAD_ERROR_MEMORY_ALLOCATION msg)"
  by (simp add: memory_error_def bread_error_set_def bread_error_set_with_context_def Let_def error_report_def)

section \<open>Tracking\<close>

fun memory_find_node :: "nat \<Rightarrow> BreadObjectNode list \<Rightarrow> BreadObjectNode option" where
  "memory_find_node a [] = None"
| "memory_find_node a (n # ns) = (if nobject n = a then Some n else memory_find_node a ns)"

definition track_object_internal ::
    "bool \<Rightarrow> nat \<Rightarrow> 64 word \<Rightarrow> BreadObjKind \<Rightarrow> BreadMemoryManager \<Rightarrow> BreadMemoryManager" where
  "track_object_internal node_ok a sz kd m =
     (if \<not> node_ok then m
      else (let s = stats m; cur = n_current_objects s + 1 in
        m\<lparr>all_objects := \<lparr>nobject = a, nsize = sz, nkind = kd, nmarked = False\<rparr> # all_objects m,
          stats := s\<lparr>n_total_allocations := n_total_allocations s + 1, n_current_objects := cur,
            n_peak_objects := (if cur > n_peak_objects s then cur else n_peak_objects s)\<rparr>\<rparr>))"

fun unlink_node :: "nat \<Rightarrow> BreadObjectNode list \<Rightarrow> (BreadObjectNode \<times> BreadObjectNode list) option" where
  \<comment> \<open>the first node of the object, and the list without it\<close>
  "unlink_node a [] = None"
| "unlink_node a (n # ns) =
     (if nobject n = a then Some (n, ns) else map_option (\<lambda>(d, r). (d, n # r)) (unlink_node a ns))"

definition note_freed :: "64 word \<Rightarrow> BreadMemoryStats \<Rightarrow> BreadMemoryStats" where
  "note_freed sz s =
     s\<lparr>n_bytes_freed := n_bytes_freed s + sz, n_total_deallocations := n_total_deallocations s + 1,
       n_current_objects := (if n_current_objects s > 0 then n_current_objects s - 1 else n_current_objects s)\<rparr>"

definition untrack_object_internal :: "nat \<Rightarrow> BreadMemoryManager \<Rightarrow> BreadMemoryManager" where
  "untrack_object_internal a m = (case unlink_node a (all_objects m) of None \<Rightarrow> m
     | Some (dead, rest) \<Rightarrow> m\<lparr>all_objects := rest, stats := note_freed (nsize dead) (stats m)\<rparr>)"

definition memory_track_object ::
    "bool \<Rightarrow> nat \<Rightarrow> 64 word \<Rightarrow> BreadObjKind \<Rightarrow> BreadMemoryManager \<Rightarrow> BreadMemoryManager" where
  "memory_track_object node_ok a sz kd m = track_object_internal node_ok a sz kd (memory_ensure_init m)"

definition memory_untrack_object :: "nat \<Rightarrow> BreadMemoryManager \<Rightarrow> BreadMemoryManager" where
  "memory_untrack_object a m = (if g_mem_initialized m then untrack_object_internal a m else m)"

definition memory_should_trigger_gc :: "BreadMemoryManager \<Rightarrow> bool" where
  "memory_should_trigger_gc m \<longleftrightarrow> auto_gc_enabled m \<and> cycle_collection_enabled m \<and>
     (gc_threshold m \<le> allocations_since_gc m \<or> bytes_threshold m \<le> bytes_since_gc m)"

section \<open>Marking\<close>

fun body_kind :: "body \<Rightarrow> BreadObjKind" where
  "body_kind (BString s) = BREAD_OBJ_STRING"
| "body_kind (BArray a) = BREAD_OBJ_ARRAY"
| "body_kind (BDict d) = BREAD_OBJ_DICT"
| "body_kind (BOptional v) = BREAD_OBJ_OPTIONAL"
| "body_kind (BStruct s) = BREAD_OBJ_STRUCT"
| "body_kind (BClass c) = BREAD_OBJ_CLASS"

definition marked_values :: "stored \<Rightarrow> val list" where
  \<comment> \<open>the values the collector's switch on the kind of an object visits, in its order\<close>
  "marked_values ob = (case contents ob of None \<Rightarrow> []
     | Some b \<Rightarrow> if hdr_kind ob = body_kind b then children b else [])"

definition values_at :: "(nat \<rightharpoonup> stored) \<Rightarrow> nat \<Rightarrow> val list" where
  "values_at st a = (case st a of None \<Rightarrow> [] | Some ob \<Rightarrow> marked_values ob)"

definition memory_mark_value :: "BreadObjectNode list \<Rightarrow> val \<Rightarrow> nat list \<Rightarrow> nat list" where
  \<comment> \<open>the stack, top first, holds the objects of the nodes\<close>
  "memory_mark_value ns v stack =
     (if length stack \<ge> BREAD_MAX_STACK_DEPTH then stack
      else case ref_of v of None \<Rightarrow> stack
        | Some child \<Rightarrow> (case memory_find_node child ns of None \<Rightarrow> stack
           | Some cn \<Rightarrow> if nmarked cn then stack else child # stack))"

fun mark_node :: "nat \<Rightarrow> BreadObjectNode list \<Rightarrow> BreadObjectNode list" where
  "mark_node a [] = []"
| "mark_node a (n # ns) = (if nobject n = a then n\<lparr>nmarked := True\<rparr> # ns else n # mark_node a ns)"

definition unmarked_count :: "BreadObjectNode list \<Rightarrow> nat" where
  "unmarked_count ns = length (filter (\<lambda>n. \<not> nmarked n) ns)"

lemma unmarked_count_mark:
  "memory_find_node a ns = Some n \<Longrightarrow> \<not> nmarked n \<Longrightarrow> unmarked_count (mark_node a ns) < unmarked_count ns"
  by (induction ns) (auto simp: unmarked_count_def split: if_splits)

function mark_loop :: "(nat \<rightharpoonup> stored) \<Rightarrow> BreadObjectNode list \<Rightarrow> nat list \<Rightarrow> BreadObjectNode list" where
  "mark_loop st ns [] = ns"
| "mark_loop st ns (a # stack) =
     (case memory_find_node a ns of None \<Rightarrow> mark_loop st ns stack
      | Some n \<Rightarrow> if nmarked n then mark_loop st ns stack
          else (let ns' = mark_node a ns in
            mark_loop st ns' (fold (memory_mark_value ns') (values_at st a) stack)))"
  by pat_completeness auto
termination
  by (relation "measures [unmarked_count \<circ> fst \<circ> snd, length \<circ> snd \<circ> snd]")
    (auto simp: unmarked_count_mark)

definition memory_mark_reachable :: "(nat \<rightharpoonup> stored) \<Rightarrow> nat \<Rightarrow> BreadObjectNode list \<Rightarrow> BreadObjectNode list" where
  "memory_mark_reachable st root ns = (case memory_find_node root ns of None \<Rightarrow> ns
     | Some start \<Rightarrow> if nmarked start then ns else mark_loop st ns [root])"

section \<open>Sweeping and collection\<close>

definition refcount_at :: "(nat \<rightharpoonup> stored) \<Rightarrow> nat \<Rightarrow> 32 word" where
  "refcount_at st a = (case st a of None \<Rightarrow> 0 | Some ob \<Rightarrow> hdr_refcount ob)"

fun sweep_nodes :: "BreadObjectNode list \<Rightarrow> BreadMemoryManager \<Rightarrow> BreadObjectNode list \<times> BreadMemoryManager" where
  \<comment> \<open>the nodes that stay, and the manager with the others' objects freed\<close>
  "sweep_nodes [] m = ([], m)"
| "sweep_nodes (n # ns) m =
     (if \<not> nmarked n \<and> refcount_at (storage m) (nobject n) = 0
      then sweep_nodes ns (m\<lparr>small_pool := snd (bread_pool_free (Some (nobject n)) (small_pool m)),
          storage := (storage m)(nobject n := None), stats := note_freed (nsize n) (stats m)\<rparr>)
      else (let (kept, m') = sweep_nodes ns m in (n # kept, m')))"

definition memory_sweep_unreachable :: "BreadMemoryManager \<Rightarrow> BreadMemoryManager" where
  "memory_sweep_unreachable m0 = (let m = memory_ensure_init m0;
     (kept, m') = sweep_nodes (all_objects m) m in m'\<lparr>all_objects := kept\<rparr>)"

definition mark_roots :: "(nat \<rightharpoonup> stored) \<Rightarrow> nat list \<Rightarrow> BreadObjectNode list \<Rightarrow> BreadObjectNode list" where
  \<comment> \<open>all marks cleared, then marking from every object with a count and from every root\<close>
  "mark_roots st roots ns =
     fold (memory_mark_reachable st) roots
       (fold (memory_mark_reachable st) (filter (\<lambda>a. refcount_at st a > 0) (map nobject ns))
         (map (\<lambda>n. n\<lparr>nmarked := False\<rparr>) ns))"

definition memory_collect_cycles :: "BreadMemoryManager \<Rightarrow> BreadMemoryManager" where
  "memory_collect_cycles m0 =
     (let m = memory_ensure_init m0 in
      if \<not> cycle_collection_enabled m then m
      else (let objects_before = n_current_objects (stats m);
                m' = memory_sweep_unreachable
                  (m\<lparr>all_objects := mark_roots (storage m) (gc_roots m) (all_objects m)\<rparr>);
                now = n_current_objects (stats m');
                objects_freed = (if objects_before > now then objects_before - now else 0)
            in m'\<lparr>allocations_since_gc := 0, bytes_since_gc := 0,
                 gc_threshold := (if objects_freed < gc_threshold m' div 10
                   then gc_threshold m' * 3 div 2 else gc_threshold m')\<rparr>))"

section \<open>Allocation and freeing\<close>

definition place_object :: "system \<Rightarrow> nat \<Rightarrow> 64 word \<Rightarrow> BreadObjKind \<Rightarrow> BreadMemoryManager \<Rightarrow> BreadMemoryManager" where
  \<comment> \<open>zeroing, the header, the counters and the tracking of a new object\<close>
  "place_object sys a sz kd m = track_object_internal (node_ret sys) a sz kd
     (m\<lparr>storage := (storage m)(a \<mapsto> \<lparr>hdr_kind = kd, hdr_refcount = 1, contents = None\<rparr>),
        stats := (stats m)\<lparr>n_bytes_allocated := n_bytes_allocated (stats m) + sz\<rparr>,
        allocations_since_gc := allocations_since_gc m + 1,
        bytes_since_gc := bytes_since_gc m + sz\<rparr>)"

definition get_space :: "system \<Rightarrow> 64 word \<Rightarrow> BreadMemoryPool \<Rightarrow> nat option \<times> BreadMemoryPool" where
  \<comment> \<open>a block of the pool if the object is small and one can be had, else memory from \<^verbatim>\<open>malloc\<close>\<close>
  "get_space sys sz pool =
     (let (pooled, pool') = (if sz \<le> of_nat BREAD_POOL_BLOCK_SIZE
         then bread_pool_alloc (calloc_ret sys) pool else (None, pool))
      in (case pooled of Some a \<Rightarrow> Some a | None \<Rightarrow> malloc_ret sys, pool'))"

definition memory_alloc ::
    "system \<Rightarrow> 64 word \<Rightarrow> BreadObjKind \<Rightarrow> BreadMemoryManager \<Rightarrow> (nat \<times> BreadMemoryManager) outcome" where
  "memory_alloc sys sz kd m0 =
     (let m = memory_ensure_init m0; (ptr, pool) = get_space sys sz (small_pool m); m1 = m\<lparr>small_pool := pool\<rparr>
      in case ptr of None \<Rightarrow> memory_error ''Out of memory'' m1
         | Some a \<Rightarrow> (let m2 = place_object sys a sz kd m1 in
             Done (a, if memory_should_trigger_gc m2 then memory_collect_cycles m2 else m2)))"

definition memory_free :: "nat option \<Rightarrow> BreadMemoryManager \<Rightarrow> BreadMemoryManager outcome" where
  "memory_free ptr m = (case ptr of None \<Rightarrow> Done m
     | Some a \<Rightarrow> (let m1 = untrack_object_internal a m;
           (pooled, pool) = bread_pool_free (Some a) (small_pool m1)
         in if pooled \<or> storage m1 a \<noteq> None
            then Done (m1\<lparr>small_pool := pool, storage := (storage m1)(a := None)\<rparr>)
            else Undefined))"

fun move_node :: "nat \<Rightarrow> nat \<Rightarrow> 64 word \<Rightarrow> BreadObjectNode list \<Rightarrow> BreadObjectNode list" where
  "move_node p a sz [] = []"
| "move_node p a sz (n # ns) =
     (if nobject n = p then n\<lparr>nobject := a, nsize := sz\<rparr> # ns else n # move_node p a sz ns)"

definition resize_stats :: "64 word \<Rightarrow> 64 word \<Rightarrow> BreadMemoryStats \<Rightarrow> BreadMemoryStats" where
  "resize_stats old_size new_size s =
     (if new_size > old_size then s\<lparr>n_bytes_allocated := n_bytes_allocated s + (new_size - old_size)\<rparr>
      else if old_size > new_size then s\<lparr>n_bytes_freed := n_bytes_freed s + (old_size - new_size)\<rparr>
      else s)"

definition memory_realloc ::
    "(64 word \<Rightarrow> stored \<Rightarrow> stored) \<Rightarrow> system \<Rightarrow> nat option \<Rightarrow> 64 word \<Rightarrow> BreadMemoryManager \<Rightarrow>
     (nat \<times> BreadMemoryManager) outcome" where
  \<comment> \<open>\<open>first_bytes n ob\<close> is what the first \<open>n\<close> bytes of an object hold, the rest zeroed\<close>
  "memory_realloc first_bytes sys ptr new_size m0 = (let m = memory_ensure_init m0 in
     case ptr of None \<Rightarrow> memory_alloc sys new_size BREAD_OBJ_STRING m
     | Some p \<Rightarrow> (case storage m p of None \<Rightarrow> Undefined
       | Some ob \<Rightarrow>
         (let old_size = (case memory_find_node p (all_objects m) of None \<Rightarrow> 0 | Some n \<Rightarrow> nsize n);
              (new_ptr, pool) = get_space sys new_size (snd (bread_pool_free (Some p) (small_pool m)))
          in case new_ptr of None \<Rightarrow> memory_error ''Out of memory'' m
             | Some a \<Rightarrow> Done (a, m\<lparr>small_pool := pool,
                 storage := (storage m)(p := None, a \<mapsto> first_bytes (if old_size < new_size then old_size else new_size) ob),
                 bytes_since_gc := (if new_size > old_size then bytes_since_gc m + (new_size - old_size)
                   else bytes_since_gc m),
                 stats := resize_stats old_size new_size (stats m),
                 all_objects := move_node p a new_size (all_objects m)\<rparr>))))"

section \<open>Counts\<close>

definition object_retain :: "nat option \<Rightarrow> BreadMemoryManager \<Rightarrow> BreadMemoryManager outcome" where
  "object_retain ptr m = (case ptr of None \<Rightarrow> Done m
     | Some a \<Rightarrow> (case storage m a of None \<Rightarrow> Undefined
        | Some ob \<Rightarrow> if hdr_refcount ob = - 1 then memory_error ''Refcount overflow'' m
            else Done (m\<lparr>storage := (storage m)(a \<mapsto> ob\<lparr>hdr_refcount := hdr_refcount ob + 1\<rparr>)\<rparr>)))"

definition object_release :: "nat option \<Rightarrow> BreadMemoryManager \<Rightarrow> BreadMemoryManager outcome" where
  "object_release ptr m = (case ptr of None \<Rightarrow> Done m
     | Some a \<Rightarrow> (case storage m a of None \<Rightarrow> Undefined
        | Some ob \<Rightarrow> if hdr_refcount ob = 0 then memory_error ''Double free detected'' m
            else (let m' = m\<lparr>storage := (storage m)(a \<mapsto> ob\<lparr>hdr_refcount := hdr_refcount ob - 1\<rparr>)\<rparr> in
              if hdr_refcount ob - 1 = 0 then memory_free (Some a) m' else Done m')))"

definition object_get_refcount :: "nat option \<Rightarrow> BreadMemoryManager \<Rightarrow> 32 word outcome" where
  "object_get_refcount ptr m = (case ptr of None \<Rightarrow> Done 0
     | Some a \<Rightarrow> (case storage m a of None \<Rightarrow> Undefined | Some ob \<Rightarrow> Done (hdr_refcount ob)))"

section \<open>Roots, settings and reports\<close>

definition memory_add_root :: "bool \<Rightarrow> nat option \<Rightarrow> BreadMemoryManager \<Rightarrow> bool \<times> BreadMemoryManager" where
  \<comment> \<open>the flag says whether \<^verbatim>\<open>realloc\<close> succeeds\<close>
  "memory_add_root realloc_ok ptr m0 = (let m = memory_ensure_init m0 in
     case ptr of None \<Rightarrow> (False, m)
     | Some r \<Rightarrow>
        if length (gc_roots m) \<ge> gc_root_capacity m
        then (if \<not> realloc_ok then (False, m)
          else (True, m\<lparr>gc_roots := gc_roots m @ [r],
            gc_root_capacity := (if gc_root_capacity m = 0 then 16 else gc_root_capacity m * 2)\<rparr>))
        else (True, m\<lparr>gc_roots := gc_roots m @ [r]\<rparr>))"

fun drop_root :: "nat \<Rightarrow> nat list \<Rightarrow> nat list" where
  \<comment> \<open>the first entry for the root is overwritten by the last entry, which goes\<close>
  "drop_root r [] = []"
| "drop_root r (x # xs) =
     (if x = r then (if xs = [] then [] else last xs # butlast xs) else x # drop_root r xs)"

definition memory_remove_root :: "nat option \<Rightarrow> BreadMemoryManager \<Rightarrow> BreadMemoryManager" where
  "memory_remove_root ptr m = (case ptr of None \<Rightarrow> m
     | Some r \<Rightarrow> if g_mem_initialized m then m\<lparr>gc_roots := drop_root r (gc_roots m)\<rparr> else m)"

definition memory_get_stats :: "BreadMemoryManager \<Rightarrow> BreadMemoryStats" where
  "memory_get_stats m = stats (memory_ensure_init m)"

definition memory_check_leaks :: "BreadMemoryManager \<Rightarrow> bool" where
  "memory_check_leaks m \<longleftrightarrow> g_mem_initialized m \<and> n_current_objects (stats m) \<noteq> 0"

definition memory_enable_debug_mode :: "bool \<Rightarrow> BreadMemoryManager \<Rightarrow> BreadMemoryManager" where
  "memory_enable_debug_mode on m = (memory_ensure_init m)\<lparr>debug_mode := on\<rparr>"

definition memory_set_cycle_collection_threshold :: "32 word \<Rightarrow> BreadMemoryManager \<Rightarrow> BreadMemoryManager" where
  "memory_set_cycle_collection_threshold threshold m0 = (let m = memory_ensure_init m0 in
     if sint threshold \<le> 0 then m\<lparr>cycle_collection_enabled := False, gc_threshold := 0\<rparr>
     else m\<lparr>cycle_collection_enabled := True, gc_threshold := scast threshold\<rparr>)"

definition memory_get_cycle_collection_threshold :: "BreadMemoryManager \<Rightarrow> 32 word" where
  "memory_get_cycle_collection_threshold m = ucast (gc_threshold (memory_ensure_init m))"

definition memory_enable_auto_gc :: "bool \<Rightarrow> BreadMemoryManager \<Rightarrow> BreadMemoryManager" where
  "memory_enable_auto_gc on m = (memory_ensure_init m)\<lparr>auto_gc_enabled := on\<rparr>"

definition memory_set_bytes_threshold :: "64 word \<Rightarrow> BreadMemoryManager \<Rightarrow> BreadMemoryManager" where
  "memory_set_bytes_threshold b m = (memory_ensure_init m)\<lparr>bytes_threshold := b\<rparr>"

definition memory_cleanup :: "BreadMemoryManager \<Rightarrow> BreadMemoryManager" where
  \<comment> \<open>the nodes and the pool go, with the objects in it; objects from \<^verbatim>\<open>malloc\<close> stay\<close>
  "memory_cleanup m = (if \<not> g_mem_initialized m then m
     else m\<lparr>all_objects := [], small_pool := bread_pool_cleanup (small_pool m),
       storage := (\<lambda>a. if list_ex (in_blocks a) (chunks (small_pool m)) then None else storage m a),
       gc_roots := [], gc_root_capacity := 0, g_mem_initialized := False\<rparr>)"

definition memory_cleanup_on_error :: "BreadMemoryManager \<Rightarrow> BreadMemoryManager" where
  \<comment> \<open>in debug mode after a report, which changes nothing\<close>
  "memory_cleanup_on_error m = memory_cleanup m"

end
