(* ===== verification/BreadCollector.thy ===== *)
theory BreadCollector
  imports BreadMemory
begin

text \<open>
  What the mark-and-sweep collector of \<^verbatim>\<open>src/runtime/memory.c\<close> does: marking stays within
  what is reachable, never overruns its stack of 8192 nodes, reaches everything reachable as
  long as the stack has room, and sweeping frees exactly the unmarked objects without a count.
\<close>


section \<open>Nodes\<close>

definition tracked :: "BreadObjectNode list \<Rightarrow> nat set" where
  "tracked ns = nobject ` set ns"

definition marked_set :: "BreadObjectNode list \<Rightarrow> nat set" where
  "marked_set ns = nobject ` {n \<in> set ns. nmarked n}"

definition nodes_ok :: "BreadObjectNode list \<Rightarrow> bool" where
  "nodes_ok ns \<longleftrightarrow> distinct (map nobject ns)"

lemma tracked_simps [simp]:
  "tracked [] = {}" "tracked (n # ns) = insert (nobject n) (tracked ns)"
  by (auto simp: tracked_def)

lemma marked_set_simps [simp]:
  "marked_set [] = {}"
  "marked_set (n # ns) = (if nmarked n then insert (nobject n) (marked_set ns) else marked_set ns)"
  by (auto simp: marked_set_def)

lemma nodes_ok_simps [simp]:
  "nodes_ok []" "nodes_ok (n # ns) \<longleftrightarrow> nobject n \<notin> tracked ns \<and> nodes_ok ns"
  by (auto simp: nodes_ok_def tracked_def)

lemma finite_tracked [simp]: "finite (tracked ns)"
  by (simp add: tracked_def)

lemma marked_tracked: "marked_set ns \<subseteq> tracked ns"
  by (induction ns) auto

lemma find_node_None [simp]: "memory_find_node a ns = None \<longleftrightarrow> a \<notin> tracked ns"
  by (induction ns) auto

lemma find_node_marked:
  "nodes_ok ns \<Longrightarrow> memory_find_node a ns = Some n \<Longrightarrow>
   nobject n = a \<and> a \<in> tracked ns \<and> (nmarked n \<longleftrightarrow> a \<in> marked_set ns)"
proof (induction ns)
  case (Cons x xs)
  then show ?case using marked_tracked [of xs] by (auto split: if_splits)
qed simp

lemma mark_node_objects [simp]: "map nobject (mark_node a ns) = map nobject ns"
  by (induction ns) auto

lemma objects_eq:
  assumes "map nobject ns = map nobject ns'"
  shows "tracked ns = tracked ns'" "nodes_ok ns = nodes_ok ns'"
  using assms by (metis list.set_map tracked_def) (use assms in \<open>simp add: nodes_ok_def\<close>)

lemma mark_node_simps [simp]:
  "tracked (mark_node a ns) = tracked ns" "nodes_ok (mark_node a ns) = nodes_ok ns"
  using objects_eq [OF mark_node_objects] by auto

lemma marked_mark_node [simp]:
  "a \<in> tracked ns \<Longrightarrow> nodes_ok ns \<Longrightarrow> marked_set (mark_node a ns) = insert a (marked_set ns)"
  by (induction ns) auto

section \<open>References between objects\<close>

definition refs_of :: "(nat \<rightharpoonup> stored) \<Rightarrow> nat \<Rightarrow> nat set" where
  "refs_of st a = {c. \<exists>v \<in> set (values_at st a). ref_of v = Some c}"

definition points_to :: "(nat \<rightharpoonup> stored) \<Rightarrow> BreadObjectNode list \<Rightarrow> (nat \<times> nat) set" where
  "points_to st ns = {(a, c). a \<in> tracked ns \<and> c \<in> tracked ns \<and> c \<in> refs_of st a}"

definition reach_from :: "(nat \<rightharpoonup> stored) \<Rightarrow> BreadObjectNode list \<Rightarrow> nat set \<Rightarrow> nat set" where
  \<comment> \<open>the tracked objects reachable from a set of roots\<close>
  "reach_from st ns R = (points_to st ns)\<^sup>* `` (R \<inter> tracked ns)"

definition pending_refs :: "(nat \<rightharpoonup> stored) \<Rightarrow> BreadObjectNode list \<Rightarrow> nat" where
  \<comment> \<open>the values held by the objects not yet marked\<close>
  "pending_refs st ns = sum_list (map (\<lambda>n. if nmarked n then 0 else length (values_at st (nobject n))) ns)"

lemma points_to_cong: "map nobject ns = map nobject ns' \<Longrightarrow> points_to st ns = points_to st ns'"
  using objects_eq(1) [of ns ns'] by (simp add: points_to_def)

lemma reach_from_cong:
  "map nobject ns = map nobject ns' \<Longrightarrow> reach_from st ns R = reach_from st ns' R"
  using objects_eq(1) [of ns ns'] points_to_cong [of ns ns'] by (simp add: reach_from_def)

lemma pending_mark_node:
  "nodes_ok ns \<Longrightarrow> a \<in> tracked ns \<Longrightarrow> a \<notin> marked_set ns \<Longrightarrow>
   pending_refs st (mark_node a ns) + length (values_at st a) = pending_refs st ns"
  by (induction ns) (auto simp: pending_refs_def split: if_splits)

section \<open>The stack\<close>

lemma mark_value_length:
  "length (memory_mark_value ns v stack) \<le> length stack + 1"
  "length stack \<le> BREAD_MAX_STACK_DEPTH \<Longrightarrow> length (memory_mark_value ns v stack) \<le> BREAD_MAX_STACK_DEPTH"
  by (auto simp: memory_mark_value_def split: option.splits)

lemma push_length: "length (fold (memory_mark_value ns) vs stack) \<le> length stack + length vs"
proof (induction vs arbitrary: stack)
  case (Cons v vs)
  have "length (fold (memory_mark_value ns) (v # vs) stack) \<le> length (memory_mark_value ns v stack) + length vs"
    using Cons.IH by simp
  with mark_value_length(1) [of ns v stack] show ?case by simp
qed simp

lemma push_bound:
  "length stack \<le> BREAD_MAX_STACK_DEPTH \<Longrightarrow>
   length (fold (memory_mark_value ns) vs stack) \<le> BREAD_MAX_STACK_DEPTH"
  by (induction vs arbitrary: stack) (auto intro: mark_value_length(2))

lemma mark_value_set:
  assumes "nodes_ok ns"
  shows "set stack \<subseteq> set (memory_mark_value ns v stack)"
    and "set (memory_mark_value ns v stack) \<subseteq> set stack \<union> ({c. ref_of v = Some c} \<inter> tracked ns)"
    and "length stack < BREAD_MAX_STACK_DEPTH \<Longrightarrow> ref_of v = Some c \<Longrightarrow> c \<in> tracked ns \<Longrightarrow>
      c \<in> set (memory_mark_value ns v stack) \<union> marked_set ns"
proof -
  have tr: "c \<in> tracked ns" if "memory_find_node c ns = Some n" for c n
    using find_node_marked [OF assms that] by simp
  show "set stack \<subseteq> set (memory_mark_value ns v stack)"
    by (auto simp: memory_mark_value_def split: option.splits)
  show "set (memory_mark_value ns v stack) \<subseteq> set stack \<union> ({c. ref_of v = Some c} \<inter> tracked ns)"
    by (auto simp: memory_mark_value_def split: option.splits if_splits dest: tr)
  assume "length stack < BREAD_MAX_STACK_DEPTH" "ref_of v = Some c" "c \<in> tracked ns"
  moreover from this(3) obtain n where "memory_find_node c ns = Some n"
    using find_node_None [of c ns] by fastforce
  ultimately show "c \<in> set (memory_mark_value ns v stack) \<union> marked_set ns"
    using find_node_marked [OF assms] by (auto simp: memory_mark_value_def)
qed

lemma push_set:
  assumes "nodes_ok ns"
  shows "set stack \<subseteq> set (fold (memory_mark_value ns) vs stack)"
    and "set (fold (memory_mark_value ns) vs stack) \<subseteq>
      set stack \<union> ({c. \<exists>v \<in> set vs. ref_of v = Some c} \<inter> tracked ns)"
    and "length stack + length vs \<le> BREAD_MAX_STACK_DEPTH \<Longrightarrow> v \<in> set vs \<Longrightarrow> ref_of v = Some c \<Longrightarrow>
      c \<in> tracked ns \<Longrightarrow> c \<in> set (fold (memory_mark_value ns) vs stack) \<union> marked_set ns"
proof (induction vs arbitrary: stack)
  case (Cons w vs)
  note mv = mark_value_set [OF assms]
  {
    case 1
    show ?case using mv(1) [of stack w] Cons.IH(1) [of "memory_mark_value ns w stack"] by auto
  next
    case 2
    show ?case using mv(2) [of w stack] Cons.IH(2) [of "memory_mark_value ns w stack"] by fastforce
  next
    case 3
    have len: "length (memory_mark_value ns w stack) + length vs \<le> BREAD_MAX_STACK_DEPTH"
      using 3(1) mark_value_length(1) [of ns w stack] by simp
    show ?case
    proof (cases "v = w")
      case True
      with 3 mv(3) [of stack w c] Cons.IH(1) [of "memory_mark_value ns w stack"] show ?thesis by auto
    next
      case False
      with 3 Cons.IH(3) [OF len] show ?thesis by simp
    qed
  }
qed auto


section \<open>Marking\<close>

lemma mark_loop_objects [simp]: "map nobject (mark_loop st ns stack) = map nobject ns"
  by (induction st ns stack rule: mark_loop.induct) (auto simp: Let_def split: option.splits)

lemma refs_of_values: "{c. \<exists>v \<in> set (values_at st a). ref_of v = Some c} = refs_of st a"
  by (simp add: refs_of_def)

lemma grown_subset: "M' \<subseteq> insert a M \<union> X \<Longrightarrow> X \<subseteq> Y \<Longrightarrow> a \<in> Y \<Longrightarrow> M' \<subseteq> M \<union> Y"
  by blast

text \<open>What marking may mark: the objects reachable from the stack.\<close>

lemma mark_loop_sound:
  assumes "nodes_ok ns" "set stack \<subseteq> tracked ns"
  shows "marked_set (mark_loop st ns stack) \<subseteq> marked_set ns \<union> (points_to st ns)\<^sup>* `` set stack"
    and "marked_set ns \<subseteq> marked_set (mark_loop st ns stack)"
proof -
  have "marked_set ns \<subseteq> marked_set (mark_loop st ns stack) \<and>
    marked_set (mark_loop st ns stack) \<subseteq> marked_set ns \<union> (points_to st ns)\<^sup>* `` set stack"
    using assms
  proof (induction st ns stack rule: mark_loop.induct)
    case (2 st ns a stack)
    show ?case
    proof (cases "memory_find_node a ns")
      case None
      with 2 show ?thesis by auto
    next
      case (Some n)
      note fn = find_node_marked [OF 2(4) Some]
      show ?thesis
      proof (cases "nmarked n")
        case True
        with 2(2) [OF Some True] 2(4,5) Some show ?thesis by auto
      next
        case False
        let ?ns = "mark_node a ns" and ?stack = "fold (memory_mark_value (mark_node a ns)) (values_at st a) stack"
        have ok: "nodes_ok ?ns" and tr: "tracked ?ns = tracked ns" using 2(4) by auto
        have pt: "points_to st ?ns = points_to st ns" by (rule points_to_cong) simp
        have sub: "set ?stack \<subseteq> set stack \<union> (refs_of st a \<inter> tracked ns)"
          using push_set(2) [OF ok, of "values_at st a" stack] by (simp add: refs_of_values)
        then have "set ?stack \<subseteq> tracked ?ns" using 2(5) by auto
        with 2(3) [OF Some False refl ok]
        have ih: "marked_set ?ns \<subseteq> marked_set (mark_loop st ?ns ?stack)"
          "marked_set (mark_loop st ?ns ?stack) \<subseteq> marked_set ?ns \<union> (points_to st ns)\<^sup>* `` set ?stack"
          by (simp_all add: pt)
        have "(points_to st ns)\<^sup>* `` (refs_of st a \<inter> tracked ns) \<subseteq> (points_to st ns)\<^sup>* `` {a}"
          using fn by (auto simp: points_to_def intro: converse_rtrancl_into_rtrancl)
        with sub have "(points_to st ns)\<^sup>* `` set ?stack \<subseteq> (points_to st ns)\<^sup>* `` set (a # stack)"
          by auto
        then have "marked_set (mark_loop st ?ns ?stack) \<subseteq> marked_set ns \<union> (points_to st ns)\<^sup>* `` set (a # stack)"
          using ih(2) fn 2(4) by (intro grown_subset [OF _ _ ImageI]) auto
        moreover have "marked_set ns \<subseteq> marked_set (mark_loop st ?ns ?stack)" using ih(1) fn 2(4) by simp
        moreover have eq: "mark_loop st ns (a # stack) = mark_loop st ?ns ?stack"
          using Some False by (simp add: Let_def)
        ultimately show ?thesis by simp
      qed
    qed
  qed auto
  then show "marked_set (mark_loop st ns stack) \<subseteq> marked_set ns \<union> (points_to st ns)\<^sup>* `` set stack"
    and "marked_set ns \<subseteq> marked_set (mark_loop st ns stack)" by auto
qed

text \<open>While the stack has room for every value held, nothing reachable is missed.\<close>

lemma mark_loop_complete:
  assumes "nodes_ok ns" "set stack \<subseteq> tracked ns"
    "length stack + pending_refs st ns \<le> BREAD_MAX_STACK_DEPTH"
    "points_to st ns `` marked_set ns \<subseteq> marked_set ns \<union> set stack"
  shows "set stack \<subseteq> marked_set (mark_loop st ns stack)"
    and "points_to st ns `` marked_set (mark_loop st ns stack) \<subseteq> marked_set (mark_loop st ns stack)"
    and "pending_refs st (mark_loop st ns stack) \<le> pending_refs st ns"
proof -
  have "set stack \<subseteq> marked_set (mark_loop st ns stack) \<and>
    points_to st ns `` marked_set (mark_loop st ns stack) \<subseteq> marked_set (mark_loop st ns stack) \<and>
    pending_refs st (mark_loop st ns stack) \<le> pending_refs st ns"
    using assms
  proof (induction st ns stack rule: mark_loop.induct)
    case (2 st ns a stack)
    obtain n where Some: "memory_find_node a ns = Some n"
      using 2(5) find_node_None [of a ns] by fastforce
    note fn = find_node_marked [OF 2(4) Some]
    show ?case
    proof (cases "nmarked n")
      case True
      with fn have "a \<in> marked_set ns" by simp
      moreover have "marked_set ns \<subseteq> marked_set (mark_loop st ns stack)"
        using mark_loop_sound(2) 2(4,5) by simp
      moreover have "points_to st ns `` marked_set ns \<subseteq> marked_set ns \<union> set stack"
        using 2(7) calculation(1) by auto
      ultimately show ?thesis using 2(2) [OF Some True] 2(4-6) Some True by auto
    next
      case False
      let ?ns = "mark_node a ns" and ?stack = "fold (memory_mark_value (mark_node a ns)) (values_at st a) stack"
      have ok: "nodes_ok ?ns" and tr: "tracked ?ns = tracked ns" using 2(4) by auto
      have pt: "points_to st ?ns = points_to st ns" by (rule points_to_cong) simp
      have na: "a \<notin> marked_set ns" using fn False by simp
      have mk: "marked_set ?ns = insert a (marked_set ns)" using fn 2(4) by simp
      have pend: "pending_refs st ?ns + length (values_at st a) = pending_refs st ns"
        using pending_mark_node [OF 2(4) _ na] fn by simp
      have room: "length stack + length (values_at st a) \<le> BREAD_MAX_STACK_DEPTH"
        using 2(6) pend by simp
      note ps = push_set [OF ok]
      have "set ?stack \<subseteq> tracked ?ns" using ps(2) [of "values_at st a" stack] 2(5) by auto
      moreover have "length ?stack + pending_refs st ?ns \<le> BREAD_MAX_STACK_DEPTH"
        using push_length [of ?ns "values_at st a" stack] 2(6) pend by simp
      moreover have "points_to st ?ns `` marked_set ?ns \<subseteq> marked_set ?ns \<union> set ?stack"
      proof
        fix c assume "c \<in> points_to st ?ns `` marked_set ?ns"
        then obtain b where b: "b \<in> marked_set ?ns" "(b, c) \<in> points_to st ns" by (auto simp: pt)
        show "c \<in> marked_set ?ns \<union> set ?stack"
        proof (cases "b = a")
          case True
          with b(2) obtain v where "v \<in> set (values_at st a)" "ref_of v = Some c" "c \<in> tracked ?ns"
            by (auto simp: points_to_def refs_of_def tr)
          from ps(3) [OF room this] show ?thesis by auto
        next
          case False
          with b mk have "c \<in> marked_set ns \<union> set (a # stack)" using 2(7) by auto
          with ps(1) [of stack "values_at st a"] mk show ?thesis by auto
        qed
      qed
      ultimately have ih: "set ?stack \<subseteq> marked_set (mark_loop st ?ns ?stack)"
        "points_to st ns `` marked_set (mark_loop st ?ns ?stack) \<subseteq> marked_set (mark_loop st ?ns ?stack)"
        "pending_refs st (mark_loop st ?ns ?stack) \<le> pending_refs st ?ns"
        using 2(3) [OF Some False refl ok] by (simp_all add: pt)
      have "insert a (marked_set ns) \<subseteq> marked_set (mark_loop st ?ns ?stack)"
        using mark_loop_sound(2) [OF ok \<open>set ?stack \<subseteq> tracked ?ns\<close>, of st] mk by simp
      moreover have eq: "mark_loop st ns (a # stack) = mark_loop st ?ns ?stack"
        using Some False by (simp add: Let_def)
      ultimately show ?thesis using ih ps(1) [of stack "values_at st a"] pend unfolding eq by auto
    qed
  qed auto
  then show "set stack \<subseteq> marked_set (mark_loop st ns stack)"
    and "points_to st ns `` marked_set (mark_loop st ns stack) \<subseteq> marked_set (mark_loop st ns stack)"
    and "pending_refs st (mark_loop st ns stack) \<le> pending_refs st ns" by auto
qed


declare mark_loop.simps(2) [simp del]

section \<open>Marking from the roots\<close>

lemma mark_reachable_objects [simp]: "map nobject (memory_mark_reachable st root ns) = map nobject ns"
  by (auto simp: memory_mark_reachable_def split: option.splits)

lemma mark_reachable_simps [simp]:
  "tracked (memory_mark_reachable st root ns) = tracked ns"
  "nodes_ok (memory_mark_reachable st root ns) = nodes_ok ns"
  "points_to st (memory_mark_reachable st root ns) = points_to st ns"
  "reach_from st (memory_mark_reachable st root ns) R = reach_from st ns R"
  using objects_eq [OF mark_reachable_objects] points_to_cong [OF mark_reachable_objects]
    reach_from_cong [OF mark_reachable_objects] by auto

lemma mark_reachable_root:
  assumes "nodes_ok ns"
  shows "marked_set ns \<union> ({root} \<inter> tracked ns) \<subseteq> marked_set (memory_mark_reachable st root ns)"
proof (cases "memory_find_node root ns")
  case None
  then have "root \<notin> tracked ns" by simp
  with None show ?thesis by (simp add: memory_mark_reachable_def del: find_node_None)
next
  case (Some n)
  note fn = find_node_marked [OF assms Some]
  show ?thesis
  proof (cases "nmarked n")
    case True
    with Some fn show ?thesis by (simp add: memory_mark_reachable_def)
  next
    case False
    let ?ns = "mark_node root ns"
    let ?stack = "fold (memory_mark_value ?ns) (values_at st root) []"
    have "set ?stack \<subseteq> tracked ?ns"
      using push_set(2) [of ?ns "values_at st root" "[]"] assms by auto
    then have "marked_set ?ns \<subseteq> marked_set (mark_loop st ?ns ?stack)"
      using mark_loop_sound(2) assms by simp
    moreover have "memory_mark_reachable st root ns = mark_loop st ?ns ?stack"
      using Some False by (simp add: memory_mark_reachable_def Let_def mark_loop.simps(2))
    ultimately show ?thesis using fn assms by auto
  qed
qed

lemma mark_reachable_exact:
  assumes "nodes_ok ns" "points_to st ns `` marked_set ns \<subseteq> marked_set ns"
    "pending_refs st ns < BREAD_MAX_STACK_DEPTH"
  shows "marked_set (memory_mark_reachable st root ns) = marked_set ns \<union> reach_from st ns {root}"
    and "pending_refs st (memory_mark_reachable st root ns) \<le> pending_refs st ns"
proof -
  have "marked_set (memory_mark_reachable st root ns) = marked_set ns \<union> reach_from st ns {root} \<and>
    pending_refs st (memory_mark_reachable st root ns) \<le> pending_refs st ns"
  proof (cases "memory_find_node root ns")
    case None
    then have "reach_from st ns {root} = {}" by (simp add: reach_from_def)
    with None show ?thesis by (simp add: memory_mark_reachable_def del: find_node_None)
  next
    case (Some n)
    note fn = find_node_marked [OF assms(1) Some]
    then have rf: "reach_from st ns {root} = (points_to st ns)\<^sup>* `` {root}" by (simp add: reach_from_def)
    show ?thesis
    proof (cases "nmarked n")
      case True
      then have "(points_to st ns)\<^sup>* `` {root} \<subseteq> (points_to st ns)\<^sup>* `` marked_set ns"
        using fn by auto
      also have "\<dots> = marked_set ns" using assms(2) by (rule Image_closed_trancl)
      finally show ?thesis using Some True rf by (auto simp: memory_mark_reachable_def)
    next
      case False
      have pre: "set [root] \<subseteq> tracked ns" "length [root] + pending_refs st ns \<le> BREAD_MAX_STACK_DEPTH"
        "points_to st ns `` marked_set ns \<subseteq> marked_set ns \<union> set [root]"
        using fn assms(2,3) by auto
      let ?M = "marked_set (mark_loop st ns [root])"
      note ms = mark_loop_sound [OF assms(1) pre(1), of st]
      note mc = mark_loop_complete [OF assms(1) pre]
      have "(points_to st ns)\<^sup>* `` {root} \<subseteq> (points_to st ns)\<^sup>* `` ?M" using mc(1) by auto
      also have "\<dots> = ?M" using mc(2) by (rule Image_closed_trancl)
      finally have "?M = marked_set ns \<union> (points_to st ns)\<^sup>* `` {root}" using ms by auto
      moreover have eq: "memory_mark_reachable st root ns = mark_loop st ns [root]"
        using Some False by (simp add: memory_mark_reachable_def)
      ultimately show ?thesis using mc(3) rf unfolding eq by simp
    qed
  qed
  then show "marked_set (memory_mark_reachable st root ns) = marked_set ns \<union> reach_from st ns {root}"
    and "pending_refs st (memory_mark_reachable st root ns) \<le> pending_refs st ns" by auto
qed

lemma reach_from_closed: "points_to st ns `` reach_from st ns R \<subseteq> reach_from st ns R"
  by (auto simp: reach_from_def intro: rtrancl_into_rtrancl)

lemma reach_from_Un [simp]: "reach_from st ns (R \<union> R') = reach_from st ns R \<union> reach_from st ns R'"
  by (auto simp: reach_from_def)

lemma reach_from_empty [simp]: "reach_from st ns {} = {}"
  by (simp add: reach_from_def)

lemma reach_from_insert: "reach_from st ns (insert a R) = reach_from st ns {a} \<union> reach_from st ns R"
  using reach_from_Un [of st ns "{a}" R] by simp

lemma mark_all_objects [simp]: "map nobject (fold (memory_mark_reachable st) rs ns) = map nobject ns"
  by (induction rs arbitrary: ns) auto

lemma mark_all_roots:
  "nodes_ok ns \<Longrightarrow> marked_set ns \<union> (set rs \<inter> tracked ns) \<subseteq>
    marked_set (fold (memory_mark_reachable st) rs ns)"
proof (induction rs arbitrary: ns)
  case (Cons r rs)
  have "marked_set (memory_mark_reachable st r ns) \<union> (set rs \<inter> tracked ns) \<subseteq>
      marked_set (fold (memory_mark_reachable st) (r # rs) ns)"
    using Cons.IH [of "memory_mark_reachable st r ns"] Cons.prems by simp
  with mark_reachable_root [OF Cons.prems, of r st] show ?case by auto
qed simp

lemma mark_all_exact:
  "\<lbrakk>nodes_ok ns; points_to st ns `` marked_set ns \<subseteq> marked_set ns; pending_refs st ns < BREAD_MAX_STACK_DEPTH\<rbrakk> \<Longrightarrow>
   marked_set (fold (memory_mark_reachable st) rs ns) = marked_set ns \<union> reach_from st ns (set rs) \<and>
   pending_refs st (fold (memory_mark_reachable st) rs ns) \<le> pending_refs st ns"
proof (induction rs arbitrary: ns)
  case (Cons r rs)
  let ?ns = "memory_mark_reachable st r ns"
  have mr: "marked_set ?ns = marked_set ns \<union> reach_from st ns {r}" "pending_refs st ?ns \<le> pending_refs st ns"
    using mark_reachable_exact [OF Cons.prems] by blast+
  have "points_to st ?ns `` marked_set ?ns \<subseteq> marked_set ?ns"
    using Cons.prems(2) reach_from_closed [of st ns "{r}"] unfolding mr(1) by auto
  moreover have "pending_refs st ?ns < BREAD_MAX_STACK_DEPTH" using mr(2) Cons.prems(3) by simp
  moreover have "nodes_ok ?ns" using Cons.prems(1) by simp
  ultimately have ih: "marked_set (fold (memory_mark_reachable st) rs ?ns) = marked_set ?ns \<union> reach_from st ?ns (set rs)"
      "pending_refs st (fold (memory_mark_reachable st) rs ?ns) \<le> pending_refs st ?ns"
    using Cons.IH [of ?ns] by blast+
  have "reach_from st ns (set (r # rs)) = reach_from st ns {r} \<union> reach_from st ns (set rs)"
    using reach_from_insert [of st ns r "set rs"] by simp
  moreover have "fold (memory_mark_reachable st) (r # rs) ns = fold (memory_mark_reachable st) rs ?ns" by simp
  moreover have "reach_from st ?ns (set rs) = reach_from st ns (set rs)" by (rule mark_reachable_simps)
  ultimately show ?case using ih mr by (metis Un_assoc order_trans)
qed simp

definition held_values :: "(nat \<rightharpoonup> stored) \<Rightarrow> BreadObjectNode list \<Rightarrow> nat" where
  "held_values st ns = sum_list (map (\<lambda>n. length (values_at st (nobject n))) ns)"

definition clear_marks :: "BreadObjectNode list \<Rightarrow> BreadObjectNode list" where
  "clear_marks ns = map (\<lambda>n. n\<lparr>nmarked := False\<rparr>) ns"

lemma clear_marks_objects [simp]: "map nobject (clear_marks ns) = map nobject ns"
  by (simp add: clear_marks_def)

lemma clear_marks_simps [simp]:
  "marked_set (clear_marks ns) = {}" "tracked (clear_marks ns) = tracked ns"
  "nodes_ok (clear_marks ns) = nodes_ok ns" "points_to st (clear_marks ns) = points_to st ns"
  "reach_from st (clear_marks ns) R = reach_from st ns R"
  "pending_refs st (clear_marks ns) = held_values st ns"
  using objects_eq [OF clear_marks_objects] points_to_cong [OF clear_marks_objects]
    reach_from_cong [OF clear_marks_objects]
  by (auto simp: marked_set_def clear_marks_def pending_refs_def held_values_def comp_def)

definition counted :: "(nat \<rightharpoonup> stored) \<Rightarrow> nat set" where
  "counted st = {a. refcount_at st a \<noteq> 0}"

lemma mark_roots_objects [simp]: "map nobject (mark_roots st roots ns) = map nobject ns"
  by (simp add: mark_roots_def comp_def)

lemma mark_roots_exact:
  assumes "nodes_ok ns" "held_values st ns < BREAD_MAX_STACK_DEPTH"
  shows "marked_set (mark_roots st roots ns) = reach_from st ns (counted st \<union> set roots)"
proof -
  let ?rs = "filter (\<lambda>a. refcount_at st a > 0) (map nobject ns)"
  let ?ns = "fold (memory_mark_reachable st) ?rs (clear_marks ns)"
  have obj: "map nobject ?ns = map nobject ns" by simp
  have one: "marked_set ?ns = reach_from st ns (set ?rs)" "pending_refs st ?ns < BREAD_MAX_STACK_DEPTH"
    using mark_all_exact [of "clear_marks ns" st ?rs] assms by auto
  then have "marked_set (fold (memory_mark_reachable st) roots ?ns) =
      reach_from st ns (set ?rs) \<union> reach_from st ns (set roots)"
    using mark_all_exact [of ?ns st roots] assms(1) objects_eq [OF obj] points_to_cong [OF obj]
      reach_from_cong [OF obj] reach_from_closed by auto
  moreover have "set ?rs \<inter> tracked ns = counted st \<inter> tracked ns"
    by (auto simp: counted_def tracked_def word_neq_0_conv)
  then have "reach_from st ns (set ?rs) = reach_from st ns (counted st)" by (simp add: reach_from_def)
  moreover have "mark_roots st roots ns = fold (memory_mark_reachable st) roots ?ns"
    by (simp add: mark_roots_def clear_marks_def)
  ultimately show ?thesis by simp
qed

lemma mark_roots_counted:
  assumes "nodes_ok ns"
  shows "(counted st \<union> set roots) \<inter> tracked ns \<subseteq> marked_set (mark_roots st roots ns)"
proof -
  let ?rs = "filter (\<lambda>a. refcount_at st a > 0) (map nobject ns)"
  let ?ns = "fold (memory_mark_reachable st) ?rs (clear_marks ns)"
  have obj: "map nobject ?ns = map nobject ns" by simp
  have eq: "mark_roots st roots ns = fold (memory_mark_reachable st) roots ?ns"
    by (simp add: mark_roots_def clear_marks_def)
  have "set ?rs \<inter> tracked ns \<subseteq> marked_set ?ns"
    using mark_all_roots [of "clear_marks ns" ?rs st] assms by simp
  moreover have "marked_set ?ns \<union> (set roots \<inter> tracked ns) \<subseteq>
      marked_set (fold (memory_mark_reachable st) roots ?ns)"
    using mark_all_roots [of ?ns roots st] assms objects_eq [OF obj] by simp
  moreover have "counted st \<inter> tracked ns \<subseteq> set ?rs \<inter> tracked ns"
    by (auto simp: counted_def tracked_def word_neq_0_conv)
  ultimately show ?thesis unfolding eq by blast
qed


section \<open>Sweeping\<close>

definition dead_node :: "(nat \<rightharpoonup> stored) \<Rightarrow> BreadObjectNode \<Rightarrow> bool" where
  "dead_node st n \<longleftrightarrow> \<not> nmarked n \<and> refcount_at st (nobject n) = 0"

lemma dead_node_upd [simp]: "nobject n \<noteq> a \<Longrightarrow> dead_node (st(a := x)) n = dead_node st n"
  by (simp add: dead_node_def refcount_at_def)

lemma sweep_nodes_step:
  "sweep_nodes (n # ns) m =
     (if dead_node (storage m) n
      then sweep_nodes ns (m\<lparr>small_pool := snd (bread_pool_free (Some (nobject n)) (small_pool m)),
          storage := (storage m)(nobject n := None), stats := note_freed (nsize n) (stats m)\<rparr>)
      else (n # fst (sweep_nodes ns m), snd (sweep_nodes ns m)))"
  by (simp add: dead_node_def split_beta)

lemmas sweep_simps = sweep_nodes.simps(1) sweep_nodes_step

lemma dead_others:
  "a \<notin> tracked ns \<Longrightarrow> filter (dead_node (st(a := x))) ns = filter (dead_node st) ns"
  "a \<notin> tracked ns \<Longrightarrow> filter (\<lambda>n. \<not> dead_node (st(a := x)) n) ns = filter (\<lambda>n. \<not> dead_node st n) ns"
  by (induction ns) auto

lemma sweep_kept: "nodes_ok ns \<Longrightarrow> fst (sweep_nodes ns m) = filter (\<lambda>n. \<not> dead_node (storage m) n) ns"
proof (induction ns arbitrary: m)
  case (Cons n ns)
  then show ?case by (simp add: sweep_nodes_step dead_others del: sweep_nodes.simps)
qed simp

lemma sweep_storage:
  "nodes_ok ns \<Longrightarrow> storage (snd (sweep_nodes ns m)) =
     (\<lambda>a. if a \<in> tracked (filter (dead_node (storage m)) ns) then None else storage m a)"
proof (induction ns arbitrary: m)
  case (Cons n ns)
  then show ?case by (auto simp: sweep_nodes_step dead_others fun_eq_iff simp del: sweep_nodes.simps)
qed simp

lemma sweep_rest [simp]:
  "all_objects (snd (sweep_nodes ns m)) = all_objects m"
  "gc_roots (snd (sweep_nodes ns m)) = gc_roots m"
  "cycle_collection_enabled (snd (sweep_nodes ns m)) = cycle_collection_enabled m"
  "g_mem_initialized (snd (sweep_nodes ns m)) = g_mem_initialized m"
  "gc_root_capacity (snd (sweep_nodes ns m)) = gc_root_capacity m"
  by (induction ns arbitrary: m) (simp_all add: sweep_nodes_step del: sweep_nodes.simps(2))

text \<open>The collection as marking followed by a filter.\<close>

definition after_marking :: "BreadMemoryManager \<Rightarrow> BreadObjectNode list" where
  "after_marking m = mark_roots (storage m) (gc_roots m) (all_objects m)"

definition swept :: "BreadMemoryManager \<Rightarrow> BreadMemoryManager" where
  "swept m = snd (sweep_nodes (after_marking m) (m\<lparr>all_objects := after_marking m\<rparr>))"

lemma after_marking_objects [simp]: "map nobject (after_marking m) = map nobject (all_objects m)"
  by (simp add: after_marking_def)

lemma after_marking_simps [simp]:
  "tracked (after_marking m) = tracked (all_objects m)" "nodes_ok (after_marking m) = nodes_ok (all_objects m)"
  using objects_eq [OF after_marking_objects] by auto

lemma ensure_init_id [simp]: "g_mem_initialized m \<Longrightarrow> memory_ensure_init m = m"
  by (simp add: memory_ensure_init_def)

lemma collect_as_sweep:
  assumes "g_mem_initialized m" "nodes_ok (all_objects m)" "cycle_collection_enabled m"
  shows "all_objects (memory_collect_cycles m) = filter (\<lambda>n. \<not> dead_node (storage m) n) (after_marking m)"
    "storage (memory_collect_cycles m) = storage (swept m)"
    "small_pool (memory_collect_cycles m) = small_pool (swept m)"
    "stats (memory_collect_cycles m) = stats (swept m)"
    "gc_roots (memory_collect_cycles m) = gc_roots m"
    "g_mem_initialized (memory_collect_cycles m)"
    "gc_root_capacity (memory_collect_cycles m) = gc_root_capacity m"
  using assms sweep_kept [of "after_marking m" "m\<lparr>all_objects := after_marking m\<rparr>"]
  by (simp_all add: memory_collect_cycles_def memory_sweep_unreachable_def Let_def split_beta swept_def
      flip: after_marking_def)

lemma collect_off: "g_mem_initialized m \<Longrightarrow> \<not> cycle_collection_enabled m \<Longrightarrow> memory_collect_cycles m = m"
  by (simp add: memory_collect_cycles_def)

lemma kept_tracked:
  "nodes_ok ns \<Longrightarrow>
   tracked (filter (\<lambda>n. \<not> dead_node st n) ns) = marked_set ns \<union> (tracked ns \<inter> counted st) \<and>
   tracked (filter (dead_node st) ns) = tracked ns - marked_set ns - counted st"
proof (induction ns)
  case (Cons n ns)
  then show ?case using marked_tracked [of ns] by (auto simp: dead_node_def counted_def)
qed simp

section \<open>What an object holds\<close>

text \<open>The values in an object, read off its layout and not off the code that visits them.\<close>

inductive object_holds :: "body \<Rightarrow> val \<Rightarrow> bool" where
  array_item: "v \<in> set (items a) \<Longrightarrow> object_holds (BArray a) v"
| dict_key: "e \<in> set (entries d) \<Longrightarrow> is_occupied e \<Longrightarrow> \<not> is_deleted e \<Longrightarrow> object_holds (BDict d) (dkey e)"
| dict_value: "e \<in> set (entries d) \<Longrightarrow> is_occupied e \<Longrightarrow> \<not> is_deleted e \<Longrightarrow> object_holds (BDict d) (dvalue e)"
| optional_value: "object_holds (BOptional (Some v)) v"
| struct_field: "(n, v) \<in> set (sfields s) \<Longrightarrow> object_holds (BStruct s) v"
| class_field: "(n', v) \<in> set (cfields c) \<Longrightarrow> object_holds (BClass c) v"

inductive_simps object_holds_simps [simp]:
  "object_holds (BString s) v" "object_holds (BArray a) v" "object_holds (BDict d) v"
  "object_holds (BOptional w) v" "object_holds (BStruct s) v" "object_holds (BClass c) v"

definition refers_to :: "val \<Rightarrow> nat \<Rightarrow> bool" where
  "refers_to v c \<longleftrightarrow> v \<in> {VString (Some c), VArray (Some c), VDict (Some c), VOptional (Some c),
     VStruct (Some c), VClass (Some c)}"

fun value_slots :: "body \<Rightarrow> nat" where
  \<comment> \<open>how many values an object holds\<close>
  "value_slots (BString s) = 0"
| "value_slots (BArray a) = length (items a)"
| "value_slots (BDict d) = 2 * length (filter (\<lambda>e. is_occupied e \<and> \<not> is_deleted e) (entries d))"
| "value_slots (BOptional v) = (if v = None then 0 else 1)"
| "value_slots (BStruct s) = length (sfields s)"
| "value_slots (BClass c) = length (cfields c)"

inductive describes :: "BreadObjKind \<Rightarrow> body \<Rightarrow> bool" where
  \<comment> \<open>the kind in the header is that of the object\<close>
  "describes BREAD_OBJ_STRING (BString s)" | "describes BREAD_OBJ_ARRAY (BArray a)"
| "describes BREAD_OBJ_DICT (BDict d)" | "describes BREAD_OBJ_OPTIONAL (BOptional v)"
| "describes BREAD_OBJ_STRUCT (BStruct t)" | "describes BREAD_OBJ_CLASS (BClass c)"

definition headers_ok :: "(nat \<rightharpoonup> stored) \<Rightarrow> bool" where
  "headers_ok st \<longleftrightarrow> (\<forall>a ob b. st a = Some ob \<longrightarrow> contents ob = Some b \<longrightarrow> describes (hdr_kind ob) b)"

definition object_edges :: "(nat \<rightharpoonup> stored) \<Rightarrow> (nat \<times> nat) set" where
  "object_edges st = {(a, c). \<exists>ob b v. st a = Some ob \<and> contents ob = Some b \<and> object_holds b v \<and> refers_to v c}"

definition starting_points :: "BreadMemoryManager \<Rightarrow> nat set" where
  \<comment> \<open>objects with a count, and the registered roots\<close>
  "starting_points m = {a. \<exists>ob. storage m a = Some ob \<and> hdr_refcount ob \<noteq> 0} \<union> set (gc_roots m)"

definition reachable_objects :: "BreadMemoryManager \<Rightarrow> nat set" where
  \<comment> \<open>the tracked objects to which a path of references between tracked objects leads\<close>
  "reachable_objects m =
     (let T = nobject ` set (all_objects m) in (object_edges (storage m) \<inter> T \<times> T)\<^sup>* `` (starting_points m \<inter> T))"

definition values_held :: "BreadMemoryManager \<Rightarrow> nat" where
  "values_held m = sum_list (map (\<lambda>n. case storage m (nobject n) of None \<Rightarrow> 0
     | Some ob \<Rightarrow> (case contents ob of None \<Rightarrow> 0 | Some b \<Rightarrow> value_slots b)) (all_objects m))"

lemma refers_ref_of: "refers_to v c \<longleftrightarrow> ref_of v = Some c"
  by (cases v) (auto simp: refers_to_def)

lemma children_held: "set (children b) = {v. object_holds b v}" "length (children b) = value_slots b"
proof -
  show "set (children b) = {v. object_holds b v}"
    by (cases b) (force simp: live_entry_def split: option.splits)+
  have "length (concat (map (\<lambda>e. [dkey e, dvalue e]) es)) = 2 * length es" for es :: "dentry list"
    by (induction es) auto
  then show "length (children b) = value_slots b"
    by (cases b) (simp_all add: live_entry_def [abs_def] split: option.splits)
qed

lemma describes_kind: "describes k b \<Longrightarrow> k = body_kind b"
  by (induction rule: describes.induct) simp_all

lemma marked_held:
  assumes "headers_ok st" "st a = Some ob"
  shows "set (values_at st a) = {v. \<exists>b. contents ob = Some b \<and> object_holds b v}"
    "length (values_at st a) = (case contents ob of None \<Rightarrow> 0 | Some b \<Rightarrow> value_slots b)"
proof -
  have "set (values_at st a) = {v. \<exists>b. contents ob = Some b \<and> object_holds b v} \<and>
    length (values_at st a) = (case contents ob of None \<Rightarrow> 0 | Some b \<Rightarrow> value_slots b)"
  proof (cases "contents ob")
    case (Some b)
    then have "hdr_kind ob = body_kind b" using assms describes_kind by (auto simp: headers_ok_def)
    with Some assms(2) children_held [of b] show ?thesis by (simp add: values_at_def marked_values_def)
  qed (simp add: assms(2) values_at_def marked_values_def)
  then show "set (values_at st a) = {v. \<exists>b. contents ob = Some b \<and> object_holds b v}"
    "length (values_at st a) = (case contents ob of None \<Rightarrow> 0 | Some b \<Rightarrow> value_slots b)" by blast+
qed

lemma spec_edges:
  assumes "headers_ok st"
  shows "points_to st ns = object_edges st \<inter> tracked ns \<times> tracked ns"
proof -
  have "c \<in> refs_of st a \<longleftrightarrow> (a, c) \<in> object_edges st" for a c
    using marked_held(1) [OF assms, of a]
    by (cases "st a") (auto simp: refs_of_def object_edges_def refers_ref_of values_at_def)
  then show ?thesis by (auto simp: points_to_def)
qed

lemma spec_reach:
  assumes "headers_ok (storage m)"
  shows "reach_from (storage m) (all_objects m) (counted (storage m) \<union> set (gc_roots m)) = reachable_objects m"
proof -
  have "counted (storage m) \<union> set (gc_roots m) = starting_points m"
    by (auto simp: counted_def starting_points_def refcount_at_def split: option.splits)
  then show ?thesis using spec_edges [OF assms]
    by (simp add: reach_from_def reachable_objects_def tracked_def Let_def)
qed

lemma spec_held: "headers_ok (storage m) \<Longrightarrow> held_values (storage m) (all_objects m) = values_held m"
  using marked_held(2) [of "storage m"]
  by (auto simp: held_values_def values_held_def values_at_def split: option.splits intro!: arg_cong [of _ _ sum_list])

section \<open>The collection as a whole\<close>


definition sample_heap :: BreadMemoryManager where
  \<comment> \<open>an array at 80 with a count, which holds the dictionary at 320, which holds the string at 160;
    the string at 240 is held by nobody\<close>
  "sample_heap = (let node = (\<lambda>a k. \<lparr>nobject = a, nsize = 24, nkind = k, nmarked = False\<rparr>);
       str = (\<lambda>s. \<lparr>hdr_kind = BREAD_OBJ_STRING, hdr_refcount = 0,
          contents = Some (BString \<lparr>sdata = s, interned = False\<rparr>)\<rparr>)
     in (memory_start error_state0)
      \<lparr>all_objects := [node 240 BREAD_OBJ_STRING, node 160 BREAD_OBJ_STRING, node 320 BREAD_OBJ_DICT, node 80 BREAD_OBJ_ARRAY],
       cycle_collection_enabled := True,
       storage := [80 \<mapsto> \<lparr>hdr_kind = BREAD_OBJ_ARRAY, hdr_refcount = 1,
          contents = Some (BArray \<lparr>acapacity = 1, element_type = TYPE_DICT, items = [VDict (Some 320)]\<rparr>)\<rparr>,
         320 \<mapsto> \<lparr>hdr_kind = BREAD_OBJ_DICT, hdr_refcount = 0,
          contents = Some (BDict \<lparr>dcount = 1, key_type = TYPE_INT, value_type = TYPE_STRING,
            entries = [\<lparr>dkey = VInt 1, dvalue = VString (Some 160), is_occupied = True, is_deleted = False\<rparr>]\<rparr>)\<rparr>,
         160 \<mapsto> str ''kept'', 240 \<mapsto> str ''lost'']\<rparr>)"


end
