(* ===== verification/BreadMemoryLaws.thy ===== *)
theory BreadMemoryLaws
  imports BreadCollector
begin

text \<open>
  The memory manager as a whole: the invariant that ties the list of tracked objects, the pool,
  the objects in memory and the statistics together, kept by every operation; runs of the
  manager as a step relation; their refinement of a store of counted objects; and what the
  collector can free in such a run.
\<close>


section \<open>The invariant of the manager\<close>

definition live_objects :: "BreadMemoryManager \<Rightarrow> nat set" where
  "live_objects m = tracked (all_objects m)"

definition counts_ok :: "BreadObjectNode list \<Rightarrow> BreadMemoryStats \<Rightarrow> bool" where
  \<comment> \<open>the statistics say what is tracked\<close>
  "counts_ok ns s \<longleftrightarrow> unat (n_current_objects s) = length ns \<and>
     n_total_allocations s - n_total_deallocations s = n_current_objects s \<and>
     n_bytes_allocated s - n_bytes_freed s = sum_list (map nsize ns)"

definition manager_ok :: "BreadMemoryManager \<Rightarrow> bool" where
  "manager_ok m \<longleftrightarrow> g_mem_initialized m \<and> nodes_ok (all_objects m) \<and> pool_ok (small_pool m) \<and>
     used_blocks (small_pool m) = live_objects m \<inter> pool_region (small_pool m) \<and>
     dom (storage m) = live_objects m \<and> live_objects m \<subseteq> {0 <..< 2 ^ 64} \<and>
     (\<forall>a ob. storage m a = Some ob \<longrightarrow> hdr_refcount ob \<noteq> 0) \<and>
     counts_ok (all_objects m) (stats m)"

definition system_ok :: "system \<Rightarrow> nat set \<Rightarrow> BreadMemoryManager \<Rightarrow> bool" where
  \<comment> \<open>what the C library promises: new memory is apart from the chunks and from the objects,
      but for those \<open>moving\<close>, and a node can be had\<close>
  "system_ok sys moving m \<longleftrightarrow> node_ret sys \<and> chunk_fits (calloc_ret sys) (small_pool m) \<and>
     chunk_extent (calloc_ret sys) \<inter> live_objects m = {} \<and>
     (\<forall>a. malloc_ret sys = Some a \<longrightarrow> 0 < a \<and> a < 2 ^ 64 \<and> a \<notin> pool_region (small_pool m) \<and>
        a \<notin> live_objects m - moving)"

lemma length_tracked: "nodes_ok ns \<Longrightarrow> length ns = card (tracked ns)"
  by (metis distinct_card length_map list.set_map nodes_ok_def tracked_def)

lemma room_for_one:
  assumes "nodes_ok ns" "a \<notin> tracked ns" "insert a (tracked ns) \<subseteq> {0 <..< 2 ^ 64}"
  shows "length ns + 1 < 2 ^ 64"
proof -
  have "card (insert a (tracked ns)) \<le> card {0 <..< (2 ^ 64 :: nat)}"
    by (rule card_mono [OF _ assms(3)]) simp
  with length_tracked [OF assms(1)] assms(2) show ?thesis by simp
qed

lemma counts_track:
  assumes "counts_ok ns s" "length ns + 1 < 2 ^ 64"
  shows "counts_ok (\<lparr>nobject = a, nsize = sz, nkind = kd, nmarked = False\<rparr> # ns)
    (s\<lparr>n_bytes_allocated := n_bytes_allocated s + sz, n_total_allocations := n_total_allocations s + 1,
       n_current_objects := n_current_objects s + 1, n_peak_objects := p\<rparr>)"
proof -
  have "unat (n_current_objects s + 1) = unat (n_current_objects s) + 1"
    using assms by (simp add: counts_ok_def unat_word_ariths)
  then show ?thesis using assms(1) by (auto simp: counts_ok_def algebra_simps)
qed

lemma counts_untrack:
  assumes "counts_ok ns s" "unlink_node a ns = Some (dead, rest)"
  shows "counts_ok rest (note_freed (nsize dead) s)"
proof -
  have un: "length ns = length rest + 1 \<and> sum_list (map nsize ns) = nsize dead + sum_list (map nsize rest)"
    using assms(2) by (induction ns arbitrary: rest) (auto split: if_splits)
  then have "n_current_objects s \<noteq> 0" using assms(1) by (auto simp: counts_ok_def)
  moreover from this have "unat (n_current_objects s - 1) = unat (n_current_objects s) - 1"
    by (simp add: unat_minus_one)
  ultimately show ?thesis using assms(1) un by (auto simp: counts_ok_def note_freed_def word_neq_0_conv algebra_simps)
qed

lemma unlink_facts:
  assumes "unlink_node a ns = Some (dead, rest)" "nodes_ok ns"
  shows "nodes_ok rest" "tracked rest = tracked ns - {a}" "a \<in> tracked ns" "nobject dead = a"
proof -
  have "nodes_ok rest \<and> tracked rest = tracked ns - {a} \<and> a \<in> tracked ns \<and> nobject dead = a"
    using assms by (induction ns arbitrary: rest) (auto split: if_splits)
  then show "nodes_ok rest" "tracked rest = tracked ns - {a}" "a \<in> tracked ns" "nobject dead = a" by auto
qed

lemma unlink_None [simp]: "unlink_node a ns = None \<longleftrightarrow> a \<notin> tracked ns"
  by (induction ns) auto

section \<open>Each operation keeps it\<close>

lemma start_ok: "manager_ok (memory_start e)"
  by (simp add: manager_ok_def memory_start_def memory_ensure_init_def empty_pool_def pool_ok_def
      used_blocks_def live_objects_def counts_ok_def zero_stats_def)

lemma place_object_ok:
  assumes "manager_ok m" "a \<notin> live_objects m" "0 < a" "a < 2 ^ 64" "node_ret sys"
    "pool_ok q" "used_blocks q = insert a (live_objects m) \<inter> pool_region q"
  shows "manager_ok (place_object sys a sz kd (m\<lparr>small_pool := q\<rparr>))"
proof -
  have m: "nodes_ok (all_objects m)" "live_objects m \<subseteq> {0 <..< 2 ^ 64}" "counts_ok (all_objects m) (stats m)"
    using assms(1) by (auto simp: manager_ok_def)
  have "length (all_objects m) + 1 < 2 ^ 64"
    using room_for_one [OF m(1)] assms(2-4) m(2) by (simp add: live_objects_def)
  note ct = counts_track [OF m(3) this]
  let ?m = "place_object sys a sz kd (m\<lparr>small_pool := q\<rparr>)"
  have ao: "all_objects ?m = \<lparr>nobject = a, nsize = sz, nkind = kd, nmarked = False\<rparr> # all_objects m"
    and sp: "small_pool ?m = q" and gi: "g_mem_initialized ?m = g_mem_initialized m"
    and st: "storage ?m = (storage m)(a \<mapsto> \<lparr>hdr_kind = kd, hdr_refcount = 1, contents = None\<rparr>)"
    using assms(5) by (simp_all add: place_object_def track_object_internal_def Let_def)
  have "counts_ok (all_objects ?m) (stats ?m)"
    using assms(5) ct [of a sz kd] by (simp add: ao) (simp add: place_object_def track_object_internal_def Let_def)
  moreover have "live_objects ?m = insert a (live_objects m)" by (simp add: live_objects_def ao)
  ultimately show ?thesis
    using assms m(1) by (auto simp: manager_ok_def sp gi st ao) (auto simp: live_objects_def)
qed

lemma manager_free_ok:
  assumes "manager_ok m" "a \<in> live_objects m" "memory_free (Some a) m = Done m'"
  shows "manager_ok m' \<and> live_objects m' = live_objects m - {a}"
proof -
  obtain dead rest where un: "unlink_node a (all_objects m) = Some (dead, rest)"
    using assms(2) by (cases "unlink_node a (all_objects m)") (auto simp: live_objects_def)
  have ok: "nodes_ok (all_objects m)" "pool_ok (small_pool m)" "counts_ok (all_objects m) (stats m)"
    "used_blocks (small_pool m) = live_objects m \<inter> pool_region (small_pool m)"
    using assms(1) by (auto simp: manager_ok_def)
  obtain pooled q where pf: "bread_pool_free (Some a) (small_pool m) = (pooled, q)" by fastforce
  note q = pool.free_live [OF ok(2,4) assms(2) pf]
  have m': "m' = m\<lparr>all_objects := rest, stats := note_freed (nsize dead) (stats m), small_pool := q,
      storage := (storage m)(a := None)\<rparr>"
    using assms(3) un pf by (simp add: memory_free_def untrack_object_internal_def Let_def split: if_splits)
  note uf = unlink_facts [OF un ok(1)]
  have lv: "live_objects m' = live_objects m - {a}" by (simp add: m' live_objects_def uf)
  show ?thesis
    using assms(1) q uf(1) counts_untrack [OF ok(3) un] lv
    by (auto simp: manager_ok_def m' split: if_splits)
qed

lemma contents_ok:
  assumes "manager_ok m" "storage m a = Some ob" "hdr_refcount ob' \<noteq> 0"
  shows "manager_ok (m\<lparr>storage := (storage m)(a \<mapsto> ob')\<rparr>)"
  using assms by (auto simp: manager_ok_def live_objects_def split: if_splits)

lemma live_storage: "manager_ok m \<Longrightarrow> storage m a = Some ob \<Longrightarrow> a \<in> live_objects m"
  by (auto simp: manager_ok_def)

lemma live_stored: "manager_ok m \<Longrightarrow> a \<in> live_objects m \<Longrightarrow> \<exists>ob. storage m a = Some ob"
  unfolding manager_ok_def by blast

lemma below_top: "w \<noteq> - 1 \<Longrightarrow> unat (w :: 32 word) < 2 ^ 32 - 1"
proof -
  assume "w \<noteq> - 1"
  then have "unat w \<noteq> unat (- 1 :: 32 word)" by (metis unsigned_word_eqI)
  moreover have "unat w < 2 ^ 32" using unsigned_less [of w] by simp
  moreover have "unat (- 1 :: 32 word) = 2 ^ 32 - 1" by (simp add: unsigned_minus_1_eq_mask mask_eq_exp_minus_1)
  ultimately show "unat w < 2 ^ 32 - 1" by linarith
qed

lemma manager_retain_ok: "manager_ok m \<Longrightarrow> object_retain ptr m = Done m' \<Longrightarrow> manager_ok m'"
  by (auto simp: object_retain_def split: option.splits if_splits intro!: contents_ok)
    (metis add.commute add_left_cancel diff_add_cancel eq_neg_iff_add_eq_0)

lemma free_storage_upd:
  "storage m a \<noteq> None \<Longrightarrow>
   memory_free (Some a) (m\<lparr>storage := (storage m)(a \<mapsto> ob)\<rparr>) = memory_free (Some a) m"
  by (cases "unlink_node a (all_objects m)")
    (auto simp: memory_free_def untrack_object_internal_def simp del: unlink_None split: prod.splits)

lemma manager_release_ok:
  assumes "manager_ok m" "object_release ptr m = Done m'"
  shows "manager_ok m'"
proof (cases ptr)
  case None
  with assms show ?thesis by (simp add: object_release_def)
next
  case (Some a)
  then obtain ob where ob: "storage m a = Some ob"
    using assms(2) by (auto simp: object_release_def split: option.splits)
  show ?thesis
  proof (cases "hdr_refcount ob - 1 = 0")
    case True
    with assms(2) Some ob have "memory_free (Some a) m = Done m'"
      by (auto simp: object_release_def free_storage_upd Let_def split: if_splits)
    with manager_free_ok [OF assms(1) live_storage [OF assms(1) ob]] show ?thesis by simp
  next
    case False
    with assms Some ob show ?thesis
      by (auto simp: object_release_def Let_def split: if_splits intro!: contents_ok)
  qed
qed


lemma pool_region_range: "pool_ok q \<Longrightarrow> pool_region q \<subseteq> {0 <..< 2 ^ 64}"
  using pool_okD by (fastforce simp: pool_region_def chunk_region_def chunk_ok_def)

lemma chunk_fits_cong: "pool_region p = pool_region q \<Longrightarrow> chunk_fits c p = chunk_fits c q"
  by (simp add: chunk_fits_def)

text \<open>A new place for an object, when the objects in \<open>moving\<close> have already left the pool.\<close>

lemma get_space_ok:
  assumes "system_ok sys moving m" "pool_ok q" "pool_region q = pool_region (small_pool m)"
    "used_blocks q = (live_objects m - moving) \<inter> pool_region q" "get_space sys sz q = (Some a, q')"
  shows "pool_ok q'" "0 < a" "a < 2 ^ 64" "a \<notin> live_objects m - moving"
    "used_blocks q' = insert a (live_objects m - moving) \<inter> pool_region q'"
proof -
  have s: "chunk_fits (calloc_ret sys) q" "chunk_extent (calloc_ret sys) \<inter> (live_objects m - moving) = {}"
    using assms(1) chunk_fits_cong [OF assms(3)] by (auto simp: system_ok_def)
  obtain ret q1 where al: "bread_pool_alloc (calloc_ret sys) q = (ret, q1)" by fastforce
  note fresh = pool.alloc_fresh [OF assms(2) s(1) assms(4) s(2)]
  have "pool_ok q' \<and> 0 < a \<and> a < 2 ^ 64 \<and> a \<notin> live_objects m - moving \<and>
    used_blocks q' = insert a (live_objects m - moving) \<inter> pool_region q'"
  proof (cases "sz \<le> 64 \<and> ret \<noteq> None")
    case True
    then have al': "bread_pool_alloc (calloc_ret sys) q = (Some a, q')"
      using assms(5) al by (auto simp: get_space_def pool_consts)
    from pool_region_range [OF fresh(1) [OF al']] fresh(6) [OF al'] have "0 < a" "a < 2 ^ 64" by auto
    with fresh(1-3) [OF al'] show ?thesis by simp
  next
    case False
    have mr: "malloc_ret sys = Some a \<and> q' = q"
    proof (cases "sz \<le> 64")
      case True
      with False have "bread_pool_alloc (calloc_ret sys) q = (None, q1)" using al by simp
      with pool.alloc_refused [OF assms(2) s(1)] assms(5) True show ?thesis
        by (simp add: get_space_def pool_consts)
    next
      case False
      with assms(5) show ?thesis by (simp add: get_space_def pool_consts)
    qed
    then have "0 < a" "a < 2 ^ 64" "a \<notin> live_objects m - moving" "a \<notin> pool_region q"
      using assms(1) unfolding system_ok_def assms(3) by blast+
    moreover from this have "used_blocks q = insert a (live_objects m - moving) \<inter> pool_region q"
      using assms(4) by simp
    ultimately show ?thesis using mr assms(2) by blast
  qed
  then show "pool_ok q'" "0 < a" "a < 2 ^ 64" "a \<notin> live_objects m - moving"
    "used_blocks q' = insert a (live_objects m - moving) \<inter> pool_region q'" by auto
qed

lemma move_tracked:
  "nodes_ok ns \<Longrightarrow> p \<in> tracked ns \<Longrightarrow> tracked (move_node p a sz ns) = insert a (tracked ns - {p})"
proof (induction ns)
  case (Cons x xs)
  then show ?case by (cases "nobject x = p") auto
qed simp

lemma move_nodes_ok:
  "nodes_ok ns \<Longrightarrow> p \<in> tracked ns \<Longrightarrow> a \<notin> tracked ns - {p} \<Longrightarrow> nodes_ok (move_node p a sz ns)"
proof (induction ns)
  case (Cons x xs)
  show ?case
  proof (cases "nobject x = p")
    case True
    with Cons.prems have "a \<notin> tracked xs" by auto
    with True Cons.prems show ?thesis by simp
  next
    case False
    with Cons.prems have p: "nodes_ok xs" "p \<in> tracked xs" "a \<notin> tracked xs - {p}" "a \<noteq> nobject x"
      "nobject x \<notin> tracked xs" by auto
    with Cons.IH [OF p(1-3)] move_tracked [OF p(1,2), of a sz] False show ?thesis by simp
  qed
qed simp

lemma move_facts:
  assumes "memory_find_node p ns = Some n" "nodes_ok ns" "a \<notin> tracked ns - {p}"
  shows "nodes_ok (move_node p a sz ns)" "tracked (move_node p a sz ns) = insert a (tracked ns - {p})"
    "length (move_node p a sz ns) = length ns"
    "sum_list (map nsize (move_node p a sz ns)) = sum_list (map nsize ns) - nsize n + sz"
proof -
  have p: "p \<in> tracked ns" using find_node_marked [OF assms(2,1)] by simp
  show "nodes_ok (move_node p a sz ns)" "tracked (move_node p a sz ns) = insert a (tracked ns - {p})"
    using move_nodes_ok [OF assms(2) p assms(3)] move_tracked [OF assms(2) p] by blast+
  show "length (move_node p a sz ns) = length ns" by (induction ns) auto
  show "sum_list (map nsize (move_node p a sz ns)) = sum_list (map nsize ns) - nsize n + sz"
    using assms(1) by (induction ns) (auto simp: algebra_simps)
qed

lemma resize_counts:
  "counts_ok ns s \<Longrightarrow> length ns' = length ns \<Longrightarrow>
   sum_list (map nsize ns') = sum_list (map nsize ns) - old + new \<Longrightarrow> counts_ok ns' (resize_stats old new s)"
  by (auto simp: counts_ok_def resize_stats_def algebra_simps)

lemma realloc_ok:
  assumes "manager_ok m" "system_ok sys {p} m" "memory_realloc fb sys (Some p) sz m = Done (a, m')"
    "\<forall>k ob. hdr_refcount (fb k ob) = hdr_refcount ob"
  shows "manager_ok m' \<and> live_objects m' = insert a (live_objects m - {p}) \<and> a \<notin> live_objects m - {p}"
proof -
  have ok: "g_mem_initialized m" "nodes_ok (all_objects m)" "pool_ok (small_pool m)"
    "counts_ok (all_objects m) (stats m)" "dom (storage m) = live_objects m"
    "used_blocks (small_pool m) = live_objects m \<inter> pool_region (small_pool m)"
    "live_objects m \<subseteq> {0 <..< 2 ^ 64}" "\<forall>a ob. storage m a = Some ob \<longrightarrow> hdr_refcount ob \<noteq> 0"
    using assms(1) by (auto simp: manager_ok_def)
  obtain ob where ob: "storage m p = Some ob"
    using assms(3) ok(1) by (auto simp: memory_realloc_def split: option.splits)
  have pl: "p \<in> live_objects m" using ob ok(5) by auto
  then obtain n where n: "memory_find_node p (all_objects m) = Some n"
    by (cases "memory_find_node p (all_objects m)") (auto simp: live_objects_def)
  obtain freed q where pf: "bread_pool_free (Some p) (small_pool m) = (freed, q)" by fastforce
  note q = pool.free_live [OF ok(3,6) pl pf]
  obtain q' k bs where gs: "get_space sys sz q = (Some a, q')"
    and m': "m' = m\<lparr>small_pool := q', storage := (storage m)(p := None, a \<mapsto> fb k ob),
      bytes_since_gc := bs, stats := resize_stats (nsize n) sz (stats m),
      all_objects := move_node p a sz (all_objects m)\<rparr>"
    using assms(3) ok(1) ob n pf by (auto simp: memory_realloc_def Let_def split: prod.splits option.splits)
  note g = get_space_ok [OF assms(2) q(1,3,2) gs]
  have "a \<notin> tracked (all_objects m) - {p}" using g(4) by (simp add: live_objects_def)
  note mv = move_facts [OF n ok(2) this, of sz]
  have f: "all_objects m' = move_node p a sz (all_objects m)" "small_pool m' = q'"
    "storage m' = (storage m)(p := None, a \<mapsto> fb k ob)" "stats m' = resize_stats (nsize n) sz (stats m)"
    "g_mem_initialized m'"
    by (simp_all add: m' ok(1))
  have lv: "live_objects m' = insert a (live_objects m - {p})" by (simp add: live_objects_def f mv)
  have "counts_ok (all_objects m') (stats m')"
    unfolding f by (rule resize_counts [OF ok(4) mv(3,4)])
  moreover have "dom (storage m') = live_objects m'" by (simp add: f ok(5) lv)
  moreover have "hdr_refcount ob' \<noteq> 0" if "storage m' b = Some ob'" for b ob'
    using ob ok(8) assms(4) that by (auto simp: f split: if_splits)
  ultimately show ?thesis using g ok(7) lv f mv(1) by (auto simp: manager_ok_def)
qed


section \<open>Collection when every object has a count\<close>

lemma clear_mark_node [simp]: "clear_marks (mark_node a ns) = clear_marks ns"
  by (induction ns) (auto simp: clear_marks_def)

lemma clear_mark_loop [simp]: "clear_marks (mark_loop st ns stack) = clear_marks ns"
  by (induction st ns stack rule: mark_loop.induct) (auto simp: Let_def mark_loop.simps split: option.splits)

lemma clear_mark_reachable [simp]: "clear_marks (memory_mark_reachable st r ns) = clear_marks ns"
  by (auto simp: memory_mark_reachable_def split: option.splits)

lemma clear_mark_all [simp]: "clear_marks (fold (memory_mark_reachable st) rs ns) = clear_marks ns"
  by (induction rs arbitrary: ns) auto

lemma clear_clear [simp]: "clear_marks (clear_marks ns) = clear_marks ns"
  by (simp add: clear_marks_def)

lemma clear_after_marking [simp]: "clear_marks (after_marking m) = clear_marks (all_objects m)"
  by (simp add: after_marking_def mark_roots_def flip: clear_marks_def)

lemma clear_sizes:
  assumes "clear_marks ns = clear_marks ns'"
  shows "map nsize ns = map nsize ns'" "length ns = length ns'"
proof -
  have "map nsize (clear_marks xs) = map nsize xs" "length (clear_marks xs) = length xs" for xs
    by (simp_all add: clear_marks_def)
  with assms show "map nsize ns = map nsize ns'" "length ns = length ns'" by metis+
qed

lemma sweep_nothing: "\<forall>n \<in> set ns. \<not> dead_node (storage m) n \<Longrightarrow> sweep_nodes ns m = (ns, m)"
  by (induction ns) (auto simp: sweep_nodes_step simp del: sweep_nodes.simps(2) intro: prod_eqI)

lemma counted_alive:
  assumes "manager_ok m" "n \<in> set ns" "map nobject ns = map nobject (all_objects m)"
  shows "\<not> dead_node (storage m) n"
proof -
  have "nobject n \<in> live_objects m"
    using assms(2) objects_eq(1) [OF assms(3)] by (auto simp: live_objects_def tracked_def)
  moreover have "dom (storage m) = live_objects m" using assms(1) by (simp add: manager_ok_def)
  ultimately obtain ob where ob: "storage m (nobject n) = Some ob" by blast
  moreover from this have "hdr_refcount ob \<noteq> 0" using assms(1) unfolding manager_ok_def by blast
  ultimately show ?thesis by (simp add: dead_node_def refcount_at_def)
qed

lemma swept_same:
  assumes "manager_ok m"
  shows "swept m = m\<lparr>all_objects := after_marking m\<rparr>"
proof -
  have "\<forall>n \<in> set (after_marking m). \<not> dead_node (storage (m\<lparr>all_objects := after_marking m\<rparr>)) n"
    using counted_alive [OF assms _ after_marking_objects] by simp
  from sweep_nothing [OF this] show ?thesis by (simp add: swept_def)
qed

lemma collect_same:
  assumes "manager_ok m"
  shows "clear_marks (all_objects (memory_collect_cycles m)) = clear_marks (all_objects m) \<and>
    storage (memory_collect_cycles m) = storage m \<and> small_pool (memory_collect_cycles m) = small_pool m \<and>
    stats (memory_collect_cycles m) = stats m \<and> g_mem_initialized (memory_collect_cycles m)"
proof (cases "cycle_collection_enabled m")
  case True
  have ok: "g_mem_initialized m" "nodes_ok (all_objects m)" using assms by (auto simp: manager_ok_def)
  have "filter (\<lambda>n. \<not> dead_node (storage m) n) (after_marking m) = after_marking m"
    using counted_alive [OF assms _ after_marking_objects] by simp
  with collect_as_sweep [OF ok True] swept_same [OF assms] show ?thesis by simp
next
  case False
  with assms show ?thesis by (simp add: collect_off manager_ok_def)
qed

lemma manager_ok_cong:
  assumes "manager_ok m" "clear_marks (all_objects m') = clear_marks (all_objects m)" "storage m' = storage m"
    "small_pool m' = small_pool m" "stats m' = stats m" "g_mem_initialized m'"
  shows "manager_ok m'" "live_objects m' = live_objects m"
proof -
  have obj: "map nobject (all_objects m') = map nobject (all_objects m)"
    using assms(2) clear_marks_objects by metis
  show lv: "live_objects m' = live_objects m" by (simp add: live_objects_def objects_eq(1) [OF obj])
  show "manager_ok m'"
    using assms lv objects_eq(2) [OF obj] clear_sizes [OF assms(2)] by (simp add: manager_ok_def counts_ok_def)
qed

lemma collect_ok: "manager_ok m \<Longrightarrow> manager_ok (memory_collect_cycles m)"
  using collect_same [of m] manager_ok_cong(1) [of m "memory_collect_cycles m"] by blast

lemma manager_alloc_ok:
  assumes "manager_ok m" "system_ok sys {} m" "memory_alloc sys sz kd m = Done (a, m')"
  shows "manager_ok m' \<and> a \<notin> live_objects m \<and> 0 < a \<and> live_objects m' = insert a (live_objects m) \<and>
    storage m' = (storage m)(a \<mapsto> \<lparr>hdr_kind = kd, hdr_refcount = 1, contents = None\<rparr>)"
proof -
  have ok: "g_mem_initialized m" "pool_ok (small_pool m)"
    "used_blocks (small_pool m) = (live_objects m - {}) \<inter> pool_region (small_pool m)" "node_ret sys"
    using assms(1,2) by (auto simp: manager_ok_def system_ok_def)
  obtain ptr q where gs: "get_space sys sz (small_pool m) = (ptr, q)" by fastforce
  let ?m = "place_object sys a sz kd (m\<lparr>small_pool := q\<rparr>)"
  have ptr: "ptr = Some a" and m': "m' = (if memory_should_trigger_gc ?m then memory_collect_cycles ?m else ?m)"
    using assms(3) ok(1) gs by (auto simp: memory_alloc_def Let_def split: option.splits)
  note g = get_space_ok [OF assms(2) ok(2) refl ok(3) gs [unfolded ptr]]
  have pm: "manager_ok ?m" using place_object_ok [OF assms(1) _ g(2,3) ok(4) g(1)] g(4,5) by simp
  have lv: "live_objects ?m = insert a (live_objects m)"
    "storage ?m = (storage m)(a \<mapsto> \<lparr>hdr_kind = kd, hdr_refcount = 1, contents = None\<rparr>)"
    using ok(4) by (simp_all add: place_object_def track_object_internal_def Let_def live_objects_def)
  have "live_objects (memory_collect_cycles ?m) = live_objects ?m"
    "storage (memory_collect_cycles ?m) = storage ?m"
    using collect_same [OF pm] manager_ok_cong(2) [OF pm] by blast+
  with m' pm collect_ok [OF pm] lv g(2,4) show ?thesis by simp
qed

section \<open>Runs of the manager\<close>

datatype memory_event =
  \<comment> \<open>a call of the manager, with the address it returns where there is one\<close>
  Allocated system "64 word" BreadObjKind nat
| Reallocated "64 word \<Rightarrow> stored \<Rightarrow> stored" system nat "64 word" nat
| Freed nat
| Retained "nat option"
| Released "nat option"
| Filled nat "body option"
| Collected
| RootAdded bool "nat option"
| RootRemoved "nat option"
| ThresholdSet "32 word"
| AutoSet bool
| BytesSet "64 word"
| DebugSet bool

inductive memory_does :: "memory_event \<Rightarrow> BreadMemoryManager \<Rightarrow> BreadMemoryManager \<Rightarrow> bool" where
  \<comment> \<open>the call returns, with the manager so changed\<close>
  alloc: "system_ok sys {} m \<Longrightarrow> memory_alloc sys sz kd m = Done (a, m') \<Longrightarrow>
    memory_does (Allocated sys sz kd a) m m'"
| realloc: "system_ok sys {p} m \<Longrightarrow> \<forall>k ob. hdr_refcount (fb k ob) = hdr_refcount ob \<Longrightarrow>
    memory_realloc fb sys (Some p) sz m = Done (a, m') \<Longrightarrow> memory_does (Reallocated fb sys p sz a) m m'"
| free: "a \<in> live_objects m \<Longrightarrow> memory_free (Some a) m = Done m' \<Longrightarrow> memory_does (Freed a) m m'"
| retain: "object_retain ptr m = Done m' \<Longrightarrow> memory_does (Retained ptr) m m'"
| release: "object_release ptr m = Done m' \<Longrightarrow> memory_does (Released ptr) m m'"
| fill: "storage m a = Some ob \<Longrightarrow>
    memory_does (Filled a b) m (m\<lparr>storage := (storage m)(a \<mapsto> ob\<lparr>contents := b\<rparr>)\<rparr>)"
| collect: "memory_does Collected m (memory_collect_cycles m)"
| add_root: "memory_does (RootAdded ok r) m (snd (memory_add_root ok r m))"
| remove_root: "memory_does (RootRemoved r) m (memory_remove_root r m)"
| threshold: "memory_does (ThresholdSet t) m (memory_set_cycle_collection_threshold t m)"
| auto_gc: "memory_does (AutoSet on) m (memory_enable_auto_gc on m)"
| bytes: "memory_does (BytesSet b) m (memory_set_bytes_threshold b m)"
| debug: "memory_does (DebugSet on) m (memory_enable_debug_mode on m)"

definition memory_step :: "BreadMemoryManager \<Rightarrow> BreadMemoryManager \<Rightarrow> bool" where
  "memory_step m m' \<longleftrightarrow> (\<exists>ev. memory_does ev m m')"

fun object_effect :: "memory_event \<Rightarrow> (nat \<rightharpoonup> stored) \<Rightarrow> (nat \<rightharpoonup> stored) \<Rightarrow> bool" where
  \<comment> \<open>what the rest of the runtime may rely on: the effect each call must have on the objects\<close>
  "object_effect (Allocated sys sz kd a) st st' \<longleftrightarrow> 0 < a \<and> st a = None \<and>
     st' = st(a \<mapsto> \<lparr>hdr_kind = kd, hdr_refcount = 1, contents = None\<rparr>)"
| "object_effect (Reallocated fb sys p sz a) st st' \<longleftrightarrow> (a = p \<or> st a = None) \<and>
     (\<exists>ob k. st p = Some ob \<and> k \<le> sz \<and> st' = st(p := None, a \<mapsto> fb k ob))"
| "object_effect (Freed a) st st' \<longleftrightarrow> st a \<noteq> None \<and> st' = st(a := None)"
| "object_effect (Retained (Some a)) st st' \<longleftrightarrow> (\<exists>ob. st a = Some ob \<and>
     unat (hdr_refcount ob) < 2 ^ 32 - 1 \<and> st' = st(a \<mapsto> ob\<lparr>hdr_refcount := hdr_refcount ob + 1\<rparr>))"
| "object_effect (Released (Some a)) st st' \<longleftrightarrow> (\<exists>ob. st a = Some ob \<and> 1 \<le> hdr_refcount ob \<and>
     st' = (if hdr_refcount ob = 1 then st(a := None)
       else st(a \<mapsto> ob\<lparr>hdr_refcount := hdr_refcount ob - 1\<rparr>)))"
| "object_effect (Filled a b) st st' \<longleftrightarrow> (\<exists>ob. st a = Some ob \<and> st' = st(a \<mapsto> ob\<lparr>contents := b\<rparr>))"
| "object_effect ev st st' \<longleftrightarrow> st' = st"

lemma memory_stepI: "memory_does ev m m' \<Longrightarrow> memory_step m m'"
  by (auto simp: memory_step_def)

lemma memory_start_init [simp]: "g_mem_initialized (memory_start e)"
  by (simp add: memory_start_def memory_ensure_init_def)

lemma settings_ok:
  assumes "manager_ok m"
  shows "manager_ok (snd (memory_add_root ok r m))" "manager_ok (memory_remove_root r m)"
    "manager_ok (memory_set_cycle_collection_threshold t m)" "manager_ok (memory_enable_auto_gc on m)"
    "manager_ok (memory_set_bytes_threshold b m)" "manager_ok (memory_enable_debug_mode on m)"
  using assms
  by (auto simp: manager_ok_def live_objects_def memory_add_root_def memory_remove_root_def Let_def
      memory_set_cycle_collection_threshold_def memory_enable_auto_gc_def memory_set_bytes_threshold_def
      memory_enable_debug_mode_def split: option.splits)

lemma settings_storage:
  assumes "g_mem_initialized m"
  shows "storage (snd (memory_add_root ok r m)) = storage m" "storage (memory_remove_root r m) = storage m"
    "storage (memory_set_cycle_collection_threshold t m) = storage m"
    "storage (memory_enable_auto_gc on m) = storage m"
    "storage (memory_set_bytes_threshold b m) = storage m" "storage (memory_enable_debug_mode on m) = storage m"
  using assms
  by (auto simp: memory_add_root_def memory_remove_root_def Let_def
      memory_set_cycle_collection_threshold_def memory_enable_auto_gc_def memory_set_bytes_threshold_def
      memory_enable_debug_mode_def split: option.splits)

lemma event_ok: "memory_does ev m m' \<Longrightarrow> manager_ok m \<Longrightarrow> manager_ok m'"
proof (induction rule: memory_does.induct)
  case (fill m a ob b)
  then have "hdr_refcount ob \<noteq> 0" unfolding manager_ok_def by blast
  with fill show ?case by (intro contents_ok) auto
qed (auto dest: manager_alloc_ok realloc_ok manager_free_ok manager_retain_ok manager_release_ok intro: collect_ok settings_ok)

lemma step_ok: "memory_step m m' \<Longrightarrow> manager_ok m \<Longrightarrow> manager_ok m'"
  by (auto simp: memory_step_def intro: event_ok)

lemma run_ok: "memory_step\<^sup>*\<^sup>* (memory_start e) m \<Longrightarrow> manager_ok m"
  by (induction rule: rtranclp_induct) (auto intro: start_ok step_ok)

lemma free_storage: "memory_free (Some a) m = Done m' \<Longrightarrow> storage m' = (storage m)(a := None)"
  by (cases "unlink_node a (all_objects m)")
    (auto simp: memory_free_def untrack_object_internal_def Let_def simp del: unlink_None
      split: prod.splits if_splits)

lemma realloc_storage:
  assumes "g_mem_initialized m" "memory_realloc fb sys (Some p) sz m = Done (a, m')"
  obtains ob k where "storage m p = Some ob" "k \<le> sz" "storage m' = (storage m)(p := None, a \<mapsto> fb k ob)"
proof -
  obtain ob where ob: "storage m p = Some ob" using assms by (auto simp: memory_realloc_def split: option.splits)
  define old where "old = (case memory_find_node p (all_objects m) of None \<Rightarrow> 0 | Some n \<Rightarrow> nsize n)"
  obtain ptr q where gs: "get_space sys sz (snd (bread_pool_free (Some p) (small_pool m))) = (ptr, q)" by fastforce
  have "storage m' = (storage m)(p := None, a \<mapsto> fb (if old < sz then old else sz) ob)"
    using assms ob gs
    by (simp add: memory_realloc_def Let_def memory_ensure_init_def flip: old_def split: option.split_asm) auto
  moreover have "(if old < sz then old else sz) \<le> sz" by (simp add: word_le_less_eq)
  ultimately show thesis using that [OF ob] by blast
qed

lemma one_or_more: "w \<noteq> 0 \<Longrightarrow> 1 \<le> (w :: 'a::len word)"
  by (metis word_le_less_eq word_less_1 not_le_imp_less word_coorder.not_eq_extremum)

lemma release_effect:
  assumes "manager_ok m" "object_release ptr m = Done m'"
  shows "object_effect (Released ptr) (storage m) (storage m')"
proof (cases ptr)
  case None
  with assms show ?thesis by (simp add: object_release_def)
next
  case (Some a)
  then obtain ob where ob: "storage m a = Some ob"
    using assms(2) by (auto simp: object_release_def split: option.splits)
  then have pos: "hdr_refcount ob \<noteq> 0" using assms(1) unfolding manager_ok_def by blast
  note one = one_or_more [OF pos]
  show ?thesis
  proof (cases "hdr_refcount ob = 1")
    case True
    with assms(2) Some ob have "memory_free (Some a) m = Done m'"
      by (auto simp: object_release_def free_storage_upd Let_def split: if_splits)
    from free_storage [OF this] show ?thesis using ob Some True by simp
  next
    case False
    with assms(2) Some ob pos one show ?thesis by (auto simp: object_release_def Let_def)
  qed
qed

lemma retain_effect:
  assumes "object_retain ptr m = Done m'"
  shows "object_effect (Retained ptr) (storage m) (storage m')"
proof (cases ptr)
  case None
  with assms show ?thesis by (simp add: object_retain_def)
next
  case (Some a)
  with assms obtain ob where ob: "storage m a = Some ob" "hdr_refcount ob \<noteq> - 1"
    "storage m' = (storage m)(a \<mapsto> ob\<lparr>hdr_refcount := hdr_refcount ob + 1\<rparr>)"
    by (auto simp: object_retain_def split: option.splits if_splits)
  have "unat (hdr_refcount ob) < 2 ^ 32 - 1" using below_top [OF ob(2)] .
  with ob Some show ?thesis by simp
qed

lemma event_effect:
  "memory_does ev m m' \<Longrightarrow> manager_ok m \<Longrightarrow> object_effect ev (storage m) (storage m')"
proof (induction rule: memory_does.induct)
  case (alloc sys m sz kd a m')
  have "dom (storage m) = live_objects m" using alloc(3) by (simp add: manager_ok_def)
  with manager_alloc_ok [OF alloc(3,1,2)] show ?case by auto
next
  case (realloc sys p m fb sz a m')
  then have ini: "g_mem_initialized m" by (simp add: manager_ok_def)
  from realloc_storage [OF ini realloc(3)] obtain ob k where
    st: "storage m p = Some ob" "k \<le> sz" "storage m' = (storage m)(p := None, a \<mapsto> fb k ob)" .
  have "a \<notin> dom (storage m) - {p}"
    using realloc_ok [OF realloc(4,1,3,2)] realloc(4) by (simp add: manager_ok_def)
  then have "a = p \<or> storage m a = None" by auto
  with st show ?case unfolding object_effect.simps by blast
next
  case (free a m m')
  with live_stored [OF free(3,1)] free_storage [OF free(2)] show ?case by auto
next
  case (retain ptr m m')
  then show ?case by (intro retain_effect)
next
  case (release ptr m m')
  then show ?case by (intro release_effect)
next
  case (collect m)
  with collect_same [of m] show ?case by simp
qed (auto simp: manager_ok_def settings_storage)

lemma free_runs:
  assumes "storage m a \<noteq> None"
  shows "\<exists>m'. memory_free (Some a) m = Done m'"
proof -
  have "storage (untrack_object_internal a m) = storage m"
    by (auto simp: untrack_object_internal_def Let_def split: option.splits prod.splits)
  with assms show ?thesis by (auto simp: memory_free_def Let_def split: prod.splits)
qed

lemma event_possible:
  assumes "manager_ok m" "storage m a = Some ob"
  shows "(\<exists>m'. memory_does (Freed a) m m') \<and> (\<exists>m'. memory_does (Released (Some a)) m m') \<and>
    (hdr_refcount ob \<noteq> - 1 \<longrightarrow> (\<exists>m'. memory_does (Retained (Some a)) m m'))"
proof -
  have nz: "hdr_refcount ob \<noteq> 0" using assms unfolding manager_ok_def by blast
  obtain m1 where fr: "memory_free (Some a) m = Done m1" using free_runs [of m a] assms(2) by auto
  have "\<exists>m'. object_release (Some a) m = Done m'"
    using assms(2) nz fr by (simp add: object_release_def Let_def free_storage_upd)
  moreover have "hdr_refcount ob \<noteq> - 1 \<longrightarrow> (\<exists>m'. object_retain (Some a) m = Done m')"
    using assms(2) by (simp add: object_retain_def)
  moreover have "memory_does (Freed a) m m1"
    by (rule memory_does.free [OF live_storage [OF assms] fr])
  ultimately show ?thesis by (blast intro: memory_does.intros)
qed


section \<open>The manager's properties\<close>

lemma leak_check: "manager_ok m \<Longrightarrow> memory_check_leaks m \<longleftrightarrow> storage m \<noteq> Map.empty"
proof -
  assume ok: "manager_ok m"
  then have "n_current_objects (stats m) = 0 \<longleftrightarrow> all_objects m = []"
    by (metis counts_ok_def length_0_conv manager_ok_def unat_eq_zero)
  also have "\<dots> \<longleftrightarrow> dom (storage m) = {}" using ok by (simp add: manager_ok_def live_objects_def tracked_def)
  finally show ?thesis using ok by (simp add: memory_check_leaks_def manager_ok_def)
qed

lemma alloc_runs:
  assumes "g_mem_initialized m" "fst (get_space sys sz (small_pool m)) = Some a"
  shows "\<exists>m'. memory_alloc sys sz kd m = Done (a, m')"
  using assms by (cases "get_space sys sz (small_pool m)") (simp add: memory_alloc_def Let_def)

definition sample_system :: system where
  "sample_system = \<lparr>calloc_ret = Some 4096, malloc_ret = None, node_ret = True\<rparr>"

definition cyclic_array :: body where
  \<comment> \<open>the array at 4096 that holds itself\<close>
  "cyclic_array = BArray \<lparr>acapacity = 1, element_type = TYPE_ARRAY, items = [VArray (Some 4096)]\<rparr>"

lemma sample_run:
  obtains m1 m where
    "memory_alloc sample_system 40 BREAD_OBJ_ARRAY
       (memory_set_cycle_collection_threshold 1 (memory_start error_state0)) = Done (4096, m1)"
    "memory_step\<^sup>*\<^sup>* (memory_start error_state0) m1"
    "memory_does (Filled 4096 (Some cyclic_array)) m1 m"
    "storage m = [4096 \<mapsto> \<lparr>hdr_kind = BREAD_OBJ_ARRAY, hdr_refcount = 1, contents = Some cyclic_array\<rparr>]"
proof -
  let ?m0 = "memory_set_cycle_collection_threshold 1 (memory_start error_state0)"
  have s0: "memory_step\<^sup>*\<^sup>* (memory_start error_state0) ?m0"
    by (rule r_into_rtranclp) (rule memory_stepI [OF memory_does.threshold])
  have ok0: "manager_ok ?m0" by (rule run_ok [OF s0])
  then have i0: "g_mem_initialized ?m0" by (simp add: manager_ok_def)
  have p0: "small_pool ?m0 = empty_pool" "all_objects ?m0 = []" "storage ?m0 = Map.empty"
    by (simp_all add: memory_set_cycle_collection_threshold_def memory_start_def memory_ensure_init_def Let_def)
  have sys: "system_ok sample_system {} ?m0"
    by (simp add: system_ok_def sample_system_def p0 live_objects_def chunk_fits_def empty_pool_def pool_region_def)
  have "fst (get_space sample_system 40 empty_pool) = Some 4096" by code_simp
  then obtain m1 where m1: "memory_alloc sample_system 40 BREAD_OBJ_ARRAY ?m0 = Done (4096, m1)"
    using alloc_runs [OF i0] p0 by metis
  have st1: "memory_step ?m0 m1"
    "storage m1 = [4096 \<mapsto> \<lparr>hdr_kind = BREAD_OBJ_ARRAY, hdr_refcount = 1, contents = None\<rparr>]"
    using memory_stepI [OF memory_does.alloc [OF sys m1]] manager_alloc_ok [OF ok0 sys m1] p0(3) by simp_all
  let ?ob = "\<lparr>hdr_kind = BREAD_OBJ_ARRAY, hdr_refcount = 1, contents = None\<rparr>"
  show thesis
  proof (rule that [OF m1])
    show "memory_step\<^sup>*\<^sup>* (memory_start error_state0) m1" using s0 st1(1) by simp
    show "memory_does (Filled 4096 (Some cyclic_array)) m1 (m1\<lparr>storage := (storage m1)(4096 \<mapsto> ?ob\<lparr>contents := Some cyclic_array\<rparr>)\<rparr>)"
      by (rule memory_does.fill) (simp add: st1(2))
  qed (simp add: st1(2))
qed

text \<open>
  C10: Along every run of the memory manager of memory.c (allocations, reallocations, frees,
  retains, releases, writes, collections, changes of roots and settings, with malloc and calloc
  returning memory apart from what is in use) the invariant holds: the tracked objects are
  distinct and are exactly those in memory, the pool's used blocks are exactly the tracked
  objects in its chunks, every object has a positive count, and the statistics say how many
  objects and bytes there are; bread_memory_check_leaks reports a leak exactly when an object is
  left.
\<close>

theorem memory_runs_ok:
  assumes "memory_step\<^sup>*\<^sup>* (memory_start e) m"
  shows "manager_ok m \<and> (memory_check_leaks m \<longleftrightarrow> storage m \<noteq> Map.empty)"
  using run_ok [OF assms] leak_check by blast

lemma memory_runs_ok_witness:
  "\<exists>m. memory_step\<^sup>*\<^sup>* (memory_start error_state0) m \<and> manager_ok m \<and> memory_check_leaks m"
proof -
  obtain m1 m where r: "memory_step\<^sup>*\<^sup>* (memory_start error_state0) m1" "memory_does (Filled 4096 (Some cyclic_array)) m1 m"
    "storage m = [4096 \<mapsto> \<lparr>hdr_kind = BREAD_OBJ_ARRAY, hdr_refcount = 1, contents = Some cyclic_array\<rparr>]"
    by (rule sample_run)
  then have "memory_step\<^sup>*\<^sup>* (memory_start error_state0) m" by (auto dest: memory_stepI)
  with memory_runs_ok [OF this] r(3) show ?thesis by (metis map_upd_nonempty)
qed



text \<open>
  A collection never frees anything that a run of the manager has left in memory: every
  object there has a count, every object with a count is a starting point of the marking, so
  bread_memory_collect_cycles keeps the tracked objects, the memory, the pool and the statistics
  as they are. In particular a cycle of objects that only hold each other stays for ever.
\<close>

theorem collector_frees_nothing:
  assumes "memory_step\<^sup>*\<^sup>* (memory_start e) m"
  shows "live_objects (memory_collect_cycles m) = live_objects m \<and>
    storage (memory_collect_cycles m) = storage m \<and>
    small_pool (memory_collect_cycles m) = small_pool m \<and> stats (memory_collect_cycles m) = stats m"
  using collect_same [OF run_ok [OF assms]] manager_ok_cong(2) [OF run_ok [OF assms]] by blast

lemma collector_frees_nothing_witness:
  "\<exists>m. memory_step\<^sup>*\<^sup>* (memory_start error_state0) m \<and>
     storage (memory_collect_cycles m) =
       [4096 \<mapsto> \<lparr>hdr_kind = BREAD_OBJ_ARRAY, hdr_refcount = 1, contents = Some cyclic_array\<rparr>]"
proof -
  obtain m1 m where r: "memory_step\<^sup>*\<^sup>* (memory_start error_state0) m1" "memory_does (Filled 4096 (Some cyclic_array)) m1 m"
    "storage m = [4096 \<mapsto> \<lparr>hdr_kind = BREAD_OBJ_ARRAY, hdr_refcount = 1, contents = Some cyclic_array\<rparr>]"
    by (rule sample_run)
  then have "memory_step\<^sup>*\<^sup>* (memory_start error_state0) m" by (auto dest: memory_stepI)
  with collector_frees_nothing [OF this] r(3) show ?thesis by metis
qed

end
