(* ===== verification/Spec2Isabelle.thy ===== *)
theory Spec2Isabelle
  imports BreadPrelude BreadTypes BreadTypeParser BreadErrors BreadErrorRuns BreadHeap BreadRefcount BreadStrings
    BreadSlots BreadDoubles BreadArrays BreadProbing BreadDicts BreadDictTables BreadDictLaws
    BreadDictStrings BreadRecords BreadClasses BreadRounding BreadText BreadOperators
    BreadAccess BreadScopes BreadAST BreadExprParser BreadExprRoundtrip BreadEscape BreadStability BreadInline BreadStmtParser
    BreadBuiltins BreadSemantics BreadTyping BreadFunctions BreadModules BreadModuleLaws
    BreadPool BreadMemory BreadCollector BreadMemoryLaws
begin

text \<open>
  BreadLang: a compiler for a small typed language, with a runtime library, in C. This is the root of a
  development that models the compiler's front end and middle (parsers, semantic analysis, analyses
  for optimisation) and the runtime the compiled program calls (types, heap, containers, classes,
  operators, variables, built-in functions), and proves what these parts promise. File names
  below are those of the repository (headers under \<^verbatim>\<open>include/\<close>, code under \<^verbatim>\<open>src/\<close>);
  a definition has the name of the C function it models unless HOL has that name already, and
  the helpers it is split into stand just before it.

  How the program works. \<^verbatim>\<open>ast_parse_program\<close> turns a text into a list of statements
  (\<^verbatim>\<open>ast_stmt_parser.c\<close>, which calls \<^verbatim>\<open>ast_expr_parser.c\<close> for expressions and
  \<^verbatim>\<open>ast_types.c\<close> for written types); \<^verbatim>\<open>cg_semantic_analyze\<close> declares its functions,
  checks every statement and writes the inferred types into the tree; the escape, stability and
  optimisation analyses annotate it; the code generator then emits calls of the runtime.
  At run time values are tagged unions, some of them pointers to reference-counted objects, and
  every part of the runtime acquires and drops them through \<^verbatim>\<open>bread_value_clone\<close> and
  \<^verbatim>\<open>bread_value_release\<close>. Errors go to one global error state; a report outside compilation
  ends the process.

  Conventions. A C function that can fail hard is a function to \<open>outcome\<close>: \<open>Done\<close> with its
  result and the changed state, \<open>Aborted\<close> when an error report ends the process, \<open>Undefined\<close> where C
  gives no meaning (a read out of bounds, a signed overflow, a cast that does not fit). The
  heap, the scopes, the tracker of an analysis and the compiler's tables are passed explicitly as
  records. A 64-bit integer of the language is a \<open>64 word\<close> read with \<open>sint\<close>; doubles and floats are
  their IEEE-754 bit patterns, so that every definition can be evaluated.

  The theories, in the order of the program:

  \<^item> \<open>BreadPrelude\<close>: C strings, the characters of \<^verbatim>\<open>ctype.h\<close>, \<^verbatim>\<open>snprintf\<close>, shared lemmas.
  \<^item> \<open>BreadTypes\<close>: \<^verbatim>\<open>core/type_descriptor.c\<close>. Equality is an equivalence that cloning
    respects; every value of a type fits every type that compatibility accepts for it, where arrays and
    dictionaries of the type of empty literals are empty.
  \<^item> \<open>BreadTypeParser\<close>: \<^verbatim>\<open>compiler/ast/ast_types.c\<close>. It always returns, and reads back
    every type that can be written.
  \<^item> \<open>BreadErrors\<close>, \<open>BreadErrorRuns\<close>: \<^verbatim>\<open>runtime/error.c\<close> and the outcomes; what any sequence of reports, clears
    and context changes leaves, and which report ends the process.
  \<^item> \<open>BreadHeap\<close>, \<open>BreadRefcount\<close>, \<open>BreadSlots\<close>: objects, \<^verbatim>\<open>core/value_core.c\<close>, the reference counts
    of \<^verbatim>\<open>runtime/memory.c\<close>. \<open>heap_ok m R\<close> says that the count of every object is the number
    of references to it, from live objects and from the multiset \<open>R\<close> of values held
    outside; clone and release keep it, a release frees exactly what becomes unreachable, and the
    statistics are exact. \<open>BreadSlots\<close> takes the updates of a container step by step.
  \<^item> \<open>BreadPool\<close>, \<open>BreadMemory\<close>, \<open>BreadCollector\<close>, \<open>BreadMemoryLaws\<close>: the rest of \<^verbatim>\<open>runtime/memory.c\<close> below that
    heap, with the addresses of the machine. The pool keeps its promise \<open>block_allocator\<close> of a set
    of used blocks; every run of the manager keeps tracked objects, memory, pool and statistics in
    step, and each of its calls (\<open>memory_event\<close>) has the effect on a store of counted objects that \<open>object_effect\<close>
    gives it; the collector keeps exactly what can be reached from counted objects and roots through the contents
    of objects (\<open>reachable_objects\<close>), which in a run is everything, since every object there has a count.
  \<^item> \<open>BreadStrings\<close>: \<^verbatim>\<open>runtime/string_ops.c\<close> with interned literals. It holds the locale
    \<open>value_store\<close>, what a container may rely on when it acquires and drops values,
    interpreted on the heap as \<open>rt\<close>; every container proof rests on its facts.
  \<^item> \<open>BreadArrays\<close>: \<^verbatim>\<open>core/value_array.c\<close> and \<^verbatim>\<open>runtime/array_utils.c\<close>: element types, bounds,
    insertion and removal as list operations, search, ranges.
  \<^item> \<open>BreadProbing\<close>, \<open>BreadDicts\<close>, \<open>BreadDictTables\<close>, \<open>BreadDictLaws\<close>, \<open>BreadDictStrings\<close>: \<^verbatim>\<open>core/value_dict.c\<close>.
    The locale \<open>probing\<close> states linear probing for any hash and comparison that agree; it is
    interpreted on the hash and comparison of keys as \<open>keys\<close>. The hashed operations behave as a
    map and the string-keyed ones as an association list.
  \<^item> \<open>BreadRecords\<close>, \<open>BreadClasses\<close>: \<^verbatim>\<open>core/value_struct.c\<close>, \<^verbatim>\<open>core/value_optional.c\<close>,
    \<^verbatim>\<open>core/value_class.c\<close>. The locale \<open>slotted\<close> covers objects with named fields and is
    interpreted on structs and on class instances. The registry of classes, inheritance, method
    look-up and construction of instances.
  \<^item> \<open>BreadDoubles\<close>, \<open>BreadRounding\<close>, \<open>BreadText\<close>: floating point numbers, their rounding, and numbers as text.
  \<^item> \<open>BreadOperators\<close>, \<open>BreadAccess\<close>: \<^verbatim>\<open>runtime/value_ops.c\<close> and \<^verbatim>\<open>runtime/operators.c\<close>.
  \<^item> \<open>BreadBuiltins\<close>: \<^verbatim>\<open>runtime/builtins.c\<close>, over the heap and the standard streams. A call gives a value
    of the declared type, and \<open>int\<close> reads what \<open>str\<close> writes.
  \<^item> \<open>BreadScopes\<close>: \<^verbatim>\<open>core/var.c\<close> and the \<^verbatim>\<open>bread_var\<close> functions of \<^verbatim>\<open>runtime/runtime.c\<close>.
    Runs of scope operations keep the invariant; an assignment changes the nearest variable of its name; a
    global constant keeps its value.
  \<^item> \<open>BreadAST\<close>: \<^verbatim>\<open>include/compiler/ast/ast.h\<close> and the recursion over trees.
  \<^item> \<open>BreadExprParser\<close>, \<open>BreadExprRoundtrip\<close>, \<open>BreadStmtParser\<close>: the parsers. They return on every text
    without running past its end, and expressions are read back from what a printer writes that uses
    parentheses only where precedence and associativity need them.
  \<^item> \<open>BreadSemantics\<close>, \<open>BreadTyping\<close>: \<^verbatim>\<open>codegen/codegen_semantic.c\<close>. The static semantics \<open>program_typed\<close>
    keeps lexical scopes as a list of frames where the code keeps one list of variables with
    depths; every accepted program satisfies it, the functions of an accepted program return,
    inferred operator types are those the runtime computes, and the analysis ends.
  \<^item> \<open>BreadEscape\<close>, \<open>BreadStability\<close>, \<open>BreadInline\<close>: \<^verbatim>\<open>compiler/analysis/\<close> and
    \<^verbatim>\<open>compiler/optimization/\<close>. Arguments, returned values and the items of the nodes the escape analysis looks
    at are not marked as staying on the stack (elements of array literals are not looked at); scopes are balanced; a
    function that calls itself is not inlined, outside the constructs the search skips.
  \<^item> \<open>BreadFunctions\<close>: \<^verbatim>\<open>core/function.c\<close>, the table of functions and the defaults of their parameters.
  \<^item> \<open>BreadModules\<close>, \<open>BreadModuleLaws\<close>: \<^verbatim>\<open>core/module.c\<close>. A path leads to the first regular file among its
    candidates; preprocessing keeps every table consistent, returns when imports have no cycle, and
    the program it makes has every imported module in the place of its first import and a constant for
    each alias, which starts as what the source of the module exports by default.

  Loops and fuel. Recursion over data is structural. A parser is a step with a parameter for the
  parser of the smaller texts, run with as much fuel as there are characters (\<open>Suc (length s)\<close> for
  expressions, types and programs, twice the length and one for statements); the totality
  theorems say that this fuel is never used up. A walk up a class hierarchy gets one
  step more than there are classes: when it is used up, a class has come again and the loop of the
  code never ends, which is the verdict \<open>Never\<close> (\<open>cyclic_hierarchy\<close> shows it happens). Preprocessing a
  module takes the depth of nested imports to follow; \<open>preprocessing_returns\<close> shows that some depth is enough
  when the imports have no cycle, and that more does not change the result. Marking stops because each
  round marks a node or shortens the stack, and its stack of 8192 nodes is enough while all objects together
  hold fewer values. The release of an object is a work list with a termination proof; the loop of a range is a
  \<open>partial_function\<close>, and \<open>range_correct\<close> shows when it returns.

  Parameters. Machine code of methods (in \<open>BreadClasses\<close> and \<open>BreadAccess\<close>) is an argument of the
  definitions that call it, and what a theorem needs of it is one of its hypotheses; the text
  of a source line in an error report and the file system are arguments as well.

  Not modelled. Outside the memory manager, whose operations take what \<^verbatim>\<open>calloc\<close> and \<^verbatim>\<open>malloc\<close> return
  as an argument, memory is never exhausted, so the branches after a failed \<^verbatim>\<open>malloc\<close> and the
  frees of plain C memory have no counterpart; capacities of arrays and dictionaries are natural numbers, so that the
  doubling of an \<^verbatim>\<open>int\<close> past \<open>2^30\<close> is not seen. Source locations are not kept in trees. The code generator (\<^verbatim>\<open>codegen_expr.c\<close>,
  \<^verbatim>\<open>codegen_stmt.c\<close>, \<^verbatim>\<open>codegen_helpers.c\<close>, \<^verbatim>\<open>codegen_runtime_bridge.c\<close>,
  \<^verbatim>\<open>optimized_codegen.c\<close>) and the LLVM backend consist of calls into the LLVM library, which the
  repository does not hold. The evaluator of expression texts in \<^verbatim>\<open>compiler/parser/expr.c\<close> and
  \<^verbatim>\<open>expr_ops.c\<close> is a second, older implementation that compilation does not reach. The command
  line, the dump of trees and printing are input and output.
\<close>

end
